(* ===== verification/Prelude.thy ===== *)
theory Prelude
  imports Main "HOL-Library.Word" "HOL-Library.Multiset"
begin

text \<open>
  Shared vocabulary of the development: the result type of operations that may block, throw
  or run into undefined behaviour, its sequencing operator, and generic facts about lists that
  model \<open>std::list\<close> and \<open>std::vector\<close>.
\<close>

named_theorems outcome_simps \<open>rewriting of sequenced outcomes\<close>
named_theorems fes_defs \<open>unfolding of the straight-line operations of the event system\<close>

section \<open>Outcomes\<close>

text \<open>
  \<open>Ret\<close> is a normal return; \<open>Undefined\<close> is C++ undefined behaviour (a dangling reference, an
  erased iterator); \<open>Blocked\<close> is a thread that sleeps because its guard does not hold and
  nobody else runs; \<open>Throws\<close> is an exception that leaves the operation; \<open>No_Fuel\<close> is a run
  cut off by the step bound of the interpreter.
\<close>

datatype exn = Runtime_Error string | Bad_Alloc | Element_Exception

datatype 'a outcome = Ret 'a | Undefined | Blocked | Throws exn | No_Fuel

fun and_then :: "'a outcome \<Rightarrow> ('a \<Rightarrow> 'b outcome) \<Rightarrow> 'b outcome" where
  "and_then (Ret x) k = k x"
| "and_then Undefined k = Undefined"
| "and_then Blocked k = Blocked"
| "and_then (Throws e) k = Throws e"
| "and_then No_Fuel k = No_Fuel"

lemma and_then_cong [fundef_cong]:
  "m = n \<Longrightarrow> (\<And>x. n = Ret x \<Longrightarrow> k x = l x) \<Longrightarrow> and_then m k = and_then n l"
  by (cases n) auto

lemma and_then_eq_Ret [outcome_simps]:
  "and_then m k = Ret y \<longleftrightarrow> (\<exists>x. m = Ret x \<and> k x = Ret y)"
  by (cases m) auto

lemma and_then_No_Fuel [outcome_simps]:
  "and_then m k = No_Fuel \<longleftrightarrow> m = No_Fuel \<or> (\<exists>x. m = Ret x \<and> k x = No_Fuel)"
  by (cases m) auto

lemma and_then_assoc [outcome_simps]:
  "and_then (and_then m k) l = and_then m (\<lambda>x. and_then (k x) l)"
  by (cases m) auto

text \<open>The two ways a call can end up with a value are the fuel running out and everything else;
  a result other than \<open>No_Fuel\<close> is final.\<close>

definition final :: "'a outcome \<Rightarrow> bool" where
  "final r \<longleftrightarrow> r \<noteq> No_Fuel"

lemma final_simps [simp]:
  "final (Ret x)" "final Undefined" "final Blocked" "final (Throws e)" "\<not> final No_Fuel"
  by (simp_all add: final_def)

lemma final_and_then:
  "final (and_then m k) \<longleftrightarrow> final m \<and> (\<forall>x. m = Ret x \<longrightarrow> final (k x))"
  by (cases m) auto

section \<open>Nodes of a linked list\<close>

text \<open>
  A \<open>std::list\<close> is the list of its nodes, each with the identity its iterators refer to. An
  iterator is the identity of a node, or \<open>None\<close> for \<open>end()\<close>.
\<close>

fun succ_of :: "'k \<Rightarrow> 'k list \<Rightarrow> 'k option" where
  "succ_of k [] = None"
| "succ_of k (x # xs) = (if x = k then (case xs of [] \<Rightarrow> None | y # _ \<Rightarrow> Some y) else succ_of k xs)"

lemma succ_of_append [simp]:
  "k \<notin> set xs \<Longrightarrow> succ_of k (xs @ k # ys) = (case ys of [] \<Rightarrow> None | y # _ \<Rightarrow> Some y)"
  by (induction xs) auto

definition begin_of :: "'k list \<Rightarrow> 'k option" where
  "begin_of xs = (case xs of [] \<Rightarrow> None | x # _ \<Rightarrow> Some x)"

lemma begin_of_simps [simp]: "begin_of [] = None" "begin_of (x # xs) = Some x"
  by (simp_all add: begin_of_def)

lemma length_filter_key:
  assumes "distinct (map fst xs)" and "k \<in> fst ` set xs"
  shows "length (filter (\<lambda>p. fst p \<noteq> k) xs) + 1 = length xs"
  using assms
proof (induction xs)
  case (Cons x xs)
  have "filter (\<lambda>p. fst p \<noteq> fst x) xs = xs" using Cons.prems(1)
    by (intro filter_True ballI) (metis distinct.simps(2) image_eqI list.map(2) list.set_map)
  with Cons show ?case by (cases "fst x = k") auto
qed simp

section \<open>Words and natural numbers\<close>

lemma unat_of_nat_64: "n < 2 ^ 64 \<Longrightarrow> unat (of_nat n :: 64 word) = n"
  by (simp add: unsigned_of_nat take_bit_nat_eq_self_iff)

lemma of_nat_unat [simp]: "of_nat (unat (x :: 64 word)) = x"
  by simp

lemma word_eq_of_natI: "unat (x :: 64 word) = n \<Longrightarrow> x = of_nat n"
  by auto

lemma unat_minus_1: "(x :: 64 word) \<noteq> 0 \<Longrightarrow> unat (x - 1) = unat x - 1"
  by (rule unat_minus_one)

lemma unat_lt_64: "unat (x :: 64 word) < 2 ^ 64"
  using unsigned_less [of x, where ?'a = nat] by simp

lemma unat_plus_1: "(x :: 64 word) < y \<Longrightarrow> unat (x + 1) = Suc (unat x)"
proof -
  assume "x < y"
  then have "Suc (unat x) < 2 ^ 64" using unat_lt_64 [of y] by (simp add: word_less_nat_alt)
  then show ?thesis by (simp add: unat_word_ariths)
qed

end
