(* ===== verification/Sem.thy ===== *)
theory Sem
  imports Prelude
begin

text \<open>
  The counting semaphore of \<^verbatim>\<open>include/sem.h\<close>. First the operations as one thread sees them, then
  the same code as a transition system in which any number of threads run \<open>notify()\<close> and
  \<open>wait()\<close> under the mutex and the condition variable.
\<close>

section \<open>The semaphore as one thread sees it\<close>

record semaphore =
  sem_len :: "64 word"

definition semaphore_new :: "64 word \<Rightarrow> semaphore" where
  "semaphore_new n = \<lparr>sem_len = n\<rparr>"

definition sem_size :: "semaphore \<Rightarrow> 64 word" where
  "sem_size s = sem_len s"

definition sem_notify :: "semaphore \<Rightarrow> semaphore" where
  "sem_notify s = s\<lparr>sem_len := sem_len s + 1\<rparr>"

definition sem_wait :: "semaphore \<Rightarrow> semaphore outcome" where
  "sem_wait s = (if 0 < sem_size s then Ret (s\<lparr>sem_len := sem_len s - 1\<rparr>) else Blocked)"

lemmas sem_defs [fes_defs] = semaphore_new_def sem_size_def sem_notify_def sem_wait_def

lemma sem_wait_notify: "sem_len s \<noteq> - 1 \<Longrightarrow> sem_wait (sem_notify s) = Ret s"
  by (simp add: sem_defs word_neq_0_conv [symmetric] eq_neg_iff_add_eq_0)

section \<open>The semaphore under any number of threads\<close>

text \<open>
  A thread is inside \<open>notify()\<close> (states \<open>N\<dots>\<close>), inside \<open>wait()\<close> (states \<open>W\<dots>\<close>) or outside the
  class. Threads are interchangeable, so a state holds the multiset of their program counters.
  \<open>_cond.wait(lock, pred)\<close> is the loop \<open>while (!pred()) wait(lock)\<close>: the predicate is tested
  with the mutex held (\<open>WCheck\<close>), a failed test releases the mutex and sleeps (\<open>WSleep\<close>), and a
  thread woken by \<open>notify_one\<close>, or spuriously, competes for the mutex again (\<open>WWoken\<close>).
\<close>

datatype sem_pc =
  Outside | NLock | NIncr | NNotify | NUnlock
| WLock | WCheck | WSleep | WWoken | WDecr | WUnlock

record sem_sys =
  ss_len :: "64 word"
  ss_locked :: bool
  ss_thr :: "sem_pc multiset"
  ss_incs :: nat \<comment> \<open>ghost: how often \<open>++_len\<close> was executed\<close>
  ss_decs :: nat \<comment> \<open>ghost: how often \<open>--_len\<close> was executed\<close>

definition sem_move :: "sem_pc \<Rightarrow> sem_pc \<Rightarrow> sem_sys \<Rightarrow> sem_sys" where
  "sem_move p q s = s\<lparr>ss_thr := add_mset q (ss_thr s - {#p#})\<rparr>"

inductive sem_step :: "sem_sys \<Rightarrow> sem_sys \<Rightarrow> bool" where
  call_notify: "Outside \<in># ss_thr s \<Longrightarrow> sem_step s (sem_move Outside NLock s)"
| n_lock: "NLock \<in># ss_thr s \<Longrightarrow> \<not> ss_locked s \<Longrightarrow>
    sem_step s ((sem_move NLock NIncr s)\<lparr>ss_locked := True\<rparr>)"
| n_incr: "NIncr \<in># ss_thr s \<Longrightarrow>
    sem_step s ((sem_move NIncr NNotify s)\<lparr>ss_len := ss_len s + 1, ss_incs := Suc (ss_incs s)\<rparr>)"
| n_notify_one: "NNotify \<in># ss_thr s \<Longrightarrow> WSleep \<in># ss_thr s \<Longrightarrow>
    sem_step s (sem_move WSleep WWoken (sem_move NNotify NUnlock s))"
| n_notify_none: "NNotify \<in># ss_thr s \<Longrightarrow> WSleep \<notin># ss_thr s \<Longrightarrow>
    sem_step s (sem_move NNotify NUnlock s)"
| n_unlock: "NUnlock \<in># ss_thr s \<Longrightarrow>
    sem_step s ((sem_move NUnlock Outside s)\<lparr>ss_locked := False\<rparr>)"
| call_wait: "Outside \<in># ss_thr s \<Longrightarrow> sem_step s (sem_move Outside WLock s)"
| w_lock: "WLock \<in># ss_thr s \<Longrightarrow> \<not> ss_locked s \<Longrightarrow>
    sem_step s ((sem_move WLock WCheck s)\<lparr>ss_locked := True\<rparr>)"
| w_relock: "WWoken \<in># ss_thr s \<Longrightarrow> \<not> ss_locked s \<Longrightarrow>
    sem_step s ((sem_move WWoken WCheck s)\<lparr>ss_locked := True\<rparr>)"
| w_pass: "WCheck \<in># ss_thr s \<Longrightarrow> 0 < ss_len s \<Longrightarrow> sem_step s (sem_move WCheck WDecr s)"
| w_sleep: "WCheck \<in># ss_thr s \<Longrightarrow> \<not> 0 < ss_len s \<Longrightarrow>
    sem_step s ((sem_move WCheck WSleep s)\<lparr>ss_locked := False\<rparr>)"
| w_spurious: "WSleep \<in># ss_thr s \<Longrightarrow> sem_step s (sem_move WSleep WWoken s)"
| w_decr: "WDecr \<in># ss_thr s \<Longrightarrow>
    sem_step s ((sem_move WDecr WUnlock s)\<lparr>ss_len := ss_len s - 1, ss_decs := Suc (ss_decs s)\<rparr>)"
| w_unlock: "WUnlock \<in># ss_thr s \<Longrightarrow>
    sem_step s ((sem_move WUnlock Outside s)\<lparr>ss_locked := False\<rparr>)"

definition sem_init :: "64 word \<Rightarrow> nat \<Rightarrow> sem_sys" where
  "sem_init n threads =
     \<lparr>ss_len = n, ss_locked = False, ss_thr = replicate_mset threads Outside,
      ss_incs = 0, ss_decs = 0\<rparr>"

inductive sem_reach :: "64 word \<Rightarrow> nat \<Rightarrow> sem_sys \<Rightarrow> bool" for n threads where
  sem_start: "sem_reach n threads (sem_init n threads)"
| sem_next: "sem_reach n threads s \<Longrightarrow> sem_step s t \<Longrightarrow> sem_reach n threads t"

subsection \<open>Invariant\<close>

abbreviation pcs :: "sem_sys \<Rightarrow> sem_pc \<Rightarrow> nat" where
  "pcs s p \<equiv> count (ss_thr s) p"

definition holders :: "sem_sys \<Rightarrow> nat" where
  "holders s = pcs s NIncr + pcs s NNotify + pcs s NUnlock + pcs s WCheck + pcs s WDecr + pcs s WUnlock"

text \<open>
  The mutex has at most one holder; the length is the initial value plus the increments minus
  the decrements; a thread about to decrement sees a positive length; and while somebody sleeps,
  every unit of the length has a thread that will still look at it or wake somebody up.
\<close>

definition sem_inv :: "64 word \<Rightarrow> sem_sys \<Rightarrow> bool" where
  "sem_inv n s \<longleftrightarrow>
     holders s = (if ss_locked s then 1 else 0) \<and>
     ss_decs s \<le> unat n + ss_incs s \<and>
     ss_len s = of_nat (unat n + ss_incs s - ss_decs s) \<and>
     (0 < pcs s WDecr \<longrightarrow> ss_len s \<noteq> 0) \<and>
     (0 < pcs s WSleep \<longrightarrow>
        unat (ss_len s) \<le> pcs s WWoken + pcs s WCheck + pcs s WDecr + pcs s NNotify)"

lemma pcs_move [simp]:
  "p \<in># ss_thr s \<Longrightarrow> pcs (sem_move p q s) x =
     (if x = q then 1 else 0) + (if x = p then pcs s x - 1 else pcs s x)"
  by (simp add: sem_move_def)

lemma sem_move_simps [simp]:
  "ss_len (sem_move p q s) = ss_len s" "ss_locked (sem_move p q s) = ss_locked s"
  "ss_incs (sem_move p q s) = ss_incs s" "ss_decs (sem_move p q s) = ss_decs s"
  by (simp_all add: sem_move_def)

lemma sem_inv_init: "sem_inv n (sem_init n threads)"
  by (simp add: sem_inv_def sem_init_def holders_def)

lemma unat_Suc_le: "unat (x + 1 :: 64 word) \<le> Suc (unat x)"
  by (simp add: unat_word_ariths)

lemma unat_pred: "(x :: 64 word) \<noteq> 0 \<Longrightarrow> unat (x - 1) = unat x - 1"
  by (simp add: unat_minus_one)

lemma of_nat_drained: "of_nat (k + i - d) \<noteq> (0 :: 64 word) \<Longrightarrow> d \<le> k + i \<Longrightarrow> Suc d \<le> k + i"
  by (cases "d = k + i") auto

lemmas in_mset_count = count_greater_zero_iff [symmetric]

declare count_greater_zero_iff [simp del]

lemma sem_inv_step:
  assumes "sem_step s t" and "sem_inv n s"
  shows "sem_inv n t"
  using assms
proof (induction rule: sem_step.induct)
  case (n_incr s)
  have "unat (ss_len s + 1) \<le> Suc (unat (ss_len s))" by (rule unat_Suc_le)
  with n_incr show ?case
    by (auto simp: sem_inv_def holders_def in_mset_count Suc_diff_le split: if_splits)
next
  case (w_decr s)
  have nz: "ss_len s \<noteq> 0" using w_decr by (auto simp: sem_inv_def in_mset_count)
  have "Suc (ss_decs s) \<le> unat n + ss_incs s"
    using w_decr nz of_nat_drained [of "unat n" "ss_incs s" "ss_decs s"]
    by (simp add: sem_inv_def)
  with w_decr nz show ?case
    by (auto simp: sem_inv_def holders_def in_mset_count unat_pred Suc_diff_le of_nat_diff
        split: if_splits)
next
  case (w_sleep s)
  then have "ss_len s = 0" by (simp add: word_neq_0_conv [symmetric])
  with w_sleep show ?case
    by (auto simp: sem_inv_def holders_def in_mset_count split: if_splits)
qed (auto simp: sem_inv_def holders_def in_mset_count word_neq_0_conv split: if_splits)

lemma sem_reach_inv: "sem_reach n threads s \<Longrightarrow> sem_inv n s"
  by (induction rule: sem_reach.induct) (auto intro: sem_inv_init sem_inv_step)

subsection \<open>What the semaphore promises\<close>

text \<open>
  C11. In every reachable state of any number of threads running \<open>notify()\<close> and \<open>wait()\<close>, at most
  one thread is between \<open>lock\<close> and \<open>unlock\<close>, the waits that got past \<open>--_len\<close> never exceed the
  initial length plus the notifications, and \<open>_len\<close> is exactly their difference: the unsigned
  counter is never decremented below zero and no token is lost or duplicated.
\<close>

theorem sem_tokens_conserved:
  assumes "sem_reach n threads s"
  shows "holders s \<le> 1 \<and> ss_decs s \<le> unat n + ss_incs s
    \<and> ss_len s = of_nat (unat n + ss_incs s - ss_decs s)"
  using sem_reach_inv [OF assms] by (simp add: sem_inv_def)

theorem sem_tokens_conserved_witness:
  "sem_reach 2 3 (sem_init 2 3) \<and> holders (sem_init 2 3) \<le> 1 \<and> ss_len (sem_init 2 3) = 2"
  using sem_tokens_conserved [OF sem_reach.sem_start, of 2 3] sem_reach.sem_start [of 2 3]
  by (simp add: sem_init_def)

text \<open>
  C12. No wake-up is lost: when every thread is outside the class or asleep in \<open>_cond.wait\<close> and at
  least one sleeps, the length is zero, so a sleeping thread never has a token it could take.
\<close>

theorem sem_no_lost_wakeup:
  assumes "sem_reach n threads s" and "set_mset (ss_thr s) \<subseteq> {Outside, WSleep}"
    and "WSleep \<in># ss_thr s"
  shows "ss_len s = 0"
proof -
  have "pcs s p = 0" if "p \<notin> {Outside, WSleep}" for p
    using assms(2) that by (meson count_eq_zero_iff subsetD)
  then have "pcs s WWoken + pcs s WCheck + pcs s WDecr + pcs s NNotify = 0" by simp
  with sem_reach_inv [OF assms(1)] assms(3) have "unat (ss_len s) \<le> 0"
    unfolding sem_inv_def in_mset_count by metis
  then show ?thesis by (simp add: unat_eq_zero)
qed

definition one_sleeper :: sem_sys where
  "one_sleeper = \<lparr>ss_len = 0, ss_locked = False, ss_thr = {#WSleep#}, ss_incs = 0, ss_decs = 0\<rparr>"

lemma one_sleeper_reachable: "sem_reach 0 1 one_sleeper"
proof -
  let ?a = "sem_init 0 1"
  let ?b = "sem_move Outside WLock ?a"
  let ?c = "(sem_move WLock WCheck ?b)\<lparr>ss_locked := True\<rparr>"
  have "sem_reach 0 1 ?b"
    by (intro sem_next [OF sem_start] call_wait) (simp add: sem_init_def)
  then have "sem_reach 0 1 ?c"
    by (rule sem_next) (rule w_lock, simp_all add: sem_init_def sem_move_def)
  then have "sem_reach 0 1 ((sem_move WCheck WSleep ?c)\<lparr>ss_locked := False\<rparr>)"
    by (rule sem_next) (rule w_sleep, simp_all add: sem_init_def sem_move_def)
  then show ?thesis by (simp add: sem_init_def sem_move_def one_sleeper_def)
qed

theorem sem_no_lost_wakeup_witness: "sem_reach 0 1 one_sleeper \<and> ss_len one_sleeper = 0"
  using sem_no_lost_wakeup [OF one_sleeper_reachable] one_sleeper_reachable
  by (simp add: one_sleeper_def)

end
