(* ===== verification/Clock.thy ===== *)
theory Clock
  imports Prelude
begin

text \<open>
  The time types of \<^verbatim>\<open>include/clock.h\<close> and the clock of \<^verbatim>\<open>src/clock.cpp\<close> (the branch for gcc and
  clang), with the integer aliases of \<^verbatim>\<open>include/api.h\<close>.
\<close>

section \<open>Aliases of api.h\<close>

type_synonym int64 = "64 word"
type_synonym uint64 = "64 word"
type_synonym int32 = "32 word"
type_synonym uint32 = "32 word"

unbundle bit_operations_syntax

definition fes_VERSION_MAJOR :: int32 where "fes_VERSION_MAJOR = 1"

definition fes_VERSION_MINOR :: int32 where "fes_VERSION_MINOR = 0"

definition fes_VERSION :: int32 where
  "fes_VERSION = (push_bit 16 fes_VERSION_MAJOR) OR fes_VERSION_MINOR"

section \<open>Time\<close>

text \<open>
  \<open>marktime\<close> is a time point of \<open>std::chrono::high_resolution_clock\<close>, counted in nanoseconds since
  the clock's epoch; \<open>deltatime\<close> is a count of milliseconds. Adding a \<open>deltatime\<close> to a
  \<open>marktime\<close> converts it to the common unit, nanoseconds.
\<close>

type_synonym marktime = int
type_synonym deltatime = int

definition mark_plus :: "marktime \<Rightarrow> deltatime \<Rightarrow> marktime" where
  "mark_plus t d = t + d * 1000000"

text \<open>
  The readings of the clock come from the machine: a clock is the sequence of its future
  readings and the number of calls made so far. Nothing is assumed about the sequence; where an
  operation needs time to pass, the theorem says so.
\<close>

record clock =
  readings :: "nat \<Rightarrow> marktime"
  calls :: nat

definition high_resolution_clock :: "clock \<Rightarrow> marktime \<times> clock" where
  "high_resolution_clock c = (readings c (calls c), c\<lparr>calls := Suc (calls c)\<rparr>)"

lemma mark_plus_mono: "mark_plus t d \<le> mark_plus t' d \<longleftrightarrow> t \<le> t'"
  by (simp add: mark_plus_def)

lemma mark_plus_0 [simp]: "mark_plus t 0 = t"
  by (simp add: mark_plus_def)

end
