(* ===== verification/Message.thy ===== *)
theory Message
  imports Clock
begin

text \<open>
  Delayed messages and their order (\<^verbatim>\<open>include/message.h\<close>), and the contract of \<open>std::sort\<close> that
  \<open>async_delay\<close> relies on.
\<close>

section \<open>Messages\<close>

record 'd message =
  msg_priority :: int
  msg_timestamp :: marktime
  msg_data :: 'd

definition message_new :: "int \<Rightarrow> marktime \<Rightarrow> 'd \<Rightarrow> 'd message" where
  "message_new priority timestamp data =
     \<lparr>msg_priority = priority, msg_timestamp = timestamp, msg_data = data\<rparr>"

definition message_comp :: "'d message \<Rightarrow> 'd message \<Rightarrow> bool" where
  "message_comp one other =
     (if msg_timestamp one < msg_timestamp other then False
      else if msg_timestamp one > msg_timestamp other then True
      else if msg_priority one < msg_priority other then True
      else if msg_priority one > msg_priority other then False
      else False)"

lemma message_comp_iff:
  "message_comp a b \<longleftrightarrow> msg_timestamp b < msg_timestamp a
     \<or> msg_timestamp a = msg_timestamp b \<and> msg_priority a < msg_priority b"
  by (auto simp: message_comp_def)

text \<open>
  \<open>more_urgent\<close> is the intended reading of the order: the earlier time stamp first and, at the
  same time, the higher priority first.
\<close>

definition more_urgent :: "'d message \<Rightarrow> 'd message \<Rightarrow> bool" where
  "more_urgent a b \<longleftrightarrow> msg_timestamp a < msg_timestamp b
     \<or> msg_timestamp a = msg_timestamp b \<and> msg_priority b < msg_priority a"

lemma message_comp_more_urgent: "message_comp a b \<longleftrightarrow> more_urgent b a"
  by (auto simp: message_comp_iff more_urgent_def)

section \<open>The contract of std::sort\<close>

text \<open>A range is sorted for a comparator when no element compares less than one before it.\<close>

definition ascending :: "('a \<Rightarrow> 'a \<Rightarrow> bool) \<Rightarrow> 'a list \<Rightarrow> bool" where
  "ascending cmp xs = sorted_wrt (\<lambda>a b. \<not> cmp b a) xs"

text \<open>
  \<open>std::sort\<close> permutes its range into ascending order and says nothing about the order of
  equivalent elements. Clients see it through this interface.
\<close>

locale message_sort =
  fixes srt :: "'d message list \<Rightarrow> 'd message list"
  assumes srt_mset: "mset (srt xs) = mset xs"
    and srt_ascending: "ascending message_comp (srt xs)"
begin

lemma srt_length [simp]: "length (srt xs) = length xs"
  using srt_mset [of xs] by (metis size_mset)

lemma srt_set [simp]: "set (srt xs) = set xs"
  using srt_mset [of xs] by (metis set_mset_mset)

lemma srt_empty_iff [simp]: "srt xs = [] \<longleftrightarrow> xs = []"
  by (metis srt_length length_0_conv)

end

text \<open>An insertion sort meets the contract; the executable examples run on it.\<close>

fun message_insort1 :: "'d message \<Rightarrow> 'd message list \<Rightarrow> 'd message list" where
  "message_insort1 x [] = [x]"
| "message_insort1 x (y # ys) = (if message_comp y x then y # message_insort1 x ys else x # y # ys)"

definition message_insort :: "'d message list \<Rightarrow> 'd message list" where
  "message_insort xs = foldr message_insort1 xs []"

lemma mset_message_insort1: "mset (message_insort1 x xs) = add_mset x (mset xs)"
  by (induction xs) auto

lemma set_message_insort1: "set (message_insort1 x xs) = insert x (set xs)"
  using mset_message_insort1 [of x xs] by (metis set_mset_add_mset_insert set_mset_mset)

lemma ascending_message_insort1:
  "ascending message_comp xs \<Longrightarrow> ascending message_comp (message_insort1 x xs)"
  by (induction xs) (auto 4 4 simp: ascending_def set_message_insort1 message_comp_iff)

lemma mset_message_insort: "mset (message_insort xs) = mset xs"
  by (induction xs) (auto simp: message_insort_def mset_message_insort1)

lemma ascending_message_insort: "ascending message_comp (message_insort xs)"
  by (induction xs) (auto simp: message_insort_def ascending_def [of _ "[]"] ascending_message_insort1)

interpretation insertion: message_sort message_insort
  by unfold_locales (auto simp: mset_message_insort ascending_message_insort)

section \<open>Properties\<close>

text \<open>
  C13. \<open>message_comp\<close> is a strict weak order, as the comment above it demands and \<open>std::sort\<close>
  requires: it is irreflexive and transitive, and being equivalent (neither less) is transitive;
  two messages are equivalent exactly when time stamp and priority agree.
\<close>

theorem message_comp_strict_weak_order:
  "\<not> message_comp a a
   \<and> (message_comp a b \<longrightarrow> message_comp b c \<longrightarrow> message_comp a c)
   \<and> (\<not> message_comp a b \<and> \<not> message_comp b a
       \<longleftrightarrow> msg_timestamp a = msg_timestamp b \<and> msg_priority a = msg_priority b)"
  by (auto simp: message_comp_iff)

theorem message_comp_strict_weak_order_witness:
  "message_comp (message_new 0 7 ''c'') (message_new 0 (5::int) ''a'')"
  using message_comp_strict_weak_order
    [of "message_new 0 7 ''c''" "message_new 3 7 ''b''" "message_new 0 5 ''a''"]
  by (simp add: message_comp_def message_new_def)

lemma ascending_last_urgent:
  assumes "ascending message_comp xs" and "m \<in> set xs"
  shows "\<not> more_urgent m (last xs)"
  using assms
proof (induction xs)
  case (Cons x xs)
  then show ?case
    by (cases "xs = []") (auto simp: ascending_def message_comp_more_urgent more_urgent_def)
qed simp

section \<open>Queues ordered by urgency\<close>

text \<open>
  What a client may expect of a container of delayed messages: \<open>bag\<close> is its content, \<open>peek\<close> is a
  most urgent message, \<open>pop\<close> removes that one, and nothing else changes. \<open>room\<close> says that one
  more message fits.
\<close>

fun drain :: "('q \<Rightarrow> 'm) \<Rightarrow> ('q \<Rightarrow> 'q) \<Rightarrow> nat \<Rightarrow> 'q \<Rightarrow> 'm list" where
  "drain peek pop 0 q = []"
| "drain peek pop (Suc n) q = peek q # drain peek pop n (pop q)"

locale urgency_queue =
  fixes inv :: "'q \<Rightarrow> bool" and bag :: "'q \<Rightarrow> 'd message multiset" and room :: "'q \<Rightarrow> bool"
    and ins :: "'d message \<Rightarrow> 'q \<Rightarrow> 'q" and peek :: "'q \<Rightarrow> 'd message" and pop :: "'q \<Rightarrow> 'q"
  assumes ins_inv: "inv q \<Longrightarrow> room q \<Longrightarrow> inv (ins m q)"
    and ins_bag: "inv q \<Longrightarrow> bag (ins m q) = add_mset m (bag q)"
    and peek_member: "inv q \<Longrightarrow> bag q \<noteq> {#} \<Longrightarrow> peek q \<in># bag q"
    and peek_urgent: "inv q \<Longrightarrow> m \<in># bag q \<Longrightarrow> \<not> more_urgent m (peek q)"
    and pop_inv: "inv q \<Longrightarrow> bag q \<noteq> {#} \<Longrightarrow> inv (pop q)"
    and pop_bag: "inv q \<Longrightarrow> bag q \<noteq> {#} \<Longrightarrow> bag (pop q) = bag q - {#peek q#}"
begin

lemma drain_bag: "inv q \<Longrightarrow> size (bag q) = n \<Longrightarrow> mset (drain peek pop n q) = bag q"
proof (induction n arbitrary: q)
  case (Suc n)
  then have ne: "bag q \<noteq> {#}" by auto
  then have "size (bag (pop q)) = n"
    using Suc.prems pop_bag peek_member by (simp add: size_Diff_singleton)
  then show ?case
    using Suc.IH [of "pop q"] pop_inv [OF Suc.prems(1) ne] pop_bag [OF Suc.prems(1) ne]
      peek_member [OF Suc.prems(1) ne] by simp
qed simp

lemma drain_urgent:
  "inv q \<Longrightarrow> size (bag q) = n \<Longrightarrow> sorted_wrt (\<lambda>a b. \<not> more_urgent b a) (drain peek pop n q)"
proof (induction n arbitrary: q)
  case (Suc n)
  then have ne: "bag q \<noteq> {#}" by auto
  note pop = pop_inv [OF Suc.prems(1) ne] pop_bag [OF Suc.prems(1) ne]
  then have n: "size (bag (pop q)) = n"
    using Suc.prems ne peek_member by (simp add: size_Diff_singleton)
  then have "set (drain peek pop n (pop q)) \<subseteq> set_mset (bag q)"
    using drain_bag [OF pop(1) n] pop(2) by (metis in_diffD set_mset_mset subsetI)
  then show ?case using Suc.IH [OF pop(1) n] peek_urgent [OF Suc.prems(1)] by auto
qed simp

end

end
