(* ===== verification/World.thy ===== *)
theory World
  imports Sem Message
begin

text \<open>
  The objects of the event system and the calls that run through them.

  A program that uses the library has any number of \<open>sync\<close>, \<open>async_fast\<close>, \<open>async_delay\<close> and
  \<open>bind\<close> objects (\<^verbatim>\<open>include/sync.h\<close>, \<^verbatim>\<open>async_fast.h\<close>, \<^verbatim>\<open>async_delay.h\<close>, \<^verbatim>\<open>bind.h\<close>) that
  refer to each other through the lambdas their \<open>connect\<close> functions make. The world holds every
  object under an identity, as the heap does, and a \<open>method\<close> (\<^verbatim>\<open>include/method.h\<close>) is one of the
  lambdas of the source or a function of the user. Calling a \<open>sync\<close> therefore runs an
  interpreter over the world, bounded by fuel because handlers may call back without end.
\<close>

section \<open>Methods, subscriptions and channels\<close>

text \<open>
  What the \<open>std::function\<close> inside a \<open>method\<close> can be: the empty lambda of the default
  constructor; a function or bound member function of the user; the lambda of
  \<open>connect(sync&)\<close>; of \<open>connect(async_fast&)\<close>; of \<open>connect(priority, delay, async_delay&)\<close>, which
  adds the delay to the clock; and that of \<open>bind::connect(priority, delay, async_delay&)\<close>, which
  passes the delay on as it is.
\<close>

datatype callback =
  Noop
| User nat
| Call_Sync nat
| Push_Fast nat
| Push_Delay int deltatime nat
| Push_Delay_At int marktime nat

definition method_default :: callback where "method_default = Noop"

text \<open>\<open>methods_t\<close> is a \<open>std::list\<close>: its nodes with their identities, in order.\<close>

type_synonym methods_t = "(nat \<times> callback) list"

record sync =
  registered :: methods_t
  conns :: "nat list"

record internal_connection =
  ic_deleter :: nat \<comment> \<open>the iterator captured by the deleter lambda\<close>
  ic_connected :: bool
  ic_registered :: nat \<comment> \<open>the \<open>sync\<close> whose list \<open>_registered\<close> refers to\<close>

record 'q async_fast =
  af_output :: nat
  af_queue :: 'q
  af_sem :: semaphore

record 'd async_delay =
  ad_output :: nat
  ad_queue :: "'d message list"
  ad_sem :: semaphore

record bind_obj =
  bd_reg :: callback
  bd_connected :: bool

record ('d, 'q) world =
  syncs :: "nat \<Rightarrow> sync option"
  iconns :: "nat \<Rightarrow> internal_connection option" \<comment> \<open>alive while a \<open>sync\<close> shares it\<close>
  fasts :: "nat \<Rightarrow> 'q async_fast option"
  delays :: "nat \<Rightarrow> 'd async_delay option"
  binds :: "nat \<Rightarrow> bind_obj option"
  clk :: clock
  tid :: nat \<comment> \<open>the running thread\<close>
  fresh :: nat \<comment> \<open>the next unused identity\<close>
  copies :: nat \<comment> \<open>payload copies made by \<open>call_copy\<close>\<close>
  called :: "(nat \<times> 'd) list" \<comment> \<open>user handlers called so far, with their payload\<close>

text \<open>
  What the library calls and does not define: the handlers of the user, \<open>std::sort\<close>, what a
  moved-from payload looks like, the coroutine's \<open>yield\<close> (package \<open>coroutine\<close>) and what other
  threads do while this one sleeps or spins (\<open>slp\<close>). The queue of \<open>async_fast\<close> is reached through its
  \<open>enqueue\<close> (by a thread) and \<open>wait_dequeue\<close>.
\<close>

record ('d, 'q) env =
  usr :: "nat \<Rightarrow> 'd \<Rightarrow> ('d, 'q) world \<Rightarrow> ('d, 'q) world outcome"
  srt :: "'d message list \<Rightarrow> 'd message list"
  moved :: "'d \<Rightarrow> 'd"
  yld :: "('d, 'q) world \<Rightarrow> ('d, 'q) world outcome"
  slp :: "('d, 'q) world \<Rightarrow> ('d, 'q) world outcome"
  enq :: "nat \<Rightarrow> 'd \<Rightarrow> 'q \<Rightarrow> (bool \<times> 'q) outcome"
  deq :: "'q \<Rightarrow> ('d \<times> 'q) outcome"

definition read_clock :: "('d, 'q) world \<Rightarrow> marktime \<times> ('d, 'q) world" where
  "read_clock w = (let (t, c) = high_resolution_clock (clk w) in (t, w\<lparr>clk := c\<rparr>))"

section \<open>Publishing into a channel\<close>

text \<open>\<open>async_fast::operator()\<close>: the result of \<open>enqueue\<close> is not looked at.\<close>

definition fast_push :: "('d, 'q) env \<Rightarrow> nat \<Rightarrow> 'd \<Rightarrow> ('d, 'q) world \<Rightarrow> ('d, 'q) world outcome" where
  "fast_push e q d w =
     (case fasts w q of
        None \<Rightarrow> Undefined
      | Some a \<Rightarrow>
          and_then (enq e (tid w) d (af_queue a)) (\<lambda>(_, q').
            let a' = a\<lparr>af_queue := q', af_sem := sem_notify (af_sem a)\<rparr>
            in Ret (w\<lparr>fasts := (fasts w)(q \<mapsto> a')\<rparr>)))"

text \<open>\<open>async_delay::operator()\<close>: append, sort when there are several, notify.\<close>

definition delay_insert :: "('d message list \<Rightarrow> 'd message list) \<Rightarrow> 'd message \<Rightarrow> 'd async_delay \<Rightarrow> 'd async_delay" where
  "delay_insert sort_fn m a =
     (let qu = ad_queue a @ [m];
          qu' = (if 1 < length qu then sort_fn qu else qu)
      in a\<lparr>ad_queue := qu', ad_sem := sem_notify (ad_sem a)\<rparr>)"

definition delay_push ::
  "('d, 'q) env \<Rightarrow> nat \<Rightarrow> int \<Rightarrow> marktime \<Rightarrow> 'd \<Rightarrow> ('d, 'q) world \<Rightarrow> ('d, 'q) world outcome" where
  "delay_push e q priority delay_point d w =
     (case delays w q of
        None \<Rightarrow> Undefined
      | Some a \<Rightarrow>
          Ret (w\<lparr>delays := (delays w)(q \<mapsto>
             delay_insert (srt e) (message_new priority delay_point d) a)\<rparr>))"

section \<open>Calling a sync\<close>

text \<open>
  \<open>sync::operator()\<close> walks the list from \<open>begin()\<close>; in every round it compares the iterator with
  \<open>--end()\<close>, calls the last method with the forwarded payload and every other one through
  \<open>call_copy\<close>, and then increments the iterator. The callback may have changed the list by
  then: an iterator to an erased node is undefined behaviour, as is a \<open>sync\<close> that is gone.
\<close>

fun run_callback ::
    "nat \<Rightarrow> ('d, 'q) env \<Rightarrow> callback \<Rightarrow> 'd \<Rightarrow> ('d, 'q) world \<Rightarrow> ('d, 'q) world outcome"
  and sync_call ::
    "nat \<Rightarrow> ('d, 'q) env \<Rightarrow> nat \<Rightarrow> 'd \<Rightarrow> ('d, 'q) world \<Rightarrow> ('d, 'q) world outcome"
  and sync_loop ::
    "nat \<Rightarrow> ('d, 'q) env \<Rightarrow> nat \<Rightarrow> nat option \<Rightarrow> 'd \<Rightarrow> ('d, 'q) world \<Rightarrow> ('d, 'q) world outcome"
where
  "run_callback 0 e cb d w = No_Fuel"
| "run_callback (Suc f) e cb d w =
     (case cb of
        Noop \<Rightarrow> Ret w
      | User u \<Rightarrow> usr e u d (w\<lparr>called := called w @ [(u, d)]\<rparr>)
      | Call_Sync s \<Rightarrow> sync_call f e s d w
      | Push_Fast q \<Rightarrow> fast_push e q d w
      | Push_Delay priority delay q \<Rightarrow>
          (let (now, w') = read_clock w in delay_push e q priority (mark_plus now delay) d w')
      | Push_Delay_At priority delay q \<Rightarrow> delay_push e q priority delay d w)"
| "sync_call 0 e s d w = No_Fuel"
| "sync_call (Suc f) e s d w =
     (case syncs w s of
        None \<Rightarrow> Undefined
      | Some so \<Rightarrow> sync_loop f e s (begin_of (map fst (registered so))) d w)"
| "sync_loop 0 e s it d w = No_Fuel"
| "sync_loop (Suc f) e s it d w =
     (case it of
        None \<Rightarrow> Ret w
      | Some n \<Rightarrow>
          (case syncs w s of
             None \<Rightarrow> Undefined
           | Some so \<Rightarrow>
               (case map_of (registered so) n of
                  None \<Rightarrow> Undefined
                | Some cb \<Rightarrow>
                    and_then
                      (if n = fst (last (registered so)) then run_callback f e cb d w
                       else run_callback f e cb d (w\<lparr>copies := Suc (copies w)\<rparr>))
                      (\<lambda>w'. case syncs w' s of
                         None \<Rightarrow> Undefined
                       | Some so' \<Rightarrow>
                           if n \<in> fst ` set (registered so')
                           then sync_loop f e s (succ_of n (map fst (registered so'))) d w'
                           else Undefined))))"

declare run_callback.simps [simp del] sync_call.simps [simp del] sync_loop.simps [simp del]

lemmas step_simps = run_callback.simps sync_call.simps sync_loop.simps

section \<open>A closed environment and an empty world\<close>

text \<open>
  For the examples that run: handlers that only watch, an insertion sort, a queue that is a
  list, and an empty program whose clock reads \<open>0, 1, 2, \<dots>\<close> milliseconds.
\<close>

definition watch_env :: "('d, 'd list) env" where
  "watch_env = \<lparr>usr = (\<lambda>u d w. Ret w), srt = message_insort, moved = (\<lambda>d. d), yld = Ret, slp = Ret,
     enq = (\<lambda>t d q. Ret (True, q @ [d])),
     deq = (\<lambda>q. case q of [] \<Rightarrow> Blocked | d # q' \<Rightarrow> Ret (d, q'))\<rparr>"

definition empty_world :: "('d, 'q) world" where
  "empty_world = \<lparr>syncs = Map.empty, iconns = Map.empty, fasts = Map.empty, delays = Map.empty,
     binds = Map.empty, clk = \<lparr>readings = (\<lambda>n. int n * 1000000), calls = 0\<rparr>, tid = 0, fresh = 0,
     copies = 0, called = []\<rparr>"

end
