(* ===== verification/Sync.thy ===== *)
theory Sync
  imports World
begin

text \<open>
  \<open>sync\<close> (\<^verbatim>\<open>include/sync.h\<close>), the connections it hands out (\<^verbatim>\<open>include/internal_connection.h\<close>,
  \<^verbatim>\<open>include/connection.h\<close>), and what a call of a \<open>sync\<close> does.
\<close>

section \<open>Subscribing\<close>

definition sync_new :: "('d, 'q) world \<Rightarrow> nat \<times> ('d, 'q) world" where
  "sync_new w =
     (fresh w, w\<lparr>syncs := (syncs w)(fresh w \<mapsto> \<lparr>registered = [], conns = []\<rparr>), fresh := Suc (fresh w)\<rparr>)"

text \<open>
  \<open>connect(METHOD&&)\<close>: a new node at the end of the list, a shared \<open>internal_connection\<close> whose
  deleter erases that node, kept in \<open>_conns\<close>, and a weak pointer to it for the caller. The node
  and the connection take the identities \<open>fresh\<close> and \<open>fresh + 1\<close>.
\<close>

definition sync_connect :: "nat \<Rightarrow> callback \<Rightarrow> ('d, 'q) world \<Rightarrow> (nat \<times> ('d, 'q) world) outcome" where
  "sync_connect s fn w =
     (case syncs w s of
        None \<Rightarrow> Undefined
      | Some so \<Rightarrow>
          let it = fresh w;
              conn = Suc (fresh w);
              so' = so\<lparr>registered := registered so @ [(it, fn)], conns := conns so @ [conn]\<rparr>;
              ic = \<lparr>ic_deleter = it, ic_connected = True, ic_registered = s\<rparr>
          in Ret (conn, w\<lparr>syncs := (syncs w)(s \<mapsto> so'), iconns := (iconns w)(conn \<mapsto> ic),
                         fresh := fresh w + 2\<rparr>))"

text \<open>\<open>_connect\<close> stores the bound member function the same way; the user's function is \<open>User u\<close>.\<close>

definition sync_connect_bound :: "nat \<Rightarrow> nat \<Rightarrow> ('d, 'q) world \<Rightarrow> (nat \<times> ('d, 'q) world) outcome" where
  "sync_connect_bound s u w =
     (case syncs w s of
        None \<Rightarrow> Undefined
      | Some so \<Rightarrow>
          let it = fresh w;
              conn = Suc (fresh w);
              so' = so\<lparr>registered := registered so @ [(it, User u)], conns := conns so @ [conn]\<rparr>;
              ic = \<lparr>ic_deleter = it, ic_connected = True, ic_registered = s\<rparr>
          in Ret (conn, w\<lparr>syncs := (syncs w)(s \<mapsto> so'), iconns := (iconns w)(conn \<mapsto> ic),
                         fresh := fresh w + 2\<rparr>))"

definition sync_connect_member :: "nat \<Rightarrow> nat \<Rightarrow> ('d, 'q) world \<Rightarrow> (nat \<times> ('d, 'q) world) outcome" where
  "sync_connect_member s u w = sync_connect_bound s u w"

definition sync_connect_sync :: "nat \<Rightarrow> nat \<Rightarrow> ('d, 'q) world \<Rightarrow> (nat \<times> ('d, 'q) world) outcome" where
  "sync_connect_sync s callback w = sync_connect s (Call_Sync callback) w"

definition sync_connect_fast :: "nat \<Rightarrow> nat \<Rightarrow> ('d, 'q) world \<Rightarrow> (nat \<times> ('d, 'q) world) outcome" where
  "sync_connect_fast s queue w = sync_connect s (Push_Fast queue) w"

definition sync_connect_delay ::
  "nat \<Rightarrow> int \<Rightarrow> deltatime \<Rightarrow> nat \<Rightarrow> ('d, 'q) world \<Rightarrow> (nat \<times> ('d, 'q) world) outcome" where
  "sync_connect_delay s priority delay queue w = sync_connect s (Push_Delay priority delay queue) w"

text \<open>
  Destroying a \<open>sync\<close> drops \<open>_conns\<close> and with it the last owner of every connection it made, then
  the list.
\<close>

definition sync_destroy :: "nat \<Rightarrow> ('d, 'q) world \<Rightarrow> ('d, 'q) world outcome" where
  "sync_destroy s w =
     (case syncs w s of
        None \<Rightarrow> Undefined
      | Some so \<Rightarrow> Ret (w\<lparr>iconns := (\<lambda>c. if c \<in> set (conns so) then None else iconns w c),
                         syncs := (syncs w)(s := None)\<rparr>))"

section \<open>Disconnecting\<close>

text \<open>\<open>registered.erase(it)\<close>: erasing through an iterator that is no longer in the list is undefined.\<close>

definition sync_erase :: "nat \<Rightarrow> nat \<Rightarrow> ('d, 'q) world \<Rightarrow> ('d, 'q) world outcome" where
  "sync_erase s it w =
     (case syncs w s of
        None \<Rightarrow> Undefined
      | Some so \<Rightarrow>
          if it \<in> fst ` set (registered so)
          then Ret (w\<lparr>syncs := (syncs w)(s \<mapsto> so\<lparr>registered := filter (\<lambda>p. fst p \<noteq> it) (registered so)\<rparr>)\<rparr>)
          else Undefined)"

definition ic_disconnect :: "nat \<Rightarrow> ('d, 'q) world \<Rightarrow> ('d, 'q) world outcome" where
  "ic_disconnect c w =
     (case iconns w c of
        None \<Rightarrow> Undefined
      | Some ic \<Rightarrow>
          if ic_connected ic then
            and_then (sync_erase (ic_registered ic) (ic_deleter ic) w)
              (\<lambda>w'. Ret (w'\<lparr>iconns := (iconns w')(c \<mapsto> ic\<lparr>ic_connected := False\<rparr>)\<rparr>))
          else Ret w)"

text \<open>
  A \<open>connection\<close> is a weak pointer, possibly empty. Locking it succeeds while the
  \<open>internal_connection\<close> is alive.
\<close>

type_synonym connection = "nat option"

definition connection_new :: connection where "connection_new = None"

definition connection_of_weak :: "nat \<Rightarrow> connection" where "connection_of_weak other = Some other"

definition connection_assign_weak :: "connection \<Rightarrow> nat \<Rightarrow> connection" where
  "connection_assign_weak self other = Some other"

text \<open>Moving: the new value of the target and the emptied source.\<close>

definition connection_move :: "connection \<Rightarrow> connection \<times> connection" where
  "connection_move other = (other, None)"

definition connection_assign_move :: "connection \<Rightarrow> connection \<Rightarrow> connection \<times> connection" where
  "connection_assign_move self other = (other, None)"

definition connection_destroy :: "connection \<Rightarrow> ('d, 'q) world \<Rightarrow> ('d, 'q) world outcome" where
  "connection_destroy self w =
     (case self of
        None \<Rightarrow> Ret w
      | Some c \<Rightarrow> (case iconns w c of None \<Rightarrow> Ret w | Some _ \<Rightarrow> ic_disconnect c w))"

lemmas connect_defs [fes_defs] =
  sync_connect_def sync_connect_bound_def sync_connect_member_def sync_connect_sync_def
  sync_connect_fast_def sync_connect_delay_def

section \<open>The invariant of the subscription tables\<close>

text \<open>
  Node identities are distinct and in use; a connection that is still connected names a node of
  the list of a living \<open>sync\<close>; a living connection is owned by the \<open>sync\<close> it refers to; and two
  connected connections of one \<open>sync\<close> own different nodes.
\<close>

definition wf_sync :: "('d, 'q) world \<Rightarrow> nat \<Rightarrow> sync \<Rightarrow> bool" where
  "wf_sync w s so \<longleftrightarrow> distinct (map fst (registered so)) \<and> (\<forall>n \<in> fst ` set (registered so). n < fresh w)
     \<and> s < fresh w \<and> (\<forall>c \<in> set (conns so). \<exists>ic. iconns w c = Some ic \<and> ic_registered ic = s)"

definition wf_iconn :: "('d, 'q) world \<Rightarrow> nat \<Rightarrow> internal_connection \<Rightarrow> bool" where
  "wf_iconn w c ic \<longleftrightarrow> c < fresh w \<and> (\<exists>so. syncs w (ic_registered ic) = Some so \<and> c \<in> set (conns so)
     \<and> (ic_connected ic \<longrightarrow> ic_deleter ic \<in> fst ` set (registered so)))"

definition wf_world :: "('d, 'q) world \<Rightarrow> bool" where
  "wf_world w \<longleftrightarrow>
     (\<forall>s so. syncs w s = Some so \<longrightarrow> wf_sync w s so) \<and>
     (\<forall>c ic. iconns w c = Some ic \<longrightarrow> wf_iconn w c ic) \<and>
     (\<forall>c ic c' ic'. iconns w c = Some ic \<longrightarrow> iconns w c' = Some ic' \<longrightarrow> ic_connected ic \<longrightarrow>
        ic_connected ic' \<longrightarrow> ic_deleter ic = ic_deleter ic' \<longrightarrow> ic_registered ic = ic_registered ic'
        \<longrightarrow> c = c')"

lemma wf_worldD:
  assumes "wf_world w"
  shows "syncs w s = Some so \<Longrightarrow> wf_sync w s so"
    and "iconns w c = Some ic \<Longrightarrow> wf_iconn w c ic"
    and "iconns w c = Some ic \<Longrightarrow> iconns w c' = Some ic' \<Longrightarrow> ic_connected ic \<Longrightarrow> ic_connected ic' \<Longrightarrow>
      ic_deleter ic = ic_deleter ic' \<Longrightarrow> ic_registered ic = ic_registered ic' \<Longrightarrow> c = c'"
  using assms unfolding wf_world_def by metis+

lemma wf_fresh:
  assumes "wf_world w" and "fresh w \<le> k"
  shows "syncs w k = None" and "iconns w k = None"
    and "syncs w s = Some so \<Longrightarrow> k \<notin> fst ` set (registered so) \<and> k \<notin> set (conns so)"
proof -
  show "syncs w k = None"
    using assms wf_worldD(1) [OF assms(1), of k] by (cases "syncs w k") (auto simp: wf_sync_def)
  show i: "iconns w k = None"
    using assms wf_worldD(2) [OF assms(1), of k] by (cases "iconns w k") (auto simp: wf_iconn_def)
  show "k \<notin> fst ` set (registered so) \<and> k \<notin> set (conns so)" if "syncs w s = Some so"
    using wf_worldD(1) [OF assms(1) that] assms(2) i by (fastforce simp: wf_sync_def)
qed

lemma wf_world_sync_new:
  assumes "wf_world w" and "sync_new w = (s, w')"
  shows "wf_world w'"
proof -
  note wf = assms(1) and fr = wf_fresh [OF assms(1) order_refl]
  have w': "w' = w\<lparr>syncs := (syncs w)(fresh w \<mapsto> \<lparr>registered = [], conns = []\<rparr>), fresh := Suc (fresh w)\<rparr>"
    using assms(2) by (auto simp: sync_new_def)
  have "wf_sync w' t so" if "syncs w' t = Some so" for t so
    using that wf_worldD(1) [OF wf, of t so] by (auto simp: w' wf_sync_def less_Suc_eq split: if_splits)
  moreover have "wf_iconn w' c ic" if "iconns w' c = Some ic" for c ic
    using that wf_worldD(2) [OF wf, of c ic] fr(1) by (auto simp: w' wf_iconn_def)
  moreover have "c = c'" if "iconns w' c = Some ic" "iconns w' c' = Some ic'" "ic_connected ic"
    "ic_connected ic'" "ic_deleter ic = ic_deleter ic'" "ic_registered ic = ic_registered ic'" for c ic c' ic'
    using that wf_worldD(3) [OF wf, of c ic c' ic'] by (simp add: w')
  ultimately show ?thesis unfolding wf_world_def by blast
qed

lemma sync_connect_Ret:
  "sync_connect s fn w = Ret (c, w') \<longleftrightarrow>
     (\<exists>so. syncs w s = Some so \<and> c = Suc (fresh w) \<and>
        w' = w\<lparr>syncs := (syncs w)(s \<mapsto> so\<lparr>registered := registered so @ [(fresh w, fn)], conns := conns so @ [c]\<rparr>),
              iconns := (iconns w)(c \<mapsto> \<lparr>ic_deleter = fresh w, ic_connected = True, ic_registered = s\<rparr>),
              fresh := fresh w + 2\<rparr>)"
  by (auto simp: sync_connect_def Let_def split: option.splits)

lemma wf_world_sync_connect:
  assumes wf: "wf_world w" and "sync_connect s fn w = Ret (c, w')"
  shows "wf_world w'"
proof -
  obtain so where so: "syncs w s = Some so" and c: "c = Suc (fresh w)"
    and w': "w' = w\<lparr>syncs := (syncs w)(s \<mapsto> so\<lparr>registered := registered so @ [(fresh w, fn)], conns := conns so @ [c]\<rparr>),
              iconns := (iconns w)(c \<mapsto> \<lparr>ic_deleter = fresh w, ic_connected = True, ic_registered = s\<rparr>),
              fresh := fresh w + 2\<rparr>"
    using assms(2) by (auto simp: sync_connect_Ret)
  note fr = wf_fresh [OF wf order_refl] wf_fresh [OF wf, of c, unfolded c, simplified]
  have old: "ic_deleter ic \<noteq> fresh w" if "iconns w k = Some ic" "ic_connected ic" for k ic
    using wf_worldD(2) [OF wf that(1)] that(2) fr(3) unfolding wf_iconn_def by metis
  have "wf_sync w' t so'" if "syncs w' t = Some so'" for t so'
  proof (cases "t = s")
    case True
    with that wf_worldD(1) [OF wf so] fr(3) [OF so] c show ?thesis
      by (auto simp: w' wf_sync_def less_Suc_eq)
  next
    case False
    with that wf_worldD(1) [OF wf, of t so'] fr c show ?thesis
      by (fastforce simp: w' wf_sync_def)
  qed
  moreover have "wf_iconn w' k ic" if "iconns w' k = Some ic" for k ic
    using that wf_worldD(2) [OF wf, of k ic] so c by (force simp: w' wf_iconn_def split: if_splits)
  moreover have "k = k'" if "iconns w' k = Some ic" "iconns w' k' = Some ic'" "ic_connected ic"
    "ic_connected ic'" "ic_deleter ic = ic_deleter ic'" "ic_registered ic = ic_registered ic'" for k ic k' ic'
    using that old [of k ic] old [of k' ic'] wf_worldD(3) [OF wf, of k ic k' ic']
    by (auto simp: w' split: if_splits)
  ultimately show ?thesis unfolding wf_world_def by blast
qed

lemma wf_world_sync_destroy:
  assumes wf: "wf_world w" and "sync_destroy s w = Ret w'"
  shows "wf_world w'"
proof -
  obtain so where so: "syncs w s = Some so"
    and w': "w' = w\<lparr>iconns := (\<lambda>c. if c \<in> set (conns so) then None else iconns w c), syncs := (syncs w)(s := None)\<rparr>"
    using assms(2) by (auto simp: sync_destroy_def split: option.splits)
  have other: "ic_registered ic \<noteq> s" if "iconns w c = Some ic" "c \<notin> set (conns so)" for c ic
    using wf_worldD(2) [OF wf that(1)] that(2) so by (auto simp: wf_iconn_def)
  have "wf_sync w' t so'" if "syncs w' t = Some so'" for t so'
    using that wf_worldD(1) [OF wf, of t so'] wf_worldD(1) [OF wf so]
    by (fastforce simp: w' wf_sync_def split: if_splits)
  moreover have "wf_iconn w' c ic" if "iconns w' c = Some ic" for c ic
    using that wf_worldD(2) [OF wf, of c ic] other [of c ic] by (auto simp: w' wf_iconn_def split: if_splits)
  moreover have "c = c'" if "iconns w' c = Some ic" "iconns w' c' = Some ic'" "ic_connected ic"
    "ic_connected ic'" "ic_deleter ic = ic_deleter ic'" "ic_registered ic = ic_registered ic'" for c ic c' ic'
    using that wf_worldD(3) [OF wf, of c ic c' ic'] by (simp add: w' split: if_splits)
  ultimately show ?thesis unfolding wf_world_def by blast
qed

lemma ic_disconnect_connected:
  assumes wf: "wf_world w" and ic: "iconns w c = Some ic" "ic_connected ic"
  obtains so where "syncs w (ic_registered ic) = Some so" "ic_deleter ic \<in> fst ` set (registered so)"
    "ic_disconnect c w = Ret (w\<lparr>syncs := (syncs w)(ic_registered ic \<mapsto>
        so\<lparr>registered := filter (\<lambda>p. fst p \<noteq> ic_deleter ic) (registered so)\<rparr>),
      iconns := (iconns w)(c \<mapsto> ic\<lparr>ic_connected := False\<rparr>)\<rparr>)"
proof -
  obtain so where so: "syncs w (ic_registered ic) = Some so" "ic_deleter ic \<in> fst ` set (registered so)"
    using wf_worldD(2) [OF wf ic(1)] ic(2) by (auto simp: wf_iconn_def)
  with ic have "ic_disconnect c w = Ret (w\<lparr>syncs := (syncs w)(ic_registered ic \<mapsto>
        so\<lparr>registered := filter (\<lambda>p. fst p \<noteq> ic_deleter ic) (registered so)\<rparr>),
      iconns := (iconns w)(c \<mapsto> ic\<lparr>ic_connected := False\<rparr>)\<rparr>)"
    by (simp add: ic_disconnect_def sync_erase_def)
  with so that show ?thesis by blast
qed

lemma wf_world_ic_disconnect:
  assumes wf: "wf_world w" and run: "ic_disconnect c w = Ret w'"
  shows "wf_world w'"
proof -
  obtain ic where ic: "iconns w c = Some ic" using run by (auto simp: ic_disconnect_def split: option.splits)
  show ?thesis
  proof (cases "ic_connected ic")
    case False
    with run ic wf show ?thesis by (simp add: ic_disconnect_def)
  next
    case True
    obtain so where so: "syncs w (ic_registered ic) = Some so"
      and w': "w' = w\<lparr>syncs := (syncs w)(ic_registered ic \<mapsto>
          so\<lparr>registered := filter (\<lambda>p. fst p \<noteq> ic_deleter ic) (registered so)\<rparr>),
        iconns := (iconns w)(c \<mapsto> ic\<lparr>ic_connected := False\<rparr>)\<rparr>"
      using ic_disconnect_connected [OF wf ic True] run by (metis outcome.inject(1))
    have "wf_sync w' t so'" if "syncs w' t = Some so'" for t so'
      using that wf_worldD(1) [OF wf, of t] wf_worldD(1) [OF wf so] ic so
      by (fastforce simp: w' wf_sync_def distinct_map_filter split: if_splits)
    moreover have "wf_iconn w' k jc" if jc: "iconns w' k = Some jc" for k jc
    proof (cases "k = c")
      case True
      with jc so wf_worldD(2) [OF wf ic] show ?thesis by (auto simp: w' wf_iconn_def)
    next
      case False
      then have k: "iconns w k = Some jc" using jc by (simp add: w')
      have "ic_deleter jc \<noteq> ic_deleter ic" if "ic_connected jc" "ic_registered jc = ic_registered ic"
        using wf_worldD(3) [OF wf k ic] that True False by auto
      with wf_worldD(2) [OF wf k] so show ?thesis by (auto simp: w' wf_iconn_def)
    qed
    moreover have "k = k'" if "iconns w' k = Some jc" "iconns w' k' = Some jc'" "ic_connected jc"
      "ic_connected jc'" "ic_deleter jc = ic_deleter jc'" "ic_registered jc = ic_registered jc'" for k jc k' jc'
      using that wf_worldD(3) [OF wf, of k jc k' jc'] by (auto simp: w' split: if_splits)
    ultimately show ?thesis unfolding wf_world_def by blast
  qed
qed

lemma connection_destroy_defined: "wf_world w \<Longrightarrow> \<exists>w'. connection_destroy k w = Ret w' \<and> wf_world w'"
proof (cases k)
  case (Some c)
  assume wf: "wf_world w"
  show ?thesis
  proof (cases "iconns w c")
    case ic: (Some ic)
    have "\<exists>w'. ic_disconnect c w = Ret w'"
    proof (cases "ic_connected ic")
      case True
      from ic_disconnect_connected [OF wf ic True] show ?thesis by blast
    qed (use ic in \<open>simp add: ic_disconnect_def\<close>)
    with wf Some ic wf_world_ic_disconnect [OF wf] show ?thesis by (auto simp: connection_destroy_def)
  qed (use wf Some in \<open>simp add: connection_destroy_def\<close>)
qed (simp add: connection_destroy_def)

section \<open>What a call does\<close>

text \<open>One round of the loop at a node of the list.\<close>

lemma sync_loop_at:
  assumes "syncs w s = Some so" and "map_of (registered so) n = Some cb"
  shows "sync_loop (Suc f) e s (Some n) d w =
    and_then (run_callback f e cb d
        (if n = fst (last (registered so)) then w else w\<lparr>copies := Suc (copies w)\<rparr>))
      (\<lambda>w'. case syncs w' s of None \<Rightarrow> Undefined | Some so' \<Rightarrow>
         if n \<in> fst ` set (registered so')
         then sync_loop f e s (succ_of n (map fst (registered so'))) d w' else Undefined)"
  using assms by (simp add: step_simps(6))

text \<open>More fuel never changes a final result.\<close>

lemma fuel_mono_Suc:
  "final (run_callback f e cb d w) \<Longrightarrow> run_callback (Suc f) e cb d w = run_callback f e cb d w"
  "final (sync_call f e s d w) \<Longrightarrow> sync_call (Suc f) e s d w = sync_call f e s d w"
  "final (sync_loop f e s it d w) \<Longrightarrow> sync_loop (Suc f) e s it d w = sync_loop f e s it d w"
proof (induction f arbitrary: cb s it w)
  case 0
  { case 1 then show ?case by (simp add: step_simps) }
  { case 2 then show ?case by (simp add: step_simps) }
  { case 3 then show ?case by (simp add: step_simps) }
next
  case (Suc f)
  { case 1
    show ?case
    proof (cases cb)
      case (Call_Sync t)
      with 1 Suc.IH(2) [of t w] show ?thesis by (simp add: step_simps(2))
    qed (simp_all add: step_simps(2)) }
  { case 2
    with Suc.IH(3) show ?case by (auto simp: step_simps(4) split: option.splits) }
  { case 3
    show ?case
    proof (cases "\<exists>n so cb. it = Some n \<and> syncs w s = Some so \<and> map_of (registered so) n = Some cb")
      case True
      then obtain n so cb where x: "it = Some n" "syncs w s = Some so" "map_of (registered so) n = Some cb"
        by blast
      let ?w = "if n = fst (last (registered so)) then w else w\<lparr>copies := Suc (copies w)\<rparr>"
      have eq: "sync_loop (Suc g) e s it d w = and_then (run_callback g e cb d ?w)
         (\<lambda>w'. case syncs w' s of None \<Rightarrow> Undefined | Some so' \<Rightarrow>
            if n \<in> fst ` set (registered so')
            then sync_loop g e s (succ_of n (map fst (registered so'))) d w' else Undefined)" for g
        using sync_loop_at [OF x(2,3)] x(1) by simp
      have fin: "final (run_callback f e cb d ?w)"
        using 3 unfolding eq by (simp add: final_and_then)
      show ?thesis
        unfolding eq Suc.IH(1) [OF fin]
      proof (rule and_then_cong [OF refl])
        fix w' assume "run_callback f e cb d ?w = Ret w'"
        with 3 show "(case syncs w' s of None \<Rightarrow> Undefined | Some so' \<Rightarrow>
            if n \<in> fst ` set (registered so')
            then sync_loop (Suc f) e s (succ_of n (map fst (registered so'))) d w' else Undefined)
          = (case syncs w' s of None \<Rightarrow> Undefined | Some so' \<Rightarrow>
            if n \<in> fst ` set (registered so')
            then sync_loop f e s (succ_of n (map fst (registered so'))) d w' else Undefined)"
          unfolding eq by (auto simp: Suc.IH(3) final_and_then split: option.splits if_splits)
      qed
    next
      case False
      then show ?thesis by (cases it) (auto simp: step_simps(6) split: option.splits)
    qed }
qed

lemma fuel_mono:
  assumes "f \<le> g"
  shows "final (run_callback f e cb d w) \<Longrightarrow> run_callback g e cb d w = run_callback f e cb d w"
    and "final (sync_call f e s d w) \<Longrightarrow> sync_call g e s d w = sync_call f e s d w"
    and "final (sync_loop f e s it d w) \<Longrightarrow> sync_loop g e s it d w = sync_loop f e s it d w"
  using assms by (induction rule: dec_induct) (auto simp: fuel_mono_Suc)

text \<open>
  The reference: run the callbacks one after the other, counting a copy for all but the last.
\<close>

fun dispatch ::
  "nat \<Rightarrow> ('d, 'q) env \<Rightarrow> callback list \<Rightarrow> 'd \<Rightarrow> ('d, 'q) world \<Rightarrow> ('d, 'q) world outcome" where
  "dispatch f e [] d w = Ret w"
| "dispatch f e [cb] d w = run_callback f e cb d w"
| "dispatch f e (cb # cb' # cbs) d w =
     and_then (run_callback f e cb d (w\<lparr>copies := Suc (copies w)\<rparr>)) (dispatch f e (cb' # cbs) d)"

definition keeps_list :: "nat \<Rightarrow> ('d, 'q) env \<Rightarrow> nat \<Rightarrow> sync \<Rightarrow> 'd \<Rightarrow> bool" where
  "keeps_list f e s so d \<longleftrightarrow>
     (\<forall>cb \<in> snd ` set (registered so). \<forall>w w'. syncs w s = Some so \<longrightarrow>
        run_callback f e cb d w = Ret w' \<longrightarrow> syncs w' s = Some so)"

lemma sync_loop_dispatch:
  assumes "registered so = pre @ post" and "distinct (map fst (registered so))"
    and "syncs w s = Some so" and "keeps_list f e s so d" and "final (dispatch f e (map snd post) d w)"
  shows "sync_loop (Suc (f + length post)) e s (begin_of (map fst post)) d w = dispatch f e (map snd post) d w"
  using assms
proof (induction post arbitrary: pre w)
  case Nil
  then show ?case by (simp add: step_simps(6))
next
  case (Cons p post)
  obtain n cb where p: "p = (n, cb)" by fastforce
  let ?w = "if post = [] then w else w\<lparr>copies := Suc (copies w)\<rparr>"
  have reg: "registered so = pre @ (n, cb) # post" using Cons.prems(1) p by simp
  then have new: "n \<notin> set (map fst pre)" "n \<notin> set (map fst post)" using Cons.prems(2) by auto
  then have look: "map_of (registered so) n = Some cb"
    using map_of_is_SomeI [OF Cons.prems(2), of n cb] by (simp add: reg)
  have lst: "n = fst (last (registered so)) \<longleftrightarrow> post = []"
    using new(2) unfolding reg by (cases post rule: rev_cases) auto
  have disp: "dispatch f e (map snd (p # post)) d w
      = and_then (run_callback f e cb d ?w) (dispatch f e (map snd post) d)"
    by (cases post; cases "run_callback f e cb d w") (auto simp: p)
  have fin: "final (run_callback f e cb d ?w)"
    using Cons.prems(5) unfolding disp by (simp add: final_and_then)
  have run: "run_callback (f + length (p # post)) e cb d ?w = run_callback f e cb d ?w"
    by (rule fuel_mono(1) [OF _ fin]) simp
  have next_it: "(case syncs w' s of None \<Rightarrow> Undefined | Some so' \<Rightarrow>
        if n \<in> fst ` set (registered so')
        then sync_loop (Suc (f + length post)) e s (succ_of n (map fst (registered so'))) d w'
        else Undefined) = dispatch f e (map snd post) d w'"
    if w': "run_callback f e cb d ?w = Ret w'" for w'
  proof -
    have "syncs ?w s = Some so" using Cons.prems(3) by simp
    then have so': "syncs w' s = Some so"
      using Cons.prems(4) w' unfolding keeps_list_def reg by (metis in_set_conv_decomp image_eqI snd_conv)
    have "succ_of n (map fst (registered so)) = begin_of (map fst post)"
      using new(1) unfolding reg by (cases post) auto
    moreover have "sync_loop (Suc (f + length post)) e s (begin_of (map fst post)) d w'
        = dispatch f e (map snd post) d w'"
      using Cons.IH [of "pre @ [(n, cb)]" w'] so' Cons.prems(2,4,5) w' unfolding disp
      by (simp add: reg final_and_then)
    ultimately show ?thesis using so' by (simp add: reg)
  qed
  have "sync_loop (Suc (f + length (p # post))) e s (begin_of (map fst (p # post))) d w
      = and_then (run_callback (f + length (p # post)) e cb d ?w)
         (\<lambda>w'. case syncs w' s of None \<Rightarrow> Undefined | Some so' \<Rightarrow>
            if n \<in> fst ` set (registered so')
            then sync_loop (Suc (f + length post)) e s (succ_of n (map fst (registered so'))) d w'
            else Undefined)"
    using Cons.prems(3) look lst by (simp add: step_simps(6) p)
  also have "\<dots> = dispatch f e (map snd (p # post)) d w"
    unfolding run disp by (rule and_then_cong [OF refl]) (rule next_it)
  finally show ?case .
qed

lemma sync_call_eq_dispatch:
  assumes "syncs w s = Some so" and "distinct (map fst (registered so))"
    and "keeps_list f e s so d" and "final (dispatch f e (map snd (registered so)) d w)"
    and "f + length (registered so) + 2 \<le> g"
  shows "sync_call g e s d w = dispatch f e (map snd (registered so)) d w"
proof -
  have "sync_call (f + length (registered so) + 2) e s d w = dispatch f e (map snd (registered so)) d w"
    using sync_loop_dispatch [of so "[]", OF _ assms(2,1,3,4)] by (simp add: step_simps(4) assms(1))
  with fuel_mono(2) [OF assms(5)] assms(4) show ?thesis by metis
qed

lemma dispatch_observers:
  assumes "\<And>u d w. usr e u d w = Ret w"
  shows "dispatch (Suc 0) e (map User us) d w =
    Ret (w\<lparr>called := called w @ map (\<lambda>u. (u, d)) us, copies := copies w + (length us - 1)\<rparr>)"
proof (induction us arbitrary: w)
  case (Cons u us)
  then show ?case by (cases us) (simp_all add: step_simps(2) assms)
qed simp

lemma sync_call_observers:
  assumes "syncs w s = Some so" and "distinct (map fst (registered so))"
    and "map snd (registered so) = map User us" and "\<And>u d w. usr e u d w = Ret w"
    and "length us + 3 \<le> g"
  shows "sync_call g e s d w =
    Ret (w\<lparr>called := called w @ map (\<lambda>u. (u, d)) us, copies := copies w + (length us - 1)\<rparr>)"
proof -
  have "length (registered so) = length us" using arg_cong [OF assms(3), of length] by simp
  moreover have "keeps_list 1 e s so d"
    using assms(3,4) unfolding keeps_list_def set_map [symmetric] by (auto simp: step_simps(2))
  ultimately show ?thesis
    using sync_call_eq_dispatch [OF assms(1,2), where f = 1 and g = g] assms(3,5)
      dispatch_observers [OF assms(4), of us] by simp
qed

section \<open>Networks without cycles\<close>

text \<open>
  Everything a call does leaves the subscription tables and the running thread alone, and keeps what
  \<open>enqueue\<close> keeps of the queues it pushes into, as long as the user's handlers do.
\<close>

definition net :: "(nat \<Rightarrow> sync option) \<Rightarrow> nat \<Rightarrow> ('q \<Rightarrow> bool) \<Rightarrow> ('d, 'q) world \<Rightarrow> bool" where
  "net tab t good w \<longleftrightarrow> syncs w = tab \<and> tid w = t \<and> (\<forall>q a. fasts w q = Some a \<longrightarrow> good (af_queue a))"

text \<open>The queues end and stay good; so do the user's handlers.\<close>

definition good_queues :: "('d, 'q) env \<Rightarrow> nat \<Rightarrow> ('q \<Rightarrow> bool) \<Rightarrow> bool" where
  "good_queues e t good \<longleftrightarrow> (\<forall>d q. good q \<longrightarrow> final (enq e t d q) \<and> (\<forall>b q'. enq e t d q = Ret (b, q') \<longrightarrow> good q'))"

definition good_handlers :: "('d, 'q) env \<Rightarrow> (nat \<Rightarrow> sync option) \<Rightarrow> nat \<Rightarrow> ('q \<Rightarrow> bool) \<Rightarrow> bool" where
  "good_handlers e tab t good \<longleftrightarrow>
     (\<forall>u d w. net tab t good w \<longrightarrow> final (usr e u d w) \<and> (\<forall>w'. usr e u d w = Ret w' \<longrightarrow> net tab t good w'))"

lemma net_update [simp]:
  "net tab t good (w\<lparr>called := l\<rparr>) = net tab t good w" "net tab t good (w\<lparr>copies := n\<rparr>) = net tab t good w"
  "net tab t good (w\<lparr>clk := c\<rparr>) = net tab t good w" "net tab t good (w\<lparr>delays := ds\<rparr>) = net tab t good w"
  by (simp_all add: net_def)

lemma fast_push_net:
  assumes "good_queues e t good" and "net tab t good w"
  shows "final (fast_push e q d w)" "fast_push e q d w = Ret w' \<Longrightarrow> net tab t good w'"
proof -
  show "final (fast_push e q d w)" using assms
    by (auto simp: fast_push_def net_def good_queues_def final_and_then Let_def split: option.split)
  show "net tab t good w'" if "fast_push e q d w = Ret w'"
    using assms that by (fastforce simp: fast_push_def net_def good_queues_def and_then_eq_Ret Let_def split: option.splits if_splits)
qed

lemma delay_push_net: "delay_push e q p t' d w = Ret w' \<Longrightarrow> net tab t good w \<Longrightarrow> net tab t good w'"
  by (auto simp: delay_push_def split: option.splits)

lemma read_clock_net: "read_clock w = (now, w') \<Longrightarrow> net tab t good w \<Longrightarrow> net tab t good w'"
  by (auto simp: read_clock_def split: prod.splits)

lemma usr_net:
  assumes "good_handlers e tab t good" and "net tab t good w"
  shows "final (usr e u d w)" "usr e u d w = Ret w' \<Longrightarrow> net tab t good w'"
  using assms by (auto simp: good_handlers_def)

lemma run_keeps_net:
  assumes good: "good_queues e t good" "good_handlers e tab t good"
  shows "run_callback f e cb d w = Ret w' \<Longrightarrow> net tab t good w \<Longrightarrow> net tab t good w'"
    and "sync_call f e s d w = Ret w' \<Longrightarrow> net tab t good w \<Longrightarrow> net tab t good w'"
    and "sync_loop f e s it d w = Ret w' \<Longrightarrow> net tab t good w \<Longrightarrow> net tab t good w'"
proof (induction f arbitrary: cb s it w w')
  case 0
  { case 1 then show ?case by (simp add: step_simps) }
  { case 2 then show ?case by (simp add: step_simps) }
  { case 3 then show ?case by (simp add: step_simps) }
next
  case (Suc f)
  { case 1
    then show ?case
      by (auto simp: step_simps(2) dest: Suc.IH(2) usr_net(2) [OF good(2), rotated] fast_push_net(2) [OF good(1), rotated]
          delay_push_net read_clock_net split: callback.splits prod.splits) }
  { case 2
    then show ?case by (auto simp: step_simps(4) dest: Suc.IH(3) split: option.splits) }
  { case 3
    then show ?case
      by (auto simp: step_simps(6) and_then_eq_Ret dest!: Suc.IH(1,3) split: option.splits if_splits) }
qed

text \<open>
  A rank on the \<open>sync\<close> objects that drops along every \<open>Call_Sync\<close> says that the network has no
  cycle; \<open>K\<close> bounds the number of subscribers of one \<open>sync\<close>.
\<close>

definition ranked :: "(nat \<Rightarrow> nat) \<Rightarrow> nat \<Rightarrow> (nat \<Rightarrow> sync option) \<Rightarrow> bool" where
  "ranked rank K tab \<longleftrightarrow>
     (\<forall>s so. tab s = Some so \<longrightarrow> distinct (map fst (registered so)) \<and> length (registered so) \<le> K \<and>
        (\<forall>t. Call_Sync t \<in> snd ` set (registered so) \<longrightarrow> rank t < rank s))"

lemma leaf_final:
  assumes good: "good_queues e t good" "good_handlers e tab t good" and w: "net tab t good w" and "\<And>t. cb \<noteq> Call_Sync t"
  shows "final (run_callback (Suc f) e cb d w)"
  using assms(4) fast_push_net(1) [OF good(1) w] usr_net(1) [OF good(2)] w
  by (auto simp: step_simps(2) delay_push_def split: callback.splits option.splits prod.splits)

lemma ranked_loop_final:
  assumes good: "good_queues e t good" "good_handlers e tab t good"
    and tab: "tab s = Some so" "distinct (map fst (registered so))"
    and cbs: "\<And>cb w. cb \<in> snd ` set (registered so) \<Longrightarrow> net tab t good w \<Longrightarrow> final (run_callback f e cb d w)"
    and reg: "registered so = pre @ post" and w: "net tab t good w"
  shows "final (sync_loop (Suc (f + length post)) e s (begin_of (map fst post)) d w)"
  using reg w
proof (induction post arbitrary: pre w)
  case Nil
  then show ?case by (simp add: step_simps(6))
next
  case (Cons p post)
  obtain n cb where p: "p = (n, cb)" by fastforce
  have reg: "registered so = pre @ (n, cb) # post" using Cons.prems(1) p by simp
  have look: "map_of (registered so) n = Some cb"
    using map_of_is_SomeI [OF tab(2), of n cb] by (simp add: reg)
  have new: "n \<notin> set (map fst pre)" using tab(2) unfolding reg by auto
  define v where "v = (if n = fst (last (registered so)) then w else w\<lparr>copies := Suc (copies w)\<rparr>)"
  have v: "net tab t good v" using Cons.prems(2) by (simp add: v_def)
  note at = sync_loop_at [of w s so n cb, OF _ look, folded v_def]
  have fin: "final (run_callback f e cb d v)"
    using v by (intro cbs) (auto simp: reg)
  then have run: "final (run_callback (f + length (p # post)) e cb d v)"
    by (simp only: fuel_mono(1) [OF le_add1 fin])
  have "final (sync_loop (Suc (f + length post)) e s (succ_of n (map fst (registered so))) d w')"
    if "run_callback (f + length (p # post)) e cb d v = Ret w'" for w'
  proof -
    have "succ_of n (map fst (registered so)) = begin_of (map fst post)"
      using new unfolding reg by (cases post) auto
    moreover have "net tab t good w'"
      using run_keeps_net(1) [OF good that] v by simp
    ultimately show ?thesis using Cons.IH [of "pre @ [p]" w'] reg p by simp
  qed
  moreover have "syncs w' = tab" if "run_callback (f + length (p # post)) e cb d v = Ret w'" for w'
    using run_keeps_net(1) [OF good that] v by (simp add: net_def)
  ultimately have "final (sync_loop (Suc (f + length (p # post))) e s (Some n) d w)"
    using run tab(1) Cons.prems(2) by (simp add: at final_and_then net_def)
  then show ?case by (simp add: p)
qed

lemma ranked_call_final:
  assumes good: "good_queues e t good" "good_handlers e tab t good" and rk: "ranked rank K tab" and "net tab t good w" and "rank s \<le> r"
  shows "final (sync_call (Suc r * (K + 3)) e s d w)"
  using assms(4,5)
proof (induction r arbitrary: s w rule: less_induct)
  case (less r)
  have tab: "syncs w = tab" using less.prems(1) by (simp add: net_def)
  show ?case
  proof (cases "tab s")
    case None
    then show ?thesis using tab by (simp add: step_simps(4) eval_nat_numeral)
  next
    case (Some so)
    note rk = rk [unfolded ranked_def, rule_format, OF Some]
    define f where "f = Suc (r * (K + 3))"
    have cbs: "final (run_callback f e cb d w')" if cb: "cb \<in> snd ` set (registered so)" "net tab t good w'" for cb w'
    proof (cases "\<exists>t. cb = Call_Sync t")
      case True
      then obtain v where v: "cb = Call_Sync v" by blast
      then have lt: "rank v < rank s" using rk cb(1) by blast
      then have "final (sync_call (Suc (rank v) * (K + 3)) e v d w')"
        using less.IH [of "rank v" w' v] less.prems cb(2) by simp
      moreover have "Suc (rank v) * (K + 3) \<le> r * (K + 3)"
        using lt less.prems(2) by (intro mult_le_mono1) simp
      ultimately have "final (sync_call (r * (K + 3)) e v d w')" by (simp only: fuel_mono(2))
      then show ?thesis by (simp add: f_def v step_simps(2))
    qed (use leaf_final [OF good cb(2)] f_def in blast)
    have "final (sync_loop (Suc (f + length (registered so))) e s (begin_of (map fst (registered so))) d w)"
      by (rule ranked_loop_final [OF good Some, where pre = "[]"]) (use rk cbs less.prems(1) in auto)
    then have "final (sync_call (Suc (Suc (f + length (registered so)))) e s d w)"
      by (simp add: step_simps(4) Some tab)
    moreover have "Suc (Suc (f + length (registered so))) \<le> Suc r * (K + 3)"
      using rk by (simp add: f_def)
    ultimately show ?thesis by (simp only: fuel_mono(2))
  qed
qed

section \<open>Programs that subscribe and unsubscribe\<close>

text \<open>
  The steps of a program on its subscription tables: create a \<open>sync\<close>, connect, destroy a
  \<open>connection\<close> (of any kind: empty, used before, its \<open>sync\<close> gone), destroy a \<open>sync\<close>.
\<close>

inductive table_step :: "('d, 'q) world \<Rightarrow> ('d, 'q) world \<Rightarrow> bool" where
  new: "sync_new w = (s, w') \<Longrightarrow> table_step w w'"
| connect: "sync_connect s fn w = Ret (c, w') \<Longrightarrow> table_step w w'"
| connect_member: "sync_connect_member s u w = Ret (c, w') \<Longrightarrow> table_step w w'"
| disconnect: "connection_destroy k w = Ret w' \<Longrightarrow> table_step w w'"
| destroy: "sync_destroy s w = Ret w' \<Longrightarrow> table_step w w'"

lemma sync_connect_member_eq: "sync_connect_member s u w = sync_connect s (User u) w"
  by (simp add: connect_defs)

lemma table_step_wf: "table_step w w' \<Longrightarrow> wf_world w \<Longrightarrow> wf_world w'"
proof (induction rule: table_step.induct)
  case (disconnect k w w')
  then show ?case using connection_destroy_defined [of w k] by auto
qed (auto simp: sync_connect_member_eq intro: wf_world_sync_new wf_world_sync_connect wf_world_sync_destroy)

lemma table_reach_wf: "table_step\<^sup>*\<^sup>* w w' \<Longrightarrow> wf_world w \<Longrightarrow> wf_world w'"
  by (induction rule: rtranclp_induct) (auto intro: table_step_wf)

lemma wf_empty_world [simp]: "wf_world empty_world"
  by (simp add: wf_world_def empty_world_def)

text \<open>Destroying a connection that is alive and connected erases its own node and nothing else.\<close>

lemma connection_destroy_connected:
  assumes "wf_world w" "iconns w c = Some ic" "ic_connected ic"
  obtains so where "syncs w (ic_registered ic) = Some so" "ic_deleter ic \<in> fst ` set (registered so)"
    "connection_destroy (Some c) w = Ret (w\<lparr>syncs := (syncs w)(ic_registered ic \<mapsto>
        so\<lparr>registered := filter (\<lambda>p. fst p \<noteq> ic_deleter ic) (registered so)\<rparr>),
      iconns := (iconns w)(c \<mapsto> ic\<lparr>ic_connected := False\<rparr>)\<rparr>)"
  using ic_disconnect_connected [OF assms] assms(2) by (auto simp: connection_destroy_def)

section \<open>Properties\<close>

text \<open>
  C14. A call of a \<open>sync\<close> whose handlers leave its list alone runs every handler exactly once, in
  the order of the connections, copying the payload for all of them but the last: the loop over
  iterators equals the reference \<open>dispatch\<close>, exceptions and blocked handlers included.
\<close>

theorem sync_call_dispatches:
  assumes "syncs w s = Some so" and "distinct (map fst (registered so))"
    and "keeps_list f e s so d" and "final (dispatch f e (map snd (registered so)) d w)"
    and "f + length (registered so) + 2 \<le> g"
  shows "sync_call g e s d w = dispatch f e (map snd (registered so)) d w"
  using assms by (rule sync_call_eq_dispatch)

definition three_handlers :: "(nat, nat list) world" where
  "three_handlers = empty_world\<lparr>syncs := [0 \<mapsto> \<lparr>registered = [(1, User 7), (3, Push_Fast 9), (5, User 8)],
     conns = []\<rparr>], fasts := [9 \<mapsto> \<lparr>af_output = 10, af_queue = [], af_sem = semaphore_new 0\<rparr>], fresh := 20\<rparr>"

theorem sync_call_dispatches_witness:
  "(let w' = sync_call 6 watch_env 0 42 three_handlers in
     map_option (called :: (nat, nat list) world \<Rightarrow> _) (case w' of Ret v \<Rightarrow> Some v | _ \<Rightarrow> None) = Some [(7, 42), (8, 42)])"
proof -
  let ?so = "\<lparr>registered = [(1, User 7), (3, Push_Fast 9), (5, User 8)], conns = []\<rparr>"
  have "keeps_list 1 watch_env 0 ?so 42"
    by (auto simp: keeps_list_def step_simps(2) watch_env_def fast_push_def split: option.splits prod.splits)
  then have "sync_call 6 watch_env 0 42 three_handlers
      = dispatch 1 watch_env (map snd (registered ?so)) 42 three_handlers"
    by (intro sync_call_dispatches)
       (simp_all add: three_handlers_def step_simps(2) watch_env_def fast_push_def Let_def)
  then show ?thesis
    by (simp add: three_handlers_def empty_world_def step_simps(2) watch_env_def fast_push_def Let_def)
qed

text \<open>
  C16. A call in a network without cycles ends: when a rank drops along every subscription of a
  \<open>sync\<close> to a \<open>sync\<close>, the handlers of the user end and leave the tables alone, and the queues that are
  pushed into end and stay good, fuel \<open>(rank s + 1) * (K + 3)\<close> is enough, with \<open>K\<close> the largest number of
  subscribers.
\<close>

theorem sync_call_terminates:
  assumes "ranked rank K tab" and "net tab t good w" and "good_queues e t good" and "good_handlers e tab t good"
  shows "final (sync_call ((rank s + 1) * (K + 3)) e s d w)"
  using ranked_call_final [OF assms(3,4,1,2) order_refl] by simp

definition relay :: "(nat, nat list) world" where
  "relay = empty_world\<lparr>syncs := [0 \<mapsto> \<lparr>registered = [(1, Call_Sync 2)], conns = []\<rparr>,
     2 \<mapsto> \<lparr>registered = [(3, User 5)], conns = []\<rparr>]\<rparr>"

theorem sync_call_terminates_witness: "final (sync_call 8 watch_env 0 42 relay)"
proof -
  have "ranked (\<lambda>s. if s = 0 then 1 else 0) 1 (syncs relay)"
    by (auto simp: ranked_def relay_def split: if_splits)
  moreover have "net (syncs relay) 0 (\<lambda>_. True) relay" by (simp add: net_def relay_def empty_world_def)
  moreover have "good_queues watch_env 0 (\<lambda>_ :: nat list. True)" "good_handlers watch_env (syncs relay) 0 (\<lambda>_ :: nat list. True)"
    by (simp_all add: good_queues_def good_handlers_def watch_env_def)
  ultimately have "final (sync_call (((if (0 :: nat) = 0 then 1 else 0) + 1) * (1 + 3)) watch_env 0 42 relay)"
    by (rule sync_call_terminates)
  then show ?thesis by simp
qed



text \<open>
  C18. Connecting and dropping the handle is a round trip: the subscriber list of the \<open>sync\<close> is what
  it was, every other \<open>sync\<close> is untouched, and dropping the same handle again changes nothing.
\<close>

theorem connect_disconnect_roundtrip:
  assumes "wf_world w" and "sync_connect s fn w = Ret (c, w1)"
  shows "\<exists>w2. connection_destroy (Some c) w1 = Ret w2 \<and>
    (\<forall>t. map_option registered (syncs w2 t) = map_option registered (syncs w t)) \<and>
    connection_destroy (Some c) w2 = Ret w2"
proof -
  obtain so where so: "syncs w s = Some so" and c: "c = Suc (fresh w)"
    and w1: "w1 = w\<lparr>syncs := (syncs w)(s \<mapsto> so\<lparr>registered := registered so @ [(fresh w, fn)], conns := conns so @ [c]\<rparr>),
              iconns := (iconns w)(c \<mapsto> \<lparr>ic_deleter = fresh w, ic_connected = True, ic_registered = s\<rparr>),
              fresh := fresh w + 2\<rparr>"
    using assms(2) by (auto simp: sync_connect_Ret)
  have "filter (\<lambda>p. fst p \<noteq> fresh w) (registered so) = registered so"
    using wf_fresh(3) [OF assms(1) order_refl so] by (force simp: filter_id_conv)
  then show ?thesis
    using so by (simp add: w1 connection_destroy_def ic_disconnect_def sync_erase_def)
qed

theorem connect_disconnect_roundtrip_witness:
  "\<exists>w1 w2. sync_connect 0 Noop (snd (sync_new (empty_world :: (nat, nat list) world))) = Ret (2, w1) \<and>
     connection_destroy (Some 2) w1 = Ret w2 \<and> map_option registered (syncs w2 0) = Some []"
proof -
  let ?w = "snd (sync_new (empty_world :: (nat, nat list) world))"
  have wf: "wf_world ?w" by (rule wf_world_sync_new [OF wf_empty_world prod.collapse [symmetric]])
  obtain w1 where w1: "sync_connect 0 Noop ?w = Ret (2, w1)"
    by (simp add: sync_connect_def sync_new_def empty_world_def Let_def)
  have "map_option registered (syncs ?w 0) = Some []"
    by (simp add: sync_new_def empty_world_def)
  with connect_disconnect_roundtrip [OF wf w1] w1 show ?thesis by metis
qed

text \<open>
  C19. Dropping the handle of a connected subscription removes exactly its own handler: the list
  of its \<open>sync\<close> keeps every other handler in order, is one shorter, and the other \<open>sync\<close> objects
  keep their lists.
\<close>

theorem disconnect_removes_own_handler:
  assumes "wf_world w" and "iconns w c = Some ic" and "ic_connected ic"
  shows "\<exists>so w'. syncs w (ic_registered ic) = Some so \<and> connection_destroy (Some c) w = Ret w' \<and>
    map_option registered (syncs w' (ic_registered ic)) =
      Some (filter (\<lambda>p. fst p \<noteq> ic_deleter ic) (registered so)) \<and>
    length (filter (\<lambda>p. fst p \<noteq> ic_deleter ic) (registered so)) + 1 = length (registered so) \<and>
    (\<forall>t. t \<noteq> ic_registered ic \<longrightarrow> syncs w' t = syncs w t)"
proof -
  obtain so where so: "syncs w (ic_registered ic) = Some so" "ic_deleter ic \<in> fst ` set (registered so)"
    and run: "connection_destroy (Some c) w = Ret (w\<lparr>syncs := (syncs w)(ic_registered ic \<mapsto>
        so\<lparr>registered := filter (\<lambda>p. fst p \<noteq> ic_deleter ic) (registered so)\<rparr>),
      iconns := (iconns w)(c \<mapsto> ic\<lparr>ic_connected := False\<rparr>)\<rparr>)"
    using connection_destroy_connected [OF assms] by metis
  have "distinct (map fst (registered so))" using wf_worldD(1) [OF assms(1) so(1)] by (simp add: wf_sync_def)
  then have "length (filter (\<lambda>p. fst p \<noteq> ic_deleter ic) (registered so)) + 1 = length (registered so)"
    using so(2) by (rule length_filter_key)
  with so run show ?thesis by simp
qed

theorem disconnect_removes_own_handler_witness:
  "\<exists>w1 w'. sync_connect 0 Noop (snd (sync_new (empty_world :: (nat, nat list) world))) = Ret (2, w1) \<and>
     connection_destroy (Some 2) w1 = Ret w' \<and> map_option registered (syncs w' 0) = Some []"
proof -
  let ?w = "snd (sync_new (empty_world :: (nat, nat list) world))"
  obtain w1 where w1: "sync_connect 0 Noop ?w = Ret (2, w1)"
    by (simp add: sync_connect_def sync_new_def empty_world_def Let_def)
  have wf: "wf_world w1"
    by (rule wf_world_sync_connect [OF wf_world_sync_new [OF wf_empty_world prod.collapse [symmetric]] w1])
  let ?ic = "\<lparr>ic_deleter = 1, ic_connected = True, ic_registered = 0\<rparr>"
  have ic: "iconns w1 2 = Some ?ic" "map_option registered (syncs w1 0) = Some [(1, Noop)]"
    using w1 by (auto simp: sync_connect_Ret sync_new_def empty_world_def)
  from disconnect_removes_own_handler [OF wf ic(1)] ic(2) w1 show ?thesis by fastforce
qed

end
