(* ===== verification/Async_Delay.thy ===== *)
theory Async_Delay
  imports Sync
begin

text \<open>
  The delayed channel \<open>async_delay\<close> (\<^verbatim>\<open>include/async_delay.h\<close>): a vector of messages kept in
  ascending order of \<open>message_comp\<close>, so that the back is the most urgent one, and a semaphore
  that counts them. Publishing is \<open>delay_push\<close> of the theory \<open>World\<close>.
\<close>

section \<open>Operations\<close>

definition delay_new :: "('d, 'q) world \<Rightarrow> nat \<times> ('d, 'q) world" where
  "delay_new w =
     (let (out, w1) = sync_new w;
          q = fresh w1
      in (q, w1\<lparr>delays := (delays w1)(q \<mapsto> \<lparr>ad_output = out, ad_queue = [], ad_sem = semaphore_new 0\<rparr>),
               fresh := Suc q\<rparr>))"

definition delay_size :: "'d async_delay \<Rightarrow> 64 word" where
  "delay_size a = sem_size (ad_sem a)"

definition delay_empty :: "'d async_delay \<Rightarrow> bool" where
  "delay_empty a = (sem_size (ad_sem a) \<le> 0)"

text \<open>
  \<open>while (high_resolution_clock() < _queue.back()._timestamp)\<close>: every round reads the clock and the
  back of the vector again; \<open>pause\<close> is \<open>usleep\<close> or the coroutine's \<open>yield\<close>. The back of an empty
  vector is undefined.
\<close>

fun delay_spin :: "nat \<Rightarrow> (('d, 'q) world \<Rightarrow> ('d, 'q) world outcome) \<Rightarrow> nat \<Rightarrow> ('d, 'q) world \<Rightarrow> ('d, 'q) world outcome" where
  "delay_spin 0 pause q w = No_Fuel"
| "delay_spin (Suc f) pause q w =
     (case delays w q of
        None \<Rightarrow> Undefined
      | Some a \<Rightarrow>
          if ad_queue a = [] then Undefined
          else let (now, w') = read_clock w
               in if now < msg_timestamp (last (ad_queue a))
                  then and_then (pause w') (delay_spin f pause q)
                  else Ret w')"

text \<open>
  The rest of \<open>_get\<close>: the back is moved from, its payload dispatched, and the back popped, in
  this order.
\<close>

definition delay_take :: "nat \<Rightarrow> ('d, 'q) env \<Rightarrow> nat \<Rightarrow> ('d, 'q) world \<Rightarrow> ('d \<times> ('d, 'q) world) outcome" where
  "delay_take f e q w =
     (case delays w q of
        None \<Rightarrow> Undefined
      | Some a \<Rightarrow>
          if ad_queue a = [] then Undefined
          else
            let t = last (ad_queue a);
                rest = t\<lparr>msg_data := moved e (msg_data t)\<rparr>;
                w1 = w\<lparr>delays := (delays w)(q \<mapsto> a\<lparr>ad_queue := butlast (ad_queue a) @ [rest]\<rparr>)\<rparr>
            in and_then (sync_call f e (ad_output a) (msg_data t) w1)
                 (\<lambda>w2. case delays w2 q of
                    None \<Rightarrow> Undefined
                  | Some a2 \<Rightarrow>
                      if ad_queue a2 = [] then Undefined
                      else Ret (msg_data t, w2\<lparr>delays := (delays w2)(q \<mapsto> a2\<lparr>ad_queue := butlast (ad_queue a2)\<rparr>)\<rparr>)))"

definition delay_get_with ::
  "(('d, 'q) world \<Rightarrow> ('d, 'q) world outcome) \<Rightarrow> nat \<Rightarrow> ('d, 'q) env \<Rightarrow> nat \<Rightarrow> ('d, 'q) world \<Rightarrow>
   ('d \<times> ('d, 'q) world) outcome" where
  "delay_get_with pause f e q w =
     (case delays w q of
        None \<Rightarrow> Undefined
      | Some a \<Rightarrow>
          and_then (sem_wait (ad_sem a)) (\<lambda>sm.
            and_then (delay_spin f pause q (w\<lparr>delays := (delays w)(q \<mapsto> a\<lparr>ad_sem := sm\<rparr>)\<rparr>)) (\<lambda>w1.
              delay_take f e q w1)))"

definition delay_get :: "nat \<Rightarrow> ('d, 'q) env \<Rightarrow> nat \<Rightarrow> ('d, 'q) world \<Rightarrow> ('d \<times> ('d, 'q) world) outcome" where
  "delay_get f e q w = delay_get_with (slp e) f e q w"

definition delay_get_yield :: "nat \<Rightarrow> ('d, 'q) env \<Rightarrow> nat \<Rightarrow> ('d, 'q) world \<Rightarrow> ('d \<times> ('d, 'q) world) outcome" where
  "delay_get_yield f e q w = delay_get_with (yld e) f e q w"

definition delay_update :: "nat \<Rightarrow> ('d, 'q) env \<Rightarrow> nat \<Rightarrow> ('d, 'q) world \<Rightarrow> ('d, 'q) world outcome" where
  "delay_update f e q w =
     (case delays w q of
        None \<Rightarrow> Undefined
      | Some a \<Rightarrow>
          if \<not> delay_empty a then and_then (delay_get f e q w) (\<lambda>(_, w'). Ret w') else Ret w)"

text \<open>
  \<open>while (high_resolution_clock() <= mark)\<close> of the timed \<open>wait\<close>: a busy loop; other threads may run
  between two rounds.
\<close>

fun delay_wait_loop ::
  "nat \<Rightarrow> (('d, 'q) world \<Rightarrow> ('d \<times> ('d, 'q) world) outcome) \<Rightarrow> ('d, 'q) env \<Rightarrow> nat \<Rightarrow> marktime \<Rightarrow>
   ('d, 'q) world \<Rightarrow> ('d, 'q) world outcome" where
  "delay_wait_loop 0 get e q mark w = No_Fuel"
| "delay_wait_loop (Suc f) get e q mark w =
     (let (now, w1) = read_clock w
      in if now \<le> mark then
           (case delays w1 q of
              None \<Rightarrow> Undefined
            | Some a \<Rightarrow>
                if \<not> delay_empty a then and_then (get w1) (\<lambda>(_, w2). Ret w2)
                else and_then (slp e w1) (delay_wait_loop f get e q mark))
         else Ret w1)"

definition delay_wait :: "nat \<Rightarrow> ('d, 'q) env \<Rightarrow> nat \<Rightarrow> deltatime \<Rightarrow> ('d, 'q) world \<Rightarrow> ('d, 'q) world outcome" where
  "delay_wait f e q timeout w =
     (if 0 < timeout
      then let (now, w1) = read_clock w
           in delay_wait_loop f (delay_get f e q) e q (mark_plus now timeout) w1
      else and_then (delay_get f e q w) (\<lambda>(_, w'). Ret w'))"

definition delay_wait_yield ::
  "nat \<Rightarrow> ('d, 'q) env \<Rightarrow> nat \<Rightarrow> deltatime \<Rightarrow> ('d, 'q) world \<Rightarrow> ('d, 'q) world outcome" where
  "delay_wait_yield f e q timeout w =
     (if 0 < timeout
      then let (now, w1) = read_clock w
           in delay_wait_loop f (delay_get_yield f e q) e q (mark_plus now timeout) w1
      else and_then (delay_get_yield f e q w) (\<lambda>(_, w'). Ret w'))"

text \<open>The \<open>connect\<close> functions pass on to the inner \<open>sync\<close>.\<close>

definition delay_connect :: "nat \<Rightarrow> callback \<Rightarrow> ('d, 'q) world \<Rightarrow> (nat \<times> ('d, 'q) world) outcome" where
  "delay_connect q method w =
     (case delays w q of None \<Rightarrow> Undefined | Some a \<Rightarrow> sync_connect (ad_output a) method w)"

definition delay_connect_member :: "nat \<Rightarrow> nat \<Rightarrow> ('d, 'q) world \<Rightarrow> (nat \<times> ('d, 'q) world) outcome" where
  "delay_connect_member q u w =
     (case delays w q of None \<Rightarrow> Undefined | Some a \<Rightarrow> sync_connect_member (ad_output a) u w)"

definition delay_connect_sync :: "nat \<Rightarrow> nat \<Rightarrow> ('d, 'q) world \<Rightarrow> (nat \<times> ('d, 'q) world) outcome" where
  "delay_connect_sync q callback w =
     (case delays w q of None \<Rightarrow> Undefined | Some a \<Rightarrow> sync_connect (ad_output a) (Call_Sync callback) w)"

definition delay_connect_fast :: "nat \<Rightarrow> nat \<Rightarrow> ('d, 'q) world \<Rightarrow> (nat \<times> ('d, 'q) world) outcome" where
  "delay_connect_fast q queue w =
     (case delays w q of None \<Rightarrow> Undefined | Some a \<Rightarrow> sync_connect (ad_output a) (Push_Fast queue) w)"

definition delay_connect_delay ::
  "nat \<Rightarrow> int \<Rightarrow> deltatime \<Rightarrow> nat \<Rightarrow> ('d, 'q) world \<Rightarrow> (nat \<times> ('d, 'q) world) outcome" where
  "delay_connect_delay q priority delay queue w =
     (case delays w q of None \<Rightarrow> Undefined
      | Some a \<Rightarrow> sync_connect (ad_output a) (Push_Delay priority delay queue) w)"

section \<open>The invariant\<close>

text \<open>The vector is in order and the semaphore counts it.\<close>

definition delay_inv :: "'d async_delay \<Rightarrow> bool" where
  "delay_inv a \<longleftrightarrow> ascending message_comp (ad_queue a) \<and> length (ad_queue a) < 2 ^ 64
     \<and> sem_len (ad_sem a) = of_nat (length (ad_queue a))"

lemma ascending_singleton [simp]: "ascending cmp [x]" "ascending cmp []"
  by (simp_all add: ascending_def)

lemma ascending_butlast: "ascending cmp xs \<Longrightarrow> ascending cmp (butlast xs)"
  by (induction xs rule: rev_induct) (auto simp: ascending_def sorted_wrt_append)

lemma delay_inv_empty: "delay_inv a \<Longrightarrow> delay_empty a \<longleftrightarrow> ad_queue a = []"
  by (auto simp: delay_inv_def delay_empty_def sem_defs word_of_nat_eq_0_iff)

text \<open>What a \<open>get\<close> leaves of the channel.\<close>

definition delay_pop :: "'d async_delay \<Rightarrow> 'd async_delay" where
  "delay_pop a = a\<lparr>ad_sem := \<lparr>sem_len = sem_len (ad_sem a) - 1\<rparr>, ad_queue := butlast (ad_queue a)\<rparr>"

text \<open>
  With any \<open>std::sort\<close> the channel is a queue ordered by urgency.
\<close>

sublocale message_sort \<subseteq> channel: urgency_queue delay_inv "\<lambda>a. mset (ad_queue a)"
  "\<lambda>a. length (ad_queue a) + 1 < 2 ^ 64" "delay_insert srt" "\<lambda>a. last (ad_queue a)" delay_pop
proof
  fix a :: "'d async_delay" and m
  let ?qu = "ad_queue a @ [m]"
  have q': "ad_queue (delay_insert srt m a) = (if 1 < length ?qu then srt ?qu else ?qu)"
    by (simp add: delay_insert_def Let_def)
  then have len: "length (ad_queue (delay_insert srt m a)) = length (ad_queue a) + 1" by simp
  assume inv: "delay_inv a"
  show "mset (ad_queue (delay_insert srt m a)) = add_mset m (mset (ad_queue a))"
    unfolding q' by (simp add: srt_mset)
  show "delay_inv (delay_insert srt m a)" if "length (ad_queue a) + 1 < 2 ^ 64"
  proof -
    have "ascending message_comp (ad_queue (delay_insert srt m a))"
      unfolding q' using srt_ascending [of ?qu] by simp
    moreover have "sem_len (ad_sem (delay_insert srt m a)) = of_nat (length (ad_queue (delay_insert srt m a)))"
      using inv unfolding len by (simp add: delay_insert_def delay_inv_def sem_notify_def Let_def)
    ultimately show ?thesis using that len by (simp add: delay_inv_def)
  qed
next
  fix a :: "'d async_delay"
  assume inv: "delay_inv a"
  show "\<not> more_urgent m (last (ad_queue a))" if "m \<in># mset (ad_queue a)" for m
    using inv that ascending_last_urgent by (auto simp: delay_inv_def)
  assume ne: "mset (ad_queue a) \<noteq> {#}"
  then show "last (ad_queue a) \<in># mset (ad_queue a)" by simp
  show "mset (ad_queue (delay_pop a)) = mset (ad_queue a) - {#last (ad_queue a)#}"
    using ne by (cases "ad_queue a" rule: rev_cases) (simp_all add: delay_pop_def)
  show "delay_inv (delay_pop a)"
    using inv ne by (cases "ad_queue a" rule: rev_cases)
      (auto simp: delay_inv_def delay_pop_def ascending_def sorted_wrt_append)
qed

context message_sort begin

lemmas insert_laws = channel.ins_inv channel.ins_bag

end

section \<open>Waiting for the time of a message\<close>

lemma delay_spin_Suc:
  assumes "delays w q = Some a" and "ad_queue a \<noteq> []"
  shows "delay_spin (Suc f) pause q w =
    (let v = w\<lparr>clk := (clk w)\<lparr>calls := Suc (calls (clk w))\<rparr>\<rparr>
     in if readings (clk w) (calls (clk w)) < msg_timestamp (last (ad_queue a))
        then and_then (pause v) (delay_spin f pause q) else Ret v)"
  using assms by (simp add: read_clock_def high_resolution_clock_def Let_def)

text \<open>Whatever happens in the pauses, the loop is left only with a reading past the time of the back.\<close>

lemma delay_spin_due:
  "delay_spin f pause q w = Ret w' \<Longrightarrow>
    \<exists>a i. delays w' q = Some a \<and> ad_queue a \<noteq> [] \<and> calls (clk w') = Suc i \<and>
      msg_timestamp (last (ad_queue a)) \<le> readings (clk w') i"
proof (induction f arbitrary: w)
  case (Suc f)
  from Suc.prems obtain a where a: "delays w q = Some a" "ad_queue a \<noteq> []"
    by (auto split: option.splits if_splits)
  from Suc.prems Suc.IH show ?case
    unfolding delay_spin_Suc [OF a] using a
    by (auto simp: Let_def and_then_eq_Ret not_less split: if_splits)
qed simp

text \<open>When nobody interferes and the clock gets there, the loop ends and has only read the clock.\<close>

lemma delay_spin_ends:
  assumes "delays w q = Some a" and "ad_queue a \<noteq> []" and "\<And>w. pause w = Ret w"
    and "\<And>i. k \<le> i \<Longrightarrow> msg_timestamp (last (ad_queue a)) \<le> readings (clk w) i"
    and "k < f + calls (clk w)" and "0 < f"
  shows "\<exists>c. calls (clk w) \<le> c \<and> delay_spin f pause q w = Ret (w\<lparr>clk := (clk w)\<lparr>calls := c\<rparr>\<rparr>)"
  using assms
proof (induction f arbitrary: w)
  case (Suc f)
  let ?v = "w\<lparr>clk := (clk w)\<lparr>calls := Suc (calls (clk w))\<rparr>\<rparr>"
  show ?case
  proof (cases "readings (clk w) (calls (clk w)) < msg_timestamp (last (ad_queue a))")
    case True
    then have "\<not> k \<le> calls (clk w)" using Suc.prems(4) [of "calls (clk w)"] by auto
    then have "\<exists>c. calls (clk ?v) \<le> c \<and> delay_spin f pause q ?v = Ret (?v\<lparr>clk := (clk ?v)\<lparr>calls := c\<rparr>\<rparr>)"
      using Suc.prems by (intro Suc.IH) auto
    then obtain c where "calls (clk ?v) \<le> c" "delay_spin f pause q ?v = Ret (?v\<lparr>clk := (clk ?v)\<lparr>calls := c\<rparr>\<rparr>)"
      by blast
    then have "calls (clk w) \<le> c" "delay_spin f pause q ?v = Ret (w\<lparr>clk := (clk w)\<lparr>calls := c\<rparr>\<rparr>)"
      by simp_all
    with True show ?thesis
      unfolding delay_spin_Suc [OF Suc.prems(1,2)] by (auto simp: Let_def Suc.prems(3))
  next
    case False
    then show ?thesis unfolding delay_spin_Suc [OF Suc.prems(1,2)]
      by (intro exI [of _ "Suc (calls (clk w))"]) (simp add: Let_def)
  qed
qed simp

section \<open>One get\<close>

text \<open>
  Handlers that only watch: what a dispatch to them changes is the log and the count of copies.
\<close>

definition watched :: "('d, 'q) world \<Rightarrow> nat \<Rightarrow> nat list \<Rightarrow> bool" where
  "watched w out us \<longleftrightarrow> (\<exists>so. syncs w out = Some so \<and> distinct (map fst (registered so)) \<and>
     map snd (registered so) = map User us)"

lemma watched_call:
  assumes "watched w out us" and "\<And>u d w. usr e u d w = Ret w" and "length us + 3 \<le> f"
  shows "sync_call f e out d w =
    Ret (w\<lparr>called := called w @ map (\<lambda>u. (u, d)) us, copies := copies w + (length us - 1)\<rparr>)"
proof -
  obtain so where "syncs w out = Some so" "distinct (map fst (registered so))"
    "map snd (registered so) = map User us"
    using assms(1) by (auto simp: watched_def)
  then show ?thesis using assms(2,3) by (rule sync_call_observers)
qed

lemma watched_update [simp]:
  "watched (w\<lparr>delays := x\<rparr>) = watched w" "watched (w\<lparr>fasts := y\<rparr>) = watched w" "watched (w\<lparr>clk := c\<rparr>) = watched w"
  "watched (w\<lparr>called := l\<rparr>) = watched w" "watched (w\<lparr>copies := n\<rparr>) = watched w"
  by (simp_all add: watched_def fun_eq_iff)

lemma delay_take_watched:
  assumes "delays w q = Some a" and "ad_queue a \<noteq> []" and "watched w (ad_output a) us"
    and "\<And>u d w. usr e u d w = Ret w" and "length us + 3 \<le> f"
  shows "delay_take f e q w = Ret (msg_data (last (ad_queue a)),
    w\<lparr>delays := (delays w)(q \<mapsto> a\<lparr>ad_queue := butlast (ad_queue a)\<rparr>),
      called := called w @ map (\<lambda>u. (u, msg_data (last (ad_queue a)))) us,
      copies := copies w + (length us - 1)\<rparr>)"
  using assms(1,2) by (simp add: delay_take_def Let_def watched_call [OF _ assms(4,5)] assms(3))

lemma delay_get_watched:
  assumes a: "delays w q = Some a" "delay_inv a" "ad_queue a \<noteq> []"
    and env: "watched w (ad_output a) us" "\<And>u d w. usr e u d w = Ret w" "\<And>w. slp e w = Ret w"
    and due: "\<And>i. k \<le> i \<Longrightarrow> msg_timestamp (last (ad_queue a)) \<le> readings (clk w) i"
    and fuel: "k < f" "length us + 3 \<le> f"
  shows "\<exists>c. calls (clk w) \<le> c \<and> delay_get f e q w = Ret (msg_data (last (ad_queue a)),
    w\<lparr>clk := (clk w)\<lparr>calls := c\<rparr>, delays := (delays w)(q \<mapsto> delay_pop a),
      called := called w @ map (\<lambda>u. (u, msg_data (last (ad_queue a)))) us,
      copies := copies w + (length us - 1)\<rparr>)"
proof -
  let ?s = "\<lparr>sem_len = sem_len (ad_sem a) - 1\<rparr>"
  let ?w = "w\<lparr>delays := (delays w)(q \<mapsto> a\<lparr>ad_sem := ?s\<rparr>)\<rparr>"
  have "sem_size (ad_sem a) \<noteq> 0" using delay_inv_empty [OF a(2)] a(3) by (simp add: delay_empty_def)
  then have "sem_wait (ad_sem a) = Ret ?s" by (simp add: sem_defs word_neq_0_conv)
  moreover obtain c where c: "calls (clk w) \<le> c"
    "delay_spin f (slp e) q ?w = Ret (?w\<lparr>clk := (clk ?w)\<lparr>calls := c\<rparr>\<rparr>)"
    using delay_spin_ends [of ?w q "a\<lparr>ad_sem := ?s\<rparr>" "slp e" k f] env(3) due fuel a(3) by auto
  moreover have "delay_take f e q (?w\<lparr>clk := (clk ?w)\<lparr>calls := c\<rparr>\<rparr>) = Ret (msg_data (last (ad_queue a)),
    w\<lparr>clk := (clk w)\<lparr>calls := c\<rparr>, delays := (delays w)(q \<mapsto> delay_pop a),
      called := called w @ map (\<lambda>u. (u, msg_data (last (ad_queue a)))) us,
      copies := copies w + (length us - 1)\<rparr>)"
    using delay_take_watched [of "?w\<lparr>clk := (clk ?w)\<lparr>calls := c\<rparr>\<rparr>" q "a\<lparr>ad_sem := ?s\<rparr>" us e f] env fuel a
    by (simp add: delay_pop_def)
  ultimately show ?thesis using a(1) by (auto simp: delay_get_def delay_get_with_def)
qed

lemma delay_push_syncs: "delay_push e q p ts d w = Ret w' \<Longrightarrow> syncs w' = syncs w"
  by (auto simp: delay_push_def split: option.splits)

section \<open>Many messages\<close>

fun delay_pushes :: "('d, 'q) env \<Rightarrow> nat \<Rightarrow> 'd message list \<Rightarrow> ('d, 'q) world \<Rightarrow> ('d, 'q) world outcome" where
  "delay_pushes e q [] w = Ret w"
| "delay_pushes e q (m # ms) w =
     and_then (delay_push e q (msg_priority m) (msg_timestamp m) (msg_data m) w) (delay_pushes e q ms)"

fun delay_gets :: "nat \<Rightarrow> nat \<Rightarrow> ('d, 'q) env \<Rightarrow> nat \<Rightarrow> ('d, 'q) world \<Rightarrow> ('d list \<times> ('d, 'q) world) outcome" where
  "delay_gets 0 f e q w = Ret ([], w)"
| "delay_gets (Suc n) f e q w =
     and_then (delay_get f e q w) (\<lambda>(d, w1). and_then (delay_gets n f e q w1) (\<lambda>(ds, w2). Ret (d # ds, w2)))"

lemma delay_push_Ret:
  "delays w q = Some a \<Longrightarrow> delay_push e q (msg_priority m) (msg_timestamp m) (msg_data m) w =
     Ret (w\<lparr>delays := (delays w)(q \<mapsto> delay_insert (srt e) m a)\<rparr>)"
  by (cases m) (simp add: delay_push_def message_new_def)

lemma ad_output_insert [simp]: "ad_output (delay_insert f m a) = ad_output a"
  by (simp add: delay_insert_def Let_def)

lemma ad_output_pop [simp]: "ad_output (delay_pop a) = ad_output a"
  by (simp add: delay_pop_def)

lemma delay_pushes_Ret:
  assumes "message_sort (srt e)" and "delays w q = Some a" and "delay_inv a"
    and "length (ad_queue a) + length ms < 2 ^ 64"
  shows "\<exists>a'. delay_pushes e q ms w = Ret (w\<lparr>delays := (delays w)(q \<mapsto> a')\<rparr>) \<and> delay_inv a' \<and>
    mset (ad_queue a') = mset (ad_queue a) + mset ms \<and> ad_output a' = ad_output a"
  using assms(2-)
proof (induction ms arbitrary: w a)
  case Nil
  then show ?case by (intro exI [of _ a]) (simp add: fun_upd_idem)
next
  case (Cons m ms)
  let ?a = "delay_insert (srt e) m a"
  let ?w = "w\<lparr>delays := (delays w)(q \<mapsto> ?a)\<rparr>"
  have inv: "delay_inv ?a" using Cons.prems message_sort.insert_laws(1) [OF assms(1)] by simp
  have bag: "mset (ad_queue ?a) = add_mset m (mset (ad_queue a))"
    using Cons.prems message_sort.insert_laws(2) [OF assms(1)] by simp
  then have len: "length (ad_queue ?a) = Suc (length (ad_queue a))" by (metis size_add_mset size_mset)
  with Cons.prems(3) have "length (ad_queue ?a) + length ms < 2 ^ 64" by simp
  moreover have "delays ?w q = Some ?a" by simp
  ultimately obtain a' where
    "delay_pushes e q ms ?w = Ret (?w\<lparr>delays := (delays ?w)(q \<mapsto> a')\<rparr>)" "delay_inv a'"
    "mset (ad_queue a') = mset (ad_queue ?a) + mset ms" "ad_output a' = ad_output ?a"
    using Cons.IH [OF _ inv, of ?w] by blast
  moreover have "delay_pushes e q (m # ms) w = delay_pushes e q ms ?w"
    using delay_push_Ret [OF Cons.prems(1)] by simp
  moreover have "?w\<lparr>delays := (delays ?w)(q \<mapsto> a')\<rparr> = w\<lparr>delays := (delays w)(q \<mapsto> a')\<rparr>" by simp
  ultimately show ?case using bag by (intro exI [of _ a'] conjI) (simp_all only: ad_output_insert mset.simps union_mset_add_mset_left union_mset_add_mset_right)
qed

lemma delay_gets_Ret:
  assumes "delays w q = Some a" and "delay_inv a" and "length (ad_queue a) = n"
    and "watched w (ad_output a) us" and "\<And>u d w. usr e u d w = Ret w" and "\<And>w. slp e w = Ret w"
    and "\<And>m i. m \<in> set (ad_queue a) \<Longrightarrow> k \<le> i \<Longrightarrow> msg_timestamp m \<le> readings (clk w) i"
    and "k < f" and "length us + 3 \<le> f"
  shows "\<exists>w'. delay_gets n f e q w =
      Ret (map msg_data (drain (\<lambda>a. last (ad_queue a)) delay_pop n a), w') \<and>
    called w' = called w @ concat (map (\<lambda>m. map (\<lambda>u. (u, msg_data m)) us)
      (drain (\<lambda>a. last (ad_queue a)) delay_pop n a))"
  using assms(1-4,7)
proof (induction n arbitrary: w a)
  case (Suc n)
  then have ne: "ad_queue a \<noteq> []" by auto
  have "\<exists>c. calls (clk w) \<le> c \<and> delay_get f e q w = Ret (msg_data (last (ad_queue a)),
    w\<lparr>clk := (clk w)\<lparr>calls := c\<rparr>, delays := (delays w)(q \<mapsto> delay_pop a),
      called := called w @ map (\<lambda>u. (u, msg_data (last (ad_queue a)))) us,
      copies := copies w + (length us - 1)\<rparr>)"
    using Suc.prems ne by (intro delay_get_watched [where k = k] assms) auto
  then obtain w1 where w1: "delay_get f e q w = Ret (msg_data (last (ad_queue a)), w1)"
      "delays w1 q = Some (delay_pop a)" "readings (clk w1) = readings (clk w)"
      "watched w1 (ad_output a) us" "called w1 = called w @ map (\<lambda>u. (u, msg_data (last (ad_queue a)))) us"
    using Suc.prems(4) by fastforce
  have "delay_inv (delay_pop a)"
    using insertion.channel.pop_inv [of a] Suc.prems(2) ne by simp
  moreover have "ad_queue (delay_pop a) = butlast (ad_queue a)" by (simp add: delay_pop_def)
  ultimately have "\<exists>w'. delay_gets n f e q w1 =
      Ret (map msg_data (drain (\<lambda>a. last (ad_queue a)) delay_pop n (delay_pop a)), w') \<and>
    called w' = called w1 @ concat (map (\<lambda>m. map (\<lambda>u. (u, msg_data m)) us)
      (drain (\<lambda>a. last (ad_queue a)) delay_pop n (delay_pop a)))"
    using w1 Suc.prems by (intro Suc.IH) (auto dest: in_set_butlastD)
  with w1 show ?case by auto
qed simp

lemma delay_wait_loop_empty:
  assumes "delays w q = Some a" and "delay_empty a" and "\<And>w. slp e w = Ret w"
    and "mark < readings (clk w) k" and "calls (clk w) \<le> k" and "k < f + calls (clk w)"
  shows "\<exists>c \<le> k. delay_wait_loop f get e q mark w = Ret (w\<lparr>clk := (clk w)\<lparr>calls := Suc c\<rparr>\<rparr>) \<and>
    mark < readings (clk w) c"
  using assms
proof (induction f arbitrary: w)
  case (Suc f)
  let ?i = "calls (clk w)"
  let ?v = "w\<lparr>clk := (clk w)\<lparr>calls := Suc ?i\<rparr>\<rparr>"
  have rc: "read_clock w = (readings (clk w) ?i, ?v)"
    by (simp add: read_clock_def high_resolution_clock_def)
  show ?case
  proof (cases "readings (clk w) ?i \<le> mark")
    case True
    then have "?i \<noteq> k" using Suc.prems(4) by auto
    then have "\<exists>c \<le> k. delay_wait_loop f get e q mark ?v = Ret (?v\<lparr>clk := (clk ?v)\<lparr>calls := Suc c\<rparr>\<rparr>) \<and>
        mark < readings (clk ?v) c"
      using Suc.prems by (intro Suc.IH) auto
    then obtain c where "c \<le> k" "delay_wait_loop f get e q mark ?v = Ret (?v\<lparr>clk := (clk ?v)\<lparr>calls := Suc c\<rparr>\<rparr>)"
      "mark < readings (clk ?v) c" by blast
    with True Suc.prems rc show ?thesis by auto
  next
    case False
    with Suc.prems rc show ?thesis by (intro exI [of _ ?i]) simp
  qed
qed simp

section \<open>Properties\<close>

text \<open>
  C20. A channel starts in order with an empty count, and publishing keeps the invariant whatever
  algorithm \<open>std::sort\<close> uses: the vector stays sorted, the semaphore counts it, and the content
  grows by exactly the new message.
\<close>

theorem delay_publish_keeps_order:
  assumes "message_sort sort_fn" and "delay_inv a" and "length (ad_queue a) + 1 < 2 ^ 64"
  shows "delay_inv (delay_insert sort_fn m a) \<and>
    mset (ad_queue (delay_insert sort_fn m a)) = add_mset m (mset (ad_queue a)) \<and>
    delay_size (delay_insert sort_fn m a) = of_nat (Suc (length (ad_queue a)))"
  using message_sort.insert_laws [OF assms(1,2)] assms(2,3)
  by (simp add: delay_inv_def delay_size_def delay_insert_def sem_defs Let_def)

theorem delay_publish_keeps_order_witness:
  "delay_inv (delay_insert message_insort (message_new 0 5 ''a'')
     \<lparr>ad_output = 0, ad_queue = [message_new 0 7 ''b''], ad_sem = semaphore_new 1\<rparr>)"
  using delay_publish_keeps_order [OF insertion.message_sort_axioms,
      of "\<lparr>ad_output = 0, ad_queue = [message_new 0 7 ''b''], ad_sem = semaphore_new 1\<rparr>"]
  by (simp add: delay_inv_def semaphore_new_def)


definition one_message :: "(nat, nat list) world" where
  "one_message = empty_world\<lparr>syncs := [0 \<mapsto> \<lparr>registered = [(2, User 7)], conns = []\<rparr>],
     delays := [1 \<mapsto> \<lparr>ad_output = 0, ad_queue = [message_new 0 3000000 42], ad_sem = semaphore_new 1\<rparr>]\<rparr>"

lemma one_message_facts:
  assumes "delays one_message 1 = Some a"
  shows "delay_inv a" "ad_queue a = [message_new 0 3000000 42]" "watched one_message (ad_output a) [7]"
  using assms by (auto simp: one_message_def delay_inv_def semaphore_new_def watched_def)

lemma one_message_due: "3 \<le> i \<Longrightarrow> 3000000 \<le> readings (clk one_message) i"
  by (simp add: one_message_def empty_world_def)

lemma one_message_get: "\<exists>w'. delay_get_with Ret 5 watch_env 1 one_message = Ret (42, w')"
proof -
  obtain a where a: "delays one_message 1 = Some a" by (simp add: one_message_def)
  note facts = one_message_facts [OF a]
  have "\<exists>c. calls (clk one_message) \<le> c \<and> delay_get 5 watch_env 1 one_message = Ret (msg_data (last (ad_queue a)),
    one_message\<lparr>clk := (clk one_message)\<lparr>calls := c\<rparr>, delays := (delays one_message)(1 \<mapsto> delay_pop a),
      called := called one_message @ map (\<lambda>u. (u, msg_data (last (ad_queue a)))) [7],
      copies := copies one_message + (length [7 :: nat] - 1)\<rparr>)"
    by (rule delay_get_watched [OF a facts(1) _ facts(3), where k = 3])
       (simp_all add: facts(2) message_new_def one_message_due watch_env_def)
  then show ?thesis by (auto simp: delay_get_def watch_env_def facts(2) message_new_def)
qed






text \<open>
  C24. The timed \<open>wait\<close> on an empty channel gives up: it returns at the first clock reading past the
  deadline, which it makes no more than \<open>k + 1\<close> readings for when reading \<open>k\<close> is past it, and
  changes nothing but the number of readings.
\<close>

theorem delay_wait_times_out:
  assumes "delays w q = Some a" and "delay_empty a" and "\<And>w. slp e w = Ret w" and "0 < timeout"
    and "mark_plus (readings (clk w) (calls (clk w))) timeout < readings (clk w) k"
    and "calls (clk w) < k" and "k \<le> f + calls (clk w)"
  shows "\<exists>c \<le> k. delay_wait f e q timeout w = Ret (w\<lparr>clk := (clk w)\<lparr>calls := Suc c\<rparr>\<rparr>) \<and>
    mark_plus (readings (clk w) (calls (clk w))) timeout < readings (clk w) c"
proof -
  let ?v = "w\<lparr>clk := (clk w)\<lparr>calls := Suc (calls (clk w))\<rparr>\<rparr>"
  have "read_clock w = (readings (clk w) (calls (clk w)), ?v)"
    by (simp add: read_clock_def high_resolution_clock_def)
  then have "delay_wait f e q timeout w = delay_wait_loop f (delay_get f e q) e q
      (mark_plus (readings (clk w) (calls (clk w))) timeout) ?v"
    using assms(4) by (simp add: delay_wait_def)
  moreover have "\<exists>c \<le> k. delay_wait_loop f (delay_get f e q) e q
      (mark_plus (readings (clk w) (calls (clk w))) timeout) ?v = Ret (?v\<lparr>clk := (clk ?v)\<lparr>calls := Suc c\<rparr>\<rparr>) \<and>
      mark_plus (readings (clk w) (calls (clk w))) timeout < readings (clk ?v) c"
    using assms by (intro delay_wait_loop_empty) auto
  ultimately show ?thesis by simp
qed

theorem delay_wait_times_out_witness:
  "\<exists>c \<le> 3. delay_wait 5 watch_env 1 2 (one_message\<lparr>delays := [1 \<mapsto> \<lparr>ad_output = 0, ad_queue = [], ad_sem = semaphore_new 0\<rparr>]\<rparr>)
     = Ret (one_message\<lparr>delays := [1 \<mapsto> \<lparr>ad_output = 0, ad_queue = [], ad_sem = semaphore_new 0\<rparr>],
            clk := (clk one_message)\<lparr>calls := Suc c\<rparr>\<rparr>)"
proof -
  let ?a = "\<lparr>ad_output = 0, ad_queue = [], ad_sem = semaphore_new 0\<rparr> :: nat async_delay"
  let ?w = "one_message\<lparr>delays := [1 \<mapsto> ?a]\<rparr>"
  have "\<exists>c \<le> 3. delay_wait 5 watch_env 1 2 ?w = Ret (?w\<lparr>clk := (clk ?w)\<lparr>calls := Suc c\<rparr>\<rparr>) \<and>
      mark_plus (readings (clk ?w) (calls (clk ?w))) 2 < readings (clk ?w) c"
    by (rule delay_wait_times_out [where a = ?a])
       (simp_all add: delay_empty_def sem_defs one_message_def empty_world_def watch_env_def mark_plus_def)
  then show ?thesis by auto
qed

text \<open>
  C25. \<open>_get\<close> pops the back after the handlers have run, and the back may have changed by then. A
  handler that publishes a more urgent message into the same channel loses that message: the
  channel is left with the moved-from message that was just delivered, and with a count for it.
\<close>

theorem delay_reentrant_publish_is_lost:
  assumes "message_sort (srt e)" and "delays w q = Some a" and "ad_queue a = [t]"
    and "more_urgent (message_new p ts d) t"
    and "syncs w (ad_output a) = Some so" and "registered so = [(n, User u)]"
    and "\<And>x v. usr e u x v = delay_push e q p ts d v" and "4 \<le> f"
  shows "\<exists>w' a'. delay_take f e q w = Ret (msg_data t, w') \<and> delays w' q = Some a' \<and>
    ad_queue a' = [t\<lparr>msg_data := moved e (msg_data t)\<rparr>] \<and> ad_sem a' = sem_notify (ad_sem a)"
proof -
  let ?m = "message_new p ts d" and ?t = "t\<lparr>msg_data := moved e (msg_data t)\<rparr>"
  let ?w = "w\<lparr>delays := (delays w)(q \<mapsto> a\<lparr>ad_queue := [?t]\<rparr>)\<rparr>"
  have "mset (srt e [?t, ?m]) = {#?t, ?m#}" and asc: "ascending message_comp (srt e [?t, ?m])"
    using message_sort.srt_mset [OF assms(1)] message_sort.srt_ascending [OF assms(1)] by auto
  then have "srt e [?t, ?m] = [?t, ?m] \<or> srt e [?t, ?m] = [?m, ?t]"
    by (cases "srt e [?t, ?m]" rule: remdups_adj.cases) (auto simp: add_eq_conv_ex)
  moreover have "\<not> ascending message_comp [?m, ?t]"
    using assms(4) by (simp add: ascending_def message_comp_more_urgent more_urgent_def)
  ultimately have srt: "srt e [?t, ?m] = [?t, ?m]" using asc by metis
  have "keeps_list 1 e (ad_output a) so (msg_data t)"
    using assms(6,7) by (auto simp: keeps_list_def step_simps(2) dest: delay_push_syncs)
  then have "sync_call f e (ad_output a) (msg_data t) ?w =
      delay_push e q p ts d (?w\<lparr>called := called w @ [(u, msg_data t)]\<rparr>)"
    using sync_call_eq_dispatch [of ?w "ad_output a" so 1 e "msg_data t" f] assms(5-8)
    by (simp add: step_simps(2) delay_push_def)
  then show ?thesis using assms(2,3) srt
    by (simp add: delay_take_def delay_push_def delay_insert_def Let_def)
qed

definition reentrant_env :: "(nat, nat list) env" where
  "reentrant_env = watch_env\<lparr>usr := (\<lambda>u d. delay_push watch_env 1 0 1000000 99)\<rparr>"

lemma reentrant_env_simps:
  "usr reentrant_env u d v = delay_push watch_env 1 0 1000000 99 v" "srt reentrant_env = message_insort"
  "moved reentrant_env x = x" "srt (watch_env :: (nat, nat list) env) = message_insort"
  by (simp_all add: reentrant_env_def watch_env_def)

theorem delay_reentrant_publish_is_lost_witness:
  "\<exists>w' a'. delay_take 4 reentrant_env 1 one_message = Ret (42, w') \<and> delays w' 1 = Some a' \<and>
     ad_queue a' = [message_new 0 3000000 42]"
proof -
  let ?a = "\<lparr>ad_output = 0, ad_queue = [message_new 0 3000000 42], ad_sem = semaphore_new 1\<rparr> :: nat async_delay"
  have "message_sort (srt reentrant_env)"
    using insertion.message_sort_axioms by (simp add: reentrant_env_simps)
  then have "\<exists>w' a'. delay_take 4 reentrant_env 1 one_message = Ret (msg_data (message_new 0 3000000 42), w') \<and>
     delays w' 1 = Some a' \<and> ad_queue a' = [(message_new 0 3000000 42)\<lparr>msg_data :=
       moved reentrant_env (msg_data (message_new 0 3000000 42))\<rparr>] \<and> ad_sem a' = sem_notify (ad_sem ?a)"
    by (rule delay_reentrant_publish_is_lost [where d = 99 and ts = 1000000 and p = 0 and u = 7 and n = 2
          and so = "\<lparr>registered = [(2, User 7)], conns = []\<rparr>"])
       (simp_all add: one_message_def reentrant_env_simps message_new_def more_urgent_def delay_push_def split: option.split)
  then show ?thesis by (auto simp: message_new_def reentrant_env_simps)
qed

end
