(* ===== verification/CQ_Details.thy ===== *)
theory CQ_Details
  imports Prelude
begin

text \<open>
  The namespace \<open>details\<close> and the traits of \<^verbatim>\<open>concurrentqueue/concurrentqueue.h\<close>: hashing of thread
  ids, comparison of wrapping indices, rounding to powers of two and alignment, with
  \<open>size_t\<close>, \<open>index_t\<close> and pointers of 64 bits.
\<close>

unbundle bit_operations_syntax

section \<open>Definitions\<close>

definition const_numeric_max :: "'a::len word" where
  "const_numeric_max = - 1"

text \<open>\<open>_hash_32_or_64\<close>: the finalizers of MurmurHash3 for ids of up to 4 and of 8 bytes.\<close>

definition hash_32 :: "32 word \<Rightarrow> 32 word" where
  "hash_32 h0 =
     (let h = h0 XOR drop_bit 16 h0;
          h = h * 0x85ebca6b;
          h = h XOR drop_bit 13 h;
          h = h * 0xc2b2ae35
      in h XOR drop_bit 16 h)"

definition hash_64 :: "64 word \<Rightarrow> 64 word" where
  "hash_64 h0 =
     (let h = h0 XOR drop_bit 33 h0;
          h = h * 0xff51afd7ed558ccd;
          h = h XOR drop_bit 33 h;
          h = h * 0xc4ceb9fe1a85ec53
      in h XOR drop_bit 33 h)"

definition hash_thread_id :: "64 word \<Rightarrow> 64 word" where
  "hash_thread_id i = hash_64 i"

definition circular_less_than :: "64 word \<Rightarrow> 64 word \<Rightarrow> bool" where
  "circular_less_than a b \<longleftrightarrow> a - b > push_bit 63 1"

definition align_for :: "64 word \<Rightarrow> 64 word \<Rightarrow> 64 word" where
  "align_for alignment ptr = ptr + (alignment - ptr mod alignment) mod alignment"

text \<open>\<open>for (i = 1; i < sizeof(T); i <<= 1) x |= x >> (i << 3)\<close>, with \<open>sizeof(T) = 8\<close>.\<close>

function ceil_loop :: "nat \<Rightarrow> 64 word \<Rightarrow> 64 word" where
  "ceil_loop i x = (if 0 < i \<and> i < 8 then ceil_loop (push_bit 1 i) (x OR drop_bit (push_bit 3 i) x) else x)"
  by auto
termination by (relation "measure (\<lambda>(i, _). 8 - i)") (auto simp: push_bit_eq_mult)

definition ceil_to_pow_2 :: "64 word \<Rightarrow> 64 word" where
  "ceil_to_pow_2 x0 =
     (let x = x0 - 1;
          x = x OR drop_bit 1 x;
          x = x OR drop_bit 2 x;
          x = x OR drop_bit 4 x
      in ceil_loop 1 x + 1)"

text \<open>
  The traits of a queue: the constants a user may override. \<open>MAX_SUBQUEUE_SIZE\<close> of the queue is
  the one of the traits rounded up to a whole number of blocks.
\<close>

record traits =
  BLOCK_SIZE :: "64 word"
  EXPLICIT_BLOCK_EMPTY_COUNTER_THRESHOLD :: "64 word"
  EXPLICIT_INITIAL_INDEX_SIZE :: "64 word"
  IMPLICIT_INITIAL_INDEX_SIZE :: "64 word"
  INITIAL_IMPLICIT_PRODUCER_HASH_SIZE :: "64 word"
  EXPLICIT_CONSUMER_CONSUMPTION_QUOTA_BEFORE_ROTATE :: "32 word"
  TRAITS_MAX_SUBQUEUE_SIZE :: "64 word"

definition ConcurrentQueueDefaultTraits :: traits where
  "ConcurrentQueueDefaultTraits =
     \<lparr>BLOCK_SIZE = 32, EXPLICIT_BLOCK_EMPTY_COUNTER_THRESHOLD = 32, EXPLICIT_INITIAL_INDEX_SIZE = 32,
      IMPLICIT_INITIAL_INDEX_SIZE = 32, INITIAL_IMPLICIT_PRODUCER_HASH_SIZE = 32,
      EXPLICIT_CONSUMER_CONSUMPTION_QUOTA_BEFORE_ROTATE = 256, TRAITS_MAX_SUBQUEUE_SIZE = const_numeric_max\<rparr>"

definition MAX_SUBQUEUE_SIZE :: "traits \<Rightarrow> 64 word" where
  "MAX_SUBQUEUE_SIZE T =
     (if const_numeric_max - TRAITS_MAX_SUBQUEUE_SIZE T < BLOCK_SIZE T then const_numeric_max
      else (TRAITS_MAX_SUBQUEUE_SIZE T + (BLOCK_SIZE T - 1)) div BLOCK_SIZE T * BLOCK_SIZE T)"

text \<open>The static assertions of the class.\<close>

definition pow2_test :: "64 word \<Rightarrow> bool" where
  "pow2_test x \<longleftrightarrow> x AND (x - 1) = 0"

definition static_asserts :: "traits \<Rightarrow> bool" where
  "static_asserts T \<longleftrightarrow>
     1 < BLOCK_SIZE T \<and> pow2_test (BLOCK_SIZE T) \<and>
     1 < EXPLICIT_BLOCK_EMPTY_COUNTER_THRESHOLD T \<and> pow2_test (EXPLICIT_BLOCK_EMPTY_COUNTER_THRESHOLD T) \<and>
     1 < EXPLICIT_INITIAL_INDEX_SIZE T \<and> pow2_test (EXPLICIT_INITIAL_INDEX_SIZE T) \<and>
     1 < IMPLICIT_INITIAL_INDEX_SIZE T \<and> pow2_test (IMPLICIT_INITIAL_INDEX_SIZE T) \<and>
     (INITIAL_IMPLICIT_PRODUCER_HASH_SIZE T = 0 \<or> pow2_test (INITIAL_IMPLICIT_PRODUCER_HASH_SIZE T))"

section \<open>Powers of two\<close>

lemma top_bit:
  assumes "(x :: 64 word) \<noteq> 0"
  obtains n where "n < 64" "bit x n" "2 ^ n \<le> unat x" "unat x < 2 ^ Suc n" "\<And>i. bit x i \<Longrightarrow> i \<le> n"
proof -
  have fin: "finite {i. bit x i}" by (rule finite_subset [of _ "{..<64}"]) (auto dest: bit_imp_le_length)
  moreover have "{i. bit x i} \<noteq> {}" using assms by (auto simp: bit_eq_iff)
  ultimately have n: "bit x (Max {i. bit x i})" "\<And>i. bit x i \<Longrightarrow> i \<le> Max {i. bit x i}"
    using Max_in Max_ge by blast+
  let ?n = "Max {i. bit x i}"
  have "take_bit (Suc ?n) x = x"
    by (rule bit_word_eqI) (use n(2) in \<open>auto simp: bit_take_bit_iff less_Suc_eq_le\<close>)
  then have "take_bit (Suc ?n) (unat x) = unat x" by (metis unsigned_take_bit_eq)
  then have lt: "unat x < 2 ^ Suc ?n" by (simp add: take_bit_nat_eq_self_iff)
  have "bit (unat x) ?n" using n(1) by (simp add: bit_unsigned_iff)
  then have "2 ^ ?n \<le> unat x" by (metis bit_iff_odd div_less even_zero linorder_not_le)
  then show thesis using n lt that [of ?n] by (auto dest: bit_imp_le_length)
qed

lemma bit_if_in_range: "2 ^ n \<le> m \<Longrightarrow> m < 2 ^ Suc n \<Longrightarrow> bit (m :: nat) n"
proof -
  assume a: "2 ^ n \<le> m" "m < 2 ^ Suc n"
  then have "m div 2 ^ n = 1" by (intro div_nat_eqI) auto
  then show ?thesis by (simp add: bit_iff_odd)
qed

lemma pow2_test_iff: "pow2_test x \<longleftrightarrow> x = 0 \<or> (\<exists>k < 64. x = 2 ^ k)"
proof
  assume t: "pow2_test x"
  show "x = 0 \<or> (\<exists>k < 64. x = 2 ^ k)"
  proof (cases "x = 0")
    case False
    from top_bit [OF False] obtain n where n: "n < 64" "bit x n" "2 ^ n \<le> unat x" "unat x < 2 ^ Suc n" by blast
    have "unat x = 2 ^ n"
    proof (rule ccontr)
      assume "unat x \<noteq> 2 ^ n"
      then have "2 ^ n \<le> unat (x - 1)" "unat (x - 1) < 2 ^ Suc n"
        using n False by (auto simp: unat_minus_1)
      then have "bit (x - 1) n" using bit_if_in_range n(1) by (metis bit_unsigned_iff)
      then have "bit (x AND (x - 1)) n" using n(2) by (simp add: bit_and_iff)
      with t show False by (simp add: pow2_test_def)
    qed
    then have "x = of_nat (2 ^ n)" by (rule word_eq_of_natI)
    then have "x = 2 ^ n" by simp
    with n(1) show ?thesis by blast
  qed simp
next
  assume "x = 0 \<or> (\<exists>k < 64. x = 2 ^ k)"
  then show "pow2_test x"
  proof
    assume "\<exists>k < 64. x = 2 ^ k"
    then obtain k where "x = 2 ^ k" by blast
    then have "x AND (x - 1) = take_bit k (2 ^ k)" by (simp add: take_bit_eq_mask mask_eq_decr_exp)
    also have "\<dots> = 0" by (rule bit_word_eqI) (auto simp: bit_take_bit_iff bit_exp_iff)
    finally show ?thesis by (simp add: pow2_test_def)
  qed (simp add: pow2_test_def)
qed

section \<open>Rounding up to a power of two\<close>

text \<open>\<open>smeared k x y\<close>: every bit of \<open>y\<close> is the disjunction of \<open>k\<close> bits of \<open>x\<close> from there upwards.\<close>

definition smeared :: "nat \<Rightarrow> 64 word \<Rightarrow> 64 word \<Rightarrow> bool" where
  "smeared k x y \<longleftrightarrow> (\<forall>i. bit y i \<longleftrightarrow> (\<exists>j < k. bit x (i + j)))"

lemma smeared_1: "smeared 1 x x"
  by (simp add: smeared_def)

lemma smeared_double:
  assumes "smeared k x y" and "m = 2 * k"
  shows "smeared m x (y OR drop_bit k y)"
  unfolding smeared_def
proof
  fix i
  have "(\<exists>j < k. bit x (k + i + j)) \<longleftrightarrow> (\<exists>j < m. k \<le> j \<and> bit x (i + j))"
  proof
    assume "\<exists>j < k. bit x (k + i + j)"
    then obtain j where "j < k" "bit x (i + (k + j))" by (auto simp: algebra_simps)
    then show "\<exists>j < m. k \<le> j \<and> bit x (i + j)" using assms(2) by (intro exI [of _ "k + j"]) simp
  next
    assume "\<exists>j < m. k \<le> j \<and> bit x (i + j)"
    then obtain j where "j < m" "k \<le> j" "bit x (i + j)" by blast
    then show "\<exists>j < k. bit x (k + i + j)" using assms(2) by (intro exI [of _ "j - k"]) (simp add: algebra_simps)
  qed
  moreover have "(\<exists>j < k. bit x (i + j)) \<longleftrightarrow> (\<exists>j < m. \<not> k \<le> j \<and> bit x (i + j))"
    using assms(2) by (metis linorder_not_le mult_2 trans_less_add1)
  ultimately show "bit (y OR drop_bit k y) i \<longleftrightarrow> (\<exists>j < m. bit x (i + j))"
    using assms(1) unfolding smeared_def by (auto simp: bit_or_iff bit_drop_bit_eq)
qed

lemma smeared_64:
  assumes "x \<noteq> 0" and "smeared 64 x y"
  obtains n where "n < 64" "2 ^ n \<le> unat x" "unat x < 2 ^ Suc n" "y = mask (Suc n)"
proof -
  obtain n where n: "n < 64" "bit x n" "2 ^ n \<le> unat x" "unat x < 2 ^ Suc n" "\<And>i. bit x i \<Longrightarrow> i \<le> n"
    using top_bit [OF assms(1)] by blast
  have "bit y i \<longleftrightarrow> i \<le> n" for i
  proof
    assume "bit y i"
    then show "i \<le> n" using assms(2) n(5) unfolding smeared_def by (metis add_leD1)
  next
    assume "i \<le> n"
    then show "bit y i" using n(1,2) assms(2) unfolding smeared_def
      by (metis le_add_diff_inverse less_imp_diff_less)
  qed
  then have "y = mask (Suc n)"
    using n(1) by (intro bit_word_eqI) (auto simp: bit_mask_iff less_Suc_eq_le)
  with n that show thesis by blast
qed

lemma smeared_ceil:
  "\<exists>y. smeared 64 (x - 1) y \<and> ceil_to_pow_2 x = y + 1"
proof -
  define y1 where "y1 = (x - 1) OR drop_bit 1 (x - 1)"
  define y2 where "y2 = y1 OR drop_bit 2 y1"
  define y4 where "y4 = y2 OR drop_bit 4 y2"
  define y8 where "y8 = y4 OR drop_bit 8 y4"
  define y16 where "y16 = y8 OR drop_bit 16 y8"
  have "smeared 2 (x - 1) y1" unfolding y1_def by (rule smeared_double [OF smeared_1]) simp
  then have "smeared 4 (x - 1) y2" unfolding y2_def by (rule smeared_double) simp
  then have "smeared 8 (x - 1) y4" unfolding y4_def by (rule smeared_double) simp
  then have "smeared 16 (x - 1) y8" unfolding y8_def by (rule smeared_double) simp
  then have "smeared 32 (x - 1) y16" unfolding y16_def by (rule smeared_double) simp
  then have "smeared 64 (x - 1) (y16 OR drop_bit 32 y16)" by (rule smeared_double) simp
  moreover have "ceil_to_pow_2 x = (y16 OR drop_bit 32 y16) + 1"
    by (simp add: ceil_to_pow_2_def Let_def y16_def y8_def y4_def y2_def y1_def push_bit_eq_mult)
  ultimately show ?thesis by blast
qed

lemma ceil_to_pow_2_value:
  assumes "x \<noteq> 0"
  obtains k where "ceil_to_pow_2 x = 2 ^ k" "k \<le> 64" "unat x \<le> 2 ^ k" "\<And>j. unat x \<le> 2 ^ j \<Longrightarrow> k \<le> j"
proof -
  obtain y where y: "smeared 64 (x - 1) y" "ceil_to_pow_2 x = y + 1" using smeared_ceil by blast
  show thesis
  proof (cases "x - 1 = 0")
    case True
    then have "y = 0" using y(1) by (intro bit_word_eqI) (auto simp: smeared_def)
    with True y(2) show thesis using that [of 0] by simp
  next
    case False
    from smeared_64 [OF False y(1)] obtain n where
      n: "n < 64" "2 ^ n \<le> unat (x - 1)" "unat (x - 1) < 2 ^ Suc n" "y = mask (Suc n)" by blast
    have "ceil_to_pow_2 x = 2 ^ Suc n"
      using y(2) n(4) by (simp add: mask_eq_decr_exp)
    moreover have "unat x \<le> 2 ^ Suc n" "2 ^ n < unat x"
      using n unat_minus_1 [OF assms] assms by (auto simp: unat_gt_0)
    moreover have "Suc n \<le> j" if "unat x \<le> 2 ^ j" for j
      using that calculation(3) by (metis Suc_leI leD not_le order.trans power_increasing_iff one_less_numeral_iff semiring_norm(76))
    ultimately show thesis using that [of "Suc n"] n(1) by simp
  qed
qed

section \<open>Circular comparison\<close>

lemma circular_less_than_nat:
  assumes "n < m + 2 ^ 63" and "m \<le> n + 2 ^ 63"
  shows "circular_less_than (of_nat m) (of_nat n) \<longleftrightarrow> m < n"
proof (cases "m < n")
  case True
  have "of_nat m - of_nat n = (of_nat (2 ^ 64 - (n - m)) :: 64 word)"
    using True assms(1) by (simp add: of_nat_diff)
  moreover have "unat (of_nat (2 ^ 64 - (n - m)) :: 64 word) = 2 ^ 64 - (n - m)"
    using True by (intro unat_of_nat_64) simp
  ultimately have "unat (of_nat m - of_nat n :: 64 word) = 2 ^ 64 - (n - m)" by metis
  with True assms show ?thesis by (simp add: circular_less_than_def word_less_nat_alt push_bit_eq_mult)
next
  case False
  then have "of_nat m - of_nat n = (of_nat (m - n) :: 64 word)" by (simp add: of_nat_diff)
  moreover have "m - n \<le> 2 ^ 63" using assms by simp
  then have "unat (of_nat (m - n) :: 64 word) = m - n" by (intro unat_of_nat_64) simp
  ultimately show ?thesis using False assms
    by (simp add: circular_less_than_def word_less_nat_alt push_bit_eq_mult)
qed

lemma circular_less_than_ahead:
  assumes "m \<le> n" and "n - m < 2 ^ 64"
  shows "circular_less_than (of_nat m) (of_nat n) \<longleftrightarrow> m < n \<and> n - m < 2 ^ 63"
proof (cases "m = n")
  case False
  have "of_nat m - of_nat n = (of_nat (2 ^ 64 - (n - m)) :: 64 word)"
    using assms by (simp add: of_nat_diff)
  moreover have "unat (of_nat (2 ^ 64 - (n - m)) :: 64 word) = 2 ^ 64 - (n - m)"
    using False assms by (intro unat_of_nat_64) simp
  ultimately have "unat (of_nat m - of_nat n :: 64 word) = 2 ^ 64 - (n - m)" by metis
  with False assms show ?thesis by (simp add: circular_less_than_def word_less_nat_alt push_bit_eq_mult) linarith
qed (simp add: circular_less_than_def)

section \<open>Masks and blocks\<close>

text \<open>
  Traits that satisfy the static assertions and whose first indices span less than the whole
  range of indices, as the index arithmetic needs.
\<close>

abbreviation bsz :: "traits \<Rightarrow> nat" where
  "bsz T \<equiv> unat (BLOCK_SIZE T)"

definition traits_ok :: "traits \<Rightarrow> bool" where
  "traits_ok T \<longleftrightarrow> static_asserts T \<and> unat (IMPLICIT_INITIAL_INDEX_SIZE T) * bsz T < 2 ^ 64 \<and>
     unat (EXPLICIT_INITIAL_INDEX_SIZE T) * bsz T < 2 ^ 64"

lemma unat_pow2: "k < 64 \<Longrightarrow> unat (2 ^ k :: 64 word) = 2 ^ k"
  using unat_of_nat_64 [of "2 ^ k"] power_strict_increasing [of k 64 "2 :: nat"] by simp

lemma pow2_test_unat:
  assumes "pow2_test x" and "1 < x"
  obtains k where "unat x = 2 ^ k" "0 < k" "k < 64"
proof -
  obtain k where k: "k < 64" "x = 2 ^ k" using assms by (auto simp: pow2_test_iff)
  moreover have "0 < k" using assms(2) k by (cases k) auto
  ultimately show thesis using that [of k] unat_pow2 by blast
qed

lemma bsz_pow2:
  assumes "traits_ok T"
  obtains k where "bsz T = 2 ^ k" "0 < k" "k < 64" "BLOCK_SIZE T = 2 ^ k"
proof -
  obtain k where k: "bsz T = 2 ^ k" "0 < k" "k < 64"
    using pow2_test_unat assms by (metis traits_ok_def static_asserts_def)
  then have "BLOCK_SIZE T = of_nat (2 ^ k)" by (metis word_eq_of_natI)
  with k that show thesis by simp
qed

lemma bsz_gt_1 [simp]: "traits_ok T \<Longrightarrow> 1 < bsz T" "traits_ok T \<Longrightarrow> 0 < bsz T"
  by (auto simp: traits_ok_def static_asserts_def word_less_nat_alt)

lemma bsz_small: "traits_ok T \<Longrightarrow> bsz T < 2 ^ 63"
proof -
  assume T: "traits_ok T"
  then have "1 < IMPLICIT_INITIAL_INDEX_SIZE T" by (simp add: traits_ok_def static_asserts_def)
  then have "1 < unat (IMPLICIT_INITIAL_INDEX_SIZE T)" by (simp add: word_less_nat_alt)
  then have "2 \<le> unat (IMPLICIT_INITIAL_INDEX_SIZE T)" by simp
  then have "2 * bsz T \<le> unat (IMPLICIT_INITIAL_INDEX_SIZE T) * bsz T" by (rule mult_le_mono1)
  also have "\<dots> < 2 ^ 64" using T unfolding traits_ok_def by blast
  finally show ?thesis by simp
qed

lemma unat_and_mask: "k \<le> 64 \<Longrightarrow> unat ((of_nat n :: 64 word) AND (2 ^ k - 1)) = n mod 2 ^ k"
proof -
  assume k: "k \<le> 64"
  have "(of_nat n :: 64 word) AND (2 ^ k - 1) = take_bit k (of_nat n)"
    by (simp add: take_bit_eq_mask mask_eq_decr_exp)
  also have "unat \<dots> = take_bit k (take_bit 64 n)" by (simp add: unsigned_take_bit_eq unsigned_of_nat)
  also have "\<dots> = take_bit k n" using k by (simp only: take_bit_take_bit min_absorb1)
  finally show ?thesis by (simp only: take_bit_eq_mod)
qed

lemma and_mask_nat: "k \<le> 64 \<Longrightarrow> (of_nat n :: 64 word) AND (2 ^ k - 1) = of_nat (n mod 2 ^ k)"
  by (rule word_eq_of_natI) (rule unat_and_mask)

lemma and_block_mask: "traits_ok T \<Longrightarrow> (of_nat n :: 64 word) AND (BLOCK_SIZE T - 1) = of_nat (n mod bsz T)"
  by (erule bsz_pow2) (simp add: and_mask_nat)

lemma unat_and_block_mask: "traits_ok T \<Longrightarrow> unat ((of_nat n :: 64 word) AND (BLOCK_SIZE T - 1)) = n mod bsz T"
  by (erule bsz_pow2) (simp add: unat_and_mask)

lemma and_not_block_mask:
  assumes "traits_ok T"
  shows "(of_nat n :: 64 word) AND NOT (BLOCK_SIZE T - 1) = of_nat (n div bsz T * bsz T)"
proof -
  let ?x = "of_nat n :: 64 word" and ?m = "BLOCK_SIZE T - 1"
  have "(?x AND NOT ?m) + (?x AND ?m) = (?x AND NOT ?m) OR (?x AND ?m)"
    by (rule disjunctive_add) (auto simp: bit_and_iff bit_not_iff)
  also have "\<dots> = ?x" by (rule bit_word_eqI) (auto simp: bit_and_iff bit_or_iff bit_not_iff)
  finally have "?x AND NOT ?m = ?x - (?x AND ?m)" by (simp add: algebra_simps)
  also have "\<dots> = of_nat (n - n mod bsz T)" by (simp add: and_block_mask [OF assms] of_nat_diff)
  finally show ?thesis by (simp add: minus_mod_eq_div_mult)
qed

lemma aligned_iff: "traits_ok T \<Longrightarrow> (of_nat n :: 64 word) AND (BLOCK_SIZE T - 1) = 0 \<longleftrightarrow> n mod bsz T = 0"
  by (simp only: unat_eq_zero [symmetric] unat_and_block_mask)

section \<open>Hashing\<close>

lemma xor_shift_involution_64: "(h XOR drop_bit 33 h) XOR drop_bit 33 (h XOR drop_bit 33 h) = (h :: 64 word)"
  by (rule bit_word_eqI) (auto simp: bit_xor_iff bit_drop_bit_eq dest: bit_imp_le_length)

lemma xor_shift_involution_32: "(h XOR drop_bit 16 h) XOR drop_bit 16 (h XOR drop_bit 16 h) = (h :: 32 word)"
  by (rule bit_word_eqI) (auto simp: bit_xor_iff bit_drop_bit_eq dest: bit_imp_le_length)

lemma xor_shift_13_inj: "h XOR drop_bit 13 h = g XOR drop_bit 13 g \<Longrightarrow> h = (g :: 32 word)"
proof -
  have inv: "x = (x XOR drop_bit 13 x) XOR drop_bit 13 (x XOR drop_bit 13 x) XOR drop_bit 26 (x XOR drop_bit 13 x)"
    for x :: "32 word"
    by (rule bit_word_eqI) (auto simp: bit_xor_iff bit_drop_bit_eq dest: bit_imp_le_length)
  assume "h XOR drop_bit 13 h = g XOR drop_bit 13 g"
  with inv [of h] inv [of g] show "h = g" by metis
qed

lemma mult_inverse_inj:
  assumes "c * d = (1 :: 'a::len word)" and "x * c = y * c"
  shows "x = y"
  using assms by (metis mult.assoc mult.right_neutral)

lemma hash_64_inj: "hash_64 a = hash_64 b \<Longrightarrow> a = b"
proof -
  have s: "x = y" if "x XOR drop_bit 33 x = y XOR drop_bit 33 y" for x y :: "64 word"
    using that xor_shift_involution_64 by metis
  have c: "x = y" if "x * 0xff51afd7ed558ccd = y * 0xff51afd7ed558ccd" for x y :: "64 word"
    by (rule mult_inverse_inj [where d = "0x4f74430c22a54005", OF _ that]) simp
  have d: "x = y" if "x * 0xc4ceb9fe1a85ec53 = y * 0xc4ceb9fe1a85ec53" for x y :: "64 word"
    by (rule mult_inverse_inj [where d = "0x9cb4b2f8129337db", OF _ that]) simp
  assume h: "hash_64 a = hash_64 b"
  show "a = b" by (rule s [OF c [OF s [OF d [OF s]]]]) (use h in \<open>simp only: hash_64_def Let_def\<close>)
qed

lemma hash_32_inj: "hash_32 a = hash_32 b \<Longrightarrow> a = b"
proof -
  have s: "x = y" if "x XOR drop_bit 16 x = y XOR drop_bit 16 y" for x y :: "32 word"
    using that xor_shift_involution_32 by metis
  have c: "x = y" if "x * 0x85ebca6b = y * 0x85ebca6b" for x y :: "32 word"
    by (rule mult_inverse_inj [where d = "0xa5cb9243", OF _ that]) simp
  have d: "x = y" if "x * 0xc2b2ae35 = y * 0xc2b2ae35" for x y :: "32 word"
    by (rule mult_inverse_inj [where d = "0x7ed1b41d", OF _ that]) simp
  assume h: "hash_32 a = hash_32 b"
  show "a = b" by (rule s [OF c [OF xor_shift_13_inj [OF d [OF s]]]]) (use h in \<open>simp only: hash_32_def Let_def\<close>)
qed

section \<open>Properties\<close>

text \<open>
  The hash of thread ids loses nothing: both finalizers are bijections, so different thread
  ids have different hashes and every hash value occurs.
\<close>

lemma hash_bijective: "bij hash_64 \<and> bij hash_32 \<and> inj hash_thread_id"
proof -
  have i: "inj hash_64" "inj hash_32" by (auto intro!: injI dest: hash_64_inj hash_32_inj)
  then have "bij hash_64" "bij hash_32"
    by (auto simp: bij_def intro!: finite_UNIV_inj_surj)
  with i show ?thesis by (auto simp: hash_thread_id_def inj_def)
qed

text \<open>
  C36. \<open>ceil_to_pow_2\<close> returns the least power of two that is at least its argument, for arguments
  from 1 to \<open>2^63\<close>; for 0 and for larger arguments, where no such 64-bit power exists, it
  returns 0.
\<close>

theorem ceil_to_pow_2_least:
  "(0 < unat x \<and> unat x \<le> 2 ^ 63 \<longrightarrow>
      (\<exists>k \<le> 63. unat (ceil_to_pow_2 x) = 2 ^ k \<and> unat x \<le> 2 ^ k \<and> (\<forall>j. unat x \<le> 2 ^ j \<longrightarrow> k \<le> j))) \<and>
   (x = 0 \<or> 2 ^ 63 < unat x \<longrightarrow> ceil_to_pow_2 x = 0)"
proof -
  have zero: "ceil_to_pow_2 0 = 0"
    by (simp add: ceil_to_pow_2_def Let_def push_bit_eq_mult)
  have "(\<exists>k \<le> 63. unat (ceil_to_pow_2 x) = 2 ^ k \<and> unat x \<le> 2 ^ k \<and> (\<forall>j. unat x \<le> 2 ^ j \<longrightarrow> k \<le> j))"
    if nz: "x \<noteq> 0" and small: "unat x \<le> 2 ^ 63"
  proof -
    obtain k where k: "ceil_to_pow_2 x = 2 ^ k" "unat x \<le> 2 ^ k" "\<And>j. unat x \<le> 2 ^ j \<Longrightarrow> k \<le> j"
      using ceil_to_pow_2_value [OF nz] by metis
    then have "k \<le> 63" using small by blast
    moreover have "unat (2 ^ k :: 64 word) = 2 ^ k"
      using unat_of_nat_64 [of "2 ^ k"] \<open>k \<le> 63\<close> power_strict_increasing [of k 64 "2 :: nat"] by simp
    ultimately show ?thesis using k by metis
  qed
  moreover have "ceil_to_pow_2 x = 0" if big: "2 ^ 63 < unat x"
  proof -
    have "x \<noteq> 0" using big by auto
    then obtain k where k: "ceil_to_pow_2 x = 2 ^ k" "k \<le> 64" "unat x \<le> 2 ^ k"
      using ceil_to_pow_2_value by metis
    have "\<not> k \<le> 63"
    proof
      assume "k \<le> 63"
      then have "(2 :: nat) ^ k \<le> 2 ^ 63" by (intro power_increasing) auto
      with big k(3) show False by linarith
    qed
    with k(2) have "k = 64" by simp
    with k(1) show ?thesis by simp
  qed
  ultimately show ?thesis using zero by (metis unat_0 less_irrefl)
qed

theorem ceil_to_pow_2_least_witness: "\<exists>k \<le> 63. unat (ceil_to_pow_2 33) = 2 ^ k \<and> 33 \<le> (2 :: nat) ^ k"
  using ceil_to_pow_2_least [of 33] by auto

text \<open>
  C35. The circular comparison of wrapping 64-bit indices agrees with the order of the unbounded
  counters they stand for, as long as the counters are less than \<open>2^63\<close> apart: wrap-around of the
  indices is invisible.
\<close>

theorem circular_less_than_is_less:
  assumes "n < m + 2 ^ 63" and "m \<le> n + 2 ^ 63"
  shows "circular_less_than (of_nat m) (of_nat n) \<longleftrightarrow> m < n"
  using assms by (rule circular_less_than_nat)

theorem circular_less_than_is_less_witness:
  "circular_less_than (of_nat (2 ^ 64 - 3)) (of_nat (2 ^ 64 + 5))"
  using circular_less_than_is_less [of "2 ^ 64 + 5" "2 ^ 64 - 3"] by simp

text \<open>
  \<open>align_for\<close> moves a pointer up to the next multiple of a power-of-two alignment: the result
  is aligned, not before the pointer, and less than one alignment away, when it does not run over
  the end of the address space.
\<close>

lemma align_for_next_multiple:
  assumes "0 < unat a" and "unat p + unat a < 2 ^ 64"
  shows "unat a dvd unat (align_for a p) \<and> unat p \<le> unat (align_for a p) \<and>
    unat (align_for a p) < unat p + unat a"
proof -
  let ?p = "unat p" and ?a = "unat a"
  have mod_lt: "?p mod ?a < ?a" using assms(1) by simp
  have "unat (a - p mod a) = ?a - ?p mod ?a"
    using mod_lt by (subst unat_sub) (simp_all add: unat_mod word_le_nat_alt)
  then have off: "unat ((a - p mod a) mod a) = (?a - ?p mod ?a) mod ?a" by (simp add: unat_mod)
  have "unat (align_for a p) = ?p + (?a - ?p mod ?a) mod ?a"
  proof -
    have "?p + (?a - ?p mod ?a) mod ?a < 2 ^ 64"
      using assms mod_less_divisor [OF assms(1), of "?a - ?p mod ?a"] by linarith
    then show ?thesis unfolding align_for_def unat_word_ariths(1) off by simp
  qed
  moreover have "(?p + (?a - ?p mod ?a) mod ?a) mod ?a = (?p mod ?a + (?a - ?p mod ?a)) mod ?a"
    by (simp only: mod_add_left_eq mod_add_right_eq)
  then have "(?p + (?a - ?p mod ?a) mod ?a) mod ?a = 0"
    using mod_lt by (simp only: le_add_diff_inverse less_imp_le mod_self)
  then have "?a dvd ?p + (?a - ?p mod ?a) mod ?a" by (rule dvd_eq_mod_eq_0 [THEN iffD2])
  ultimately show ?thesis using mod_less_divisor [OF assms(1)] by (metis add_left_mono le_add1 nat_add_left_cancel_less)
qed

end
