(* ===== verification/CQ_Mem.thy ===== *)
theory CQ_Mem
  imports CQ_Details
begin

text \<open>
  The memory of the concurrent queue (\<^verbatim>\<open>concurrentqueue/concurrentqueue.h\<close>): blocks of element slots,
  the free list and the initial pool, as one thread runs their functions. Blocks live in a heap
  under identities; a null pointer is \<open>None\<close>. Which calls of \<open>Traits::malloc\<close> succeed is given by a
  sequence of answers, and no more than \<open>heap_limit\<close> blocks fit.
\<close>

section \<open>Blocks\<close>

text \<open>A slot of \<open>elements\<close> is raw storage (\<open>None\<close>) or holds a constructed element.\<close>

record 'd block =
  elements :: "nat \<Rightarrow> 'd option"
  blk_next :: "nat option"
  elementsCompletelyDequeued :: "64 word"
  emptyFlags :: "nat \<Rightarrow> bool"
  freeListRefs :: "32 word"
  freeListNext :: "nat option"
  shouldBeOnFreeList :: bool
  dynamicallyAllocated :: bool

datatype InnerQueueContext = implicit_context | explicit_context

definition block_new :: "'d block" where
  "block_new = \<lparr>elements = (\<lambda>_. None), blk_next = None, elementsCompletelyDequeued = 0,
     emptyFlags = (\<lambda>_. False), freeListRefs = 0, freeListNext = None, shouldBeOnFreeList = False,
     dynamicallyAllocated = True\<rparr>"

text \<open>The flags are used by explicit producers when the block is small enough; otherwise the counter.\<close>

definition by_flags :: "traits \<Rightarrow> InnerQueueContext \<Rightarrow> bool" where
  "by_flags T ctx \<longleftrightarrow> ctx = explicit_context \<and> BLOCK_SIZE T \<le> EXPLICIT_BLOCK_EMPTY_COUNTER_THRESHOLD T"

definition slot :: "traits \<Rightarrow> 64 word \<Rightarrow> nat" where
  "slot T idx = unat (idx AND (BLOCK_SIZE T - 1))"

definition is_empty :: "traits \<Rightarrow> InnerQueueContext \<Rightarrow> 'd block \<Rightarrow> bool" where
  "is_empty T ctx b =
     (if by_flags T ctx then list_all (emptyFlags b) [0..<unat (BLOCK_SIZE T)]
      else elementsCompletelyDequeued b = BLOCK_SIZE T)"

definition set_empty :: "traits \<Rightarrow> InnerQueueContext \<Rightarrow> 64 word \<Rightarrow> 'd block \<Rightarrow> bool \<times> 'd block" where
  "set_empty T ctx i b =
     (if by_flags T ctx then
        (False, b\<lparr>emptyFlags := (emptyFlags b)(unat (BLOCK_SIZE T) - 1 - slot T i := True)\<rparr>)
      else
        let prevVal = elementsCompletelyDequeued b
        in (prevVal = BLOCK_SIZE T - 1, b\<lparr>elementsCompletelyDequeued := prevVal + 1\<rparr>))"

definition set_many_empty ::
  "traits \<Rightarrow> InnerQueueContext \<Rightarrow> 64 word \<Rightarrow> 64 word \<Rightarrow> 'd block \<Rightarrow> bool \<times> 'd block" where
  "set_many_empty T ctx i cnt b =
     (if by_flags T ctx then
        let first = unat (BLOCK_SIZE T - 1 - (i AND (BLOCK_SIZE T - 1)) - cnt + 1)
        in (False, b\<lparr>emptyFlags := foldl (\<lambda>fl j. fl(first + j := True)) (emptyFlags b) [0..<unat cnt]\<rparr>)
      else
        let prevVal = elementsCompletelyDequeued b
        in (prevVal + cnt = BLOCK_SIZE T, b\<lparr>elementsCompletelyDequeued := prevVal + cnt\<rparr>))"

definition set_all_empty :: "traits \<Rightarrow> InnerQueueContext \<Rightarrow> 'd block \<Rightarrow> 'd block" where
  "set_all_empty T ctx b =
     (if by_flags T ctx then b\<lparr>emptyFlags := foldl (\<lambda>fl j. fl(j := True)) (emptyFlags b) [0..<unat (BLOCK_SIZE T)]\<rparr>
      else b\<lparr>elementsCompletelyDequeued := BLOCK_SIZE T\<rparr>)"

definition reset_empty :: "traits \<Rightarrow> InnerQueueContext \<Rightarrow> 'd block \<Rightarrow> 'd block" where
  "reset_empty T ctx b =
     (if by_flags T ctx then b\<lparr>emptyFlags := foldl (\<lambda>fl j. fl(j := False)) (emptyFlags b) [0..<unat (BLOCK_SIZE T)]\<rparr>
      else b\<lparr>elementsCompletelyDequeued := 0\<rparr>)"

section \<open>The heap of blocks\<close>

record 'd mem =
  blocks :: "nat \<Rightarrow> 'd block option"
  nblocks :: nat \<comment> \<open>the next unused identity\<close>
  freeListHead :: "nat option"
  initialBlockPool :: "nat list"
  initialBlockPoolIndex :: "64 word"
  initialBlockPoolSize :: "64 word"
  malloc_ok :: "nat \<Rightarrow> bool" \<comment> \<open>does the \<open>n\<close>-th call of \<open>malloc\<close> succeed\<close>
  mallocs :: nat
  heap_limit :: nat \<comment> \<open>how many blocks fit into the memory of the machine\<close>

definition malloc :: "'d mem \<Rightarrow> bool \<times> 'd mem" where
  "malloc m = (malloc_ok m (mallocs m), m\<lparr>mallocs := Suc (mallocs m)\<rparr>)"

text \<open>Access through a block pointer; a pointer to no block is undefined behaviour.\<close>

definition with_block :: "nat \<Rightarrow> 'd mem \<Rightarrow> ('d block \<Rightarrow> 'r outcome) \<Rightarrow> 'r outcome" where
  "with_block p m k = (case blocks m p of None \<Rightarrow> Undefined | Some b \<Rightarrow> k b)"

definition put_block :: "nat \<Rightarrow> 'd block \<Rightarrow> 'd mem \<Rightarrow> 'd mem" where
  "put_block p b m = m\<lparr>blocks := (blocks m)(p \<mapsto> b)\<rparr>"

definition create_block :: "'d mem \<Rightarrow> nat option \<times> 'd mem" where
  "create_block m =
     (let (ok, m1) = malloc m in
      if ok \<and> nblocks m1 < heap_limit m1 then (Some (nblocks m1), m1\<lparr>blocks := (blocks m1)(nblocks m1 \<mapsto> block_new), nblocks := Suc (nblocks m1)\<rparr>)
      else (None, m1))"

section \<open>The free list\<close>

definition REFS_MASK :: "32 word" where "REFS_MASK = 0x7FFFFFFF"

definition SHOULD_BE_ON_FREELIST :: "32 word" where "SHOULD_BE_ON_FREELIST = 0x80000000"

text \<open>
  Without interference the exchange of \<open>freeListHead\<close> succeeds in the first round, so the loop of
  \<open>add_knowing_refcount_is_zero\<close> is left at once.
\<close>

definition add_knowing_refcount_is_zero :: "nat \<Rightarrow> 'd mem \<Rightarrow> 'd mem outcome" where
  "add_knowing_refcount_is_zero node m =
     with_block node m (\<lambda>b.
       Ret ((put_block node (b\<lparr>freeListNext := freeListHead m, freeListRefs := 1\<rparr>) m)\<lparr>freeListHead := Some node\<rparr>))"

definition freelist_add :: "nat \<Rightarrow> 'd mem \<Rightarrow> 'd mem outcome" where
  "freelist_add node m =
     with_block node m (\<lambda>b.
       let m1 = put_block node (b\<lparr>freeListRefs := freeListRefs b + SHOULD_BE_ON_FREELIST\<rparr>) m
       in if freeListRefs b = 0 then add_knowing_refcount_is_zero node m1 else Ret m1)"

text \<open>
  \<open>try_get\<close>: a head whose count is zero makes the loop read the head again; without another
  thread that never changes, which is the value \<open>No_Fuel\<close>.
\<close>

definition freelist_try_get :: "'d mem \<Rightarrow> (nat option \<times> 'd mem) outcome" where
  "freelist_try_get m =
     (case freeListHead m of
        None \<Rightarrow> Ret (None, m)
      | Some head \<Rightarrow>
          with_block head m (\<lambda>b.
            let refs = freeListRefs b in
            if refs AND REFS_MASK = 0 then No_Fuel
            else
              let m1 = put_block head (b\<lparr>freeListRefs := refs + 1\<rparr>) m;
                  m2 = m1\<lparr>freeListHead := freeListNext b\<rparr>;
                  m3 = put_block head (b\<lparr>freeListRefs := refs + 1 - 2\<rparr>) m2
              in Ret (Some head, m3)))"

section \<open>Block pool manipulation\<close>

text \<open>\<open>create_array<Block>(n)\<close> constructs \<open>n\<close> blocks in one allocation.\<close>

definition populate_initial_block_list :: "64 word \<Rightarrow> 'd mem \<Rightarrow> 'd mem" where
  "populate_initial_block_list blockCount m =
     (if blockCount = 0 then m\<lparr>initialBlockPoolSize := 0, initialBlockPool := []\<rparr>
      else
        let (ok, m1) = malloc m in
        if ok \<and> nblocks m1 + unat blockCount \<le> heap_limit m1 then
          let ids = [nblocks m1..<nblocks m1 + unat blockCount] in
          m1\<lparr>blocks := (\<lambda>p. if p \<in> set ids then Some (block_new\<lparr>dynamicallyAllocated := False\<rparr>) else blocks m1 p),
             nblocks := nblocks m1 + unat blockCount,
             initialBlockPoolSize := blockCount, initialBlockPool := ids\<rparr>
        else m1\<lparr>initialBlockPoolSize := 0, initialBlockPool := []\<rparr>)"

definition try_get_block_from_initial_pool :: "'d mem \<Rightarrow> nat option \<times> 'd mem" where
  "try_get_block_from_initial_pool m =
     (if initialBlockPoolSize m \<le> initialBlockPoolIndex m then (None, m)
      else
        let index = initialBlockPoolIndex m;
            m1 = m\<lparr>initialBlockPoolIndex := index + 1\<rparr>
        in (if index < initialBlockPoolSize m1 then Some (initialBlockPool m1 ! unat index) else None, m1))"

definition add_block_to_free_list :: "nat \<Rightarrow> 'd mem \<Rightarrow> 'd mem outcome" where
  "add_block_to_free_list b m = freelist_add b m"

text \<open>The loop over a chain of blocks, bounded by fuel.\<close>

fun add_blocks_to_free_list :: "nat \<Rightarrow> nat option \<Rightarrow> 'd mem \<Rightarrow> 'd mem outcome" where
  "add_blocks_to_free_list 0 bo m = No_Fuel"
| "add_blocks_to_free_list (Suc f) bo m =
     (case bo of
        None \<Rightarrow> Ret m
      | Some b \<Rightarrow>
          with_block b m (\<lambda>blk.
            and_then (add_block_to_free_list b m) (add_blocks_to_free_list f (blk_next blk))))"

definition try_get_block_from_free_list :: "'d mem \<Rightarrow> (nat option \<times> 'd mem) outcome" where
  "try_get_block_from_free_list m = freelist_try_get m"

datatype AllocationMode = CanAlloc | CannotAlloc

definition requisition_block :: "AllocationMode \<Rightarrow> 'd mem \<Rightarrow> (nat option \<times> 'd mem) outcome" where
  "requisition_block canAlloc m =
     (let (p, m1) = try_get_block_from_initial_pool m in
      if p \<noteq> None then Ret (p, m1)
      else
        and_then (try_get_block_from_free_list m1) (\<lambda>(r, m2).
          if r \<noteq> None then Ret (r, m2)
          else if canAlloc = CanAlloc then Ret (create_block m2)
          else Ret (None, m2)))"

lemmas mem_defs [fes_defs] = with_block_def put_block_def malloc_def

section \<open>The invariant of the pools\<close>

text \<open>\<open>chain m p F\<close>: following \<open>freeListNext\<close> from \<open>p\<close> visits the blocks \<open>F\<close> and ends.\<close>

fun chain :: "'d mem \<Rightarrow> nat option \<Rightarrow> nat list \<Rightarrow> bool" where
  "chain m p [] \<longleftrightarrow> p = None"
| "chain m p (x # xs) \<longleftrightarrow> p = Some x \<and> (\<exists>b. blocks m x = Some b \<and> chain m (freeListNext b) xs)"

definition pool_rest :: "'d mem \<Rightarrow> nat list" where
  "pool_rest m = drop (unat (initialBlockPoolIndex m)) (initialBlockPool m)"

text \<open>
  \<open>mem_inv m own\<close>: the producers own the blocks \<open>own\<close>; every other block that is not waiting in the
  initial pool may be on the free list; blocks that nobody owns hold no element; and the count of
  references is one on the free list and zero elsewhere.
\<close>

definition blank :: "'d block \<Rightarrow> bool" where
  "blank b \<longleftrightarrow> (\<forall>s. elements b s = None)"

definition mem_inv :: "'d mem \<Rightarrow> nat set \<Rightarrow> bool" where
  "mem_inv m own \<longleftrightarrow>
     (\<forall>p. blocks m p \<noteq> None \<longleftrightarrow> p < nblocks m) \<and> nblocks m \<le> heap_limit m \<and> own \<subseteq> {..<nblocks m} \<and>
     length (initialBlockPool m) = unat (initialBlockPoolSize m) \<and> distinct (initialBlockPool m) \<and>
     set (initialBlockPool m) \<subseteq> {..<nblocks m} \<and>
     initialBlockPoolIndex m \<le> initialBlockPoolSize m \<and> set (pool_rest m) \<inter> own = {} \<and>
     (\<exists>F. chain m (freeListHead m) F \<and> distinct F \<and> set F \<inter> own = {} \<and> set F \<inter> set (pool_rest m) = {} \<and>
        (\<forall>p b. blocks m p = Some b \<longrightarrow> freeListRefs b = (if p \<in> set F then 1 else 0))) \<and>
     (\<forall>p b. blocks m p = Some b \<longrightarrow> p \<notin> own \<longrightarrow> blank b)"

lemma chain_cong:
  "(\<And>x. x \<in> set F \<Longrightarrow> map_option freeListNext (blocks m' x) = map_option freeListNext (blocks m x)) \<Longrightarrow>
   chain m' p F = chain m p F"
proof (induction F arbitrary: p)
  case (Cons x F)
  have "map_option freeListNext (blocks m' x) = map_option freeListNext (blocks m x)" using Cons.prems by simp
  then have "(\<exists>b. blocks m' x = Some b \<and> chain m' (freeListNext b) F) \<longleftrightarrow>
      (\<exists>b. blocks m x = Some b \<and> chain m' (freeListNext b) F)"
    by (cases "blocks m x"; cases "blocks m' x") auto
  with Cons show ?case by simp
qed simp

section \<open>The pools as an interface\<close>

text \<open>
  What producers rely on. \<open>inv m own\<close> says that the blocks \<open>own\<close> are in use; \<open>get\<close> hands out a blank
  block that is not in use, or none, and \<open>give\<close> takes a blank one back; neither touches the blocks in
  use, and the user may write to those.
\<close>

fun gets :: "('m \<Rightarrow> (nat option \<times> 'm) outcome) \<Rightarrow> nat \<Rightarrow> 'm \<Rightarrow> (nat list \<times> 'm) outcome" where
  "gets get 0 m = Ret ([], m)"
| "gets get (Suc n) m = and_then (get m) (\<lambda>(r, m1). case r of
     None \<Rightarrow> Ret ([], m1) | Some b \<Rightarrow> and_then (gets get n m1) (\<lambda>(bs, m2). Ret (b # bs, m2)))"

locale block_pool =
  fixes inv :: "'m \<Rightarrow> nat set \<Rightarrow> bool" and look :: "'m \<Rightarrow> nat \<Rightarrow> 'd block option"
    and get :: "AllocationMode \<Rightarrow> 'm \<Rightarrow> (nat option \<times> 'm) outcome" and give :: "nat \<Rightarrow> 'm \<Rightarrow> 'm outcome"
    and put :: "nat \<Rightarrow> 'd block \<Rightarrow> 'm \<Rightarrow> 'm" and limit :: "'m \<Rightarrow> nat"
  assumes get_returns: "inv m own \<Longrightarrow> \<exists>r m'. get mode m = Ret (r, m')"
    and get_none: "inv m own \<Longrightarrow> get mode m = Ret (None, m') \<Longrightarrow> inv m' own \<and> look m' = look m"
    and get_some: "inv m own \<Longrightarrow> get mode m = Ret (Some b, m') \<Longrightarrow> b \<notin> own \<and> inv m' (insert b own) \<and>
      (\<forall>p \<in> own. look m' p = look m p) \<and> (\<exists>blk. look m' b = Some blk \<and> blank blk \<and> freeListRefs blk = 0)"
    and give_back: "inv m own \<Longrightarrow> b \<in> own \<Longrightarrow> look m b = Some blk \<Longrightarrow> blank blk \<Longrightarrow>
      \<exists>m'. give b m = Ret m' \<and> inv m' (own - {b}) \<and> (\<forall>p \<in> own - {b}. look m' p = look m p)"
    and used: "inv m own \<Longrightarrow> b \<in> own \<Longrightarrow> \<exists>blk. look m b = Some blk \<and> freeListRefs blk = 0"
    and put_used: "inv m own \<Longrightarrow> b \<in> own \<Longrightarrow> freeListRefs blk = 0 \<Longrightarrow>
      inv (put b blk m) own \<and> look (put b blk m) = (look m)(b \<mapsto> blk)"
    and few: "inv m own \<Longrightarrow> finite own \<and> card own \<le> limit m"
    and limit_get: "get mode m = Ret (r, m') \<Longrightarrow> limit m' = limit m" and limit_put: "limit (put b blk m) = limit m"
begin

text \<open>Taking a block and giving it back unused leaves the blocks in use as they were.\<close>

lemma get_give:
  assumes "inv m own" and "get mode m = Ret (Some b, m1)"
  shows "\<exists>m2. give b m1 = Ret m2 \<and> inv m2 own \<and> (\<forall>p \<in> own. look m2 p = look m p)"
proof -
  obtain blk where g: "b \<notin> own" "inv m1 (insert b own)" "\<forall>p \<in> own. look m1 p = look m p"
      "look m1 b = Some blk" "blank blk"
    using get_some [OF assms] by blast
  from give_back [OF g(2) _ g(4,5)] obtain m2 where m2: "give b m1 = Ret m2" "inv m2 (insert b own - {b})"
      "\<forall>p \<in> insert b own - {b}. look m2 p = look m1 p" by blast
  moreover have "insert b own - {b} = own" using g(1) by simp
  ultimately show ?thesis using g(3) by simp
qed

text \<open>Blocks handed out one after the other are distinct and new.\<close>

lemma gets_distinct:
  "inv m own \<Longrightarrow> gets (get mode) n m = Ret (bs, m') \<Longrightarrow> distinct bs \<and> set bs \<inter> own = {} \<and> inv m' (set bs \<union> own)"
proof (induction n arbitrary: m own bs)
  case (Suc n)
  obtain r m1 where r: "get mode m = Ret (r, m1)" using get_returns [OF Suc.prems(1)] by blast
  show ?case
  proof (cases r)
    case None
    with Suc.prems r get_none [OF Suc.prems(1)] show ?thesis by auto
  next
    case (Some b)
    with get_some [OF Suc.prems(1)] r have b: "b \<notin> own" "inv m1 (insert b own)" by auto
    from Suc.prems(2) r Some obtain bs' where "gets (get mode) n m1 = Ret (bs', m')" "bs = b # bs'"
      by (auto simp: and_then_eq_Ret)
    with Suc.IH [OF b(2)] b(1) show ?thesis by auto
  qed
qed simp

end

section \<open>The pools of the queue provide the interface\<close>

lemma mem_inv_put:
  assumes inv: "mem_inv m own" and "p \<in> own" and "freeListRefs b = 0"
  shows "mem_inv (put_block p b m) own"
proof -
  let ?m = "put_block p b m"
  have p: "p < nblocks m" using assms(1,2) by (auto simp: mem_inv_def)
  obtain F where F: "chain m (freeListHead m) F" "distinct F" "set F \<inter> own = {}" "set F \<inter> set (pool_rest m) = {}"
    "\<forall>p b. blocks m p = Some b \<longrightarrow> freeListRefs b = (if p \<in> set F then 1 else 0)"
    using inv by (auto simp: mem_inv_def)
  have "p \<notin> set F" using F(3) assms(2) by blast
  then have "chain ?m (freeListHead m) F = chain m (freeListHead m) F"
    by (intro chain_cong) (auto simp: put_block_def)
  then have "chain ?m (freeListHead ?m) F" using F(1) by (simp add: put_block_def)
  moreover have "\<forall>q c. blocks ?m q = Some c \<longrightarrow> freeListRefs c = (if q \<in> set F then 1 else 0)"
    using F(3,5) assms(2,3) by (auto simp: put_block_def)
  moreover have "pool_rest ?m = pool_rest m" by (simp add: pool_rest_def put_block_def)
  ultimately show ?thesis using inv F p assms(2)
    unfolding mem_inv_def by (auto simp: put_block_def intro!: exI [of _ F])
qed

lemma initial_pool_some:
  assumes inv: "mem_inv m own" and get: "try_get_block_from_initial_pool m = (Some b, m')"
  shows "b \<notin> own \<and> mem_inv m' (insert b own) \<and> blocks m' = blocks m"
proof -
  let ?i = "initialBlockPoolIndex m"
  have lt: "?i < initialBlockPoolSize m" and b: "b = initialBlockPool m ! unat ?i"
    and m': "m' = m\<lparr>initialBlockPoolIndex := ?i + 1\<rparr>"
    using get by (auto simp: try_get_block_from_initial_pool_def Let_def split: if_splits)
  have len: "unat ?i < length (initialBlockPool m)"
    using inv lt by (simp add: mem_inv_def word_less_nat_alt)
  have next_i: "unat (?i + 1) = Suc (unat ?i)" "?i + 1 \<le> initialBlockPoolSize m"
    using unat_plus_1 [OF lt] lt by (simp_all add: word_le_nat_alt word_less_nat_alt)
  have rest: "pool_rest m = b # pool_rest m'"
    using Cons_nth_drop_Suc [OF len] by (simp add: pool_rest_def m' b next_i)
  have dist: "distinct (pool_rest m)" using inv by (simp add: mem_inv_def pool_rest_def)
  have "b \<notin> own" and b_lt: "b < nblocks m"
    using inv rest nth_mem [OF len] by (auto simp: mem_inv_def b)
  moreover have "mem_inv m' (insert b own)"
  proof -
    obtain F where F: "chain m (freeListHead m) F" "distinct F" "set F \<inter> own = {}" "set F \<inter> set (pool_rest m) = {}"
      "\<forall>p b. blocks m p = Some b \<longrightarrow> freeListRefs b = (if p \<in> set F then 1 else 0)"
      using inv by (auto simp: mem_inv_def)
    have "chain m' (freeListHead m') F" using chain_cong [of F m' m "freeListHead m"] F(1) by (simp add: m')
    moreover have "set F \<inter> insert b own = {}" "set F \<inter> set (pool_rest m') = {}" using F(3,4) rest by auto
    moreover have "set (pool_rest m') \<inter> insert b own = {}" using dist inv rest by (auto simp: mem_inv_def)
    ultimately show ?thesis using inv F b_lt next_i
      unfolding mem_inv_def by (auto simp: m' intro!: exI [of _ F])
  qed
  ultimately show ?thesis by (simp add: m')
qed

lemma initial_pool_none: "try_get_block_from_initial_pool m = (None, m') \<Longrightarrow> m' = m"
  by (auto simp: try_get_block_from_initial_pool_def Let_def split: if_splits)

lemma mem_invE:
  assumes "mem_inv m own"
  obtains F where "chain m (freeListHead m) F" "distinct F" "set F \<inter> own = {}" "set F \<inter> set (pool_rest m) = {}"
    "\<And>p b. blocks m p = Some b \<Longrightarrow> freeListRefs b = (if p \<in> set F then 1 else 0)"
  using assms by (auto simp: mem_inv_def)

lemma chain_exists: "chain m p F \<Longrightarrow> x \<in> set F \<Longrightarrow> blocks m x \<noteq> None"
  by (induction F arbitrary: p) auto

lemma freelist_get_some:
  assumes inv: "mem_inv m own" and head: "freeListHead m = Some b"
  shows "\<exists>m'. freelist_try_get m = Ret (Some b, m') \<and> b \<notin> own \<and> mem_inv m' (insert b own) \<and>
    (\<forall>p. p \<noteq> b \<longrightarrow> blocks m' p = blocks m p) \<and> (\<exists>blk. blocks m' b = Some blk \<and> blank blk)"
proof -
  obtain F where F: "chain m (freeListHead m) F" "distinct F" "set F \<inter> own = {}" "set F \<inter> set (pool_rest m) = {}"
    "\<And>p b. blocks m p = Some b \<Longrightarrow> freeListRefs b = (if p \<in> set F then 1 else 0)"
    using mem_invE [OF inv] by blast
  then obtain F' where F': "F = b # F'" using head by (cases F) auto
  then obtain blk where blk: "blocks m b = Some blk" "chain m (freeListNext blk) F'" using F(1) by auto
  then have refs: "freeListRefs blk = 1" using F(5) F' by simp
  let ?blk = "blk\<lparr>freeListRefs := 0\<rparr>"
  let ?m = "m\<lparr>freeListHead := freeListNext blk, blocks := (blocks m)(b \<mapsto> ?blk)\<rparr>"
  have run: "freelist_try_get m = Ret (Some b, ?m)"
    using head blk refs by (simp add: freelist_try_get_def mem_defs REFS_MASK_def Let_def)
  have notin: "b \<notin> own" "b \<notin> set F'" "b < nblocks m"
    using F(2,3) F' inv blk(1) by (auto simp: mem_inv_def)
  have "blank blk" using inv blk(1) notin(1) by (auto simp: mem_inv_def)
  then have "blank ?blk" by (simp add: blank_def)
  have "chain ?m (freeListNext blk) F' = chain m (freeListNext blk) F'"
    using notin(2) by (intro chain_cong) auto
  moreover have "pool_rest ?m = pool_rest m" by (simp add: pool_rest_def)
  moreover have "b \<notin> set (pool_rest m)" using F(4) F' by auto
  ultimately have "mem_inv ?m (insert b own)"
    using inv F F' blk(2) notin \<open>blank ?blk\<close> unfolding mem_inv_def
    by (auto intro!: exI [of _ F'])
  with run notin \<open>blank ?blk\<close> show ?thesis by (intro exI [of _ ?m]) simp
qed

lemma freelist_get_none: "freeListHead m = None \<Longrightarrow> freelist_try_get m = Ret (None, m)"
  by (simp add: freelist_try_get_def)

lemma create_block_some:
  assumes inv: "mem_inv m own" and get: "create_block m = (Some b, m')"
  shows "b \<notin> own \<and> mem_inv m' (insert b own) \<and> (\<forall>p. p \<noteq> b \<longrightarrow> blocks m' p = blocks m p) \<and>
    blocks m' b = Some block_new"
proof -
  have b: "b = nblocks m" "b < heap_limit m" and m': "m' = m\<lparr>mallocs := Suc (mallocs m), blocks := (blocks m)(b \<mapsto> block_new), nblocks := Suc b\<rparr>"
    using get by (auto simp: create_block_def malloc_def Let_def split: if_splits)
  obtain F where F: "chain m (freeListHead m) F" "distinct F" "set F \<inter> own = {}" "set F \<inter> set (pool_rest m) = {}"
    "\<And>p b. blocks m p = Some b \<Longrightarrow> freeListRefs b = (if p \<in> set F then 1 else 0)"
    using mem_invE [OF inv] by blast
  have new: "b \<notin> own" "b \<notin> set (initialBlockPool m)" "blocks m b = None" using inv by (auto simp: mem_inv_def b(1))
  then have nF: "b \<notin> set F" using chain_exists [OF F(1)] by blast
  then have "chain m' (freeListHead m) F = chain m (freeListHead m) F"
    by (intro chain_cong) (auto simp: m')
  moreover have "pool_rest m' = pool_rest m" by (simp add: pool_rest_def m')
  moreover have "b \<notin> set (pool_rest m)" using new(2) by (auto simp: pool_rest_def dest: in_set_dropD)
  ultimately have "mem_inv m' (insert b own)"
    using inv F nF b(2) unfolding mem_inv_def
    by (auto simp: m' block_new_def blank_def b(1) less_Suc_eq intro!: exI [of _ F])
  with new show ?thesis by (simp add: m')
qed

lemma create_block_none: "create_block m = (None, m') \<Longrightarrow> m' = m\<lparr>mallocs := Suc (mallocs m)\<rparr>"
  by (auto simp: create_block_def malloc_def Let_def split: if_splits)

lemma mem_inv_mallocs [simp]: "mem_inv (m\<lparr>mallocs := n\<rparr>) own = mem_inv m own"
proof -
  have "chain (m\<lparr>mallocs := n\<rparr>) p F = chain m p F" for p F by (rule chain_cong) simp
  then show ?thesis by (simp add: mem_inv_def pool_rest_def)
qed

lemma freelist_add_blank:
  assumes inv: "mem_inv m own" and "b \<in> own" and "blocks m b = Some blk" and "blank blk"
  shows "\<exists>m'. add_block_to_free_list b m = Ret m' \<and> mem_inv m' (own - {b}) \<and>
    (\<forall>p. p \<noteq> b \<longrightarrow> blocks m' p = blocks m p)"
proof -
  obtain F where F: "chain m (freeListHead m) F" "distinct F" "set F \<inter> own = {}" "set F \<inter> set (pool_rest m) = {}"
    "\<And>p b. blocks m p = Some b \<Longrightarrow> freeListRefs b = (if p \<in> set F then 1 else 0)"
    using mem_invE [OF inv] by blast
  have nF: "b \<notin> set F" and refs: "freeListRefs blk = 0" using F(3,5) assms(2,3) by auto
  let ?blk = "blk\<lparr>freeListNext := freeListHead m, freeListRefs := 1\<rparr>"
  let ?m = "m\<lparr>blocks := (blocks m)(b \<mapsto> ?blk), freeListHead := Some b\<rparr>"
  have run: "add_block_to_free_list b m = Ret ?m"
    using assms(3) refs
    by (simp add: add_block_to_free_list_def freelist_add_def add_knowing_refcount_is_zero_def mem_defs Let_def)
  have "chain ?m (freeListHead m) F = chain m (freeListHead m) F"
    using nF by (intro chain_cong) auto
  then have "chain ?m (freeListHead ?m) (b # F)" using F(1) by simp
  moreover have "pool_rest ?m = pool_rest m" by (simp add: pool_rest_def)
  moreover have "b \<notin> set (pool_rest m)" "b < nblocks m" using inv assms(2) by (auto simp: mem_inv_def)
  moreover have "blank ?blk" using assms(4) by (simp add: blank_def)
  ultimately have "mem_inv ?m (own - {b})"
    using inv F nF assms(4) unfolding mem_inv_def by (auto intro!: exI [of _ "b # F"])
  with run show ?thesis by (intro exI [of _ ?m]) simp
qed

lemma mem_inv_owned: "mem_inv m own \<Longrightarrow> b \<in> own \<Longrightarrow> \<exists>blk. blocks m b = Some blk \<and> freeListRefs blk = 0"
  unfolding mem_inv_def by (metis disjoint_iff lessThan_iff not_None_eq subsetD)

lemma requisition_cases:
  assumes inv: "mem_inv m own"
  obtains (pool) b m' where "requisition_block mode m = Ret (Some b, m')" "b \<notin> own" "mem_inv m' (insert b own)"
      "\<And>p. p \<noteq> b \<Longrightarrow> blocks m' p = blocks m p" "\<exists>blk. blocks m' b = Some blk \<and> blank blk"
  | (none) m' where "requisition_block mode m = Ret (None, m')" "mem_inv m' own" "blocks m' = blocks m"
proof (cases "try_get_block_from_initial_pool m")
  case ini: (Pair r m1)
  show thesis
  proof (cases r)
    case (Some b)
    with initial_pool_some [OF inv] ini have b: "b \<notin> own" "mem_inv m1 (insert b own)" "blocks m1 = blocks m" by auto
    moreover have "requisition_block mode m = Ret (Some b, m1)" using ini Some by (simp add: requisition_block_def)
    moreover obtain blk where "blocks m1 b = Some blk" using mem_inv_owned [OF b(2)] by auto
    moreover have "blank blk" using calculation b inv by (auto simp: mem_inv_def)
    ultimately show thesis using pool by metis
  next
    case None
    then have m1: "m1 = m" using ini initial_pool_none by blast
    show thesis
    proof (cases "freeListHead m")
      case (Some b)
      from freelist_get_some [OF inv Some] obtain m' where
        m': "freelist_try_get m = Ret (Some b, m')" "b \<notin> own" "mem_inv m' (insert b own)"
        "\<forall>p. p \<noteq> b \<longrightarrow> blocks m' p = blocks m p" "\<exists>blk. blocks m' b = Some blk \<and> blank blk" by blast
      then have "requisition_block mode m = Ret (Some b, m')"
        using ini None m1 by (simp add: requisition_block_def try_get_block_from_free_list_def)
      with m' pool show thesis by blast
    next
      case head: None
      then have req: "requisition_block mode m = (if mode = CanAlloc then Ret (create_block m) else Ret (None, m))"
        using ini None m1 by (simp add: requisition_block_def try_get_block_from_free_list_def freelist_get_none)
      obtain r2 m2 where c: "create_block m = (r2, m2)" by fastforce
      show thesis
      proof (cases "mode = CanAlloc \<and> r2 \<noteq> None")
        case True
        then obtain b where b: "r2 = Some b" by auto
        with create_block_some [OF inv] c have "b \<notin> own" "mem_inv m2 (insert b own)"
          "\<And>p. p \<noteq> b \<Longrightarrow> blocks m2 p = blocks m p" "blocks m2 b = Some block_new" by auto
        with True b c req pool show thesis by (auto simp: block_new_def blank_def)
      next
        case False
        with create_block_none [of m m2] c req inv none show thesis by (cases r2) (auto split: if_splits)
      qed
    qed
  qed
qed

lemma requisition_heap_limit: "requisition_block mode m = Ret (r, m') \<Longrightarrow> heap_limit m' = heap_limit m"
  by (auto simp: requisition_block_def try_get_block_from_initial_pool_def try_get_block_from_free_list_def
      freelist_try_get_def create_block_def mem_defs Let_def split: if_splits option.splits)

interpretation pool: block_pool mem_inv blocks requisition_block add_block_to_free_list put_block heap_limit
proof
  show "heap_limit m' = heap_limit m" if "requisition_block mode m = Ret (r, m')" for m m' :: "'a mem" and mode r
    using that by (rule requisition_heap_limit)
  show "heap_limit (put_block b blk m) = heap_limit m" for b and blk :: "'a block" and m by (simp add: put_block_def)
  fix m :: "'a mem" and own mode
  assume inv: "mem_inv m own"
  have "own \<subseteq> {..<nblocks m}" "nblocks m \<le> heap_limit m" using inv by (auto simp: mem_inv_def)
  then show "finite own \<and> card own \<le> heap_limit m"
    using card_mono [of "{..<nblocks m}" own] finite_subset [of own "{..<nblocks m}"] by auto
  show "\<exists>r m'. requisition_block mode m = Ret (r, m')" by (rule requisition_cases [OF inv, of mode]) auto
  show "mem_inv m' own \<and> blocks m' = blocks m" if "requisition_block mode m = Ret (None, m')" for m'
    using that by (cases rule: requisition_cases [OF inv, of mode, case_names pool none]) auto
  show "b \<notin> own \<and> mem_inv m' (insert b own) \<and> (\<forall>p \<in> own. blocks m' p = blocks m p) \<and>
      (\<exists>blk. blocks m' b = Some blk \<and> blank blk \<and> freeListRefs blk = 0)"
    if run: "requisition_block mode m = Ret (Some b, m')" for b m'
  proof (cases rule: requisition_cases [OF inv, of mode, case_names pool none])
    case (pool b' m'')
    then have eq: "b' = b" "m'' = m'" using run by auto
    have "\<forall>p \<in> own. blocks m' p = blocks m p" using pool(2,4) unfolding eq by metis
    with pool mem_inv_owned [of m' "insert b own" b] show ?thesis unfolding eq by auto
  qed (use run in simp)
  fix b blk
  assume b: "b \<in> own"
  show "\<exists>blk. blocks m b = Some blk \<and> freeListRefs blk = 0" by (rule mem_inv_owned [OF inv b])
  show "\<exists>m'. add_block_to_free_list b m = Ret m' \<and> mem_inv m' (own - {b}) \<and> (\<forall>p \<in> own - {b}. blocks m' p = blocks m p)"
    if "blocks m b = Some blk" "blank blk"
    using freelist_add_blank [OF inv b that] by auto
  show "mem_inv (put_block b blk m) own \<and> blocks (put_block b blk m) = (blocks m)(b \<mapsto> blk)"
    if "freeListRefs blk = 0"
    using mem_inv_put [OF inv b that] by (simp add: put_block_def)
qed

section \<open>Properties\<close>

text \<open>A fresh memory: no blocks, and the given answers of \<open>malloc\<close>.\<close>

definition mem_new :: "nat \<Rightarrow> (nat \<Rightarrow> bool) \<Rightarrow> 'd mem" where
  "mem_new limit ok = \<lparr>blocks = Map.empty, nblocks = 0, freeListHead = None, initialBlockPool = [],
     initialBlockPoolIndex = 0, initialBlockPoolSize = 0, malloc_ok = ok, mallocs = 0, heap_limit = limit\<rparr>"

lemma populate_inv:
  "mem_inv (populate_initial_block_list n (mem_new limit ok)) {}"
proof (cases "n = 0 \<or> \<not> ok 0 \<or> \<not> unat n \<le> limit")
  case True
  then show ?thesis
    by (auto simp: mem_inv_def populate_initial_block_list_def mem_new_def malloc_def pool_rest_def Let_def
        intro!: exI [of _ "[]"])
next
  case False
  then show ?thesis
    by (auto simp: mem_inv_def populate_initial_block_list_def mem_new_def malloc_def pool_rest_def Let_def
        block_new_def blank_def intro!: exI [of _ "[]"])
qed

text \<open>
  C33. Blocks are never handed out twice: whatever mixture of the initial pool, the free list and
  \<open>malloc\<close> serves \<open>n\<close> requests in a row, the blocks are pairwise different and none of them is in
  use, and the invariant of the pools holds with them in use.
\<close>

theorem requisition_distinct:
  assumes "mem_inv m own" and "gets (requisition_block mode) n m = Ret (bs, m')"
  shows "distinct bs \<and> set bs \<inter> own = {} \<and> mem_inv m' (set bs \<union> own)"
  using assms by (rule pool.gets_distinct)

theorem requisition_distinct_witness:
  "\<exists>bs m'. gets (requisition_block CanAlloc) 2 (populate_initial_block_list 1 (mem_new 100 (\<lambda>_. True)) :: nat mem)
     = Ret (bs, m') \<and> bs = [0, 1] \<and> distinct bs"
proof -
  have "\<exists>m'. gets (requisition_block CanAlloc) 2 (populate_initial_block_list 1 (mem_new 100 (\<lambda>_. True)) :: nat mem)
     = Ret ([0, 1], m')"
    by (simp add: numeral_2_eq_2 requisition_block_def try_get_block_from_initial_pool_def populate_initial_block_list_def
        mem_new_def malloc_def Let_def try_get_block_from_free_list_def freelist_try_get_def create_block_def)
  then obtain m' where run: "gets (requisition_block CanAlloc) 2
      (populate_initial_block_list 1 (mem_new 100 (\<lambda>_. True)) :: nat mem) = Ret ([0, 1], m')" by blast
  from requisition_distinct [OF populate_inv this] run show ?thesis by blast
qed

text \<open>
  C34. A block that goes back to the free list comes out again: after giving back a blank block, a
  request that finds the initial pool used up returns that very block, without allocating, and no
  other block in use has changed.
\<close>

theorem free_list_roundtrip:
  assumes "mem_inv m own" and "b \<in> own" and "blocks m b = Some blk" and "blank blk"
    and "initialBlockPoolSize m \<le> initialBlockPoolIndex m"
  shows "\<exists>m1 m2. add_block_to_free_list b m = Ret m1 \<and> requisition_block mode m1 = Ret (Some b, m2) \<and>
    mem_inv m2 own \<and> (\<forall>p \<in> own - {b}. blocks m2 p = blocks m p) \<and> mallocs m2 = mallocs m"
proof -
  have refs: "freeListRefs blk = 0" using mem_inv_owned [OF assms(1,2)] assms(3) by simp
  obtain m1 where m1: "add_block_to_free_list b m = Ret m1" "mem_inv m1 (own - {b})"
    "\<forall>p \<in> own - {b}. blocks m1 p = blocks m p" using pool.give_back [OF assms(1-4)] by blast
  have eq: "m1 = m\<lparr>blocks := (blocks m)(b \<mapsto> blk\<lparr>freeListNext := freeListHead m, freeListRefs := 1\<rparr>), freeListHead := Some b\<rparr>"
    using m1(1) assms(3) refs
    by (simp add: add_block_to_free_list_def freelist_add_def add_knowing_refcount_is_zero_def mem_defs Let_def)
  have run: "requisition_block mode m1 = Ret (Some b, m1\<lparr>freeListHead := freeListHead m, blocks := (blocks m)(b \<mapsto>
      blk\<lparr>freeListNext := freeListHead m, freeListRefs := 0\<rparr>)\<rparr>)" (is "_ = Ret (_, ?m2)")
    using assms(5) by (simp add: eq requisition_block_def try_get_block_from_initial_pool_def
        try_get_block_from_free_list_def freelist_try_get_def mem_defs REFS_MASK_def Let_def)
  have "insert b (own - {b}) = own" using assms(2) by blast
  with pool.get_some [OF m1(2) run] have "mem_inv ?m2 own" by simp
  moreover have "mallocs ?m2 = mallocs m" "\<forall>p \<in> own - {b}. blocks ?m2 p = blocks m p" by (simp_all add: eq)
  ultimately show ?thesis using m1(1) run by blast
qed

theorem free_list_roundtrip_witness:
  "\<exists>m m1 m2. requisition_block CanAlloc (populate_initial_block_list 1 (mem_new 100 (\<lambda>_. True)) :: nat mem) = Ret (Some 0, m) \<and>
     add_block_to_free_list 0 m = Ret m1 \<and> requisition_block CannotAlloc m1 = Ret (Some 0, m2) \<and> mallocs m2 = mallocs m"
proof -
  let ?m0 = "populate_initial_block_list 1 (mem_new 100 (\<lambda>_. True)) :: nat mem"
  obtain m where run: "requisition_block CanAlloc ?m0 = Ret (Some 0, m)"
    and full: "initialBlockPoolSize m \<le> initialBlockPoolIndex m"
    by (simp add: requisition_block_def try_get_block_from_initial_pool_def populate_initial_block_list_def
        mem_new_def malloc_def Let_def)
  from pool.get_some [OF populate_inv run] obtain blk where
    "mem_inv m {0}" "blocks m 0 = Some blk" "blank blk" by auto
  from free_list_roundtrip [OF this(1) _ this(2,3) full, of CannotAlloc] run show ?thesis by auto
qed

end
