(* ===== verification/CQ_Implicit.thy ===== *)
theory CQ_Implicit
  imports CQ_Mem
begin

text \<open>
  \<open>ProducerBase\<close> and \<open>ImplicitProducer\<close> of \<^verbatim>\<open>concurrentqueue/concurrentqueue.h\<close>: a sub-queue in blocks,
  found through a block index that is a ring of entries and doubles when it is full. The functions
  are those of one thread; \<open>this->parent\<close> is the memory they take and return.
\<close>

section \<open>Producers\<close>

record producer =
  p_next :: "nat option"
  p_inactive :: bool
  p_token :: "nat option"
  tailIndex :: "64 word"
  headIndex :: "64 word"
  dequeueOptimisticCount :: "64 word"
  dequeueOvercommit :: "64 word"
  tailBlock :: "nat option"
  isExplicit :: bool

definition producer_size_approx :: "'a producer_scheme \<Rightarrow> 64 word" where
  "producer_size_approx p =
     (let tail = tailIndex p; head = headIndex p
      in if circular_less_than head tail then tail - head else 0)"

definition getTail :: "'a producer_scheme \<Rightarrow> 64 word" where
  "getTail p = tailIndex p"

text \<open>
  What the queue knows of its element type: whether construction and move assignment may throw, on
  which values they do, and whether destruction is trivial.
\<close>

record 'd elem_ops =
  ctor_noexcept :: bool
  ctor_throws :: "'d \<Rightarrow> bool"
  assign_noexcept :: bool
  assign_throws :: "'d \<Rightarrow> bool"
  trivially_destructible :: bool

definition raises :: "'d elem_ops \<Rightarrow> 'd \<Rightarrow> bool" where
  "raises E x \<longleftrightarrow> \<not> ctor_noexcept E \<and> ctor_throws E x"

definition assign_raises :: "'d elem_ops \<Rightarrow> 'd \<Rightarrow> bool" where
  "assign_raises E x \<longleftrightarrow> \<not> assign_noexcept E \<and> assign_throws E x"

text \<open>A result, or an exception that leaves the state behind it.\<close>

datatype 'a xres = Val 'a | Exc

text \<open>
  Placement new and explicit destruction in a slot; destroying what was never constructed is
  undefined behaviour.
\<close>

definition construct :: "traits \<Rightarrow> 64 word \<Rightarrow> 'd \<Rightarrow> nat \<Rightarrow> 'd mem \<Rightarrow> 'd mem outcome" where
  "construct T idx x b m =
     with_block b m (\<lambda>blk. Ret (put_block b (blk\<lparr>elements := (elements blk)(slot T idx := Some x)\<rparr>) m))"

definition destruct :: "traits \<Rightarrow> 64 word \<Rightarrow> nat \<Rightarrow> 'd mem \<Rightarrow> 'd mem outcome" where
  "destruct T idx b m =
     with_block b m (\<lambda>blk. case elements blk (slot T idx) of
       None \<Rightarrow> Undefined
     | Some _ \<Rightarrow> Ret (put_block b (blk\<lparr>elements := (elements blk)(slot T idx := None)\<rparr>) m))"

definition element_at :: "traits \<Rightarrow> 64 word \<Rightarrow> nat \<Rightarrow> 'd mem \<Rightarrow> 'd outcome" where
  "element_at T idx b m =
     with_block b m (\<lambda>blk. case elements blk (slot T idx) of None \<Rightarrow> Undefined | Some x \<Rightarrow> Ret x)"

section \<open>The block index of an implicit producer\<close>

record BlockIndexEntry =
  entry_key :: "64 word"
  entry_value :: "nat option"

text \<open>\<open>index\<close> holds pointers to entries, here their positions in the list of all entries made so far.\<close>

record BlockIndexHeader =
  capacity :: "64 word"
  bi_tail :: "64 word"
  index :: "nat list"

text \<open>\<open>blockIndex\<close> and the headers behind its \<open>prev\<close>, the current one first.\<close>

record implicit_producer = producer +
  nextBlockIndexCapacity :: "64 word"
  blockIndex :: "BlockIndexHeader list"
  entries :: "BlockIndexEntry list"

definition INVALID_BLOCK_BASE :: "64 word" where "INVALID_BLOCK_BASE = 1"

definition base_of :: "traits \<Rightarrow> 64 word \<Rightarrow> 64 word" where
  "base_of T i = i AND NOT (BLOCK_SIZE T - 1)"

definition nth_out :: "'a list \<Rightarrow> nat \<Rightarrow> 'a outcome" where
  "nth_out xs i = (if i < length xs then Ret (xs ! i) else Undefined)"

definition set_entry :: "nat \<Rightarrow> BlockIndexEntry \<Rightarrow> implicit_producer \<Rightarrow> implicit_producer" where
  "set_entry e en p = p\<lparr>entries := (entries p)[e := en]\<rparr>"

definition set_entry_value :: "nat \<Rightarrow> nat option \<Rightarrow> implicit_producer \<Rightarrow> implicit_producer" where
  "set_entry_value e v p = set_entry e ((entries p ! e)\<lparr>entry_value := v\<rparr>) p"

definition set_index_tail :: "64 word \<Rightarrow> implicit_producer \<Rightarrow> implicit_producer" where
  "set_index_tail t p = (case blockIndex p of [] \<Rightarrow> p | h # hs \<Rightarrow> p\<lparr>blockIndex := h\<lparr>bi_tail := t\<rparr> # hs\<rparr>)"

text \<open>
  The old index is copied in ring order behind its tail; the entries added are invalid. (Their
  \<open>value\<close> is uninitialised in the source and not read while the key is invalid.)
\<close>

definition copied_index :: "BlockIndexHeader \<Rightarrow> nat list" where
  "copied_index prev =
     map (\<lambda>i. index prev ! unat ((bi_tail prev + 1 + of_nat i) AND (capacity prev - 1))) [0..<unat (capacity prev)]"

definition new_block_index :: "implicit_producer \<Rightarrow> 'd mem \<Rightarrow> bool \<times> implicit_producer \<times> 'd mem" where
  "new_block_index p m =
     (let prevCapacity = (case blockIndex p of [] \<Rightarrow> 0 | prev # _ \<Rightarrow> capacity prev);
          entryCount = (case blockIndex p of [] \<Rightarrow> nextBlockIndexCapacity p | _ \<Rightarrow> prevCapacity);
          (raw, m1) = malloc m
      in if \<not> raw then (False, p, m1)
         else
           let old = (case blockIndex p of [] \<Rightarrow> [] | prev # _ \<Rightarrow> copied_index prev);
               n = length (entries p);
               header = \<lparr>capacity = nextBlockIndexCapacity p,
                         bi_tail = (prevCapacity - 1) AND (nextBlockIndexCapacity p - 1),
                         index = old @ [n..<n + unat entryCount]\<rparr>
           in (True,
               p\<lparr>entries := entries p @ replicate (unat entryCount) \<lparr>entry_key = INVALID_BLOCK_BASE, entry_value = None\<rparr>,
                 blockIndex := header # blockIndex p,
                 nextBlockIndexCapacity := push_bit 1 (nextBlockIndexCapacity p)\<rparr>,
               m1))"

definition implicit_producer_new :: "traits \<Rightarrow> 'd mem \<Rightarrow> implicit_producer \<times> 'd mem" where
  "implicit_producer_new T m =
     (let p = \<lparr>p_next = None, p_inactive = False, p_token = None, tailIndex = 0, headIndex = 0,
               dequeueOptimisticCount = 0, dequeueOvercommit = 0, tailBlock = None, isExplicit = False,
               nextBlockIndexCapacity = IMPLICIT_INITIAL_INDEX_SIZE T, blockIndex = [], entries = []\<rparr>;
          (_, p', m') = new_block_index p m
      in (p', m'))"

definition insert_block_index_entry ::
  "AllocationMode \<Rightarrow> 64 word \<Rightarrow> implicit_producer \<Rightarrow> 'd mem \<Rightarrow> (nat option \<times> implicit_producer \<times> 'd mem) outcome" where
  "insert_block_index_entry allocMode blockStartIndex p m =
     (case blockIndex p of
        [] \<Rightarrow> Ret (None, p, m)
      | h # _ \<Rightarrow>
          let newTail = (bi_tail h + 1) AND (capacity h - 1) in
          and_then (nth_out (index h) (unat newTail)) (\<lambda>e.
          and_then (nth_out (entries p) e) (\<lambda>en.
            if entry_key en = INVALID_BLOCK_BASE \<or> entry_value en = None
            then Ret (Some e, set_index_tail newTail (set_entry e (en\<lparr>entry_key := blockStartIndex\<rparr>) p), m)
            else if allocMode = CannotAlloc then Ret (None, p, m)
            else
              let (ok, p1, m1) = new_block_index p m in
              if \<not> ok then Ret (None, p1, m1)
              else
                (case blockIndex p1 of
                   [] \<Rightarrow> Undefined
                 | h1 # _ \<Rightarrow>
                     let newTail1 = (bi_tail h1 + 1) AND (capacity h1 - 1) in
                     and_then (nth_out (index h1) (unat newTail1)) (\<lambda>e1.
                     and_then (nth_out (entries p1) e1) (\<lambda>en1.
                       Ret (Some e1, set_index_tail newTail1 (set_entry e1 (en1\<lparr>entry_key := blockStartIndex\<rparr>) p1), m1)))))))"

definition rewind_block_index_tail :: "implicit_producer \<Rightarrow> implicit_producer outcome" where
  "rewind_block_index_tail p =
     (case blockIndex p of
        [] \<Rightarrow> Undefined
      | h # _ \<Rightarrow> Ret (set_index_tail ((bi_tail h - 1) AND (capacity h - 1)) p))"

text \<open>
  The division is by the unsigned \<open>BLOCK_SIZE\<close>, so the offset is computed in unsigned arithmetic; the
  mask makes a wrapped offset harmless because sizes are powers of two.
\<close>

definition get_block_index_index_for_index :: "traits \<Rightarrow> 64 word \<Rightarrow> implicit_producer \<Rightarrow> 64 word outcome" where
  "get_block_index_index_for_index T i p =
     (case blockIndex p of
        [] \<Rightarrow> Undefined
      | h # _ \<Rightarrow>
          let i' = base_of T i; tail = bi_tail h in
          and_then (nth_out (index h) (unat tail)) (\<lambda>te.
          and_then (nth_out (entries p) te) (\<lambda>ten.
            let offset = (i' - entry_key ten) div BLOCK_SIZE T
            in Ret ((tail + offset) AND (capacity h - 1)))))"

definition get_block_index_entry_for_index :: "traits \<Rightarrow> 64 word \<Rightarrow> implicit_producer \<Rightarrow> nat outcome" where
  "get_block_index_entry_for_index T i p =
     and_then (get_block_index_index_for_index T i p) (\<lambda>idx.
       case blockIndex p of [] \<Rightarrow> Undefined | h # _ \<Rightarrow> nth_out (index h) (unat idx))"

section \<open>Enqueue and dequeue\<close>

text \<open>The test at the start of a new block: the sub-queue is full, or has reached its limit.\<close>

definition subqueue_full :: "traits \<Rightarrow> 64 word \<Rightarrow> 64 word \<Rightarrow> bool" where
  "subqueue_full T head currentTailIndex \<longleftrightarrow>
     \<not> circular_less_than head (currentTailIndex + BLOCK_SIZE T) \<or>
     (MAX_SUBQUEUE_SIZE T \<noteq> const_numeric_max \<and>
       (MAX_SUBQUEUE_SIZE T = 0 \<or> MAX_SUBQUEUE_SIZE T - BLOCK_SIZE T < currentTailIndex - head))"

definition implicit_enqueue ::
  "traits \<Rightarrow> 'd elem_ops \<Rightarrow> AllocationMode \<Rightarrow> 'd \<Rightarrow> implicit_producer \<Rightarrow> 'd mem \<Rightarrow>
   (bool xres \<times> implicit_producer \<times> 'd mem) outcome" where
  "implicit_enqueue T E allocMode x p m =
     (let currentTailIndex = tailIndex p;
          newTailIndex = 1 + currentTailIndex;
          finish = (\<lambda>p m. case tailBlock p of
             None \<Rightarrow> Undefined
           | Some b \<Rightarrow>
               if raises E x then Ret (Exc, p, m)
               else and_then (construct T currentTailIndex x b m) (\<lambda>m'.
                 Ret (Val True, p\<lparr>tailIndex := newTailIndex\<rparr>, m')))
      in if currentTailIndex AND (BLOCK_SIZE T - 1) = 0 then
           if subqueue_full T (headIndex p) currentTailIndex then Ret (Val False, p, m)
           else
             and_then (insert_block_index_entry allocMode currentTailIndex p m) (\<lambda>(idxEntry, p1, m1).
             case idxEntry of
               None \<Rightarrow> Ret (Val False, p1, m1)
             | Some e \<Rightarrow>
                 and_then (requisition_block allocMode m1) (\<lambda>(r, m2).
                 case r of
                   None \<Rightarrow>
                     and_then (rewind_block_index_tail p1) (\<lambda>p2. Ret (Val False, set_entry_value e None p2, m2))
                 | Some newBlock \<Rightarrow>
                     with_block newBlock m2 (\<lambda>blk.
                       let m3 = put_block newBlock (reset_empty T implicit_context blk) m2 in
                       if \<not> ctor_noexcept E then
                         if raises E x then
                           and_then (rewind_block_index_tail p1) (\<lambda>p2.
                           and_then (add_block_to_free_list newBlock m3) (\<lambda>m4.
                             Ret (Exc, set_entry_value e None p2, m4)))
                         else
                           and_then (construct T currentTailIndex x newBlock m3) (\<lambda>m4.
                             Ret (Val True, (set_entry_value e (Some newBlock) p1)
                               \<lparr>tailBlock := Some newBlock, tailIndex := newTailIndex\<rparr>, m4))
                       else finish ((set_entry_value e (Some newBlock) p1)\<lparr>tailBlock := Some newBlock\<rparr>) m3)))
         else finish p m)"

text \<open>
  Both branches on \<open>MOODYCAMEL_NOEXCEPT_ASSIGN\<close> destroy the element, mark its slot and give the block
  back when it was the last one; with the guard this also happens when the assignment throws.
\<close>

definition release_slot ::
  "traits \<Rightarrow> 64 word \<Rightarrow> nat \<Rightarrow> nat \<Rightarrow> implicit_producer \<Rightarrow> 'd mem \<Rightarrow> (implicit_producer \<times> 'd mem) outcome" where
  "release_slot T i e b p m =
     and_then (destruct T i b m) (\<lambda>m1.
       with_block b m1 (\<lambda>blk.
         let (now_empty, blk') = set_empty T implicit_context i blk;
             m2 = put_block b blk' m1
         in if now_empty then and_then (add_block_to_free_list b m2) (\<lambda>m3. Ret (set_entry_value e None p, m3))
            else Ret (p, m2)))"

definition implicit_dequeue ::
  "traits \<Rightarrow> 'd elem_ops \<Rightarrow> implicit_producer \<Rightarrow> 'd mem \<Rightarrow> ('d option xres \<times> implicit_producer \<times> 'd mem) outcome" where
  "implicit_dequeue T E p m =
     (let tail = tailIndex p;
          overcommit = dequeueOvercommit p
      in if circular_less_than (dequeueOptimisticCount p - overcommit) tail then
           let myDequeueCount = dequeueOptimisticCount p;
               p1 = p\<lparr>dequeueOptimisticCount := myDequeueCount + 1\<rparr>
           in if circular_less_than (myDequeueCount - overcommit) (tailIndex p1) then
                let i = headIndex p1;
                    p2 = p1\<lparr>headIndex := i + 1\<rparr>
                in and_then (get_block_index_entry_for_index T i p2) (\<lambda>e.
                   and_then (nth_out (entries p2) e) (\<lambda>en.
                   case entry_value en of
                     None \<Rightarrow> Undefined
                   | Some b \<Rightarrow>
                       and_then (element_at T i b m) (\<lambda>el.
                       and_then (release_slot T i e b p2 m) (\<lambda>(p3, m1).
                         Ret (if assign_raises E el then Exc else Val (Some el), p3, m1)))))
              else Ret (Val None, p1\<lparr>dequeueOvercommit := dequeueOvercommit p1 + 1\<rparr>, m)
         else Ret (Val None, p, m))"

section \<open>The ring of index entries\<close>

text \<open>
  Block number \<open>j\<close> of a sub-queue covers the indices \<open>j * BLOCK_SIZE\<close> up to the next multiple. The
  ring holds the numbers \<open>L \<le> j < N\<close>, the last at \<open>tail\<close> and the others before it.
\<close>

definition ring_pos :: "nat \<Rightarrow> nat \<Rightarrow> nat \<Rightarrow> nat \<Rightarrow> nat" where
  "ring_pos cap tail N j = (tail + cap - (N - 1 - j)) mod cap"

definition index_ok ::
  "traits \<Rightarrow> BlockIndexHeader \<Rightarrow> BlockIndexEntry list \<Rightarrow> nat \<Rightarrow> nat \<Rightarrow> (nat \<Rightarrow> nat) \<Rightarrow> bool" where
  "index_ok T h es L N blk \<longleftrightarrow>
     (\<exists>c. unat (capacity h) = 2 ^ c \<and> 2 ^ c * bsz T \<le> 2 ^ 64) \<and>
     length (index h) = unat (capacity h) \<and> distinct (index h) \<and> set (index h) \<subseteq> {..<length es} \<and>
     unat (bi_tail h) < unat (capacity h) \<and> N - L \<le> unat (capacity h) \<and>
     (\<forall>j \<in> {L..<N}. es ! (index h ! ring_pos (unat (capacity h)) (unat (bi_tail h)) N j) =
        \<lparr>entry_key = of_nat (j * bsz T), entry_value = Some (blk j)\<rparr>) \<and>
     (\<forall>q < unat (capacity h). q \<notin> ring_pos (unat (capacity h)) (unat (bi_tail h)) N ` {L..<N} \<longrightarrow>
        entry_key (es ! (index h ! q)) = INVALID_BLOCK_BASE \<or> entry_value (es ! (index h ! q)) = None)"

lemma ring_pos_less: "0 < cap \<Longrightarrow> ring_pos cap tail N j < cap"
  by (simp add: ring_pos_def)

lemma ring_pos_last: "tail < cap \<Longrightarrow> 0 < N \<Longrightarrow> ring_pos cap tail N (N - 1) = tail"
  by (simp add: ring_pos_def)

lemma ring_pos_Suc:
  assumes "j < N" and "N - j \<le> cap" and "tail < cap"
  shows "ring_pos cap (Suc tail mod cap) (Suc N) j = ring_pos cap tail N j"
proof -
  have "(Suc tail mod cap + cap - (N - j)) mod cap = (Suc tail + cap - (N - j)) mod cap"
    using assms by (cases "Suc tail = cap") (auto simp: mod_if)
  then show ?thesis using assms by (simp add: ring_pos_def Suc_diff_Suc)
qed

lemma ring_pos_Suc_last: "tail < cap \<Longrightarrow> ring_pos cap (Suc tail mod cap) (Suc N) N = Suc tail mod cap"
  by (simp add: ring_pos_def)

lemma ring_pos_inj:
  assumes "ring_pos cap tail N i = ring_pos cap tail N j" and "i < N" and "j < N" and "N - i \<le> cap" and "N - j \<le> cap"
    and "tail < cap"
  shows "i = j"
proof -
  have *: "x = y" if "(tail + cap - x) mod cap = (tail + cap - y) mod cap" "x < cap" "y < cap" for x y
  proof (rule ccontr)
    assume "x \<noteq> y"
    then consider "x < y" | "y < x" by linarith
    then show False
    proof cases
      case 1
      then have "cap dvd (tail + cap - x) - (tail + cap - y)"
        using that by (metis diff_le_mono2 less_imp_le mod_eq_dvd_iff_nat)
      then show False using 1 that by (auto dest: dvd_imp_le)
    next
      case 2
      then have "cap dvd (tail + cap - y) - (tail + cap - x)"
        using that by (metis diff_le_mono2 less_imp_le mod_eq_dvd_iff_nat)
      then show False using 2 that by (auto dest: dvd_imp_le)
    qed
  qed
  have "N - 1 - i = N - 1 - j" by (rule *) (use assms in \<open>auto simp: ring_pos_def\<close>)
  with assms show ?thesis by simp
qed

text \<open>The index computation of the source, on wrapping words.\<close>

lemma ring_offset:
  assumes bs: "traits_ok T" "bsz T = 2 ^ k" and cap: "2 ^ c * 2 ^ k \<le> (2 :: nat) ^ 64" and d: "d < 2 ^ c"
  shows "(of_nat tail + (of_nat (j * bsz T) - of_nat ((j + d) * bsz T)) div BLOCK_SIZE T) AND (2 ^ c - 1)
    = (of_nat ((tail + 2 ^ c - d) mod 2 ^ c) :: 64 word)"
proof -
  have "(2 :: nat) ^ (c + k) \<le> 2 ^ 64" using cap by (simp add: power_add)
  then have ck: "c + k \<le> 64" using power_increasing_iff [of "2 :: nat" "c + k" 64] by simp
  have split64: "(2 :: nat) ^ 64 = 2 ^ (64 - k) * 2 ^ k" using ck by (simp flip: power_add)
  have cdvd: "(2 :: nat) ^ (64 - k) = 2 ^ c * 2 ^ (64 - k - c)" using ck by (simp flip: power_add)
  have d64: "d < 2 ^ (64 - k)"
    using d order.trans [OF _ power_increasing [of c "64 - k" "2 :: nat"]] ck by (simp add: less_le_trans)
  have bsw: "BLOCK_SIZE T = of_nat (2 ^ k)" using bs(2) by (metis word_eq_of_natI)
  have off: "(of_nat (j * bsz T) - of_nat ((j + d) * bsz T)) div BLOCK_SIZE T =
      (of_nat (if d = 0 then 0 else 2 ^ (64 - k) - d) :: 64 word)"
  proof (cases "d = 0")
    case False
    have le: "d * 2 ^ k \<le> 2 ^ 64" using mult_le_mono1 [of d "2 ^ (64 - k)" "2 ^ k"] d64 by (simp only: split64)
    have "of_nat (j * bsz T) - of_nat ((j + d) * bsz T) = - (of_nat (d * 2 ^ k) :: 64 word)"
      using bs(2) by (simp add: algebra_simps)
    also have "\<dots> = of_nat (2 ^ 64 - d * 2 ^ k)" using le by (subst of_nat_diff) simp_all
    finally have diff: "of_nat (j * bsz T) - of_nat ((j + d) * bsz T) = (of_nat (2 ^ 64 - d * 2 ^ k) :: 64 word)" .
    have "unat (of_nat (2 ^ 64 - d * 2 ^ k) :: 64 word) = 2 ^ 64 - d * 2 ^ k"
      using False by (intro unat_of_nat_64 diff_less) simp_all
    then have "unat (of_nat (2 ^ 64 - d * 2 ^ k) div BLOCK_SIZE T :: 64 word) = (2 ^ 64 - d * 2 ^ k) div 2 ^ k"
      by (simp only: unat_div bs(2))
    also have "(2 ^ 64 - d * 2 ^ k) div 2 ^ k = 2 ^ (64 - k) - d"
      by (simp only: split64 diff_mult_distrib [symmetric]) simp
    finally have "of_nat (2 ^ 64 - d * 2 ^ k) div BLOCK_SIZE T = (of_nat (2 ^ (64 - k) - d) :: 64 word)"
      by (rule word_eq_of_natI)
    then show ?thesis using False by (simp only: diff if_False)
  qed simp
  have "(of_nat tail + (of_nat (j * bsz T) - of_nat ((j + d) * bsz T)) div BLOCK_SIZE T) AND (2 ^ c - 1)
      = (of_nat ((tail + (if d = 0 then 0 else 2 ^ (64 - k) - d)) mod 2 ^ c) :: 64 word)"
    unfolding off of_nat_add [symmetric] using ck by (intro and_mask_nat) simp
  also have "(tail + (if d = 0 then 0 else 2 ^ (64 - k) - d)) mod 2 ^ c = (tail + 2 ^ c - d) mod 2 ^ c"
  proof (cases "d = 0")
    case False
    define r where "r = (2 :: nat) ^ (64 - k - c) - 1"
    have "(2 :: nat) ^ (64 - k) = 2 ^ c + 2 ^ c * r" by (simp add: cdvd r_def algebra_simps)
    then have "tail + (2 ^ (64 - k) - d) = (tail + 2 ^ c - d) + 2 ^ c * r" using d by simp
    then show ?thesis using False by simp
  qed simp
  finally show ?thesis .
qed

text \<open>What \<open>index_ok\<close> says, one fact at a time.\<close>

lemma index_okD:
  assumes "index_ok T h es L N blk"
  shows "0 < unat (capacity h)" "length (index h) = unat (capacity h)" "distinct (index h)"
    "unat (bi_tail h) < unat (capacity h)" "N - L \<le> unat (capacity h)"
    "\<And>q. q < unat (capacity h) \<Longrightarrow> index h ! q < length es"
    "\<And>j. L \<le> j \<Longrightarrow> j < N \<Longrightarrow> es ! (index h ! ring_pos (unat (capacity h)) (unat (bi_tail h)) N j) =
        \<lparr>entry_key = of_nat (j * bsz T), entry_value = Some (blk j)\<rparr>"
    "\<And>q. q < unat (capacity h) \<Longrightarrow> q \<notin> ring_pos (unat (capacity h)) (unat (bi_tail h)) N ` {L..<N} \<Longrightarrow>
        entry_key (es ! (index h ! q)) = INVALID_BLOCK_BASE \<or> entry_value (es ! (index h ! q)) = None"
proof -
  show "index h ! q < length es" if "q < unat (capacity h)" for q
    using that assms unfolding index_ok_def by (metis lessThan_iff nth_mem subsetD)
qed (use assms in \<open>auto simp: index_ok_def\<close>)

lemma index_ok_cap:
  assumes "index_ok T h es L N blk"
  obtains c where "unat (capacity h) = 2 ^ c" "2 ^ c * bsz T \<le> 2 ^ 64" "c < 64" "capacity h = 2 ^ c"
proof -
  obtain c where c: "unat (capacity h) = 2 ^ c" "2 ^ c * bsz T \<le> 2 ^ 64" using assms by (auto simp: index_ok_def)
  have "(2 :: nat) ^ c < 2 ^ 64" using unat_lt_64 [of "capacity h"] c(1) by simp
  then have "c < 64" using power_strict_increasing_iff [of "2 :: nat" c 64] by simp
  moreover have "capacity h = of_nat (2 ^ c)" using c(1) by (metis word_eq_of_natI)
  ultimately show thesis using that [OF c] by simp
qed

lemma lookup_place:
  assumes T: "traits_ok T" and h: "blockIndex p = h # hs" and ok: "index_ok T h (entries p) L N blk"
    and j: "L \<le> i div bsz T" "i div bsz T < N"
  shows "get_block_index_index_for_index T (of_nat i) p =
    Ret (of_nat (ring_pos (unat (capacity h)) (unat (bi_tail h)) N (i div bsz T)))"
proof -
  let ?cap = "unat (capacity h)" and ?t = "unat (bi_tail h)" and ?j = "i div bsz T"
  note D = index_okD [OF ok]
  obtain c where c: "?cap = 2 ^ c" "2 ^ c * bsz T \<le> 2 ^ 64" "c < 64" "capacity h = 2 ^ c"
    using index_ok_cap [OF ok] by blast
  obtain k where k: "bsz T = 2 ^ k" using bsz_pow2 [OF T] by blast
  define d where "d = N - 1 - ?j"
  have dN: "?j + d = N - 1" "d < 2 ^ c" using j D(5) c(1) by (auto simp: d_def)
  have last: "entries p ! (index h ! ?t) = \<lparr>entry_key = of_nat ((N - 1) * bsz T), entry_value = Some (blk (N - 1))\<rparr>"
    using D(7) [of "N - 1"] ring_pos_last [OF D(4), of N] j by simp
  have "get_block_index_index_for_index T (of_nat i) p =
      Ret ((bi_tail h + (of_nat (?j * bsz T) - of_nat ((?j + d) * bsz T)) div BLOCK_SIZE T) AND (capacity h - 1))"
    using D(2,4) D(6) [OF D(4)] last
    by (simp add: get_block_index_index_for_index_def h nth_out_def base_of_def and_not_block_mask [OF T] dN(1) Let_def)
  also have "\<dots> = Ret (of_nat (ring_pos ?cap ?t N ?j))"
    using ring_offset [OF T k, of c d "?t" ?j] c dN(2) by (simp add: k ring_pos_def d_def)
  finally show ?thesis .
qed

lemma lookup_ok:
  assumes T: "traits_ok T" and h: "blockIndex p = h # hs" and ok: "index_ok T h (entries p) L N blk"
    and j: "L \<le> i div bsz T" "i div bsz T < N"
  shows "get_block_index_entry_for_index T (of_nat i) p =
    Ret (index h ! ring_pos (unat (capacity h)) (unat (bi_tail h)) N (i div bsz T))"
  using index_okD(2) [OF ok] ring_pos_less [OF index_okD(1) [OF ok], of "unat (bi_tail h)" N "i div bsz T"] unat_lt_64 [of "capacity h"]
  by (simp add: get_block_index_entry_for_index_def lookup_place [OF assms] h nth_out_def unat_of_nat_64)

lemma next_tail:
  assumes "index_ok T h es L N blk"
  shows "unat ((bi_tail h + 1) AND (capacity h - 1)) = Suc (unat (bi_tail h)) mod unat (capacity h)"
proof -
  obtain c where c: "unat (capacity h) = 2 ^ c" "c < 64" "capacity h = 2 ^ c"
    using index_ok_cap [OF assms] by blast
  have "bi_tail h + 1 = of_nat (Suc (unat (bi_tail h)))" by simp
  then show ?thesis using unat_and_mask [of c "Suc (unat (bi_tail h))"] c by (simp add: add.commute)
qed

lemma prev_tail:
  assumes "index_ok T h es L N blk" and "t = (bi_tail h + 1) AND (capacity h - 1)"
  shows "(t - 1) AND (capacity h - 1) = bi_tail h"
proof -
  obtain c where c: "unat (capacity h) = 2 ^ c" "c < 64" "capacity h = 2 ^ c"
    using index_ok_cap [OF assms(1)] by blast
  have lt: "unat (bi_tail h) < 2 ^ c" using index_okD(4) [OF assms(1)] c(1) by simp
  show ?thesis
  proof (cases "Suc (unat (bi_tail h)) = 2 ^ c")
    case True
    then have "t = 0" using next_tail [OF assms(1)] c(1) by (simp add: assms(2) unat_eq_zero [symmetric])
    then have "t - 1 = of_nat (2 ^ 64 - 1)" by simp
    then have "unat ((t - 1) AND (capacity h - 1)) = (2 ^ 64 - 1) mod 2 ^ c"
      using unat_and_mask [of c "2 ^ 64 - 1"] c by simp
    also have "(2 :: nat) ^ 64 - 1 = (2 ^ c - 1) + 2 ^ c * (2 ^ (64 - c) - 1)"
      using c(2) power_increasing [of c 64 "2 :: nat"] by (simp add: algebra_simps flip: power_add)
    also have "\<dots> mod 2 ^ c = 2 ^ c - 1" by (simp only: mod_mult_self2 mod_less diff_less zero_less_power zero_less_one zero_less_numeral)
    finally show ?thesis using True by (metis diff_Suc_1 word_unat_eq_iff)
  next
    case False
    then have "unat t = Suc (unat (bi_tail h))" using next_tail [OF assms(1)] lt c(1) by (simp add: assms(2))
    then have "t - 1 = of_nat (unat (bi_tail h))" by (metis add_diff_cancel_right' of_nat_Suc of_nat_unat add.commute)
    then have "unat ((t - 1) AND (capacity h - 1)) = unat (bi_tail h)"
      using unat_and_mask [of c "unat (bi_tail h)"] c lt by simp
    then show ?thesis by (simp add: word_unat_eq_iff)
  qed
qed

lemma block_base_valid: "traits_ok T \<Longrightarrow> of_nat (j * bsz T) \<noteq> INVALID_BLOCK_BASE"
proof
  assume T: "traits_ok T" and "of_nat (j * bsz T) = INVALID_BLOCK_BASE"
  then have eq: "(of_nat (j * bsz T) :: 64 word) = of_nat 1" by (simp add: INVALID_BLOCK_BASE_def)
  then have "j * bsz T mod bsz T = 1 mod bsz T"
    using unat_and_block_mask [OF T, of "j * bsz T"] unat_and_block_mask [OF T, of 1] by metis
  then show False using bsz_gt_1 [OF T] by simp
qed

text \<open>Facts about the place behind the tail.\<close>

lemma free_place:
  assumes T: "traits_ok T" and ok: "index_ok T h es L N blk" and "L \<le> N"
    and e: "e = index h ! (Suc (unat (bi_tail h)) mod unat (capacity h))"
    and free: "entry_key (es ! e) = INVALID_BLOCK_BASE \<or> entry_value (es ! e) = None"
  shows "N - L < unat (capacity h)"
    and "Suc (unat (bi_tail h)) mod unat (capacity h) \<notin> ring_pos (unat (capacity h)) (unat (bi_tail h)) N ` {L..<N}"
proof -
  let ?cap = "unat (capacity h)" and ?t = "unat (bi_tail h)"
  note D = index_okD [OF ok]
  show out: "Suc ?t mod ?cap \<notin> ring_pos ?cap ?t N ` {L..<N}"
  proof
    assume "Suc ?t mod ?cap \<in> ring_pos ?cap ?t N ` {L..<N}"
    then obtain j where "L \<le> j" "j < N" "Suc ?t mod ?cap = ring_pos ?cap ?t N j" by auto
    with D(7) [of j] e free block_base_valid [OF T, of j] show False by simp
  qed
  show "N - L < ?cap"
  proof (rule ccontr)
    assume "\<not> N - L < ?cap"
    then have full: "N - L = ?cap" using D(5) by simp
    then have "?t + ?cap - (N - 1 - L) = Suc ?t" using D(1) by linarith
    then have "ring_pos ?cap ?t N L = Suc ?t mod ?cap" by (simp add: ring_pos_def)
    moreover have "L \<in> {L..<N}" using full D(1) by auto
    ultimately show False using out by (metis image_eqI)
  qed
qed

lemma index_nth_eq: "index_ok T h es L N blk \<Longrightarrow> q < unat (capacity h) \<Longrightarrow> r < unat (capacity h) \<Longrightarrow>
   index h ! q = index h ! r \<longleftrightarrow> q = r"
  using index_okD(2,3) nth_eq_iff_index_eq by metis

lemma index_commit:
  assumes T: "traits_ok T" and ok: "index_ok T h es L N blk" and "L \<le> N"
    and e: "e = index h ! (Suc (unat (bi_tail h)) mod unat (capacity h))"
    and free: "entry_key (es ! e) = INVALID_BLOCK_BASE \<or> entry_value (es ! e) = None"
    and t: "unat t = Suc (unat (bi_tail h)) mod unat (capacity h)"
  shows "index_ok T (h\<lparr>bi_tail := t\<rparr>) (es[e := \<lparr>entry_key = of_nat (N * bsz T), entry_value = Some b\<rparr>]) L (Suc N) (blk(N := b))"
proof -
  let ?cap = "unat (capacity h)" and ?t = "unat (bi_tail h)"
  let ?new = "Suc ?t mod ?cap" and ?h = "h\<lparr>bi_tail := t\<rparr>"
  let ?es = "es[e := \<lparr>entry_key = of_nat (N * bsz T), entry_value = Some b\<rparr>]"
  note D = index_okD [OF ok] and F = free_place [OF assms(1-5)]
  have new: "?new < ?cap" using D(1) by simp
  have e_len: "e < length es" using D(6) [OF new] e by simp
  have other: "?es ! (index h ! q) = es ! (index h ! q)" if "q < ?cap" "q \<noteq> ?new" for q
    using index_nth_eq [OF ok that(1) new] that(2) e by simp
  have pos: "ring_pos ?cap ?new (Suc N) j = ring_pos ?cap ?t N j" if "L \<le> j" "j < N" for j
    using that F(1) D(4) by (intro ring_pos_Suc) auto
  have last: "ring_pos ?cap ?new (Suc N) N = ?new" by (rule ring_pos_Suc_last [OF D(4)])
  have img: "ring_pos ?cap ?new (Suc N) ` {L..<Suc N} = insert ?new (ring_pos ?cap ?t N ` {L..<N})"
  proof -
    have "{L..<Suc N} = insert N {L..<N}" using assms(3) by auto
    moreover have "ring_pos ?cap ?new (Suc N) ` {L..<N} = ring_pos ?cap ?t N ` {L..<N}"
      by (rule image_cong) (use pos in auto)
    ultimately show ?thesis by (simp only: image_insert last)
  qed
  have "?es ! (index h ! ring_pos ?cap ?new (Suc N) j) = \<lparr>entry_key = of_nat (j * bsz T), entry_value = Some ((blk(N := b)) j)\<rparr>"
    if "j \<in> {L..<Suc N}" for j
  proof (cases "j = N")
    case True
    then show ?thesis using last e e_len by simp
  next
    case False
    with that have j: "L \<le> j" "j < N" by auto
    then have "ring_pos ?cap ?t N j \<noteq> ?new" using F(2) by (metis atLeastLessThan_iff image_eqI)
    with pos [OF j] other [of "ring_pos ?cap ?t N j"] D(7) [OF j] ring_pos_less [OF D(1)] False show ?thesis by simp
  qed
  moreover have "entry_key (?es ! (index h ! q)) = INVALID_BLOCK_BASE \<or> entry_value (?es ! (index h ! q)) = None"
    if "q < ?cap" "q \<notin> ring_pos ?cap ?new (Suc N) ` {L..<Suc N}" for q
    using that other [of q] D(8) [of q] unfolding img by simp
  ultimately show ?thesis
    using ok F(1) new t assms(3) unfolding index_ok_def by auto
qed

lemma index_abort:
  assumes T: "traits_ok T" and ok: "index_ok T h es L N blk" and "L \<le> N"
    and e: "e = index h ! (Suc (unat (bi_tail h)) mod unat (capacity h))"
    and free: "entry_key (es ! e) = INVALID_BLOCK_BASE \<or> entry_value (es ! e) = None"
  shows "index_ok T h (es[e := \<lparr>entry_key = k, entry_value = None\<rparr>]) L N blk"
proof -
  let ?cap = "unat (capacity h)" and ?t = "unat (bi_tail h)"
  let ?new = "Suc ?t mod ?cap" and ?es = "es[e := \<lparr>entry_key = k, entry_value = None\<rparr>]"
  note D = index_okD [OF ok] and F = free_place [OF assms]
  have new: "?new < ?cap" using D(1) by simp
  have other: "?es ! (index h ! q) = es ! (index h ! q)" if "q < ?cap" "q \<noteq> ?new" for q
    using index_nth_eq [OF ok that(1) new] that(2) e by simp
  have "?es ! (index h ! ring_pos ?cap ?t N j) = \<lparr>entry_key = of_nat (j * bsz T), entry_value = Some (blk j)\<rparr>"
    if j: "L \<le> j" "j < N" for j
    using F(2) other [OF ring_pos_less [OF D(1)], of ?t N j] D(7) [OF j] j by (metis atLeastLessThan_iff image_eqI)
  moreover have "entry_key (?es ! (index h ! q)) = INVALID_BLOCK_BASE \<or> entry_value (?es ! (index h ! q)) = None"
    if "q < ?cap" "q \<notin> ring_pos ?cap ?t N ` {L..<N}" for q
    using other [of q] D(8) [OF that] that(1) D(6) [OF new] e by (cases "q = ?new") auto
  ultimately show ?thesis using ok unfolding index_ok_def by auto
qed

lemma index_drop:
  assumes ok: "index_ok T h es L N blk" and "L < N"
    and e: "e = index h ! ring_pos (unat (capacity h)) (unat (bi_tail h)) N L"
  shows "index_ok T h (es[e := (es ! e)\<lparr>entry_value := None\<rparr>]) (Suc L) N blk"
proof -
  let ?cap = "unat (capacity h)" and ?t = "unat (bi_tail h)" and ?es = "es[e := (es ! e)\<lparr>entry_value := None\<rparr>]"
  let ?p = "ring_pos ?cap ?t N L"
  note D = index_okD [OF ok]
  have p: "?p < ?cap" by (rule ring_pos_less [OF D(1)])
  have other: "?es ! (index h ! q) = es ! (index h ! q)" if "q < ?cap" "q \<noteq> ?p" for q
    using index_nth_eq [OF ok that(1) p] that(2) e by simp
  have "?es ! (index h ! ring_pos ?cap ?t N j) = \<lparr>entry_key = of_nat (j * bsz T), entry_value = Some (blk j)\<rparr>"
    if j: "Suc L \<le> j" "j < N" for j
  proof -
    have "ring_pos ?cap ?t N j \<noteq> ?p" using ring_pos_inj [of ?cap ?t N j L] j assms(2) D(4,5) by force
    with other [OF ring_pos_less [OF D(1)], of ?t N j] D(7) [of j] j show ?thesis by simp
  qed
  moreover have "entry_key (?es ! (index h ! q)) = INVALID_BLOCK_BASE \<or> entry_value (?es ! (index h ! q)) = None"
    if "q < ?cap" "q \<notin> ring_pos ?cap ?t N ` {Suc L..<N}" for q
  proof (cases "q = ?p")
    case True
    then show ?thesis using e D(6) [OF p] by simp
  next
    case False
    moreover have "{L..<N} = insert L {Suc L..<N}" using assms(2) by auto
    ultimately have "q \<notin> ring_pos ?cap ?t N ` {L..<N}" using that(2) by simp
    with other [OF that(1) False] D(8) [OF that(1)] show ?thesis by simp
  qed
  ultimately show ?thesis using ok unfolding index_ok_def by auto
qed

lemma copied_index_rotate:
  assumes "index_ok T h es L N blk"
  shows "copied_index h = rotate (Suc (unat (bi_tail h))) (index h)"
proof (rule nth_equalityI)
  note D = index_okD [OF assms]
  show "length (copied_index h) = length (rotate (Suc (unat (bi_tail h))) (index h))"
    using D(2) by (simp add: copied_index_def)
  fix i assume i: "i < length (copied_index h)"
  then have i': "i < unat (capacity h)" by (simp add: copied_index_def)
  obtain c where c: "unat (capacity h) = 2 ^ c" "c < 64" "capacity h = 2 ^ c" using index_ok_cap [OF assms] by blast
  have "bi_tail h + 1 + of_nat i = of_nat (Suc (unat (bi_tail h)) + i)" by simp
  then have "unat ((bi_tail h + 1 + of_nat i) AND (capacity h - 1)) = (Suc (unat (bi_tail h)) + i) mod unat (capacity h)"
    using unat_and_mask [of c "Suc (unat (bi_tail h)) + i"] c by (metis less_imp_le)
  then show "copied_index h ! i = rotate (Suc (unat (bi_tail h))) (index h) ! i"
    using i' D(2) nth_rotate [of i "index h" "Suc (unat (bi_tail h))"] by (simp add: copied_index_def)
qed

lemma index_grow:
  assumes ok: "index_ok T h es L N blk" and big: "2 * unat (capacity h) * bsz T \<le> 2 ^ 64" "1 < bsz T"
    and es': "es' = es @ replicate (unat (capacity h)) \<lparr>entry_key = INVALID_BLOCK_BASE, entry_value = None\<rparr>"
    and h': "h' = \<lparr>capacity = push_bit 1 (capacity h), bi_tail = (capacity h - 1) AND (push_bit 1 (capacity h) - 1),
      index = copied_index h @ [length es..<length es + unat (capacity h)]\<rparr>"
  shows "index_ok T h' es' L N blk" and "unat (bi_tail h') = unat (capacity h) - 1" and "unat (capacity h') = 2 * unat (capacity h)"
proof -
  let ?cap = "unat (capacity h)" and ?t = "unat (bi_tail h)"
  note D = index_okD [OF ok]
  obtain c where c: "?cap = 2 ^ c" "c < 64" "capacity h = 2 ^ c" using index_ok_cap [OF ok] by blast
  have "2 * ?cap * 2 \<le> 2 * ?cap * bsz T" using big(2) by (intro mult_le_mono2) simp
  with big(1) have "2 * ?cap * 2 \<le> 2 ^ 64" by linarith
  then have "(2 :: nat) ^ (c + 2) \<le> 2 ^ 64" using c(1) by (simp add: power_add)
  then have c2: "Suc c < 64" using power_increasing_iff [of "2 :: nat" "c + 2" 64] by simp
  have cap'w: "push_bit 1 (capacity h) = 2 ^ Suc c" by (simp add: push_bit_eq_mult c(3))
  show cap': "unat (capacity h') = 2 * ?cap"
    using unat_pow2 [OF c2] by (simp only: h' BlockIndexHeader.select_convs cap'w c(1)) (simp only: power_Suc)
  have "capacity h - 1 = of_nat (?cap - 1)" using D(1) by (metis of_nat_1 of_nat_diff of_nat_unat Suc_leI One_nat_def)
  moreover have "?cap - 1 < 2 * ?cap" using D(1) by linarith
  then have "(?cap - 1) mod 2 ^ Suc c = ?cap - 1" by (intro mod_less) (simp only: c(1) power_Suc)
  moreover have "Suc c \<le> 64" using c2 by simp
  ultimately show tail': "unat (bi_tail h') = ?cap - 1"
    using unat_and_mask [of "Suc c" "?cap - 1"] by (simp only: h' BlockIndexHeader.select_convs cap'w)
  have copy: "copied_index h = rotate (Suc ?t) (index h)" by (rule copied_index_rotate [OF ok])
  have len: "length (copied_index h) = ?cap" using D(2) by (simp add: copy)
  have low: "copied_index h ! i = index h ! ((Suc ?t + i) mod ?cap)" if "i < ?cap" for i
    using that D(2) nth_rotate [of i "index h" "Suc ?t"] by (simp only: copy)
  have pos: "ring_pos (2 * ?cap) (?cap - 1) N j = ?cap - 1 - (N - 1 - j)" if "L \<le> j" "j < N" for j
  proof -
    have le: "N - 1 - j \<le> ?cap - 1" using that D(5) by linarith
    have eq: "?cap - 1 + 2 * ?cap - (N - 1 - j) = (?cap - 1 - (N - 1 - j)) + 2 * ?cap"
      using diff_add_assoc2 [OF le] by simp
    have "?cap - 1 - (N - 1 - j) < 2 * ?cap" using D(1) by simp
    then show ?thesis unfolding ring_pos_def eq by (simp only: mod_add_self2 mod_less)
  qed
  have at: "index h' ! ring_pos (2 * ?cap) (?cap - 1) N j = index h ! ring_pos ?cap ?t N j" if j: "L \<le> j" "j < N" for j
  proof -
    have d: "N - 1 - j < ?cap" using j D(5) by linarith
    have i: "?cap - 1 - (N - 1 - j) < ?cap" using D(1) by linarith
    have "Suc ?t + (?cap - 1 - (N - 1 - j)) = ?t + ?cap - (N - 1 - j)" using d by linarith
    then show ?thesis using pos [OF j] low [OF i] i len by (simp add: h' nth_append ring_pos_def)
  qed
  have "es' ! (index h' ! ring_pos (2 * ?cap) (?cap - 1) N j) = \<lparr>entry_key = of_nat (j * bsz T), entry_value = Some (blk j)\<rparr>"
    if j: "L \<le> j" "j < N" for j
    using at [OF j] D(6) [OF ring_pos_less [OF D(1), of ?t N j]] D(7) [OF j] by (simp add: es' nth_append)
  moreover have "entry_key (es' ! (index h' ! q)) = INVALID_BLOCK_BASE \<or> entry_value (es' ! (index h' ! q)) = None"
    if q: "q < 2 * ?cap" "q \<notin> ring_pos (2 * ?cap) (?cap - 1) N ` {L..<N}" for q
  proof (cases "q < ?cap")
    case True
    let ?q = "(Suc ?t + q) mod ?cap"
    have idx: "index h' ! q = index h ! ?q" using True low len by (simp add: h' nth_append)
    have "?q \<notin> ring_pos ?cap ?t N ` {L..<N}"
    proof
      assume "?q \<in> ring_pos ?cap ?t N ` {L..<N}"
      then obtain j where j: "L \<le> j" "j < N" "?q = ring_pos ?cap ?t N j" by auto
      have i: "?cap - 1 - (N - 1 - j) < ?cap" using D(1) by linarith
      have "index h' ! q = index h' ! (?cap - 1 - (N - 1 - j))" using at [OF j(1,2)] pos [OF j(1,2)] idx j(3) by simp
      then have "copied_index h ! q = copied_index h ! (?cap - 1 - (N - 1 - j))" using True i len by (simp add: h' nth_append)
      then have "q = ?cap - 1 - (N - 1 - j)" using True i len D(3) by (simp add: copy nth_eq_iff_index_eq)
      then show False using q(2) pos [OF j(1,2)] j(1,2) by (metis atLeastLessThan_iff image_eqI)
    qed
    moreover have "?q < ?cap" using D(1) by simp
    ultimately show ?thesis using D(8) [of ?q] D(6) [of ?q] idx by (simp add: es' nth_append)
  next
    case False
    then obtain r where r: "q = ?cap + r" "r < ?cap" using q(1) by (metis add_less_cancel_left le_Suc_ex mult_2 not_less)
    then have "index h' ! q = length es + r" using len by (simp add: h' nth_append)
    then show ?thesis using r(2) by (simp add: es' nth_append)
  qed
  moreover have "length (index h') = 2 * ?cap" "distinct (index h')" "set (index h') \<subseteq> {..<length es'}"
    using len D(3) ok by (auto simp: h' es' copy index_ok_def)
  moreover have "\<exists>c'. 2 * ?cap = 2 ^ c' \<and> 2 ^ c' * bsz T \<le> 2 ^ 64" using big(1) c(1) by (intro exI [of _ "Suc c"]) simp
  ultimately show "index_ok T h' es' L N blk"
    using D(1,5) unfolding index_ok_def cap' tail' by auto
qed

lemma index_first:
  assumes T: "traits_ok T"
  shows "index_ok T \<lparr>capacity = IMPLICIT_INITIAL_INDEX_SIZE T, bi_tail = (0 - 1) AND (IMPLICIT_INITIAL_INDEX_SIZE T - 1),
      index = [0..<unat (IMPLICIT_INITIAL_INDEX_SIZE T)]\<rparr>
    (replicate (unat (IMPLICIT_INITIAL_INDEX_SIZE T)) \<lparr>entry_key = INVALID_BLOCK_BASE, entry_value = None\<rparr>) 0 0 blk"
proof -
  obtain c where c: "unat (IMPLICIT_INITIAL_INDEX_SIZE T) = 2 ^ c" "0 < c" "c < 64"
    using T pow2_test_unat by (metis traits_ok_def static_asserts_def)
  then have "IMPLICIT_INITIAL_INDEX_SIZE T \<noteq> 0" by (metis power_not_zero unat_0 zero_neq_numeral)
  then have "unat ((0 - 1) AND (IMPLICIT_INITIAL_INDEX_SIZE T - 1)) < 2 ^ c"
    using unat_minus_1 [of "IMPLICIT_INITIAL_INDEX_SIZE T"] c(1) by simp
  moreover have "2 ^ c * bsz T \<le> 2 ^ 64" using T c(1) by (simp add: traits_ok_def)
  ultimately show ?thesis using c(1) by (auto simp: index_ok_def)
qed

end
