(* ===== verification/CQ_Hash.thy ===== *)
theory CQ_Hash
  imports CQ_Implicit
begin

text \<open>
  The hash tables of \<^verbatim>\<open>concurrentqueue/concurrentqueue.h\<close> that find a thread's implicit producer:
  open addressing with linear probing, a chain of tables of growing capacity, the newest first.
  A table is a parameter-free data structure here; registering a thread, which also creates a
  producer, is in the theory of the queue.
\<close>

section \<open>Tables\<close>

definition invalid_thread_id :: "64 word" where "invalid_thread_id = 0"

definition invalid_thread_id2 :: "64 word" where "invalid_thread_id2 = 1"

record ImplicitProducerKVP =
  kvp_key :: "64 word"
  kvp_value :: "nat option"

text \<open>\<open>prev\<close> is the rest of the list of tables.\<close>

record ImplicitProducerHash =
  h_capacity :: "64 word"
  h_entries :: "ImplicitProducerKVP list"

definition empty_hash :: "64 word \<Rightarrow> ImplicitProducerHash" where
  "empty_hash cap = \<lparr>h_capacity = cap, h_entries = replicate (unat cap) \<lparr>kvp_key = invalid_thread_id, kvp_value = None\<rparr>\<rparr>"

definition populate_initial_implicit_producer_hash :: "traits \<Rightarrow> ImplicitProducerHash list" where
  "populate_initial_implicit_producer_hash T =
     (if INITIAL_IMPLICIT_PRODUCER_HASH_SIZE T = 0 then [] else [empty_hash (INITIAL_IMPLICIT_PRODUCER_HASH_SIZE T)])"

text \<open>
  Looking for \<open>tid\<close> in one table, from the position \<open>i\<close> on: the place of the key, or \<open>None\<close> at the
  first slot that was never used. The source loops without a bound; \<open>No_Fuel\<close> is a loop that goes on.
\<close>

fun hash_probe :: "nat \<Rightarrow> 64 word \<Rightarrow> ImplicitProducerHash \<Rightarrow> 64 word \<Rightarrow> nat option outcome" where
  "hash_probe 0 tid h i = No_Fuel"
| "hash_probe (Suc f) tid h i =
     (let j = i AND (h_capacity h - 1) in
      and_then (nth_out (h_entries h) (unat j)) (\<lambda>e.
        if kvp_key e = tid then Ret (Some (unat j))
        else if kvp_key e = invalid_thread_id then Ret None
        else hash_probe f tid h (j + 1)))"

text \<open>
  Claiming a slot for \<open>tid\<close>: one never used or, where threads report their end (\<open>tls\<close>), one whose
  thread has ended.
\<close>

fun hash_claim :: "nat \<Rightarrow> bool \<Rightarrow> 64 word \<Rightarrow> nat option \<Rightarrow> ImplicitProducerHash \<Rightarrow> 64 word \<Rightarrow> ImplicitProducerHash outcome" where
  "hash_claim 0 tls tid v h i = No_Fuel"
| "hash_claim (Suc f) tls tid v h i =
     (let j = i AND (h_capacity h - 1) in
      and_then (nth_out (h_entries h) (unat j)) (\<lambda>e.
        if kvp_key e = invalid_thread_id \<or> tls \<and> kvp_key e = invalid_thread_id2
        then Ret (h\<lparr>h_entries := (h_entries h)[unat j := \<lparr>kvp_key = tid, kvp_value = v\<rparr>]\<rparr>)
        else hash_claim f tls tid v h (j + 1)))"

text \<open>The search through the chain: how deep the table with the key lies, and the value found.\<close>

fun hash_find :: "nat \<Rightarrow> 64 word \<Rightarrow> ImplicitProducerHash list \<Rightarrow> (nat \<times> nat option) option outcome" where
  "hash_find f tid [] = Ret None"
| "hash_find f tid (h # hs) =
     and_then (hash_probe f tid h (hash_thread_id tid)) (\<lambda>r.
       case r of
         Some j \<Rightarrow> Ret (Some (0, kvp_value (h_entries h ! j)))
       | None \<Rightarrow> and_then (hash_find f tid hs) (\<lambda>r. Ret (map_option (map_prod Suc (\<lambda>v. v)) r)))"

text \<open>\<open>while (newCount >= (newCapacity >> 1)) newCapacity <<= 1\<close>; after 64 rounds the capacity is zero for good.\<close>

fun grow_capacity :: "nat \<Rightarrow> 64 word \<Rightarrow> 64 word \<Rightarrow> 64 word outcome" where
  "grow_capacity 0 newCount newCapacity = No_Fuel"
| "grow_capacity (Suc f) newCount newCapacity =
     (if newCount \<ge> drop_bit 1 newCapacity then grow_capacity f newCount (push_bit 1 newCapacity) else Ret newCapacity)"

text \<open>Leaving a table at the end of a thread: the key becomes the reusable mark, the slot stays used.\<close>

fun hash_leave :: "nat \<Rightarrow> 64 word \<Rightarrow> ImplicitProducerHash \<Rightarrow> 64 word \<Rightarrow> ImplicitProducerHash outcome" where
  "hash_leave 0 tid h i = No_Fuel"
| "hash_leave (Suc f) tid h i =
     (let j = i AND (h_capacity h - 1) in
      and_then (nth_out (h_entries h) (unat j)) (\<lambda>e.
        if kvp_key e = tid then Ret (h\<lparr>h_entries := (h_entries h)[unat j := e\<lparr>kvp_key := invalid_thread_id2\<rparr>]\<rparr>)
        else if kvp_key e = invalid_thread_id then Ret h
        else hash_leave f tid h (j + 1)))"

fun hash_leave_all :: "nat \<Rightarrow> 64 word \<Rightarrow> ImplicitProducerHash list \<Rightarrow> ImplicitProducerHash list outcome" where
  "hash_leave_all f tid [] = Ret []"
| "hash_leave_all f tid (h # hs) =
     and_then (hash_leave f tid h (hash_thread_id tid)) (\<lambda>h'.
     and_then (hash_leave_all f tid hs) (\<lambda>hs'. Ret (h' # hs')))"

section \<open>Linear probing\<close>

text \<open>A thread's id is an address, never one of the two marks.\<close>

definition valid_tid :: "64 word \<Rightarrow> bool" where
  "valid_tid tid \<longleftrightarrow> tid \<noteq> invalid_thread_id \<and> tid \<noteq> invalid_thread_id2"

text \<open>The slots a search for \<open>tid\<close> visits: \<open>visit h tid d\<close> is the one after \<open>d\<close> steps.\<close>

definition cap :: "ImplicitProducerHash \<Rightarrow> nat" where
  "cap h = unat (h_capacity h)"

definition visit :: "ImplicitProducerHash \<Rightarrow> 64 word \<Rightarrow> nat \<Rightarrow> nat" where
  "visit h tid d = (unat (hash_thread_id tid) + d) mod cap h"

abbreviation key_at :: "ImplicitProducerHash \<Rightarrow> nat \<Rightarrow> 64 word" where
  "key_at h j \<equiv> kvp_key (h_entries h ! j)"

definition hash_shape :: "ImplicitProducerHash \<Rightarrow> bool" where
  "hash_shape h \<longleftrightarrow> (\<exists>k < 64. h_capacity h = 2 ^ k) \<and> length (h_entries h) = cap h"

text \<open>
  \<open>reachable_keys h\<close>: every key in the table is met by its search before a slot never used, and
  no key occurs twice.
\<close>

definition keys :: "ImplicitProducerHash \<Rightarrow> 64 word set" where
  "keys h = {key_at h j | j. j < cap h} - {invalid_thread_id, invalid_thread_id2}"

definition hash_ok :: "ImplicitProducerHash \<Rightarrow> bool" where
  "hash_ok h \<longleftrightarrow> hash_shape h \<and>
     (\<forall>i < cap h. \<forall>j < cap h. valid_tid (key_at h i) \<longrightarrow> key_at h i = key_at h j \<longrightarrow> i = j) \<and>
     (\<forall>tid \<in> keys h. \<exists>d < cap h. key_at h (visit h tid d) = tid \<and> (\<forall>e < d. key_at h (visit h tid e) \<noteq> invalid_thread_id))"

lemma cap_pow2:
  assumes "hash_shape h"
  obtains k where "k < 64" "cap h = 2 ^ k" "h_capacity h = 2 ^ k"
  using assms that unfolding hash_shape_def cap_def by (metis unat_pow2)

lemma cap_pos: "hash_shape h \<Longrightarrow> 0 < cap h"
  by (erule cap_pow2) simp

lemma mask_cap: "hash_shape h \<Longrightarrow> (of_nat n :: 64 word) AND (h_capacity h - 1) = of_nat (n mod cap h)"
  by (erule cap_pow2) (simp add: and_mask_nat)

lemma visit_less: "hash_shape h \<Longrightarrow> visit h tid d < cap h"
  by (simp add: visit_def cap_pos)

lemma unat_mod_cap: "hash_shape h \<Longrightarrow> unat (of_nat (n mod cap h) :: 64 word) = n mod cap h"
proof (rule unat_of_nat_64)
  assume "hash_shape h"
  then have "n mod cap h < cap h" by (simp add: cap_pos)
  also have "cap h < 2 ^ 64" unfolding cap_def by (rule unat_lt_64)
  finally show "n mod cap h < 2 ^ 64" .
qed

text \<open>
  The three loops have one shape: they stop at the first slot of the walk that satisfies \<open>stop\<close>, and
  go on for ever when there is none.
\<close>

lemma walk_loop:
  assumes step: "\<And>f n. L (Suc f) (of_nat n) = (if stop (n mod c) then res (n mod c) else L f (of_nat (n mod c + 1)))"
    and "d < f" and "\<forall>e < d. \<not> stop ((n + e) mod c)" and "stop ((n + d) mod c)"
  shows "L f (of_nat n :: 64 word) = res ((n + d) mod (c :: nat))"
  using assms(2-)
proof (induction f arbitrary: n d)
  case (Suc f)
  show ?case
  proof (cases d)
    case 0
    with Suc.prems show ?thesis by (simp add: step)
  next
    case (Suc d')
    have shift: "(n mod c + 1 + e) mod c = (n + Suc e) mod c" for e
      using mod_add_left_eq [of n c "1 + e"] by (simp add: add.assoc)
    have "L f (of_nat (n mod c + 1)) = res ((n mod c + 1 + d') mod c)"
      using Suc.prems Suc by (intro Suc.IH) (auto simp only: shift Suc_less_eq)
    moreover have "\<not> stop (n mod c)" using Suc.prems(2) Suc by (auto dest: spec [of _ 0])
    ultimately show ?thesis using Suc unfolding step shift by simp
  qed
qed simp

lemma walk_forever:
  assumes step: "\<And>f n. L (Suc f) (of_nat n) = (if stop (n mod c) then res (n mod c) else L f (of_nat (n mod c + 1)))"
    and zero: "\<And>i. L 0 i = No_Fuel" and "\<forall>j < c. \<not> stop j" and "0 < c"
  shows "L f (of_nat n :: 64 word) = No_Fuel"
  using assms(3-) by (induction f arbitrary: n) (simp_all add: step zero del: of_nat_add of_nat_Suc)

lemma probe_step:
  assumes h: "hash_shape h"
  shows "hash_probe (Suc f) tid h (of_nat n) =
    (if key_at h (n mod cap h) = tid \<or> key_at h (n mod cap h) = invalid_thread_id
     then Ret (if key_at h (n mod cap h) = tid then Some (n mod cap h) else None)
     else hash_probe f tid h (of_nat (n mod cap h + 1)))"
  using h cap_pos [OF h] by (simp add: mask_cap unat_mod_cap nth_out_def hash_shape_def Let_def add.commute)

lemma claim_step:
  assumes h: "hash_shape h"
  shows "hash_claim (Suc f) tls tid v h (of_nat n) =
    (if key_at h (n mod cap h) = invalid_thread_id \<or> tls \<and> key_at h (n mod cap h) = invalid_thread_id2
     then Ret (h\<lparr>h_entries := (h_entries h)[n mod cap h := \<lparr>kvp_key = tid, kvp_value = v\<rparr>]\<rparr>)
     else hash_claim f tls tid v h (of_nat (n mod cap h + 1)))"
  using h cap_pos [OF h] by (simp add: mask_cap unat_mod_cap nth_out_def hash_shape_def Let_def add.commute)

lemma leave_step:
  assumes h: "hash_shape h"
  shows "hash_leave (Suc f) tid h (of_nat n) =
    (if key_at h (n mod cap h) = tid \<or> key_at h (n mod cap h) = invalid_thread_id
     then Ret (if key_at h (n mod cap h) = tid
       then h\<lparr>h_entries := (h_entries h)[n mod cap h := (h_entries h ! (n mod cap h))\<lparr>kvp_key := invalid_thread_id2\<rparr>]\<rparr> else h)
     else hash_leave f tid h (of_nat (n mod cap h + 1)))"
  using h cap_pos [OF h] by (simp add: mask_cap unat_mod_cap nth_out_def hash_shape_def Let_def add.commute)

text \<open>Walking one round visits every slot, so a slot that stops the loop is met.\<close>

lemma visit_all:
  assumes "hash_shape h" and "j < cap h"
  obtains d where "d < cap h" "visit h tid d = j"
proof
  let ?s = "unat (hash_thread_id tid) mod cap h"
  show "(j + (cap h - ?s)) mod cap h < cap h" using assms by (simp add: cap_pos)
  have "?s < cap h" using assms by (simp add: cap_pos)
  then have "?s + (j + (cap h - ?s)) = j + cap h" by simp
  then have "(?s + (j + (cap h - ?s))) mod cap h = j" using assms(2) by (simp only: mod_add_self2 mod_less)
  then show "visit h tid ((j + (cap h - ?s)) mod cap h) = j" unfolding visit_def by (simp only: mod_add_left_eq mod_add_right_eq)
qed

lemma first_stop:
  assumes "hash_shape h" and "j < cap h" and "stop j"
  obtains d where "d < cap h" "stop (visit h tid d)" "\<forall>e < d. \<not> stop (visit h tid e)"
proof -
  obtain d0 where d0: "d0 < cap h" "visit h tid d0 = j" using visit_all [OF assms(1,2)] .
  define d where "d = (LEAST d. stop (visit h tid d))"
  have "stop (visit h tid d)" unfolding d_def by (rule LeastI [of _ d0]) (simp add: d0 assms(3))
  moreover have "d \<le> d0" unfolding d_def by (rule Least_le) (simp add: d0 assms(3))
  moreover have "\<forall>e < d. \<not> stop (visit h tid e)" unfolding d_def by (auto dest: not_less_Least)
  ultimately show thesis using d0(1) by (intro that) auto
qed

section \<open>A table as a map\<close>

definition has_room :: "ImplicitProducerHash \<Rightarrow> bool" where
  "has_room h \<longleftrightarrow> (\<exists>j < cap h. key_at h j = invalid_thread_id)"

definition table :: "ImplicitProducerHash \<Rightarrow> 64 word \<Rightarrow> nat option option" where
  "table h tid = (if valid_tid tid then map_of (map (\<lambda>e. (kvp_key e, kvp_value e)) (h_entries h)) tid else None)"

lemma keys_iff: "tid \<in> keys h \<longleftrightarrow> valid_tid tid \<and> (\<exists>j < cap h. key_at h j = tid)"
  by (auto simp: keys_def valid_tid_def)

lemma key_at_unique:
  assumes "hash_ok h" and "i < cap h" and "j < cap h" and "key_at h i = tid" and "key_at h j = tid" and "valid_tid tid"
  shows "i = j"
  using assms unfolding hash_ok_def by metis

lemma table_at:
  assumes "hash_ok h" and "j < cap h" and "key_at h j = tid" and "valid_tid tid"
  shows "table h tid = Some (kvp_value (h_entries h ! j))"
proof -
  let ?kv = "\<lambda>e. (kvp_key e, kvp_value e)"
  have len: "length (h_entries h) = cap h" using assms(1) by (simp add: hash_ok_def hash_shape_def)
  have "(tid, kvp_value (h_entries h ! j)) \<in> set (map ?kv (h_entries h))" using assms(2,3) len by force
  then have "map_of (map ?kv (h_entries h)) tid \<noteq> None" by (auto simp: map_of_eq_None_iff image_iff)
  then obtain v where v: "map_of (map ?kv (h_entries h)) tid = Some v" by blast
  then have "(tid, v) \<in> set (map ?kv (h_entries h))" by (rule map_of_SomeD)
  then obtain i where i: "i < cap h" "key_at h i = tid" "v = kvp_value (h_entries h ! i)" by (auto simp: in_set_conv_nth len)
  then have "i = j" using key_at_unique assms by blast
  with v i assms(4) show ?thesis by (simp add: table_def)
qed

lemma table_None:
  assumes "hash_ok h" and "tid \<notin> keys h"
  shows "table h tid = None"
proof -
  have "length (h_entries h) = cap h" using assms(1) by (simp add: hash_ok_def hash_shape_def)
  then show ?thesis using assms(2) by (auto simp: table_def keys_iff map_of_eq_None_iff in_set_conv_nth)
qed

lemma dom_table: "hash_ok h \<Longrightarrow> dom (table h) = keys h"
  using table_None table_at by (fastforce simp: keys_iff)

lemma of_nat_visit: "of_nat (unat (hash_thread_id tid)) = hash_thread_id tid" "(unat (hash_thread_id tid) + d) mod cap h = visit h tid d"
  by (simp_all add: visit_def)

text \<open>A table with a slot never used answers every search, and answers it with the map.\<close>

lemma probe_spec:
  assumes h: "hash_ok h" and room: "has_room h" and tid: "valid_tid tid" and f: "cap h \<le> f"
  shows "tid \<in> keys h \<Longrightarrow> \<exists>j < cap h. hash_probe f tid h (hash_thread_id tid) = Ret (Some j) \<and> key_at h j = tid"
    and "tid \<notin> keys h \<Longrightarrow> hash_probe f tid h (hash_thread_id tid) = Ret None"
proof -
  have shape: "hash_shape h" using h by (simp add: hash_ok_def)
  let ?stop = "\<lambda>j. key_at h j = tid \<or> key_at h j = invalid_thread_id"
  obtain j0 where "j0 < cap h" "?stop j0" using room by (auto simp: has_room_def)
  from first_stop [of h j0 ?stop tid, OF shape this] obtain d where
    d: "d < cap h" "?stop (visit h tid d)" "\<forall>e < d. \<not> ?stop (visit h tid e)" by blast
  have run: "hash_probe f tid h (hash_thread_id tid) = Ret (if key_at h (visit h tid d) = tid then Some (visit h tid d) else None)"
    using walk_loop [of "\<lambda>f i. hash_probe f tid h i" ?stop "cap h", OF probe_step [OF shape], of d f "unat (hash_thread_id tid)"] d f
    unfolding of_nat_visit by simp
  show "\<exists>j < cap h. hash_probe f tid h (hash_thread_id tid) = Ret (Some j) \<and> key_at h j = tid" if key: "tid \<in> keys h"
  proof -
    obtain d' where d': "key_at h (visit h tid d') = tid" "\<forall>e < d'. key_at h (visit h tid e) \<noteq> invalid_thread_id"
      using h key by (auto simp: hash_ok_def)
    have "key_at h (visit h tid d) = tid" using d(2,3) d' tid by (cases d d' rule: linorder_cases) (auto simp: valid_tid_def)
    with run visit_less [OF shape] show ?thesis by auto
  qed
  show "hash_probe f tid h (hash_thread_id tid) = Ret None" if "tid \<notin> keys h"
    using that tid run visit_less [OF shape, of tid d] by (auto simp: keys_iff)
qed

text \<open>Without such a slot, a search for a key that is not there never ends.\<close>

lemma probe_forever:
  assumes "hash_shape h" and "\<not> has_room h" and "tid \<notin> keys h" and "valid_tid tid"
  shows "hash_probe f tid h i = No_Fuel"
proof -
  have "\<forall>j < cap h. \<not> (key_at h j = tid \<or> key_at h j = invalid_thread_id)" using assms by (auto simp: has_room_def keys_iff)
  from walk_forever [of "\<lambda>f i. hash_probe f tid h i" _ "cap h", OF probe_step [OF assms(1)] _ this, of f "unat i"]
  show ?thesis using cap_pos [OF assms(1)] by simp
qed

lemma claim_spec:
  assumes h: "hash_ok h" and room: "has_room h" and tid: "valid_tid tid" and new: "tid \<notin> keys h" and f: "cap h \<le> f"
  shows "\<exists>h'. hash_claim f tls tid v h (hash_thread_id tid) = Ret h' \<and> hash_ok h' \<and> keys h' = insert tid (keys h) \<and>
    h_capacity h' = h_capacity h \<and> table h' = (table h)(tid \<mapsto> v)"
proof -
  have shape: "hash_shape h" using h by (simp add: hash_ok_def)
  let ?stop = "\<lambda>j. key_at h j = invalid_thread_id \<or> tls \<and> key_at h j = invalid_thread_id2"
  obtain j0 where "j0 < cap h" "?stop j0" using room by (auto simp: has_room_def)
  from first_stop [of h j0 ?stop tid, OF shape this] obtain d where
    d: "d < cap h" "?stop (visit h tid d)" "\<forall>e < d. \<not> ?stop (visit h tid e)" by blast
  define j where "j = visit h tid d"
  have j: "j < cap h" using visit_less [OF shape] by (simp add: j_def)
  define h' where "h' = h\<lparr>h_entries := (h_entries h)[j := \<lparr>kvp_key = tid, kvp_value = v\<rparr>]\<rparr>"
  have run: "hash_claim f tls tid v h (hash_thread_id tid) = Ret h'"
    using walk_loop [of "\<lambda>f i. hash_claim f tls tid v h i" ?stop "cap h", OF claim_step [OF shape], of d f "unat (hash_thread_id tid)"] d f
    unfolding of_nat_visit j_def h'_def by simp
  have len: "length (h_entries h) = cap h" using shape by (simp add: hash_shape_def)
  have c: "cap h' = cap h" "visit h' = visit h" "h_capacity h' = h_capacity h" by (auto simp: h'_def cap_def visit_def fun_eq_iff)
  have key: "key_at h' i = (if i = j then tid else key_at h i)" if "i < cap h" for i using that j len by (simp add: h'_def nth_list_update)
  have old: "\<not> valid_tid (key_at h j)" using d(2) by (auto simp: j_def valid_tid_def)
  have keys': "keys h' = insert tid (keys h)"
  proof (rule set_eqI)
    fix t
    have "(\<exists>i < cap h. key_at h' i = t) \<longleftrightarrow> t = tid \<or> (\<exists>i < cap h. i \<noteq> j \<and> key_at h i = t)" using key j by metis
    then show "t \<in> keys h' \<longleftrightarrow> t \<in> insert tid (keys h)" using tid old by (auto simp: keys_iff c)
  qed
  have val: "kvp_value (h_entries h' ! i) = (if i = j then v else kvp_value (h_entries h ! i))" if "i < cap h" for i
    using that j len by (simp add: h'_def nth_list_update)
  have "hash_ok h'"
    unfolding hash_ok_def
  proof (intro conjI ballI allI impI)
    show "hash_shape h'" using shape by (simp add: hash_shape_def cap_def h'_def)
    fix i1 i2 assume "i1 < cap h'" "i2 < cap h'" "valid_tid (key_at h' i1)" "key_at h' i1 = key_at h' i2"
    then show "i1 = i2" using new tid key_at_unique [OF h, of i1 i2] by (auto simp: c key keys_iff split: if_splits)
  next
    fix t assume "t \<in> keys h'"
    then consider "t = tid" | "t \<in> keys h" using keys' by auto
    then show "\<exists>d < cap h'. key_at h' (visit h' t d) = t \<and> (\<forall>e < d. key_at h' (visit h' t e) \<noteq> invalid_thread_id)"
    proof cases
      case 1
      then show ?thesis using d tid visit_less [OF shape]
        by (intro exI [of _ d]) (auto simp: c key j_def valid_tid_def)
    next
      case 2
      then obtain d' where "d' < cap h" "key_at h (visit h t d') = t" "\<forall>e < d'. key_at h (visit h t e) \<noteq> invalid_thread_id"
        using h by (auto simp: hash_ok_def)
      then show ?thesis using 2 tid old visit_less [OF shape]
        by (intro exI [of _ d']) (auto simp: c key valid_tid_def keys_iff)
    qed
  qed
  moreover have "table h' = (table h)(tid \<mapsto> v)"
  proof
    fix t
    show "table h' t = ((table h)(tid \<mapsto> v)) t"
    proof (cases "t \<in> keys h'")
      case True
      then obtain i where i: "i < cap h" "key_at h' i = t" "valid_tid t" by (auto simp: keys_iff c)
      then have "table h' t = Some (kvp_value (h_entries h' ! i))" using table_at [OF \<open>hash_ok h'\<close>, of i t] by (simp add: c)
      then show ?thesis using i old tid table_at [OF h i(1)] new by (auto simp: key val keys_iff split: if_splits)
    qed (use keys' table_None h \<open>hash_ok h'\<close> in auto)
  qed
  ultimately show ?thesis using run keys' c by blast
qed

text \<open>
  Where no thread ever leaves, the used slots are as many as the keys, so a table with fewer keys
  than slots has room.
\<close>

definition no_marks :: "ImplicitProducerHash \<Rightarrow> bool" where
  "no_marks h \<longleftrightarrow> (\<forall>j < cap h. key_at h j \<noteq> invalid_thread_id2)"

lemma finite_keys: "finite (keys h)"
  by (simp add: keys_def)

lemma room_by_count:
  assumes h: "hash_ok h" and "no_marks h" and "card (keys h) < cap h"
  shows "has_room h"
proof (rule ccontr)
  assume "\<not> has_room h"
  then have valid: "valid_tid (key_at h j)" if "j < cap h" for j
    using that assms(2) by (auto simp: has_room_def no_marks_def valid_tid_def)
  then have "inj_on (key_at h) {..<cap h}" using key_at_unique [OF h] by (auto simp: inj_on_def)
  then have "card (key_at h ` {..<cap h}) = cap h" by (simp add: card_image)
  moreover have "key_at h ` {..<cap h} \<subseteq> keys h" using valid by (auto simp: keys_iff)
  ultimately have "cap h \<le> card (keys h)" using card_mono [OF finite_keys] by metis
  with assms(3) show False by simp
qed

lemma claim_no_marks:
  assumes h: "hash_ok h" and "no_marks h" and "valid_tid tid" and run: "hash_claim f tls tid v h i = Ret h'"
  shows "no_marks h'"
proof -
  have "\<exists>j. h' = h\<lparr>h_entries := (h_entries h)[j := \<lparr>kvp_key = tid, kvp_value = v\<rparr>]\<rparr>" using run
    by (induction f arbitrary: i) (auto simp: Let_def nth_out_def and_then_eq_Ret split: if_splits)
  then obtain j where "h' = h\<lparr>h_entries := (h_entries h)[j := \<lparr>kvp_key = tid, kvp_value = v\<rparr>]\<rparr>" by blast
  moreover have "length (h_entries h) = cap h" using h by (simp add: hash_ok_def hash_shape_def)
  ultimately show ?thesis using assms(2,3)
    by (cases "j < cap h") (auto simp: no_marks_def cap_def valid_tid_def nth_list_update split: if_split_asm)
qed

section \<open>The chain of tables\<close>

fun tables :: "ImplicitProducerHash list \<Rightarrow> 64 word \<Rightarrow> nat option option" where
  "tables [] = Map.empty"
| "tables (h # hs) = tables hs ++ table h"

text \<open>A search through the chain reads the map of the chain; the depth tells whether the newest table has the key.\<close>

lemma find_spec:
  assumes "\<forall>h \<in> set hs. hash_ok h \<and> has_room h \<and> cap h \<le> f" and tid: "valid_tid tid"
  shows "\<exists>r. hash_find f tid hs = Ret r \<and> map_option snd r = tables hs tid \<and>
    (\<forall>h hs'. hs = h # hs' \<longrightarrow> (\<exists>v. r = Some (0, v)) \<longleftrightarrow> tid \<in> keys h)"
  using assms(1)
proof (induction hs)
  case (Cons h hs)
  obtain r where r: "hash_find f tid hs = Ret r" "map_option snd r = tables hs tid" using Cons by auto
  have h: "hash_ok h" "has_room h" "cap h \<le> f" using Cons.prems by auto
  show ?case
  proof (cases "tid \<in> keys h")
    case True
    then obtain j where "j < cap h" "hash_probe f tid h (hash_thread_id tid) = Ret (Some j)" "key_at h j = tid"
      using probe_spec(1) [OF h(1,2) tid h(3)] by blast
    with table_at [OF h(1) _ _ tid, of j] True show ?thesis by simp
  next
    case False
    have "hash_probe f tid h (hash_thread_id tid) = Ret None" using probe_spec(2) [OF h(1,2) tid h(3) False] .
    with r False table_None [OF h(1) False] show ?thesis by (cases r) (auto simp: map_add_def)
  qed
qed simp

lemma empty_hash_ok:
  assumes "hash_shape (empty_hash c)"
  shows "hash_ok (empty_hash c)" "keys (empty_hash c) = {}" "no_marks (empty_hash c)" "table (empty_hash c) = Map.empty"
proof -
  have key: "key_at (empty_hash c) j = invalid_thread_id" if "j < cap (empty_hash c)" for j
    using that by (simp add: empty_hash_def cap_def)
  then show k: "keys (empty_hash c) = {}" by (auto simp: keys_iff valid_tid_def)
  show ok: "hash_ok (empty_hash c)" using assms key k by (simp add: hash_ok_def valid_tid_def)
  show "no_marks (empty_hash c)" using key by (auto simp: no_marks_def invalid_thread_id_def invalid_thread_id2_def)
  show "table (empty_hash c) = Map.empty" using dom_table [OF ok] k by simp
qed

lemma empty_hash_shape: "k < 64 \<Longrightarrow> hash_shape (empty_hash (2 ^ k))"
  by (auto simp: hash_shape_def empty_hash_def cap_def)

text \<open>The capacity of a new table: a power of two, more than twice the number of threads.\<close>

lemma grow_capacity_spec:
  assumes "2 * unat n < 2 ^ 63" and "k < 64" and "64 - k \<le> f"
  shows "\<exists>j. k \<le> j \<and> j < 64 \<and> grow_capacity f n (2 ^ k) = Ret (2 ^ j) \<and> 2 * unat n < 2 ^ j \<and>
    (2 ^ j \<le> (2 :: nat) ^ k \<or> 2 ^ j \<le> 4 * unat n + 2)"
  using assms(2-)
proof (induction f arbitrary: k)
  case (Suc f)
  have half: "unat (drop_bit 1 (2 ^ k :: 64 word)) = 2 ^ k div 2" using Suc.prems unfolding unat_drop_bit_eq unat_pow2 [OF Suc.prems(1)] by (simp add: drop_bit_eq_div)
  show ?case
  proof (cases "n \<ge> drop_bit 1 (2 ^ k)")
    case True
    then have "2 ^ k div 2 \<le> unat n" using half by (simp add: word_le_nat_alt)
    then have "(2 :: nat) ^ k \<le> 2 * unat n + 1" by linarith
    then have "(2 :: nat) ^ k < 2 ^ 63" using assms(1) by (cases k) (auto simp: le_less)
    then have k: "k < 63" using power_less_imp_less_exp [of "2 :: nat" k 63] by simp
    have "64 - Suc k \<le> f" using k Suc.prems(2) by linarith
    from Suc.IH [OF _ this] k obtain j where "Suc k \<le> j" "j < 64" "grow_capacity f n (2 ^ Suc k) = Ret (2 ^ j)" "2 * unat n < 2 ^ j"
        "2 ^ j \<le> (2 :: nat) ^ Suc k \<or> 2 ^ j \<le> 4 * unat n + 2"
      by auto
    moreover from this(5) have "2 ^ j \<le> 4 * unat n + 2" using \<open>2 ^ k \<le> 2 * unat n + 1\<close> by auto
    ultimately show ?thesis using True by (intro exI [of _ j]) (simp add: push_bit_eq_mult mult.commute)
  next
    case False
    then have "unat n < 2 ^ k div 2" using half by (simp add: word_le_nat_alt not_le)
    then show ?thesis using False Suc.prems by (intro exI [of _ k]) auto
  qed
qed simp

end
