(* ===== verification/CQ_Implicit_Proof.thy ===== *)
theory CQ_Implicit_Proof
  imports CQ_Implicit
begin

text \<open>
  The invariant of an implicit producer and what \<open>enqueue\<close> and \<open>dequeue\<close> do to its content. The
  wrapping indices stand for unbounded counters \<open>H \<le> Tl\<close>; \<open>blk j\<close> is the block with number \<open>j\<close> and
  \<open>ctn i\<close> the element with index \<open>i\<close>.
\<close>

section \<open>Inserting into the block index\<close>

text \<open>An entry reserved for block number \<open>N\<close> in a producer \<open>p0\<close>, on its way to \<open>p'\<close>.\<close>

definition reserved ::
  "traits \<Rightarrow> implicit_producer \<Rightarrow> nat \<Rightarrow> nat \<Rightarrow> (nat \<Rightarrow> nat) \<Rightarrow> nat \<Rightarrow> implicit_producer \<Rightarrow> bool" where
  "reserved T p0 L N blk e p' \<longleftrightarrow>
     (\<exists>h hs t. blockIndex p0 = h # hs \<and> index_ok T h (entries p0) L N blk \<and> L \<le> N \<and>
        nextBlockIndexCapacity p0 = push_bit 1 (capacity h) \<and>
        e = index h ! (Suc (unat (bi_tail h)) mod unat (capacity h)) \<and>
        (entry_key (entries p0 ! e) = INVALID_BLOCK_BASE \<or> entry_value (entries p0 ! e) = None) \<and>
        t = (bi_tail h + 1) AND (capacity h - 1) \<and>
        p' = set_index_tail t (set_entry e ((entries p0 ! e)\<lparr>entry_key := of_nat (N * bsz T)\<rparr>) p0))"

definition indexed :: "traits \<Rightarrow> implicit_producer \<Rightarrow> nat \<Rightarrow> nat \<Rightarrow> (nat \<Rightarrow> nat) \<Rightarrow> bool" where
  "indexed T p L N blk \<longleftrightarrow>
     (\<exists>h hs. blockIndex p = h # hs \<and> index_ok T h (entries p) L N blk \<and>
        nextBlockIndexCapacity p = push_bit 1 (capacity h))"

text \<open>Two producers that differ at most in the block index.\<close>

definition same_base :: "implicit_producer \<Rightarrow> implicit_producer \<Rightarrow> bool" where
  "same_base p q \<longleftrightarrow> producer.truncate p = producer.truncate q"

lemma same_base_simps:
  assumes "same_base p q"
  shows "tailIndex p = tailIndex q" "headIndex p = headIndex q" "tailBlock p = tailBlock q"
    "dequeueOptimisticCount p = dequeueOptimisticCount q" "dequeueOvercommit p = dequeueOvercommit q"
    "p_next p = p_next q" "p_inactive p = p_inactive q" "p_token p = p_token q" "isExplicit p = isExplicit q"
  using assms by (simp_all add: same_base_def producer.truncate_def)

lemma same_base_refl [simp]: "same_base p p"
  by (simp add: same_base_def)

lemma same_base_trans: "same_base p q \<Longrightarrow> same_base q r \<Longrightarrow> same_base p r"
  by (simp add: same_base_def)

lemma same_base_updates [simp]:
  "same_base (p\<lparr>entries := es\<rparr>) q = same_base p q" "same_base (p\<lparr>blockIndex := bi\<rparr>) q = same_base p q"
  "same_base (p\<lparr>nextBlockIndexCapacity := c\<rparr>) q = same_base p q" "same_base (set_entry e en p) q = same_base p q"
  "same_base (set_entry_value e v p) q = same_base p q" "same_base (set_index_tail t p) q = same_base p q"
  by (simp_all add: same_base_def producer.truncate_def set_entry_def set_entry_value_def set_index_tail_def split: list.split)

lemma new_block_index_grow:
  assumes T: "traits_ok T" and ix: "blockIndex p = h # hs" "index_ok T h (entries p) L N blk"
      "nextBlockIndexCapacity p = push_bit 1 (capacity h)"
    and big: "2 * unat (capacity h) * bsz T \<le> 2 ^ 64"
  shows "new_block_index p m = (False, p, m\<lparr>mallocs := Suc (mallocs m)\<rparr>) \<or>
    (\<exists>p1 h1. new_block_index p m = (True, p1, m\<lparr>mallocs := Suc (mallocs m)\<rparr>) \<and> same_base p1 p \<and>
       blockIndex p1 = h1 # blockIndex p \<and> index_ok T h1 (entries p1) L N blk \<and>
       nextBlockIndexCapacity p1 = push_bit 1 (capacity h1) \<and>
       entry_key (entries p1 ! (index h1 ! (Suc (unat (bi_tail h1)) mod unat (capacity h1)))) = INVALID_BLOCK_BASE)"
proof (cases "malloc_ok m (mallocs m)")
  case False
  then show ?thesis by (simp add: new_block_index_def malloc_def Let_def)
next
  case True
  let ?cap = "unat (capacity h)"
  define es1 where "es1 = entries p @ replicate ?cap \<lparr>entry_key = INVALID_BLOCK_BASE, entry_value = None\<rparr>"
  define h1 where "h1 = \<lparr>capacity = push_bit 1 (capacity h), bi_tail = (capacity h - 1) AND (push_bit 1 (capacity h) - 1),
      index = copied_index h @ [length (entries p)..<length (entries p) + ?cap]\<rparr>"
  let ?p = "p\<lparr>entries := es1, blockIndex := h1 # blockIndex p, nextBlockIndexCapacity := push_bit 1 (nextBlockIndexCapacity p)\<rparr>"
  have run: "new_block_index p m = (True, ?p, m\<lparr>mallocs := Suc (mallocs m)\<rparr>)"
    using True ix(1,3) by (simp add: new_block_index_def malloc_def Let_def es1_def h1_def)
  note grow = index_grow [OF ix(2) big _ es1_def h1_def, simplified bsz_gt_1 [OF T]]
  note D = index_okD [OF ix(2)]
  have "Suc (unat (bi_tail h1)) mod unat (capacity h1) = ?cap"
    using D(1) by (simp add: grow(2,3))
  moreover have "index h1 ! ?cap = length (entries p)"
    using D(1,2) by (simp add: h1_def copied_index_rotate [OF ix(2)] nth_append)
  ultimately have "entry_key (es1 ! (index h1 ! (Suc (unat (bi_tail h1)) mod unat (capacity h1)))) = INVALID_BLOCK_BASE"
    using D(1) by (simp add: es1_def nth_append)
  with run grow(1) ix(3) show ?thesis by (simp add: h1_def)
qed

lemma not_free_full:
  assumes ok: "index_ok T h es L N blk" and "L \<le> N"
    and e: "e = index h ! (Suc (unat (bi_tail h)) mod unat (capacity h))"
    and used: "\<not> (entry_key (es ! e) = INVALID_BLOCK_BASE \<or> entry_value (es ! e) = None)"
  shows "N - L = unat (capacity h)"
proof (rule ccontr)
  let ?cap = "unat (capacity h)" and ?t = "unat (bi_tail h)"
  note D = index_okD [OF ok]
  assume "N - L \<noteq> ?cap"
  then have lt: "N - L < ?cap" using D(5) by simp
  have pos: "Suc ?t mod ?cap < ?cap" using D(1) by simp
  have "Suc ?t mod ?cap \<in> ring_pos ?cap ?t N ` {L..<N}"
  proof (rule ccontr)
    assume "Suc ?t mod ?cap \<notin> ring_pos ?cap ?t N ` {L..<N}"
    from D(8) [OF pos this] used show False unfolding e by contradiction
  qed
  then obtain j where j: "L \<le> j" "j < N" "ring_pos ?cap ?t N j = Suc ?t mod ?cap" by auto
  have "ring_pos ?cap (Suc ?t mod ?cap) (Suc N) j = ring_pos ?cap (Suc ?t mod ?cap) (Suc N) N"
    using ring_pos_Suc [of j N ?cap ?t] ring_pos_Suc_last [OF D(4), of N] j lt D(4) by simp
  then have "j = N" by (rule ring_pos_inj) (use j lt D(1) in auto)
  with j(2) show False by simp
qed

lemma cap_grows:
  assumes T: "traits_ok T" and ok: "index_ok T h es L N blk" and "(unat (capacity h) - 1) * bsz T < 2 ^ 63"
  shows "2 * unat (capacity h) * bsz T \<le> 2 ^ 64"
proof -
  obtain c where c: "unat (capacity h) = 2 ^ c" using index_ok_cap [OF ok] by blast
  obtain k where k: "bsz T = 2 ^ k" "k < 64" using bsz_pow2 [OF T] by blast
  have "(2 :: nat) ^ k \<le> 2 ^ 63" using k(2) by (intro power_increasing) auto
  moreover have "(2 :: nat) ^ (c + k) = (2 ^ c - 1) * 2 ^ k + 2 ^ k"
    by (simp add: power_add algebra_simps diff_mult_distrib)
  ultimately have "(2 :: nat) ^ (c + k) < 2 ^ 63 + 2 ^ 63" using assms(3) unfolding c k(1) by linarith
  then have "(2 :: nat) ^ (c + k) < 2 ^ 64" by simp
  then have "c + k < 64" using power_strict_increasing_iff [of "2 :: nat" "c + k" 64] by simp
  then have "(2 :: nat) ^ Suc (c + k) \<le> 2 ^ 64" by (intro power_increasing) auto
  then show ?thesis by (simp add: c k(1) power_add)
qed

lemma insert_spec:
  assumes T: "traits_ok T" and ix: "indexed T p L N blk" "L \<le> N" and room: "(N - L - 1) * bsz T < 2 ^ 63"
  shows "\<exists>m'. (m' = m \<or> m' = m\<lparr>mallocs := Suc (mallocs m)\<rparr>) \<and>
    (insert_block_index_entry mode (of_nat (N * bsz T)) p m = Ret (None, p, m') \<or>
     (\<exists>e p0 p'. insert_block_index_entry mode (of_nat (N * bsz T)) p m = Ret (Some e, p', m') \<and>
        same_base p0 p \<and> reserved T p0 L N blk e p'))"
proof -
  obtain h hs where h: "blockIndex p = h # hs" "index_ok T h (entries p) L N blk"
    "nextBlockIndexCapacity p = push_bit 1 (capacity h)" using ix(1) by (auto simp: indexed_def)
  note D = index_okD [OF h(2)]
  let ?t = "(bi_tail h + 1) AND (capacity h - 1)"
  let ?e = "index h ! (Suc (unat (bi_tail h)) mod unat (capacity h))"
  have lt: "Suc (unat (bi_tail h)) mod unat (capacity h) < unat (capacity h)" using D(1) by simp
  note acc = next_tail [OF h(2)] D(2) D(6) [OF lt] lt
  show ?thesis
  proof (cases "entry_key (entries p ! ?e) = INVALID_BLOCK_BASE \<or> entry_value (entries p ! ?e) = None")
    case True
    then have "insert_block_index_entry mode (of_nat (N * bsz T)) p m =
        Ret (Some ?e, set_index_tail ?t (set_entry ?e ((entries p ! ?e)\<lparr>entry_key := of_nat (N * bsz T)\<rparr>) p), m)"
      using acc by (simp add: insert_block_index_entry_def h(1) nth_out_def Let_def)
    moreover have "reserved T p L N blk ?e (set_index_tail ?t (set_entry ?e ((entries p ! ?e)\<lparr>entry_key := of_nat (N * bsz T)\<rparr>) p))"
      using True h ix(2) unfolding reserved_def by blast
    ultimately show ?thesis by (metis same_base_refl)
  next
    case False
    have full: "N - L = unat (capacity h)" by (rule not_free_full [OF h(2) ix(2) _ False]) simp
    then have big: "2 * unat (capacity h) * bsz T \<le> 2 ^ 64" using cap_grows [OF T h(2)] room by simp
    show ?thesis
    proof (cases "mode = CannotAlloc")
      case True
      with False acc have "insert_block_index_entry mode (of_nat (N * bsz T)) p m = Ret (None, p, m)"
        by (auto simp: insert_block_index_entry_def h(1) nth_out_def Let_def)
      then show ?thesis by blast
    next
      case alloc: False
      let ?m = "m\<lparr>mallocs := Suc (mallocs m)\<rparr>"
      consider (fail) "new_block_index p m = (False, p, ?m)"
        | (ok) p1 h1 where "new_block_index p m = (True, p1, ?m)" "same_base p1 p" "blockIndex p1 = h1 # blockIndex p"
          "index_ok T h1 (entries p1) L N blk" "nextBlockIndexCapacity p1 = push_bit 1 (capacity h1)"
          "entry_key (entries p1 ! (index h1 ! (Suc (unat (bi_tail h1)) mod unat (capacity h1)))) = INVALID_BLOCK_BASE"
        using new_block_index_grow [OF T h big] by blast
      then show ?thesis
      proof cases
        case fail
        with False alloc acc have "insert_block_index_entry mode (of_nat (N * bsz T)) p m = Ret (None, p, ?m)"
          by (auto simp: insert_block_index_entry_def h(1) nth_out_def Let_def)
        then show ?thesis by blast
      next
        case ok
        let ?t1 = "(bi_tail h1 + 1) AND (capacity h1 - 1)"
        let ?e1 = "index h1 ! (Suc (unat (bi_tail h1)) mod unat (capacity h1))"
        let ?p' = "set_index_tail ?t1 (set_entry ?e1 ((entries p1 ! ?e1)\<lparr>entry_key := of_nat (N * bsz T)\<rparr>) p1)"
        note D1 = index_okD [OF ok(4)]
        have lt1: "Suc (unat (bi_tail h1)) mod unat (capacity h1) < unat (capacity h1)" using D1(1) by simp
        have "insert_block_index_entry mode (of_nat (N * bsz T)) p m = Ret (Some ?e1, ?p', ?m)"
          using False alloc acc ok(1,3) next_tail [OF ok(4)] D1(2) D1(6) [OF lt1] lt1
          by (auto simp: insert_block_index_entry_def h(1) nth_out_def Let_def)
        moreover have "reserved T p1 L N blk ?e1 ?p'"
          using ok ix(2) unfolding reserved_def by blast
        ultimately show ?thesis using ok(2) by blast
      qed
    qed
  qed
qed

text \<open>Completing the insertion with a block, or taking it back.\<close>

lemma set_entry_value_entries:
  "e < length (entries p) \<Longrightarrow> entries (set_entry_value e v (set_index_tail t (set_entry e en p))) =
     (entries p)[e := en\<lparr>entry_value := v\<rparr>]"
  by (simp add: set_entry_value_def set_entry_def set_index_tail_def split: list.split)

lemma entry_update [simp]: "(en :: BlockIndexEntry)\<lparr>entry_key := k, entry_value := v\<rparr> = \<lparr>entry_key = k, entry_value = v\<rparr>"
  by (cases en) simp

lemma reserved_commit:
  assumes T: "traits_ok T" and "reserved T p0 L N blk e p'"
  shows "indexed T (set_entry_value e (Some b) p') L (Suc N) (blk(N := b))"
proof -
  obtain h hs t where r: "blockIndex p0 = h # hs" "index_ok T h (entries p0) L N blk" "L \<le> N"
    "nextBlockIndexCapacity p0 = push_bit 1 (capacity h)"
    "e = index h ! (Suc (unat (bi_tail h)) mod unat (capacity h))"
    "entry_key (entries p0 ! e) = INVALID_BLOCK_BASE \<or> entry_value (entries p0 ! e) = None"
    "t = (bi_tail h + 1) AND (capacity h - 1)"
    "p' = set_index_tail t (set_entry e ((entries p0 ! e)\<lparr>entry_key := of_nat (N * bsz T)\<rparr>) p0)"
    using assms(2) unfolding reserved_def by blast
  have t: "unat t = Suc (unat (bi_tail h)) mod unat (capacity h)" using next_tail [OF r(2)] r(7) by simp
  have "e < length (entries p0)" using index_okD(1,6) [OF r(2)] r(5) by simp
  then have "entries (set_entry_value e (Some b) p') =
      (entries p0)[e := \<lparr>entry_key = of_nat (N * bsz T), entry_value = Some b\<rparr>]"
    by (simp add: r(8) set_entry_value_entries)
  moreover have "blockIndex (set_entry_value e (Some b) p') = h\<lparr>bi_tail := t\<rparr> # hs"
    using r(1) by (simp add: r(8) set_entry_value_def set_entry_def set_index_tail_def)
  moreover have "nextBlockIndexCapacity (set_entry_value e (Some b) p') = push_bit 1 (capacity h)"
    using r(1,4) by (simp add: r(8) set_entry_value_def set_entry_def set_index_tail_def)
  ultimately show ?thesis
    using index_commit [OF T r(2,3,5,6) t, of b] by (simp add: indexed_def)
qed

lemma reserved_abort:
  assumes T: "traits_ok T" and "reserved T p0 L N blk e p'"
  shows "\<exists>p''. rewind_block_index_tail p' = Ret p'' \<and> indexed T (set_entry_value e None p'') L N blk \<and> same_base p'' p'"
proof -
  obtain h hs t where r: "blockIndex p0 = h # hs" "index_ok T h (entries p0) L N blk" "L \<le> N"
    "nextBlockIndexCapacity p0 = push_bit 1 (capacity h)"
    "e = index h ! (Suc (unat (bi_tail h)) mod unat (capacity h))"
    "entry_key (entries p0 ! e) = INVALID_BLOCK_BASE \<or> entry_value (entries p0 ! e) = None"
    "t = (bi_tail h + 1) AND (capacity h - 1)"
    "p' = set_index_tail t (set_entry e ((entries p0 ! e)\<lparr>entry_key := of_nat (N * bsz T)\<rparr>) p0)"
    using assms(2) unfolding reserved_def by blast
  have len: "e < length (entries p0)" using index_okD(1,6) [OF r(2)] r(5) by simp
  let ?p = "p'\<lparr>blockIndex := h # hs\<rparr>"
  have "rewind_block_index_tail p' = Ret ?p"
    using r(1) prev_tail [OF r(2,7)] by (simp add: rewind_block_index_tail_def r(8) set_entry_def set_index_tail_def)
  moreover have "entries (set_entry_value e None ?p) =
      (entries p0)[e := \<lparr>entry_key = of_nat (N * bsz T), entry_value = None\<rparr>]"
    using len r(1) by (simp add: r(8) set_entry_value_def set_entry_def set_index_tail_def)
  then have "indexed T (set_entry_value e None ?p) L N blk"
    using index_abort [OF T r(2,3,5,6), of "of_nat (N * bsz T)"] r(1,4)
    by (simp add: indexed_def r(8) set_entry_value_def set_entry_def set_index_tail_def)
  ultimately show ?thesis by (intro exI [of _ ?p]) simp
qed

section \<open>The invariant\<close>

text \<open>The number of blocks that indices below \<open>t\<close> take up.\<close>

definition nblk :: "traits \<Rightarrow> nat \<Rightarrow> nat" where
  "nblk T t = (t + bsz T - 1) div bsz T"

abbreviation live :: "traits \<Rightarrow> nat \<Rightarrow> nat \<Rightarrow> nat set" where
  "live T H Tl \<equiv> {H div bsz T..<nblk T Tl}"

text \<open>Block \<open>b\<close> holds the elements with the indices of block number \<open>j\<close> that are still in the queue.\<close>

definition block_holds :: "traits \<Rightarrow> nat \<Rightarrow> nat \<Rightarrow> (nat \<Rightarrow> 'd) \<Rightarrow> nat \<Rightarrow> 'd block \<Rightarrow> bool" where
  "block_holds T H Tl ctn j b \<longleftrightarrow>
     (\<forall>s. elements b s = (if s < bsz T \<and> H \<le> j * bsz T + s \<and> j * bsz T + s < Tl
        then Some (ctn (j * bsz T + s)) else None)) \<and>
     elementsCompletelyDequeued b = of_nat (H - j * bsz T)"

definition imp_inv ::
  "traits \<Rightarrow> implicit_producer \<Rightarrow> 'd mem \<Rightarrow> nat \<Rightarrow> nat \<Rightarrow> (nat \<Rightarrow> nat) \<Rightarrow> (nat \<Rightarrow> 'd) \<Rightarrow> bool" where
  "imp_inv T p m H Tl blk ctn \<longleftrightarrow>
     headIndex p = of_nat H \<and> tailIndex p = of_nat Tl \<and> dequeueOptimisticCount p - dequeueOvercommit p = of_nat H \<and>
     H \<le> Tl \<and> nblk T Tl * bsz T < H + 2 ^ 63 \<and>
     (Tl mod bsz T \<noteq> 0 \<longrightarrow> tailBlock p = Some (blk (Tl div bsz T))) \<and>
     inj_on blk (live T H Tl) \<and>
     (\<forall>j \<in> live T H Tl. \<exists>b. blocks m (blk j) = Some b \<and> block_holds T H Tl ctn j b) \<and>
     (if blockIndex p = [] then Tl = 0 else indexed T p (H div bsz T) (nblk T Tl) blk)"

lemma nblk_0: "0 < bsz T \<Longrightarrow> nblk T 0 = 0"
  by (simp add: nblk_def)

lemma nblk_Suc: "0 < bsz T \<Longrightarrow> nblk T (Suc Tl) = Suc (Tl div bsz T)"
  using div_add_self2 [of "bsz T" Tl] by (simp add: nblk_def)

lemma nblk_aligned: "0 < bsz T \<Longrightarrow> Tl mod bsz T = 0 \<Longrightarrow> nblk T Tl = Tl div bsz T"
  by (cases Tl) (simp_all add: nblk_0 nblk_Suc div_Suc)

lemma nblk_unaligned: "0 < bsz T \<Longrightarrow> Tl mod bsz T \<noteq> 0 \<Longrightarrow> nblk T Tl = Suc (Tl div bsz T)"
  by (cases Tl) (simp_all add: nblk_Suc div_Suc)

lemma div_le_nblk: "0 < bsz T \<Longrightarrow> H \<le> Tl \<Longrightarrow> H div bsz T \<le> nblk T Tl"
  by (metis div_le_mono nblk_aligned nblk_unaligned le_SucI)

lemma slot_nat: "traits_ok T \<Longrightarrow> slot T (of_nat i) = i mod bsz T"
  by (simp add: slot_def unat_and_block_mask)

text \<open>Adding and removing an element in a block.\<close>

lemma block_holds_add:
  assumes "block_holds T H Tl ctn j b" and "H \<le> Tl" and "j = Tl div bsz T" and "0 < bsz T"
  shows "block_holds T H (Suc Tl) (ctn(Tl := x)) j (b\<lparr>elements := (elements b)(Tl mod bsz T := Some x)\<rparr>)"
proof -
  have Tl: "j * bsz T + Tl mod bsz T = Tl" using assms(3) by simp
  have "j * bsz T + s < Suc Tl \<longleftrightarrow> j * bsz T + s < Tl \<or> s = Tl mod bsz T" for s using Tl by linarith
  moreover have "Tl mod bsz T < bsz T" using assms(4) by simp
  ultimately show ?thesis using assms Tl by (auto simp: block_holds_def)
qed

lemma block_holds_other:
  assumes "block_holds T H Tl ctn j b" and "j \<noteq> Tl div bsz T" and "0 < bsz T"
  shows "block_holds T H (Suc Tl) (ctn(Tl := x)) j b"
proof -
  have "j * bsz T + s \<noteq> Tl" if "s < bsz T" for s using that assms(2) by auto
  then have "(s < bsz T \<and> H \<le> j * bsz T + s \<and> j * bsz T + s < Suc Tl) = (s < bsz T \<and> H \<le> j * bsz T + s \<and> j * bsz T + s < Tl)" for s
    by (metis less_Suc_eq)
  with assms(1) \<open>\<And>s. s < bsz T \<Longrightarrow> j * bsz T + s \<noteq> Tl\<close> show ?thesis by (simp add: block_holds_def)
qed

lemma imp_inv_frame:
  assumes "imp_inv T p m H Tl blk ctn" and "\<And>j. j \<in> live T H Tl \<Longrightarrow> blocks m' (blk j) = blocks m (blk j)"
  shows "imp_inv T p m' H Tl blk ctn"
  using assms by (auto simp: imp_inv_def)

text \<open>The content of a sub-queue, oldest element first.\<close>

definition contents :: "nat \<Rightarrow> nat \<Rightarrow> (nat \<Rightarrow> 'd) \<Rightarrow> 'd list" where
  "contents H Tl ctn = map ctn [H..<Tl]"

lemma contents_enqueue: "H \<le> Tl \<Longrightarrow> contents H (Suc Tl) (ctn(Tl := x)) = contents H Tl ctn @ [x]"
  by (simp add: contents_def)

lemma contents_dequeue: "H < Tl \<Longrightarrow> contents H Tl ctn = ctn H # contents (Suc H) Tl ctn"
  by (simp add: contents_def upt_conv_Cons)

lemma contents_empty: "contents H Tl ctn = [] \<longleftrightarrow> Tl \<le> H"
  by (auto simp: contents_def)

section \<open>Enqueue\<close>

definition same_links :: "'a producer_scheme \<Rightarrow> 'a producer_scheme \<Rightarrow> bool" where
  "same_links p q \<longleftrightarrow> p_next p = p_next q \<and> p_inactive p = p_inactive q \<and> p_token p = p_token q \<and>
     isExplicit p = isExplicit q"

lemma same_base_links: "same_base p q \<Longrightarrow> same_links p q"
  by (simp add: same_links_def same_base_simps)

text \<open>What an \<open>enqueue\<close> that returned true has done, and what one that did not.\<close>

definition enqueued ::
  "traits \<Rightarrow> implicit_producer \<Rightarrow> 'd mem \<Rightarrow> nat \<Rightarrow> nat \<Rightarrow> (nat \<Rightarrow> nat) \<Rightarrow> (nat \<Rightarrow> 'd) \<Rightarrow> nat set \<Rightarrow> 'd \<Rightarrow>
   implicit_producer \<Rightarrow> 'd mem \<Rightarrow> bool" where
  "enqueued T p m H Tl blk ctn own x p' m' \<longleftrightarrow> same_links p' p \<and>
     (\<exists>blk'. imp_inv T p' m' H (Suc Tl) blk' (ctn(Tl := x)) \<and> mem_inv m' (own - blk ` live T H Tl \<union> blk' ` live T H (Suc Tl)) \<and>
        blk' ` live T H (Suc Tl) \<inter> (own - blk ` live T H Tl) = {} \<and>
        (\<forall>b \<in> own - blk ` live T H Tl. blocks m' b = blocks m b))"

definition unchanged ::
  "traits \<Rightarrow> implicit_producer \<Rightarrow> 'd mem \<Rightarrow> nat \<Rightarrow> nat \<Rightarrow> (nat \<Rightarrow> nat) \<Rightarrow> (nat \<Rightarrow> 'd) \<Rightarrow> nat set \<Rightarrow>
   implicit_producer \<Rightarrow> 'd mem \<Rightarrow> bool" where
  "unchanged T p m H Tl blk ctn own p' m' \<longleftrightarrow> same_links p' p \<and> imp_inv T p' m' H Tl blk ctn \<and> mem_inv m' own \<and>
     (\<forall>b \<in> own. blocks m' b = blocks m b)"

lemma imp_invD:
  assumes "imp_inv T p m H Tl blk ctn"
  shows "headIndex p = of_nat H" "tailIndex p = of_nat Tl" "dequeueOptimisticCount p - dequeueOvercommit p = of_nat H"
    "H \<le> Tl" "nblk T Tl * bsz T < H + 2 ^ 63" "Tl mod bsz T \<noteq> 0 \<Longrightarrow> tailBlock p = Some (blk (Tl div bsz T))"
    "inj_on blk (live T H Tl)"
    "\<And>j. j \<in> live T H Tl \<Longrightarrow> \<exists>b. blocks m (blk j) = Some b \<and> block_holds T H Tl ctn j b"
    "if blockIndex p = [] then Tl = 0 else indexed T p (H div bsz T) (nblk T Tl) blk"
  using assms by (auto simp: imp_inv_def)

lemma imp_inv_gap:
  assumes "imp_inv T p m H Tl blk ctn" and "0 < bsz T"
  shows "Tl - H < 2 ^ 63" and "circular_less_than (of_nat H) (of_nat Tl) \<longleftrightarrow> H < Tl"
proof -
  note I = imp_invD [OF assms(1)]
  have "x \<le> y \<Longrightarrow> y < h + c \<Longrightarrow> 0 < c \<Longrightarrow> x - h < (c :: nat)" for x y h c by arith
  moreover have "Tl \<le> nblk T Tl * bsz T" using assms(2)
    by (cases Tl) (simp_all add: nblk_Suc less_eq_Suc_le [symmetric] dividend_less_div_times)
  ultimately show gap: "Tl - H < 2 ^ 63" using I(5) by (metis zero_less_numeral zero_less_power)
  show "circular_less_than (of_nat H) (of_nat Tl) \<longleftrightarrow> H < Tl"
    using circular_less_than_ahead [of H Tl] I(4) gap by auto
qed

lemma construct_Ret:
  "traits_ok T \<Longrightarrow> blocks m b = Some bl \<Longrightarrow> construct T (of_nat i) x b m =
     Ret (put_block b (bl\<lparr>elements := (elements bl)(i mod bsz T := Some x)\<rparr>) m)"
  by (simp add: construct_def with_block_def slot_nat)

lemma enqueue_mid_block:
  assumes T: "traits_ok T" and inv: "imp_inv T p m H Tl blk ctn" and mem: "mem_inv m own"
    and sub: "blk ` live T H Tl \<subseteq> own" and mid: "Tl mod bsz T \<noteq> 0"
  shows "\<exists>b m'. tailBlock p = Some b \<and> construct T (of_nat Tl) x b m = Ret m' \<and>
    enqueued T p m H Tl blk ctn own x (p\<lparr>tailIndex := 1 + tailIndex p\<rparr>) m'"
proof -
  note I = imp_invD [OF inv] and bs = bsz_gt_1(2) [OF T]
  let ?j = "Tl div bsz T"
  let ?b = "blk ?j"
  have N: "nblk T Tl = Suc ?j" "nblk T (Suc Tl) = Suc ?j" using mid bs by (simp_all add: nblk_unaligned nblk_Suc)
  have j: "?j \<in> live T H Tl" using div_le_mono [OF I(4), of "bsz T"] by (simp add: N)
  obtain bl where bl: "blocks m ?b = Some bl" "block_holds T H Tl ctn ?j bl" using I(8) [OF j] by blast
  have own: "?b \<in> own" using sub j by blast
  let ?bl = "bl\<lparr>elements := (elements bl)(Tl mod bsz T := Some x)\<rparr>"
  let ?m = "put_block ?b ?bl m" and ?p = "p\<lparr>tailIndex := 1 + tailIndex p\<rparr>"
  have run: "construct T (of_nat Tl) x ?b m = Ret ?m" by (rule construct_Ret [OF T bl(1)])
  have "freeListRefs ?bl = 0" using pool.used [OF mem own] bl(1) by auto
  then have mem': "mem_inv ?m own" "blocks ?m = (blocks m)(?b \<mapsto> ?bl)" using pool.put_used [OF mem own] by auto
  have holds: "\<exists>b. blocks ?m (blk i) = Some b \<and> block_holds T H (Suc Tl) (ctn(Tl := x)) i b"
    if i: "i \<in> live T H (Suc Tl)" for i
  proof (cases "i = ?j")
    case True
    then show ?thesis using mem'(2) block_holds_add [OF bl(2) I(4) refl bs] by simp
  next
    case False
    then have "blk i \<noteq> ?b" using I(7) i j by (auto simp: inj_on_def N)
    moreover obtain c where "blocks m (blk i) = Some c" "block_holds T H Tl ctn i c" using I(8) [of i] i by (auto simp: N)
    ultimately show ?thesis using mem'(2) block_holds_other [OF _ False bs] by simp
  qed
  have "imp_inv T ?p ?m H (Suc Tl) blk (ctn(Tl := x))"
    unfolding imp_inv_def
  proof (intro conjI)
    show "Suc Tl mod bsz T \<noteq> 0 \<longrightarrow> tailBlock ?p = Some (blk (Suc Tl div bsz T))"
      using I(6) [OF mid] by (simp add: div_Suc)
    show "if blockIndex ?p = [] then Suc Tl = 0 else indexed T ?p (H div bsz T) (nblk T (Suc Tl)) blk"
      using I(9) mid by (auto simp: N indexed_def split: if_splits)
    show "nblk T (Suc Tl) * bsz T < H + 2 ^ 63" using I(5) by (simp only: N)
    show "inj_on blk (live T H (Suc Tl))" using I(7) by (simp only: N)
  qed (use I holds in auto)
  moreover have "own - blk ` live T H Tl \<union> blk ` live T H (Suc Tl) = own" using sub by (auto simp: N)
  moreover have "\<forall>b \<in> own - blk ` live T H Tl. blocks ?m b = blocks m b" using mem'(2) j by auto
  ultimately have "enqueued T p m H Tl blk ctn own x ?p ?m"
    using mem'(1) unfolding enqueued_def by (intro conjI exI [of _ blk]) (auto simp: N same_links_def)
  with run I(6) [OF mid] show ?thesis by blast
qed

lemma enqueue_new_block:
  assumes T: "traits_ok T" and inv: "imp_inv T p m H Tl blk ctn" and mem: "mem_inv m2 (insert nb own)" "nb \<notin> own"
    and sub: "blk ` live T H Tl \<subseteq> own" and al: "Tl mod bsz T = 0" and room: "Tl + bsz T < H + 2 ^ 63"
    and res: "reserved T p0 (H div bsz T) (nblk T Tl) blk e p1" "same_base p0 p"
    and old: "\<forall>b \<in> own. blocks m2 b = blocks m b" and bl: "blocks m2 nb = Some bl" "blank bl" "elementsCompletelyDequeued bl = 0"
  shows "\<exists>m'. construct T (of_nat Tl) x nb m2 = Ret m' \<and>
    enqueued T p m H Tl blk ctn own x ((set_entry_value e (Some nb) p1)\<lparr>tailBlock := Some nb, tailIndex := 1 + tailIndex p\<rparr>) m'"
proof -
  note I = imp_invD [OF inv] and bs = bsz_gt_1(2) [OF T]
  let ?N = "Tl div bsz T"
  have N: "nblk T Tl = ?N" "nblk T (Suc Tl) = Suc ?N" "?N * bsz T = Tl" using al bs by (auto simp: nblk_aligned nblk_Suc)
  let ?bl = "bl\<lparr>elements := (elements bl)(Tl mod bsz T := Some x)\<rparr>"
  let ?m = "put_block nb ?bl m2" and ?blk = "blk(?N := nb)"
  let ?p = "(set_entry_value e (Some nb) p1)\<lparr>tailBlock := Some nb, tailIndex := 1 + tailIndex p\<rparr>"
  have run: "construct T (of_nat Tl) x nb m2 = Ret ?m" by (rule construct_Ret [OF T bl(1)])
  have "freeListRefs ?bl = 0" using pool.used [OF mem(1), of nb] bl(1) by auto
  then have mem': "mem_inv ?m (insert nb own)" "blocks ?m = (blocks m2)(nb \<mapsto> ?bl)" using pool.put_used [OF mem(1)] by auto
  have live': "live T H (Suc Tl) = insert ?N (live T H Tl)"
    using div_le_mono [OF I(4), of "bsz T"] by (auto simp: N)
  have "?blk ` live T H Tl = blk ` live T H Tl" by (rule image_cong) (auto simp: N)
  then have img: "?blk ` live T H (Suc Tl) = insert nb (blk ` live T H Tl)"
    unfolding live' image_insert by simp
  have new: "block_holds T H (Suc Tl) (ctn(Tl := x)) ?N ?bl"
  proof -
    have "block_holds T H Tl ctn ?N bl" using bl(2,3) I(4) by (simp add: block_holds_def blank_def N)
    then show ?thesis by (rule block_holds_add [OF _ I(4) refl bs])
  qed
  have holds: "\<exists>b. blocks ?m (?blk i) = Some b \<and> block_holds T H (Suc Tl) (ctn(Tl := x)) i b"
    if i: "i \<in> live T H (Suc Tl)" for i
  proof (cases "i = ?N")
    case True
    then show ?thesis using mem'(2) new by simp
  next
    case False
    then have i': "i \<in> live T H Tl" using i live' by auto
    then have "blk i \<in> own" using sub by blast
    moreover from this have "blk i \<noteq> nb" using mem(2) by blast
    moreover obtain c where "blocks m (blk i) = Some c" "block_holds T H Tl ctn i c" using I(8) [OF i'] by blast
    ultimately show ?thesis using mem'(2) old False block_holds_other [OF _ False bs] by auto
  qed
  have inj: "inj_on ?blk (live T H (Suc Tl))"
  proof -
    have "?N \<notin> live T H Tl" by (simp add: N)
    moreover have "nb \<notin> blk ` live T H Tl" using sub mem(2) by blast
    ultimately show ?thesis using I(7) unfolding live' by (auto simp: inj_on_def)
  qed
  have base: "same_base (set_entry_value e (Some nb) p1) p"
    using res by (auto simp: reserved_def same_base_trans [of _ p0])
  note sb = same_base_simps [OF base]
  have ix: "indexed T ?p (H div bsz T) (Suc ?N) ?blk"
    using reserved_commit [OF T res(1), of nb] unfolding N indexed_def by simp
  have "imp_inv T ?p ?m H (Suc Tl) ?blk (ctn(Tl := x))"
    unfolding imp_inv_def
  proof (intro conjI)
    show "nblk T (Suc Tl) * bsz T < H + 2 ^ 63" using room N by simp
    show "if blockIndex ?p = [] then Suc Tl = 0 else indexed T ?p (H div bsz T) (nblk T (Suc Tl)) ?blk"
      using ix by (auto simp: N indexed_def)
    show "Suc Tl mod bsz T \<noteq> 0 \<longrightarrow> tailBlock ?p = Some (?blk (Suc Tl div bsz T))" by (simp add: div_Suc)
  qed (use sb I inj holds in auto)
  moreover have "own - blk ` live T H Tl \<union> ?blk ` live T H (Suc Tl) = insert nb own" using sub img by auto
  moreover have "\<forall>b \<in> own - blk ` live T H Tl. blocks ?m b = blocks m b" using mem'(2) old mem(2) by auto
  moreover have "same_links ?p p" using same_base_links [OF base] by (simp add: same_links_def)
  ultimately have "enqueued T p m H Tl blk ctn own x ?p ?m"
    using mem' mem(2) img unfolding enqueued_def by (intro conjI exI [of _ ?blk]) auto
  with run show ?thesis by blast
qed

lemma not_full_room:
  assumes T: "traits_ok T" and "Tl < H + 2 ^ 63" "H \<le> Tl" and "\<not> subqueue_full T (of_nat H) (of_nat Tl)"
  shows "Tl + bsz T < H + 2 ^ 63"
proof -
  obtain k where k: "bsz T = 2 ^ k" "k < 64" using bsz_pow2 [OF T] by blast
  have "(2 :: nat) ^ k \<le> 2 ^ 63" using k(2) by (intro power_increasing) auto
  then have "Tl + bsz T - H < 2 ^ 64" using assms(2) k(1) by simp
  moreover have "circular_less_than (of_nat H) (of_nat (Tl + bsz T))" using assms(4) by (simp add: subqueue_full_def)
  ultimately have "Tl + bsz T - H < 2 ^ 63" using circular_less_than_ahead [of H "Tl + bsz T"] assms(3) by simp
  then show ?thesis using assms(3) by linarith
qed

lemma imp_inv_reindex:
  assumes inv: "imp_inv T p m H Tl blk ctn" and "same_base q p" and "indexed T q (H div bsz T) (nblk T Tl) blk"
    and "\<forall>b \<in> blk ` live T H Tl. blocks m' b = blocks m b"
  shows "imp_inv T q m' H Tl blk ctn"
  using inv assms(3,4) unfolding imp_inv_def same_base_simps [OF assms(2)] by (auto simp: indexed_def)

lemma diff_below: "h < a \<Longrightarrow> x < h + c \<Longrightarrow> 0 < c \<Longrightarrow> x - a < (c :: nat)"
  by arith

lemma index_gap: "0 < bsz T \<Longrightarrow> N * bsz T < H + 2 ^ 63 \<Longrightarrow> (N - H div bsz T - 1) * bsz T < 2 ^ 63"
proof -
  assume "0 < bsz T" and lt: "N * bsz T < H + 2 ^ 63"
  then have "H < Suc (H div bsz T) * bsz T" using dividend_less_div_times [of "bsz T" H] by simp
  then have "N * bsz T - Suc (H div bsz T) * bsz T < 2 ^ 63" using lt by (rule diff_below) simp
  moreover have "(N - H div bsz T - 1) * bsz T = N * bsz T - Suc (H div bsz T) * bsz T" by (simp add: diff_mult_distrib)
  ultimately show ?thesis by (simp only:)
qed

text \<open>What follows the insertion of the index entry in \<open>enqueue\<close>.\<close>

lemma enqueue_inserted:
  assumes T: "traits_ok T" and inv: "imp_inv T p m H Tl blk ctn" and mem: "mem_inv m1 own" "blocks m1 = blocks m"
    and sub: "blk ` live T H Tl \<subseteq> own" and al: "Tl mod bsz T = 0" and fits: "Tl + bsz T < H + 2 ^ 63"
    and res: "same_base p0 p" "reserved T p0 (H div bsz T) (nblk T Tl) blk e p1"
    and full: "\<not> subqueue_full T (headIndex p) (of_nat Tl)"
    and ins: "insert_block_index_entry mode (of_nat Tl) p m = Ret (Some e, p1, m1)"
  shows "\<exists>r p' m'. implicit_enqueue T E mode x p m = Ret (r, p', m') \<and>
    (r = Val True \<and> \<not> raises E x \<and> enqueued T p m H Tl blk ctn own x p' m' \<or>
     (r = Val False \<or> r = Exc \<and> raises E x) \<and> unchanged T p m H Tl blk ctn own p' m')"
proof -
  note I = imp_invD [OF inv]
  note run = implicit_enqueue_def I(2) aligned_iff [OF T] al full ins with_block_def Let_def
  obtain p2 where p2: "rewind_block_index_tail p1 = Ret p2"
    "indexed T (set_entry_value e None p2) (H div bsz T) (nblk T Tl) blk" "same_base p2 p1"
    using reserved_abort [OF T res(2)] by blast
  have "same_base p1 p" using res by (auto simp: reserved_def)
  then have base: "same_base (set_entry_value e None p2) p" using p2(3) by (simp add: same_base_trans [of p2 p1])
  have undo: "unchanged T p m H Tl blk ctn own (set_entry_value e None p2) m'"
    if "mem_inv m' own" "\<forall>b \<in> own. blocks m' b = blocks m b" for m'
    using imp_inv_reindex [OF inv base p2(2), of m'] that sub same_base_links [OF base] by (auto simp: unchanged_def)
  obtain r m2 where r: "requisition_block mode m1 = Ret (r, m2)" using pool.get_returns [OF mem(1)] by blast
  show ?thesis
  proof (cases r)
    case None
    have "unchanged T p m H Tl blk ctn own (set_entry_value e None p2) m2"
      using pool.get_none [OF mem(1) r [unfolded None]] mem(2) by (intro undo) auto
    then show ?thesis using r None p2(1) by (simp add: run)
  next
    case (Some nb)
    obtain bl where g: "nb \<notin> own" "mem_inv m2 (insert nb own)" "\<forall>b \<in> own. blocks m2 b = blocks m b"
      "blocks m2 nb = Some bl" "blank bl" "freeListRefs bl = 0"
      using pool.get_some [OF mem(1) r [unfolded Some]] unfolding mem(2) by blast
    let ?bl = "reset_empty T implicit_context bl"
    let ?m3 = "put_block nb ?bl m2"
    have reset: "?bl = bl\<lparr>elementsCompletelyDequeued := 0\<rparr>" by (simp add: reset_empty_def by_flags_def)
    have m3: "mem_inv ?m3 (insert nb own)" "blocks ?m3 = (blocks m2)(nb \<mapsto> ?bl)"
      using pool.put_used [OF g(2), of nb ?bl] g(6) by (auto simp: reset)
    have old: "\<forall>b \<in> own. blocks ?m3 b = blocks m b" using g(1,3) m3(2) by auto
    obtain m4 where m4: "construct T (of_nat Tl) x nb ?m3 = Ret m4"
      "enqueued T p m H Tl blk ctn own x ((set_entry_value e (Some nb) p1)\<lparr>tailBlock := Some nb, tailIndex := 1 + tailIndex p\<rparr>) m4"
      using enqueue_new_block [OF T inv m3(1) g(1) sub al fits res(2,1) old, of ?bl x] g(5) m3(2)
      by (auto simp: reset blank_def)
    show ?thesis
    proof (cases "raises E x")
      case False
      then show ?thesis using r Some g(4) m4 by (simp add: run)
    next
      case True
      then have noex: "\<not> ctor_noexcept E" by (simp add: raises_def)
      have "blank ?bl" "insert nb own - {nb} = own" using g(1,5) by (auto simp: reset blank_def)
      then obtain m5 where m5: "add_block_to_free_list nb ?m3 = Ret m5" "mem_inv m5 own" "\<forall>b \<in> own. blocks m5 b = blocks ?m3 b"
        using pool.give_back [OF m3(1), of nb ?bl] m3(2) by auto
      then have "unchanged T p m H Tl blk ctn own (set_entry_value e None p2) m5" using old by (intro undo) auto
      then show ?thesis using r Some g(4) True noex p2(1) m5(1) by (simp add: run)
    qed
  qed
qed

text \<open>The branch that starts a new block.\<close>

lemma enqueue_aligned:
  assumes T: "traits_ok T" and inv: "imp_inv T p m H Tl blk ctn" and mem: "mem_inv m own"
    and sub: "blk ` live T H Tl \<subseteq> own" and al: "Tl mod bsz T = 0"
    and room: "\<not> (subqueue_full T (headIndex p) (tailIndex p) \<or> blockIndex p = [])"
  shows "\<exists>r p' m'. implicit_enqueue T E mode x p m = Ret (r, p', m') \<and>
    (r = Val True \<and> \<not> raises E x \<and> enqueued T p m H Tl blk ctn own x p' m' \<or>
     (r = Val False \<or> r = Exc \<and> raises E x) \<and> unchanged T p m H Tl blk ctn own p' m')"
proof -
  note I = imp_invD [OF inv] and bs = bsz_gt_1(2) [OF T]
  let ?L = "H div bsz T" and ?N = "nblk T Tl"
  have N: "?N = Tl div bsz T" "?N * bsz T = Tl" using al bs by (auto simp: nblk_aligned)
  have ix: "indexed T p ?L ?N blk" and fits: "Tl + bsz T < H + 2 ^ 63"
    using I(9) room not_full_room [OF T _ I(4)] I(1,2,5) N(2) by auto
  have LN: "?L \<le> ?N" by (rule div_le_nblk [OF bs I(4)])
  have gap: "(?N - ?L - 1) * bsz T < 2 ^ 63" by (rule index_gap [OF bs I(5)])
  obtain m1 where m1: "m1 = m \<or> m1 = m\<lparr>mallocs := Suc (mallocs m)\<rparr>" and
    ins: "insert_block_index_entry mode (of_nat (?N * bsz T)) p m = Ret (None, p, m1) \<or>
     (\<exists>e p0 p1. insert_block_index_entry mode (of_nat (?N * bsz T)) p m = Ret (Some e, p1, m1) \<and>
        same_base p0 p \<and> reserved T p0 ?L ?N blk e p1)"
    using insert_spec [OF T ix LN gap, of m mode] by (elim exE conjE) (rule that)
  have mem1: "mem_inv m1 own" "blocks m1 = blocks m" using m1 mem by auto
  have full: "\<not> subqueue_full T (headIndex p) (of_nat Tl)" using room I(2) by simp
  from ins show ?thesis
  proof (elim disjE exE conjE)
    assume "insert_block_index_entry mode (of_nat (?N * bsz T)) p m = Ret (None, p, m1)"
    then have "implicit_enqueue T E mode x p m = Ret (Val False, p, m1)"
      using al full by (simp add: implicit_enqueue_def I(2) N(2) aligned_iff [OF T] Let_def)
    moreover have "imp_inv T p m1 H Tl blk ctn" by (rule imp_inv_frame [OF inv]) (simp add: mem1)
    ultimately show ?thesis using mem1 by (auto simp: unchanged_def same_links_def)
  next
    fix e p0 p1
    assume ins: "insert_block_index_entry mode (of_nat (?N * bsz T)) p m = Ret (Some e, p1, m1)"
      and res: "same_base p0 p" "reserved T p0 ?L ?N blk e p1"
    from enqueue_inserted [OF T inv mem1 sub al fits res full ins [unfolded N(2)]] show ?thesis .
  qed
qed

lemma implicit_enqueue_spec:
  assumes T: "traits_ok T" and inv: "imp_inv T p m H Tl blk ctn" and mem: "mem_inv m own"
    and sub: "blk ` live T H Tl \<subseteq> own"
  shows "\<exists>r p' m'. implicit_enqueue T E mode x p m = Ret (r, p', m') \<and>
    (r = Val True \<and> \<not> raises E x \<and> enqueued T p m H Tl blk ctn own x p' m' \<or>
     (r = Val False \<or> r = Exc \<and> raises E x) \<and> unchanged T p m H Tl blk ctn own p' m')"
proof -
  note I = imp_invD [OF inv] and bs = bsz_gt_1(2) [OF T]
  have idle: "unchanged T p m H Tl blk ctn own p m" using inv mem by (simp add: unchanged_def same_links_def)
  show ?thesis
  proof (cases "Tl mod bsz T = 0")
    case False
    obtain b m' where b: "tailBlock p = Some b" "construct T (of_nat Tl) x b m = Ret m'"
      "enqueued T p m H Tl blk ctn own x (p\<lparr>tailIndex := 1 + tailIndex p\<rparr>) m'"
      using enqueue_mid_block [OF T inv mem sub False, of x] by blast
    have run: "implicit_enqueue T E mode x p m = Ret (if raises E x then (Exc, p, m) else (Val True, p\<lparr>tailIndex := 1 + tailIndex p\<rparr>, m'))"
      using b(1,2) False by (simp add: implicit_enqueue_def I(2) aligned_iff [OF T])
    show ?thesis
    proof (cases "raises E x")
      case True
      then have "implicit_enqueue T E mode x p m = Ret (Exc, p, m)" using run by simp
      with idle True show ?thesis by (intro exI [of _ Exc] exI [of _ p] exI [of _ m]) simp
    next
      case False
      then have "implicit_enqueue T E mode x p m = Ret (Val True, p\<lparr>tailIndex := 1 + tailIndex p\<rparr>, m')" using run by simp
      with b(3) False show ?thesis by (intro exI [of _ "Val True"] exI [of _ "p\<lparr>tailIndex := 1 + tailIndex p\<rparr>"] exI [of _ m']) simp
    qed
  next
    case al: True
    show ?thesis
    proof (cases "subqueue_full T (headIndex p) (tailIndex p) \<or> blockIndex p = []")
      case True
      then have "implicit_enqueue T E mode x p m = Ret (Val False, p, m)"
        using al by (auto simp: implicit_enqueue_def I(2) aligned_iff [OF T] insert_block_index_entry_def Let_def)
      with idle show ?thesis by (intro exI [of _ "Val False"] exI [of _ p] exI [of _ m]) simp
    next
      case False
      from enqueue_aligned [OF T inv mem sub al False] show ?thesis .
    qed
  qed
qed

section \<open>Dequeue\<close>

lemma block_holds_drop:
  assumes "block_holds T H Tl ctn j b" and "j = H div bsz T" and "0 < bsz T"
  shows "block_holds T (Suc H) Tl ctn j
    (b\<lparr>elements := (elements b)(H mod bsz T := None), elementsCompletelyDequeued := elementsCompletelyDequeued b + 1\<rparr>)"
proof -
  have H: "j * bsz T + H mod bsz T = H" using assms(2) by simp
  have "Suc H \<le> j * bsz T + s \<longleftrightarrow> H \<le> j * bsz T + s \<and> s \<noteq> H mod bsz T" for s using H by linarith
  moreover have "Suc H - j * bsz T = Suc (H - j * bsz T)" using H by linarith
  ultimately show ?thesis using assms by (auto simp: block_holds_def)
qed

lemma block_holds_later:
  assumes "block_holds T H Tl ctn i b" and "H div bsz T < i" and "0 < bsz T"
  shows "block_holds T (Suc H) Tl ctn i b"
proof -
  have "H < i * bsz T" using assms(2,3) by (simp add: div_less_iff_less_mult)
  moreover from this have "Suc H \<le> i * bsz T + s \<longleftrightarrow> H \<le> i * bsz T + s" for s by linarith
  ultimately show ?thesis using assms(1) by (simp add: block_holds_def)
qed

text \<open>The state of the producer and the memory after one element has left.\<close>

definition dequeued ::
  "traits \<Rightarrow> implicit_producer \<Rightarrow> 'd mem \<Rightarrow> nat \<Rightarrow> nat \<Rightarrow> (nat \<Rightarrow> nat) \<Rightarrow> (nat \<Rightarrow> 'd) \<Rightarrow> nat set \<Rightarrow>
   implicit_producer \<Rightarrow> 'd mem \<Rightarrow> bool" where
  "dequeued T p m H Tl blk ctn own p' m' \<longleftrightarrow> same_links p' p \<and> imp_inv T p' m' (Suc H) Tl blk ctn \<and>
     mem_inv m' (own - blk ` live T H Tl \<union> blk ` live T (Suc H) Tl) \<and>
     (\<forall>b \<in> own - blk ` live T H Tl. blocks m' b = blocks m b)"

lemma live_Suc:
  assumes "H < Tl" and "0 < bsz T"
  shows "H div bsz T \<in> live T H Tl"
    and "live T (Suc H) Tl = (if H mod bsz T = bsz T - 1 then live T H Tl - {H div bsz T} else live T H Tl)"
proof -
  have "H div bsz T \<le> (Tl - 1) div bsz T" using assms(1) by (intro div_le_mono) simp
  moreover have "nblk T Tl = Suc ((Tl - 1) div bsz T)" using nblk_Suc [OF assms(2), of "Tl - 1"] assms(1) by simp
  ultimately show "H div bsz T \<in> live T H Tl" by simp
  have "Suc (H mod bsz T) = bsz T \<longleftrightarrow> H mod bsz T = bsz T - 1" using assms(2) by linarith
  then show "live T (Suc H) Tl = (if H mod bsz T = bsz T - 1 then live T H Tl - {H div bsz T} else live T H Tl)"
    by (auto simp: div_Suc mod_Suc)
qed

lemma destruct_Ret:
  "traits_ok T \<Longrightarrow> blocks m b = Some bl \<Longrightarrow> elements bl (i mod bsz T) \<noteq> None \<Longrightarrow> destruct T (of_nat i) b m =
     Ret (put_block b (bl\<lparr>elements := (elements bl)(i mod bsz T := None)\<rparr>) m)"
  by (auto simp: destruct_def with_block_def slot_nat)

lemma last_of_block:
  assumes T: "traits_ok T" and "block_holds T H Tl ctn (H div bsz T) bl"
  shows "elementsCompletelyDequeued bl = BLOCK_SIZE T - 1 \<longleftrightarrow> H mod bsz T = bsz T - 1"
proof -
  have lt: "H mod bsz T < bsz T" "bsz T < 2 ^ 64" using bsz_gt_1(2) [OF T] unat_lt_64 by auto
  have "elementsCompletelyDequeued bl = of_nat (H mod bsz T)"
    using assms(2) by (simp add: block_holds_def minus_div_mult_eq_mod)
  moreover have "BLOCK_SIZE T - 1 = of_nat (bsz T - 1)" using bsz_gt_1(2) [OF T] by (simp add: of_nat_diff)
  moreover have "H mod bsz T < 2 ^ 64" "bsz T - 1 < 2 ^ 64" using lt by linarith+
  ultimately show ?thesis by (metis unat_of_nat_64)
qed

text \<open>Giving the slot back, in both cases.\<close>

lemma release_slot_spec:
  assumes T: "traits_ok T" and inv: "imp_inv T p m H Tl blk ctn" and mem: "mem_inv m own"
    and sub: "blk ` live T H Tl \<subseteq> own" and lt: "H < Tl"
    and q: "q = p\<lparr>dequeueOptimisticCount := dequeueOptimisticCount p + 1, headIndex := headIndex p + 1\<rparr>"
    and h: "blockIndex p = h # hs" "index_ok T h (entries p) (H div bsz T) (nblk T Tl) blk"
      "nextBlockIndexCapacity p = push_bit 1 (capacity h)"
    and e: "e = index h ! ring_pos (unat (capacity h)) (unat (bi_tail h)) (nblk T Tl) (H div bsz T)"
  shows "\<exists>p' m'. release_slot T (of_nat H) e (blk (H div bsz T)) q m = Ret (p', m') \<and>
    dequeued T p m H Tl blk ctn own p' m'"
proof -
  note I = imp_invD [OF inv] and bs = bsz_gt_1(2) [OF T]
  note live = live_Suc [OF lt bs]
  let ?j = "H div bsz T"
  let ?b = "blk ?j"
  obtain bl where bl: "blocks m ?b = Some bl" "block_holds T H Tl ctn ?j bl" using I(8) [OF live(1)] by blast
  have own: "?b \<in> own" using sub live(1) by blast
  define bl' where "bl' = bl\<lparr>elements := (elements bl)(H mod bsz T := None),
    elementsCompletelyDequeued := elementsCompletelyDequeued bl + 1\<rparr>"
  let ?m = "put_block ?b bl' m"
  have "freeListRefs bl' = 0" using pool.used [OF mem own] bl(1) by (auto simp: bl'_def)
  then have mem': "mem_inv ?m own" "blocks ?m = (blocks m)(?b \<mapsto> bl')" using pool.put_used [OF mem own] by auto
  have holds': "block_holds T (Suc H) Tl ctn ?j bl'" unfolding bl'_def by (rule block_holds_drop [OF bl(2) refl bs])
  have there: "elements bl (H mod bsz T) \<noteq> None" using bl(2) lt bs by (simp add: block_holds_def)
  have run: "release_slot T (of_nat H) e ?b q m =
      (if H mod bsz T = bsz T - 1 then and_then (add_block_to_free_list ?b ?m) (\<lambda>m3. Ret (set_entry_value e None q, m3))
       else Ret (q, ?m))"
    using last_of_block [OF T bl(2)] bl(1)
    by (simp add: release_slot_def destruct_Ret [OF T bl(1) there] with_block_def put_block_def set_empty_def by_flags_def bl'_def Let_def)
  have other: "\<exists>c. blocks m (blk i) = Some c \<and> block_holds T (Suc H) Tl ctn i c \<and> blk i \<noteq> ?b"
    if "i \<in> live T H Tl" "i \<noteq> ?j" for i
  proof -
    have "blk i \<noteq> ?b" using I(7) that live(1) by (auto simp: inj_on_def)
    moreover have "?j < i" using that by auto
    ultimately show ?thesis using I(8) [OF that(1)] block_holds_later [OF _ _ bs] by blast
  qed
  have base: "imp_inv T p' m' (Suc H) Tl blk ctn"
    if "p' = q \<or> p' = set_entry_value e None q"
      and "indexed T p' (Suc H div bsz T) (nblk T Tl) blk"
      and hold: "\<And>i. i \<in> live T (Suc H) Tl \<Longrightarrow> \<exists>c. blocks m' (blk i) = Some c \<and> block_holds T (Suc H) Tl ctn i c" for p' m'
    unfolding imp_inv_def
  proof (intro conjI)
    show "inj_on blk (live T (Suc H) Tl)" using I(7) by (rule inj_on_subset) (simp add: live(2))
    show "dequeueOptimisticCount p' - dequeueOvercommit p' = of_nat (Suc H)"
      using that(1) I(3) by (auto simp: q set_entry_value_def set_entry_def algebra_simps)
    show "if blockIndex p' = [] then Tl = 0 else indexed T p' (Suc H div bsz T) (nblk T Tl) blk"
      using that(2) by (auto simp: indexed_def)
  qed (use that I lt in \<open>auto simp: q set_entry_value_def set_entry_def\<close>)
  have links: "same_links q p" "same_links (set_entry_value e None q) p"
    by (auto simp: same_links_def q set_entry_value_def set_entry_def)
  show ?thesis
  proof (cases "H mod bsz T = bsz T - 1")
    case True
    have div: "Suc H div bsz T = Suc ?j" using True bs by (auto simp: div_Suc mod_Suc)
    have "blank bl'"
    proof -
      have "\<not> (s < bsz T \<and> Suc H \<le> ?j * bsz T + s)" for s using True bs mod_div_mult_eq [of H "bsz T"] by linarith
      then show ?thesis using holds' by (auto simp: block_holds_def blank_def)
    qed
    then obtain m3 where m3: "add_block_to_free_list ?b ?m = Ret m3" "mem_inv m3 (own - {?b})"
      "\<forall>b \<in> own - {?b}. blocks m3 b = blocks ?m b" using pool.give_back [OF mem'(1) own, of bl'] mem'(2) by auto
    have own': "own - blk ` live T H Tl \<union> blk ` live T (Suc H) Tl = own - {?b}"
      using sub live True I(7) by (auto simp: inj_on_def)
    have "indexed T (set_entry_value e None q) (Suc H div bsz T) (nblk T Tl) blk"
      using index_drop [OF h(2) _ e] live(1) h(1,3) unfolding div
      by (simp add: indexed_def q set_entry_value_def set_entry_def)
    moreover have "\<exists>c. blocks m3 (blk i) = Some c \<and> block_holds T (Suc H) Tl ctn i c" if "i \<in> live T (Suc H) Tl" for i
    proof -
      have i: "i \<in> live T H Tl" "i \<noteq> ?j" using that True live(2) by auto
      then have "blk i \<in> own - {?b}" using sub other by blast
      then show ?thesis using m3(3) mem'(2) other [OF i] by auto
    qed
    ultimately have "imp_inv T (set_entry_value e None q) m3 (Suc H) Tl blk ctn" by (intro base) auto
    moreover have "\<forall>b \<in> own - blk ` live T H Tl. blocks m3 b = blocks m b" using m3(3) mem'(2) live(1) by auto
    ultimately show ?thesis using m3(1,2) links(2) True by (simp add: run dequeued_def own')
  next
    case False
    have div: "Suc H div bsz T = ?j" using False bs by (auto simp: div_Suc mod_Suc)
    have same: "live T (Suc H) Tl = live T H Tl" using live(2) False by simp
    have own': "own - blk ` live T H Tl \<union> blk ` live T (Suc H) Tl = own" using sub unfolding same by auto
    have "indexed T q (Suc H div bsz T) (nblk T Tl) blk" using h unfolding div by (auto simp: indexed_def q)
    moreover have "\<exists>c. blocks ?m (blk i) = Some c \<and> block_holds T (Suc H) Tl ctn i c" if "i \<in> live T (Suc H) Tl" for i
      using other [of i] that holds' mem'(2) unfolding same by (cases "i = ?j") auto
    ultimately have "imp_inv T q ?m (Suc H) Tl blk ctn" by (intro base) auto
    moreover have "\<forall>b \<in> own - blk ` live T H Tl. blocks ?m b = blocks m b" using mem'(2) live(1) by auto
    ultimately show ?thesis using mem'(1) links(1) False by (simp add: run dequeued_def own')
  qed
qed

lemma element_at_front:
  assumes T: "traits_ok T" and "blocks m b = Some bl" "block_holds T H Tl ctn (H div bsz T) bl" and "H < Tl"
  shows "element_at T (of_nat H) b m = Ret (ctn H)"
  using assms bsz_gt_1(2) [OF T] by (simp add: element_at_def with_block_def slot_nat block_holds_def)

lemma implicit_dequeue_spec:
  assumes T: "traits_ok T" and inv: "imp_inv T p m H Tl blk ctn" and mem: "mem_inv m own"
    and sub: "blk ` live T H Tl \<subseteq> own"
  shows "if H < Tl then \<exists>p' m'. implicit_dequeue T E p m = Ret (if assign_raises E (ctn H) then Exc else Val (Some (ctn H)), p', m') \<and>
      dequeued T p m H Tl blk ctn own p' m'
    else implicit_dequeue T E p m = Ret (Val None, p, m)"
proof -
  note I = imp_invD [OF inv] and bs = bsz_gt_1(2) [OF T]
  note ahead = imp_inv_gap(2) [OF inv bs]
  show ?thesis
  proof (cases "H < Tl")
    case False
    then show ?thesis using ahead I(2,3) by (simp add: implicit_dequeue_def)
  next
    case lt: True
    note live = live_Suc [OF lt bs]
    obtain h hs where h: "blockIndex p = h # hs" "index_ok T h (entries p) (H div bsz T) (nblk T Tl) blk"
      "nextBlockIndexCapacity p = push_bit 1 (capacity h)" using I(9) lt by (auto simp: indexed_def split: if_splits)
    define e where "e = index h ! ring_pos (unat (capacity h)) (unat (bi_tail h)) (nblk T Tl) (H div bsz T)"
    define q where "q = p\<lparr>dequeueOptimisticCount := dequeueOptimisticCount p + 1, headIndex := headIndex p + 1\<rparr>"
    have look: "get_block_index_entry_for_index T (of_nat H) q = Ret e"
      using lookup_ok [OF T, of q h hs] h live(1) by (simp add: q_def e_def)
    have entry: "nth_out (entries q) e = Ret \<lparr>entry_key = of_nat (H div bsz T * bsz T), entry_value = Some (blk (H div bsz T))\<rparr>"
      using index_okD(6,7) [OF h(2)] live(1) ring_pos_less index_okD(1) [OF h(2)] by (simp add: nth_out_def q_def e_def)
    obtain bl where bl: "blocks m (blk (H div bsz T)) = Some bl" "block_holds T H Tl ctn (H div bsz T) bl" using I(8) [OF live(1)] by blast
    obtain p' m' where rel: "release_slot T (of_nat H) e (blk (H div bsz T)) q m = Ret (p', m')"
      "dequeued T p m H Tl blk ctn own p' m'" using release_slot_spec [OF T inv mem sub lt q_def h e_def] by blast
    have "implicit_dequeue T E p m = Ret (if assign_raises E (ctn H) then Exc else Val (Some (ctn H)), p', m')"
      using ahead lt I(1,2,3) look entry element_at_front [OF T bl lt] rel(1)
      by (simp add: implicit_dequeue_def q_def Let_def)
    with rel(2) lt show ?thesis by auto
  qed
qed

section \<open>The sub-queue as its callers see it\<close>

text \<open>\<open>imp_holds T p m B xs\<close>: the producer holds the elements \<open>xs\<close>, oldest first, in the blocks \<open>B\<close>.\<close>

definition imp_holds :: "traits \<Rightarrow> implicit_producer \<Rightarrow> 'd mem \<Rightarrow> nat set \<Rightarrow> 'd list \<Rightarrow> bool" where
  "imp_holds T p m B xs \<longleftrightarrow>
     (\<exists>H Tl blk ctn. imp_inv T p m H Tl blk ctn \<and> B = blk ` live T H Tl \<and> xs = contents H Tl ctn)"

lemma imp_holds_frame: "imp_holds T p m B xs \<Longrightarrow> (\<And>b. b \<in> B \<Longrightarrow> blocks m' b = blocks m b) \<Longrightarrow> imp_holds T p m' B xs"
proof -
  assume "imp_holds T p m B xs" and same: "\<And>b. b \<in> B \<Longrightarrow> blocks m' b = blocks m b"
  then obtain H Tl blk ctn where inv: "imp_inv T p m H Tl blk ctn" "B = blk ` live T H Tl" "xs = contents H Tl ctn"
    unfolding imp_holds_def by blast
  have "imp_inv T p m' H Tl blk ctn" by (rule imp_inv_frame [OF inv(1)]) (use same inv(2) in blast)
  with inv(2,3) show ?thesis unfolding imp_holds_def by blast
qed

lemma implicit_enqueue_holds:
  assumes T: "traits_ok T" and "imp_holds T p m B xs" and mem: "mem_inv m own" and sub: "B \<subseteq> own"
  shows "\<exists>r p' m' B'. implicit_enqueue T E mode x p m = Ret (r, p', m') \<and>
    (r = Val True \<and> \<not> raises E x \<and> imp_holds T p' m' B' (xs @ [x]) \<or>
     (r = Val False \<or> r = Exc \<and> raises E x) \<and> imp_holds T p' m' B' xs) \<and>
    mem_inv m' (own - B \<union> B') \<and> B' \<inter> (own - B) = {} \<and> (\<forall>b \<in> own - B. blocks m' b = blocks m b) \<and> same_links p' p"
proof -
  obtain H Tl blk ctn where inv: "imp_inv T p m H Tl blk ctn" and B: "B = blk ` live T H Tl" and xs: "xs = contents H Tl ctn"
    using assms(2) by (auto simp: imp_holds_def)
  obtain r p' m' where run: "implicit_enqueue T E mode x p m = Ret (r, p', m')"
    and "r = Val True \<and> \<not> raises E x \<and> enqueued T p m H Tl blk ctn own x p' m' \<or>
     (r = Val False \<or> r = Exc \<and> raises E x) \<and> unchanged T p m H Tl blk ctn own p' m'"
    using implicit_enqueue_spec [OF T inv mem sub [unfolded B], of E mode x] by (elim exE conjE) (rule that)
  from this(2) show ?thesis
  proof (elim disjE conjE)
    assume r: "r = Val True" "\<not> raises E x" and "enqueued T p m H Tl blk ctn own x p' m'"
    then obtain blk' where e: "same_links p' p" "imp_inv T p' m' H (Suc Tl) blk' (ctn(Tl := x))"
      "mem_inv m' (own - B \<union> blk' ` live T H (Suc Tl))" "blk' ` live T H (Suc Tl) \<inter> (own - B) = {}"
      "\<forall>b \<in> own - B. blocks m' b = blocks m b" by (auto simp: enqueued_def B)
    have "imp_holds T p' m' (blk' ` live T H (Suc Tl)) (xs @ [x])"
      using e(2) contents_enqueue [OF imp_invD(4) [OF inv], of ctn x] unfolding imp_holds_def xs by metis
    with run r e(1,3-5) show ?thesis by (intro exI [of _ r] exI [of _ p'] exI [of _ m'] exI) auto
  qed (use run sub B xs in \<open>auto simp: unchanged_def imp_holds_def Un_absorb2 intro!: exI [of _ B]\<close>)
qed

lemma implicit_dequeue_holds:
  assumes T: "traits_ok T" and "imp_holds T p m B xs" and mem: "mem_inv m own" and sub: "B \<subseteq> own"
  shows "\<exists>r p' m' B'. implicit_dequeue T E p m = Ret (r, p', m') \<and>
    r = (case xs of [] \<Rightarrow> Val None | x # _ \<Rightarrow> if assign_raises E x then Exc else Val (Some x)) \<and>
    imp_holds T p' m' B' (tl xs) \<and>
    mem_inv m' (own - B \<union> B') \<and> B' \<inter> (own - B) = {} \<and> (\<forall>b \<in> own - B. blocks m' b = blocks m b) \<and> same_links p' p"
proof -
  obtain H Tl blk ctn where inv: "imp_inv T p m H Tl blk ctn" and B: "B = blk ` live T H Tl" and xs: "xs = contents H Tl ctn"
    using assms(2) by (auto simp: imp_holds_def)
  note spec = implicit_dequeue_spec [OF T inv mem sub [unfolded B], of E]
  show ?thesis
  proof (cases "H < Tl")
    case True
    then obtain p' m' where run: "implicit_dequeue T E p m = Ret (if assign_raises E (ctn H) then Exc else Val (Some (ctn H)), p', m')"
      and d: "same_links p' p" "imp_inv T p' m' (Suc H) Tl blk ctn" "mem_inv m' (own - B \<union> blk ` live T (Suc H) Tl)"
        "\<forall>b \<in> own - B. blocks m' b = blocks m b" using spec by (auto simp: dequeued_def B)
    have xs': "xs = ctn H # contents (Suc H) Tl ctn" using contents_dequeue [OF True] by (simp add: xs)
    have "blk ` live T (Suc H) Tl \<subseteq> B" unfolding B live_Suc(2) [OF True bsz_gt_1(2) [OF T]] by auto
    moreover have "imp_holds T p' m' (blk ` live T (Suc H) Tl) (tl xs)" using d(2) unfolding imp_holds_def xs' list.sel by blast
    ultimately show ?thesis using run d xs' by (intro exI [of _ p'] exI [of _ m'] exI [of _ "blk ` live T (Suc H) Tl"] exI [of _ "if assign_raises E (ctn H) then Exc else Val (Some (ctn H))"]) auto
  next
    case False
    then have "xs = []" by (simp add: xs contents_def)
    moreover have "own - B \<union> B = own" using sub by auto
    moreover have "implicit_dequeue T E p m = Ret (Val None, p, m)" using spec False by simp
    ultimately show ?thesis using assms(2) mem
      by (intro exI [of _ p] exI [of _ m] exI [of _ B] exI) (auto simp: same_links_def)
  qed
qed

lemma implicit_producer_new_holds:
  assumes T: "traits_ok T" and mem: "mem_inv m own"
  shows "\<exists>p m'. implicit_producer_new T m = (p, m') \<and> imp_holds T p m' {} [] \<and> mem_inv m' own \<and> blocks m' = blocks m"
proof -
  obtain p m' where run: "implicit_producer_new T m = (p, m')" by fastforce
  then have m': "m' = m\<lparr>mallocs := Suc (mallocs m)\<rparr>"
    by (auto simp: implicit_producer_new_def new_block_index_def malloc_def Let_def split: if_splits)
  have ix: "blockIndex p = [] \<or> indexed T p 0 0 id"
    using run index_first [OF T, of id]
    by (auto simp: implicit_producer_new_def new_block_index_def malloc_def indexed_def Let_def split: if_splits)
  have "imp_inv T p m' 0 0 id ctn" for ctn :: "nat \<Rightarrow> 'a"
    using run ix nblk_0 [OF bsz_gt_1(2) [OF T]]
    by (auto simp: imp_inv_def implicit_producer_new_def new_block_index_def malloc_def Let_def split: if_splits)
  moreover have "id ` live T 0 0 = {}" using nblk_0 [OF bsz_gt_1(2) [OF T]] by simp
  ultimately have "imp_holds T p m' {} []" unfolding imp_holds_def by (metis contents_empty le_refl)
  with run mem show ?thesis by (simp add: m')
qed

lemma implicit_size:
  assumes T: "traits_ok T" and "imp_holds T p m B xs"
  shows "producer_size_approx p = of_nat (length xs)"
proof -
  obtain H Tl blk ctn where inv: "imp_inv T p m H Tl blk ctn" and xs: "xs = contents H Tl ctn"
    using assms(2) by (auto simp: imp_holds_def)
  note I = imp_invD [OF inv]
  show ?thesis using I(1,2,4) imp_inv_gap(2) [OF inv bsz_gt_1(2) [OF T]] by (auto simp: producer_size_approx_def xs contents_def Let_def of_nat_diff)
qed

end
