(* ===== verification/CQ_Subqueue.thy ===== *)
theory CQ_Subqueue
  imports CQ_Implicit_Proof
begin

text \<open>
  The contract of a sub-queue of \<^verbatim>\<open>concurrentqueue/concurrentqueue.h\<close>, whichever kind of producer keeps
  it: an enqueue appends or leaves the content alone, a dequeue takes the oldest element, and neither
  touches the blocks of other sub-queues.
\<close>

section \<open>The contract\<close>

text \<open>\<open>moves m own B m' B'\<close>: the blocks of one sub-queue went from \<open>B\<close> to \<open>B'\<close>, the others in \<open>own\<close> are as before.\<close>

definition moves :: "'d mem \<Rightarrow> nat set \<Rightarrow> nat set \<Rightarrow> 'd mem \<Rightarrow> nat set \<Rightarrow> bool" where
  "moves m own B m' B' \<longleftrightarrow> mem_inv m' (own - B \<union> B') \<and> B' \<inter> (own - B) = {} \<and> (\<forall>b \<in> own - B. blocks m' b = blocks m b)"

lemma moves_refl: "mem_inv m own \<Longrightarrow> B \<subseteq> own \<Longrightarrow> moves m own B m B"
  by (auto simp: moves_def Un_absorb2)

lemma moves_trans:
  assumes "moves m own B m1 B1" and "moves m1 (own - B \<union> B1) B1 m2 B2"
  shows "moves m own B m2 B2"
proof -
  have eq: "own - B \<union> B1 - B1 = own - B" using assms(1) by (auto simp: moves_def)
  show ?thesis using assms unfolding moves_def eq by auto
qed

locale subqueue =
  fixes holds :: "'p \<Rightarrow> 'd mem \<Rightarrow> nat set \<Rightarrow> 'd list \<Rightarrow> bool"
    and enq :: "AllocationMode \<Rightarrow> 'd \<Rightarrow> 'p \<Rightarrow> 'd mem \<Rightarrow> (bool xres \<times> 'p \<times> 'd mem) outcome"
    and deq :: "'p \<Rightarrow> 'd mem \<Rightarrow> ('d option xres \<times> 'p \<times> 'd mem) outcome"
    and links :: "'p \<Rightarrow> 'p \<Rightarrow> bool" and E :: "'d elem_ops"
  assumes links_refl: "links p p" and links_trans: "links r q \<Longrightarrow> links q p \<Longrightarrow> links r p"
    and enq_law: "holds p m B xs \<Longrightarrow> mem_inv m own \<Longrightarrow> B \<subseteq> own \<Longrightarrow>
      \<exists>r p' m' B'. enq mode x p m = Ret (r, p', m') \<and>
        (r = Val True \<and> \<not> raises E x \<and> holds p' m' B' (xs @ [x]) \<or>
         (r = Val False \<or> r = Exc \<and> raises E x) \<and> holds p' m' B' xs) \<and> moves m own B m' B' \<and> links p' p"
    and deq_law: "holds p m B xs \<Longrightarrow> mem_inv m own \<Longrightarrow> B \<subseteq> own \<Longrightarrow>
      \<exists>r p' m' B'. deq p m = Ret (r, p', m') \<and>
        r = (case xs of [] \<Rightarrow> Val None | x # _ \<Rightarrow> if assign_raises E x then Exc else Val (Some x)) \<and>
        holds p' m' B' (tl xs) \<and> moves m own B m' B' \<and> links p' p"
section \<open>Implicit producers keep the contract\<close>

lemma same_links_trans: "same_links r q \<Longrightarrow> same_links q p \<Longrightarrow> same_links r p"
  by (simp add: same_links_def)

text \<open>A producer of a class whose traits pass the static assertions and fit the index arithmetic.\<close>

definition imp_queue :: "traits \<Rightarrow> implicit_producer \<Rightarrow> 'd mem \<Rightarrow> nat set \<Rightarrow> 'd list \<Rightarrow> bool" where
  "imp_queue T p m B xs \<longleftrightarrow> traits_ok T \<and> imp_holds T p m B xs"

interpretation imp: subqueue "imp_queue T" "implicit_enqueue T E" "implicit_dequeue T E" same_links E
proof
  fix p q r :: implicit_producer
  show "same_links p p" by (simp add: same_links_def)
  show "same_links r p" if "same_links r q" "same_links q p" using that by (rule same_links_trans)
  fix m :: "'a mem" and B xs own mode x
  assume "imp_queue T p m B xs" and mem: "mem_inv m own" "B \<subseteq> own"
  then have T: "traits_ok T" and h: "imp_holds T p m B xs" by (auto simp: imp_queue_def)
  show "\<exists>r p' m' B'. implicit_enqueue T E mode x p m = Ret (r, p', m') \<and>
      (r = Val True \<and> \<not> raises E x \<and> imp_queue T p' m' B' (xs @ [x]) \<or>
       (r = Val False \<or> r = Exc \<and> raises E x) \<and> imp_queue T p' m' B' xs) \<and> moves m own B m' B' \<and> same_links p' p"
    using implicit_enqueue_holds [OF T h mem, of E mode x] by (simp add: imp_queue_def moves_def T)
  show "\<exists>r p' m' B'. implicit_dequeue T E p m = Ret (r, p', m') \<and>
      r = (case xs of [] \<Rightarrow> Val None | x # _ \<Rightarrow> if assign_raises E x then Exc else Val (Some x)) \<and>
      imp_queue T p' m' B' (tl xs) \<and> moves m own B m' B' \<and> same_links p' p"
    using implicit_dequeue_holds [OF T h mem, of E] by (simp add: imp_queue_def moves_def T)
qed

section \<open>A small class\<close>

text \<open>A class with blocks of two elements, small enough to run.\<close>

definition small_traits :: traits where
  "small_traits = ConcurrentQueueDefaultTraits\<lparr>BLOCK_SIZE := 2, IMPLICIT_INITIAL_INDEX_SIZE := 2, EXPLICIT_INITIAL_INDEX_SIZE := 2\<rparr>"

definition plain_ops :: "nat elem_ops" where
  "plain_ops = \<lparr>ctor_noexcept = True, ctor_throws = (\<lambda>_. False), assign_noexcept = True, assign_throws = (\<lambda>_. False),
     trivially_destructible = True\<rparr>"

lemma small_traits_ok: "traits_ok small_traits"
  by (simp add: traits_ok_def static_asserts_def small_traits_def ConcurrentQueueDefaultTraits_def pow2_test_def)

lemma mem_new_inv: "mem_inv (mem_new limit ok) {}"
  by (auto simp: mem_inv_def mem_new_def pool_rest_def intro!: exI [of _ "[]"])

end
