(* ===== verification/CQ_Explicit.thy ===== *)
theory CQ_Explicit
  imports CQ_Subqueue
begin

text \<open>
  \<open>ExplicitProducer\<close> of \<^verbatim>\<open>concurrentqueue/concurrentqueue.h\<close>: a sub-queue whose blocks form a circular
  list that is reused in place, found by consumers through a ring of \<open>(base, block)\<close> entries. As for
  implicit producers, the functions are those of one thread and \<open>this->parent\<close> is the memory.
\<close>

section \<open>State\<close>

record ExplicitIndexEntry =
  ex_base :: "64 word"
  ex_block :: "nat option"

text \<open>The array of entries comes from \<open>malloc\<close>: what was not written yet is \<open>None\<close>.\<close>

record ExplicitIndexHeader =
  ix_size :: "64 word"
  ix_front :: "64 word"
  ix_entries :: "ExplicitIndexEntry option list"

text \<open>
  \<open>ex_blockIndex\<close> holds the header of \<open>blockIndex\<close> and those behind its \<open>prev\<close>, the current one first.
  \<open>pr_blockIndexRaw\<close> is the address of the same header and \<open>pr_blockIndexEntries\<close> its array, both null
  together with \<open>blockIndex\<close>.
\<close>

record explicit_producer = producer +
  ex_blockIndex :: "ExplicitIndexHeader list"
  pr_blockIndexSlotsUsed :: "64 word"
  pr_blockIndexSize :: "64 word"
  pr_blockIndexFront :: "64 word"

section \<open>The block index\<close>

text \<open>The loop that copies the entries in use; the bound is the number of places in the old ring.\<close>

fun copy_entries ::
  "nat \<Rightarrow> ExplicitIndexEntry option list \<Rightarrow> 64 word \<Rightarrow> 64 word \<Rightarrow> 64 word \<Rightarrow> ExplicitIndexEntry option list outcome" where
  "copy_entries 0 es msk i front = No_Fuel"
| "copy_entries (Suc f) es msk i front =
     and_then (nth_out es (unat i)) (\<lambda>e.
       let i' = (i + 1) AND msk in
       if i' = front then Ret [e]
       else and_then (copy_entries f es msk i' front) (\<lambda>rest. Ret (e # rest)))"

definition explicit_new_block_index ::
  "64 word \<Rightarrow> explicit_producer \<Rightarrow> 'd mem \<Rightarrow> (bool \<times> explicit_producer \<times> 'd mem) outcome" where
  "explicit_new_block_index numberOfFilledSlotsToExpose p m =
     (let prevBlockSizeMask = pr_blockIndexSize p - 1;
          p1 = p\<lparr>pr_blockIndexSize := push_bit 1 (pr_blockIndexSize p)\<rparr>;
          (newRawPtr, m1) = malloc m
      in if \<not> newRawPtr then Ret (False, p1\<lparr>pr_blockIndexSize := drop_bit 1 (pr_blockIndexSize p1)\<rparr>, m1)
         else
           and_then
             (if pr_blockIndexSlotsUsed p1 \<noteq> 0 then
                (case ex_blockIndex p1 of
                   [] \<Rightarrow> Undefined
                 | h # _ \<Rightarrow> copy_entries (length (ix_entries h)) (ix_entries h) prevBlockSizeMask
                     ((pr_blockIndexFront p1 - pr_blockIndexSlotsUsed p1) AND prevBlockSizeMask) (pr_blockIndexFront p1))
              else Ret [])
             (\<lambda>copied.
               let header = \<lparr>ix_size = pr_blockIndexSize p1, ix_front = numberOfFilledSlotsToExpose - 1,
                     ix_entries = copied @ replicate (unat (pr_blockIndexSize p1) - length copied) None\<rparr>
               in Ret (True, p1\<lparr>pr_blockIndexFront := of_nat (length copied), ex_blockIndex := header # ex_blockIndex p1\<rparr>, m1)))"

definition explicit_producer_new :: "traits \<Rightarrow> 'd mem \<Rightarrow> (explicit_producer \<times> 'd mem) outcome" where
  "explicit_producer_new T m =
     (let p = \<lparr>p_next = None, p_inactive = False, p_token = None, tailIndex = 0, headIndex = 0,
               dequeueOptimisticCount = 0, dequeueOvercommit = 0, tailBlock = None, isExplicit = True,
               ex_blockIndex = [], pr_blockIndexSlotsUsed = 0,
               pr_blockIndexSize = drop_bit 1 (EXPLICIT_INITIAL_INDEX_SIZE T), pr_blockIndexFront = 0\<rparr>;
          poolBasedIndexSize = drop_bit 1 (ceil_to_pow_2 (initialBlockPoolSize m));
          p = (if poolBasedIndexSize > pr_blockIndexSize p then p\<lparr>pr_blockIndexSize := poolBasedIndexSize\<rparr> else p)
      in and_then (explicit_new_block_index 0 p m) (\<lambda>(_, p', m'). Ret (p', m')))"

text \<open>\<open>entries[pr_blockIndexFront]\<close> receives the tail block, and the producer's front moves on.\<close>

definition put_index_entry :: "64 word \<Rightarrow> explicit_producer \<Rightarrow> explicit_producer outcome" where
  "put_index_entry base p =
     (case ex_blockIndex p of
        [] \<Rightarrow> Undefined
      | h # hs \<Rightarrow>
          if unat (pr_blockIndexFront p) < length (ix_entries h) then
            Ret (p\<lparr>ex_blockIndex := h\<lparr>ix_entries := (ix_entries h)[unat (pr_blockIndexFront p) :=
                     Some \<lparr>ex_base = base, ex_block = tailBlock p\<rparr>]\<rparr> # hs,
                   pr_blockIndexFront := (pr_blockIndexFront p + 1) AND (pr_blockIndexSize p - 1)\<rparr>)
          else Undefined)"

definition publish_front :: "64 word \<Rightarrow> explicit_producer \<Rightarrow> explicit_producer outcome" where
  "publish_front front p =
     (case ex_blockIndex p of
        [] \<Rightarrow> Undefined
      | h # hs \<Rightarrow> Ret (p\<lparr>ex_blockIndex := h\<lparr>ix_front := front\<rparr> # hs\<rparr>))"

section \<open>Enqueue\<close>

definition tail_next_is_empty :: "traits \<Rightarrow> explicit_producer \<Rightarrow> 'd mem \<Rightarrow> bool outcome" where
  "tail_next_is_empty T p m =
     (case tailBlock p of
        None \<Rightarrow> Ret False
      | Some t \<Rightarrow> with_block t m (\<lambda>tb. case blk_next tb of
            None \<Rightarrow> Undefined
          | Some n \<Rightarrow> with_block n m (\<lambda>nb. Ret (is_empty T explicit_context nb))))"

text \<open>A new block goes behind the tail block in the circular list and becomes the tail block.\<close>

definition link_block :: "nat \<Rightarrow> explicit_producer \<Rightarrow> 'd mem \<Rightarrow> (explicit_producer \<times> 'd mem) outcome" where
  "link_block newBlock p m =
     with_block newBlock m (\<lambda>nb. case tailBlock p of
         None \<Rightarrow> Ret (p\<lparr>tailBlock := Some newBlock\<rparr>, put_block newBlock (nb\<lparr>blk_next := Some newBlock\<rparr>) m)
       | Some t \<Rightarrow> with_block t m (\<lambda>tb.
           let m1 = put_block newBlock (nb\<lparr>blk_next := blk_next tb\<rparr>) m in
           with_block t m1 (\<lambda>tb1.
             Ret (p\<lparr>tailBlock := Some newBlock\<rparr>, put_block t (tb1\<lparr>blk_next := Some newBlock\<rparr>) m1))))"

text \<open>The start of a new block: the one ahead when it is empty, otherwise one from the pools.\<close>

definition reuse_ahead :: "traits \<Rightarrow> explicit_producer \<Rightarrow> 'd mem \<Rightarrow> (explicit_producer \<times> 'd mem) outcome" where
  "reuse_ahead T p m =
     (case tailBlock p of
        None \<Rightarrow> Undefined
      | Some t \<Rightarrow> with_block t m (\<lambda>tb. case blk_next tb of
            None \<Rightarrow> Undefined
          | Some n \<Rightarrow> with_block n m (\<lambda>nb.
              Ret (p\<lparr>tailBlock := Some n\<rparr>, put_block n (reset_empty T explicit_context nb) m))))"

definition explicit_next_block ::
  "traits \<Rightarrow> AllocationMode \<Rightarrow> explicit_producer \<Rightarrow> 'd mem \<Rightarrow> (bool \<times> explicit_producer \<times> 'd mem) outcome" where
  "explicit_next_block T allocMode p m =
     and_then (tail_next_is_empty T p m) (\<lambda>ahead.
       if ahead then and_then (reuse_ahead T p m) (\<lambda>(p1, m1). Ret (True, p1, m1))
       else if subqueue_full T (headIndex p) (tailIndex p) then Ret (False, p, m)
       else
         and_then
           (if ex_blockIndex p = [] \<or> pr_blockIndexSlotsUsed p = pr_blockIndexSize p then
              if allocMode = CannotAlloc then Ret (False, p, m)
              else explicit_new_block_index (pr_blockIndexSlotsUsed p) p m
            else Ret (True, p, m))
           (\<lambda>(ok, p1, m1).
             if \<not> ok then Ret (False, p1, m1)
             else
               and_then (requisition_block allocMode m1) (\<lambda>(r, m2).
               case r of
                 None \<Rightarrow> Ret (False, p1, m2)
               | Some newBlock \<Rightarrow>
                   with_block newBlock m2 (\<lambda>b.
                     and_then (link_block newBlock p1 (put_block newBlock (reset_empty T explicit_context b) m2)) (\<lambda>(p2, m3).
                       Ret (True, p2\<lparr>pr_blockIndexSlotsUsed := pr_blockIndexSlotsUsed p2 + 1\<rparr>, m3))))))"

definition tail_construct :: "traits \<Rightarrow> 64 word \<Rightarrow> 'd \<Rightarrow> explicit_producer \<Rightarrow> 'd mem \<Rightarrow> 'd mem outcome" where
  "tail_construct T i x p m = (case tailBlock p of None \<Rightarrow> Undefined | Some b \<Rightarrow> construct T i x b m)"

definition explicit_enqueue ::
  "traits \<Rightarrow> 'd elem_ops \<Rightarrow> AllocationMode \<Rightarrow> 'd \<Rightarrow> explicit_producer \<Rightarrow> 'd mem \<Rightarrow>
   (bool xres \<times> explicit_producer \<times> 'd mem) outcome" where
  "explicit_enqueue T E allocMode x p m =
     (let currentTailIndex = tailIndex p;
          newTailIndex = 1 + currentTailIndex
      in if currentTailIndex AND (BLOCK_SIZE T - 1) = 0 then
           let startBlock = tailBlock p; originalBlockIndexSlotsUsed = pr_blockIndexSlotsUsed p in
           and_then (explicit_next_block T allocMode p m) (\<lambda>(ok, p1, m1).
             if \<not> ok then Ret (Val False, p1, m1)
             else if raises E x then
               Ret (Exc, p1\<lparr>pr_blockIndexSlotsUsed := originalBlockIndexSlotsUsed,
                            tailBlock := (if startBlock = None then tailBlock p1 else startBlock)\<rparr>, m1)
             else
               and_then (if ctor_noexcept E then Ret m1 else tail_construct T currentTailIndex x p1 m1) (\<lambda>m2.
               and_then (put_index_entry currentTailIndex p1) (\<lambda>p2.
               and_then (publish_front (pr_blockIndexFront p1) p2) (\<lambda>p3.
               and_then (if ctor_noexcept E then tail_construct T currentTailIndex x p3 m2 else Ret m2) (\<lambda>m3.
                 Ret (Val True, p3\<lparr>tailIndex := newTailIndex\<rparr>, m3))))))
         else if raises E x then Ret (Exc, p, m)
         else and_then (tail_construct T currentTailIndex x p m) (\<lambda>m1.
           Ret (Val True, p\<lparr>tailIndex := newTailIndex\<rparr>, m1)))"

section \<open>Dequeue\<close>

text \<open>
  The place in the index that a consumer computes. The division is by the unsigned \<open>BLOCK_SIZE\<close>,
  so it is an unsigned one; the mask makes a wrapped offset harmless.
\<close>

definition explicit_index_of :: "traits \<Rightarrow> 64 word \<Rightarrow> explicit_producer \<Rightarrow> 64 word outcome" where
  "explicit_index_of T i p =
     (case ex_blockIndex p of
        [] \<Rightarrow> Undefined
      | h # _ \<Rightarrow>
          and_then (nth_out (ix_entries h) (unat (ix_front h))) (\<lambda>fe. case fe of
            None \<Rightarrow> Undefined
          | Some f \<Rightarrow>
              let offset = (base_of T i - ex_base f) div BLOCK_SIZE T
              in Ret ((ix_front h + offset) AND (ix_size h - 1))))"

definition explicit_block_at :: "64 word \<Rightarrow> explicit_producer \<Rightarrow> nat outcome" where
  "explicit_block_at indexIndex p =
     (case ex_blockIndex p of
        [] \<Rightarrow> Undefined
      | h # _ \<Rightarrow> and_then (nth_out (ix_entries h) (unat indexIndex)) (\<lambda>e. case e of
            None \<Rightarrow> Undefined
          | Some en \<Rightarrow> (case ex_block en of None \<Rightarrow> Undefined | Some b \<Rightarrow> Ret b)))"

definition explicit_release :: "traits \<Rightarrow> 64 word \<Rightarrow> nat \<Rightarrow> 'd mem \<Rightarrow> 'd mem outcome" where
  "explicit_release T i b m =
     and_then (destruct T i b m) (\<lambda>m1.
       with_block b m1 (\<lambda>blk. Ret (put_block b (snd (set_empty T explicit_context i blk)) m1)))"

definition explicit_dequeue ::
  "traits \<Rightarrow> 'd elem_ops \<Rightarrow> explicit_producer \<Rightarrow> 'd mem \<Rightarrow> ('d option xres \<times> explicit_producer \<times> 'd mem) outcome" where
  "explicit_dequeue T E p m =
     (let tail = tailIndex p;
          overcommit = dequeueOvercommit p
      in if circular_less_than (dequeueOptimisticCount p - overcommit) tail then
           let myDequeueCount = dequeueOptimisticCount p;
               p1 = p\<lparr>dequeueOptimisticCount := myDequeueCount + 1\<rparr>
           in if circular_less_than (myDequeueCount - overcommit) (tailIndex p1) then
                let i = headIndex p1;
                    p2 = p1\<lparr>headIndex := i + 1\<rparr>
                in and_then (explicit_index_of T i p2) (\<lambda>indexIndex.
                   and_then (explicit_block_at indexIndex p2) (\<lambda>b.
                   and_then (element_at T i b m) (\<lambda>el.
                   and_then (explicit_release T i b m) (\<lambda>m1.
                     Ret (if assign_raises E el then Exc else Val (Some el), p2, m1)))))
              else Ret (Val None, p1\<lparr>dequeueOvercommit := dequeueOvercommit p1 + 1\<rparr>, m)
         else Ret (Val None, p, m))"

section \<open>Bulk enqueue\<close>

text \<open>
  The items are a list, \<open>count\<close> its length. The blocks ahead of the tail are used first; the bounds
  on the loops are the number of slots still to be covered.
\<close>

fun bulk_ahead ::
  "nat \<Rightarrow> traits \<Rightarrow> nat option \<Rightarrow> 64 word \<Rightarrow> 64 word \<Rightarrow> explicit_producer \<Rightarrow> 'd mem \<Rightarrow>
   (nat option \<times> 64 word \<times> 64 word \<times> explicit_producer) outcome" where
  "bulk_ahead 0 T firstAllocatedBlock blockBaseDiff currentTailIndex p m = No_Fuel"
| "bulk_ahead (Suc f) T firstAllocatedBlock blockBaseDiff currentTailIndex p m =
     (let stop = Ret (firstAllocatedBlock, blockBaseDiff, currentTailIndex, p) in
      if \<not> 0 < blockBaseDiff then stop
      else case tailBlock p of
        None \<Rightarrow> stop
      | Some t \<Rightarrow> with_block t m (\<lambda>tb.
          if blk_next tb = firstAllocatedBlock then stop
          else case blk_next tb of
            None \<Rightarrow> Undefined
          | Some n \<Rightarrow> with_block n m (\<lambda>nb.
              if \<not> is_empty T explicit_context nb then stop
              else
                let currentTailIndex' = currentTailIndex + BLOCK_SIZE T;
                    first' = (if firstAllocatedBlock = None then Some n else firstAllocatedBlock)
                in and_then (put_index_entry currentTailIndex' (p\<lparr>tailBlock := Some n\<rparr>)) (\<lambda>p1.
                     bulk_ahead f T first' (blockBaseDiff - BLOCK_SIZE T) currentTailIndex' p1 m))))"

definition bulk_undo ::
  "nat option \<Rightarrow> nat option \<Rightarrow> 64 word \<Rightarrow> 64 word \<Rightarrow> explicit_producer \<Rightarrow> explicit_producer" where
  "bulk_undo startBlock firstAllocatedBlock originalBlockIndexFront originalBlockIndexSlotsUsed p =
     p\<lparr>pr_blockIndexFront := originalBlockIndexFront, pr_blockIndexSlotsUsed := originalBlockIndexSlotsUsed,
       tailBlock := (if startBlock = None then firstAllocatedBlock else startBlock)\<rparr>"

text \<open>Then blocks from the pools; \<open>None\<close> is the return with \<open>false\<close> after the undo.\<close>

fun bulk_alloc ::
  "nat \<Rightarrow> traits \<Rightarrow> AllocationMode \<Rightarrow> nat option \<Rightarrow> 64 word \<Rightarrow> nat option \<Rightarrow> 64 word \<Rightarrow> 64 word \<Rightarrow> 64 word \<Rightarrow>
   explicit_producer \<Rightarrow> 'd mem \<Rightarrow> ((nat option \<times> 64 word) option \<times> explicit_producer \<times> 'd mem) outcome" where
  "bulk_alloc 0 T allocMode startBlock slots0 firstAllocatedBlock front0 blockBaseDiff currentTailIndex p m = No_Fuel"
| "bulk_alloc (Suc f) T allocMode startBlock slots0 firstAllocatedBlock front0 blockBaseDiff currentTailIndex p m =
     (if \<not> 0 < blockBaseDiff then Ret (Some (firstAllocatedBlock, front0), p, m)
      else
        let blockBaseDiff' = blockBaseDiff - BLOCK_SIZE T;
            currentTailIndex' = currentTailIndex + BLOCK_SIZE T;
            full = subqueue_full T (headIndex p) currentTailIndex'
        in and_then
             (if ex_blockIndex p = [] \<or> pr_blockIndexSlotsUsed p = pr_blockIndexSize p \<or> full then
                if allocMode = CannotAlloc then Ret (False, front0, p, m)
                else if full then Ret (False, front0, p, m)
                else and_then (explicit_new_block_index slots0 p m) (\<lambda>(ok, p1, m1).
                  Ret (ok, if ok then slots0 else front0, p1, m1))
              else Ret (True, front0, p, m))
             (\<lambda>(ok, front1, p1, m1).
               if \<not> ok then Ret (None, bulk_undo startBlock firstAllocatedBlock front1 slots0 p1, m1)
               else
                 and_then (requisition_block allocMode m1) (\<lambda>(r, m2).
                 case r of
                   None \<Rightarrow> Ret (None, bulk_undo startBlock firstAllocatedBlock front1 slots0 p1, m2)
                 | Some newBlock \<Rightarrow>
                     with_block newBlock m2 (\<lambda>b.
                       and_then (link_block newBlock p1 (put_block newBlock (set_all_empty T explicit_context b) m2)) (\<lambda>(p2, m3).
                       and_then (put_index_entry currentTailIndex' (p2\<lparr>pr_blockIndexSlotsUsed := pr_blockIndexSlotsUsed p2 + 1\<rparr>)) (\<lambda>p3.
                         bulk_alloc f T allocMode startBlock slots0
                           (if firstAllocatedBlock = None then Some newBlock else firstAllocatedBlock)
                           front1 blockBaseDiff' currentTailIndex' p3 m3))))))"

text \<open>Every block from the first new one to the tail block is marked as not empty.\<close>

fun bulk_reset :: "nat \<Rightarrow> traits \<Rightarrow> nat option \<Rightarrow> explicit_producer \<Rightarrow> 'd mem \<Rightarrow> 'd mem outcome" where
  "bulk_reset 0 T block p m = No_Fuel"
| "bulk_reset (Suc f) T block p m =
     (case block of
        None \<Rightarrow> Undefined
      | Some b \<Rightarrow> with_block b m (\<lambda>bl.
          let m1 = put_block b (reset_empty T explicit_context bl) m in
          if block = tailBlock p then Ret m1 else bulk_reset f T (blk_next bl) p m1))"

text \<open>
  Constructing the items of one block: how many there are is the distance to \<open>stopIndex\<close>. The
  result says whether all were constructed, and where construction stopped.
\<close>

fun construct_run ::
  "nat \<Rightarrow> traits \<Rightarrow> 'd elem_ops \<Rightarrow> nat option \<Rightarrow> 64 word \<Rightarrow> 'd list \<Rightarrow> 'd mem \<Rightarrow> (bool \<times> 64 word \<times> 'd list \<times> 'd mem) outcome" where
  "construct_run 0 T E block i items m = Ret (True, i, items, m)"
| "construct_run (Suc n) T E block i items m =
     (case (block, items) of
        (Some b, x # rest) \<Rightarrow>
          if raises E x then Ret (False, i, items, m)
          else and_then (construct T i x b m) (\<lambda>m1. construct_run n T E block (i + 1) rest m1)
      | _ \<Rightarrow> Undefined)"

definition stop_index :: "traits \<Rightarrow> 64 word \<Rightarrow> 64 word \<Rightarrow> 64 word" where
  "stop_index T currentTailIndex newTailIndex =
     (let stopIndex = base_of T currentTailIndex + BLOCK_SIZE T
      in if circular_less_than newTailIndex stopIndex then newTailIndex else stopIndex)"

fun destroy_run :: "nat \<Rightarrow> traits \<Rightarrow> nat option \<Rightarrow> 64 word \<Rightarrow> 'd mem \<Rightarrow> 'd mem outcome" where
  "destroy_run 0 T block i m = Ret m"
| "destroy_run (Suc n) T block i m =
     (case block of None \<Rightarrow> Undefined | Some b \<Rightarrow> and_then (destruct T i b m) (destroy_run n T block (i + 1)))"

text \<open>The elements constructed so far are destroyed again, block by block.\<close>

fun bulk_destroy ::
  "nat \<Rightarrow> traits \<Rightarrow> nat option \<Rightarrow> nat option \<Rightarrow> 64 word \<Rightarrow> 64 word \<Rightarrow> 'd mem \<Rightarrow> 'd mem outcome" where
  "bulk_destroy 0 T block lastBlockEnqueued i constructedStopIndex m = No_Fuel"
| "bulk_destroy (Suc f) T block lastBlockEnqueued i constructedStopIndex m =
     (let stopIndex = stop_index T i constructedStopIndex in
      and_then (destroy_run (unat (stopIndex - i)) T block i m) (\<lambda>m1.
        if block = lastBlockEnqueued then Ret m1
        else case block of
          None \<Rightarrow> Undefined
        | Some b \<Rightarrow> with_block b m1 (\<lambda>bl. bulk_destroy f T (blk_next bl) lastBlockEnqueued stopIndex constructedStopIndex m1)))"

text \<open>The filling loop: the tail block moves along the list up to \<open>endBlock\<close>.\<close>

fun bulk_fill ::
  "nat \<Rightarrow> traits \<Rightarrow> 'd elem_ops \<Rightarrow> nat option \<Rightarrow> 64 word \<Rightarrow> 64 word \<Rightarrow> 'd list \<Rightarrow> nat option \<Rightarrow> 'd mem \<Rightarrow>
   (bool \<times> 64 word \<times> nat option \<times> 'd mem) outcome" where
  "bulk_fill 0 T E endBlock currentTailIndex newTailIndex items block m = No_Fuel"
| "bulk_fill (Suc f) T E endBlock currentTailIndex newTailIndex items block m =
     (let stopIndex = stop_index T currentTailIndex newTailIndex in
      and_then (construct_run (unat (stopIndex - currentTailIndex)) T E block currentTailIndex items m) (\<lambda>(ok, i, rest, m1).
        if \<not> ok then Ret (False, i, block, m1)
        else if block = endBlock then Ret (True, i, block, m1)
        else case block of
          None \<Rightarrow> Undefined
        | Some b \<Rightarrow> with_block b m1 (\<lambda>bl. bulk_fill f T E endBlock i newTailIndex rest (blk_next bl) m1)))"

definition bulk_diff :: "traits \<Rightarrow> 64 word \<Rightarrow> 64 word \<Rightarrow> 64 word" where
  "bulk_diff T startTailIndex cnt = base_of T (startTailIndex + cnt - 1) - base_of T (startTailIndex - 1)"

definition explicit_enqueue_bulk ::
  "traits \<Rightarrow> 'd elem_ops \<Rightarrow> AllocationMode \<Rightarrow> 'd list \<Rightarrow> explicit_producer \<Rightarrow> 'd mem \<Rightarrow>
   (bool xres \<times> explicit_producer \<times> 'd mem) outcome" where
  "explicit_enqueue_bulk T E allocMode items p m =
     (let cnt = of_nat (length items) :: 64 word;
          startTailIndex = tailIndex p;
          startBlock = tailBlock p;
          slots0 = pr_blockIndexSlotsUsed p;
          blockBaseDiff = bulk_diff T startTailIndex cnt;
          currentTailIndex = base_of T (startTailIndex - 1);
          fuel = Suc (unat blockBaseDiff)
      in and_then
           (if 0 < blockBaseDiff then
              and_then (bulk_ahead fuel T None blockBaseDiff currentTailIndex p m) (\<lambda>(first, diff, cur, p1).
              and_then (bulk_alloc fuel T allocMode startBlock slots0 first (pr_blockIndexFront p) diff cur p1 m) (\<lambda>(r, p2, m2).
                case r of
                  None \<Rightarrow> Ret (None, p2, m2)
                | Some (first, front0) \<Rightarrow>
                    and_then (bulk_reset fuel T first p2 m2) (\<lambda>m3.
                    and_then (if ctor_noexcept E
                              then publish_front ((pr_blockIndexFront p2 - 1) AND (pr_blockIndexSize p2 - 1)) p2
                              else Ret p2) (\<lambda>p3.
                      Ret (Some (first, front0), p3, m3)))))
            else Ret (Some (None, pr_blockIndexFront p), p, m))
           (\<lambda>(r, p1, m1).
             case r of
               None \<Rightarrow> Ret (Val False, p1, m1)
             | Some (first, front0) \<Rightarrow>
                 let newTailIndex = startTailIndex + cnt;
                     endBlock = tailBlock p1;
                     aligned = (startTailIndex AND (BLOCK_SIZE T - 1) = 0);
                     block = (if aligned \<and> first \<noteq> None then first else startBlock)
                 in and_then (bulk_fill (Suc fuel) T E endBlock startTailIndex newTailIndex items block m1) (\<lambda>(ok, i, last, m2).
                      if \<not> ok then
                        and_then (if trivially_destructible E then Ret m2
                                  else bulk_destroy (Suc fuel) T (if aligned then first else startBlock) last startTailIndex i m2) (\<lambda>m3.
                          Ret (Exc, bulk_undo startBlock first front0 slots0 p1, m3))
                      else
                        let p2 = p1\<lparr>tailBlock := last\<rparr> in
                        and_then (if \<not> ctor_noexcept E \<and> first \<noteq> None
                                  then publish_front ((pr_blockIndexFront p2 - 1) AND (pr_blockIndexSize p2 - 1)) p2
                                  else Ret p2) (\<lambda>p3.
                          Ret (Val True, p3\<lparr>tailIndex := newTailIndex\<rparr>, m2)))))"

section \<open>Bulk dequeue\<close>

text \<open>
  Moving out the elements of one block; the result holds what was assigned, whether an assignment
  threw, and the index reached.
\<close>

fun take_run ::
  "nat \<Rightarrow> traits \<Rightarrow> 'd elem_ops \<Rightarrow> nat \<Rightarrow> 64 word \<Rightarrow> 'd mem \<Rightarrow> ('d list \<times> bool \<times> 64 word \<times> 'd mem) outcome" where
  "take_run 0 T E b i m = Ret ([], False, i, m)"
| "take_run (Suc n) T E b i m =
     and_then (element_at T i b m) (\<lambda>el.
       if assign_raises E el then Ret ([], True, i, m)
       else
         and_then (destruct T i b m) (\<lambda>m1.
         and_then (take_run n T E b (i + 1) m1) (\<lambda>(els, threw, i', m2). Ret (el # els, threw, i', m2))))"

definition mark_many ::
  "traits \<Rightarrow> InnerQueueContext \<Rightarrow> 64 word \<Rightarrow> 64 word \<Rightarrow> nat \<Rightarrow> 'd mem \<Rightarrow> (bool \<times> 'd mem) outcome" where
  "mark_many T ctx i cnt b m =
     with_block b m (\<lambda>blk. let (r, blk') = set_many_empty T ctx i cnt blk in Ret (r, put_block b blk' m))"

text \<open>After a throw the rest of the range is destroyed and marked.\<close>

fun explicit_abandon ::
  "nat \<Rightarrow> traits \<Rightarrow> explicit_producer \<Rightarrow> 64 word \<Rightarrow> 64 word \<Rightarrow> 64 word \<Rightarrow> 64 word \<Rightarrow> 64 word \<Rightarrow> 'd mem \<Rightarrow> 'd mem outcome" where
  "explicit_abandon 0 T p indexIndex firstIndexInBlock i endIndex stop m = No_Fuel"
| "explicit_abandon (Suc f) T p indexIndex firstIndexInBlock i endIndex stop m =
     and_then (explicit_block_at indexIndex p) (\<lambda>b.
     and_then (destroy_run (unat (endIndex - i)) T (Some b) i m) (\<lambda>m1.
     and_then (mark_many T explicit_context firstIndexInBlock (endIndex - firstIndexInBlock) b m1) (\<lambda>(_, m2).
       if endIndex = stop then Ret m2
       else case ex_blockIndex p of
         [] \<Rightarrow> Undefined
       | h # _ \<Rightarrow> explicit_abandon f T p ((indexIndex + 1) AND (ix_size h - 1)) endIndex endIndex (stop_index T endIndex stop) stop m2)))"

fun explicit_take ::
  "nat \<Rightarrow> traits \<Rightarrow> 'd elem_ops \<Rightarrow> explicit_producer \<Rightarrow> 64 word \<Rightarrow> 64 word \<Rightarrow> 64 word \<Rightarrow> 'd mem \<Rightarrow> ('d list \<times> bool \<times> 'd mem) outcome" where
  "explicit_take 0 T E p indexIndex i stop m = No_Fuel"
| "explicit_take (Suc f) T E p indexIndex i stop m =
     (let endIndex = stop_index T i stop in
      and_then (explicit_block_at indexIndex p) (\<lambda>b.
      and_then (take_run (unat (endIndex - i)) T E b i m) (\<lambda>(els, threw, i', m1).
        if threw then
          and_then (explicit_abandon f T p indexIndex i i' endIndex stop m1) (\<lambda>m2. Ret (els, True, m2))
        else
          and_then (mark_many T explicit_context i (endIndex - i) b m1) (\<lambda>(_, m2).
            if endIndex = stop then Ret (els, False, m2)
            else case ex_blockIndex p of
              [] \<Rightarrow> Undefined
            | h # _ \<Rightarrow>
                and_then (explicit_take f T E p ((indexIndex + 1) AND (ix_size h - 1)) endIndex stop m2) (\<lambda>(rest, threw, m3).
                  Ret (els @ rest, threw, m3))))))"

text \<open>
  The counters are those of \<open>dequeue\<close>, moved by many; the result is the returned count with the
  items assigned.
\<close>

definition explicit_dequeue_bulk ::
  "traits \<Rightarrow> 'd elem_ops \<Rightarrow> 64 word \<Rightarrow> explicit_producer \<Rightarrow> 'd mem \<Rightarrow>
   (64 word xres \<times> 'd list \<times> explicit_producer \<times> 'd mem) outcome" where
  "explicit_dequeue_bulk T E mx p m =
     (let tail = tailIndex p;
          overcommit = dequeueOvercommit p;
          desiredCount = tail - (dequeueOptimisticCount p - overcommit)
      in if circular_less_than 0 desiredCount then
           let desiredCount = (if desiredCount < mx then desiredCount else mx);
               myDequeueCount = dequeueOptimisticCount p;
               p1 = p\<lparr>dequeueOptimisticCount := myDequeueCount + desiredCount\<rparr>;
               actualCount = tailIndex p1 - (myDequeueCount - overcommit)
           in if circular_less_than 0 actualCount then
                let actualCount = (if desiredCount < actualCount then desiredCount else actualCount);
                    p2 = (if actualCount < desiredCount
                          then p1\<lparr>dequeueOvercommit := dequeueOvercommit p1 + (desiredCount - actualCount)\<rparr> else p1);
                    firstIndex = headIndex p2;
                    p3 = p2\<lparr>headIndex := firstIndex + actualCount\<rparr>
                in and_then (explicit_index_of T firstIndex p3) (\<lambda>indexIndex.
                   and_then (explicit_take (unat actualCount + 2) T E p3 indexIndex firstIndex (firstIndex + actualCount) m) (\<lambda>(els, threw, m1).
                     Ret (if threw then Exc else Val actualCount, els, p3, m1)))
              else Ret (Val 0, [], p1\<lparr>dequeueOvercommit := dequeueOvercommit p1 + desiredCount\<rparr>, m)
         else Ret (Val 0, [], p, m))"

section \<open>Destruction\<close>

text \<open>
  The block in the middle of which the head stands is searched from the oldest entry on; the
  bound is the size of the ring.
\<close>

fun half_search :: "nat \<Rightarrow> traits \<Rightarrow> explicit_producer \<Rightarrow> 64 word \<Rightarrow> nat option outcome" where
  "half_search 0 T p i = No_Fuel"
| "half_search (Suc f) T p i =
     (case ex_blockIndex p of
        [] \<Rightarrow> Undefined
      | h # _ \<Rightarrow> and_then (nth_out (ix_entries h) (unat i)) (\<lambda>e. case e of
            None \<Rightarrow> Undefined
          | Some en \<Rightarrow>
              if circular_less_than (ex_base en + BLOCK_SIZE T) (headIndex p)
              then half_search f T p ((i + 1) AND (pr_blockIndexSize p - 1))
              else Ret (ex_block en)))"

definition half_dequeued_block :: "traits \<Rightarrow> explicit_producer \<Rightarrow> nat option outcome" where
  "half_dequeued_block T p =
     (if headIndex p AND (BLOCK_SIZE T - 1) \<noteq> 0
      then half_search (Suc (unat (pr_blockIndexSize p))) T p
        ((pr_blockIndexFront p - pr_blockIndexSlotsUsed p) AND (pr_blockIndexSize p - 1))
      else Ret None)"

text \<open>The elements left in the blocks, from the head block around to the tail block.\<close>

fun dtor_elements :: "nat \<Rightarrow> traits \<Rightarrow> explicit_producer \<Rightarrow> nat option \<Rightarrow> nat \<Rightarrow> nat \<Rightarrow> 'd mem \<Rightarrow> 'd mem outcome" where
  "dtor_elements 0 T p half tail block m = No_Fuel"
| "dtor_elements (Suc f) T p half tail block m =
     with_block block m (\<lambda>bl. case blk_next bl of
         None \<Rightarrow> Undefined
       | Some b \<Rightarrow> with_block b m (\<lambda>nb.
           and_then
             (if is_empty T explicit_context nb then Ret m
              else
                let i = (if half = Some b then slot T (headIndex p) else 0);
                    lastValidIndex = (if tailIndex p AND (BLOCK_SIZE T - 1) = 0 then unat (BLOCK_SIZE T) else slot T (tailIndex p));
                    stop = (if b = tail \<and> i \<le> lastValidIndex then lastValidIndex else unat (BLOCK_SIZE T))
                in destroy_run (stop - i) T (Some b) (of_nat i) m)
             (\<lambda>m1. if b = tail then Ret m1 else dtor_elements f T p half tail b m1)))"

definition destroy_block :: "nat \<Rightarrow> 'd mem \<Rightarrow> 'd mem" where
  "destroy_block b m = m\<lparr>blocks := (blocks m)(b := None)\<rparr>"

fun dtor_blocks :: "nat \<Rightarrow> nat \<Rightarrow> nat \<Rightarrow> 'd mem \<Rightarrow> 'd mem outcome" where
  "dtor_blocks 0 tail block m = No_Fuel"
| "dtor_blocks (Suc f) tail block m =
     with_block block m (\<lambda>bl. case blk_next bl of
         None \<Rightarrow> Undefined
       | Some nextBlock \<Rightarrow>
           and_then (if dynamicallyAllocated bl then Ret (destroy_block block m) else add_block_to_free_list block m) (\<lambda>m1.
             if nextBlock = tail then Ret m1 else dtor_blocks f tail nextBlock m1))"

definition explicit_producer_destroy :: "traits \<Rightarrow> explicit_producer \<Rightarrow> 'd mem \<Rightarrow> 'd mem outcome" where
  "explicit_producer_destroy T p m =
     (case tailBlock p of
        None \<Rightarrow> Ret m
      | Some tail \<Rightarrow>
          and_then (half_dequeued_block T p) (\<lambda>half.
          and_then (dtor_elements (Suc (nblocks m)) T p half tail tail m) (\<lambda>m1.
            dtor_blocks (Suc (nblocks m)) tail tail m1)))"

end
