(* ===== verification/CQ_Implicit_Bulk.thy ===== *)
theory CQ_Implicit_Bulk
  imports CQ_Explicit
begin

text \<open>
  The bulk operations of \<open>ImplicitProducer\<close> and its destructor
  (\<^verbatim>\<open>concurrentqueue/concurrentqueue.h\<close>). The blocks a bulk enqueue takes are chained through \<open>next\<close>
  so that they can be given back; filling and reverting go along that chain as in the explicit
  producer, and share its definitions.
\<close>

section \<open>Bulk enqueue\<close>

text \<open>
  Taking the index entries of the chain back: \<open>for (block = firstAllocatedBlock; ...)\<close>. The chain has
  as many blocks as were taken, which bounds the loop.
\<close>

fun unindex_chain ::
  "nat \<Rightarrow> traits \<Rightarrow> nat option \<Rightarrow> 64 word \<Rightarrow> implicit_producer \<Rightarrow> 'd mem \<Rightarrow> implicit_producer outcome" where
  "unindex_chain 0 T block currentTailIndex p m = No_Fuel"
| "unindex_chain (Suc f) T block currentTailIndex p m =
     (case block of
        None \<Rightarrow> Ret p
      | Some b \<Rightarrow>
          let currentTailIndex' = currentTailIndex + BLOCK_SIZE T in
          and_then (get_block_index_entry_for_index T currentTailIndex' p) (\<lambda>idxEntry.
          and_then (rewind_block_index_tail (set_entry_value idxEntry None p)) (\<lambda>p1.
            with_block b m (\<lambda>bl. unindex_chain f T (blk_next bl) currentTailIndex' p1 m))))"

definition implicit_bulk_undo ::
  "nat \<Rightarrow> traits \<Rightarrow> 64 word \<Rightarrow> nat option \<Rightarrow> nat option \<Rightarrow> implicit_producer \<Rightarrow> 'd mem \<Rightarrow> (implicit_producer \<times> 'd mem) outcome" where
  "implicit_bulk_undo fuel T startTailIndex startBlock firstAllocatedBlock p m =
     and_then (unindex_chain fuel T firstAllocatedBlock (base_of T (startTailIndex - 1)) p m) (\<lambda>p1.
     and_then (add_blocks_to_free_list fuel firstAllocatedBlock m) (\<lambda>m1.
       Ret (p1\<lparr>tailBlock := startBlock\<rparr>, m1)))"

text \<open>One round of the allocating loop up to the point where the block is there.\<close>

definition implicit_bulk_block ::
  "traits \<Rightarrow> AllocationMode \<Rightarrow> 64 word \<Rightarrow> implicit_producer \<Rightarrow> 'd mem \<Rightarrow>
   ((nat \<times> nat) option \<times> implicit_producer \<times> 'd mem) outcome" where
  "implicit_bulk_block T allocMode currentTailIndex p m =
     (if subqueue_full T (headIndex p) currentTailIndex then Ret (None, p, m)
      else
        and_then (insert_block_index_entry allocMode currentTailIndex p m) (\<lambda>(idxEntry, p1, m1).
        case idxEntry of
          None \<Rightarrow> Ret (None, p1, m1)
        | Some e \<Rightarrow>
            and_then (requisition_block allocMode m1) (\<lambda>(newBlock, m2).
            case newBlock of
              None \<Rightarrow> and_then (rewind_block_index_tail p1) (\<lambda>p2. Ret (None, set_entry_value e None p2, m2))
            | Some b \<Rightarrow> Ret (Some (e, b), p1, m2))))"

text \<open>The loop; \<open>None\<close> is the return with \<open>false\<close>, after everything has been taken back.\<close>

fun implicit_bulk_alloc ::
  "nat \<Rightarrow> traits \<Rightarrow> AllocationMode \<Rightarrow> 64 word \<Rightarrow> nat option \<Rightarrow> nat option \<Rightarrow> 64 word \<Rightarrow> 64 word \<Rightarrow> implicit_producer \<Rightarrow> 'd mem \<Rightarrow>
   (nat option option \<times> implicit_producer \<times> 'd mem) outcome" where
  "implicit_bulk_alloc 0 T allocMode startTailIndex startBlock firstAllocatedBlock blockBaseDiff currentTailIndex p m = No_Fuel"
| "implicit_bulk_alloc (Suc f) T allocMode startTailIndex startBlock firstAllocatedBlock blockBaseDiff currentTailIndex p m =
     (let blockBaseDiff' = blockBaseDiff - BLOCK_SIZE T;
          currentTailIndex' = currentTailIndex + BLOCK_SIZE T
      in and_then (implicit_bulk_block T allocMode currentTailIndex' p m) (\<lambda>(r, p1, m1).
         case r of
           None \<Rightarrow>
             and_then (implicit_bulk_undo (Suc (nblocks m1)) T startTailIndex startBlock firstAllocatedBlock p1 m1) (\<lambda>(p2, m2).
               Ret (None, p2, m2))
         | Some (idxEntry, newBlock) \<Rightarrow>
             with_block newBlock m1 (\<lambda>b.
               let m2 = put_block newBlock ((reset_empty T implicit_context b)\<lparr>blk_next := None\<rparr>) m1;
                   p2 = set_entry_value idxEntry (Some newBlock) p1
               in and_then
                    (if startTailIndex AND (BLOCK_SIZE T - 1) \<noteq> 0 \<or> firstAllocatedBlock \<noteq> None then
                       (case tailBlock p2 of
                          None \<Rightarrow> Undefined
                        | Some t \<Rightarrow> with_block t m2 (\<lambda>tb. Ret (put_block t (tb\<lparr>blk_next := Some newBlock\<rparr>) m2)))
                     else Ret m2)
                    (\<lambda>m3.
                      let p3 = p2\<lparr>tailBlock := Some newBlock\<rparr>;
                          first' = (if firstAllocatedBlock = None then Some newBlock else firstAllocatedBlock)
                      in if 0 < blockBaseDiff'
                         then implicit_bulk_alloc f T allocMode startTailIndex startBlock first' blockBaseDiff' currentTailIndex' p3 m3
                         else Ret (Some first', p3, m3)))))"

definition implicit_enqueue_bulk ::
  "traits \<Rightarrow> 'd elem_ops \<Rightarrow> AllocationMode \<Rightarrow> 'd list \<Rightarrow> implicit_producer \<Rightarrow> 'd mem \<Rightarrow>
   (bool xres \<times> implicit_producer \<times> 'd mem) outcome" where
  "implicit_enqueue_bulk T E allocMode items p m =
     (let cnt = of_nat (length items) :: 64 word;
          startTailIndex = tailIndex p;
          startBlock = tailBlock p;
          blockBaseDiff = bulk_diff T startTailIndex cnt;
          fuel = Suc (unat blockBaseDiff)
      in and_then
           (if 0 < blockBaseDiff
            then implicit_bulk_alloc fuel T allocMode startTailIndex startBlock None blockBaseDiff (base_of T (startTailIndex - 1)) p m
            else Ret (Some None, p, m))
           (\<lambda>(r, p1, m1).
             case r of
               None \<Rightarrow> Ret (Val False, p1, m1)
             | Some first \<Rightarrow>
                 let newTailIndex = startTailIndex + cnt;
                     endBlock = tailBlock p1;
                     aligned = (startTailIndex AND (BLOCK_SIZE T - 1) = 0);
                     block = (if aligned \<and> first \<noteq> None then first else startBlock)
                 in and_then (bulk_fill (Suc fuel) T E endBlock startTailIndex newTailIndex items block m1) (\<lambda>(ok, i, last, m2).
                      if \<not> ok then
                        and_then (if trivially_destructible E then Ret m2
                                  else bulk_destroy (Suc fuel) T (if aligned then first else startBlock) last startTailIndex i m2) (\<lambda>m3.
                        and_then (implicit_bulk_undo (Suc (nblocks m3)) T startTailIndex startBlock first p1 m3) (\<lambda>(p2, m4).
                          Ret (Exc, p2, m4)))
                      else Ret (Val True, p1\<lparr>tailBlock := last, tailIndex := newTailIndex\<rparr>, m2))))"

section \<open>Bulk dequeue\<close>

text \<open>The entry and the block a consumer finds at a place of the index.\<close>

definition implicit_block_at :: "64 word \<Rightarrow> implicit_producer \<Rightarrow> (nat \<times> nat) outcome" where
  "implicit_block_at indexIndex p =
     (case blockIndex p of
        [] \<Rightarrow> Undefined
      | h # _ \<Rightarrow>
          and_then (nth_out (index h) (unat indexIndex)) (\<lambda>e.
          and_then (nth_out (entries p) e) (\<lambda>en. case entry_value en of None \<Rightarrow> Undefined | Some b \<Rightarrow> Ret (e, b))))"

text \<open>Marking a range; a block that became empty leaves the index and goes to the free list.\<close>

definition implicit_mark ::
  "traits \<Rightarrow> 64 word \<Rightarrow> 64 word \<Rightarrow> nat \<Rightarrow> nat \<Rightarrow> implicit_producer \<Rightarrow> 'd mem \<Rightarrow> (implicit_producer \<times> 'd mem) outcome" where
  "implicit_mark T i cnt e b p m =
     and_then (mark_many T implicit_context i cnt b m) (\<lambda>(now_empty, m1).
       if now_empty then and_then (add_block_to_free_list b m1) (\<lambda>m2. Ret (set_entry_value e None p, m2))
       else Ret (p, m1))"

definition next_place :: "64 word \<Rightarrow> implicit_producer \<Rightarrow> 64 word outcome" where
  "next_place indexIndex p = (case blockIndex p of [] \<Rightarrow> Undefined | h # _ \<Rightarrow> Ret ((indexIndex + 1) AND (capacity h - 1)))"

fun implicit_abandon ::
  "nat \<Rightarrow> traits \<Rightarrow> 64 word \<Rightarrow> 64 word \<Rightarrow> 64 word \<Rightarrow> 64 word \<Rightarrow> 64 word \<Rightarrow> implicit_producer \<Rightarrow> 'd mem \<Rightarrow>
   (implicit_producer \<times> 'd mem) outcome" where
  "implicit_abandon 0 T indexIndex blockStartIndex i endIndex stop p m = No_Fuel"
| "implicit_abandon (Suc f) T indexIndex blockStartIndex i endIndex stop p m =
     and_then (implicit_block_at indexIndex p) (\<lambda>(e, b).
     and_then (destroy_run (unat (endIndex - i)) T (Some b) i m) (\<lambda>m1.
     and_then (implicit_mark T blockStartIndex (endIndex - blockStartIndex) e b p m1) (\<lambda>(p1, m2).
       if endIndex = stop then Ret (p1, m2)
       else and_then (next_place indexIndex p1) (\<lambda>indexIndex'.
         implicit_abandon f T indexIndex' endIndex endIndex (stop_index T endIndex stop) stop p1 m2))))"

fun implicit_take ::
  "nat \<Rightarrow> traits \<Rightarrow> 'd elem_ops \<Rightarrow> 64 word \<Rightarrow> 64 word \<Rightarrow> 64 word \<Rightarrow> implicit_producer \<Rightarrow> 'd mem \<Rightarrow>
   ('d list \<times> bool \<times> implicit_producer \<times> 'd mem) outcome" where
  "implicit_take 0 T E indexIndex i stop p m = No_Fuel"
| "implicit_take (Suc f) T E indexIndex i stop p m =
     (let endIndex = stop_index T i stop in
      and_then (implicit_block_at indexIndex p) (\<lambda>(e, b).
      and_then (take_run (unat (endIndex - i)) T E b i m) (\<lambda>(els, threw, i', m1).
        if threw then
          and_then (implicit_abandon f T indexIndex i i' endIndex stop p m1) (\<lambda>(p1, m2). Ret (els, True, p1, m2))
        else
          and_then (implicit_mark T i (endIndex - i) e b p m1) (\<lambda>(p1, m2).
            if endIndex = stop then Ret (els, False, p1, m2)
            else
              and_then (next_place indexIndex p1) (\<lambda>indexIndex'.
              and_then (implicit_take f T E indexIndex' endIndex stop p1 m2) (\<lambda>(rest, threw, p2, m3).
                Ret (els @ rest, threw, p2, m3)))))))"

definition implicit_dequeue_bulk ::
  "traits \<Rightarrow> 'd elem_ops \<Rightarrow> 64 word \<Rightarrow> implicit_producer \<Rightarrow> 'd mem \<Rightarrow>
   (64 word xres \<times> 'd list \<times> implicit_producer \<times> 'd mem) outcome" where
  "implicit_dequeue_bulk T E mx p m =
     (let tail = tailIndex p;
          overcommit = dequeueOvercommit p;
          desiredCount = tail - (dequeueOptimisticCount p - overcommit)
      in if circular_less_than 0 desiredCount then
           let desiredCount = (if desiredCount < mx then desiredCount else mx);
               myDequeueCount = dequeueOptimisticCount p;
               p1 = p\<lparr>dequeueOptimisticCount := myDequeueCount + desiredCount\<rparr>;
               actualCount = tailIndex p1 - (myDequeueCount - overcommit)
           in if circular_less_than 0 actualCount then
                let actualCount = (if desiredCount < actualCount then desiredCount else actualCount);
                    p2 = (if actualCount < desiredCount
                          then p1\<lparr>dequeueOvercommit := dequeueOvercommit p1 + (desiredCount - actualCount)\<rparr> else p1);
                    firstIndex = headIndex p2;
                    p3 = p2\<lparr>headIndex := firstIndex + actualCount\<rparr>
                in and_then (get_block_index_index_for_index T firstIndex p3) (\<lambda>indexIndex.
                   and_then (implicit_take (unat actualCount + 2) T E indexIndex firstIndex (firstIndex + actualCount) p3 m)
                     (\<lambda>(els, threw, p4, m1). Ret (if threw then Exc else Val actualCount, els, p4, m1)))
              else Ret (Val 0, [], p1\<lparr>dequeueOvercommit := dequeueOvercommit p1 + desiredCount\<rparr>, m)
         else Ret (Val 0, [], p, m))"

section \<open>Destruction\<close>

text \<open>
  The loop over the elements left, as many as lie between head and tail; a block is given back when
  the next one begins. (Unsubscribing from thread exit and freeing the index touch no block.)
\<close>

fun implicit_dtor_loop ::
  "nat \<Rightarrow> traits \<Rightarrow> implicit_producer \<Rightarrow> 64 word \<Rightarrow> nat option \<Rightarrow> 'd mem \<Rightarrow> 'd mem outcome" where
  "implicit_dtor_loop 0 T p i block m = Ret m"
| "implicit_dtor_loop (Suc n) T p i block m =
     and_then
       (if i AND (BLOCK_SIZE T - 1) = 0 \<or> block = None then
          and_then (case block of None \<Rightarrow> Ret m | Some b \<Rightarrow> add_block_to_free_list b m) (\<lambda>m1.
          and_then (get_block_index_entry_for_index T i p) (\<lambda>e.
          and_then (nth_out (entries p) e) (\<lambda>en. Ret (entry_value en, m1))))
        else Ret (block, m))
       (\<lambda>(block', m1). case block' of
           None \<Rightarrow> Undefined
         | Some b \<Rightarrow> and_then (destruct T i b m1) (implicit_dtor_loop n T p (i + 1) block'))"

definition implicit_producer_destroy :: "traits \<Rightarrow> implicit_producer \<Rightarrow> 'd mem \<Rightarrow> 'd mem outcome" where
  "implicit_producer_destroy T p m =
     (let tail = tailIndex p;
          forceFreeLastBlock = (headIndex p \<noteq> tail)
      in and_then (implicit_dtor_loop (unat (tail - headIndex p)) T p (headIndex p) None m) (\<lambda>m1.
           case tailBlock p of
             None \<Rightarrow> Ret m1
           | Some t \<Rightarrow>
               if forceFreeLastBlock \<or> tail AND (BLOCK_SIZE T - 1) \<noteq> 0 then add_block_to_free_list t m1 else Ret m1))"

end
