(* ===== verification/CQ_Queue.thy ===== *)
theory CQ_Queue
  imports CQ_Hash CQ_Implicit_Bulk
begin

text \<open>
  The queue object of \<^verbatim>\<open>concurrentqueue/concurrentqueue.h\<close>: the list of producers, the tables that find a
  thread's implicit producer, tokens, and the calls of the interface. Every call runs to its end
  before the next begins, whichever thread makes it.
\<close>

section \<open>Producers of either kind\<close>

datatype any_producer = Explicit explicit_producer | Implicit implicit_producer

definition prod_base :: "any_producer \<Rightarrow> producer" where
  "prod_base a = (case a of Explicit p \<Rightarrow> producer.truncate p | Implicit p \<Rightarrow> producer.truncate p)"

fun set_next :: "nat option \<Rightarrow> any_producer \<Rightarrow> any_producer" where
  "set_next n (Explicit p) = Explicit (p\<lparr>p_next := n\<rparr>)"
| "set_next n (Implicit p) = Implicit (p\<lparr>p_next := n\<rparr>)"

fun set_inactive :: "bool \<Rightarrow> any_producer \<Rightarrow> any_producer" where
  "set_inactive b (Explicit p) = Explicit (p\<lparr>p_inactive := b\<rparr>)"
| "set_inactive b (Implicit p) = Implicit (p\<lparr>p_inactive := b\<rparr>)"

fun set_token :: "nat option \<Rightarrow> any_producer \<Rightarrow> any_producer" where
  "set_token t (Explicit p) = Explicit (p\<lparr>p_token := t\<rparr>)"
| "set_token t (Implicit p) = Implicit (p\<lparr>p_token := t\<rparr>)"

text \<open>A call through a pointer cast to one of the classes; the cast to the wrong one is undefined.\<close>

definition as_explicit ::
  "(explicit_producer \<Rightarrow> 'd mem \<Rightarrow> ('r \<times> explicit_producer \<times> 'd mem) outcome) \<Rightarrow>
   any_producer \<Rightarrow> 'd mem \<Rightarrow> ('r \<times> any_producer \<times> 'd mem) outcome" where
  "as_explicit op a m =
     (case a of Explicit p \<Rightarrow> and_then (op p m) (\<lambda>(r, p', m'). Ret (r, Explicit p', m')) | Implicit _ \<Rightarrow> Undefined)"

definition as_implicit ::
  "(implicit_producer \<Rightarrow> 'd mem \<Rightarrow> ('r \<times> implicit_producer \<times> 'd mem) outcome) \<Rightarrow>
   any_producer \<Rightarrow> 'd mem \<Rightarrow> ('r \<times> any_producer \<times> 'd mem) outcome" where
  "as_implicit op a m =
     (case a of Implicit p \<Rightarrow> and_then (op p m) (\<lambda>(r, p', m'). Ret (r, Implicit p', m')) | Explicit _ \<Rightarrow> Undefined)"

text \<open>The result of a bulk dequeue: the count and what was written through the iterator.\<close>

definition bulk_result :: "('r \<times> 'd list \<times> 'p \<times> 'd mem) outcome \<Rightarrow> (('r \<times> 'd list) \<times> 'p \<times> 'd mem) outcome" where
  "bulk_result o1 = and_then o1 (\<lambda>(r, els, p, m). Ret ((r, els), p, m))"

text \<open>\<open>ProducerBase::dequeue\<close> and \<open>dequeue_bulk\<close> choose by \<open>isExplicit\<close>.\<close>

definition any_dequeue ::
  "traits \<Rightarrow> 'd elem_ops \<Rightarrow> any_producer \<Rightarrow> 'd mem \<Rightarrow> ('d option xres \<times> any_producer \<times> 'd mem) outcome" where
  "any_dequeue T E a m =
     (if isExplicit (prod_base a) then as_explicit (explicit_dequeue T E) a m else as_implicit (implicit_dequeue T E) a m)"

definition any_dequeue_bulk ::
  "traits \<Rightarrow> 'd elem_ops \<Rightarrow> 64 word \<Rightarrow> any_producer \<Rightarrow> 'd mem \<Rightarrow>
   ((64 word xres \<times> 'd list) \<times> any_producer \<times> 'd mem) outcome" where
  "any_dequeue_bulk T E mx a m =
     (if isExplicit (prod_base a) then as_explicit (\<lambda>p m. bulk_result (explicit_dequeue_bulk T E mx p m)) a m
      else as_implicit (\<lambda>p m. bulk_result (implicit_dequeue_bulk T E mx p m)) a m)"

section \<open>The queue object\<close>

record prod_node =
  nd_prod :: any_producer
  nd_parent :: nat

text \<open>
  \<open>q_this\<close> is the address of the object, a producer's address is its place in \<open>producers\<close>. The tables
  made by growth are \<open>hash_dyn\<close>, the newest first; the last of them points to the table embedded in
  the object \<open>hash_end\<close>, which is this one except in the middle of a swap. \<open>ptokens\<close> are the producer
  tokens made for the queue and \<open>exit_listeners\<close> the entries a thread's list of exit listeners has for
  the queue's producers.
\<close>

record 'd queue =
  q_this :: nat
  producerListTail :: "nat option"
  producerCount :: "32 word"
  producers :: "prod_node list"
  q_mem :: "'d mem"
  hash_dyn :: "ImplicitProducerHash list"
  hash_end :: nat
  initialImplicitProducerHash :: "ImplicitProducerHash list"
  implicitProducerHashCount :: "64 word"
  implicitProducerHashResizeInProgress :: bool
  nextExplicitConsumerId :: "32 word"
  globalExplicitConsumerOffset :: "32 word"
  ptokens :: "nat \<Rightarrow> nat option option"
  exit_listeners :: "64 word \<Rightarrow> nat list"

definition queue_with_blocks :: "traits \<Rightarrow> nat \<Rightarrow> 64 word \<Rightarrow> 'd mem \<Rightarrow> 'd queue" where
  "queue_with_blocks T this n m =
     \<lparr>q_this = this, producerListTail = None, producerCount = 0, producers = [],
      q_mem = populate_initial_block_list n (m\<lparr>initialBlockPoolIndex := 0\<rparr>),
      hash_dyn = [], hash_end = this, initialImplicitProducerHash = populate_initial_implicit_producer_hash T,
      implicitProducerHashCount = 0, implicitProducerHashResizeInProgress = False,
      nextExplicitConsumerId = 0, globalExplicitConsumerOffset = 0, ptokens = (\<lambda>_. None), exit_listeners = (\<lambda>_. [])\<rparr>"

definition ConcurrentQueue :: "traits \<Rightarrow> nat \<Rightarrow> 64 word \<Rightarrow> 'd mem \<Rightarrow> 'd queue" where
  "ConcurrentQueue T this cpty m =
     queue_with_blocks T this (cpty div BLOCK_SIZE T + (if cpty AND (BLOCK_SIZE T - 1) = 0 then 0 else 1)) m"

definition ConcurrentQueue3 :: "traits \<Rightarrow> nat \<Rightarrow> 64 word \<Rightarrow> 64 word \<Rightarrow> 64 word \<Rightarrow> 'd mem \<Rightarrow> 'd queue" where
  "ConcurrentQueue3 T this minCapacity maxExplicitProducers maxImplicitProducers m =
     queue_with_blocks T this
       (((minCapacity + BLOCK_SIZE T - 1) div BLOCK_SIZE T - 1) * (maxExplicitProducers + 1) +
        2 * (maxExplicitProducers + maxImplicitProducers)) m"

definition with_prod :: "nat \<Rightarrow> 'd queue \<Rightarrow> (any_producer \<Rightarrow> 'r outcome) \<Rightarrow> 'r outcome" where
  "with_prod i q k = (if i < length (producers q) then k (nd_prod (producers q ! i)) else Undefined)"

definition put_prod :: "nat \<Rightarrow> any_producer \<Rightarrow> 'd queue \<Rightarrow> 'd queue" where
  "put_prod i a q = q\<lparr>producers := (producers q)[i := (producers q ! i)\<lparr>nd_prod := a\<rparr>]\<rparr>"

definition next_prod :: "any_producer \<Rightarrow> nat option" where
  "next_prod a = p_next (prod_base a)"

text \<open>A loop over the list takes at most one round more than there are producers.\<close>

definition list_fuel :: "'d queue \<Rightarrow> nat" where
  "list_fuel q = Suc (length (producers q))"

section \<open>The list of producers\<close>

definition add_producer :: "any_producer option \<Rightarrow> 'd queue \<Rightarrow> nat option \<times> 'd queue" where
  "add_producer producer q =
     (case producer of
        None \<Rightarrow> (None, q)
      | Some a \<Rightarrow>
          let n = length (producers q) in
          (Some n, q\<lparr>producerCount := producerCount q + 1,
             producers := producers q @ [\<lparr>nd_prod = set_next (producerListTail q) a, nd_parent = q_this q\<rparr>],
             producerListTail := Some n\<rparr>))"

definition create_producer :: "traits \<Rightarrow> bool \<Rightarrow> 'd queue \<Rightarrow> (any_producer option \<times> 'd queue) outcome" where
  "create_producer T isExpl q =
     (let (ok, m1) = malloc (q_mem q); q1 = q\<lparr>q_mem := m1\<rparr> in
      if \<not> ok then Ret (None, q1)
      else if isExpl then and_then (explicit_producer_new T m1) (\<lambda>(p, m2). Ret (Some (Explicit p), q1\<lparr>q_mem := m2\<rparr>))
      else (case implicit_producer_new T m1 of (p, m2) \<Rightarrow> Ret (Some (Implicit p), q1\<lparr>q_mem := m2\<rparr>)))"

fun find_inactive :: "nat \<Rightarrow> bool \<Rightarrow> nat option \<Rightarrow> 'd queue \<Rightarrow> nat option outcome" where
  "find_inactive 0 isExpl ptr q = No_Fuel"
| "find_inactive (Suc f) isExpl ptr q =
     (case ptr of
        None \<Rightarrow> Ret None
      | Some i \<Rightarrow> with_prod i q (\<lambda>a.
          if p_inactive (prod_base a) \<and> isExplicit (prod_base a) = isExpl then Ret (Some i)
          else find_inactive f isExpl (next_prod a) q))"

text \<open>The result with the flag \<open>recycled\<close>.\<close>

definition recycle_or_create_producer :: "traits \<Rightarrow> bool \<Rightarrow> 'd queue \<Rightarrow> (nat option \<times> bool \<times> 'd queue) outcome" where
  "recycle_or_create_producer T isExpl q =
     and_then (find_inactive (list_fuel q) isExpl (producerListTail q) q) (\<lambda>r.
       case r of
         Some i \<Rightarrow> with_prod i q (\<lambda>a. Ret (Some i, True, put_prod i (set_inactive False a) q))
       | None \<Rightarrow>
           and_then (create_producer T isExpl q) (\<lambda>(a, q1).
             case add_producer a q1 of (i, q2) \<Rightarrow> Ret (i, False, q2)))"

fun reown_loop :: "nat \<Rightarrow> nat option \<Rightarrow> 'd queue \<Rightarrow> 'd queue outcome" where
  "reown_loop 0 ptr q = No_Fuel"
| "reown_loop (Suc f) ptr q =
     (case ptr of
        None \<Rightarrow> Ret q
      | Some i \<Rightarrow> with_prod i q (\<lambda>a.
          reown_loop f (next_prod a) (q\<lparr>producers := (producers q)[i := (producers q ! i)\<lparr>nd_parent := q_this q\<rparr>]\<rparr>)))"

definition reown_producers :: "'d queue \<Rightarrow> 'd queue outcome" where
  "reown_producers q = reown_loop (list_fuel q) (producerListTail q) q"

section \<open>The tables of implicit producers\<close>

text \<open>The chain of tables; without the embedded one, or when the chain ends in another object's, there is none to read.\<close>

definition hash_chain :: "'d queue \<Rightarrow> ImplicitProducerHash list outcome" where
  "hash_chain q = (if hash_end q = q_this q \<and> initialImplicitProducerHash q \<noteq> []
     then Ret (hash_dyn q @ initialImplicitProducerHash q) else Undefined)"

definition put_chain :: "ImplicitProducerHash list \<Rightarrow> 'd queue \<Rightarrow> 'd queue" where
  "put_chain hs q = (let n = length (hash_dyn q) in q\<lparr>hash_dyn := take n hs, initialImplicitProducerHash := drop n hs\<rparr>)"

text \<open>\<open>ThreadExitNotifier::subscribe\<close> and \<open>unsubscribe\<close> of the calling thread's list.\<close>

definition subscribe :: "64 word \<Rightarrow> nat \<Rightarrow> 'd queue \<Rightarrow> 'd queue" where
  "subscribe tid i q = q\<lparr>exit_listeners := (exit_listeners q)(tid := i # exit_listeners q tid)\<rparr>"

definition unsubscribe :: "64 word \<Rightarrow> nat \<Rightarrow> 'd queue \<Rightarrow> 'd queue" where
  "unsubscribe tid i q = q\<lparr>exit_listeners := (exit_listeners q)(tid := remove1 i (exit_listeners q tid))\<rparr>"

text \<open>
  The resizing part of the inserting loop. \<open>Inl ()\<close>: memory could not be had and the call returns
  the null pointer; \<open>Inr\<close> goes on.
\<close>

definition hash_resize :: "64 word \<Rightarrow> 'd queue \<Rightarrow> ((unit + unit) \<times> 'd queue) outcome" where
  "hash_resize newCount q =
     and_then (hash_chain q) (\<lambda>hs.
       if newCount \<ge> drop_bit 1 (h_capacity (hd hs)) \<and> \<not> implicitProducerHashResizeInProgress q then
         and_then (grow_capacity 65 newCount (push_bit 1 (h_capacity (hd hs)))) (\<lambda>newCapacity.
           let (raw, m1) = malloc (q_mem q) in
           if \<not> raw then
             Ret (Inl (), q\<lparr>q_mem := m1, implicitProducerHashCount := implicitProducerHashCount q - 1,
                            implicitProducerHashResizeInProgress := False\<rparr>)
           else
             Ret (Inr (), q\<lparr>q_mem := m1, hash_dyn := empty_hash newCapacity # hash_dyn q,
                            implicitProducerHashResizeInProgress := False\<rparr>))
       else Ret (Inr (), q))"

text \<open>Adding the thread: a recycled or new producer, and a slot of the newest table for it.\<close>

definition hash_register ::
  "nat \<Rightarrow> bool \<Rightarrow> traits \<Rightarrow> 64 word \<Rightarrow> 'd queue \<Rightarrow> (nat option \<times> 'd queue) outcome" where
  "hash_register fuel tls T tid q =
     and_then (recycle_or_create_producer T False q) (\<lambda>(producer, recycled, q1).
       case producer of
         None \<Rightarrow> Ret (None, q1\<lparr>implicitProducerHashCount := implicitProducerHashCount q1 - 1\<rparr>)
       | Some i \<Rightarrow>
           let q2 = (if recycled then q1\<lparr>implicitProducerHashCount := implicitProducerHashCount q1 - 1\<rparr> else q1);
               q3 = (if tls then subscribe tid i q2 else q2)
           in and_then (hash_chain q3) (\<lambda>hs.
              and_then (hash_claim fuel tls tid (Some i) (hd hs) (hash_thread_id tid)) (\<lambda>h.
                Ret (Some i, put_chain (h # tl hs) q3))))"

fun hash_insert ::
  "nat \<Rightarrow> nat \<Rightarrow> bool \<Rightarrow> traits \<Rightarrow> 64 word \<Rightarrow> 64 word \<Rightarrow> 'd queue \<Rightarrow> (nat option \<times> 'd queue) outcome" where
  "hash_insert 0 fuel tls T tid newCount q = No_Fuel"
| "hash_insert (Suc rounds) fuel tls T tid newCount q =
     and_then (hash_resize newCount q) (\<lambda>(r, q1).
       case r of
         Inl _ \<Rightarrow> Ret (None, q1)
       | Inr _ \<Rightarrow>
           and_then (hash_chain q1) (\<lambda>hs.
             if newCount < drop_bit 1 (h_capacity (hd hs)) + drop_bit 2 (h_capacity (hd hs))
             then hash_register fuel tls T tid q1
             else hash_insert rounds fuel tls T tid newCount q1))"

text \<open>
  \<open>fuel\<close> bounds the rounds of each search for a slot. \<open>tls\<close> says whether
  \<^verbatim>\<open>MOODYCAMEL_CPP11_THREAD_LOCAL_SUPPORTED\<close> is defined (it is not, by default).
\<close>

definition get_or_add_implicit_producer ::
  "nat \<Rightarrow> bool \<Rightarrow> traits \<Rightarrow> 64 word \<Rightarrow> 'd queue \<Rightarrow> (nat option \<times> 'd queue) outcome" where
  "get_or_add_implicit_producer fuel tls T tid q =
     and_then (hash_chain q) (\<lambda>hs.
     and_then (hash_find fuel tid hs) (\<lambda>r.
       case r of
         Some (0, v) \<Rightarrow> Ret (v, q)
       | Some (Suc _, v) \<Rightarrow>
           and_then (hash_claim fuel tls tid v (hd hs) (hash_thread_id tid)) (\<lambda>h. Ret (v, put_chain (h # tl hs) q))
       | None \<Rightarrow>
           let q1 = q\<lparr>implicitProducerHashCount := implicitProducerHashCount q + 1\<rparr>
           in hash_insert 2 fuel tls T tid (1 + implicitProducerHashCount q) q1))"

text \<open>Enough rounds to see every slot of every table, one made by this call included.\<close>

definition hash_fuel :: "'d queue \<Rightarrow> nat" where
  "hash_fuel q = 4 * Suc (sum_list (map (\<lambda>h. length (h_entries h)) (hash_dyn q @ initialImplicitProducerHash q)))"

section \<open>The end of a thread\<close>

definition implicit_producer_thread_exited :: "nat \<Rightarrow> 64 word \<Rightarrow> nat \<Rightarrow> 'd queue \<Rightarrow> 'd queue outcome" where
  "implicit_producer_thread_exited fuel tid i q =
     (let q1 = unsubscribe tid i q in
      and_then (hash_chain q1) (\<lambda>hs.
      and_then (hash_leave_all fuel tid hs) (\<lambda>hs'.
      with_prod i q1 (\<lambda>a. Ret (put_prod i (set_inactive True a) (put_chain hs' q1))))))"

text \<open>\<open>~ThreadExitNotifier\<close> calls back every listener of the thread; each takes itself off the list.\<close>

fun exit_callbacks :: "nat \<Rightarrow> 64 word \<Rightarrow> nat list \<Rightarrow> 'd queue \<Rightarrow> 'd queue outcome" where
  "exit_callbacks fuel tid [] q = Ret q"
| "exit_callbacks fuel tid (i # is) q =
     and_then (implicit_producer_thread_exited fuel tid i q) (exit_callbacks fuel tid is)"

definition thread_exit :: "nat \<Rightarrow> 64 word \<Rightarrow> 'd queue \<Rightarrow> 'd queue outcome" where
  "thread_exit fuel tid q = exit_callbacks fuel tid (exit_listeners q tid) q"

section \<open>Tokens\<close>

definition ProducerToken :: "traits \<Rightarrow> nat \<Rightarrow> 'd queue \<Rightarrow> 'd queue outcome" where
  "ProducerToken T t q =
     and_then (recycle_or_create_producer T True q) (\<lambda>(i, _, q1).
       let q2 = q1\<lparr>ptokens := (ptokens q1)(t := Some i)\<rparr> in
       case i of
         None \<Rightarrow> Ret q2
       | Some i \<Rightarrow> with_prod i q2 (\<lambda>a. Ret (put_prod i (set_token (Some t) a) q2)))"

definition token_points_back :: "nat \<Rightarrow> nat option \<Rightarrow> 'd queue \<Rightarrow> 'd queue outcome" where
  "token_points_back t producer q =
     (case producer of None \<Rightarrow> Ret q | Some i \<Rightarrow> with_prod i q (\<lambda>a. Ret (put_prod i (set_token (Some t) a) q)))"

text \<open>\<open>ProducerToken(ProducerToken&&)\<close> makes the token \<open>t\<close> from the token \<open>u\<close>.\<close>

definition ProducerToken_move :: "nat \<Rightarrow> nat \<Rightarrow> 'd queue \<Rightarrow> 'd queue outcome" where
  "ProducerToken_move t u q =
     (case ptokens q u of
        None \<Rightarrow> Undefined
      | Some producer \<Rightarrow> token_points_back t producer (q\<lparr>ptokens := (ptokens q)(t := Some producer, u := Some None)\<rparr>))"

definition ProducerToken_swap :: "nat \<Rightarrow> nat \<Rightarrow> 'd queue \<Rightarrow> 'd queue outcome" where
  "ProducerToken_swap t u q =
     (case (ptokens q t, ptokens q u) of
        (Some a, Some b) \<Rightarrow>
          and_then (token_points_back t b (q\<lparr>ptokens := (ptokens q)(t := Some b, u := Some a)\<rparr>)) (token_points_back u a)
      | _ \<Rightarrow> Undefined)"

definition token_valid :: "nat \<Rightarrow> 'd queue \<Rightarrow> bool outcome" where
  "token_valid t q = (case ptokens q t of None \<Rightarrow> Undefined | Some producer \<Rightarrow> Ret (producer \<noteq> None))"

definition ProducerToken_destroy :: "nat \<Rightarrow> 'd queue \<Rightarrow> 'd queue outcome" where
  "ProducerToken_destroy t q =
     (case ptokens q t of
        None \<Rightarrow> Undefined
      | Some producer \<Rightarrow>
          let q1 = q\<lparr>ptokens := (ptokens q)(t := None)\<rparr> in
          case producer of
            None \<Rightarrow> Ret q1
          | Some i \<Rightarrow> with_prod i q1 (\<lambda>a. Ret (put_prod i (set_inactive True (set_token None a)) q1)))"

record ConsumerToken =
  initialOffset :: "32 word"
  lastKnownGlobalOffset :: "32 word"
  itemsConsumedFromCurrent :: "32 word"
  currentProducer :: "nat option"
  desiredProducer :: "nat option"

definition ConsumerToken_new :: "'d queue \<Rightarrow> ConsumerToken \<times> 'd queue" where
  "ConsumerToken_new q =
     (\<lparr>initialOffset = nextExplicitConsumerId q, lastKnownGlobalOffset = - 1, itemsConsumedFromCurrent = 0,
       currentProducer = None, desiredProducer = None\<rparr>,
      q\<lparr>nextExplicitConsumerId := nextExplicitConsumerId q + 1\<rparr>)"

definition ConsumerToken_move :: "ConsumerToken \<Rightarrow> ConsumerToken \<times> ConsumerToken" where
  "ConsumerToken_move other = (other, other)"

definition ConsumerToken_swap :: "ConsumerToken \<Rightarrow> ConsumerToken \<Rightarrow> ConsumerToken \<times> ConsumerToken" where
  "ConsumerToken_swap t u =
     (\<lparr>initialOffset = initialOffset u, lastKnownGlobalOffset = lastKnownGlobalOffset u,
       itemsConsumedFromCurrent = itemsConsumedFromCurrent u, currentProducer = currentProducer u, desiredProducer = desiredProducer u\<rparr>,
      \<lparr>initialOffset = initialOffset t, lastKnownGlobalOffset = lastKnownGlobalOffset t,
       itemsConsumedFromCurrent = itemsConsumedFromCurrent t, currentProducer = currentProducer t, desiredProducer = desiredProducer t\<rparr>)"

section \<open>Enqueueing\<close>

text \<open>A call on the producer at an address, writing producer and memory back; a call through a null pointer is undefined.\<close>

definition on_prod ::
  "(any_producer \<Rightarrow> 'd mem \<Rightarrow> ('r \<times> any_producer \<times> 'd mem) outcome) \<Rightarrow> nat \<Rightarrow> 'd queue \<Rightarrow> ('r \<times> 'd queue) outcome" where
  "on_prod op i q = with_prod i q (\<lambda>a. and_then (op a (q_mem q)) (\<lambda>(r, a', m'). Ret (r, (put_prod i a' q)\<lparr>q_mem := m'\<rparr>)))"

definition on_token ::
  "(any_producer \<Rightarrow> 'd mem \<Rightarrow> ('r \<times> any_producer \<times> 'd mem) outcome) \<Rightarrow> nat \<Rightarrow> 'd queue \<Rightarrow> ('r \<times> 'd queue) outcome" where
  "on_token op t q = (case ptokens q t of Some (Some i) \<Rightarrow> on_prod op i q | _ \<Rightarrow> Undefined)"

definition inner_enqueue_token ::
  "traits \<Rightarrow> 'd elem_ops \<Rightarrow> AllocationMode \<Rightarrow> nat \<Rightarrow> 'd \<Rightarrow> 'd queue \<Rightarrow> (bool xres \<times> 'd queue) outcome" where
  "inner_enqueue_token T E canAlloc t x q = on_token (as_explicit (explicit_enqueue T E canAlloc x)) t q"

definition inner_enqueue_bulk_token ::
  "traits \<Rightarrow> 'd elem_ops \<Rightarrow> AllocationMode \<Rightarrow> nat \<Rightarrow> 'd list \<Rightarrow> 'd queue \<Rightarrow> (bool xres \<times> 'd queue) outcome" where
  "inner_enqueue_bulk_token T E canAlloc t xs q = on_token (as_explicit (explicit_enqueue_bulk T E canAlloc xs)) t q"

definition inner_enqueue ::
  "bool \<Rightarrow> traits \<Rightarrow> 'd elem_ops \<Rightarrow> AllocationMode \<Rightarrow> 64 word \<Rightarrow> 'd \<Rightarrow> 'd queue \<Rightarrow> (bool xres \<times> 'd queue) outcome" where
  "inner_enqueue tls T E canAlloc tid x q =
     and_then (get_or_add_implicit_producer (hash_fuel q) tls T tid q) (\<lambda>(producer, q1).
       case producer of None \<Rightarrow> Ret (Val False, q1) | Some i \<Rightarrow> on_prod (as_implicit (implicit_enqueue T E canAlloc x)) i q1)"

definition inner_enqueue_bulk ::
  "bool \<Rightarrow> traits \<Rightarrow> 'd elem_ops \<Rightarrow> AllocationMode \<Rightarrow> 64 word \<Rightarrow> 'd list \<Rightarrow> 'd queue \<Rightarrow> (bool xres \<times> 'd queue) outcome" where
  "inner_enqueue_bulk tls T E canAlloc tid xs q =
     and_then (get_or_add_implicit_producer (hash_fuel q) tls T tid q) (\<lambda>(producer, q1).
       case producer of None \<Rightarrow> Ret (Val False, q1) | Some i \<Rightarrow> on_prod (as_implicit (implicit_enqueue_bulk T E canAlloc xs)) i q1)"

text \<open>
  The calls of the interface; the overloads that copy and those that move the item differ in the
  element operations only. \<open>enqueue\<close> is the case \<open>CanAlloc\<close>, \<open>try_enqueue\<close> the case \<open>CannotAlloc\<close>.
\<close>

definition enqueue ::
  "bool \<Rightarrow> traits \<Rightarrow> 'd elem_ops \<Rightarrow> 64 word \<Rightarrow> 'd \<Rightarrow> 'd queue \<Rightarrow> (bool xres \<times> 'd queue) outcome" where
  "enqueue tls T E tid x q =
     (if INITIAL_IMPLICIT_PRODUCER_HASH_SIZE T = 0 then Ret (Val False, q) else inner_enqueue tls T E CanAlloc tid x q)"

definition try_enqueue ::
  "bool \<Rightarrow> traits \<Rightarrow> 'd elem_ops \<Rightarrow> 64 word \<Rightarrow> 'd \<Rightarrow> 'd queue \<Rightarrow> (bool xres \<times> 'd queue) outcome" where
  "try_enqueue tls T E tid x q =
     (if INITIAL_IMPLICIT_PRODUCER_HASH_SIZE T = 0 then Ret (Val False, q) else inner_enqueue tls T E CannotAlloc tid x q)"

definition enqueue_token :: "traits \<Rightarrow> 'd elem_ops \<Rightarrow> nat \<Rightarrow> 'd \<Rightarrow> 'd queue \<Rightarrow> (bool xres \<times> 'd queue) outcome" where
  "enqueue_token T E t x q = inner_enqueue_token T E CanAlloc t x q"

definition try_enqueue_token :: "traits \<Rightarrow> 'd elem_ops \<Rightarrow> nat \<Rightarrow> 'd \<Rightarrow> 'd queue \<Rightarrow> (bool xres \<times> 'd queue) outcome" where
  "try_enqueue_token T E t x q = inner_enqueue_token T E CannotAlloc t x q"

definition enqueue_bulk ::
  "bool \<Rightarrow> traits \<Rightarrow> 'd elem_ops \<Rightarrow> 64 word \<Rightarrow> 'd list \<Rightarrow> 'd queue \<Rightarrow> (bool xres \<times> 'd queue) outcome" where
  "enqueue_bulk tls T E tid xs q =
     (if INITIAL_IMPLICIT_PRODUCER_HASH_SIZE T = 0 then Ret (Val False, q) else inner_enqueue_bulk tls T E CanAlloc tid xs q)"

definition try_enqueue_bulk ::
  "bool \<Rightarrow> traits \<Rightarrow> 'd elem_ops \<Rightarrow> 64 word \<Rightarrow> 'd list \<Rightarrow> 'd queue \<Rightarrow> (bool xres \<times> 'd queue) outcome" where
  "try_enqueue_bulk tls T E tid xs q =
     (if INITIAL_IMPLICIT_PRODUCER_HASH_SIZE T = 0 then Ret (Val False, q) else inner_enqueue_bulk tls T E CannotAlloc tid xs q)"

definition enqueue_bulk_token :: "traits \<Rightarrow> 'd elem_ops \<Rightarrow> nat \<Rightarrow> 'd list \<Rightarrow> 'd queue \<Rightarrow> (bool xres \<times> 'd queue) outcome" where
  "enqueue_bulk_token T E t xs q = inner_enqueue_bulk_token T E CanAlloc t xs q"

definition try_enqueue_bulk_token :: "traits \<Rightarrow> 'd elem_ops \<Rightarrow> nat \<Rightarrow> 'd list \<Rightarrow> 'd queue \<Rightarrow> (bool xres \<times> 'd queue) outcome" where
  "try_enqueue_bulk_token T E t xs q = inner_enqueue_bulk_token T E CannotAlloc t xs q"

section \<open>Dequeueing\<close>

text \<open>The heuristic scan: how many non-empty producers were met (at most three), and the fullest of them.\<close>

fun scan_sizes :: "nat \<Rightarrow> 'd queue \<Rightarrow> nat option \<Rightarrow> nat \<Rightarrow> nat option \<Rightarrow> 64 word \<Rightarrow> (nat \<times> nat option) outcome" where
  "scan_sizes 0 q ptr nonEmptyCount best bestSize = No_Fuel"
| "scan_sizes (Suc f) q ptr nonEmptyCount best bestSize =
     (case ptr of
        None \<Rightarrow> Ret (nonEmptyCount, best)
      | Some i \<Rightarrow>
          if nonEmptyCount < 3 then
            with_prod i q (\<lambda>a.
              let size = producer_size_approx (prod_base a) in
              if size > 0 then
                if size > bestSize then scan_sizes f q (next_prod a) (nonEmptyCount + 1) (Some i) size
                else scan_sizes f q (next_prod a) (nonEmptyCount + 1) best bestSize
              else scan_sizes f q (next_prod a) nonEmptyCount best bestSize)
          else Ret (nonEmptyCount, best))"

text \<open>Trying the producers of the list in turn, but not \<open>skip\<close>.\<close>

fun try_each :: "nat \<Rightarrow> traits \<Rightarrow> 'd elem_ops \<Rightarrow> nat option \<Rightarrow> nat option \<Rightarrow> 'd queue \<Rightarrow> ('d option xres \<times> 'd queue) outcome" where
  "try_each 0 T E skip ptr q = No_Fuel"
| "try_each (Suc f) T E skip ptr q =
     (case ptr of
        None \<Rightarrow> Ret (Val None, q)
      | Some i \<Rightarrow>
          if ptr = skip then with_prod i q (\<lambda>a. try_each f T E skip (next_prod a) q)
          else
            and_then (on_prod (any_dequeue T E) i q) (\<lambda>(r, q1).
              if r = Val None then with_prod i q1 (\<lambda>a. try_each f T E skip (next_prod a) q1) else Ret (r, q1)))"

definition try_dequeue :: "traits \<Rightarrow> 'd elem_ops \<Rightarrow> 'd queue \<Rightarrow> ('d option xres \<times> 'd queue) outcome" where
  "try_dequeue T E q =
     and_then (scan_sizes (list_fuel q) q (producerListTail q) 0 None 0) (\<lambda>(nonEmptyCount, best).
       if nonEmptyCount > 0 then
         case best of
           None \<Rightarrow> Undefined
         | Some b \<Rightarrow>
             and_then (on_prod (any_dequeue T E) b q) (\<lambda>(r, q1).
               if r \<noteq> Val None then Ret (r, q1) else try_each (list_fuel q1) T E best (producerListTail q1) q1)
       else Ret (Val None, q))"

definition try_dequeue_non_interleaved :: "traits \<Rightarrow> 'd elem_ops \<Rightarrow> 'd queue \<Rightarrow> ('d option xres \<times> 'd queue) outcome" where
  "try_dequeue_non_interleaved T E q = try_each (list_fuel q) T E None (producerListTail q) q"

text \<open>One step along the list as a ring: \<open>p = p->next_prod(); if (p == nullptr) p = tail;\<close>.\<close>

definition ring_step :: "'d queue \<Rightarrow> nat option \<Rightarrow> nat option \<Rightarrow> nat option outcome" where
  "ring_step q tail p =
     (case p of
        None \<Rightarrow> Undefined
      | Some i \<Rightarrow> with_prod i q (\<lambda>a. Ret (case next_prod a of None \<Rightarrow> tail | Some j \<Rightarrow> Some j)))"

fun ring_steps :: "nat \<Rightarrow> 'd queue \<Rightarrow> nat option \<Rightarrow> nat option \<Rightarrow> nat option outcome" where
  "ring_steps 0 q tail p = Ret p"
| "ring_steps (Suc n) q tail p = and_then (ring_step q tail p) (ring_steps n q tail)"

definition update_current_producer_after_rotation ::
  "ConsumerToken \<Rightarrow> 'd queue \<Rightarrow> (bool \<times> ConsumerToken) outcome" where
  "update_current_producer_after_rotation token q =
     (let tail = producerListTail q in
      if desiredProducer token = None \<and> tail = None then Ret (False, token)
      else
        let prodCount = producerCount q; globalOffset = globalExplicitConsumerOffset q in
        if prodCount = 0 then Undefined
        else
          and_then
            (if desiredProducer token = None
             then ring_steps (unat (prodCount - 1 - initialOffset token mod prodCount)) q tail tail
             else Ret (desiredProducer token))
            (\<lambda>desired.
              let delta = globalOffset - lastKnownGlobalOffset token;
                  delta = (if delta \<ge> prodCount then delta mod prodCount else delta)
              in and_then (ring_steps (unat delta) q tail desired) (\<lambda>desired'.
                   Ret (True, token\<lparr>desiredProducer := desired', lastKnownGlobalOffset := globalOffset,
                                    currentProducer := desired', itemsConsumedFromCurrent := 0\<rparr>))))"

text \<open>Whether the token has to look up its place.\<close>

definition token_stale :: "ConsumerToken \<Rightarrow> 'd queue \<Rightarrow> bool" where
  "token_stale token q \<longleftrightarrow> desiredProducer token = None \<or> lastKnownGlobalOffset token \<noteq> globalExplicitConsumerOffset q"

fun ring_each ::
  "nat \<Rightarrow> traits \<Rightarrow> 'd elem_ops \<Rightarrow> nat option \<Rightarrow> nat option \<Rightarrow> ConsumerToken \<Rightarrow> 'd queue \<Rightarrow>
   ('d option xres \<times> ConsumerToken \<times> 'd queue) outcome" where
  "ring_each 0 T E tail ptr token q = No_Fuel"
| "ring_each (Suc f) T E tail ptr token q =
     (if ptr = currentProducer token then Ret (Val None, token, q)
      else case ptr of
        None \<Rightarrow> Undefined
      | Some i \<Rightarrow>
          and_then (on_prod (any_dequeue T E) i q) (\<lambda>(r, q1).
            case r of
              Val (Some x) \<Rightarrow> Ret (r, token\<lparr>currentProducer := ptr, itemsConsumedFromCurrent := 1\<rparr>, q1)
            | Exc \<Rightarrow> Ret (r, token, q1)
            | Val None \<Rightarrow> and_then (ring_step q1 tail ptr) (\<lambda>ptr'. ring_each f T E tail ptr' token q1)))"

definition try_dequeue_token ::
  "traits \<Rightarrow> 'd elem_ops \<Rightarrow> ConsumerToken \<Rightarrow> 'd queue \<Rightarrow> ('d option xres \<times> ConsumerToken \<times> 'd queue) outcome" where
  "try_dequeue_token T E token q =
     and_then (if token_stale token q then update_current_producer_after_rotation token q else Ret (True, token)) (\<lambda>(ok, token1).
       if \<not> ok then Ret (Val None, token1, q)
       else case currentProducer token1 of
         None \<Rightarrow> Undefined
       | Some c \<Rightarrow>
           and_then (on_prod (any_dequeue T E) c q) (\<lambda>(r, q1).
             case r of
               Val (Some x) \<Rightarrow>
                 let n = itemsConsumedFromCurrent token1 + 1 in
                 Ret (r, token1\<lparr>itemsConsumedFromCurrent := n\<rparr>,
                   if n = EXPLICIT_CONSUMER_CONSUMPTION_QUOTA_BEFORE_ROTATE T
                   then q1\<lparr>globalExplicitConsumerOffset := globalExplicitConsumerOffset q1 + 1\<rparr> else q1)
             | Exc \<Rightarrow> Ret (r, token1, q1)
             | Val None \<Rightarrow>
                 let tail = producerListTail q1 in
                 and_then (ring_step q1 tail (Some c)) (\<lambda>ptr. ring_each (list_fuel q1) T E tail ptr token1 q1)))"

definition try_dequeue_from_producer :: "traits \<Rightarrow> 'd elem_ops \<Rightarrow> nat \<Rightarrow> 'd queue \<Rightarrow> ('d option xres \<times> 'd queue) outcome" where
  "try_dequeue_from_producer T E t q = on_token (as_explicit (explicit_dequeue T E)) t q"

definition try_dequeue_bulk_from_producer ::
  "traits \<Rightarrow> 'd elem_ops \<Rightarrow> nat \<Rightarrow> 64 word \<Rightarrow> 'd queue \<Rightarrow> ((64 word xres \<times> 'd list) \<times> 'd queue) outcome" where
  "try_dequeue_bulk_from_producer T E t mx q = on_token (as_explicit (\<lambda>p m. bulk_result (explicit_dequeue_bulk T E mx p m))) t q"

text \<open>Bulk dequeues; the results are the count or the exception, and the elements written so far.\<close>

fun bulk_each ::
  "nat \<Rightarrow> traits \<Rightarrow> 'd elem_ops \<Rightarrow> 64 word \<Rightarrow> 64 word \<Rightarrow> nat option \<Rightarrow> 'd queue \<Rightarrow> ((64 word xres \<times> 'd list) \<times> 'd queue) outcome" where
  "bulk_each 0 T E mx cnt ptr q = No_Fuel"
| "bulk_each (Suc f) T E mx cnt ptr q =
     (case ptr of
        None \<Rightarrow> Ret ((Val cnt, []), q)
      | Some i \<Rightarrow>
          and_then (on_prod (any_dequeue_bulk T E (mx - cnt)) i q) (\<lambda>((r, els), q1).
            case r of
              Exc \<Rightarrow> Ret ((Exc, els), q1)
            | Val n \<Rightarrow>
                let cnt' = cnt + n in
                if cnt' = mx then Ret ((Val cnt', els), q1)
                else with_prod i q1 (\<lambda>a.
                  and_then (bulk_each f T E mx cnt' (next_prod a) q1) (\<lambda>((r', rest), q2). Ret ((r', els @ rest), q2)))))"

definition try_dequeue_bulk ::
  "traits \<Rightarrow> 'd elem_ops \<Rightarrow> 64 word \<Rightarrow> 'd queue \<Rightarrow> ((64 word xres \<times> 'd list) \<times> 'd queue) outcome" where
  "try_dequeue_bulk T E mx q = bulk_each (list_fuel q) T E mx 0 (producerListTail q) q"

text \<open>
  The loop compares with \<open>token.currentProducer\<close>, which it moves to every producer that gave
  something, so it may go around twice.
\<close>

fun ring_bulk ::
  "nat \<Rightarrow> traits \<Rightarrow> 'd elem_ops \<Rightarrow> nat option \<Rightarrow> 64 word \<Rightarrow> 64 word \<Rightarrow> nat option \<Rightarrow> ConsumerToken \<Rightarrow> 'd queue \<Rightarrow>
   ((64 word xres \<times> 'd list) \<times> ConsumerToken \<times> 'd queue) outcome" where
  "ring_bulk 0 T E tail mx cnt ptr token q = No_Fuel"
| "ring_bulk (Suc f) T E tail mx cnt ptr token q =
     (if ptr = currentProducer token then Ret ((Val cnt, []), token, q)
      else case ptr of
        None \<Rightarrow> Undefined
      | Some i \<Rightarrow>
          and_then (on_prod (any_dequeue_bulk T E mx) i q) (\<lambda>((r, els), q1).
            case r of
              Exc \<Rightarrow> Ret ((Exc, els), token, q1)
            | Val taken \<Rightarrow>
                let cnt' = cnt + taken;
                    token' = (if taken \<noteq> 0 then token\<lparr>currentProducer := ptr, itemsConsumedFromCurrent := ucast taken\<rparr> else token)
                in if taken = mx then Ret ((Val cnt', els), token', q1)
                   else
                     and_then (ring_step q1 tail ptr) (\<lambda>ptr'.
                     and_then (ring_bulk f T E tail (mx - taken) cnt' ptr' token' q1) (\<lambda>((r', rest), token'', q2).
                       Ret ((r', els @ rest), token'', q2)))))"

definition try_dequeue_bulk_token ::
  "traits \<Rightarrow> 'd elem_ops \<Rightarrow> ConsumerToken \<Rightarrow> 64 word \<Rightarrow> 'd queue \<Rightarrow>
   ((64 word xres \<times> 'd list) \<times> ConsumerToken \<times> 'd queue) outcome" where
  "try_dequeue_bulk_token T E token mx q =
     and_then (if token_stale token q then update_current_producer_after_rotation token q else Ret (True, token)) (\<lambda>(ok, token1).
       if \<not> ok then Ret ((Val 0, []), token1, q)
       else case currentProducer token1 of
         None \<Rightarrow> Undefined
       | Some c \<Rightarrow>
           and_then (on_prod (any_dequeue_bulk T E mx) c q) (\<lambda>((r, els), q1).
             case r of
               Exc \<Rightarrow> Ret ((Exc, els), token1, q1)
             | Val cnt \<Rightarrow>
                 if cnt = mx then
                   let n = itemsConsumedFromCurrent token1 + ucast mx in
                   Ret ((Val mx, els), token1\<lparr>itemsConsumedFromCurrent := n\<rparr>,
                     if n \<ge> EXPLICIT_CONSUMER_CONSUMPTION_QUOTA_BEFORE_ROTATE T
                     then q1\<lparr>globalExplicitConsumerOffset := globalExplicitConsumerOffset q1 + 1\<rparr> else q1)
                 else
                   let token2 = token1\<lparr>itemsConsumedFromCurrent := itemsConsumedFromCurrent token1 + ucast cnt\<rparr>;
                       tail = producerListTail q1
                   in and_then (ring_step q1 tail (Some c)) (\<lambda>ptr.
                      and_then (ring_bulk (2 * list_fuel q1) T E tail (mx - cnt) cnt ptr token2 q1) (\<lambda>((r', rest), token3, q2).
                        Ret ((r', els @ rest), token3, q2)))))"

fun size_loop :: "nat \<Rightarrow> 64 word \<Rightarrow> nat option \<Rightarrow> 'd queue \<Rightarrow> 64 word outcome" where
  "size_loop 0 sz ptr q = No_Fuel"
| "size_loop (Suc f) sz ptr q =
     (case ptr of
        None \<Rightarrow> Ret sz
      | Some i \<Rightarrow> with_prod i q (\<lambda>a. size_loop f (sz + producer_size_approx (prod_base a)) (next_prod a) q))"

definition size_approx :: "'d queue \<Rightarrow> 64 word outcome" where
  "size_approx q = size_loop (list_fuel q) 0 (producerListTail q) q"

section \<open>Destruction, moving and swapping\<close>

definition any_destroy :: "traits \<Rightarrow> any_producer \<Rightarrow> 'd mem \<Rightarrow> 'd mem outcome" where
  "any_destroy T a m = (case a of Explicit p \<Rightarrow> explicit_producer_destroy T p m | Implicit p \<Rightarrow> implicit_producer_destroy T p m)"

fun destroy_producers :: "nat \<Rightarrow> traits \<Rightarrow> nat option \<Rightarrow> 'd queue \<Rightarrow> 'd queue outcome" where
  "destroy_producers 0 T ptr q = No_Fuel"
| "destroy_producers (Suc f) T ptr q =
     (case ptr of
        None \<Rightarrow> Ret q
      | Some i \<Rightarrow> with_prod i q (\<lambda>a.
          let q1 = (case p_token (prod_base a) of None \<Rightarrow> q | Some t \<Rightarrow> q\<lparr>ptokens := (ptokens q)(t := Some None)\<rparr>)
          in and_then (any_destroy T a (q_mem q1)) (\<lambda>m1. destroy_producers f T (next_prod a) (q1\<lparr>q_mem := m1\<rparr>))))"

fun destroy_free_list :: "nat \<Rightarrow> nat option \<Rightarrow> 'd mem \<Rightarrow> 'd mem outcome" where
  "destroy_free_list 0 block m = No_Fuel"
| "destroy_free_list (Suc f) block m =
     (case block of
        None \<Rightarrow> Ret m
      | Some b \<Rightarrow> with_block b m (\<lambda>blk.
          destroy_free_list f (freeListNext blk) (if dynamicallyAllocated blk then destroy_block b m else m)))"

text \<open>
  \<open>~ConcurrentQueue\<close>: what is left are the tokens, now without producer, and the memory. (Freeing the
  hash tables touches neither.) \<open>destroy_array\<close> frees the initial pool as a whole.
\<close>

definition queue_destroy :: "traits \<Rightarrow> 'd queue \<Rightarrow> ((nat \<Rightarrow> nat option option) \<times> 'd mem) outcome" where
  "queue_destroy T q =
     and_then (destroy_producers (list_fuel q) T (producerListTail q) q) (\<lambda>q1.
     and_then (destroy_free_list (Suc (nblocks (q_mem q1))) (freeListHead (q_mem q1)) (q_mem q1)) (\<lambda>m1.
       Ret (ptokens q1, foldr destroy_block (initialBlockPool m1) m1)))"

text \<open>
  \<open>swap_implicit_producer_hashes\<close>: the embedded tables are exchanged by content, the chains by
  pointer, and then the end of each chain is set back to its own object's table.
\<close>

definition patch_hash_end :: "nat \<Rightarrow> 'd queue \<Rightarrow> 'd queue outcome" where
  "patch_hash_end other q = (if hash_end q = other then Ret (q\<lparr>hash_end := q_this q\<rparr>) else Undefined)"

definition swap_implicit_producer_hashes :: "traits \<Rightarrow> 'd queue \<Rightarrow> 'd queue \<Rightarrow> ('d queue \<times> 'd queue) outcome" where
  "swap_implicit_producer_hashes T q r =
     (if INITIAL_IMPLICIT_PRODUCER_HASH_SIZE T = 0 then Ret (q, r)
      else
        let q1 = q\<lparr>initialImplicitProducerHash := initialImplicitProducerHash r, implicitProducerHashCount := implicitProducerHashCount r,
                    hash_dyn := hash_dyn r, hash_end := hash_end r\<rparr>;
            r1 = r\<lparr>initialImplicitProducerHash := initialImplicitProducerHash q, implicitProducerHashCount := implicitProducerHashCount q,
                    hash_dyn := hash_dyn q, hash_end := hash_end q\<rparr>
        in and_then (patch_hash_end (q_this r) q1) (\<lambda>q2. and_then (patch_hash_end (q_this q) r1) (\<lambda>r2. Ret (q2, r2))))"

text \<open>
  The block memory of the model holds a queue's free list, its initial pool and its blocks, so these
  are exchanged with it; tokens and listeners go with the producers they refer to. A queue swapped
  with itself is left alone.
\<close>

definition swap_internal :: "traits \<Rightarrow> 'd queue \<Rightarrow> 'd queue \<Rightarrow> ('d queue \<times> 'd queue) outcome" where
  "swap_internal T q r =
     (if q_this q = q_this r then Ret (q, r)
      else
        let q1 = q\<lparr>producerListTail := producerListTail r, producerCount := producerCount r, producers := producers r, q_mem := q_mem r,
                    nextExplicitConsumerId := nextExplicitConsumerId r, globalExplicitConsumerOffset := globalExplicitConsumerOffset r,
                    ptokens := ptokens r, exit_listeners := exit_listeners r\<rparr>;
            r1 = r\<lparr>producerListTail := producerListTail q, producerCount := producerCount q, producers := producers q, q_mem := q_mem q,
                    nextExplicitConsumerId := nextExplicitConsumerId q, globalExplicitConsumerOffset := globalExplicitConsumerOffset q,
                    ptokens := ptokens q, exit_listeners := exit_listeners q\<rparr>
        in and_then (swap_implicit_producer_hashes T q1 r1) (\<lambda>(q2, r2).
           and_then (reown_producers q2) (\<lambda>q3. and_then (reown_producers r2) (\<lambda>r3. Ret (q3, r3)))))"

text \<open>
  \<open>ConcurrentQueue(ConcurrentQueue&&)\<close> at the address \<open>this\<close>; \<open>other\<close> is left as an empty queue without
  initial pool or free list, over memory \<open>m\<close> that holds none of the blocks that moved.
\<close>

definition ConcurrentQueue_move :: "traits \<Rightarrow> nat \<Rightarrow> 'd queue \<Rightarrow> 'd mem \<Rightarrow> ('d queue \<times> 'd queue) outcome" where
  "ConcurrentQueue_move T this other m =
     (let q1 = other\<lparr>q_this := this, hash_dyn := [], hash_end := this,
                     initialImplicitProducerHash := populate_initial_implicit_producer_hash T,
                     implicitProducerHashCount := 0, implicitProducerHashResizeInProgress := False\<rparr>
      in and_then (swap_implicit_producer_hashes T q1 other) (\<lambda>(q2, other2).
           let other3 = other2\<lparr>producerListTail := None, producerCount := 0, producers := [], nextExplicitConsumerId := 0,
                 globalExplicitConsumerOffset := 0, ptokens := (\<lambda>_. None), exit_listeners := (\<lambda>_. []),
                 q_mem := m\<lparr>initialBlockPoolIndex := 0, initialBlockPoolSize := 0, initialBlockPool := [], freeListHead := None\<rparr>\<rparr>
           in and_then (reown_producers q2) (\<lambda>q3. Ret (q3, other3))))"

end
