(* ===== verification/CQ_Explicit_Proof.thy ===== *)
theory CQ_Explicit_Proof
  imports CQ_Explicit
begin

text \<open>
  The invariant of an explicit producer, and that it keeps the contract of a sub-queue as long as
  construction of elements does not throw and no bulk enqueue failed. Unbounded counters \<open>H \<le> Tl\<close>
  stand for the wrapping indices. The blocks of the circular list are \<open>blk S, \<dots>, blk (N - 1)\<close> in list
  order, numbered like the elements they were last filled with; those below the head's are empty.
\<close>

section \<open>Marking slots as empty\<close>

text \<open>The first \<open>k\<close> slots of the block have been dequeued, by either way of keeping track.\<close>

definition marked :: "traits \<Rightarrow> 'd block \<Rightarrow> nat \<Rightarrow> bool" where
  "marked T b k \<longleftrightarrow>
     (if by_flags T explicit_context then \<forall>s < bsz T. emptyFlags b (bsz T - 1 - s) \<longleftrightarrow> s < k
      else elementsCompletelyDequeued b = of_nat k)"

lemma marked_cong:
  "emptyFlags b' = emptyFlags b \<Longrightarrow> elementsCompletelyDequeued b' = elementsCompletelyDequeued b \<Longrightarrow> marked T b' k = marked T b k"
  by (simp add: marked_def)

lemma foldl_flags:
  "foldl (\<lambda>fl j. fl(g j := v)) fl js = (\<lambda>i. if i \<in> g ` set js then v else fl i)"
  by (induction js arbitrary: fl) auto

lemma is_empty_marked:
  assumes T: "traits_ok T" and "marked T b k" and "k \<le> bsz T"
  shows "is_empty T explicit_context b \<longleftrightarrow> k = bsz T"
proof (cases "by_flags T explicit_context")
  case True
  then have fl: "emptyFlags b (bsz T - 1 - s) \<longleftrightarrow> s < k" if "s < bsz T" for s using assms(2) that by (simp add: marked_def)
  have flip: "emptyFlags b i \<longleftrightarrow> bsz T - 1 - i < k" if "i < bsz T" for i
    using fl [of "bsz T - 1 - i"] that by simp
  have "list_all (emptyFlags b) [0..<bsz T] \<longleftrightarrow> (\<forall>i < bsz T. bsz T - 1 - i < k)"
    using flip by (auto simp: list_all_iff)
  also have "\<dots> \<longleftrightarrow> k = bsz T" using bsz_gt_1(2) [OF T] assms(3) by (auto dest: spec [of _ 0])
  finally show ?thesis using True by (simp add: is_empty_def)
next
  case False
  have lt: "k < 2 ^ 64" using assms(3) unat_lt_64 [of "BLOCK_SIZE T"] by simp
  have "of_nat k = BLOCK_SIZE T \<longleftrightarrow> k = bsz T" using unat_of_nat_64 [OF lt] by (metis of_nat_unat)
  with False assms(2) show ?thesis by (simp add: is_empty_def marked_def)
qed

lemma reset_marked: "marked T (reset_empty T explicit_context b) 0"
  by (auto simp: marked_def reset_empty_def foldl_flags [of id, simplified])

lemma reset_same [simp]:
  "elements (reset_empty T ctx b) = elements b" "blk_next (reset_empty T ctx b) = blk_next b"
  "freeListRefs (reset_empty T ctx b) = freeListRefs b"
  by (simp_all add: reset_empty_def)

lemma set_empty_marked:
  assumes T: "traits_ok T" and "marked T b (i mod bsz T)"
  shows "marked T (snd (set_empty T explicit_context (of_nat i) b)) (Suc (i mod bsz T))"
proof (cases "by_flags T explicit_context")
  case True
  have lt: "i mod bsz T < bsz T" using bsz_gt_1(2) [OF T] by simp
  have "bsz T - 1 - s = bsz T - 1 - i mod bsz T \<longleftrightarrow> s = i mod bsz T" if "s < bsz T" for s using that lt by linarith
  with True assms show ?thesis by (auto simp: marked_def set_empty_def slot_nat less_Suc_eq)
next
  case False
  with assms(2) show ?thesis by (simp add: marked_def set_empty_def Let_def add.commute)
qed

lemma set_empty_same [simp]:
  "elements (snd (set_empty T ctx i b)) = elements b" "blk_next (snd (set_empty T ctx i b)) = blk_next b"
  "freeListRefs (snd (set_empty T ctx i b)) = freeListRefs b"
  by (simp_all add: set_empty_def Let_def)

section \<open>The index\<close>

text \<open>Block number \<open>j\<close> of \<open>S \<le> j < N\<close> stands \<open>N - j\<close> places before the producer's front.\<close>

definition ex_index_ok ::
  "traits \<Rightarrow> ExplicitIndexHeader \<Rightarrow> 64 word \<Rightarrow> nat \<Rightarrow> nat \<Rightarrow> (nat \<Rightarrow> nat) \<Rightarrow> bool" where
  "ex_index_ok T h front S N blk \<longleftrightarrow>
     (\<exists>c. unat (ix_size h) = 2 ^ c \<and> 2 ^ c * bsz T \<le> 2 ^ 64) \<and> length (ix_entries h) = unat (ix_size h) \<and>
     unat front < unat (ix_size h) \<and> N - S \<le> unat (ix_size h) \<and>
     (\<forall>j \<in> {S..<N}. ix_entries h ! ring_pos (unat (ix_size h)) (unat front) (Suc N) j =
        Some \<lparr>ex_base = of_nat (j * bsz T), ex_block = Some (blk j)\<rparr>) \<and>
     (S < N \<longrightarrow> unat (ix_front h) < unat (ix_size h) \<and> unat front = Suc (unat (ix_front h)) mod unat (ix_size h))"

lemma ex_index_okD:
  assumes "ex_index_ok T h front S N blk"
  shows "0 < unat (ix_size h)" "length (ix_entries h) = unat (ix_size h)" "unat front < unat (ix_size h)"
    "N - S \<le> unat (ix_size h)"
    "\<And>j. S \<le> j \<Longrightarrow> j < N \<Longrightarrow> ix_entries h ! ring_pos (unat (ix_size h)) (unat front) (Suc N) j =
        Some \<lparr>ex_base = of_nat (j * bsz T), ex_block = Some (blk j)\<rparr>"
    "S < N \<Longrightarrow> unat (ix_front h) < unat (ix_size h)" "S < N \<Longrightarrow> unat front = Suc (unat (ix_front h)) mod unat (ix_size h)"
  using assms by (auto simp: ex_index_ok_def)

lemma ex_index_cap:
  assumes "ex_index_ok T h front S N blk"
  obtains c where "unat (ix_size h) = 2 ^ c" "2 ^ c * bsz T \<le> 2 ^ 64" "c < 64" "ix_size h = 2 ^ c"
proof -
  obtain c where c: "unat (ix_size h) = 2 ^ c" "2 ^ c * bsz T \<le> 2 ^ 64" using assms by (auto simp: ex_index_ok_def)
  have "(2 :: nat) ^ c < 2 ^ 64" using unat_lt_64 [of "ix_size h"] c(1) by simp
  then have "c < 64" using power_strict_increasing_iff [of "2 :: nat" c 64] by simp
  moreover have "ix_size h = of_nat (2 ^ c)" using c(1) by (metis word_eq_of_natI)
  ultimately show thesis using that [OF c] by simp
qed

lemma ex_next_front:
  assumes "ex_index_ok T h front S N blk"
  shows "unat ((front + 1) AND (ix_size h - 1)) = Suc (unat front) mod unat (ix_size h)"
proof -
  obtain c where c: "unat (ix_size h) = 2 ^ c" "c < 64" "ix_size h = 2 ^ c" using ex_index_cap [OF assms] by blast
  have "front + 1 = of_nat (Suc (unat front))" by simp
  then show ?thesis using unat_and_mask [of c "Suc (unat front)"] c by (simp add: add.commute)
qed

text \<open>A consumer finds the block of an index.\<close>

lemma ex_place:
  assumes T: "traits_ok T" and h: "ex_blockIndex p = h # hs" and ok: "ex_index_ok T h front S N blk" and j: "S \<le> j" "j < N"
  shows "explicit_block_at (of_nat (ring_pos (unat (ix_size h)) (unat (ix_front h)) N j)) p = Ret (blk j)"
    and "j = i div bsz T \<Longrightarrow> explicit_index_of T (of_nat i) p = Ret (of_nat (ring_pos (unat (ix_size h)) (unat (ix_front h)) N j))"
proof -
  let ?cap = "unat (ix_size h)" and ?t = "unat (ix_front h)"
  note D = ex_index_okD [OF ok]
  have SN: "S < N" using j by simp
  note F = D(6,7) [OF SN]
  have place: "ring_pos ?cap (unat front) (Suc N) i = ring_pos ?cap ?t N i" if "S \<le> i" "i < N" for i
    using ring_pos_Suc [of i N ?cap ?t] that D(4) F by simp
  show "explicit_block_at (of_nat (ring_pos ?cap ?t N j)) p = Ret (blk j)"
    using D(2) D(5) [OF j] place [OF j] ring_pos_less [OF D(1), of ?t N j] unat_lt_64 [of "ix_size h"]
    by (simp add: explicit_block_at_def h nth_out_def unat_of_nat_64)
  assume ji: "j = i div bsz T"
  obtain c where c: "?cap = 2 ^ c" "2 ^ c * bsz T \<le> 2 ^ 64" "c < 64" "ix_size h = 2 ^ c"
    using ex_index_cap [OF ok] by blast
  obtain k where k: "bsz T = 2 ^ k" using bsz_pow2 [OF T] by blast
  define d where "d = N - 1 - j"
  have dN: "j + d = N - 1" "d < 2 ^ c" using j D(4) c(1) by (auto simp: d_def)
  have last: "ix_entries h ! ?t = Some \<lparr>ex_base = of_nat ((N - 1) * bsz T), ex_block = Some (blk (N - 1))\<rparr>"
    using D(5) [of "N - 1"] place [of "N - 1"] ring_pos_last [OF F(1), of N] SN by simp
  have "explicit_index_of T (of_nat i) p =
      Ret ((ix_front h + (of_nat (j * bsz T) - of_nat ((j + d) * bsz T)) div BLOCK_SIZE T) AND (ix_size h - 1))"
    using D(2) F(1) last
    by (simp add: explicit_index_of_def h nth_out_def base_of_def and_not_block_mask [OF T] dN(1) ji [symmetric] Let_def)
  also have "\<dots> = Ret (of_nat (ring_pos ?cap ?t N j))"
    using ring_offset [OF T k, of c d "?t" j] c dN(2) by (simp add: k ring_pos_def d_def)
  finally show "explicit_index_of T (of_nat i) p = Ret (of_nat (ring_pos ?cap ?t N j))" .
qed

lemma ex_lookup:
  assumes T: "traits_ok T" and h: "ex_blockIndex p = h # hs" and ok: "ex_index_ok T h front S N blk"
    and j: "S \<le> i div bsz T" "i div bsz T < N"
  shows "\<exists>q. explicit_index_of T (of_nat i) p = Ret q \<and> explicit_block_at q p = Ret (blk (i div bsz T))"
  using ex_place [OF assms] by blast

text \<open>Entering the next block, with or without dropping the oldest.\<close>

lemma ex_put_entry:
  assumes ok: "ex_index_ok T h front S N blk" and S': "S \<le> S'" "S' \<le> N" "Suc N - S' \<le> unat (ix_size h)"
    and blk': "\<And>j. S' \<le> j \<Longrightarrow> j < N \<Longrightarrow> blk' j = blk j" "blk' N = b"
  shows "ex_index_ok T (h\<lparr>ix_entries := (ix_entries h)[unat front := Some \<lparr>ex_base = of_nat (N * bsz T), ex_block = Some b\<rparr>],
      ix_front := front\<rparr>) ((front + 1) AND (ix_size h - 1)) S' (Suc N) blk'"
proof -
  let ?cap = "unat (ix_size h)" and ?f = "unat front"
  let ?es = "(ix_entries h)[?f := Some \<lparr>ex_base = of_nat (N * bsz T), ex_block = Some b\<rparr>]"
  note D = ex_index_okD [OF ok]
  have next': "unat ((front + 1) AND (ix_size h - 1)) = Suc ?f mod ?cap" by (rule ex_next_front [OF ok])
  have pos: "ring_pos ?cap (Suc ?f mod ?cap) (Suc (Suc N)) j = ring_pos ?cap ?f (Suc N) j" if "S' \<le> j" "j < Suc N" for j
    using that S' D(3) by (intro ring_pos_Suc) auto
  have here: "ring_pos ?cap ?f (Suc N) N = ?f" using ring_pos_last [OF D(3), of "Suc N"] by simp
  have "?es ! ring_pos ?cap (Suc ?f mod ?cap) (Suc (Suc N)) j = Some \<lparr>ex_base = of_nat (j * bsz T), ex_block = Some (blk' j)\<rparr>"
    if j: "j \<in> {S'..<Suc N}" for j
  proof (cases "j = N")
    case True
    then show ?thesis using pos [of N] here S' D(2,3) blk'(2) by simp
  next
    case False
    with j have j': "S' \<le> j" "j < N" by auto
    have "Suc N - j \<le> ?cap" using j' S' by linarith
    then have "ring_pos ?cap ?f (Suc N) j \<noteq> ring_pos ?cap ?f (Suc N) N"
      using ring_pos_inj [of ?cap ?f "Suc N" j N] j' D(1,3) by auto
    with pos [of j] j' D(5) [of j] S'(1) here blk'(1) show ?thesis by simp
  qed
  with ok S' next' D(1,3) show ?thesis by (simp add: ex_index_ok_def)
qed

text \<open>Growth: the ring is copied in order, oldest first, when it is full.\<close>

lemma mod_step_neq: "0 < k \<Longrightarrow> k < c \<Longrightarrow> (i + k) mod c \<noteq> i mod (c :: nat)"
  using mod_eq_dvd_iff_nat [of i "i + k" c] by (auto dest: dvd_imp_le)

lemma copy_entries_run:
  assumes "length es = 2 ^ c" "c < 64" "i < 2 ^ c" and "0 < n" "n \<le> 2 ^ c" "n \<le> f" and "unat front = (i + n) mod 2 ^ c"
  shows "copy_entries f es (2 ^ c - 1) (of_nat i) front = Ret (map (\<lambda>k. es ! ((i + k) mod 2 ^ c)) [0..<n])"
  using assms(3-7)
proof (induction n arbitrary: i f)
  case (Suc n)
  obtain f' where f: "f = Suc f'" using Suc.prems(4) by (cases f) auto
  have p64: "(2 :: nat) ^ c < 2 ^ 64" using assms(2) by (intro power_strict_increasing) auto
  have i: "unat (of_nat i :: 64 word) = i" using Suc.prems(1) p64 by (intro unat_of_nat_64) linarith
  have next': "(of_nat i + 1) AND (2 ^ c - 1) = (of_nat (Suc i mod 2 ^ c) :: 64 word)"
    using and_mask_nat [of c "Suc i"] assms(2) by (simp add: add.commute)
  have lt: "Suc i mod 2 ^ c < 2 ^ c" by simp
  have un: "unat (of_nat (Suc i mod 2 ^ c) :: 64 word) = Suc i mod 2 ^ c" using lt p64 by (intro unat_of_nat_64) linarith
  show ?case
  proof (cases n)
    case 0
    then have "of_nat (Suc i mod 2 ^ c) = front" using Suc.prems(5) un by (simp add: word_unat_eq_iff)
    then show ?thesis using Suc.prems(1) assms(1) i 0 by (simp add: f nth_out_def next')
  next
    case (Suc n')
    have sum: "(Suc i mod 2 ^ c + n) mod 2 ^ c = (i + Suc n) mod 2 ^ c" by (simp add: mod_simps)
    have "(Suc i + n) mod 2 ^ c \<noteq> Suc i mod 2 ^ c" using Suc.prems(3) Suc by (intro mod_step_neq) auto
    then have "of_nat (Suc i mod 2 ^ c) \<noteq> front" using Suc.prems(5) un by (metis add_Suc add_Suc_right)
    moreover have "copy_entries f' es (2 ^ c - 1) (of_nat (Suc i mod 2 ^ c)) front =
        Ret (map (\<lambda>k. es ! ((Suc i mod 2 ^ c + k) mod 2 ^ c)) [0..<n])"
      using Suc.IH [of "Suc i mod 2 ^ c" f'] Suc.prems Suc f lt sum by simp
    moreover have "map (\<lambda>k. es ! ((i + k) mod 2 ^ c)) [0..<Suc n] =
        es ! i # map (\<lambda>k. es ! ((Suc i mod 2 ^ c + k) mod 2 ^ c)) [0..<n]"
      using Suc.prems(1) by (simp add: map_upt_Suc mod_simps del: upt_Suc)
    ultimately show ?thesis using Suc.prems(1) assms(1) i by (simp add: f nth_out_def next' Let_def del: upt_Suc)
  qed
qed simp

lemma double_fits:
  assumes T: "traits_ok T" and "unat (x :: 64 word) = 2 ^ c" and "2 ^ Suc c * bsz T \<le> 2 ^ 64"
  shows "Suc c < 64" and "push_bit 1 x = 2 ^ Suc c" and "drop_bit 1 (push_bit 1 x) = x"
proof -
  have "2 ^ Suc c * 2 \<le> 2 ^ Suc c * bsz T" using bsz_gt_1(1) [OF T] by (intro mult_le_mono2) simp
  then have "(2 :: nat) ^ Suc c * 2 \<le> 2 ^ 64" by (rule order.trans [OF _ assms(3)])
  then have "(2 :: nat) ^ (c + 2) \<le> 2 ^ 64" by (simp add: power_add)
  then show c2: "Suc c < 64" using power_increasing_iff [of "2 :: nat" "c + 2" 64] by simp
  have "x = of_nat (2 ^ c)" using assms(2) by (metis word_eq_of_natI)
  then show eq: "push_bit 1 x = 2 ^ Suc c" by (simp add: push_bit_eq_mult)
  have "unat (drop_bit 1 (push_bit 1 x)) = unat x"
    unfolding eq unat_drop_bit_eq unat_pow2 [OF c2] assms(2) by (simp add: drop_bit_eq_div)
  then show "drop_bit 1 (push_bit 1 x) = x" by (simp add: word_unat_eq_iff)
qed

lemma explicit_index_grow:
  assumes T: "traits_ok T" and h: "ex_blockIndex p = h # hs" "pr_blockIndexSize p = ix_size h"
    and ok: "ex_index_ok T h (pr_blockIndexFront p) S N blk"
    and full: "N - S = unat (ix_size h)" "pr_blockIndexSlotsUsed p = of_nat (N - S)"
    and big: "2 * unat (ix_size h) * bsz T \<le> 2 ^ 64"
  shows "\<exists>p' m'. explicit_new_block_index (pr_blockIndexSlotsUsed p) p m = Ret (malloc_ok m (mallocs m), p', m') \<and>
    m' = m\<lparr>mallocs := Suc (mallocs m)\<rparr> \<and>
    (if malloc_ok m (mallocs m) then \<exists>h' front. p' = p\<lparr>pr_blockIndexSize := ix_size h', pr_blockIndexFront := front,
         ex_blockIndex := h' # ex_blockIndex p\<rparr> \<and>
       ex_index_ok T h' front S N blk \<and> N - S < unat (ix_size h')
     else p' = p)"
proof -
  let ?cap = "unat (ix_size h)" and ?f = "unat (pr_blockIndexFront p)"
  note D = ex_index_okD [OF ok]
  obtain c where c: "?cap = 2 ^ c" "c < 64" "ix_size h = 2 ^ c" using ex_index_cap [OF ok] by blast
  have big': "2 ^ Suc c * bsz T \<le> 2 ^ 64" using big c(1) by simp
  note c2 = double_fits(1) [OF T c(1) big'] and size' = double_fits(2) [OF T c(1) big'] and shrink = double_fits(3) [OF T c(1) big']
  show ?thesis
  proof (cases "malloc_ok m (mallocs m)")
    case False
    moreover have "p\<lparr>pr_blockIndexSize := drop_bit 1 (push_bit 1 (pr_blockIndexSize p))\<rparr> = p" unfolding h(2) shrink
      unfolding h(2) [symmetric] by simp
    ultimately show ?thesis by (simp add: explicit_new_block_index_def malloc_def Let_def)
  next
    case True
    define es where "es = map (\<lambda>k. ix_entries h ! ((?f + k) mod 2 ^ c)) [0..<2 ^ c]"
    define h' where "h' = \<lparr>ix_size = 2 ^ Suc c, ix_front = pr_blockIndexSlotsUsed p - 1,
       ix_entries = es @ replicate (2 ^ c) None\<rparr>"
    have p64: "(2 :: nat) ^ Suc c < 2 ^ 64" using c2 by (intro power_strict_increasing) auto
    have slots: "pr_blockIndexSlotsUsed p = 2 ^ c" using full c(1) by simp
    have "(pr_blockIndexFront p - pr_blockIndexSlotsUsed p) AND (ix_size h - 1) = of_nat ?f"
    proof -
      have "pr_blockIndexFront p - pr_blockIndexSlotsUsed p = of_nat (?f + 2 ^ c * (2 ^ (64 - c) - 1))"
      proof -
        have "(2 :: nat) ^ c * (2 ^ (64 - c) - 1) = 2 ^ 64 - 2 ^ c"
          using c(2) by (simp add: algebra_simps flip: power_add)
        moreover have "(2 :: nat) ^ c \<le> 2 ^ 64" using p64 by simp
        ultimately have "(of_nat (2 ^ c * (2 ^ (64 - c) - 1)) :: 64 word) = - (2 ^ c)"
          by (simp only: of_nat_diff) simp
        then show ?thesis by (simp only: of_nat_add slots of_nat_unat) simp
      qed
      then show ?thesis using and_mask_nat [of c "?f + 2 ^ c * (2 ^ (64 - c) - 1)"] c D(3) by (simp only: mod_mult_self2) simp
    qed
    moreover have "copy_entries (length (ix_entries h)) (ix_entries h) (2 ^ c - 1) (of_nat ?f) (pr_blockIndexFront p) = Ret es"
      unfolding es_def using c D by (intro copy_entries_run) (simp_all add: es_def)
    ultimately have run: "explicit_new_block_index (pr_blockIndexSlotsUsed p) p m =
        Ret (True, p\<lparr>pr_blockIndexSize := ix_size h', pr_blockIndexFront := of_nat (2 ^ c), ex_blockIndex := h' # ex_blockIndex p\<rparr>,
          m\<lparr>mallocs := Suc (mallocs m)\<rparr>)"
      using True h slots c(2,3) size' unat_pow2 [OF c2]
      by (simp add: explicit_new_block_index_def malloc_def Let_def h'_def) (simp add: es_def mult.commute)
    have unats: "unat (ix_size h') = 2 ^ Suc c" "unat (of_nat (2 ^ c) :: 64 word) = 2 ^ c"
      using unat_pow2 [OF c2] unat_of_nat_64 [of "2 ^ c"] p64 by (simp_all add: h'_def)
    have es_nth: "es ! k = ix_entries h ! ((?f + k) mod 2 ^ c)" if "k < 2 ^ c" for k using that by (simp add: es_def)
    have place: "ix_entries h' ! ring_pos (2 ^ Suc c) (2 ^ c) (Suc N) j = Some \<lparr>ex_base = of_nat (j * bsz T), ex_block = Some (blk j)\<rparr>"
      if j: "S \<le> j" "j < N" for j
    proof -
      have le: "N - j \<le> 2 ^ c" "0 < N - j" using j full c(1) by auto
      have "ring_pos (2 ^ Suc c) (2 ^ c) (Suc N) j = 2 ^ c - (N - j)"
      proof -
        have "2 ^ c + 2 ^ Suc c - (Suc N - 1 - j) = (2 ^ c - (N - j)) + 2 ^ Suc c" using le by simp
        moreover have "2 ^ c - (N - j) < 2 ^ Suc c" by (rule order.strict_trans1 [of _ "2 ^ c"]) simp_all
        ultimately show ?thesis by (simp only: ring_pos_def mod_add_self2 mod_less)
      qed
      moreover have "es ! (2 ^ c - (N - j)) = ix_entries h ! ((?f + (2 ^ c - (N - j))) mod 2 ^ c)" by (rule es_nth) (use le in simp)
      moreover have "(?f + (2 ^ c - (N - j))) mod 2 ^ c = ring_pos ?cap ?f (Suc N) j" using le by (simp add: ring_pos_def c(1) add.assoc)
      moreover have "length es = 2 ^ c" by (simp add: es_def)
      ultimately show ?thesis using D(5) [OF j] le by (simp add: h'_def nth_append)
    qed
    have "unat (ix_front h') = 2 ^ c - 1" using slots c(2) unat_minus_1 [of "2 ^ c"] unat_pow2 [OF c(2)] by (simp add: h'_def)
    moreover have "2 ^ Suc c * bsz T \<le> 2 ^ 64" using big c(1) by simp
    moreover have "length (ix_entries h') = 2 ^ Suc c" by (simp add: h'_def es_def)
    ultimately have "ex_index_ok T h' (of_nat (2 ^ c)) S N blk"
      unfolding ex_index_ok_def unats using place full(1) c(1) by (auto intro!: exI [of _ "Suc c"])
    moreover have "N - S < unat (ix_size h')" using full(1) unats(1) c(1) by simp
    ultimately show ?thesis using run True by auto
  qed
qed

section \<open>The invariant\<close>

definition ex_holds :: "traits \<Rightarrow> nat \<Rightarrow> nat \<Rightarrow> (nat \<Rightarrow> 'd) \<Rightarrow> nat \<Rightarrow> 'd block \<Rightarrow> bool" where
  "ex_holds T H Tl ctn j b \<longleftrightarrow>
     (\<forall>s. elements b s = (if s < bsz T \<and> H \<le> j * bsz T + s \<and> j * bsz T + s < Tl
        then Some (ctn (j * bsz T + s)) else None)) \<and>
     marked T b (min (bsz T) (H - j * bsz T))"

abbreviation ring_next :: "nat \<Rightarrow> nat \<Rightarrow> nat \<Rightarrow> nat" where
  "ring_next S N j \<equiv> if Suc j = N then S else Suc j"

definition exp_index :: "traits \<Rightarrow> explicit_producer \<Rightarrow> nat \<Rightarrow> nat \<Rightarrow> (nat \<Rightarrow> nat) \<Rightarrow> bool" where
  "exp_index T p S N blk \<longleftrightarrow> pr_blockIndexSlotsUsed p = of_nat (N - S) \<and>
     (case ex_blockIndex p of
        [] \<Rightarrow> N = S \<and> (\<exists>c. unat (pr_blockIndexSize p) = 2 ^ c \<and> 2 ^ Suc c * bsz T \<le> 2 ^ 64)
      | h # _ \<Rightarrow> pr_blockIndexSize p = ix_size h \<and> ex_index_ok T h (pr_blockIndexFront p) S N blk)"

definition exp_inv ::
  "traits \<Rightarrow> explicit_producer \<Rightarrow> 'd mem \<Rightarrow> nat \<Rightarrow> nat \<Rightarrow> nat \<Rightarrow> (nat \<Rightarrow> nat) \<Rightarrow> (nat \<Rightarrow> 'd) \<Rightarrow> bool" where
  "exp_inv T p m S H Tl blk ctn \<longleftrightarrow>
     headIndex p = of_nat H \<and> tailIndex p = of_nat Tl \<and> dequeueOptimisticCount p - dequeueOvercommit p = of_nat H \<and>
     H \<le> Tl \<and> nblk T Tl * bsz T < H + 2 ^ 63 \<and> S \<le> H div bsz T \<and> S \<le> nblk T Tl \<and>
     tailBlock p = (if S = nblk T Tl then None else Some (blk (nblk T Tl - 1))) \<and>
     inj_on blk {S..<nblk T Tl} \<and>
     (\<forall>j \<in> {S..<nblk T Tl}. \<exists>b. blocks m (blk j) = Some b \<and> blk_next b = Some (blk (ring_next S (nblk T Tl) j)) \<and>
        ex_holds T H Tl ctn j b) \<and>
     exp_index T p S (nblk T Tl) blk"

lemma exp_invD:
  assumes "exp_inv T p m S H Tl blk ctn"
  shows "headIndex p = of_nat H" "tailIndex p = of_nat Tl" "dequeueOptimisticCount p - dequeueOvercommit p = of_nat H"
    "H \<le> Tl" "nblk T Tl * bsz T < H + 2 ^ 63" "S \<le> H div bsz T" "S \<le> nblk T Tl"
    "tailBlock p = (if S = nblk T Tl then None else Some (blk (nblk T Tl - 1)))" "inj_on blk {S..<nblk T Tl}"
    "\<And>j. S \<le> j \<Longrightarrow> j < nblk T Tl \<Longrightarrow> \<exists>b. blocks m (blk j) = Some b \<and> blk_next b = Some (blk (ring_next S (nblk T Tl) j)) \<and>
        ex_holds T H Tl ctn j b"
    "exp_index T p S (nblk T Tl) blk"
  using assms by (auto simp: exp_inv_def)

lemma index_gap_ahead:
  assumes "H \<le> Tl" and "nblk T Tl * bsz T < H + 2 ^ 63" and "0 < bsz T"
  shows "circular_less_than (of_nat H) (of_nat Tl) \<longleftrightarrow> H < Tl"
proof -
  have "x \<le> y \<Longrightarrow> y < h + c \<Longrightarrow> 0 < c \<Longrightarrow> x - h < (c :: nat)" for x y h c by arith
  moreover have "Tl \<le> nblk T Tl * bsz T" using assms(3)
    by (cases Tl) (simp_all add: nblk_Suc less_eq_Suc_le [symmetric] dividend_less_div_times)
  ultimately have gap: "Tl - H < 2 ^ 63" using assms(2) by (metis zero_less_numeral zero_less_power)
  then show ?thesis using circular_less_than_ahead [of H Tl] assms(1) by auto
qed

section \<open>Dequeue\<close>

lemma ex_holds_drop:
  assumes T: "traits_ok T" and "ex_holds T H Tl ctn j b" and "j = H div bsz T"
  shows "ex_holds T (Suc H) Tl ctn j (snd (set_empty T explicit_context (of_nat H) (b\<lparr>elements := (elements b)(H mod bsz T := None)\<rparr>)))"
proof -
  note bs = bsz_gt_1(2) [OF T]
  have H: "j * bsz T + H mod bsz T = H" using assms(3) by simp
  have "Suc H \<le> j * bsz T + s \<longleftrightarrow> H \<le> j * bsz T + s \<and> s \<noteq> H mod bsz T" for s using H by linarith
  moreover have "min (bsz T) (H - j * bsz T) = H mod bsz T" "min (bsz T) (Suc H - j * bsz T) = Suc (H mod bsz T)"
    using H mod_less_divisor [OF bs, of H] by linarith+
  moreover have "marked T (b\<lparr>elements := (elements b)(H mod bsz T := None)\<rparr>) k = marked T b k" for k by (rule marked_cong) simp_all
  ultimately show ?thesis using assms set_empty_marked [OF T, of "b\<lparr>elements := (elements b)(H mod bsz T := None)\<rparr>" H]
    by (auto simp: ex_holds_def)
qed

lemma ex_holds_other:
  assumes "ex_holds T H Tl ctn i b" and "i \<noteq> H div bsz T" and "0 < bsz T"
  shows "ex_holds T (Suc H) Tl ctn i b"
proof (cases "H div bsz T < i")
  case True
  then have "H < i * bsz T" using assms(3) by (simp add: div_less_iff_less_mult)
  moreover from this have "Suc H \<le> i * bsz T + s \<longleftrightarrow> H \<le> i * bsz T + s" for s by linarith
  ultimately show ?thesis using assms(1) by (simp add: ex_holds_def)
next
  case False
  then have "i < H div bsz T" using assms(2) by simp
  then have "Suc i * bsz T \<le> H" using assms(3) by (metis Suc_leI less_eq_div_iff_mult_less_eq)
  then have le: "i * bsz T + bsz T \<le> H" by simp
  then have "\<not> (s < bsz T \<and> H \<le> i * bsz T + s)" "\<not> (s < bsz T \<and> Suc H \<le> i * bsz T + s)" for s by linarith+
  moreover have "min (bsz T) (H - i * bsz T) = bsz T" "min (bsz T) (Suc H - i * bsz T) = bsz T" using le by linarith+
  ultimately show ?thesis using assms(1) by (auto simp: ex_holds_def)
qed

lemma explicit_dequeue_spec:
  assumes T: "traits_ok T" and inv: "exp_inv T p m S H Tl blk ctn" and mem: "mem_inv m own"
    and sub: "blk ` {S..<nblk T Tl} \<subseteq> own"
  shows "if H < Tl then \<exists>p' m'. explicit_dequeue T E p m = Ret (if assign_raises E (ctn H) then Exc else Val (Some (ctn H)), p', m') \<and>
      same_links p' p \<and> exp_inv T p' m' S (Suc H) Tl blk ctn \<and> mem_inv m' own \<and> heap_limit m' = heap_limit m \<and>
      (\<forall>b \<in> own - blk ` {S..<nblk T Tl}. blocks m' b = blocks m b)
    else explicit_dequeue T E p m = Ret (Val None, p, m)"
proof -
  note I = exp_invD [OF inv] and bs = bsz_gt_1(2) [OF T]
  note ahead = index_gap_ahead [OF I(4,5) bs]
  show ?thesis
  proof (cases "H < Tl")
    case False
    then show ?thesis using ahead I(2,3) by (simp add: explicit_dequeue_def)
  next
    case lt: True
    let ?j = "H div bsz T" and ?N = "nblk T Tl"
    have jN: "S \<le> ?j" "?j < ?N" using live_Suc(1) [OF lt bs] I(6) by auto
    obtain h hs where h: "ex_blockIndex p = h # hs" "pr_blockIndexSize p = ix_size h" "ex_index_ok T h (pr_blockIndexFront p) S ?N blk"
      using I(11) jN by (auto simp: exp_index_def split: list.splits)
    define q where "q = p\<lparr>dequeueOptimisticCount := dequeueOptimisticCount p + 1, headIndex := headIndex p + 1\<rparr>"
    obtain i where look: "explicit_index_of T (of_nat H) q = Ret i" "explicit_block_at i q = Ret (blk ?j)"
      using ex_lookup [OF T, of q h hs "pr_blockIndexFront p" S ?N blk H] h jN by (auto simp: q_def)
    obtain bl where bl: "blocks m (blk ?j) = Some bl" "blk_next bl = Some (blk (ring_next S ?N ?j))" "ex_holds T H Tl ctn ?j bl"
      using I(10) [OF jN] by blast
    have here: "elements bl (H mod bsz T) = Some (ctn H)" using bl(3) lt bs by (simp add: ex_holds_def)
    let ?bl = "snd (set_empty T explicit_context (of_nat H) (bl\<lparr>elements := (elements bl)(H mod bsz T := None)\<rparr>))"
    let ?m = "put_block (blk ?j) ?bl m"
    have own: "blk ?j \<in> own" using sub jN by auto
    have "freeListRefs ?bl = 0" using pool.used [OF mem own] bl(1) by auto
    then have mem': "mem_inv ?m own" "blocks ?m = (blocks m)(blk ?j \<mapsto> ?bl)" using pool.put_used [OF mem own] by auto
    have "element_at T (of_nat H) (blk ?j) m = Ret (ctn H)"
      using here bl(1) by (simp add: element_at_def with_block_def slot_nat [OF T])
    moreover have "explicit_release T (of_nat H) (blk ?j) m = Ret ?m"
      using here bl(1) by (simp add: explicit_release_def destruct_Ret [OF T bl(1)] with_block_def put_block_def)
    ultimately have run: "explicit_dequeue T E p m = Ret (if assign_raises E (ctn H) then Exc else Val (Some (ctn H)), q, ?m)"
      using ahead lt I(1,2,3) look by (simp add: explicit_dequeue_def q_def Let_def)
    have holds: "\<exists>b. blocks ?m (blk i) = Some b \<and> blk_next b = Some (blk (ring_next S ?N i)) \<and> ex_holds T (Suc H) Tl ctn i b"
      if i: "i \<in> {S..<?N}" for i
    proof (cases "i = ?j")
      case True
      then show ?thesis using mem'(2) bl(2) ex_holds_drop [OF T bl(3) refl] by simp
    next
      case False
      then have "blk i \<noteq> blk ?j" using I(9) i jN by (auto simp: inj_on_def)
      then show ?thesis using I(10) [of i] i ex_holds_other [OF _ False bs] mem'(2) by auto
    qed
    have "exp_inv T q ?m S (Suc H) Tl blk ctn"
      unfolding exp_inv_def
    proof (intro conjI ballI)
      show "dequeueOptimisticCount q - dequeueOvercommit q = of_nat (Suc H)" using I(3) by (simp add: q_def algebra_simps)
      show "S \<le> Suc H div bsz T" by (rule order.trans [OF I(6)]) (simp add: div_le_mono)
      show "exp_index T q S ?N blk" using I(11) by (cases "ex_blockIndex p") (simp_all add: exp_index_def q_def)
    qed (use I lt holds in \<open>auto simp: q_def\<close>)
    moreover have "\<forall>b \<in> own - blk ` {S..<?N}. blocks ?m b = blocks m b" using mem'(2) jN by auto
    moreover have "same_links q p" "heap_limit ?m = heap_limit m" by (simp_all add: same_links_def q_def put_block_def)
    ultimately show ?thesis using run mem'(1) lt by auto
  qed
qed

section \<open>Enqueue\<close>

lemma ex_holds_add:
  assumes "ex_holds T H Tl ctn j b" and "H \<le> Tl" and "j = Tl div bsz T" and "0 < bsz T"
  shows "ex_holds T H (Suc Tl) (ctn(Tl := x)) j (b\<lparr>elements := (elements b)(Tl mod bsz T := Some x)\<rparr>)"
proof -
  have Tl: "j * bsz T + Tl mod bsz T = Tl" using assms(3) by simp
  have "j * bsz T + s < Suc Tl \<longleftrightarrow> j * bsz T + s < Tl \<or> s = Tl mod bsz T" for s using Tl by linarith
  moreover have "Tl mod bsz T < bsz T" using assms(4) by simp
  moreover have "marked T (b\<lparr>elements := (elements b)(Tl mod bsz T := Some x)\<rparr>) k = marked T b k" for k by (rule marked_cong) simp_all
  ultimately show ?thesis using assms Tl by (auto simp: ex_holds_def)
qed

lemma ex_holds_keep:
  assumes "ex_holds T H Tl ctn j b" and "j \<noteq> Tl div bsz T" and "0 < bsz T"
  shows "ex_holds T H (Suc Tl) (ctn(Tl := x)) j b"
proof -
  have "j * bsz T + s \<noteq> Tl" if "s < bsz T" for s using that assms(2) by auto
  then have "(s < bsz T \<and> H \<le> j * bsz T + s \<and> j * bsz T + s < Suc Tl) = (s < bsz T \<and> H \<le> j * bsz T + s \<and> j * bsz T + s < Tl)" for s
    by (metis less_Suc_eq)
  with assms(1) \<open>\<And>s. s < bsz T \<Longrightarrow> j * bsz T + s \<noteq> Tl\<close> show ?thesis by (simp add: ex_holds_def)
qed

text \<open>Writing an element into the tail block, once the block is there.\<close>

lemma ring_write:
  assumes T: "traits_ok T" and mem: "mem_inv m own" and sub: "blk ` {S..<N} \<subseteq> own" and inj: "inj_on blk {S..<N}"
    and ring: "\<forall>j \<in> {S..<N}. \<exists>b. blocks m (blk j) = Some b \<and> blk_next b = Some (blk (ring_next S N j)) \<and> ex_holds T H Tl ctn j b"
    and N: "N = Suc (Tl div bsz T)" "S < N" and HT: "H \<le> Tl"
  shows "\<exists>m'. construct T (of_nat Tl) x (blk (N - 1)) m = Ret m' \<and> mem_inv m' own \<and> heap_limit m' = heap_limit m \<and>
    (\<forall>b \<in> own - blk ` {S..<N}. blocks m' b = blocks m b) \<and>
    (\<forall>j \<in> {S..<N}. \<exists>b. blocks m' (blk j) = Some b \<and> blk_next b = Some (blk (ring_next S N j)) \<and>
       ex_holds T H (Suc Tl) (ctn(Tl := x)) j b)"
proof -
  let ?j = "Tl div bsz T"
  note bs = bsz_gt_1(2) [OF T]
  have j: "?j \<in> {S..<N}" using N by auto
  obtain bl where bl: "blocks m (blk ?j) = Some bl" "blk_next bl = Some (blk (ring_next S N ?j))" "ex_holds T H Tl ctn ?j bl"
    using ring j by blast
  let ?bl = "bl\<lparr>elements := (elements bl)(Tl mod bsz T := Some x)\<rparr>"
  let ?m = "put_block (blk ?j) ?bl m"
  have own: "blk ?j \<in> own" using sub j by blast
  have "freeListRefs ?bl = 0" using pool.used [OF mem own] bl(1) by auto
  then have mem': "mem_inv ?m own" "blocks ?m = (blocks m)(blk ?j \<mapsto> ?bl)" using pool.put_used [OF mem own] by auto
  have "\<exists>b. blocks ?m (blk i) = Some b \<and> blk_next b = Some (blk (ring_next S N i)) \<and> ex_holds T H (Suc Tl) (ctn(Tl := x)) i b"
    if i: "i \<in> {S..<N}" for i
  proof (cases "i = ?j")
    case True
    then show ?thesis using mem'(2) bl(2) ex_holds_add [OF bl(3) HT refl bs] by simp
  next
    case False
    then have "blk i \<noteq> blk ?j" using inj i j by (auto simp: inj_on_def)
    then show ?thesis using bspec [OF ring i] ex_holds_keep [OF _ False bs] mem'(2) by auto
  qed
  moreover have "\<forall>b \<in> own - blk ` {S..<N}. blocks ?m b = blocks m b" using mem'(2) j by auto
  ultimately show ?thesis using mem'(1) construct_Ret [OF T bl(1)] N(1) pool.limit_put by (intro exI [of _ ?m]) simp
qed

text \<open>
  The state between taking the next block and entering it into the index: the circular list has
  the block as its tail, the index does not know it yet.
\<close>

definition opened ::
  "traits \<Rightarrow> explicit_producer \<Rightarrow> 'd mem \<Rightarrow> nat set \<Rightarrow> nat set \<Rightarrow> nat \<Rightarrow> nat \<Rightarrow> (nat \<Rightarrow> 'd) \<Rightarrow>
   explicit_producer \<Rightarrow> 'd mem \<Rightarrow> nat \<Rightarrow> (nat \<Rightarrow> nat) \<Rightarrow> bool" where
  "opened T p m own B H Tl ctn p1 m1 S blk \<longleftrightarrow> (let N = Tl div bsz T in
     headIndex p1 = headIndex p \<and> tailIndex p1 = tailIndex p \<and> dequeueOptimisticCount p1 = dequeueOptimisticCount p \<and>
     dequeueOvercommit p1 = dequeueOvercommit p \<and> same_links p1 p \<and> tailBlock p1 = Some (blk N) \<and>
     S \<le> H div bsz T \<and> S \<le> N \<and> Suc N * bsz T < H + 2 ^ 63 \<and> inj_on blk {S..<Suc N} \<and>
     (\<forall>j \<in> {S..<Suc N}. \<exists>b. blocks m1 (blk j) = Some b \<and> blk_next b = Some (blk (ring_next S (Suc N) j)) \<and> ex_holds T H Tl ctn j b) \<and>
     pr_blockIndexSlotsUsed p1 = of_nat (Suc N - S) \<and>
     (\<exists>h hs S0 blk0. ex_blockIndex p1 = h # hs \<and> pr_blockIndexSize p1 = ix_size h \<and>
        ex_index_ok T h (pr_blockIndexFront p1) S0 N blk0 \<and> S0 \<le> S \<and> Suc N - S \<le> unat (ix_size h) \<and>
        (\<forall>j. S \<le> j \<longrightarrow> j < N \<longrightarrow> blk j = blk0 j)) \<and>
     moves m own B m1 (blk ` {S..<Suc N}) \<and> heap_limit m1 = heap_limit m)"

lemma ex_holds_fresh:
  "blank b \<Longrightarrow> marked T b 0 \<Longrightarrow> H \<le> Tl \<Longrightarrow> j * bsz T = Tl \<Longrightarrow> ex_holds T H Tl ctn j b"
  by (simp add: ex_holds_def blank_def)

lemma ring_bound:
  assumes mem: "mem_inv m own" and sub: "blk ` {S..<N} \<subseteq> own" and inj: "inj_on blk {S..<N}"
    and lim: "heap_limit m * bsz T < 2 ^ 63"
  shows "(N - S) * bsz T < 2 ^ 63"
proof -
  have "N - S = card (blk ` {S..<N})" using card_image [OF inj] by simp
  also have "\<dots> \<le> heap_limit m" using pool.few [OF mem] card_mono [OF _ sub] by (meson order.trans)
  finally have "(N - S) * bsz T \<le> heap_limit m * bsz T" by (rule mult_le_mono1)
  then show ?thesis by (rule order.strict_trans1 [OF _ lim])
qed

lemma next_block_reuse:
  assumes T: "traits_ok T" and inv: "exp_inv T p m S H Tl blk ctn" and mem: "mem_inv m own"
    and sub: "blk ` {S..<nblk T Tl} \<subseteq> own" and al: "Tl mod bsz T = 0" and lim: "heap_limit m * bsz T < 2 ^ 63"
    and empty: "tail_next_is_empty T p m = Ret True"
  shows "\<exists>p1 m1 S' blk'. reuse_ahead T p m = Ret (p1, m1) \<and> opened T p m own (blk ` {S..<nblk T Tl}) H Tl ctn p1 m1 S' blk'"
proof -
  note I = exp_invD [OF inv] and bs = bsz_gt_1(2) [OF T]
  define N where "N = Tl div bsz T"
  have N: "nblk T Tl = N" "N * bsz T = Tl" using al bs by (auto simp: nblk_aligned N_def)
  note I = I [unfolded N(1)] and sub = sub [unfolded N(1)]
  have SN: "S < N" "tailBlock p = Some (blk (N - 1))" using I(7,8) empty by (auto simp: tail_next_is_empty_def split: if_splits)
  obtain tb where tb: "blocks m (blk (N - 1)) = Some tb" "blk_next tb = Some (blk S)" using I(10) [of "N - 1"] SN(1) by force
  obtain nb where nb: "blocks m (blk S) = Some nb" "blk_next nb = Some (blk (ring_next S N S))" "ex_holds T H Tl ctn S nb"
    using I(10) [of S] SN by auto
  have "is_empty T explicit_context nb" using empty SN(2) tb nb(1) by (simp add: tail_next_is_empty_def with_block_def)
  then have "min (bsz T) (H - S * bsz T) = bsz T" using is_empty_marked [OF T, of nb "min (bsz T) (H - S * bsz T)"] nb(3) by (simp add: ex_holds_def)
  then have "Suc S * bsz T \<le> H" using bs by (simp add: min_def split: if_splits)
  then have SH: "Suc S \<le> H div bsz T" "Suc S * bsz T \<le> H" using bs by (simp_all add: less_eq_div_iff_mult_less_eq)
  have room: "Suc N * bsz T < H + 2 ^ 63"
  proof -
    have "(N - S) * bsz T < 2 ^ 63" by (rule ring_bound [OF mem sub I(9) lim])
    moreover have "Suc N * bsz T = (N - S) * bsz T + Suc S * bsz T" using SN(1) by (simp flip: add_mult_distrib)
    ultimately show ?thesis using SH(2) by linarith
  qed
  let ?nb = "reset_empty T explicit_context nb"
  let ?m = "put_block (blk S) ?nb m" and ?p = "p\<lparr>tailBlock := Some (blk S)\<rparr>" and ?blk = "blk(N := blk S)"
  have run: "reuse_ahead T p m = Ret (?p, ?m)" using SN(2) tb nb(1) by (simp add: reuse_ahead_def with_block_def)
  have own: "blk S \<in> own" using sub SN(1) by auto
  have "freeListRefs ?nb = 0" using pool.used [OF mem own] nb(1) by auto
  then have mem': "mem_inv ?m own" "blocks ?m = (blocks m)(blk S \<mapsto> ?nb)" using pool.put_used [OF mem own] by auto
  have img: "?blk ` {Suc S..<Suc N} = blk ` {S..<N}"
  proof -
    have "{Suc S..<Suc N} = insert N {Suc S..<N}" "{S..<N} = insert S {Suc S..<N}" using SN(1) by auto
    moreover have "?blk ` {Suc S..<N} = blk ` {Suc S..<N}" by (rule image_cong) auto
    ultimately show ?thesis by (simp only: image_insert fun_upd_same)
  qed
  have ne: "blk j \<noteq> blk S" if "Suc S \<le> j" "j < N" for j using inj_onD [OF I(9), of j S] that by auto
  have inj: "inj_on ?blk {Suc S..<Suc N}"
  proof (rule inj_onI)
    fix x y assume xy: "x \<in> {Suc S..<Suc N}" "y \<in> {Suc S..<Suc N}" "?blk x = ?blk y"
    then show "x = y" using ne [of x] ne [of y] inj_onD [OF I(9), of x y] by (cases "x = N"; cases "y = N") auto
  qed
  have blank: "blank nb" using nb(3) SH(2) by (auto simp: blank_def ex_holds_def)
  have fresh: "ex_holds T H Tl ctn N ?nb"
    using blank reset_marked [of T nb] I(4) N(2) by (intro ex_holds_fresh) (auto simp: blank_def)
  have ring: "\<exists>b. blocks ?m (?blk j) = Some b \<and> blk_next b = Some (?blk (ring_next (Suc S) (Suc N) j)) \<and> ex_holds T H Tl ctn j b"
    if j: "j \<in> {Suc S..<Suc N}" for j
  proof (cases "j = N")
    case True
    then show ?thesis using mem'(2) nb(2) fresh SN(1) by (cases "Suc S = N") auto
  next
    case False
    then have "blk j \<noteq> blk S" using ne j by auto
    moreover obtain b where "blocks m (blk j) = Some b" "blk_next b = Some (blk (ring_next S N j))" "ex_holds T H Tl ctn j b"
      using I(10) [of j] j False by auto
    ultimately show ?thesis using mem'(2) False j by (cases "Suc j = N") auto
  qed
  obtain h hs where h: "ex_blockIndex p = h # hs" "pr_blockIndexSize p = ix_size h" "ex_index_ok T h (pr_blockIndexFront p) S N blk"
    "pr_blockIndexSlotsUsed p = of_nat (N - S)" using I(11) SN(1) by (auto simp: exp_index_def split: list.splits)
  have "moves m own (blk ` {S..<N}) ?m (?blk ` {Suc S..<Suc N})"
    unfolding img moves_def using mem' sub SN(1) by (auto simp: Un_absorb2)
  then have "opened T p m own (blk ` {S..<N}) H Tl ctn ?p ?m (Suc S) ?blk"
    using SN(1) SH room inj ring h ex_index_okD(4) [OF h(3)]
    unfolding opened_def N_def [symmetric] Let_def by (auto simp: same_links_def put_block_def intro!: exI [of _ S] exI [of _ blk])
  with run show ?thesis unfolding N(1) by blast
qed

text \<open>Room in the index for one more block: it is there, or the index is allocated or doubled.\<close>

lemma explicit_index_first:
  assumes T: "traits_ok T" and "ex_blockIndex p = []" and "pr_blockIndexSlotsUsed p = 0"
    and c: "unat (pr_blockIndexSize p) = 2 ^ c" "2 ^ Suc c * bsz T \<le> 2 ^ 64"
  shows "\<exists>p'. explicit_new_block_index 0 p m = Ret (malloc_ok m (mallocs m), p', m\<lparr>mallocs := Suc (mallocs m)\<rparr>) \<and>
    (if malloc_ok m (mallocs m) then \<exists>h. p' = p\<lparr>pr_blockIndexSize := ix_size h, pr_blockIndexFront := 0, ex_blockIndex := [h]\<rparr> \<and>
       ex_index_ok T h 0 S S blk
     else p' = p)"
proof -
  note d = double_fits [OF T c]
  let ?h = "\<lparr>ix_size = 2 ^ Suc c, ix_front = - 1, ix_entries = replicate (2 ^ Suc c) None\<rparr>"
  have "ex_index_ok T ?h 0 S S blk"
    using c(2) unat_pow2 [OF d(1)] by (auto simp: ex_index_ok_def intro!: exI [of _ "Suc c"])
  moreover have "p\<lparr>pr_blockIndexSize := drop_bit 1 (push_bit 1 (pr_blockIndexSize p))\<rparr> = p" unfolding d(3) by simp
  moreover have "explicit_new_block_index 0 p m = (if malloc_ok m (mallocs m) then
      Ret (True, p\<lparr>pr_blockIndexSize := 2 ^ Suc c, pr_blockIndexFront := 0, ex_blockIndex := [?h]\<rparr>, m\<lparr>mallocs := Suc (mallocs m)\<rparr>)
    else Ret (False, p\<lparr>pr_blockIndexSize := drop_bit 1 (push_bit 1 (pr_blockIndexSize p))\<rparr>, m\<lparr>mallocs := Suc (mallocs m)\<rparr>))"
    using assms(2,3) d(2) unat_pow2 [OF d(1)] by (simp add: explicit_new_block_index_def malloc_def Let_def del: power_Suc)
  ultimately show ?thesis by (auto simp del: power_Suc intro!: exI [of _ ?h])
qed

definition index_ready ::
  "traits \<Rightarrow> explicit_producer \<Rightarrow> nat \<Rightarrow> nat \<Rightarrow> (nat \<Rightarrow> nat) \<Rightarrow> explicit_producer \<Rightarrow> bool" where
  "index_ready T p S N blk p1 \<longleftrightarrow>
     (\<exists>h front ix. p1 = p\<lparr>pr_blockIndexSize := ix_size h, pr_blockIndexFront := front, ex_blockIndex := h # ix\<rparr> \<and>
        ex_index_ok T h front S N blk \<and> N - S < unat (ix_size h))"

lemma index_room:
  assumes T: "traits_ok T" and ix: "exp_index T p S N blk" "S \<le> N" and small: "(N - S) * bsz T < 2 ^ 63"
  shows "\<exists>ok p1 m1. (if ex_blockIndex p = [] \<or> pr_blockIndexSlotsUsed p = pr_blockIndexSize p then
      if mode = CannotAlloc then Ret (False, p, m) else explicit_new_block_index (pr_blockIndexSlotsUsed p) p m
      else Ret (True, p, m)) = Ret (ok, p1, m1) \<and> (m1 = m \<or> m1 = m\<lparr>mallocs := Suc (mallocs m)\<rparr>) \<and>
    (if ok then index_ready T p S N blk p1 else p1 = p)"
proof (cases "ex_blockIndex p")
  case Nil
  then obtain c where c: "N = S" "pr_blockIndexSlotsUsed p = 0" "unat (pr_blockIndexSize p) = 2 ^ c" "2 ^ Suc c * bsz T \<le> 2 ^ 64"
    using ix(1) by (auto simp: exp_index_def)
  obtain p' where "explicit_new_block_index 0 p m = Ret (malloc_ok m (mallocs m), p', m\<lparr>mallocs := Suc (mallocs m)\<rparr>)"
    "if malloc_ok m (mallocs m) then \<exists>h. p' = p\<lparr>pr_blockIndexSize := ix_size h, pr_blockIndexFront := 0, ex_blockIndex := [h]\<rparr> \<and>
       ex_index_ok T h 0 S S blk else p' = p"
    using explicit_index_first [OF T Nil c(2-4), of m S blk] by blast
  moreover from this have "malloc_ok m (mallocs m) \<Longrightarrow> index_ready T p S N blk p'"
    using ex_index_okD(1) unfolding index_ready_def c(1) by fastforce
  ultimately show ?thesis using Nil c(2) by (cases "mode = CannotAlloc") auto
next
  case (Cons h hs)
  then have h: "pr_blockIndexSize p = ix_size h" "ex_index_ok T h (pr_blockIndexFront p) S N blk" "pr_blockIndexSlotsUsed p = of_nat (N - S)"
    using ix(1) by (auto simp: exp_index_def)
  have un: "unat (pr_blockIndexSlotsUsed p) = N - S"
    unfolding h(3) using ex_index_okD(4) [OF h(2)] unat_lt_64 [of "ix_size h"] by (intro unat_of_nat_64) linarith
  show ?thesis
  proof (cases "pr_blockIndexSlotsUsed p = pr_blockIndexSize p")
    case True
    then have full: "N - S = unat (ix_size h)" using un h(1) by simp
    then have "2 * unat (ix_size h) * bsz T \<le> 2 ^ 64" using small by (simp add: mult.commute)
    from explicit_index_grow [OF T Cons h(1,2) full h(3) this, of m] obtain p' where
      "explicit_new_block_index (pr_blockIndexSlotsUsed p) p m = Ret (malloc_ok m (mallocs m), p', m\<lparr>mallocs := Suc (mallocs m)\<rparr>)"
      "if malloc_ok m (mallocs m) then \<exists>h' front. p' = p\<lparr>pr_blockIndexSize := ix_size h', pr_blockIndexFront := front,
         ex_blockIndex := h' # ex_blockIndex p\<rparr> \<and> ex_index_ok T h' front S N blk \<and> N - S < unat (ix_size h') else p' = p" by blast
    moreover from this have "malloc_ok m (mallocs m) \<Longrightarrow> index_ready T p S N blk p'" unfolding index_ready_def by auto
    ultimately show ?thesis using True by (cases "mode = CannotAlloc") auto
  next
    case False
    then have "N - S \<noteq> unat (ix_size h)" using un h(1) by (metis of_nat_unat)
    then have "N - S < unat (ix_size h)" using ex_index_okD(4) [OF h(2)] by simp
    moreover have "p = p\<lparr>pr_blockIndexSize := ix_size h, pr_blockIndexFront := pr_blockIndexFront p, ex_blockIndex := h # hs\<rparr>"
      using Cons h(1) [symmetric] by simp
    ultimately have "index_ready T p S N blk p" using h(2) unfolding index_ready_def by blast
    then show ?thesis using False Cons by auto
  qed
qed

text \<open>Linking a block from the pools behind the tail.\<close>

lemma link_block_run:
  assumes mem: "mem_inv m own" and nb: "nb \<in> own" "blocks m nb = Some b"
    and tail: "tailBlock p = None \<or> (\<exists>t tb. tailBlock p = Some t \<and> t \<in> own \<and> t \<noteq> nb \<and> blocks m t = Some tb)"
  shows "\<exists>m'. link_block nb p m = Ret (p\<lparr>tailBlock := Some nb\<rparr>, m') \<and> mem_inv m' own \<and> heap_limit m' = heap_limit m \<and>
    blocks m' = (case tailBlock p of
        None \<Rightarrow> (blocks m)(nb \<mapsto> b\<lparr>blk_next := Some nb\<rparr>)
      | Some t \<Rightarrow> (blocks m)(nb \<mapsto> b\<lparr>blk_next := blk_next (the (blocks m t))\<rparr>, t \<mapsto> (the (blocks m t))\<lparr>blk_next := Some nb\<rparr>))"
proof (cases "tailBlock p")
  case None
  have "freeListRefs b = 0" using pool.used [OF mem nb(1)] nb(2) by auto
  then have "mem_inv (put_block nb (b\<lparr>blk_next := Some nb\<rparr>) m) own" using pool.put_used [OF mem nb(1)] by simp
  with None nb(2) show ?thesis by (simp add: link_block_def with_block_def put_block_def)
next
  case (Some t)
  then obtain tb where t: "t \<in> own" "t \<noteq> nb" "blocks m t = Some tb" using tail by auto
  let ?m1 = "put_block nb (b\<lparr>blk_next := blk_next tb\<rparr>) m"
  have "freeListRefs b = 0" using pool.used [OF mem nb(1)] nb(2) by auto
  then have m1: "mem_inv ?m1 own" using pool.put_used [OF mem nb(1)] by simp
  have "freeListRefs tb = 0" using pool.used [OF mem t(1)] t(3) by auto
  then have "mem_inv (put_block t (tb\<lparr>blk_next := Some nb\<rparr>) ?m1) own" using pool.put_used [OF m1 t(1)] by simp
  with Some nb(2) t(2,3) show ?thesis by (simp add: link_block_def with_block_def put_block_def)
qed

lemma next_block_fresh:
  assumes T: "traits_ok T" and inv: "exp_inv T p m S H Tl blk ctn" and al: "Tl mod bsz T = 0"
    and sub: "blk ` {S..<nblk T Tl} \<subseteq> own" and room: "Tl + bsz T < H + 2 ^ 63"
    and ready: "index_ready T p S (nblk T Tl) blk p1"
    and mem: "mem_inv m2 (insert nb own)" "nb \<notin> own" "\<forall>b \<in> own. blocks m2 b = blocks m b" "heap_limit m2 = heap_limit m"
    and b: "blocks m2 nb = Some b" "blank b"
  shows "\<exists>p2 m3. link_block nb p1 (put_block nb (reset_empty T explicit_context b) m2) = Ret (p2, m3) \<and>
    opened T p m own (blk ` {S..<nblk T Tl}) H Tl ctn (p2\<lparr>pr_blockIndexSlotsUsed := pr_blockIndexSlotsUsed p2 + 1\<rparr>) m3 S (blk(nblk T Tl := nb))"
proof -
  note I = exp_invD [OF inv] and bs = bsz_gt_1(2) [OF T]
  define N where "N = Tl div bsz T"
  have N: "nblk T Tl = N" "N * bsz T = Tl" using al bs by (auto simp: nblk_aligned N_def)
  note I = I [unfolded N(1)] and sub = sub [unfolded N(1)] and ready = ready [unfolded N(1)]
  let ?b = "reset_empty T explicit_context b" and ?blk = "blk(N := nb)"
  let ?m = "put_block nb ?b m2"
  have "freeListRefs b = 0" using pool.used [OF mem(1), of nb] b(1) by auto
  then have m: "mem_inv ?m (insert nb own)" "blocks ?m = (blocks m2)(nb \<mapsto> ?b)" using pool.put_used [OF mem(1)] by auto
  have tail: "tailBlock p1 = (if S = N then None else Some (blk (N - 1)))" using I(8) ready by (auto simp: index_ready_def)
  have old: "blk j \<in> own" "blk j \<noteq> nb" "blocks ?m (blk j) = blocks m (blk j)" if "S \<le> j" "j < N" for j
  proof -
    show "blk j \<in> own" using sub that by auto
    then show "blk j \<noteq> nb" "blocks ?m (blk j) = blocks m (blk j)" using mem(2,3) m(2) by auto
  qed
  have last: "S \<le> N - 1" "N - 1 < N" if "S \<noteq> N" using that I(7) by auto
  obtain tb where tb: "S \<noteq> N \<Longrightarrow> blocks ?m (blk (N - 1)) = Some tb" "S \<noteq> N \<Longrightarrow> blk_next tb = Some (blk S)"
    "S \<noteq> N \<Longrightarrow> ex_holds T H Tl ctn (N - 1) tb"
    using I(10) [of "N - 1"] last old(3) [of "N - 1"] by (cases "S = N") auto
  have "tailBlock p1 = None \<or> (\<exists>t tb. tailBlock p1 = Some t \<and> t \<in> insert nb own \<and> t \<noteq> nb \<and> blocks ?m t = Some tb)"
  proof (cases "S = N")
    case False
    then show ?thesis using tail tb(1) old(1,2) [OF last [OF False]] by auto
  qed (use tail in simp)
  from link_block_run [OF m(1) _ _ this, of ?b] obtain m3 where run: "link_block nb p1 ?m = Ret (p1\<lparr>tailBlock := Some nb\<rparr>, m3)"
    and m3: "mem_inv m3 (insert nb own)" "heap_limit m3 = heap_limit m"
      "blocks m3 = (if S = N then (blocks ?m)(nb \<mapsto> ?b\<lparr>blk_next := Some nb\<rparr>)
        else (blocks ?m)(nb \<mapsto> ?b\<lparr>blk_next := Some (blk S)\<rparr>, blk (N - 1) \<mapsto> tb\<lparr>blk_next := Some nb\<rparr>))"
    using m(2) tail tb(1,2) mem(4) pool.limit_put [of nb ?b m2] by (cases "S = N") auto
  have fresh: "ex_holds T H Tl ctn N (?b\<lparr>blk_next := q\<rparr>)" for q
    using b(2) reset_marked [of T b] marked_cong [of "?b\<lparr>blk_next := q\<rparr>" ?b T 0] I(4) N(2)
    by (intro ex_holds_fresh) (auto simp: blank_def)
  have relink: "ex_holds T H Tl ctn j (c\<lparr>blk_next := q\<rparr>) = ex_holds T H Tl ctn j c" for j c q
    using marked_cong [of "c\<lparr>blk_next := q\<rparr>" c T] by (simp add: ex_holds_def)
  have ring: "\<exists>c. blocks m3 (?blk j) = Some c \<and> blk_next c = Some (?blk (ring_next S (Suc N) j)) \<and> ex_holds T H Tl ctn j c"
    if j: "j \<in> {S..<Suc N}" for j
  proof (cases "j = N")
    case True
    then show ?thesis using m3(3) fresh old(2) [of "N - 1"] last I(7) by (cases "S = N") auto
  next
    case False
    then have j': "S \<le> j" "j < N" "S \<noteq> N" using j by auto
    show ?thesis
    proof (cases "j = N - 1")
      case True
      then show ?thesis using m3(3) j' tb(3) old(2) [of j] relink by auto
    next
      case other: False
      then have "blk j \<noteq> blk (N - 1)" using inj_onD [OF I(9), of j "N - 1"] j' last by auto
      then have "blocks m3 (blk j) = blocks m (blk j)" using m3(3) j' old(2,3) [of j] by auto
      moreover have "Suc j \<noteq> N" "Suc j \<noteq> Suc N" using other j' by auto
      ultimately show ?thesis using I(10) [of j] j' False by auto
    qed
  qed
  have inj: "inj_on ?blk {S..<Suc N}"
  proof (rule inj_onI)
    fix x y assume "x \<in> {S..<Suc N}" "y \<in> {S..<Suc N}" "?blk x = ?blk y"
    then show "x = y" using old(2) [of x] old(2) [of y] inj_onD [OF I(9), of x y] by (cases "x = N"; cases "y = N") auto
  qed
  have img: "?blk ` {S..<Suc N} = insert nb (blk ` {S..<N})"
  proof -
    have "{S..<Suc N} = insert N {S..<N}" using I(7) by auto
    moreover have "?blk ` {S..<N} = blk ` {S..<N}" by (rule image_cong) auto
    ultimately show ?thesis by (simp only: image_insert fun_upd_same)
  qed
  have "blocks m3 q = blocks m q" if "q \<in> own - blk ` {S..<N}" for q
  proof -
    have "q \<noteq> nb" "S \<noteq> N \<Longrightarrow> q \<noteq> blk (N - 1)" using that mem(2) last by auto
    then show ?thesis using that m3(3) m(2) mem(3) by auto
  qed
  moreover have "own - blk ` {S..<N} \<union> insert nb (blk ` {S..<N}) = insert nb own" using sub by auto
  ultimately have mv: "moves m own (blk ` {S..<N}) m3 (?blk ` {S..<Suc N})"
    unfolding img moves_def using m3(1) mem(2) by auto
  obtain h front ix where p1: "p1 = p\<lparr>pr_blockIndexSize := ix_size h, pr_blockIndexFront := front, ex_blockIndex := h # ix\<rparr>"
    "ex_index_ok T h front S N blk" "N - S < unat (ix_size h)" using ready by (auto simp: index_ready_def)
  have "pr_blockIndexSlotsUsed p = of_nat (N - S)" using I(11) by (simp add: exp_index_def)
  then have slots: "pr_blockIndexSlotsUsed p + 1 = of_nat (Suc N - S)" using I(7) by (simp add: Suc_diff_le)
  have "Suc N * bsz T < H + 2 ^ 63" using room N(2) by simp
  with mv slots inj ring m3(2) p1 I(6,7) have "opened T p m own (blk ` {S..<N}) H Tl ctn
      (p1\<lparr>tailBlock := Some nb, pr_blockIndexSlotsUsed := pr_blockIndexSlotsUsed p1 + 1\<rparr>) m3 S ?blk"
    unfolding opened_def N_def [symmetric] Let_def by (auto simp: same_links_def intro!: exI [of _ S] exI [of _ blk])
  with run show ?thesis unfolding N(1) by simp
qed

lemma exp_inv_frame:
  assumes inv: "exp_inv T p m S H Tl blk ctn" and same: "\<And>j. j \<in> {S..<nblk T Tl} \<Longrightarrow> blocks m' (blk j) = blocks m (blk j)"
  shows "exp_inv T p m' S H Tl blk ctn"
  using assms by (auto simp: exp_inv_def)

lemma exp_inv_ready:
  assumes inv: "exp_inv T p m S H Tl blk ctn" and "index_ready T p S (nblk T Tl) blk p1"
  shows "exp_inv T p1 m S H Tl blk ctn" and "same_links p1 p"
  using assms by (auto simp: exp_inv_def index_ready_def exp_index_def same_links_def)

lemma tail_next_returns:
  assumes inv: "exp_inv T p m S H Tl blk ctn"
  shows "\<exists>r. tail_next_is_empty T p m = Ret r"
proof (cases "S = nblk T Tl")
  case False
  note I = exp_invD [OF inv]
  have N: "S \<le> nblk T Tl - 1" "nblk T Tl - 1 < nblk T Tl" "S < nblk T Tl" using False I(7) by auto
  obtain tb where tb: "blocks m (blk (nblk T Tl - 1)) = Some tb" "blk_next tb = Some (blk S)" using I(10) [OF N(1,2)] N(3) by auto
  obtain nb where "blocks m (blk S) = Some nb" using I(10) [of S] N(3) by auto
  with tb False I(8) show ?thesis by (simp add: tail_next_is_empty_def with_block_def)
qed (use exp_invD(8) [OF inv] in \<open>auto simp: tail_next_is_empty_def intro: exI [of _ False]\<close>)

definition kept ::
  "traits \<Rightarrow> explicit_producer \<Rightarrow> 'd mem \<Rightarrow> nat set \<Rightarrow> nat \<Rightarrow> nat \<Rightarrow> nat \<Rightarrow> (nat \<Rightarrow> nat) \<Rightarrow> (nat \<Rightarrow> 'd) \<Rightarrow>
   explicit_producer \<Rightarrow> 'd mem \<Rightarrow> bool" where
  "kept T p m own S H Tl blk ctn p1 m1 \<longleftrightarrow> same_links p1 p \<and> exp_inv T p1 m1 S H Tl blk ctn \<and> mem_inv m1 own \<and>
     heap_limit m1 = heap_limit m \<and> (\<forall>b \<in> own. blocks m1 b = blocks m b)"

lemma explicit_next_block_spec:
  assumes T: "traits_ok T" and inv: "exp_inv T p m S H Tl blk ctn" and mem: "mem_inv m own"
    and sub: "blk ` {S..<nblk T Tl} \<subseteq> own" and al: "Tl mod bsz T = 0" and lim: "heap_limit m * bsz T < 2 ^ 63"
  shows "\<exists>ok p1 m1. explicit_next_block T mode p m = Ret (ok, p1, m1) \<and>
    (if ok then \<exists>S' blk'. opened T p m own (blk ` {S..<nblk T Tl}) H Tl ctn p1 m1 S' blk' else kept T p m own S H Tl blk ctn p1 m1)"
proof -
  note I = exp_invD [OF inv] and bs = bsz_gt_1(2) [OF T]
  let ?N = "nblk T Tl"
  have keep: "kept T p m own S H Tl blk ctn p1 m1"
    if "p1 = p \<or> index_ready T p S ?N blk p1" "mem_inv m1 own" "heap_limit m1 = heap_limit m" "\<forall>b \<in> own. blocks m1 b = blocks m b" for p1 m1
  proof -
    have "exp_inv T p m1 S H Tl blk ctn" by (rule exp_inv_frame [OF inv]) (use that(4) sub in blast)
    then show ?thesis using that exp_inv_ready [of T p m1 S H Tl blk ctn p1] by (auto simp: kept_def same_links_def)
  qed
  obtain ahead where ahead: "tail_next_is_empty T p m = Ret ahead" using tail_next_returns [OF inv] by blast
  show ?thesis
  proof (cases ahead)
    case True
    then obtain p1 m1 S' blk' where "reuse_ahead T p m = Ret (p1, m1)" "opened T p m own (blk ` {S..<?N}) H Tl ctn p1 m1 S' blk'"
      using next_block_reuse [OF T inv mem sub al lim] ahead by auto
    then have "explicit_next_block T mode p m = Ret (True, p1, m1)" using ahead True by (simp add: explicit_next_block_def)
    with \<open>opened T p m own (blk ` {S..<?N}) H Tl ctn p1 m1 S' blk'\<close> show ?thesis by auto
  next
    case behind: False
    show ?thesis
    proof (cases "subqueue_full T (headIndex p) (tailIndex p)")
      case True
      then have "explicit_next_block T mode p m = Ret (False, p, m)" using ahead behind by (simp add: explicit_next_block_def)
      moreover have "kept T p m own S H Tl blk ctn p m" using mem by (intro keep) auto
      ultimately show ?thesis by (intro exI [of _ False]) auto
    next
      case nfull: False
      have "?N * bsz T = Tl" using al bs by (auto simp: nblk_aligned)
      then have room: "Tl + bsz T < H + 2 ^ 63" using not_full_room [OF T _ I(4)] I(1,2,5) nfull by simp
      have small: "(?N - S) * bsz T < 2 ^ 63" by (rule ring_bound [OF mem sub I(9) lim])
      obtain ok p1 m1 where st: "(if ex_blockIndex p = [] \<or> pr_blockIndexSlotsUsed p = pr_blockIndexSize p then
          if mode = CannotAlloc then Ret (False, p, m) else explicit_new_block_index (pr_blockIndexSlotsUsed p) p m
          else Ret (True, p, m)) = Ret (ok, p1, m1)"
        and m1: "m1 = m \<or> m1 = m\<lparr>mallocs := Suc (mallocs m)\<rparr>" and p1: "if ok then index_ready T p S ?N blk p1 else p1 = p"
        using index_room [OF T I(11) I(7) small, of mode m] by (elim exE conjE) (rule that)
      have mem1: "mem_inv m1 own" "blocks m1 = blocks m" "heap_limit m1 = heap_limit m" using m1 mem by auto
      show ?thesis
      proof (cases ok)
        case False
        then have "explicit_next_block T mode p m = Ret (False, p1, m1)" using ahead behind nfull st by (simp add: explicit_next_block_def)
        moreover have "kept T p m own S H Tl blk ctn p1 m1" using p1 False mem1 by (intro keep) auto
        ultimately show ?thesis by (intro exI [of _ False]) auto
      next
        case True
        then have ready: "index_ready T p S ?N blk p1" using p1 by simp
        obtain r m2 where r: "requisition_block mode m1 = Ret (r, m2)" using pool.get_returns [OF mem1(1)] by blast
        have lim2: "heap_limit m2 = heap_limit m" using pool.limit_get [OF r] mem1(3) by simp
        show ?thesis
        proof (cases r)
          case None
          then have "explicit_next_block T mode p m = Ret (False, p1, m2)"
            using ahead behind nfull st True r by (simp add: explicit_next_block_def)
          moreover have "kept T p m own S H Tl blk ctn p1 m2"
            using ready lim2 mem1(2) pool.get_none [OF mem1(1) r [unfolded None]] by (intro keep) auto
          ultimately show ?thesis by (intro exI [of _ False]) auto
        next
          case (Some nb)
          obtain bl where g: "nb \<notin> own" "mem_inv m2 (insert nb own)" "\<forall>b \<in> own. blocks m2 b = blocks m b"
            "blocks m2 nb = Some bl" "blank bl"
            using pool.get_some [OF mem1(1) r [unfolded Some]] unfolding mem1(2) by blast
          obtain p2 m3 where l: "link_block nb p1 (put_block nb (reset_empty T explicit_context bl) m2) = Ret (p2, m3)"
            "opened T p m own (blk ` {S..<?N}) H Tl ctn (p2\<lparr>pr_blockIndexSlotsUsed := pr_blockIndexSlotsUsed p2 + 1\<rparr>) m3 S (blk(?N := nb))"
            using next_block_fresh [OF T inv al sub room ready g(2,1,3) lim2 g(4,5)] by blast
          have "explicit_next_block T mode p m = Ret (True, p2\<lparr>pr_blockIndexSlotsUsed := pr_blockIndexSlotsUsed p2 + 1\<rparr>, m3)"
            using ahead behind nfull st True r Some g(4) l(1) by (simp add: explicit_next_block_def with_block_def)
          with l(2) show ?thesis by auto
        qed
      qed
    qed
  qed
qed

text \<open>Entering the block into the index and writing the element.\<close>

lemma opened_finish:
  assumes T: "traits_ok T" and inv: "exp_inv T p m S0 H Tl blk0 ctn" and al: "Tl mod bsz T = 0"
    and op: "opened T p m own B H Tl ctn p1 m1 S blk"
  shows "\<exists>p2 p3 m2. put_index_entry (of_nat Tl) p1 = Ret p2 \<and> publish_front (pr_blockIndexFront p1) p2 = Ret p3 \<and>
    tail_construct T (of_nat Tl) x p1 m1 = Ret m2 \<and> tailBlock p3 = tailBlock p1 \<and>
    same_links (p3\<lparr>tailIndex := 1 + of_nat Tl\<rparr>) p \<and>
    exp_inv T (p3\<lparr>tailIndex := 1 + of_nat Tl\<rparr>) m2 S H (Suc Tl) blk (ctn(Tl := x)) \<and>
    moves m own B m2 (blk ` {S..<nblk T (Suc Tl)}) \<and> heap_limit m2 = heap_limit m"
proof -
  note I = exp_invD [OF inv] and bs = bsz_gt_1(2) [OF T]
  define N where "N = Tl div bsz T"
  have N: "N * bsz T = Tl" "nblk T (Suc Tl) = Suc N" using al bs by (auto simp: N_def nblk_Suc)
  note O = op [unfolded opened_def N_def [symmetric] Let_def]
  obtain h hs S1 blk1 where h: "ex_blockIndex p1 = h # hs" "pr_blockIndexSize p1 = ix_size h"
    "ex_index_ok T h (pr_blockIndexFront p1) S1 N blk1" "S1 \<le> S" "Suc N - S \<le> unat (ix_size h)"
    "\<forall>j. S \<le> j \<longrightarrow> j < N \<longrightarrow> blk j = blk1 j" using O by blast
  have tail: "tailBlock p1 = Some (blk N)" and SN: "S \<le> N" and inj: "inj_on blk {S..<Suc N}" using O by auto
  let ?h = "h\<lparr>ix_entries := (ix_entries h)[unat (pr_blockIndexFront p1) := Some \<lparr>ex_base = of_nat (N * bsz T), ex_block = Some (blk N)\<rparr>],
      ix_front := pr_blockIndexFront p1\<rparr>"
  let ?f = "(pr_blockIndexFront p1 + 1) AND (ix_size h - 1)"
  have ok: "ex_index_ok T ?h ?f S (Suc N) blk" by (rule ex_put_entry [OF h(3,4) SN h(5)]) (use h(6) in auto)
  define p3 where "p3 = p1\<lparr>ex_blockIndex := ?h # hs, pr_blockIndexFront := ?f\<rparr>"
  have put: "put_index_entry (of_nat Tl) p1 = Ret (p3\<lparr>ex_blockIndex := ?h\<lparr>ix_front := ix_front h\<rparr> # hs\<rparr>)"
    using h(1,2) ex_index_okD(2,3) [OF h(3)] tail by (simp add: put_index_entry_def p3_def N(1))
  have pub: "publish_front (pr_blockIndexFront p1) (p3\<lparr>ex_blockIndex := ?h\<lparr>ix_front := ix_front h\<rparr> # hs\<rparr>) = Ret p3"
    by (simp add: publish_front_def p3_def)
  have mem1: "mem_inv m1 (own - B \<union> blk ` {S..<Suc N})" "moves m own B m1 (blk ` {S..<Suc N})" using O by (auto simp: moves_def)
  have ring: "\<forall>j \<in> {S..<Suc N}. \<exists>b. blocks m1 (blk j) = Some b \<and> blk_next b = Some (blk (ring_next S (Suc N) j)) \<and> ex_holds T H Tl ctn j b"
    using O by blast
  obtain m2 where m2: "construct T (of_nat Tl) x (blk N) m1 = Ret m2" "mem_inv m2 (own - B \<union> blk ` {S..<Suc N})"
      "heap_limit m2 = heap_limit m1" "\<forall>b \<in> own - B \<union> blk ` {S..<Suc N} - blk ` {S..<Suc N}. blocks m2 b = blocks m1 b"
    and ring2: "\<And>j. j \<in> {S..<Suc N} \<Longrightarrow> \<exists>b. blocks m2 (blk j) = Some b \<and> blk_next b = Some (blk (ring_next S (Suc N) j)) \<and>
       ex_holds T H (Suc Tl) (ctn(Tl := x)) j b"
    using ring_write [OF T mem1(1) _ inj ring, of x] SN I(4) by (auto simp: N_def)
  have "own - B \<union> blk ` {S..<Suc N} - blk ` {S..<Suc N} = own - B" using mem1(2) by (auto simp: moves_def)
  then have "moves m own B m2 (blk ` {S..<Suc N})" using mem1(2) m2(2,4) by (simp add: moves_def)
  moreover have "exp_inv T (p3\<lparr>tailIndex := 1 + of_nat Tl\<rparr>) m2 S H (Suc Tl) blk (ctn(Tl := x))"
    unfolding exp_inv_def N(2)
  proof (intro conjI ballI)
    show "exp_index T (p3\<lparr>tailIndex := 1 + of_nat Tl\<rparr>) S (Suc N) blk" using ok O h(2) by (simp add: exp_index_def p3_def)
  qed (use O I SN inj ring2 in \<open>auto simp: p3_def\<close>)
  moreover have "same_links (p3\<lparr>tailIndex := 1 + of_nat Tl\<rparr>) p" using O by (simp add: same_links_def p3_def)
  moreover have "heap_limit m2 = heap_limit m" using m2(3) O by simp
  ultimately show ?thesis using put pub m2(1) tail unfolding N(2)
    by (intro exI [of _ "p3\<lparr>ex_blockIndex := ?h\<lparr>ix_front := ix_front h\<rparr> # hs\<rparr>"] exI [of _ p3] exI [of _ m2])
       (simp add: tail_construct_def p3_def)
qed

lemma explicit_enqueue_spec:
  assumes T: "traits_ok T" and inv: "exp_inv T p m S H Tl blk ctn" and mem: "mem_inv m own"
    and sub: "blk ` {S..<nblk T Tl} \<subseteq> own" and lim: "heap_limit m * bsz T < 2 ^ 63" and nothrow: "\<not> raises E x"
  shows "(\<exists>p' m' S' blk'. explicit_enqueue T E mode x p m = Ret (Val True, p', m') \<and> same_links p' p \<and>
      exp_inv T p' m' S' H (Suc Tl) blk' (ctn(Tl := x)) \<and>
      moves m own (blk ` {S..<nblk T Tl}) m' (blk' ` {S'..<nblk T (Suc Tl)}) \<and> heap_limit m' = heap_limit m) \<or>
    (\<exists>p' m'. explicit_enqueue T E mode x p m = Ret (Val False, p', m') \<and> kept T p m own S H Tl blk ctn p' m')"
proof -
  note I = exp_invD [OF inv] and bs = bsz_gt_1(2) [OF T]
  show ?thesis
  proof (cases "Tl mod bsz T = 0")
    case False
    let ?N = "nblk T Tl"
    have N: "?N = Suc (Tl div bsz T)" "nblk T (Suc Tl) = ?N" using False bs by (simp_all add: nblk_unaligned nblk_Suc)
    have SN: "S < ?N" using I(6) div_le_mono [OF I(4), of "bsz T"] by (simp add: N)
    have ring: "\<forall>j \<in> {S..<?N}. \<exists>b. blocks m (blk j) = Some b \<and> blk_next b = Some (blk (ring_next S ?N j)) \<and> ex_holds T H Tl ctn j b"
      using I(10) by auto
    obtain m' where m': "construct T (of_nat Tl) x (blk (?N - 1)) m = Ret m'" "mem_inv m' own" "heap_limit m' = heap_limit m"
        "\<forall>b \<in> own - blk ` {S..<?N}. blocks m' b = blocks m b"
      and ring': "\<forall>j \<in> {S..<?N}. \<exists>b. blocks m' (blk j) = Some b \<and> blk_next b = Some (blk (ring_next S ?N j)) \<and>
         ex_holds T H (Suc Tl) (ctn(Tl := x)) j b"
      using ring_write [OF T mem sub I(9) ring N(1) SN I(4), of x] by (elim exE conjE) (rule that)
    let ?p = "p\<lparr>tailIndex := 1 + of_nat Tl\<rparr>"
    have run: "explicit_enqueue T E mode x p m = Ret (Val True, ?p, m')"
      using False m'(1) SN I(8) nothrow by (simp add: explicit_enqueue_def I(2) aligned_iff [OF T] tail_construct_def Let_def)
    have "exp_inv T ?p m' S H (Suc Tl) blk (ctn(Tl := x))"
      unfolding exp_inv_def N(2)
    proof (intro conjI)
      show "exp_index T ?p S ?N blk" using I(11) by (cases "ex_blockIndex p") (simp_all add: exp_index_def)
    qed (use I ring' in auto)
    moreover have "moves m own (blk ` {S..<?N}) m' (blk ` {S..<?N})" using m' sub by (auto simp: moves_def Un_absorb2)
    ultimately show ?thesis using run m'(3) unfolding N(2)
      by (intro disjI1 exI [of _ ?p] exI [of _ m'] exI [of _ S] exI [of _ blk]) (simp add: same_links_def)
  next
    case al: True
    obtain ok p1 m1 where nb: "explicit_next_block T mode p m = Ret (ok, p1, m1)"
      "if ok then \<exists>S' blk'. opened T p m own (blk ` {S..<nblk T Tl}) H Tl ctn p1 m1 S' blk' else kept T p m own S H Tl blk ctn p1 m1"
      using explicit_next_block_spec [OF T inv mem sub al lim, of mode] by (elim exE conjE) (rule that)
    show ?thesis
    proof (cases ok)
      case False
      then have "explicit_enqueue T E mode x p m = Ret (Val False, p1, m1)"
        using al nb(1) by (simp add: explicit_enqueue_def I(2) aligned_iff [OF T] Let_def)
      with nb(2) False show ?thesis by auto
    next
      case True
      then obtain S' blk' where "opened T p m own (blk ` {S..<nblk T Tl}) H Tl ctn p1 m1 S' blk'" using nb(2) by auto
      from opened_finish [OF T inv al this, of x] obtain p2 p3 m2 where
        f: "put_index_entry (of_nat Tl) p1 = Ret p2" "publish_front (pr_blockIndexFront p1) p2 = Ret p3"
          "tail_construct T (of_nat Tl) x p1 m1 = Ret m2" "tailBlock p3 = tailBlock p1" and
        g: "same_links (p3\<lparr>tailIndex := 1 + of_nat Tl\<rparr>) p"
          "exp_inv T (p3\<lparr>tailIndex := 1 + of_nat Tl\<rparr>) m2 S' H (Suc Tl) blk' (ctn(Tl := x))"
          "moves m own (blk ` {S..<nblk T Tl}) m2 (blk' ` {S'..<nblk T (Suc Tl)})" "heap_limit m2 = heap_limit m"
        by (elim exE conjE) (rule that)
      have "tail_construct T (of_nat Tl) x p3 m1 = Ret m2" using f(3,4) by (simp add: tail_construct_def)
      then have "explicit_enqueue T E mode x p m = Ret (Val True, p3\<lparr>tailIndex := 1 + of_nat Tl\<rparr>, m2)"
        using al nb(1) True f nothrow by (simp add: explicit_enqueue_def I(2) aligned_iff [OF T] Let_def)
      with g show ?thesis by blast
    qed
  qed
qed

section \<open>Explicit producers keep the contract\<close>

text \<open>
  \<open>exp_queue T E p m B xs\<close>: the producer holds \<open>xs\<close> and owns the blocks \<open>B\<close>. Elements whose construction
  throws are excluded, and memory holds fewer elements than half the range of the indices.
\<close>

definition exp_queue :: "traits \<Rightarrow> 'd elem_ops \<Rightarrow> explicit_producer \<Rightarrow> 'd mem \<Rightarrow> nat set \<Rightarrow> 'd list \<Rightarrow> bool" where
  "exp_queue T E p m B xs \<longleftrightarrow> traits_ok T \<and> (\<forall>x. \<not> raises E x) \<and> heap_limit m * bsz T < 2 ^ 63 \<and>
     (\<exists>S H Tl blk ctn. exp_inv T p m S H Tl blk ctn \<and> B = blk ` {S..<nblk T Tl} \<and> xs = contents H Tl ctn)"

lemma exp_queueI:
  "traits_ok T \<Longrightarrow> \<forall>x. \<not> raises E x \<Longrightarrow> heap_limit m * bsz T < 2 ^ 63 \<Longrightarrow> exp_inv T p m S H Tl blk ctn \<Longrightarrow>
   exp_queue T E p m (blk ` {S..<nblk T Tl}) (contents H Tl ctn)"
  unfolding exp_queue_def by blast

interpretation exp: subqueue "exp_queue T E" "explicit_enqueue T E" "explicit_dequeue T E" same_links E
proof
  fix p q r :: explicit_producer
  show "same_links p p" by (simp add: same_links_def)
  show "same_links r p" if "same_links r q" "same_links q p" using that by (rule same_links_trans)
  fix m :: "'a mem" and B xs own mode x
  assume "exp_queue T E p m B xs" and mem: "mem_inv m own" "B \<subseteq> own"
  then obtain S H Tl blk ctn where T: "traits_ok T" and E: "\<forall>x. \<not> raises E x" and lim: "heap_limit m * bsz T < 2 ^ 63"
    and inv: "exp_inv T p m S H Tl blk ctn" and B: "B = blk ` {S..<nblk T Tl}" and xs: "xs = contents H Tl ctn"
    by (auto simp: exp_queue_def)
  note sub = mem(2) [unfolded B] and HT = exp_invD(4) [OF inv]
  have nothrow: "\<not> raises E x" using E by simp
  from explicit_enqueue_spec [OF T inv mem(1) sub lim nothrow, of mode]
  show "\<exists>r p' m' B'. explicit_enqueue T E mode x p m = Ret (r, p', m') \<and>
      (r = Val True \<and> \<not> raises E x \<and> exp_queue T E p' m' B' (xs @ [x]) \<or>
       (r = Val False \<or> r = Exc \<and> raises E x) \<and> exp_queue T E p' m' B' xs) \<and> moves m own B m' B' \<and> same_links p' p"
  proof (elim disjE exE conjE)
    fix p' m' S' blk'
    assume run: "explicit_enqueue T E mode x p m = Ret (Val True, p', m')" "same_links p' p"
      and i: "exp_inv T p' m' S' H (Suc Tl) blk' (ctn(Tl := x))" "heap_limit m' = heap_limit m"
      and mv: "moves m own (blk ` {S..<nblk T Tl}) m' (blk' ` {S'..<nblk T (Suc Tl)})"
    have "exp_queue T E p' m' (blk' ` {S'..<nblk T (Suc Tl)}) (xs @ [x])"
      unfolding xs contents_enqueue [OF HT, of ctn x, symmetric] using T E lim i by (intro exp_queueI) simp_all
    with run mv E show ?thesis unfolding B by blast
  next
    fix p' m'
    assume run: "explicit_enqueue T E mode x p m = Ret (Val False, p', m')" and k: "kept T p m own S H Tl blk ctn p' m'"
    have "moves m own B m' B" using k mem(2) by (auto simp: kept_def moves_def Un_absorb2)
    moreover have "exp_queue T E p' m' B xs" unfolding xs B using T E lim k by (intro exp_queueI) (simp_all add: kept_def)
    ultimately show ?thesis using run k by (auto simp: kept_def)
  qed
  show "\<exists>r p' m' B'. explicit_dequeue T E p m = Ret (r, p', m') \<and>
      r = (case xs of [] \<Rightarrow> Val None | x # _ \<Rightarrow> if assign_raises E x then Exc else Val (Some x)) \<and>
      exp_queue T E p' m' B' (tl xs) \<and> moves m own B m' B' \<and> same_links p' p"
  proof (cases "H < Tl")
    case True
    then obtain p' m' where run: "explicit_dequeue T E p m = Ret (if assign_raises E (ctn H) then Exc else Val (Some (ctn H)), p', m')"
      and d: "same_links p' p" "exp_inv T p' m' S (Suc H) Tl blk ctn" "mem_inv m' own" "heap_limit m' = heap_limit m"
        "\<forall>b \<in> own - B. blocks m' b = blocks m b" using explicit_dequeue_spec [OF T inv mem(1) sub, of E] by (auto simp: B)
    have xs': "xs = ctn H # contents (Suc H) Tl ctn" using contents_dequeue [OF True] by (simp add: xs)
    have "exp_queue T E p' m' B (tl xs)" unfolding xs' list.sel B using T E lim d by (intro exp_queueI) simp_all
    moreover have "moves m own B m' B" using d mem(2) by (auto simp: moves_def Un_absorb2)
    ultimately show ?thesis using run d(1) xs' by auto
  next
    case False
    then have "xs = []" by (simp add: xs contents_def)
    moreover have "explicit_dequeue T E p m = Ret (Val None, p, m)" using explicit_dequeue_spec [OF T inv mem(1) sub, of E] False by simp
    moreover have "exp_queue T E p m B xs" unfolding xs B using T E lim inv by (intro exp_queueI)
    ultimately show ?thesis using moves_refl [OF mem] by (auto simp: same_links_def)
  qed
qed

text \<open>The constructor: the first index has as many places as the traits say, or as the initial pool has blocks.\<close>

lemma half_pow2: "0 < c \<Longrightarrow> c < 64 \<Longrightarrow> unat (drop_bit 1 (2 ^ c :: 64 word)) = 2 ^ (c - 1)"
proof -
  assume "0 < c" "c < 64"
  then show ?thesis unfolding unat_drop_bit_eq unat_pow2 [OF \<open>c < 64\<close>] by (cases c) (simp_all add: drop_bit_eq_div)
qed

lemma pool_index_size:
  assumes T: "traits_ok T" and mem: "mem_inv m own" and lim: "heap_limit m * bsz T < 2 ^ 63"
  shows "ceil_to_pow_2 (initialBlockPoolSize m) = 0 \<or>
    (\<exists>k < 64. ceil_to_pow_2 (initialBlockPoolSize m) = 2 ^ k \<and> 2 ^ k * bsz T \<le> 2 ^ 64)"
proof (cases "initialBlockPoolSize m = 0")
  case True
  then show ?thesis by (simp add: ceil_to_pow_2_def Let_def)
next
  case False
  obtain k where k: "ceil_to_pow_2 (initialBlockPoolSize m) = 2 ^ k" "\<And>j. unat (initialBlockPoolSize m) \<le> 2 ^ j \<Longrightarrow> k \<le> j"
    using ceil_to_pow_2_value [OF False] by metis
  obtain b where b: "bsz T = 2 ^ b" "0 < b" "b < 64" using bsz_pow2 [OF T] by blast
  have "unat (initialBlockPoolSize m) = card (set (initialBlockPool m))" using mem by (simp add: mem_inv_def distinct_card)
  also have "\<dots> \<le> nblocks m" using mem card_mono [of "{..<nblocks m}" "set (initialBlockPool m)"] by (simp add: mem_inv_def)
  also have "nblocks m \<le> heap_limit m" using mem by (simp add: mem_inv_def)
  finally have "unat (initialBlockPoolSize m) * 2 ^ b \<le> heap_limit m * 2 ^ b" by (rule mult_le_mono1)
  also have "\<dots> < 2 ^ 63" using lim by (simp add: b(1))
  also have "(2 :: nat) ^ 63 = 2 ^ (63 - b) * 2 ^ b" using b(3) by (simp flip: power_add)
  finally have "unat (initialBlockPoolSize m) \<le> 2 ^ (63 - b)" by simp
  then have kb: "k \<le> 63 - b" by (rule k(2))
  then have "(2 :: nat) ^ (k + b) \<le> 2 ^ 64" using b(3) by (intro power_increasing) auto
  with k(1) kb b show ?thesis by (intro disjI2 exI [of _ k]) (simp add: power_add)
qed

lemma explicit_producer_new_queue:
  assumes T: "traits_ok T" and E: "\<forall>x. \<not> raises E x" and mem: "mem_inv m own" and lim: "heap_limit m * bsz T < 2 ^ 63"
  shows "\<exists>p m'. explicit_producer_new T m = Ret (p, m') \<and> exp_queue T E p m' {} [] \<and> mem_inv m' own \<and> blocks m' = blocks m"
proof -
  define sz where "sz = (if drop_bit 1 (ceil_to_pow_2 (initialBlockPoolSize m)) > drop_bit 1 (EXPLICIT_INITIAL_INDEX_SIZE T)
    then drop_bit 1 (ceil_to_pow_2 (initialBlockPoolSize m)) else drop_bit 1 (EXPLICIT_INITIAL_INDEX_SIZE T))"
  define p where "p = \<lparr>p_next = None, p_inactive = False, p_token = None, tailIndex = 0, headIndex = 0,
     dequeueOptimisticCount = 0, dequeueOvercommit = 0, tailBlock = None, isExplicit = True,
     ex_blockIndex = [], pr_blockIndexSlotsUsed = 0, pr_blockIndexSize = sz, pr_blockIndexFront = 0\<rparr>"
  obtain i where i: "unat (EXPLICIT_INITIAL_INDEX_SIZE T) = 2 ^ i" "0 < i" "i < 64"
    using T pow2_test_unat by (metis traits_ok_def static_asserts_def)
  then have iw: "EXPLICIT_INITIAL_INDEX_SIZE T = 2 ^ i" using word_eq_of_natI [OF i(1)] by simp
  have ib: "2 ^ i * bsz T \<le> 2 ^ 64" using T i(1) by (simp add: traits_ok_def)
  have "\<exists>c. unat sz = 2 ^ c \<and> 2 ^ Suc c * bsz T \<le> 2 ^ 64"
  proof (cases "drop_bit 1 (ceil_to_pow_2 (initialBlockPoolSize m)) > drop_bit 1 (EXPLICIT_INITIAL_INDEX_SIZE T)")
    case True
    then have "ceil_to_pow_2 (initialBlockPoolSize m) \<noteq> 0" by auto
    then obtain k where k: "k < 64" "ceil_to_pow_2 (initialBlockPoolSize m) = 2 ^ k" "2 ^ k * bsz T \<le> 2 ^ 64"
      using pool_index_size [OF T mem lim] by blast
    moreover have "0 < k" using True k(2) by (cases k) auto
    ultimately show ?thesis using half_pow2 [of k] True by (intro exI [of _ "k - 1"]) (simp add: sz_def)
  next
    case False
    then show ?thesis using half_pow2 [OF i(2,3)] i(2) ib iw by (intro exI [of _ "i - 1"]) (simp add: sz_def)
  qed
  then obtain c where c: "unat (pr_blockIndexSize p) = 2 ^ c" "2 ^ Suc c * bsz T \<le> 2 ^ 64" by (auto simp: p_def)
  obtain p' where p': "explicit_new_block_index 0 p m = Ret (malloc_ok m (mallocs m), p', m\<lparr>mallocs := Suc (mallocs m)\<rparr>)"
    "if malloc_ok m (mallocs m) then \<exists>h. p' = p\<lparr>pr_blockIndexSize := ix_size h, pr_blockIndexFront := 0, ex_blockIndex := [h]\<rparr> \<and>
       ex_index_ok T h 0 0 0 id else p' = p"
    using explicit_index_first [OF T _ _ c, of m 0 id] by (auto simp: p_def)
  have run: "explicit_producer_new T m = Ret (p', m\<lparr>mallocs := Suc (mallocs m)\<rparr>)"
    using p'(1) by (simp add: explicit_producer_new_def p_def sz_def Let_def split: if_splits)
  have n0: "nblk T 0 = 0" by (rule nblk_0 [OF bsz_gt_1(2) [OF T]])
  have "exp_inv T p' (m\<lparr>mallocs := Suc (mallocs m)\<rparr>) 0 0 0 id ctn" for ctn :: "nat \<Rightarrow> 'a"
    unfolding exp_inv_def n0 using p'(2) c
    by (cases "malloc_ok m (mallocs m)") (auto simp: exp_index_def p_def)
  then have "exp_queue T E p' (m\<lparr>mallocs := Suc (mallocs m)\<rparr>) (id ` {0..<nblk T 0}) (contents 0 0 undefined)"
    using T E lim by (intro exp_queueI) simp_all
  then show ?thesis using run mem by (simp add: n0 contents_def)
qed

lemma exp_queue_size:
  assumes "exp_queue T E p m B xs"
  shows "producer_size_approx p = of_nat (length xs)"
proof -
  obtain S H Tl blk ctn where T: "traits_ok T" and inv: "exp_inv T p m S H Tl blk ctn" and xs: "xs = contents H Tl ctn"
    using assms by (auto simp: exp_queue_def)
  note I = exp_invD [OF inv]
  show ?thesis using I(1,2,4) index_gap_ahead [OF I(4,5) bsz_gt_1(2) [OF T]]
    by (auto simp: producer_size_approx_def xs contents_def Let_def of_nat_diff)
qed

end
