(* ===== verification/CQ_Shared.thy ===== *)
theory CQ_Shared
  imports CQ_Queue CQ_Explicit_Proof
begin

text \<open>
  Sub-queues side by side: the producers of a queue, of either kind, take their blocks from the same
  memory. What one of them does leaves the content of the others as it was.
\<close>

named_theorems keeps_limit \<open>operations that do not change how many blocks fit into memory\<close>

section \<open>The limit of the memory\<close>

lemma put_block_limit [simp]: "heap_limit (put_block b blk m) = heap_limit m"
  by (simp add: put_block_def)

lemma malloc_limit [keeps_limit]: "malloc m = (ok, m') \<Longrightarrow> heap_limit m' = heap_limit m"
  by (auto simp: malloc_def)

lemma add_block_limit [keeps_limit]: "add_block_to_free_list b m = Ret m' \<Longrightarrow> heap_limit m' = heap_limit m"
  by (auto simp: add_block_to_free_list_def freelist_add_def add_knowing_refcount_is_zero_def with_block_def Let_def
      split: option.splits if_splits)

lemma construct_limit [keeps_limit]: "construct T i x b m = Ret m' \<Longrightarrow> heap_limit m' = heap_limit m"
  by (auto simp: construct_def with_block_def split: option.splits)

lemma destruct_limit [keeps_limit]: "destruct T i b m = Ret m' \<Longrightarrow> heap_limit m' = heap_limit m"
  by (auto simp: destruct_def with_block_def split: option.splits)

lemma new_block_index_limit [keeps_limit]: "new_block_index p m = (ok, p', m') \<Longrightarrow> heap_limit m' = heap_limit m"
  by (auto simp: new_block_index_def Let_def malloc_def split: if_splits)

lemma insert_entry_limit [keeps_limit]:
  "insert_block_index_entry mode i p m = Ret (r, p', m') \<Longrightarrow> heap_limit m' = heap_limit m"
  by (auto simp: insert_block_index_entry_def Let_def and_then_eq_Ret split: list.splits if_splits prod.splits dest: keeps_limit)

lemma with_block_eq_Ret [outcome_simps]: "with_block b m k = Ret r \<longleftrightarrow> (\<exists>blk. blocks m b = Some blk \<and> k blk = Ret r)"
  by (simp add: with_block_def split: option.split)

lemma implicit_enqueue_limit [keeps_limit]:
  "implicit_enqueue T E mode x p m = Ret (r, p', m') \<Longrightarrow> heap_limit m' = heap_limit m"
  by (auto simp: implicit_enqueue_def Let_def outcome_simps split: option.split_asm if_split_asm
      dest!: keeps_limit requisition_heap_limit)

lemma release_slot_limit [keeps_limit]: "release_slot T i e b p m = Ret (p', m') \<Longrightarrow> heap_limit m' = heap_limit m"
  by (auto simp: release_slot_def Let_def outcome_simps case_prod_beta split: if_split_asm dest!: keeps_limit)

lemma implicit_dequeue_limit [keeps_limit]:
  "implicit_dequeue T E p m = Ret (r, p', m') \<Longrightarrow> heap_limit m' = heap_limit m"
  by (auto simp: implicit_dequeue_def Let_def outcome_simps split: option.split_asm if_split_asm dest!: keeps_limit)

lemma explicit_index_limit [keeps_limit]:
  "explicit_new_block_index n p m = Ret (ok, p', m') \<Longrightarrow> heap_limit m' = heap_limit m"
  by (auto simp: explicit_new_block_index_def Let_def and_then_eq_Ret malloc_def split: list.splits if_splits prod.splits)

lemma reuse_ahead_limit [keeps_limit]: "reuse_ahead T p m = Ret (p', m') \<Longrightarrow> heap_limit m' = heap_limit m"
  by (auto simp: reuse_ahead_def outcome_simps split: option.split_asm)

lemma link_block_limit [keeps_limit]: "link_block b p m = Ret (p', m') \<Longrightarrow> heap_limit m' = heap_limit m"
  by (auto simp: link_block_def Let_def outcome_simps split: option.split_asm)

lemma explicit_next_block_limit [keeps_limit]:
  "explicit_next_block T mode p m = Ret (ok, p', m') \<Longrightarrow> heap_limit m' = heap_limit m"
  by (auto simp: explicit_next_block_def outcome_simps split: option.split_asm if_split_asm
      dest!: keeps_limit requisition_heap_limit)

lemma tail_construct_limit [keeps_limit]: "tail_construct T i x p m = Ret m' \<Longrightarrow> heap_limit m' = heap_limit m"
  by (auto simp: tail_construct_def split: option.split_asm dest: keeps_limit)

lemma explicit_enqueue_limit [keeps_limit]:
  "explicit_enqueue T E mode x p m = Ret (r, p', m') \<Longrightarrow> heap_limit m' = heap_limit m"
  by (auto simp: explicit_enqueue_def Let_def outcome_simps split: if_split_asm dest!: keeps_limit)

lemma explicit_dequeue_limit [keeps_limit]:
  "explicit_dequeue T E p m = Ret (r, p', m') \<Longrightarrow> heap_limit m' = heap_limit m"
  by (auto simp: explicit_dequeue_def explicit_release_def Let_def outcome_simps split: if_split_asm dest!: keeps_limit)

section \<open>Producers of either kind as sub-queues\<close>

text \<open>
  A sub-queue that shares its memory: operations keep the limit of the memory, what happens to other
  blocks does not matter to the content, and the approximate size is the number of elements.
\<close>

locale shared_subqueue = subqueue holds enq deq links E
  for holds :: "'p \<Rightarrow> 'd mem \<Rightarrow> nat set \<Rightarrow> 'd list \<Rightarrow> bool"
    and enq :: "AllocationMode \<Rightarrow> 'd \<Rightarrow> 'p \<Rightarrow> 'd mem \<Rightarrow> (bool xres \<times> 'p \<times> 'd mem) outcome"
    and deq :: "'p \<Rightarrow> 'd mem \<Rightarrow> ('d option xres \<times> 'p \<times> 'd mem) outcome"
    and links :: "'p \<Rightarrow> 'p \<Rightarrow> bool" and E :: "'d elem_ops" +
  fixes sized :: "'p \<Rightarrow> 64 word"
  assumes enq_limit: "enq mode x p m = Ret (r, p', m') \<Longrightarrow> heap_limit m' = heap_limit m"
    and deq_limit: "deq p m = Ret (r', p', m') \<Longrightarrow> heap_limit m' = heap_limit m"
    and frame: "holds p m B xs \<Longrightarrow> (\<And>b. b \<in> B \<Longrightarrow> blocks m' b = blocks m b) \<Longrightarrow> heap_limit m' = heap_limit m \<Longrightarrow> holds p m' B xs"
    and size_law: "holds p m B xs \<Longrightarrow> sized p = of_nat (length xs) \<and> length xs < 2 ^ 63"

text \<open>
  Several of them over one memory: \<open>family holds ps m Bs xss\<close> says that the sub-queue \<open>ps ! i\<close> holds
  \<open>xss ! i\<close> in the blocks \<open>Bs ! i\<close>, and that no two share a block.
\<close>

definition family :: "('p \<Rightarrow> 'd mem \<Rightarrow> nat set \<Rightarrow> 'd list \<Rightarrow> bool) \<Rightarrow> 'p list \<Rightarrow> 'd mem \<Rightarrow> nat set list \<Rightarrow> 'd list list \<Rightarrow> bool" where
  "family holds ps m Bs xss \<longleftrightarrow> length Bs = length ps \<and> length xss = length ps \<and>
     (\<forall>i < length ps. holds (ps ! i) m (Bs ! i) (xss ! i)) \<and>
     (\<forall>i < length ps. \<forall>j < length ps. i \<noteq> j \<longrightarrow> Bs ! i \<inter> Bs ! j = {}) \<and> mem_inv m (\<Union> (set Bs))"

lemma Union_update:
  assumes "i < length Bs" and "\<forall>j < length Bs. i \<noteq> j \<longrightarrow> Bs ! i \<inter> Bs ! j = {}"
  shows "\<Union> (set (Bs[i := B'])) = \<Union> (set Bs) - Bs ! i \<union> B'"
proof -
  have "\<Union> (set (Bs[i := B'])) = (\<Union>j < length Bs. (Bs[i := B']) ! j)" by (auto simp: set_conv_nth)
  also have "\<dots> = (\<Union>j \<in> {..<length Bs} - {i}. Bs ! j) \<union> B'" using assms(1) by (auto simp: nth_list_update)
  also have "(\<Union>j \<in> {..<length Bs} - {i}. Bs ! j) = (\<Union>j < length Bs. Bs ! j) - Bs ! i" using assms by fastforce
  also have "(\<Union>j < length Bs. Bs ! j) = \<Union> (set Bs)" by (auto simp: set_conv_nth)
  finally show ?thesis .
qed

context shared_subqueue
begin

text \<open>When one sub-queue has moved, the others hold what they held.\<close>

lemma family_update:
  assumes fam: "family holds ps m Bs xss" and i: "i < length ps" and new: "holds p' m' B' xs'"
    and mv: "moves m (\<Union> (set Bs)) (Bs ! i) m' B'" and lim: "heap_limit m' = heap_limit m"
  shows "family holds (ps[i := p']) m' (Bs[i := B']) (xss[i := xs'])"
proof -
  have len: "length Bs = length ps" "length xss = length ps" using fam by (auto simp: family_def)
  have old: "holds (ps ! j) m (Bs ! j) (xss ! j)" if "j < length ps" for j using fam that by (simp add: family_def)
  have dis: "Bs ! j \<inter> Bs ! k = {}" if "j < length ps" "k < length ps" "j \<noteq> k" for j k using fam that by (simp add: family_def)
  have rest: "Bs ! j \<subseteq> \<Union> (set Bs) - Bs ! i" if "j < length ps" "j \<noteq> i" for j
    using dis [OF that(1) i that(2)] that(1) len by (auto intro: nth_mem)
  have "holds ((ps[i := p']) ! j) m' ((Bs[i := B']) ! j) ((xss[i := xs']) ! j)" if j: "j < length ps" for j
  proof (cases "j = i")
    case False
    then have "holds (ps ! j) m' (Bs ! j) (xss ! j)"
      using rest [OF j] mv by (intro frame [OF old [OF j] _ lim]) (auto simp: moves_def)
    with False show ?thesis by simp
  qed (use new i len in simp)
  moreover have "(Bs[i := B']) ! j \<inter> (Bs[i := B']) ! k = {}" if "j < length ps" "k < length ps" "j \<noteq> k" for j k
  proof -
    have "B' \<inter> Bs ! l = {}" if "l < length ps" "l \<noteq> i" for l using rest [OF that] mv unfolding moves_def by blast
    then show ?thesis using that dis [OF that] i len by (cases "i = j"; cases "i = k") (auto simp: nth_list_update)
  qed
  moreover have "mem_inv m' (\<Union> (set (Bs[i := B'])))"
    using mv dis [OF i] i len by (subst Union_update) (auto simp: moves_def)
  ultimately show ?thesis using len by (simp add: family_def)
qed

lemma family_enq:
  assumes fam: "family holds ps m Bs xss" and i: "i < length ps"
  shows "\<exists>r p' m' Bs'. enq mode x (ps ! i) m = Ret (r, p', m') \<and> links p' (ps ! i) \<and> heap_limit m' = heap_limit m \<and>
    (r = Val True \<and> \<not> raises E x \<and> family holds (ps[i := p']) m' Bs' (xss[i := xss ! i @ [x]]) \<or>
     (r = Val False \<or> r = Exc \<and> raises E x) \<and> family holds (ps[i := p']) m' Bs' xss)"
proof -
  have h: "holds (ps ! i) m (Bs ! i) (xss ! i)" "mem_inv m (\<Union> (set Bs))" "Bs ! i \<subseteq> \<Union> (set Bs)" "length xss = length ps"
    using fam i by (simp_all add: family_def Union_upper)
  obtain r p' m' B' where run: "enq mode x (ps ! i) m = Ret (r, p', m')" and
    r: "r = Val True \<and> \<not> raises E x \<and> holds p' m' B' (xss ! i @ [x]) \<or> (r = Val False \<or> r = Exc \<and> raises E x) \<and> holds p' m' B' (xss ! i)"
    and mv: "moves m (\<Union> (set Bs)) (Bs ! i) m' B'" "links p' (ps ! i)"
    using enq_law [OF h(1,2,3), of mode x] by (elim exE conjE) (rule that)
  note upd = family_update [OF fam i _ mv(1) enq_limit [OF run]]
  from r have "r = Val True \<and> \<not> raises E x \<and> family holds (ps[i := p']) m' (Bs[i := B']) (xss[i := xss ! i @ [x]]) \<or>
     (r = Val False \<or> r = Exc \<and> raises E x) \<and> family holds (ps[i := p']) m' (Bs[i := B']) xss"
    using upd upd [of p' "xss ! i"] by auto
  then show ?thesis using run mv(2) enq_limit [OF run] by blast
qed

lemma family_deq:
  assumes fam: "family holds ps m Bs xss" and i: "i < length ps"
  shows "\<exists>r p' m' Bs'. deq (ps ! i) m = Ret (r, p', m') \<and> links p' (ps ! i) \<and> heap_limit m' = heap_limit m \<and>
    r = (case xss ! i of [] \<Rightarrow> Val None | x # _ \<Rightarrow> if assign_raises E x then Exc else Val (Some x)) \<and>
    family holds (ps[i := p']) m' Bs' (xss[i := tl (xss ! i)])"
proof -
  have h: "holds (ps ! i) m (Bs ! i) (xss ! i)" "mem_inv m (\<Union> (set Bs))" "Bs ! i \<subseteq> \<Union> (set Bs)" "length xss = length ps"
    using fam i by (simp_all add: family_def Union_upper)
  obtain r p' m' B' where run: "deq (ps ! i) m = Ret (r, p', m')"
    "r = (case xss ! i of [] \<Rightarrow> Val None | x # _ \<Rightarrow> if assign_raises E x then Exc else Val (Some x))"
    "holds p' m' B' (tl (xss ! i))" "moves m (\<Union> (set Bs)) (Bs ! i) m' B'" "links p' (ps ! i)"
    using deq_law [OF h(1,2,3)] by (elim exE conjE) (rule that)
  from family_update [OF fam i run(3,4) deq_limit [OF run(1)]] run deq_limit [OF run(1)] show ?thesis by blast
qed

text \<open>Other changes of the memory, a new empty sub-queue, and a change of what the content does not depend on.\<close>

lemma family_mem:
  assumes "family holds ps m Bs xss" and "mem_inv m' (\<Union> (set Bs))" and "blocks m' = blocks m" and "heap_limit m' = heap_limit m"
  shows "family holds ps m' Bs xss"
  using assms frame [of _ m _ _ m'] by (auto simp: family_def)

lemma family_push:
  assumes "family holds ps m Bs xss" and "holds p m {} []"
  shows "family holds (ps @ [p]) m (Bs @ [{}]) (xss @ [[]])"
  using assms by (auto simp: family_def nth_append less_Suc_eq)

lemma family_relink:
  assumes "family holds ps m Bs xss" and "\<And>B xs. holds (ps ! i) m B xs \<Longrightarrow> holds p m B xs"
  shows "family holds (ps[i := p]) m Bs xss"
  using assms by (cases "i < length ps") (auto simp: family_def nth_list_update)

lemma family_size: "family holds ps m Bs xss \<Longrightarrow> i < length ps \<Longrightarrow> sized (ps ! i) = of_nat (length (xss ! i)) \<and> length (xss ! i) < 2 ^ 63"
  using size_law by (auto simp: family_def)

end

lemma gap_bound: "H \<le> Tl \<Longrightarrow> nblk T Tl * bsz T < H + 2 ^ 63 \<Longrightarrow> 0 < bsz T \<Longrightarrow> Tl - H < 2 ^ 63"
proof -
  assume a: "H \<le> Tl" "nblk T Tl * bsz T < H + 2 ^ 63" "0 < bsz T"
  have "Tl \<le> nblk T Tl * bsz T"
  proof (cases "Tl mod bsz T = 0")
    case True
    then show ?thesis using div_mult_mod_eq [of Tl "bsz T"] by (simp add: nblk_aligned [OF a(3) True])
  next
    case False
    have "Tl mod bsz T < bsz T" using a(3) by simp
    then show ?thesis unfolding nblk_unaligned [OF a(3) False] mult_Suc using div_mult_mod_eq [of Tl "bsz T"] by linarith
  qed
  then show ?thesis using a(1,2) by linarith
qed

lemma exp_queue_frame:
  assumes "exp_queue T E p m B xs" and same: "\<And>b. b \<in> B \<Longrightarrow> blocks m' b = blocks m b" and "heap_limit m' = heap_limit m"
  shows "exp_queue T E p m' B xs"
proof -
  obtain S H Tl blk ctn where q: "traits_ok T" "\<forall>x. \<not> raises E x" "heap_limit m * bsz T < 2 ^ 63"
    and inv: "exp_inv T p m S H Tl blk ctn" and B: "B = blk ` {S..<nblk T Tl}" and xs: "xs = contents H Tl ctn"
    using assms(1) by (auto simp: exp_queue_def)
  have "exp_inv T p m' S H Tl blk ctn" using inv same unfolding exp_inv_def B by auto
  then show ?thesis unfolding B xs using q assms(3) by (intro exp_queueI) simp_all
qed

lemma length_contents: "length (contents H Tl ctn) = Tl - H"
  by (simp add: contents_def)

lemma exp_queue_length:
  assumes "exp_queue T E p m B xs"
  shows "length xs < 2 ^ 63"
proof -
  obtain S H Tl blk ctn where "traits_ok T" "exp_inv T p m S H Tl blk ctn" "xs = contents H Tl ctn"
    using assms by (auto simp: exp_queue_def)
  then show ?thesis using gap_bound [OF exp_invD(4) exp_invD(5), of T p m S H Tl blk ctn T p m S blk ctn] by (simp add: length_contents)
qed

lemma imp_queue_length:
  assumes "imp_queue T p m B xs"
  shows "length xs < 2 ^ 63"
proof -
  obtain H Tl blk ctn where "traits_ok T" "imp_inv T p m H Tl blk ctn" "xs = contents H Tl ctn"
    using assms by (auto simp: imp_queue_def imp_holds_def)
  then show ?thesis using gap_bound [OF imp_invD(4) imp_invD(5), of T p m H Tl blk ctn T p m blk ctn] by (simp add: length_contents)
qed

text \<open>The producer at an address, its links, and a sequence of calls on it as a model of both classes.\<close>

definition any_queue :: "traits \<Rightarrow> 'd elem_ops \<Rightarrow> any_producer \<Rightarrow> 'd mem \<Rightarrow> nat set \<Rightarrow> 'd list \<Rightarrow> bool" where
  "any_queue T E a m B xs \<longleftrightarrow>
     (case a of Explicit p \<Rightarrow> isExplicit p \<and> exp_queue T E p m B xs | Implicit p \<Rightarrow> \<not> isExplicit p \<and> imp_queue T p m B xs)"

definition any_enqueue ::
  "traits \<Rightarrow> 'd elem_ops \<Rightarrow> AllocationMode \<Rightarrow> 'd \<Rightarrow> any_producer \<Rightarrow> 'd mem \<Rightarrow> (bool xres \<times> any_producer \<times> 'd mem) outcome" where
  "any_enqueue T E mode x a m =
     (case a of Explicit _ \<Rightarrow> as_explicit (explicit_enqueue T E mode x) a m | Implicit _ \<Rightarrow> as_implicit (implicit_enqueue T E mode x) a m)"

fun is_explicit :: "any_producer \<Rightarrow> bool" where
  "is_explicit (Explicit _) = True"
| "is_explicit (Implicit _) = False"

definition any_links :: "any_producer \<Rightarrow> any_producer \<Rightarrow> bool" where
  "any_links a b \<longleftrightarrow> is_explicit a = is_explicit b \<and> same_links (prod_base a) (prod_base b)"

lemma prod_base_simps [simp]:
  "p_next (prod_base (Explicit p)) = p_next p" "p_next (prod_base (Implicit r)) = p_next r"
  "p_inactive (prod_base (Explicit p)) = p_inactive p" "p_inactive (prod_base (Implicit r)) = p_inactive r"
  "p_token (prod_base (Explicit p)) = p_token p" "p_token (prod_base (Implicit r)) = p_token r"
  "isExplicit (prod_base (Explicit p)) = isExplicit p" "isExplicit (prod_base (Implicit r)) = isExplicit r"
  "producer_size_approx (prod_base (Explicit p)) = producer_size_approx p" "producer_size_approx (prod_base (Implicit r)) = producer_size_approx r"
  by (simp_all add: prod_base_def producer.truncate_def producer_size_approx_def Let_def)

lemma same_links_base: "same_links (prod_base (Explicit p)) (prod_base (Explicit p')) = same_links p p'"
  "same_links (prod_base (Implicit r)) (prod_base (Implicit r')) = same_links r r'"
  by (simp_all add: same_links_def)

interpretation any: shared_subqueue "any_queue T E" "any_enqueue T E" "any_dequeue T E" any_links E "\<lambda>a. producer_size_approx (prod_base a)"
proof
  fix a b c :: any_producer
  show "any_links a a" by (simp add: any_links_def same_links_def)
  show "any_links c a" if "any_links c b" "any_links b a" using that by (simp add: any_links_def same_links_def)
  fix m :: "'a mem" and B xs own mode x
  assume q: "any_queue T E a m B xs" and mem: "mem_inv m own" "B \<subseteq> own"
  show "\<exists>r p' m' B'. any_enqueue T E mode x a m = Ret (r, p', m') \<and>
      (r = Val True \<and> \<not> raises E x \<and> any_queue T E p' m' B' (xs @ [x]) \<or>
       (r = Val False \<or> r = Exc \<and> raises E x) \<and> any_queue T E p' m' B' xs) \<and> moves m own B m' B' \<and> any_links p' a"
  proof (cases a)
    case (Explicit p)
    with q have "isExplicit p" "exp_queue T E p m B xs" by (auto simp: any_queue_def)
    with exp.enq_law [OF this(2) mem, of mode x] show ?thesis
      unfolding Explicit any_enqueue_def as_explicit_def any_producer.case
      by (elim exE conjE) (intro exI conjI, simp, fastforce simp: any_queue_def same_links_def,
        assumption, simp add: any_links_def same_links_base)
  next
    case (Implicit p)
    with q have "\<not> isExplicit p" "imp_queue T p m B xs" by (auto simp: any_queue_def)
    with imp.enq_law [OF this(2) mem, of E mode x] show ?thesis
      unfolding Implicit any_enqueue_def as_implicit_def any_producer.case
      by (elim exE conjE) (intro exI conjI, simp, fastforce simp: any_queue_def same_links_def,
        assumption, simp add: any_links_def same_links_base)
  qed
  show "\<exists>r p' m' B'. any_dequeue T E a m = Ret (r, p', m') \<and>
      r = (case xs of [] \<Rightarrow> Val None | x # _ \<Rightarrow> if assign_raises E x then Exc else Val (Some x)) \<and>
      any_queue T E p' m' B' (tl xs) \<and> moves m own B m' B' \<and> any_links p' a"
  proof (cases a)
    case (Explicit p)
    with q have e: "isExplicit p" "exp_queue T E p m B xs" by (auto simp: any_queue_def)
    obtain r p' m' B' where "explicit_dequeue T E p m = Ret (r, p', m')"
      "r = (case xs of [] \<Rightarrow> Val None | x # _ \<Rightarrow> if assign_raises E x then Exc else Val (Some x))"
      "exp_queue T E p' m' B' (tl xs)" "moves m own B m' B'" "same_links p' p"
      using exp.deq_law [OF e(2) mem] by (elim exE conjE) (rule that)
    with e show ?thesis unfolding Explicit
      by (intro exI [of _ r] exI [of _ "Explicit p'"] exI [of _ m'] exI [of _ B'])
        (simp add: any_dequeue_def as_explicit_def any_queue_def any_links_def same_links_base, simp add: same_links_def)
  next
    case (Implicit p)
    with q have e: "\<not> isExplicit p" "imp_queue T p m B xs" by (auto simp: any_queue_def)
    obtain r p' m' B' where "implicit_dequeue T E p m = Ret (r, p', m')"
      "r = (case xs of [] \<Rightarrow> Val None | x # _ \<Rightarrow> if assign_raises E x then Exc else Val (Some x))"
      "imp_queue T p' m' B' (tl xs)" "moves m own B m' B'" "same_links p' p"
      using imp.deq_law [OF e(2) mem, of E] by (elim exE conjE) (rule that)
    with e show ?thesis unfolding Implicit
      by (intro exI [of _ r] exI [of _ "Implicit p'"] exI [of _ m'] exI [of _ B'])
        (simp add: any_dequeue_def as_implicit_def any_queue_def any_links_def same_links_base, simp add: same_links_def)
  qed
next
  fix mode x and a b :: any_producer and m m' :: "'a mem" and r r' B xs
  show "heap_limit m' = heap_limit m" if "any_enqueue T E mode x a m = Ret (r, b, m')"
    using that by (auto simp: any_enqueue_def as_explicit_def as_implicit_def outcome_simps split: any_producer.split_asm dest: keeps_limit)
  show "heap_limit m' = heap_limit m" if "any_dequeue T E a m = Ret (r', b, m')"
    using that by (auto simp: any_dequeue_def as_explicit_def as_implicit_def outcome_simps
        split: any_producer.split_asm if_split_asm dest: keeps_limit)
  show "any_queue T E a m' B xs" if "any_queue T E a m B xs" "\<And>b. b \<in> B \<Longrightarrow> blocks m' b = blocks m b" "heap_limit m' = heap_limit m"
    using that exp_queue_frame [of T E _ m B xs m'] imp_holds_frame [of T _ m B xs m']
    by (auto simp: any_queue_def imp_queue_def split: any_producer.splits)
  show "producer_size_approx (prod_base a) = of_nat (length xs) \<and> length xs < 2 ^ 63" if "any_queue T E a m B xs"
  proof (cases a)
    case (Explicit p)
    with that have "exp_queue T E p m B xs" by (simp add: any_queue_def)
    from exp_queue_size [OF this] exp_queue_length [OF this] Explicit show ?thesis by simp
  next
    case (Implicit p)
    with that have i: "imp_queue T p m B xs" by (simp add: any_queue_def)
    then have "traits_ok T" "imp_holds T p m B xs" by (simp_all add: imp_queue_def)
    from implicit_size [OF this] imp_queue_length [OF i] Implicit show ?thesis by simp
  qed
qed

end
