(* ===== verification/CQ_Queue_Proof.thy ===== *)
theory CQ_Queue_Proof
  imports CQ_Shared
begin

text \<open>
  The queue as a set of lanes: each producer holds a list of elements, and every call of the
  interface is described by what it does to the lists.
\<close>

section \<open>The invariant\<close>

text \<open>Producers are numbered in the order they were added; the list runs from the newest to the oldest.\<close>

fun ptr_of :: "nat \<Rightarrow> nat option" where
  "ptr_of 0 = None"
| "ptr_of (Suc i) = Some i"

abbreviation prod_at :: "'d queue \<Rightarrow> nat \<Rightarrow> any_producer" where
  "prod_at q i \<equiv> nd_prod (producers q ! i)"

abbreviation nprods :: "'d queue \<Rightarrow> nat" where
  "nprods q \<equiv> length (producers q)"

definition list_ok :: "'d queue \<Rightarrow> bool" where
  "list_ok q \<longleftrightarrow> producerListTail q = ptr_of (nprods q) \<and> (\<forall>i < nprods q. next_prod (prod_at q i) = ptr_of i) \<and>
     producerCount q = of_nat (nprods q)"

definition lanes :: "traits \<Rightarrow> 'd elem_ops \<Rightarrow> 'd queue \<Rightarrow> 'd list list \<Rightarrow> bool" where
  "lanes T E q xss \<longleftrightarrow> (\<exists>Bs. family (any_queue T E) (map nd_prod (producers q)) (q_mem q) Bs xss)"

definition queue_inv :: "traits \<Rightarrow> 'd elem_ops \<Rightarrow> 'd queue \<Rightarrow> 'd list list \<Rightarrow> bool" where
  "queue_inv T E q xss \<longleftrightarrow> traits_ok T \<and> (\<forall>x. \<not> raises E x) \<and> heap_limit (q_mem q) * bsz T < 2 ^ 63 \<and> lanes T E q xss \<and> list_ok q"

text \<open>What calls on single producers leave alone: everything but their content and the memory.\<close>

definition same_shape :: "'d queue \<Rightarrow> 'd queue \<Rightarrow> bool" where
  "same_shape q' q \<longleftrightarrow> q'\<lparr>producers := producers q, q_mem := q_mem q\<rparr> = q \<and> nprods q' = nprods q \<and>
     (\<forall>i < nprods q. any_links (prod_at q' i) (prod_at q i) \<and> nd_parent (producers q' ! i) = nd_parent (producers q ! i))"

lemma any_links_trans: "any_links c b \<Longrightarrow> any_links b a \<Longrightarrow> any_links c a"
  by (rule any.links_trans)

lemma same_shape_refl: "same_shape q q"
  by (simp add: same_shape_def any.links_refl)

lemma same_shape_trans:
  assumes "same_shape r q" and "same_shape q p"
  shows "same_shape r p"
proof -
  have "r\<lparr>producers := producers p, q_mem := q_mem p\<rparr> =
      (r\<lparr>producers := producers q, q_mem := q_mem q\<rparr>)\<lparr>producers := producers p, q_mem := q_mem p\<rparr>" by simp
  also have "\<dots> = p" using assms by (simp add: same_shape_def)
  finally show ?thesis using assms unfolding same_shape_def by (auto intro: any_links_trans)
qed

lemma same_shape_field:
  assumes "same_shape q' q" and "f (q'\<lparr>producers := producers q, q_mem := q_mem q\<rparr>) = f q'"
  shows "f q' = f q"
  using assms by (metis same_shape_def)

lemma same_shape_fields:
  assumes "same_shape q' q"
  shows "producerListTail q' = producerListTail q" "producerCount q' = producerCount q" "nprods q' = nprods q"
    "list_fuel q' = list_fuel q" "globalExplicitConsumerOffset q' = globalExplicitConsumerOffset q"
    "i < nprods q \<Longrightarrow> next_prod (prod_at q' i) = next_prod (prod_at q i)" "list_ok q' = list_ok q"
    "q_this q' = q_this q" "hash_dyn q' = hash_dyn q" "hash_end q' = hash_end q"
    "initialImplicitProducerHash q' = initialImplicitProducerHash q" "implicitProducerHashCount q' = implicitProducerHashCount q"
    "implicitProducerHashResizeInProgress q' = implicitProducerHashResizeInProgress q" "ptokens q' = ptokens q"
proof -
  show t: "producerListTail q' = producerListTail q" "producerCount q' = producerCount q"
      "globalExplicitConsumerOffset q' = globalExplicitConsumerOffset q"
      "q_this q' = q_this q" "hash_dyn q' = hash_dyn q" "hash_end q' = hash_end q"
      "initialImplicitProducerHash q' = initialImplicitProducerHash q" "implicitProducerHashCount q' = implicitProducerHashCount q"
      "implicitProducerHashResizeInProgress q' = implicitProducerHashResizeInProgress q" "ptokens q' = ptokens q"
    by (rule same_shape_field [OF assms], simp)+
  show n: "nprods q' = nprods q" "list_fuel q' = list_fuel q" using assms by (simp_all add: same_shape_def list_fuel_def)
  show x: "next_prod (prod_at q' i) = next_prod (prod_at q i)" if "i < nprods q" for i
    using that assms by (simp add: same_shape_def next_prod_def any_links_def same_links_def)
  show "list_ok q' = list_ok q" using t n x by (auto simp: list_ok_def)
qed

lemma lanes_length: "lanes T E q xss \<Longrightarrow> length xss = nprods q"
  by (auto simp: lanes_def family_def)

lemma queue_invD:
  assumes "queue_inv T E q xss"
  shows "traits_ok T" "\<not> raises E x" "heap_limit (q_mem q) * bsz T < 2 ^ 63" "lanes T E q xss" "list_ok q" "length xss = nprods q"
  using assms lanes_length by (auto simp: queue_inv_def)

section \<open>Calls on one producer\<close>

text \<open>What the lane at \<open>i\<close> gives to a dequeue.\<close>

definition front_of :: "'d elem_ops \<Rightarrow> 'd list \<Rightarrow> 'd option xres" where
  "front_of E xs = (case xs of [] \<Rightarrow> Val None | x # _ \<Rightarrow> if assign_raises E x then Exc else Val (Some x))"

lemma front_of_simps [simp]: "front_of E [] = Val None" "front_of E (x # xs) = (if assign_raises E x then Exc else Val (Some x))"
  "front_of E xs = Val None \<longleftrightarrow> xs = []"
  by (auto simp: front_of_def split: list.split)

lemma map_put_prod: "i < nprods q \<Longrightarrow> map nd_prod (producers (put_prod i a q)) = (map nd_prod (producers q))[i := a]"
  by (simp add: put_prod_def map_update)

lemma put_prod_shape:
  assumes "i < nprods q" and "any_links a (prod_at q i)"
  shows "same_shape ((put_prod i a q)\<lparr>q_mem := m\<rparr>) q"
  using assms any.links_refl unfolding same_shape_def put_prod_def by (auto simp: nth_list_update)

lemma queue_inv_shape:
  assumes "queue_inv T E q xss" and "same_shape q' q" and "lanes T E q' xss'" and "heap_limit (q_mem q') = heap_limit (q_mem q)"
  shows "queue_inv T E q' xss'"
  using assms same_shape_fields(7) by (auto simp: queue_inv_def)

lemma on_prod_dequeue:
  assumes inv: "queue_inv T E q xss" and i: "i < nprods q"
  shows "\<exists>q'. on_prod (any_dequeue T E) i q = Ret (front_of E (xss ! i), q') \<and> queue_inv T E q' (xss[i := tl (xss ! i)]) \<and> same_shape q' q"
proof -
  obtain Bs where fam: "family (any_queue T E) (map nd_prod (producers q)) (q_mem q) Bs xss"
    using inv by (auto simp: queue_inv_def lanes_def)
  obtain r a m Bs' where run: "any_dequeue T E (prod_at q i) (q_mem q) = Ret (r, a, m)" "any_links a (prod_at q i)"
    "heap_limit m = heap_limit (q_mem q)" "r = front_of E (xss ! i)"
    "family (any_queue T E) ((map nd_prod (producers q))[i := a]) m Bs' (xss[i := tl (xss ! i)])"
    using any.family_deq [OF fam, of i] i by (auto simp: front_of_def)
  let ?q = "(put_prod i a q)\<lparr>q_mem := m\<rparr>"
  have "same_shape ?q q" using put_prod_shape [OF i run(2)] .
  moreover have "lanes T E ?q (xss[i := tl (xss ! i)])" using run(5) map_put_prod [OF i, of a] unfolding lanes_def by auto
  ultimately show ?thesis using run i queue_inv_shape [OF inv, of ?q] by (auto simp: on_prod_def with_prod_def)
qed

text \<open>Enqueueing at a producer, of the kind the caller casts to.\<close>

definition kind_enqueue ::
  "bool \<Rightarrow> traits \<Rightarrow> 'd elem_ops \<Rightarrow> AllocationMode \<Rightarrow> 'd \<Rightarrow> any_producer \<Rightarrow> 'd mem \<Rightarrow> (bool xres \<times> any_producer \<times> 'd mem) outcome" where
  "kind_enqueue ex T E mode x = (if ex then as_explicit (explicit_enqueue T E mode x) else as_implicit (implicit_enqueue T E mode x))"

lemma on_prod_enqueue:
  assumes inv: "queue_inv T E q xss" and i: "i < nprods q" and kind: "is_explicit (prod_at q i) = ex"
  shows "\<exists>b q'. on_prod (kind_enqueue ex T E mode x) i q = Ret (Val b, q') \<and>
    queue_inv T E q' (if b then xss[i := xss ! i @ [x]] else xss) \<and> same_shape q' q"
proof -
  obtain Bs where fam: "family (any_queue T E) (map nd_prod (producers q)) (q_mem q) Bs xss"
    using inv by (auto simp: queue_inv_def lanes_def)
  obtain r a m Bs' where run: "any_enqueue T E mode x (prod_at q i) (q_mem q) = Ret (r, a, m)" "any_links a (prod_at q i)"
    "heap_limit m = heap_limit (q_mem q)" and
    r: "r = Val True \<and> \<not> raises E x \<and> family (any_queue T E) ((map nd_prod (producers q))[i := a]) m Bs' (xss[i := xss ! i @ [x]]) \<or>
     (r = Val False \<or> r = Exc \<and> raises E x) \<and> family (any_queue T E) ((map nd_prod (producers q))[i := a]) m Bs' xss"
    using any.family_enq [OF fam, of i mode x] i by auto
  obtain b where b: "r = Val b" "family (any_queue T E) ((map nd_prod (producers q))[i := a]) m Bs' (if b then xss[i := xss ! i @ [x]] else xss)"
    using r queue_invD(2) [OF inv] that [of True] that [of False] by auto
  let ?q = "(put_prod i a q)\<lparr>q_mem := m\<rparr>"
  have "same_shape ?q q" using put_prod_shape [OF i run(2)] .
  moreover have "lanes T E ?q (if b then xss[i := xss ! i @ [x]] else xss)"
    using b(2) map_put_prod [OF i, of a] unfolding lanes_def by auto
  moreover have "kind_enqueue ex T E mode x (prod_at q i) (q_mem q) = Ret (r, a, m)"
    using run(1) kind by (cases "prod_at q i") (auto simp: any_enqueue_def kind_enqueue_def)
  ultimately show ?thesis using run b(1) i queue_inv_shape [OF inv, of ?q] by (auto simp: on_prod_def with_prod_def)
qed

lemma prod_size:
  assumes "queue_inv T E q xss" and "i < nprods q"
  shows "producer_size_approx (prod_base (prod_at q i)) = of_nat (length (xss ! i))"
    and "0 < producer_size_approx (prod_base (prod_at q i)) \<longleftrightarrow> xss ! i \<noteq> []"
proof -
  obtain Bs where "family (any_queue T E) (map nd_prod (producers q)) (q_mem q) Bs xss"
    using assms(1) by (auto simp: queue_inv_def lanes_def)
  from any.family_size [OF this, of i] assms(2) have
    s: "producer_size_approx (prod_base (prod_at q i)) = of_nat (length (xss ! i))" "length (xss ! i) < 2 ^ 63" by auto
  then show "producer_size_approx (prod_base (prod_at q i)) = of_nat (length (xss ! i))" by simp
  have "unat (of_nat (length (xss ! i)) :: 64 word) = length (xss ! i)" using s(2) by (intro unat_of_nat_64) simp
  then show "0 < producer_size_approx (prod_base (prod_at q i)) \<longleftrightarrow> xss ! i \<noteq> []" unfolding s(1) by (simp add: word_less_nat_alt)
qed

section \<open>Dequeueing\<close>

text \<open>
  What a dequeue from the whole queue may answer: nothing only when all lanes are empty, otherwise
  the oldest element of one of them.
\<close>

definition takes :: "'d elem_ops \<Rightarrow> nat set \<Rightarrow> 'd list list \<Rightarrow> 'd option xres \<Rightarrow> 'd list list \<Rightarrow> bool" where
  "takes E I xss r xss' \<longleftrightarrow>
     r = Val None \<and> xss' = xss \<and> (\<forall>i \<in> I. xss ! i = []) \<or>
     (\<exists>i \<in> I. xss ! i \<noteq> [] \<and> r = front_of E (xss ! i) \<and> xss' = xss[i := tl (xss ! i)])"

lemma takes_None: "takes E I xss (Val None) xss' \<longleftrightarrow> xss' = xss \<and> (\<forall>i \<in> I. xss ! i = [])"
  by (auto simp: takes_def dest: sym)

lemma takes_more: "takes E I xss r xss' \<Longrightarrow> \<forall>j \<in> J - I. xss ! j = [] \<Longrightarrow> I \<subseteq> J \<Longrightarrow> takes E J xss r xss'"
  unfolding takes_def by blast

lemma front_takes: "i \<in> I \<Longrightarrow> xss ! i \<noteq> [] \<Longrightarrow> takes E I xss (front_of E (xss ! i)) (xss[i := tl (xss ! i)])"
  unfolding takes_def by blast

lemma scan_sizes_spec:
  assumes inv: "queue_inv T E q xss" and "k \<le> nprods q" and "k < f"
    and start: "if c = 0 then b = None \<and> s = 0 else (\<exists>j < nprods q. b = Some j \<and> xss ! j \<noteq> [])"
  shows "\<exists>c' b'. scan_sizes f q (ptr_of k) c b s = Ret (c', b') \<and>
    (if c' = 0 then c = 0 \<and> (\<forall>i < k. xss ! i = []) else (\<exists>j < nprods q. b' = Some j \<and> xss ! j \<noteq> []))"
  using assms(2-)
proof (induction f arbitrary: k c b s)
  case (Suc f)
  show ?case
  proof (cases k)
    case 0
    with Suc.prems show ?thesis by auto
  next
    case (Suc i)
    have i: "i < nprods q" "next_prod (prod_at q i) = ptr_of i" using Suc.prems Suc inv by (auto simp: queue_inv_def list_ok_def)
    have IH: "\<exists>c' b'. scan_sizes f q (ptr_of i) c1 b1 s1 = Ret (c', b') \<and>
        (if c' = 0 then c1 = 0 \<and> (\<forall>i' < i. xss ! i' = []) else (\<exists>j < nprods q. b' = Some j \<and> xss ! j \<noteq> []))"
      if "if c1 = 0 then b1 = None \<and> s1 = 0 else (\<exists>j < nprods q. b1 = Some j \<and> xss ! j \<noteq> [])" for c1 b1 s1
      using Suc.IH [OF _ _ that, of i] Suc.prems Suc by simp
    let ?n = "producer_size_approx (prod_base (prod_at q i))"
    note sz = prod_size(2) [OF inv i(1)]
    consider "\<not> c < 3" | "c < 3" "xss ! i = []" | "c < 3" "xss ! i \<noteq> []" "?n > s" | "c < 3" "xss ! i \<noteq> []" "\<not> ?n > s" by blast
    then show ?thesis
    proof cases
      case 1
      with Suc.prems Suc show ?thesis by simp
    next
      case 2
      from IH [OF Suc.prems(3)] 2 show ?thesis using Suc i sz by (fastforce simp: with_prod_def less_Suc_eq)
    next
      case 3
      with IH [of "c + 1" "Some i" ?n] show ?thesis using Suc i sz by (fastforce simp: with_prod_def split: if_splits)
    next
      case 4
      then have "c \<noteq> 0" using Suc.prems(3) sz by (cases "c = 0") (auto simp: with_prod_def)
      with 4 IH [of "c + 1" b s] Suc.prems(3) show ?thesis using Suc i sz by (fastforce simp: with_prod_def split: if_splits)
    qed
  qed
qed simp

lemma try_each_spec:
  assumes "queue_inv T E q xss" and "k \<le> nprods q" and "k < f"
  shows "\<exists>r q' xss'. try_each f T E skip (ptr_of k) q = Ret (r, q') \<and> takes E ({..<k} - set_option skip) xss r xss' \<and>
    queue_inv T E q' xss' \<and> same_shape q' q"
  using assms
proof (induction f arbitrary: k q)
  case (Suc f)
  show ?case
  proof (cases k)
    case 0
    with Suc.prems same_shape_refl show ?thesis by (auto simp: takes_def)
  next
    case (Suc i)
    have i: "i < nprods q" "next_prod (prod_at q i) = ptr_of i" using Suc.prems Suc by (auto simp: queue_inv_def list_ok_def)
    show ?thesis
    proof (cases "Some i = skip")
      case True
      then have sk: "skip = Some i" by simp
      then have "{..<k} - set_option skip = {..<i} - set_option skip" using Suc by auto
      with Suc.IH [OF Suc.prems(1), of i] Suc.prems Suc sk i show ?thesis by (simp add: with_prod_def)
    next
      case False
      then have iI: "i \<in> {..<k} - set_option skip" using Suc by auto
      obtain q1 where q1: "on_prod (any_dequeue T E) i q = Ret (front_of E (xss ! i), q1)"
        "queue_inv T E q1 (xss[i := tl (xss ! i)])" "same_shape q1 q" using on_prod_dequeue [OF Suc.prems(1) i(1)] by blast
      show ?thesis
      proof (cases "xss ! i = []")
        case True
        then have "xss[i := tl (xss ! i)] = xss" by (metis list.sel(2) list_update_id)
        then have inv1: "queue_inv T E q1 xss" using q1(2) by simp
        obtain r q' xss' where rest: "try_each f T E skip (ptr_of i) q1 = Ret (r, q')"
          "takes E ({..<i} - set_option skip) xss r xss'" "queue_inv T E q' xss'" "same_shape q' q1"
          using Suc.IH [OF inv1, of i] Suc.prems Suc same_shape_fields(3) [OF q1(3)] by auto
        have "takes E ({..<k} - set_option skip) xss r xss'"
          using rest(2) True Suc by (intro takes_more [OF rest(2)]) (auto simp: less_Suc_eq)
        moreover have "try_each (Suc f) T E skip (ptr_of k) q = Ret (r, q')"
          using q1 True False rest(1) Suc i same_shape_fields(3,6) [OF q1(3)] by (simp add: with_prod_def)
        ultimately show ?thesis using rest(3) same_shape_trans [OF rest(4) q1(3)] by blast
      next
        case False
        with q1 front_takes [OF iI False] \<open>Some i \<noteq> skip\<close> Suc show ?thesis by fastforce
      qed
    qed
  qed
qed simp

lemma ptr_list: "queue_inv T E q xss \<Longrightarrow> producerListTail q = ptr_of (nprods q)"
  by (simp add: queue_inv_def list_ok_def)

text \<open>\<open>try_dequeue\<close> and \<open>try_dequeue_non_interleaved\<close>.\<close>

lemma non_interleaved_spec:
  assumes inv: "queue_inv T E q xss"
  shows "\<exists>r q' xss'. try_dequeue_non_interleaved T E q = Ret (r, q') \<and> takes E {..<nprods q} xss r xss' \<and> queue_inv T E q' xss' \<and> same_shape q' q"
  using try_each_spec [OF inv, of "nprods q" "list_fuel q" None] by (simp add: try_dequeue_non_interleaved_def ptr_list [OF inv] list_fuel_def)

lemma try_dequeue_spec:
  assumes inv: "queue_inv T E q xss"
  shows "\<exists>r q' xss'. try_dequeue T E q = Ret (r, q') \<and> takes E {..<nprods q} xss r xss' \<and> queue_inv T E q' xss' \<and> same_shape q' q"
proof -
  obtain c b where scan: "scan_sizes (list_fuel q) q (producerListTail q) 0 None 0 = Ret (c, b)"
    "if c = 0 then \<forall>i < nprods q. xss ! i = [] else \<exists>j < nprods q. b = Some j \<and> xss ! j \<noteq> []"
    using scan_sizes_spec [OF inv, of "nprods q" "list_fuel q" 0 None 0] by (auto simp: ptr_list [OF inv] list_fuel_def)
  show ?thesis
  proof (cases "c = 0")
    case True
    with scan inv same_shape_refl show ?thesis by (auto simp: try_dequeue_def takes_def)
  next
    case False
    then obtain j where j: "j < nprods q" "b = Some j" "xss ! j \<noteq> []" using scan(2) by auto
    obtain q1 where "on_prod (any_dequeue T E) j q = Ret (front_of E (xss ! j), q1)"
      "queue_inv T E q1 (xss[j := tl (xss ! j)])" "same_shape q1 q" using on_prod_dequeue [OF inv j(1)] by blast
    with front_takes [OF _ j(3), of "{..<nprods q}"] j scan(1) False show ?thesis by (fastforce simp: try_dequeue_def)
  qed
qed

section \<open>Consumer tokens\<close>

text \<open>A step along the ring of producers goes to the one before, from the first to the last.\<close>

lemma ring_step_spec:
  assumes "list_ok q" and "i < nprods q"
  shows "ring_step q (producerListTail q) (Some i) = Ret (Some ((i + (nprods q - 1)) mod nprods q))"
proof (cases i)
  case 0
  with assms show ?thesis by (cases "nprods q") (auto simp: ring_step_def with_prod_def list_ok_def)
next
  case (Suc j)
  then have "i + (nprods q - 1) = j + nprods q" using assms(2) by simp
  then have "(i + (nprods q - 1)) mod nprods q = j" using assms(2) Suc by simp
  with Suc assms show ?thesis by (auto simp: ring_step_def with_prod_def list_ok_def)
qed

lemma int_back: "0 < n \<Longrightarrow> int ((i + (n - 1)) mod n) = (int i - 1) mod int n"
  using mod_add_self2 [of "int i - 1" "int n"] by (simp add: zmod_int of_nat_diff algebra_simps)

lemma ring_steps_spec:
  assumes "list_ok q" and "i < nprods q"
  shows "\<exists>j < nprods q. ring_steps k q (producerListTail q) (Some i) = Ret (Some j) \<and> int j = (int i - int k) mod int (nprods q)"
  using assms(2)
proof (induction k arbitrary: i)
  case (Suc k)
  let ?i = "(i + (nprods q - 1)) mod nprods q"
  have n: "0 < nprods q" using Suc.prems by linarith
  obtain j where j: "j < nprods q" "ring_steps k q (producerListTail q) (Some ?i) = Ret (Some j)"
    "int j = (int ?i - int k) mod int (nprods q)" using Suc.IH [of ?i] mod_less_divisor [OF n] by blast
  have "int j = (int i - int (Suc k)) mod int (nprods q)"
    using j(3) unfolding int_back [OF n] by (simp add: mod_diff_left_eq algebra_simps)
  with j(1,2) show ?case using ring_step_spec [OF assms(1) Suc.prems] by (intro exI [of _ j]) simp
qed simp

text \<open>A token a consumer may hold: new, or placed at producers of the queue.\<close>

definition token_ok :: "'d queue \<Rightarrow> ConsumerToken \<Rightarrow> bool" where
  "token_ok q tok \<longleftrightarrow> desiredProducer tok = None \<or>
     (\<exists>d < nprods q. desiredProducer tok = Some d) \<and> (\<exists>c < nprods q. currentProducer tok = Some c)"

text \<open>Where a token stands before it catches up with the rotations it has missed.\<close>

definition token_start :: "'d queue \<Rightarrow> ConsumerToken \<Rightarrow> int" where
  "token_start q tok = (case desiredProducer tok of
     None \<Rightarrow> int (unat (initialOffset tok) mod nprods q) | Some d \<Rightarrow> int d)"

lemma count_unat: "list_ok q \<Longrightarrow> nprods q < 2 ^ 32 \<Longrightarrow> unat (producerCount q) = nprods q"
  by (simp add: list_ok_def unsigned_of_nat take_bit_nat_eq_self)

lemma rotation_spec:
  assumes ok: "list_ok q" and n: "0 < nprods q" "nprods q < 2 ^ 32" and tok: "token_ok q tok"
  shows "\<exists>p < nprods q. update_current_producer_after_rotation tok q =
      Ret (True, tok\<lparr>desiredProducer := Some p, lastKnownGlobalOffset := globalExplicitConsumerOffset q,
        currentProducer := Some p, itemsConsumedFromCurrent := 0\<rparr>) \<and>
    int p = (token_start q tok - int (unat (globalExplicitConsumerOffset q - lastKnownGlobalOffset tok))) mod int (nprods q)"
proof -
  let ?n = "nprods q" and ?pc = "producerCount q" and ?tail = "producerListTail q"
  note cnt = count_unat [OF ok n(2)]
  have tail: "?tail = Some (?n - 1)" using ok n(1) by (cases ?n) (auto simp: list_ok_def)
  let ?off = "?pc - 1 - initialOffset tok mod ?pc" and ?delta = "globalExplicitConsumerOffset q - lastKnownGlobalOffset tok"
  have pc0: "?pc \<noteq> 0" using cnt n(1) by (metis unat_0 less_irrefl)
  have m: "unat (initialOffset tok mod ?pc) = unat (initialOffset tok) mod ?n" by (simp add: unat_mod_distrib cnt)
  have "unat (?pc - 1) = ?n - 1" using pc0 cnt by (metis unat_minus_one)
  moreover have "unat (initialOffset tok) mod ?n \<le> ?n - 1" using n(1) by (simp add: Suc_leI less_Suc_eq_le [symmetric])
  ultimately have off: "unat ?off = ?n - 1 - unat (initialOffset tok) mod ?n"
    using m by (subst unat_sub) (auto simp: word_le_nat_alt)
  have d: "\<exists>d < ?n. (if desiredProducer tok = None then ring_steps (unat ?off) q ?tail ?tail else Ret (desiredProducer tok)) = Ret (Some d)
    \<and> int d = token_start q tok"
  proof (cases "desiredProducer tok")
    case None
    have lt: "?n - 1 < ?n" using n(1) by simp
    obtain d where "d < ?n" "ring_steps (unat ?off) q ?tail (Some (?n - 1)) = Ret (Some d)" "int d = (int (?n - 1) - int (unat ?off)) mod int ?n"
      using ring_steps_spec [OF ok lt] by blast
    moreover have "int (?n - 1) - int (unat ?off) = int (unat (initialOffset tok) mod ?n)"
      unfolding off using n(1) mod_less_divisor [OF n(1), of "unat (initialOffset tok)"] by linarith
    ultimately show ?thesis using None tail n(1) by (intro exI [of _ d]) (simp add: token_start_def zmod_int)
  next
    case (Some d)
    with tok show ?thesis by (auto simp: token_ok_def token_start_def)
  qed
  then obtain d where d: "d < ?n" "(if desiredProducer tok = None then ring_steps (unat ?off) q ?tail ?tail else Ret (desiredProducer tok)) = Ret (Some d)"
    "int d = token_start q tok" by blast
  let ?k = "unat (if ?delta \<ge> ?pc then ?delta mod ?pc else ?delta)"
  have "?k mod ?n = unat ?delta mod ?n" by (simp add: unat_mod_distrib cnt)
  then have k: "int ?k mod int ?n = int (unat ?delta) mod int ?n" by (metis zmod_int)
  obtain p where p: "p < ?n" "ring_steps ?k q ?tail (Some d) = Ret (Some p)" "int p = (int d - int ?k) mod int ?n"
    using ring_steps_spec [OF ok d(1)] by blast
  have "(int d - int ?k) mod int ?n = (int d - int (unat ?delta)) mod int ?n" using k by (metis mod_diff_right_eq)
  with p d(3) have ip: "int p = (token_start q tok - int (unat ?delta)) mod int ?n" by simp
  have "update_current_producer_after_rotation tok q =
      Ret (True, tok\<lparr>desiredProducer := Some p, lastKnownGlobalOffset := globalExplicitConsumerOffset q,
        currentProducer := Some p, itemsConsumedFromCurrent := 0\<rparr>)"
    unfolding update_current_producer_after_rotation_def Let_def d(2) and_then.simps p(2) using tail pc0 by simp
  with p(1) ip show ?thesis by blast
qed

text \<open>Going around the ring from the producer before \<open>c\<close>, until \<open>c\<close> is met again.\<close>

definition around :: "nat \<Rightarrow> nat \<Rightarrow> nat \<Rightarrow> nat set" where
  "around n c d = (\<lambda>j. (c + j) mod n) ` {1..d}"

lemma around_Suc: "around n c (Suc d) = insert ((c + Suc d) mod n) (around n c d)"
  by (auto simp: around_def atLeastAtMostSuc_conv)

lemma around_all:
  assumes "c < n"
  shows "insert c (around n c (n - 1)) = {..<n}"
proof (intro equalityI subsetI)
  fix j assume j: "j \<in> {..<n}"
  show "j \<in> insert c (around n c (n - 1))"
  proof (cases "j = c")
    case False
    let ?e = "(j + n - c) mod n"
    have c: "(c + ?e) mod n = j" using assms j by (simp add: mod_simps)
    have "?e \<noteq> 0" using c False assms by (metis add.right_neutral mod_less)
    moreover have "?e < n" using assms by simp
    ultimately have "?e \<in> {1..n - 1}" by simp
    with c show ?thesis unfolding around_def by (metis image_eqI insertI2)
  qed simp
qed (use assms in \<open>auto simp: around_def\<close>)

lemma around_not: "d < n \<Longrightarrow> c < n \<Longrightarrow> 0 < d \<Longrightarrow> (c + d) mod n \<noteq> (c :: nat)"
  using le_mod_geq [of n "c + d"] by (cases "c + d < n") auto

lemma around_back: "Suc d \<le> n \<Longrightarrow> c < n \<Longrightarrow> ((c + Suc d) mod n + (n - 1)) mod n = (c + d) mod (n :: nat)"
proof -
  assume "Suc d \<le> n" "c < n"
  then have "c + Suc d + (n - 1) = c + d + n" by simp
  then show ?thesis by (metis mod_add_left_eq mod_add_self2)
qed

lemma ring_each_spec:
  assumes "queue_inv T E q xss" and "c < nprods q" and "d < nprods q" and "d < f" and "currentProducer tok = Some c"
  shows "\<exists>r tok' q' xss'. ring_each f T E (producerListTail q) (Some ((c + d) mod nprods q)) tok q = Ret (r, tok', q') \<and>
    takes E (around (nprods q) c d) xss r xss' \<and> queue_inv T E q' xss' \<and> same_shape q' q \<and>
    (tok' = tok \<or> (\<exists>c' < nprods q. tok' = tok\<lparr>currentProducer := Some c', itemsConsumedFromCurrent := 1\<rparr>))"
  using assms
proof (induction f arbitrary: d q)
  case (Suc f)
  show ?case
  proof (cases d)
    case 0
    with Suc.prems same_shape_refl show ?thesis by (auto simp: takes_def around_def)
  next
    case (Suc e)
    let ?n = "nprods q"
    define i where "i = (c + d) mod ?n"
    have n: "0 < ?n" using Suc.prems by linarith
    have i: "i < ?n" "i \<noteq> c" using Suc.prems Suc around_not [of d ?n c] mod_less_divisor [OF n] by (auto simp: i_def)
    have iI: "i \<in> around ?n c d" unfolding Suc around_Suc i_def by simp
    obtain q1 where q1: "on_prod (any_dequeue T E) i q = Ret (front_of E (xss ! i), q1)"
      "queue_inv T E q1 (xss[i := tl (xss ! i)])" "same_shape q1 q" using on_prod_dequeue [OF Suc.prems(1) i(1)] by blast
    show ?thesis
    proof (cases "xss ! i")
      case Nil
      then have "xss[i := tl (xss ! i)] = xss" by (metis list.sel(2) list_update_id)
      then have inv1: "queue_inv T E q1 xss" using q1(2) by simp
      have bk: "(i + (?n - 1)) mod ?n = (c + e) mod ?n" unfolding i_def Suc using around_back [of e ?n c] Suc.prems Suc by simp
      have step: "ring_step q1 (producerListTail q) (Some i) = Ret (Some ((c + e) mod ?n))"
        using ring_step_spec [of q1 i] queue_invD(5) [OF inv1] i(1) same_shape_fields(1,3) [OF q1(3)] bk by simp
      have "c < nprods q1" "e < nprods q1" "e < f" using Suc.prems Suc same_shape_fields(3) [OF q1(3)] by auto
      from Suc.IH [OF inv1 this Suc.prems(5)] obtain r tok' q' xss' where rest: "ring_each f T E (producerListTail q) (Some ((c + e) mod ?n)) tok q1 = Ret (r, tok', q')"
        "takes E (around ?n c e) xss r xss'" "queue_inv T E q' xss'" "same_shape q' q1"
        "tok' = tok \<or> (\<exists>c' < ?n. tok' = tok\<lparr>currentProducer := Some c', itemsConsumedFromCurrent := 1\<rparr>)"
        unfolding same_shape_fields(1,3) [OF q1(3)] by (elim exE conjE) (rule that)
      have "takes E (around ?n c d) xss r xss'"
        using Nil by (intro takes_more [OF rest(2)]) (auto simp: Suc around_Suc i_def)
      moreover have "ring_each (Suc f) T E (producerListTail q) (Some i) tok q = Ret (r, tok', q')"
        using q1(1) Nil step rest(1) i(2) Suc.prems(5) by simp
      ultimately show ?thesis using rest(3,5) same_shape_trans [OF rest(4) q1(3)] unfolding i_def by blast
    next
      case (Cons x xs)
      let ?tok = "if assign_raises E x then tok else tok\<lparr>currentProducer := Some i, itemsConsumedFromCurrent := 1\<rparr>"
      have "ring_each (Suc f) T E (producerListTail q) (Some i) tok q = Ret (front_of E (xss ! i), ?tok, q1)"
        using q1(1) Cons i(2) Suc.prems(5) by simp
      moreover have "?tok = tok \<or> (\<exists>c' < ?n. ?tok = tok\<lparr>currentProducer := Some c', itemsConsumedFromCurrent := 1\<rparr>)" using i(1) by auto
      moreover have "takes E (around ?n c d) xss (front_of E (xss ! i)) (xss[i := tl (xss ! i)])" using Cons by (intro front_takes iI) simp
      ultimately show ?thesis using q1(2,3) unfolding i_def by blast
    qed
  qed
qed simp

lemma same_shape_offset:
  assumes "same_shape q' q"
  shows "same_shape (q'\<lparr>globalExplicitConsumerOffset := g\<rparr>) (q\<lparr>globalExplicitConsumerOffset := g\<rparr>)"
proof -
  have "q'\<lparr>globalExplicitConsumerOffset := g, producers := producers q, q_mem := q_mem q\<rparr> =
      (q'\<lparr>producers := producers q, q_mem := q_mem q\<rparr>)\<lparr>globalExplicitConsumerOffset := g\<rparr>" by simp
  also have "\<dots> = q\<lparr>globalExplicitConsumerOffset := g\<rparr>" using assms by (simp add: same_shape_def)
  finally show ?thesis using assms by (simp add: same_shape_def)
qed

lemma token_ok_shape: "same_shape q' q \<Longrightarrow> token_ok q' tok = token_ok q tok"
  by (simp add: token_ok_def same_shape_fields(3))

text \<open>The producer at which a dequeue with a token begins.\<close>

lemma token_start_place:
  assumes ok: "list_ok q" and tok: "token_ok q tok" and n: "nprods q < 2 ^ 32" "0 < nprods q"
  obtains c tok1 where "(if token_stale tok q then update_current_producer_after_rotation tok q else Ret (True, tok)) = Ret (True, tok1)"
    "c < nprods q" "currentProducer tok1 = Some c" "token_ok q tok1" "desiredProducer tok1 \<noteq> None"
proof (cases "token_stale tok q")
  case True
  with rotation_spec [OF ok n(2,1) tok] show thesis by (fastforce simp: token_ok_def intro: that)
next
  case False
  with tok show thesis by (auto simp: token_stale_def token_ok_def intro: that)
qed

text \<open>\<open>try_dequeue\<close> with a consumer token. The number of producers is kept in 32 bits.\<close>

lemma try_dequeue_token_spec:
  assumes inv: "queue_inv T E q xss" and tok: "token_ok q tok" and n: "nprods q < 2 ^ 32"
  shows "\<exists>r tok' q' xss'. try_dequeue_token T E tok q = Ret (r, tok', q') \<and> takes E {..<nprods q} xss r xss' \<and>
    queue_inv T E q' xss' \<and> token_ok q' tok' \<and> (\<exists>g. same_shape q' (q\<lparr>globalExplicitConsumerOffset := g\<rparr>))"
proof (cases "nprods q = 0")
  case True
  then have "producerListTail q = None" "desiredProducer tok = None"
    using ptr_list [OF inv] tok by (auto simp: token_ok_def)
  then have "try_dequeue_token T E tok q = Ret (Val None, tok, q)"
    by (simp add: try_dequeue_token_def token_stale_def update_current_producer_after_rotation_def)
  moreover have "\<exists>g. same_shape q (q\<lparr>globalExplicitConsumerOffset := g\<rparr>)"
    using same_shape_refl by (intro exI [of _ "globalExplicitConsumerOffset q"]) simp
  moreover have "takes E {..<nprods q} xss (Val None) xss" using True by (simp add: takes_def)
  ultimately show ?thesis using inv tok by blast
next
  case False
  then have pos: "0 < nprods q" by simp
  obtain c tok1 where start: "(if token_stale tok q then update_current_producer_after_rotation tok q else Ret (True, tok)) = Ret (True, tok1)"
    and c: "c < nprods q" "currentProducer tok1 = Some c" and tok1: "token_ok q tok1"
    by (rule token_start_place [OF queue_invD(5) [OF inv] tok n pos])
  obtain q1 where q1: "on_prod (any_dequeue T E) c q = Ret (front_of E (xss ! c), q1)"
    "queue_inv T E q1 (xss[c := tl (xss ! c)])" "same_shape q1 q" using on_prod_dequeue [OF inv c(1)] by blast
  note f1 = same_shape_fields(1,3) [OF q1(3)]
  show ?thesis
  proof (cases "xss ! c")
    case Nil
    then have "xss[c := tl (xss ! c)] = xss" by (metis list.sel(2) list_update_id)
    then have inv1: "queue_inv T E q1 xss" using q1(2) by simp
    have step: "ring_step q1 (producerListTail q1) (Some c) = Ret (Some ((c + (nprods q1 - 1)) mod nprods q1))"
      using ring_step_spec [of q1 c] queue_invD(5) [OF inv1] c(1) f1 by simp
    have "c < nprods q1" "nprods q1 - 1 < nprods q1" "nprods q1 - 1 < list_fuel q1" using c(1) f1 by (auto simp: list_fuel_def)
    from ring_each_spec [OF inv1 this c(2)] obtain r tok' q' xss' where
      rest: "ring_each (list_fuel q1) T E (producerListTail q) (Some ((c + (nprods q - 1)) mod nprods q)) tok1 q1 = Ret (r, tok', q')"
      "takes E (around (nprods q) c (nprods q - 1)) xss r xss'" "queue_inv T E q' xss'" "same_shape q' q1"
      and tok': "tok' = tok1 \<or> (\<exists>c' < nprods q. tok' = tok1\<lparr>currentProducer := Some c', itemsConsumedFromCurrent := 1\<rparr>)"
      unfolding f1 by (elim exE conjE) (rule that)
    have run: "try_dequeue_token T E tok q = Ret (r, tok', q')"
      unfolding try_dequeue_token_def start using c(2) q1(1) Nil step rest(1) by (simp add: f1)
    have "{..<nprods q} - around (nprods q) c (nprods q - 1) \<subseteq> {c}" "around (nprods q) c (nprods q - 1) \<subseteq> {..<nprods q}"
      using around_all [OF c(1)] by blast+
    then have "takes E {..<nprods q} xss r xss'" using Nil by (intro takes_more [OF rest(2)]) auto
    moreover have sh: "same_shape q' q" using same_shape_trans [OF rest(4) q1(3)] .
    moreover have "token_ok q' tok'" unfolding token_ok_shape [OF sh] using tok1 tok' by (auto simp: token_ok_def)
    moreover have "same_shape q' (q\<lparr>globalExplicitConsumerOffset := globalExplicitConsumerOffset q\<rparr>)" using sh by simp
    ultimately show ?thesis using run rest(3) by blast
  next
    case (Cons x xs)
    let ?n = "itemsConsumedFromCurrent tok1 + 1"
    define g where "g = (if assign_raises E x \<or> ?n \<noteq> EXPLICIT_CONSUMER_CONSUMPTION_QUOTA_BEFORE_ROTATE T
      then globalExplicitConsumerOffset q1 else globalExplicitConsumerOffset q1 + 1)"
    define tok2 where "tok2 = (if assign_raises E x then tok1 else tok1\<lparr>itemsConsumedFromCurrent := ?n\<rparr>)"
    let ?q = "q1\<lparr>globalExplicitConsumerOffset := g\<rparr>"
    have "try_dequeue_token T E tok q = Ret (front_of E (xss ! c), tok2, ?q)"
      unfolding try_dequeue_token_def start using c(2) q1(1) Cons by (simp add: g_def tok2_def Let_def)
    moreover have "queue_inv T E ?q (xss[c := tl (xss ! c)])" using q1(2) by (simp add: queue_inv_def lanes_def list_ok_def)
    moreover have "same_shape ?q (q\<lparr>globalExplicitConsumerOffset := g\<rparr>)" by (rule same_shape_offset [OF q1(3)])
    moreover have "token_ok ?q tok2" using tok1 f1 by (simp add: token_ok_def tok2_def)
    moreover have "takes E {..<nprods q} xss (front_of E (xss ! c)) (xss[c := tl (xss ! c)])" using c(1) Cons by (intro front_takes) auto
    ultimately show ?thesis by (intro exI conjI)
  qed
qed

end
