(* ===== verification/CQ_Register.thy ===== *)
theory CQ_Register
  imports CQ_Queue_Proof
begin

text \<open>
  Registration of producers: recycling or creating them, tokens, and the tables that give every
  thread the same implicit producer each time.
\<close>

section \<open>Links do not matter to the content\<close>

lemma exp_index_links [simp]:
  "exp_index T (p\<lparr>p_next := n\<rparr>) S N blk = exp_index T p S N blk"
  "exp_index T (p\<lparr>p_inactive := b\<rparr>) S N blk = exp_index T p S N blk"
  "exp_index T (p\<lparr>p_token := t\<rparr>) S N blk = exp_index T p S N blk"
  by (simp_all add: exp_index_def split: list.split)

lemma exp_queue_links [simp]:
  "exp_queue T E (p\<lparr>p_next := n\<rparr>) m B xs = exp_queue T E p m B xs"
  "exp_queue T E (p\<lparr>p_inactive := b\<rparr>) m B xs = exp_queue T E p m B xs"
  "exp_queue T E (p\<lparr>p_token := t\<rparr>) m B xs = exp_queue T E p m B xs"
  by (simp_all add: exp_queue_def exp_inv_def)

lemma imp_queue_links [simp]:
  "imp_queue T (p\<lparr>p_next := n\<rparr>) m B xs = imp_queue T p m B xs"
  "imp_queue T (p\<lparr>p_inactive := b\<rparr>) m B xs = imp_queue T p m B xs"
  "imp_queue T (p\<lparr>p_token := t\<rparr>) m B xs = imp_queue T p m B xs"
  by (simp_all add: imp_queue_def imp_holds_def imp_inv_def indexed_def)

lemma any_queue_links [simp]:
  "any_queue T E (set_next n a) m B xs = any_queue T E a m B xs"
  "any_queue T E (set_inactive b a) m B xs = any_queue T E a m B xs"
  "any_queue T E (set_token t a) m B xs = any_queue T E a m B xs"
  by (cases a; simp add: any_queue_def)+

lemma is_explicit_links [simp]:
  "is_explicit (set_next n a) = is_explicit a" "is_explicit (set_inactive b a) = is_explicit a" "is_explicit (set_token t a) = is_explicit a"
  by (cases a; simp)+

lemma link_fields [simp]:
  "next_prod (set_next n a) = n" "next_prod (set_inactive b a) = next_prod a" "next_prod (set_token t a) = next_prod a"
  "p_inactive (prod_base (set_next n a)) = p_inactive (prod_base a)" "p_inactive (prod_base (set_inactive b a)) = b"
  "p_inactive (prod_base (set_token t a)) = p_inactive (prod_base a)"
  "p_token (prod_base (set_next n a)) = p_token (prod_base a)" "p_token (prod_base (set_inactive b a)) = p_token (prod_base a)"
  "p_token (prod_base (set_token t a)) = t"
  by (cases a; simp add: next_prod_def)+

lemma any_queue_kind: "any_queue T E a m B xs \<Longrightarrow> isExplicit (prod_base a) = is_explicit a"
  by (cases a) (auto simp: any_queue_def)

lemma lanes_kind: "lanes T E q xss \<Longrightarrow> i < nprods q \<Longrightarrow> isExplicit (prod_base (prod_at q i)) = is_explicit (prod_at q i)"
  by (auto simp: lanes_def family_def dest!: spec [of _ i] any_queue_kind)

section \<open>Creating and recycling\<close>

lemma new_index_base: "new_block_index p m = (ok, p', m') \<Longrightarrow> producer.truncate p' = producer.truncate p"
  by (auto simp: new_block_index_def Let_def malloc_def producer.truncate_def split: if_splits)

lemma implicit_new_fresh:
  "implicit_producer_new T m = (p, m') \<Longrightarrow> \<not> isExplicit p \<and> \<not> p_inactive p \<and> p_token p = None \<and> heap_limit m' = heap_limit m"
  by (auto simp: implicit_producer_new_def Let_def new_block_index_def malloc_def split: prod.splits if_splits)

lemma explicit_new_fresh:
  "explicit_producer_new T m = Ret (p, m') \<Longrightarrow> isExplicit p \<and> \<not> p_inactive p \<and> p_token p = None \<and> heap_limit m' = heap_limit m"
  by (auto simp: explicit_producer_new_def Let_def explicit_new_block_index_def malloc_def and_then_eq_Ret
      split: list.splits if_splits prod.splits)

lemma queue_inv_mem:
  assumes "queue_inv T E q xss" and "\<And>own. mem_inv (q_mem q) own \<Longrightarrow> mem_inv m own" and "blocks m = blocks (q_mem q)"
    and "heap_limit m = heap_limit (q_mem q)"
  shows "queue_inv T E (q\<lparr>q_mem := m\<rparr>) xss"
proof -
  obtain Bs where fam: "family (any_queue T E) (map nd_prod (producers q)) (q_mem q) Bs xss"
    using assms(1) by (auto simp: queue_inv_def lanes_def)
  then have "family (any_queue T E) (map nd_prod (producers q)) m Bs xss"
    using assms(2-4) by (intro any.family_mem [OF fam]) (auto simp: family_def)
  then show ?thesis using assms(1,4) by (auto simp: queue_inv_def lanes_def list_ok_def)
qed

text \<open>The memory of the invariant is the one of its blocks, whichever they are.\<close>

lemma queue_mem_inv: "queue_inv T E q xss \<Longrightarrow> \<exists>own. mem_inv (q_mem q) own"
  by (auto simp: queue_inv_def lanes_def family_def)

lemma new_index_inv: "new_block_index p m = (ok, p', m') \<Longrightarrow> mem_inv m' own = mem_inv m own \<and> blocks m' = blocks m"
  by (auto simp: new_block_index_def Let_def malloc_def split: if_splits)

lemma implicit_new_mem: "implicit_producer_new T m = (p, m') \<Longrightarrow> mem_inv m' own = mem_inv m own \<and> blocks m' = blocks m"
  by (auto simp: implicit_producer_new_def Let_def dest: new_index_inv split: prod.splits)

lemma explicit_new_mem: "explicit_producer_new T m = Ret (p, m') \<Longrightarrow> mem_inv m' own = mem_inv m own \<and> blocks m' = blocks m"
  by (auto simp: explicit_producer_new_def Let_def explicit_new_block_index_def malloc_def and_then_eq_Ret
      split: list.splits if_splits prod.splits)

lemma create_producer_spec:
  assumes inv: "queue_inv T E q xss"
  shows "\<exists>r m. create_producer T ex q = Ret (r, q\<lparr>q_mem := m\<rparr>) \<and> queue_inv T E (q\<lparr>q_mem := m\<rparr>) xss \<and>
    (\<forall>a. r = Some a \<longrightarrow> any_queue T E a m {} [] \<and> is_explicit a = ex \<and> \<not> p_inactive (prod_base a) \<and> p_token (prod_base a) = None)"
proof -
  define m1 where "m1 = (q_mem q)\<lparr>mallocs := Suc (mallocs (q_mem q))\<rparr>"
  have ml: "malloc (q_mem q) = (malloc_ok (q_mem q) (mallocs (q_mem q)), m1)" by (simp add: malloc_def m1_def)
  have same1: "mem_inv m1 own = mem_inv (q_mem q) own" "blocks m1 = blocks (q_mem q)" "heap_limit m1 = heap_limit (q_mem q)" for own
    by (simp_all add: m1_def)
  note I = queue_invD [OF inv]
  obtain own where own: "mem_inv m1 own" using queue_mem_inv [OF inv] same1 by blast
  have inv': "queue_inv T E (q\<lparr>q_mem := m\<rparr>) xss"
    if "\<And>own. mem_inv m own = mem_inv m1 own" "blocks m = blocks m1" "heap_limit m = heap_limit m1" for m
    using that same1 by (intro queue_inv_mem [OF inv]) auto
  show ?thesis
  proof (cases "malloc_ok (q_mem q) (mallocs (q_mem q))")
    case False
    then have "create_producer T ex q = Ret (None, q\<lparr>q_mem := m1\<rparr>)" by (simp add: create_producer_def ml)
    then show ?thesis using inv' [of m1] by blast
  next
    case ok: True
    show ?thesis
    proof (cases ex)
      case True
      obtain p m where p: "explicit_producer_new T m1 = Ret (p, m)" "exp_queue T E p m {} []"
        using explicit_producer_new_queue [OF I(1) _ own, of E] I(2,3) same1(3) by auto
      then have "create_producer T ex q = Ret (Some (Explicit p), q\<lparr>q_mem := m\<rparr>)" using ok True by (simp add: create_producer_def ml)
      moreover have "queue_inv T E (q\<lparr>q_mem := m\<rparr>) xss" using explicit_new_mem [OF p(1)] explicit_new_fresh [OF p(1)] by (intro inv') auto
      ultimately show ?thesis using p explicit_new_fresh [OF p(1)] True by (auto simp: any_queue_def)
    next
      case False
      obtain p m where p: "implicit_producer_new T m1 = (p, m)" "imp_queue T p m {} []"
        using implicit_producer_new_holds [OF I(1) own] I(1) by (auto simp: imp_queue_def)
      then have "create_producer T ex q = Ret (Some (Implicit p), q\<lparr>q_mem := m\<rparr>)" using ok False by (simp add: create_producer_def ml)
      moreover have "queue_inv T E (q\<lparr>q_mem := m\<rparr>) xss" using implicit_new_mem [OF p(1)] implicit_new_fresh [OF p(1)] by (intro inv') auto
      ultimately show ?thesis using p implicit_new_fresh [OF p(1)] False by (auto simp: any_queue_def)
    qed
  qed
qed

lemma add_producer_spec:
  assumes inv: "queue_inv T E q xss" and a: "any_queue T E a (q_mem q) {} []"
  shows "\<exists>q'. add_producer (Some a) q = (Some (nprods q), q') \<and> queue_inv T E q' (xss @ [[]]) \<and>
    producers q' = producers q @ [\<lparr>nd_prod = set_next (producerListTail q) a, nd_parent = q_this q\<rparr>] \<and>
    q'\<lparr>producers := producers q, producerCount := producerCount q, producerListTail := producerListTail q\<rparr> = q"
proof -
  obtain Bs where fam: "family (any_queue T E) (map nd_prod (producers q)) (q_mem q) Bs xss"
    using inv by (auto simp: queue_inv_def lanes_def)
  obtain q' where q': "add_producer (Some a) q = (Some (nprods q), q')"
    "q' = q\<lparr>producerCount := producerCount q + 1, producers := producers q @ [\<lparr>nd_prod = set_next (producerListTail q) a, nd_parent = q_this q\<rparr>],
       producerListTail := Some (nprods q)\<rparr>" by (simp add: add_producer_def Let_def)
  have "lanes T E q' (xss @ [[]])"
    using any.family_push [OF fam, of "set_next (producerListTail q) a"] a unfolding lanes_def q'(2) by auto
  moreover have "list_ok q'" using inv unfolding queue_inv_def list_ok_def q'(2) by (auto simp: nth_append less_Suc_eq add.commute)
  ultimately show ?thesis using inv q' by (auto simp: queue_inv_def)
qed

lemma find_inactive_spec:
  assumes inv: "queue_inv T E q xss" and "k \<le> nprods q" and "k < f"
  shows "\<exists>r. find_inactive f ex (ptr_of k) q = Ret r \<and>
    (case r of
       Some i \<Rightarrow> i < k \<and> p_inactive (prod_base (prod_at q i)) \<and> is_explicit (prod_at q i) = ex
     | None \<Rightarrow> \<forall>i < k. is_explicit (prod_at q i) = ex \<longrightarrow> \<not> p_inactive (prod_base (prod_at q i)))"
  using assms(2-)
proof (induction f arbitrary: k)
  case (Suc f)
  show ?case
  proof (cases k)
    case (Suc i)
    have i: "i < nprods q" "next_prod (prod_at q i) = ptr_of i" using Suc.prems Suc inv by (auto simp: queue_inv_def list_ok_def)
    note kind = lanes_kind [OF queue_invD(4) [OF inv] i(1)]
    obtain r where r: "find_inactive f ex (ptr_of i) q = Ret r"
      "case r of Some j \<Rightarrow> j < i \<and> p_inactive (prod_base (prod_at q j)) \<and> is_explicit (prod_at q j) = ex
       | None \<Rightarrow> \<forall>j < i. is_explicit (prod_at q j) = ex \<longrightarrow> \<not> p_inactive (prod_base (prod_at q j))"
      using Suc.IH [of i] Suc.prems Suc by auto
    show ?thesis
    proof (cases "p_inactive (prod_base (prod_at q i)) \<and> is_explicit (prod_at q i) = ex")
      case True
      then show ?thesis using Suc i kind by (simp add: with_prod_def)
    next
      case False
      then show ?thesis using r Suc i kind by (cases r) (auto simp: with_prod_def less_Suc_eq)
    qed
  qed simp
qed simp

text \<open>A change of flags, token or links of one producer, keeping its place in the list.\<close>

lemma relink_inv:
  assumes inv: "queue_inv T E q xss" and i: "i < nprods q" and "next_prod a = next_prod (prod_at q i)"
    and "\<And>m B xs. any_queue T E (prod_at q i) m B xs \<Longrightarrow> any_queue T E a m B xs"
  shows "queue_inv T E (put_prod i a q) xss"
proof -
  obtain Bs where fam: "family (any_queue T E) (map nd_prod (producers q)) (q_mem q) Bs xss"
    using inv by (auto simp: queue_inv_def lanes_def)
  have "family (any_queue T E) ((map nd_prod (producers q))[i := a]) (q_mem q) Bs xss"
    using assms(4) i by (intro any.family_relink [OF fam]) simp
  then have "lanes T E (put_prod i a q) xss" unfolding lanes_def using map_put_prod [OF i, of a] by (auto simp: put_prod_def)
  moreover have "list_ok (put_prod i a q)" using inv i assms(3) by (auto simp: queue_inv_def list_ok_def put_prod_def nth_list_update)
  ultimately show ?thesis using inv by (simp add: queue_inv_def put_prod_def)
qed

section \<open>The abstract state\<close>

text \<open>
  A queue is seen as lanes: \<open>lane\<close> holds the elements, \<open>kind\<close> says which belong to tokens, \<open>idle\<close> which
  may be taken over by a new token. Threads own lanes through \<open>owner\<close>, tokens through \<open>token\<close>.
\<close>

record 'd lane_state =
  lane :: "'d list list"
  kind :: "bool list"
  idle :: "bool list"
  owner :: "64 word \<Rightarrow> nat option"
  token :: "nat \<Rightarrow> nat option option"

definition lane_ok :: "'d lane_state \<Rightarrow> bool" where
  "lane_ok A \<longleftrightarrow> length (kind A) = length (lane A) \<and> length (idle A) = length (lane A) \<and>
     (\<forall>i < length (lane A). idle A ! i \<longrightarrow> kind A ! i) \<and>
     (\<forall>tid i. owner A tid = Some i \<longrightarrow> i < length (lane A) \<and> \<not> kind A ! i) \<and>
     (\<forall>tid tid' i. owner A tid = Some i \<longrightarrow> owner A tid' = Some i \<longrightarrow> tid = tid') \<and>
     (\<forall>t i. token A t = Some (Some i) \<longrightarrow> i < length (lane A) \<and> kind A ! i \<and> \<not> idle A ! i) \<and>
     (\<forall>t u i. token A t = Some (Some i) \<longrightarrow> token A u = Some (Some i) \<longrightarrow> t = u)"

abbreviation chain_of :: "'d queue \<Rightarrow> ImplicitProducerHash list" where
  "chain_of q \<equiv> hash_dyn q @ initialImplicitProducerHash q"

definition hash_tabs :: "'d queue \<Rightarrow> (64 word \<Rightarrow> nat option) \<Rightarrow> bool" where
  "hash_tabs q own \<longleftrightarrow> hash_end q = q_this q \<and> \<not> implicitProducerHashResizeInProgress q \<and>
     (\<exists>h0. initialImplicitProducerHash q = [h0]) \<and>
     (\<forall>h \<in> set (chain_of q). hash_ok h \<and> no_marks h \<and> card (keys h) < cap h) \<and>
     tables (chain_of q) = (\<lambda>tid. map_option Some (own tid)) \<and> finite (dom own)"

definition hash_rel :: "'d queue \<Rightarrow> (64 word \<Rightarrow> nat option) \<Rightarrow> bool" where
  "hash_rel q own \<longleftrightarrow> hash_tabs q own \<and> unat (implicitProducerHashCount q) = card (dom own) \<and> card (dom own) < cap (hd (chain_of q))"

definition repr :: "traits \<Rightarrow> 'd elem_ops \<Rightarrow> 'd queue \<Rightarrow> 'd lane_state \<Rightarrow> bool" where
  "repr T E q A \<longleftrightarrow> queue_inv T E q (lane A) \<and> kind A = map (\<lambda>n. is_explicit (nd_prod n)) (producers q) \<and>
     idle A = map (\<lambda>n. p_inactive (prod_base (nd_prod n))) (producers q) \<and> token A = ptokens q \<and>
     hash_rel q (owner A) \<and> lane_ok A"

lemma reprD:
  assumes "repr T E q A"
  shows "queue_inv T E q (lane A)" "length (lane A) = nprods q" "hash_rel q (owner A)" "lane_ok A" "ptokens q = token A"
    "i < nprods q \<Longrightarrow> kind A ! i = is_explicit (prod_at q i)" "i < nprods q \<Longrightarrow> idle A ! i = p_inactive (prod_base (prod_at q i))"
  using assms queue_invD(6) by (auto simp: repr_def)

lemma hash_rel_cong:
  "hash_end q' = hash_end q \<Longrightarrow> q_this q' = q_this q \<Longrightarrow> hash_dyn q' = hash_dyn q \<Longrightarrow>
   implicitProducerHashResizeInProgress q' = implicitProducerHashResizeInProgress q \<Longrightarrow>
   initialImplicitProducerHash q' = initialImplicitProducerHash q \<Longrightarrow> implicitProducerHashCount q' = implicitProducerHashCount q \<Longrightarrow>
   hash_rel q' own = hash_rel q own"
  by (simp add: hash_rel_def hash_tabs_def)

text \<open>Calls that only change the content of lanes.\<close>

lemma repr_shape:
  assumes R: "repr T E q A" and sh: "same_shape q' q" and inv: "queue_inv T E q' xss"
  shows "repr T E q' (A\<lparr>lane := xss\<rparr>)"
proof -
  note F = same_shape_fields [OF sh]
  have len: "length xss = length (lane A)" using queue_invD(6) [OF inv] reprD(2) [OF R] F(3) by simp
  have links: "is_explicit (prod_at q' i) = is_explicit (prod_at q i)"
      "p_inactive (prod_base (prod_at q' i)) = p_inactive (prod_base (prod_at q i))" if "i < nprods q" for i
    using sh that by (auto simp: same_shape_def any_links_def same_links_def)
  have "map (\<lambda>n. is_explicit (nd_prod n)) (producers q') = map (\<lambda>n. is_explicit (nd_prod n)) (producers q)"
    "map (\<lambda>n. p_inactive (prod_base (nd_prod n))) (producers q') = map (\<lambda>n. p_inactive (prod_base (nd_prod n))) (producers q)"
    using links F(3) by (auto intro!: nth_equalityI)
  moreover have "hash_rel q' (owner A) = hash_rel q (owner A)" using F by (intro hash_rel_cong)
  moreover have "lane_ok (A\<lparr>lane := xss\<rparr>)" using reprD(4) [OF R] len by (simp add: lane_ok_def)
  ultimately show ?thesis using R inv F(14) by (simp add: repr_def)
qed

section \<open>Recycling or creating\<close>

text \<open>The lane at \<open>i\<close> taken over, or a new one at the end.\<close>

definition adopt :: "nat \<Rightarrow> bool \<Rightarrow> 'd lane_state \<Rightarrow> 'd lane_state" where
  "adopt i ex A = (if i < length (lane A) then A\<lparr>idle := (idle A)[i := False]\<rparr>
     else A\<lparr>lane := lane A @ [[]], kind := kind A @ [ex], idle := idle A @ [False]\<rparr>)"

text \<open>What \<open>recycle_or_create_producer\<close> changes: the list of producers and the memory.\<close>

definition same_rest :: "'d queue \<Rightarrow> 'd queue \<Rightarrow> bool" where
  "same_rest q' q \<longleftrightarrow> q'\<lparr>producers := producers q, producerCount := producerCount q, producerListTail := producerListTail q, q_mem := q_mem q\<rparr> = q"

lemma same_rest_field:
  assumes "same_rest q' q"
    and "f (q'\<lparr>producers := producers q, producerCount := producerCount q, producerListTail := producerListTail q, q_mem := q_mem q\<rparr>) = f q'"
  shows "f q' = f q"
  using assms by (simp add: same_rest_def)

lemma same_rest_fields:
  assumes "same_rest q' q"
  shows "hash_end q' = hash_end q" "q_this q' = q_this q" "hash_dyn q' = hash_dyn q"
    "implicitProducerHashResizeInProgress q' = implicitProducerHashResizeInProgress q"
    "initialImplicitProducerHash q' = initialImplicitProducerHash q" "implicitProducerHashCount q' = implicitProducerHashCount q"
    "ptokens q' = ptokens q" "globalExplicitConsumerOffset q' = globalExplicitConsumerOffset q"
  by (rule same_rest_field [OF assms], simp)+

lemma same_rest_mem: "same_rest (q\<lparr>q_mem := m\<rparr>) q"
  by (simp add: same_rest_def)

lemma same_rest_put: "same_rest (put_prod i a q) q"
  by (simp add: same_rest_def put_prod_def)

text \<open>
  The lanes after the call are those of \<open>adopt\<close>; owners and tokens are not touched. (Stated on the
  parts of the abstract state, because the caller has still to record who owns the lane.)
\<close>

definition lanes_are :: "traits \<Rightarrow> 'd elem_ops \<Rightarrow> 'd queue \<Rightarrow> 'd lane_state \<Rightarrow> bool" where
  "lanes_are T E q A \<longleftrightarrow> queue_inv T E q (lane A) \<and> kind A = map (\<lambda>n. is_explicit (nd_prod n)) (producers q) \<and>
     idle A = map (\<lambda>n. p_inactive (prod_base (nd_prod n))) (producers q)"

lemma repr_lanes: "repr T E q A \<longleftrightarrow> lanes_are T E q A \<and> token A = ptokens q \<and> hash_rel q (owner A) \<and> lane_ok A"
  by (auto simp: repr_def lanes_are_def)

lemma map_put: "map (\<lambda>n. f (nd_prod n)) (producers (put_prod i a q)) = (map (\<lambda>n. f (nd_prod n)) (producers q))[i := f a]"
  by (simp add: put_prod_def map_update)

lemma recycle_spec:
  assumes L: "lanes_are T E q A"
  shows "\<exists>r rec q'. recycle_or_create_producer T ex q = Ret (r, rec, q') \<and> same_rest q' q \<and>
    (case r of
       None \<Rightarrow> lanes_are T E q' A \<and> \<not> rec
     | Some i \<Rightarrow> lanes_are T E q' (adopt i ex A) \<and>
         (if rec then i < length (lane A) \<and> kind A ! i = ex \<and> idle A ! i else i = length (lane A)))"
proof -
  have inv: "queue_inv T E q (lane A)" using L by (simp add: lanes_are_def)
  have len: "length (lane A) = nprods q" using queue_invD(6) [OF inv] .
  have KI: "kind A ! i = is_explicit (prod_at q i)" "idle A ! i = p_inactive (prod_base (prod_at q i))" if "i < nprods q" for i
    using L that by (simp_all add: lanes_are_def)
  obtain s where s: "find_inactive (list_fuel q) ex (producerListTail q) q = Ret s"
    "case s of Some i \<Rightarrow> i < nprods q \<and> p_inactive (prod_base (prod_at q i)) \<and> is_explicit (prod_at q i) = ex | None \<Rightarrow> True"
    using find_inactive_spec [OF inv, of "nprods q" "list_fuel q" ex] unfolding ptr_list [OF inv]
    by (fastforce simp: list_fuel_def split: option.splits)
  show ?thesis
  proof (cases s)
    case (Some i)
    then have i: "i < nprods q" "p_inactive (prod_base (prod_at q i))" "is_explicit (prod_at q i) = ex" using s(2) by auto
    let ?a = "set_inactive False (prod_at q i)"
    let ?q = "put_prod i ?a q"
    have "recycle_or_create_producer T ex q = Ret (Some i, True, ?q)"
      using s(1) Some i(1) by (simp add: recycle_or_create_producer_def with_prod_def)
    moreover have "lanes_are T E ?q (adopt i ex A)"
    proof -
      have "queue_inv T E ?q (lane A)" by (rule relink_inv [OF inv i(1)]) simp_all
      moreover have "map (\<lambda>n. is_explicit (nd_prod n)) (producers ?q) = map (\<lambda>n. is_explicit (nd_prod n)) (producers q)"
        "map (\<lambda>n. p_inactive (prod_base (nd_prod n))) (producers ?q) = (map (\<lambda>n. p_inactive (prod_base (nd_prod n))) (producers q))[i := False]"
        using i(1) by (simp_all add: map_put [of is_explicit] map_put [of "\<lambda>a. p_inactive (prod_base a)"] list_update_same_conv)
      ultimately show ?thesis using L len i(1) by (simp add: lanes_are_def adopt_def)
    qed
    moreover have "i < length (lane A) \<and> kind A ! i = ex \<and> idle A ! i" using i KI [OF i(1)] len by simp
    ultimately show ?thesis using same_rest_put by (intro exI [of _ "Some i"] exI [of _ True] exI [of _ ?q]) simp
  next
    case None
    obtain r m where c: "create_producer T ex q = Ret (r, q\<lparr>q_mem := m\<rparr>)" "queue_inv T E (q\<lparr>q_mem := m\<rparr>) (lane A)"
      "\<forall>a. r = Some a \<longrightarrow> any_queue T E a m {} [] \<and> is_explicit a = ex \<and> \<not> p_inactive (prod_base a) \<and> p_token (prod_base a) = None"
      using create_producer_spec [OF inv] by blast
    show ?thesis
    proof (cases r)
      case None': None
      then have "recycle_or_create_producer T ex q = Ret (None, False, q\<lparr>q_mem := m\<rparr>)"
        using s(1) None c(1) by (simp add: recycle_or_create_producer_def add_producer_def)
      moreover have "lanes_are T E (q\<lparr>q_mem := m\<rparr>) A" using c(2) L by (simp add: lanes_are_def)
      ultimately show ?thesis using same_rest_mem by (intro exI [of _ None] exI [of _ False] exI [of _ "q\<lparr>q_mem := m\<rparr>"]) simp
    next
      case (Some a)
      with c(3) have a: "any_queue T E a m {} []" "is_explicit a = ex" "\<not> p_inactive (prod_base a)" by auto
      let ?q1 = "q\<lparr>q_mem := m\<rparr>"
      have "any_queue T E a (q_mem ?q1) {} []" using a(1) by simp
      from add_producer_spec [OF c(2) this] obtain q' where q': "add_producer (Some a) ?q1 = (Some (nprods q), q')"
        "queue_inv T E q' (lane A @ [[]])" "producers q' = producers q @ [\<lparr>nd_prod = set_next (producerListTail q) a, nd_parent = q_this q\<rparr>]"
        "q'\<lparr>producers := producers q, producerCount := producerCount q, producerListTail := producerListTail q\<rparr> = ?q1" by auto
      have run: "recycle_or_create_producer T ex q = Ret (Some (nprods q), False, q')"
        using s(1) None c(1) Some q'(1) by (simp add: recycle_or_create_producer_def)
      have L': "lanes_are T E q' (adopt (nprods q) ex A)" using q'(2,3) a(2,3) L len by (simp add: lanes_are_def adopt_def)
      have "same_rest q' q" using arg_cong [OF q'(4), of "\<lambda>r. r\<lparr>q_mem := q_mem q\<rparr>"] by (simp add: same_rest_def)
      then show ?thesis using run L' len by (intro exI [of _ "Some (nprods q)"] exI [of _ False] exI [of _ q']) simp
    qed
  qed
qed

section \<open>A thread's producer\<close>

lemma hash_tabs_chain:
  assumes "hash_tabs q own"
  shows "hash_chain q = Ret (chain_of q)" "chain_of q = hd (chain_of q) # tl (chain_of q)"
    "h \<in> set (chain_of q) \<Longrightarrow> hash_ok h \<and> no_marks h \<and> has_room h"
  using assms room_by_count by (auto simp: hash_tabs_def hash_chain_def)

lemma put_chain_head:
  assumes "hash_tabs q own"
  shows "chain_of (put_chain (h # tl (chain_of q)) q) = h # tl (chain_of q)"
    "\<exists>h0. initialImplicitProducerHash (put_chain (h # tl (chain_of q)) q) = [h0]"
proof -
  obtain h0 where "initialImplicitProducerHash q = [h0]" using assms by (auto simp: hash_tabs_def)
  then show "chain_of (put_chain (h # tl (chain_of q)) q) = h # tl (chain_of q)"
    "\<exists>h0. initialImplicitProducerHash (put_chain (h # tl (chain_of q)) q) = [h0]"
    by (cases "hash_dyn q"; simp add: put_chain_def)+
qed

lemma put_chain_fields [simp]:
  "hash_end (put_chain hs q) = hash_end q" "q_this (put_chain hs q) = q_this q" "producers (put_chain hs q) = producers q"
  "implicitProducerHashResizeInProgress (put_chain hs q) = implicitProducerHashResizeInProgress q"
  "implicitProducerHashCount (put_chain hs q) = implicitProducerHashCount q" "ptokens (put_chain hs q) = ptokens q"
  "q_mem (put_chain hs q) = q_mem q" "producerListTail (put_chain hs q) = producerListTail q" "producerCount (put_chain hs q) = producerCount q"
  "globalExplicitConsumerOffset (put_chain hs q) = globalExplicitConsumerOffset q"
  by (simp_all add: put_chain_def Let_def)

lemma head_keys: "hash_tabs q own \<Longrightarrow> keys (hd (chain_of q)) \<subseteq> dom own"
proof
  fix t assume H: "hash_tabs q own" and t: "t \<in> keys (hd (chain_of q))"
  have "tables (chain_of q) t \<noteq> None"
    using hash_tabs_chain(2,3) [OF H] t dom_table [of "hd (chain_of q)"] by (metis domIff list.set_intros(1) map_add_None tables.simps(2))
  then show "t \<in> dom own" using H by (auto simp: hash_tabs_def)
qed

text \<open>Putting a thread that is not in the newest table into it, with the value it is to have in the map.\<close>

lemma claim_head:
  assumes H: "hash_tabs q own" and tid: "valid_tid tid" and new: "tid \<notin> keys (hd (chain_of q))"
    and f: "cap (hd (chain_of q)) \<le> f" and few: "card (dom (own(tid \<mapsto> i))) < cap (hd (chain_of q))"
  shows "\<exists>h. hash_claim f False tid (Some i) (hd (chain_of q)) (hash_thread_id tid) = Ret h \<and>
    hash_tabs (put_chain (h # tl (chain_of q)) q) (own(tid \<mapsto> i)) \<and> cap (hd (chain_of (put_chain (h # tl (chain_of q)) q))) = cap (hd (chain_of q))"
proof -
  let ?h = "hd (chain_of q)" and ?hs = "tl (chain_of q)"
  have ok: "hash_ok ?h" "no_marks ?h" "has_room ?h" using hash_tabs_chain(3) [OF H, of ?h] hash_tabs_chain(2) [OF H] by (metis list.set_intros(1))+
  obtain h where h: "hash_claim f False tid (Some i) ?h (hash_thread_id tid) = Ret h" "hash_ok h" "keys h = insert tid (keys ?h)"
    "h_capacity h = h_capacity ?h" "table h = (table ?h)(tid \<mapsto> Some i)" using claim_spec [OF ok(1,3) tid new f] by blast
  have "keys h \<subseteq> dom (own(tid \<mapsto> i))" using head_keys [OF H] h(3) by auto
  then have "card (keys h) \<le> card (dom (own(tid \<mapsto> i)))" using H by (intro card_mono) (auto simp: hash_tabs_def)
  then have few': "card (keys h) < cap h" using few h(4) by (simp add: cap_def)
  have tail: "set ?hs \<subseteq> set (chain_of q)" using hash_tabs_chain(2) [OF H] by (metis set_subset_Cons)
  have "tables (h # ?hs) = (tables ?hs ++ table ?h)(tid \<mapsto> Some i)" using h(5) by simp
  also have "tables ?hs ++ table ?h = tables (chain_of q)" by (subst (3) hash_tabs_chain(2) [OF H]) simp
  also have "\<dots> = (\<lambda>t. map_option Some (own t))" using H by (simp add: hash_tabs_def)
  finally have "tables (h # ?hs) = (\<lambda>t. map_option Some ((own(tid \<mapsto> i)) t))" by (auto simp: fun_eq_iff)
  moreover have "\<forall>g \<in> set ?hs. hash_ok g \<and> no_marks g \<and> card (keys g) < cap g" using H tail unfolding hash_tabs_def by blast
  ultimately have "hash_tabs (put_chain (h # ?hs) q) (own(tid \<mapsto> i))"
    using H h(2) few' claim_no_marks [OF ok(1,2) tid h(1)] put_chain_head(2) [OF H]
    unfolding hash_tabs_def put_chain_head(1) [OF H] by simp
  then show ?thesis using h(1,4) unfolding put_chain_head(1) [OF H] by (auto simp: cap_def)
qed

lemma fuel_covers: "hash_fuel q \<le> f \<Longrightarrow> hash_tabs q own \<Longrightarrow> h \<in> set (chain_of q) \<Longrightarrow> 4 * cap h + 2 \<le> f"
proof -
  assume f: "hash_fuel q \<le> f" and "hash_tabs q own" and h: "h \<in> set (chain_of q)"
  then have "length (h_entries h) = cap h" by (auto simp: hash_tabs_def hash_ok_def hash_shape_def)
  moreover have "length (h_entries h) \<le> sum_list (map (\<lambda>h. length (h_entries h)) (chain_of q))"
    using h by (intro member_le_sum_list) auto
  ultimately show ?thesis using f by (simp add: hash_fuel_def)
qed

lemma owners_few: "lane_ok A \<Longrightarrow> card (dom (owner A)) \<le> length (lane A)"
proof -
  assume A: "lane_ok A"
  have "inj_on (\<lambda>t. the (owner A t)) (dom (owner A))" using A by (auto simp: lane_ok_def inj_on_def)
  moreover have "(\<lambda>t. the (owner A t)) ` dom (owner A) \<subseteq> {..<length (lane A)}" using A by (auto simp: lane_ok_def)
  ultimately show ?thesis using card_inj_on_le [of _ "dom (owner A)" "{..<length (lane A)}"] by simp
qed

text \<open>The table is grown when it would be half full; the one in use then has room for a quarter more.\<close>

lemma resize_spec:
  assumes H: "hash_tabs q own" and f: "hash_fuel q \<le> f" and n: "unat newCount = Suc (card (dom own))" "card (dom own) < 2 ^ 32"
    "card (dom own) < cap (hd (chain_of q))"
  shows "\<exists>r q'. hash_resize newCount q = Ret (r, q') \<and>
    (case r of
       Inl _ \<Rightarrow> (\<exists>m. malloc (q_mem q) = (False, m) \<and> q' = q\<lparr>q_mem := m, implicitProducerHashCount := implicitProducerHashCount q - 1\<rparr>)
     | Inr _ \<Rightarrow> (q' = q \<or> (\<exists>m hd. malloc (q_mem q) = (True, m) \<and> q' = q\<lparr>q_mem := m, hash_dyn := hd\<rparr>)) \<and> hash_tabs q' own \<and>
         newCount < drop_bit 1 (h_capacity (hd (chain_of q'))) + drop_bit 2 (h_capacity (hd (chain_of q'))) \<and>
         Suc (card (dom own)) < cap (hd (chain_of q')) \<and> cap (hd (chain_of q')) \<le> f)"
proof -
  let ?h = "hd (chain_of q)"
  have hin: "?h \<in> set (chain_of q)" using hash_tabs_chain(2) [OF H] by (metis list.set_intros(1))
  then have "hash_shape ?h" using hash_tabs_chain(3) [OF H] by (auto simp: hash_ok_def)
  then obtain k where k: "k < 64" "cap ?h = 2 ^ k" "h_capacity ?h = 2 ^ k" using cap_pow2 by blast
  have idle: "\<not> implicitProducerHashResizeInProgress q" using H by (simp add: hash_tabs_def)
  have half: "unat (drop_bit 1 (2 ^ j :: 64 word)) = 2 ^ j div 2" "unat (drop_bit 2 (2 ^ j :: 64 word)) = 2 ^ j div 4" if "j < 64" for j
    unfolding unat_drop_bit_eq unat_pow2 [OF that] by (simp_all add: drop_bit_eq_div)
  have room: "newCount < drop_bit 1 (2 ^ j) + drop_bit 2 (2 ^ j)" "Suc (card (dom own)) < 2 ^ j"
    if "j < 64" "unat newCount < 2 ^ j div 2" for j
  proof -
    have "(2 :: nat) ^ j \<le> 2 ^ 63" using that(1) by (intro power_increasing) auto
    then have "unat (drop_bit 1 (2 ^ j) + drop_bit 2 (2 ^ j) :: 64 word) = 2 ^ j div 2 + 2 ^ j div 4"
      using half [OF that(1)] by (subst unat_add_lem [THEN iffD1]) auto
    then show "newCount < drop_bit 1 (2 ^ j) + drop_bit 2 (2 ^ j)" using that(2) by (simp add: word_less_nat_alt)
    show "Suc (card (dom own)) < 2 ^ j" using that(2) n(1) by (auto intro: less_le_trans)
  qed
  show ?thesis
  proof (cases "newCount \<ge> drop_bit 1 (h_capacity ?h)")
    case False
    then have "unat newCount < 2 ^ k div 2" using k half [OF k(1)] by (simp add: word_le_nat_alt not_le)
    note r = room [OF k(1) this]
    have "hash_resize newCount q = Ret (Inr (), q)" using False hash_tabs_chain(1) [OF H] by (simp add: hash_resize_def)
    moreover have "cap ?h \<le> f" using fuel_covers [OF f H hin] by simp
    ultimately show ?thesis using r k H by (intro exI [of _ "Inr ()"] exI [of _ q]) simp
  next
    case True
    then have ge: "2 ^ k div 2 \<le> unat newCount" using k half [OF k(1)] by (simp add: word_le_nat_alt)
    then have "(2 :: nat) ^ k < 2 ^ 34" using n(1,2) by auto
    then have k34: "k < 34" using power_less_imp_less_exp [of "2 :: nat" k 34] by simp
    have sh: "push_bit 1 (h_capacity ?h) = 2 ^ Suc k" by (simp add: k(3) push_bit_eq_mult)
    have "2 * unat newCount < 2 ^ 63" "Suc k < 64" "64 - Suc k \<le> 65" using n(1,2) k34 by simp_all
    from grow_capacity_spec [OF this] obtain j where j: "j < 64" "grow_capacity 65 newCount (2 ^ Suc k) = Ret (2 ^ j)"
      "2 * unat newCount < 2 ^ j" "2 ^ j \<le> (2 :: nat) ^ Suc k \<or> 2 ^ j \<le> 4 * unat newCount + 2" by auto
    obtain ok m where ml: "malloc (q_mem q) = (ok, m)" by (cases "malloc (q_mem q)") auto
    show ?thesis
    proof (cases ok)
      case False
      then have "hash_resize newCount q = Ret (Inl (), q\<lparr>q_mem := m, implicitProducerHashCount := implicitProducerHashCount q - 1,
          implicitProducerHashResizeInProgress := False\<rparr>)"
        using True idle hash_tabs_chain(1) [OF H] j(2) ml sh by (simp add: hash_resize_def)
      moreover have "q\<lparr>q_mem := m, implicitProducerHashCount := implicitProducerHashCount q - 1, implicitProducerHashResizeInProgress := False\<rparr> =
          q\<lparr>q_mem := m, implicitProducerHashCount := implicitProducerHashCount q - 1\<rparr>" using idle by (cases q) simp
      ultimately show ?thesis using ml False by auto
    next
      case True': True
      let ?q = "q\<lparr>q_mem := m, hash_dyn := empty_hash (2 ^ j) # hash_dyn q\<rparr>"
      have "hash_resize newCount q = Ret (Inr (), q\<lparr>q_mem := m, hash_dyn := empty_hash (2 ^ j) # hash_dyn q, implicitProducerHashResizeInProgress := False\<rparr>)"
        using True True' idle hash_tabs_chain(1) [OF H] j(2) ml sh by (simp add: hash_resize_def)
      moreover have "q\<lparr>q_mem := m, hash_dyn := empty_hash (2 ^ j) # hash_dyn q, implicitProducerHashResizeInProgress := False\<rparr> = ?q"
        using idle by (cases q) simp
      moreover have new: "hash_ok (empty_hash (2 ^ j))" "keys (empty_hash (2 ^ j)) = {}" "no_marks (empty_hash (2 ^ j))"
          "table (empty_hash (2 ^ j)) = Map.empty" using empty_hash_ok [OF empty_hash_shape [OF j(1)]] by auto
      have cj: "cap (empty_hash (2 ^ j)) = 2 ^ j" using j(1) by (simp add: cap_def empty_hash_def unat_pow2)
      have "hash_tabs ?q own" using H new cj by (auto simp: hash_tabs_def)
      moreover have "2 ^ j \<le> f"
        using j(4) fuel_covers [OF f H hin] n(1,3) k(2) by auto
      moreover have "unat newCount < 2 ^ j div 2" using j(3) n(1) by (cases j) auto
      ultimately show ?thesis using room [of j] j(1) ml True' cj
        by (intro exI [of _ "Inr ()"] exI [of _ ?q]) (auto simp: empty_hash_def)
    qed
  qed
qed

lemma chain_rest: "same_rest q' q \<Longrightarrow> hash_tabs q' own = hash_tabs q own"
  by (simp add: hash_tabs_def same_rest_fields)

lemma lanes_cong:
  assumes "producers q' = producers q" and "q_mem q' = q_mem q" and "producerListTail q' = producerListTail q" and "producerCount q' = producerCount q"
  shows "lanes_are T E q' A = lanes_are T E q A"
  using assms by (simp add: lanes_are_def queue_inv_def lanes_def list_ok_def)

text \<open>Registering a thread that is in no table: it gets a lane of its own, or memory is exhausted.\<close>

lemma register_spec:
  assumes L: "lanes_are T E q A" "lane_ok A" and H: "hash_tabs q (owner A)" and tid: "valid_tid tid" "owner A tid = None"
    and f: "cap (hd (chain_of q)) \<le> f" and few: "Suc (card (dom (owner A))) < cap (hd (chain_of q))"
    and cnt: "unat (implicitProducerHashCount q) = Suc (card (dom (owner A)))"
  shows "\<exists>r q'. hash_register f False T tid q = Ret (r, q') \<and> ptokens q' = ptokens q \<and> globalExplicitConsumerOffset q' = globalExplicitConsumerOffset q \<and>
    (case r of
       None \<Rightarrow> lanes_are T E q' A \<and> hash_rel q' (owner A)
     | Some i \<Rightarrow> i = length (lane A) \<and> lanes_are T E q' (adopt i False A) \<and> hash_rel q' ((owner A)(tid \<mapsto> i)))"
proof -
  obtain r rec q1 where c: "recycle_or_create_producer T False q = Ret (r, rec, q1)" "same_rest q1 q"
    "case r of None \<Rightarrow> lanes_are T E q1 A \<and> \<not> rec
     | Some i \<Rightarrow> lanes_are T E q1 (adopt i False A) \<and>
         (if rec then i < length (lane A) \<and> kind A ! i = False \<and> idle A ! i else i = length (lane A))"
    using recycle_spec [OF L(1), of False] by blast
  note R = same_rest_fields [OF c(2)]
  have H1: "hash_tabs q1 (owner A)" using H chain_rest [OF c(2)] by simp
  have ch: "chain_of q1 = chain_of q" using R by simp
  show ?thesis
  proof (cases r)
    case None
    let ?q = "q1\<lparr>implicitProducerHashCount := implicitProducerHashCount q1 - 1\<rparr>"
    have "hash_register f False T tid q = Ret (None, ?q)" using c(1) None by (simp add: hash_register_def)
    moreover have "lanes_are T E ?q A" using c(3) None lanes_cong [of ?q q1] by simp
    moreover have "hash_rel ?q (owner A)"
    proof -
      have "implicitProducerHashCount q1 \<noteq> 0" using cnt R by (metis unat_0 nat.distinct(1))
      then have "unat (implicitProducerHashCount q1 - 1) = card (dom (owner A))" using cnt R by (simp add: unat_minus_1)
      then show ?thesis using H1 few ch by (simp add: hash_rel_def hash_tabs_def)
    qed
    ultimately show ?thesis using R by (intro exI [of _ None] exI [of _ ?q]) simp
  next
    case (Some i)
    have i: "\<not> rec" "i = length (lane A)" "lanes_are T E q1 (adopt i False A)" using c(3) Some L(2) by (auto simp: lane_ok_def split: if_splits)
    have nk: "tid \<notin> keys (hd (chain_of q1))" using head_keys [OF H1] tid(2) by auto
    have "finite (dom (owner A))" using H by (simp add: hash_tabs_def)
    then have card: "card (dom ((owner A)(tid \<mapsto> i))) = Suc (card (dom (owner A)))" using tid(2) by (simp add: domIff)
    from claim_head [OF H1 tid(1) nk] f few ch card obtain h where h:
      "hash_claim f False tid (Some i) (hd (chain_of q1)) (hash_thread_id tid) = Ret h"
      "hash_tabs (put_chain (h # tl (chain_of q1)) q1) ((owner A)(tid \<mapsto> i))"
      "cap (hd (chain_of (put_chain (h # tl (chain_of q1)) q1))) = cap (hd (chain_of q1))" by fastforce
    let ?q = "put_chain (h # tl (chain_of q1)) q1"
    have "hash_register f False T tid q = Ret (Some i, ?q)"
      using c(1) Some i(1) h(1) hash_tabs_chain(1) [OF H1] by (simp add: hash_register_def Let_def)
    moreover have "lanes_are T E ?q (adopt i False A)" using i(3) lanes_cong [of ?q q1] by simp
    moreover have "hash_rel ?q ((owner A)(tid \<mapsto> i))"
      unfolding hash_rel_def card using h(2) cnt R few h(3) ch by (simp add: hash_tabs_def)
    ultimately show ?thesis using R i(2) by (intro exI [of _ "Some i"] exI [of _ ?q]) simp
  qed
qed

text \<open>What \<open>get_or_add_implicit_producer\<close> promises: the lane of the thread, or a new one, or nothing.\<close>

definition new_lane :: "64 word \<Rightarrow> 'd lane_state \<Rightarrow> 'd lane_state" where
  "new_lane tid A = (adopt (length (lane A)) False A)\<lparr>owner := (owner A)(tid \<mapsto> length (lane A))\<rparr>"

definition finds :: "64 word \<Rightarrow> 'd lane_state \<Rightarrow> nat option \<Rightarrow> 'd lane_state \<Rightarrow> bool" where
  "finds tid A r A' \<longleftrightarrow>
     (case owner A tid of
        Some i \<Rightarrow> r = Some i \<and> A' = A
      | None \<Rightarrow> r = None \<and> A' = A \<or> r = Some (length (lane A)) \<and> A' = new_lane tid A)"

lemma new_lane_simps [simp]:
  "lane (new_lane tid A) = lane A @ [[]]" "kind (new_lane tid A) = kind A @ [False]" "idle (new_lane tid A) = idle A @ [False]"
  "owner (new_lane tid A) = (owner A)(tid \<mapsto> length (lane A))" "token (new_lane tid A) = token A"
  by (simp_all add: new_lane_def adopt_def)

lemma new_lane_ok:
  assumes A: "lane_ok A"
  shows "lane_ok (new_lane tid A)"
proof -
  have len: "length (kind A) = length (lane A)" "length (idle A) = length (lane A)" using A by (auto simp: lane_ok_def)
  have own: "i < length (lane A) \<and> \<not> kind A ! i" if "owner A t = Some i" for t i using A that by (auto simp: lane_ok_def)
  have tok: "i < length (lane A) \<and> kind A ! i \<and> \<not> idle A ! i" if "token A t = Some (Some i)" for t i using A that by (auto simp: lane_ok_def)
  have inj: "t = t'" if "owner A t = Some i" "owner A t' = Some i" for t t' i using A that unfolding lane_ok_def by blast
  have inj': "t = t'" if "token A t = Some (Some i)" "token A t' = Some (Some i)" for t t' i using A that unfolding lane_ok_def by blast
  have idl: "idle A ! i \<longrightarrow> kind A ! i" if "i < length (lane A)" for i using A that by (auto simp: lane_ok_def)
  show ?thesis unfolding lane_ok_def new_lane_simps
    using len own tok inj inj' idl by (auto simp: nth_append less_Suc_eq split: if_split_asm dest: own tok)
qed

lemma hash_find_owner:
  assumes R: "repr T E q A" and tid: "valid_tid tid" and f: "hash_fuel q \<le> f"
  shows "\<exists>r. hash_find f tid (chain_of q) = Ret r \<and> map_option snd r = map_option Some (owner A tid) \<and>
    ((\<exists>v. r = Some (0, v)) \<longleftrightarrow> tid \<in> keys (hd (chain_of q)))"
proof -
  have H: "hash_tabs q (owner A)" using reprD(3) [OF R] by (simp add: hash_rel_def)
  have "cap h \<le> f" if "h \<in> set (chain_of q)" for h using fuel_covers [OF f H that] by simp
  then have "\<forall>h \<in> set (chain_of q). hash_ok h \<and> has_room h \<and> cap h \<le> f" using hash_tabs_chain(3) [OF H] by blast
  from find_spec [OF this tid] obtain r where "hash_find f tid (chain_of q) = Ret r" "map_option snd r = tables (chain_of q) tid"
    "(\<exists>v. r = Some (0, v)) \<longleftrightarrow> tid \<in> keys (hd (chain_of q))" using hash_tabs_chain(2) [OF H] by metis
  then show ?thesis using H by (auto simp: hash_tabs_def)
qed

lemma get_or_add_known:
  assumes R: "repr T E q A" and tid: "valid_tid tid" and f: "hash_fuel q \<le> f" and i: "owner A tid = Some i"
  shows "\<exists>q'. get_or_add_implicit_producer f False T tid q = Ret (Some i, q') \<and> repr T E q' A"
proof -
  have H: "hash_tabs q (owner A)" and cnt: "unat (implicitProducerHashCount q) = card (dom (owner A))"
    "card (dom (owner A)) < cap (hd (chain_of q))" using reprD(3) [OF R] by (auto simp: hash_rel_def)
  have L: "lanes_are T E q A" "lane_ok A" "token A = ptokens q" using R by (auto simp: repr_lanes)
  obtain r where r: "hash_find f tid (chain_of q) = Ret r" "map_option snd r = Some (Some i)"
    "(\<exists>v. r = Some (0, v)) \<longleftrightarrow> tid \<in> keys (hd (chain_of q))" using hash_find_owner [OF R tid f] i by auto
  then obtain d where d: "r = Some (d, Some i)" by auto
  show ?thesis
  proof (cases d)
    case 0
    then have "get_or_add_implicit_producer f False T tid q = Ret (Some i, q)"
      using r(1) d hash_tabs_chain(1) [OF H] by (simp add: get_or_add_implicit_producer_def)
    then show ?thesis using R by blast
  next
    case (Suc d')
    then have nk: "tid \<notin> keys (hd (chain_of q))" using r(3) d by auto
    have same: "(owner A)(tid \<mapsto> i) = owner A" using i by auto
    have "hd (chain_of q) \<in> set (chain_of q)" using hash_tabs_chain(2) [OF H] by (metis list.set_intros(1))
    then have "cap (hd (chain_of q)) \<le> f" using fuel_covers [OF f H] by fastforce
    from claim_head [OF H tid nk this, of i] cnt(2) obtain h where h:
      "hash_claim f False tid (Some i) (hd (chain_of q)) (hash_thread_id tid) = Ret h"
      "hash_tabs (put_chain (h # tl (chain_of q)) q) (owner A)"
      "cap (hd (chain_of (put_chain (h # tl (chain_of q)) q))) = cap (hd (chain_of q))" unfolding same by blast
    let ?q = "put_chain (h # tl (chain_of q)) q"
    have "get_or_add_implicit_producer f False T tid q = Ret (Some i, ?q)"
      using r(1) d Suc h(1) hash_tabs_chain(1) [OF H] by (simp add: get_or_add_implicit_producer_def)
    moreover have "repr T E ?q A" unfolding repr_lanes hash_rel_def using L lanes_cong [of ?q q] h(2,3) cnt by simp
    ultimately show ?thesis by blast
  qed
qed

lemma malloc_lanes: "lanes_are T E q A \<Longrightarrow> malloc (q_mem q) = (b, m) \<Longrightarrow> lanes_are T E (q\<lparr>q_mem := m\<rparr>) A"
proof -
  assume L: "lanes_are T E q A" and m: "malloc (q_mem q) = (b, m)"
  have "m = (q_mem q)\<lparr>mallocs := Suc (mallocs (q_mem q))\<rparr>" using m by (auto simp: malloc_def)
  then show ?thesis using L queue_inv_mem [of T E q "lane A" m] by (simp add: lanes_are_def)
qed

text \<open>A thread in no table: room is made for it, unless memory is exhausted, then it is registered.\<close>

lemma hash_insert_spec:
  assumes L: "lanes_are T E q A" "lane_ok A" "token A = ptokens q" and H: "hash_rel q (owner A)" and tid: "valid_tid tid" "owner A tid = None"
    and f: "hash_fuel q \<le> f" and few: "card (dom (owner A)) < 2 ^ 32"
  defines "q1 \<equiv> q\<lparr>implicitProducerHashCount := implicitProducerHashCount q + 1\<rparr>" and "n \<equiv> 1 + implicitProducerHashCount q"
  shows "(\<exists>q2. hash_insert 2 f False T tid n q1 = Ret (None, q2) \<and> repr T E q2 A) \<or>
    (\<exists>q2. hash_insert 2 f False T tid n q1 = hash_register f False T tid q2 \<and> lanes_are T E q2 A \<and> hash_tabs q2 (owner A) \<and>
      ptokens q2 = ptokens q \<and> unat (implicitProducerHashCount q2) = Suc (card (dom (owner A))) \<and>
      Suc (card (dom (owner A))) < cap (hd (chain_of q2)) \<and> cap (hd (chain_of q2)) \<le> f)"
proof -
  have tabs: "hash_tabs q (owner A)" and cnt: "unat (implicitProducerHashCount q) = card (dom (owner A))"
    "card (dom (owner A)) < cap (hd (chain_of q))" using H by (auto simp: hash_rel_def)
  have "unat (implicitProducerHashCount q) + 1 < 2 ^ 64" using cnt few by simp
  then have nn: "unat n = Suc (card (dom (owner A)))" using cnt by (simp add: n_def unat_word_ariths)
  have H1: "hash_tabs q1 (owner A)" "hash_fuel q1 \<le> f" "card (dom (owner A)) < cap (hd (chain_of q1))"
    using tabs f cnt(2) by (simp_all add: q1_def hash_tabs_def hash_fuel_def)
  from resize_spec [OF H1(1,2) nn few H1(3)] obtain s q2 where s: "hash_resize n q1 = Ret (s, q2)"
    "case s of
       Inl _ \<Rightarrow> (\<exists>m. malloc (q_mem q1) = (False, m) \<and> q2 = q1\<lparr>q_mem := m, implicitProducerHashCount := implicitProducerHashCount q1 - 1\<rparr>)
     | Inr _ \<Rightarrow> (q2 = q1 \<or> (\<exists>m hd. malloc (q_mem q1) = (True, m) \<and> q2 = q1\<lparr>q_mem := m, hash_dyn := hd\<rparr>)) \<and> hash_tabs q2 (owner A) \<and>
         n < drop_bit 1 (h_capacity (hd (chain_of q2))) + drop_bit 2 (h_capacity (hd (chain_of q2))) \<and>
         Suc (card (dom (owner A))) < cap (hd (chain_of q2)) \<and> cap (hd (chain_of q2)) \<le> f"
    by (elim exE conjE) (rule that)
  show ?thesis
  proof (cases s)
    case (Inl u)
    then obtain m where m: "malloc (q_mem q) = (False, m)" "q2 = q\<lparr>q_mem := m\<rparr>" using s(2) by (auto simp: q1_def algebra_simps)
    have "hash_insert 2 f False T tid n q1 = Ret (None, q2)" using s(1) Inl by (simp add: numeral_2_eq_2)
    moreover have "repr T E q2 A" unfolding repr_lanes m(2) using L malloc_lanes [OF L(1) m(1)] H by (simp add: hash_rel_def hash_tabs_def)
    ultimately show ?thesis by blast
  next
    case (Inr u)
    then have q2: "q2 = q1 \<or> (\<exists>m hd. malloc (q_mem q) = (True, m) \<and> q2 = q1\<lparr>q_mem := m, hash_dyn := hd\<rparr>)"
      "hash_tabs q2 (owner A)" "n < drop_bit 1 (h_capacity (hd (chain_of q2))) + drop_bit 2 (h_capacity (hd (chain_of q2)))"
      "Suc (card (dom (owner A))) < cap (hd (chain_of q2))" "cap (hd (chain_of q2)) \<le> f" using s(2) by (auto simp: q1_def)
    have "hash_insert 2 f False T tid n q1 = hash_register f False T tid q2"
      using s(1) Inr q2(3) hash_tabs_chain(1) [OF q2(2)] by (simp add: numeral_2_eq_2)
    moreover have "ptokens q2 = ptokens q" "unat (implicitProducerHashCount q2) = Suc (card (dom (owner A)))"
      using q2(1) nn by (auto simp: q1_def n_def add.commute)
    moreover have "lanes_are T E q2 A"
      using q2(1) L(1) malloc_lanes [OF L(1)] lanes_cong [of q1 q T E A]
        lanes_cong [of "q1\<lparr>q_mem := m, hash_dyn := hd\<rparr>" "q\<lparr>q_mem := m\<rparr>" T E A for m hd] by (auto simp: q1_def)
    ultimately show ?thesis using q2 by blast
  qed
qed

lemma get_or_add_new:
  assumes R: "repr T E q A" and tid: "valid_tid tid" and n: "nprods q < 2 ^ 32" and f: "hash_fuel q \<le> f" and new: "owner A tid = None"
  shows "\<exists>r q'. get_or_add_implicit_producer f False T tid q = Ret (r, q') \<and>
    (case r of None \<Rightarrow> repr T E q' A | Some i \<Rightarrow> i = length (lane A) \<and> repr T E q' (new_lane tid A))"
proof -
  have H: "hash_rel q (owner A)" "hash_tabs q (owner A)" using reprD(3) [OF R] by (auto simp: hash_rel_def)
  have L: "lanes_are T E q A" "lane_ok A" "token A = ptokens q" using R by (auto simp: repr_lanes)
  have few: "card (dom (owner A)) < 2 ^ 32" using owners_few [OF L(2)] reprD(2) [OF R] n by simp
  have "hash_find f tid (chain_of q) = Ret None" using hash_find_owner [OF R tid f] new by auto
  then have start: "get_or_add_implicit_producer f False T tid q =
      hash_insert 2 f False T tid (1 + implicitProducerHashCount q) (q\<lparr>implicitProducerHashCount := implicitProducerHashCount q + 1\<rparr>)"
    using hash_tabs_chain(1) [OF H(2)] by (simp add: get_or_add_implicit_producer_def Let_def)
  from hash_insert_spec [OF L H(1) tid new f few] show ?thesis
  proof (elim disjE exE conjE)
    fix q2 assume "hash_insert 2 f False T tid (1 + implicitProducerHashCount q) (q\<lparr>implicitProducerHashCount := implicitProducerHashCount q + 1\<rparr>) = Ret (None, q2)"
      "repr T E q2 A"
    then show ?thesis unfolding start by (intro exI [of _ None] exI [of _ q2]) simp
  next
    fix q2 assume run: "hash_insert 2 f False T tid (1 + implicitProducerHashCount q) (q\<lparr>implicitProducerHashCount := implicitProducerHashCount q + 1\<rparr>)
        = hash_register f False T tid q2"
      and q2: "lanes_are T E q2 A" "hash_tabs q2 (owner A)" "ptokens q2 = ptokens q" "unat (implicitProducerHashCount q2) = Suc (card (dom (owner A)))"
        "Suc (card (dom (owner A))) < cap (hd (chain_of q2))" "cap (hd (chain_of q2)) \<le> f"
    from register_spec [OF q2(1) L(2) q2(2) tid new q2(6,5,4)] obtain r q' where
      r: "hash_register f False T tid q2 = Ret (r, q')" "ptokens q' = ptokens q2"
        "case r of None \<Rightarrow> lanes_are T E q' A \<and> hash_rel q' (owner A)
         | Some i \<Rightarrow> i = length (lane A) \<and> lanes_are T E q' (adopt i False A) \<and> hash_rel q' ((owner A)(tid \<mapsto> i))" by blast
    have "case r of None \<Rightarrow> repr T E q' A | Some i \<Rightarrow> i = length (lane A) \<and> repr T E q' (new_lane tid A)"
      unfolding repr_lanes using r(2,3) L(2,3) q2(3) new_lane_ok [OF L(2)]
      by (cases r) (simp_all add: lanes_are_def new_lane_def adopt_def)
    then show ?thesis unfolding start run using r(1) by blast
  qed
qed

lemma get_or_add_spec:
  assumes R: "repr T E q A" and tid: "valid_tid tid" and n: "nprods q < 2 ^ 32" and f: "hash_fuel q \<le> f"
  shows "\<exists>r q' A'. get_or_add_implicit_producer f False T tid q = Ret (r, q') \<and> repr T E q' A' \<and> finds tid A r A'"
proof (cases "owner A tid")
  case (Some i)
  then show ?thesis using get_or_add_known [OF R tid f] by (auto simp: finds_def)
next
  case None
  from get_or_add_new [OF R tid n f None] obtain r q' where
    r: "get_or_add_implicit_producer f False T tid q = Ret (r, q')"
      "case r of None \<Rightarrow> repr T E q' A | Some i \<Rightarrow> i = length (lane A) \<and> repr T E q' (new_lane tid A)" by blast
  then show ?thesis using None
    by (intro exI [of _ r] exI [of _ q'] exI [of _ "case r of None \<Rightarrow> A | Some _ \<Rightarrow> new_lane tid A"]) (auto simp: finds_def split: option.splits)
qed

end
