(* ===== verification/CQ_Runs.thy ===== *)
theory CQ_Runs
  imports CQ_Implicit_Bulk CQ_Subqueue
begin

text \<open>
  The loops of the bulk operations of \<^verbatim>\<open>concurrentqueue/concurrentqueue.h\<close> over the elements of one block
  and over the blocks of a chain, for both kinds of producer. A region is a family of blocks, numbered as
  the indices of their elements run; the set \<open>S\<close> holds the indices with a constructed element.
\<close>

section \<open>Regions\<close>

definition cells :: "traits \<Rightarrow> nat set \<Rightarrow> (nat \<Rightarrow> 'd) \<Rightarrow> nat \<Rightarrow> 'd block \<Rightarrow> bool" where
  "cells T S ctn j b \<longleftrightarrow>
     (\<forall>s. elements b s = (if s < bsz T \<and> j * bsz T + s \<in> S then Some (ctn (j * bsz T + s)) else None))"

definition region :: "traits \<Rightarrow> nat set \<Rightarrow> (nat \<Rightarrow> nat) \<Rightarrow> nat set \<Rightarrow> (nat \<Rightarrow> 'd) \<Rightarrow> nat set \<Rightarrow> 'd mem \<Rightarrow> bool" where
  "region T J blk S ctn own m \<longleftrightarrow> mem_inv m own \<and> inj_on blk J \<and> blk ` J \<subseteq> own \<and>
     (\<forall>j \<in> J. \<exists>b. blocks m (blk j) = Some b \<and> cells T S ctn j b)"

text \<open>Only elements of blocks in \<open>A\<close> differ.\<close>

definition bare :: "'d block \<Rightarrow> 'd block" where
  "bare b = b\<lparr>elements := (\<lambda>_. None)\<rparr>"

definition refilled :: "nat set \<Rightarrow> 'd mem \<Rightarrow> 'd mem \<Rightarrow> bool" where
  "refilled A m m' \<longleftrightarrow> nblocks m' = nblocks m \<and> (\<forall>b. map_option bare (blocks m' b) = map_option bare (blocks m b)) \<and>
     (\<forall>b. b \<notin> A \<longrightarrow> blocks m' b = blocks m b)"

lemma refilled_refl [simp]: "refilled A m m"
  by (simp add: refilled_def)

lemma refilled_trans [trans]: "refilled A m m1 \<Longrightarrow> refilled A m1 m2 \<Longrightarrow> refilled A m m2"
  by (simp add: refilled_def)

lemma refilledD:
  assumes "refilled A m m'" and "blocks m b = Some bl"
  obtains bl' where "blocks m' b = Some bl'" "blk_next bl' = blk_next bl" "freeListRefs bl' = freeListRefs bl"
    "elementsCompletelyDequeued bl' = elementsCompletelyDequeued bl" "emptyFlags bl' = emptyFlags bl"
proof -
  have eq: "map_option bare (blocks m' b) = Some (bare bl)" using assms by (simp add: refilled_def)
  then obtain bl' where bl': "blocks m' b = Some bl'" "bare bl' = bare bl" by auto
  have "blk_next (bare bl') = blk_next (bare bl)" "freeListRefs (bare bl') = freeListRefs (bare bl)"
    "elementsCompletelyDequeued (bare bl') = elementsCompletelyDequeued (bare bl)" "emptyFlags (bare bl') = emptyFlags (bare bl)"
    by (simp_all only: bl'(2))
  with bl'(1) that show thesis by (simp add: bare_def)
qed

lemma region_put:
  assumes reg: "region T J blk S ctn own m" and j: "j \<in> J" "blocks m (blk j) = Some b"
    and es: "cells T S' ctn j (b\<lparr>elements := es\<rparr>)" and other: "\<And>i b. i \<noteq> j \<Longrightarrow> cells T S ctn i b \<Longrightarrow> cells T S' ctn i b"
    and A: "blk j \<in> A"
  shows "region T J blk S' ctn own (put_block (blk j) (b\<lparr>elements := es\<rparr>) m) \<and> refilled A m (put_block (blk j) (b\<lparr>elements := es\<rparr>) m)"
proof -
  let ?m = "put_block (blk j) (b\<lparr>elements := es\<rparr>) m"
  have mem: "mem_inv m own" "inj_on blk J" "blk ` J \<subseteq> own" using reg by (auto simp: region_def)
  have own: "blk j \<in> own" using mem(3) j(1) by blast
  have "freeListRefs (b\<lparr>elements := es\<rparr>) = 0" using pool.used [OF mem(1) own] j(2) by auto
  then have mem': "mem_inv ?m own" "blocks ?m = (blocks m)(blk j \<mapsto> b\<lparr>elements := es\<rparr>)" using pool.put_used [OF mem(1) own] by auto
  have "\<exists>c. blocks ?m (blk i) = Some c \<and> cells T S' ctn i c" if i: "i \<in> J" for i
  proof (cases "i = j")
    case True
    then show ?thesis using es mem'(2) by simp
  next
    case False
    then have "blk i \<noteq> blk j" using mem(2) i j(1) by (auto simp: inj_on_def)
    moreover obtain c where "blocks m (blk i) = Some c" "cells T S ctn i c" using reg i by (auto simp: region_def)
    ultimately show ?thesis using mem'(2) other [OF False] by auto
  qed
  moreover have "refilled A m ?m" using A j(2) by (auto simp: refilled_def put_block_def bare_def)
  ultimately show ?thesis using mem mem' by (simp add: region_def)
qed

lemma regionD:
  assumes "region T J blk S ctn own m"
  shows "mem_inv m own" "inj_on blk J" "blk ` J \<subseteq> own" "\<And>j. j \<in> J \<Longrightarrow> \<exists>b. blocks m (blk j) = Some b \<and> cells T S ctn j b"
  using assms by (auto simp: region_def)

lemma region_cell:
  assumes "region T J blk S ctn own m" and "i div bsz T \<in> J" and "0 < bsz T"
  obtains b where "blocks m (blk (i div bsz T)) = Some b" "cells T S ctn (i div bsz T) b"
    "elements b (i mod bsz T) = (if i \<in> S then Some (ctn i) else None)"
proof -
  obtain b where b: "blocks m (blk (i div bsz T)) = Some b" "cells T S ctn (i div bsz T) b" using regionD(4) [OF assms(1,2)] by blast
  then have "elements b (i mod bsz T) = (if i \<in> S then Some (ctn i) else None)" using assms(3) by (simp add: cells_def)
  with b that show thesis by blast
qed

lemma cells_other:
  assumes "j \<noteq> i div bsz T" and "0 < bsz T" and "\<And>k. k \<noteq> i \<Longrightarrow> k \<in> S' \<longleftrightarrow> k \<in> S"
  shows "cells T S ctn j b \<Longrightarrow> cells T S' ctn j b"
proof -
  assume "cells T S ctn j b"
  moreover have "j * bsz T + s \<noteq> i" if "s < bsz T" for s using that assms(1) by auto
  then have "(s < bsz T \<and> j * bsz T + s \<in> S') = (s < bsz T \<and> j * bsz T + s \<in> S)" for s using assms(3) by metis
  ultimately show ?thesis by (simp add: cells_def)
qed

lemma cells_at:
  assumes "cells T S ctn j b" and "j = i div bsz T" and "0 < bsz T" and "\<And>k. k \<noteq> i \<Longrightarrow> k \<in> S' \<longleftrightarrow> k \<in> S"
    and "v = (if i \<in> S' then Some (ctn i) else None)"
  shows "cells T S' ctn j (b\<lparr>elements := (elements b)(i mod bsz T := v)\<rparr>)"
proof -
  have i: "j * bsz T + i mod bsz T = i" "i mod bsz T < bsz T" using assms(2,3) by simp_all
  have "((elements b)(i mod bsz T := v)) s = (if s < bsz T \<and> j * bsz T + s \<in> S' then Some (ctn (j * bsz T + s)) else None)" for s
  proof (cases "s = i mod bsz T")
    case True
    then show ?thesis using i assms(5) by (simp only: fun_upd_same) simp
  next
    case False
    then have "j * bsz T + s \<noteq> i" using i(1) by linarith
    with False assms(1) assms(4) [of "j * bsz T + s"] show ?thesis by (simp add: cells_def)
  qed
  then show ?thesis by (simp add: cells_def)
qed

section \<open>One element\<close>

lemma construct_cell:
  assumes T: "traits_ok T" and reg: "region T J blk S ctn own m" and i: "i div bsz T \<in> J" "blk (i div bsz T) \<in> A"
  shows "\<exists>m'. construct T (of_nat i) (ctn i) (blk (i div bsz T)) m = Ret m' \<and> region T J blk (insert i S) ctn own m' \<and> refilled A m m'"
proof -
  note bs = bsz_gt_1(2) [OF T]
  obtain b where b: "blocks m (blk (i div bsz T)) = Some b" "cells T S ctn (i div bsz T) b" by (rule region_cell [OF reg i(1) bs])
  have "cells T (insert i S) ctn (i div bsz T) (b\<lparr>elements := (elements b)(i mod bsz T := Some (ctn i))\<rparr>)"
    by (rule cells_at [OF b(2) refl bs]) auto
  from region_put [OF reg i(1) b(1) this _ i(2)] cells_other [OF _ bs, of _ i "insert i S" S]
  show ?thesis unfolding construct_Ret [OF T b(1)] by blast
qed

lemma destruct_cell:
  assumes T: "traits_ok T" and reg: "region T J blk S ctn own m" and i: "i div bsz T \<in> J" "i \<in> S" "blk (i div bsz T) \<in> A"
  shows "\<exists>m'. destruct T (of_nat i) (blk (i div bsz T)) m = Ret m' \<and> region T J blk (S - {i}) ctn own m' \<and> refilled A m m'"
proof -
  note bs = bsz_gt_1(2) [OF T]
  obtain b where b: "blocks m (blk (i div bsz T)) = Some b" "cells T S ctn (i div bsz T) b"
    "elements b (i mod bsz T) = (if i \<in> S then Some (ctn i) else None)" by (rule region_cell [OF reg i(1) bs])
  have "cells T (S - {i}) ctn (i div bsz T) (b\<lparr>elements := (elements b)(i mod bsz T := None)\<rparr>)"
    by (rule cells_at [OF b(2) refl bs]) auto
  moreover have "elements b (i mod bsz T) \<noteq> None" using b(3) i(2) by simp
  ultimately show ?thesis using region_put [OF reg i(1) b(1) _ _ i(3)] cells_other [OF _ bs, of _ i "S - {i}" S]
    unfolding destruct_Ret [OF T b(1) \<open>elements b (i mod bsz T) \<noteq> None\<close>] by blast
qed

lemma element_cell:
  assumes T: "traits_ok T" and reg: "region T J blk S ctn own m" and i: "i div bsz T \<in> J" "i \<in> S"
  shows "element_at T (of_nat i) (blk (i div bsz T)) m = Ret (ctn i)"
proof -
  obtain b where "blocks m (blk (i div bsz T)) = Some b" "elements b (i mod bsz T) = (if i \<in> S then Some (ctn i) else None)"
    by (rule region_cell [OF reg i(1) bsz_gt_1(2) [OF T]])
  then show ?thesis using i(2) by (simp add: element_at_def with_block_def slot_nat [OF T])
qed

section \<open>The elements of one block\<close>

text \<open>\<open>first_bad P ctn i k e\<close>: going from \<open>i\<close> towards \<open>e\<close>, the first index whose element has \<open>P\<close> is \<open>k\<close>, or \<open>k\<close> is \<open>e\<close>.\<close>

definition first_bad :: "('d \<Rightarrow> bool) \<Rightarrow> (nat \<Rightarrow> 'd) \<Rightarrow> nat \<Rightarrow> nat \<Rightarrow> nat \<Rightarrow> bool" where
  "first_bad P ctn i k e \<longleftrightarrow> i \<le> k \<and> k \<le> e \<and> (\<forall>x \<in> {i..<k}. \<not> P (ctn x)) \<and> (k < e \<longrightarrow> P (ctn k))"

lemma first_bad_Suc: "first_bad P ctn (Suc i) k e \<Longrightarrow> \<not> P (ctn i) \<Longrightarrow> first_bad P ctn i k e"
  unfolding first_bad_def by (metis Suc_leD atLeastLessThan_iff le_neq_implies_less Suc_leI)

lemma first_bad_now: "P (ctn i) \<Longrightarrow> i \<le> e \<Longrightarrow> first_bad P ctn i i e"
  by (simp add: first_bad_def)

lemma first_bad_trans: "first_bad P ctn i e1 e1 \<Longrightarrow> first_bad P ctn e1 k e \<Longrightarrow> first_bad P ctn i k e"
  unfolding first_bad_def by (metis atLeastLessThan_iff le_trans not_less)

lemma first_bad_extend: "first_bad P ctn i k e1 \<Longrightarrow> k < e1 \<Longrightarrow> e1 \<le> e \<Longrightarrow> first_bad P ctn i k e"
  by (auto simp: first_bad_def)

lemma in_block: "i div b = j \<Longrightarrow> Suc n + i \<le> Suc j * b \<Longrightarrow> n \<noteq> 0 \<Longrightarrow> Suc i div b = (j :: nat)"
proof -
  assume "i div b = j" "Suc n + i \<le> Suc j * b" "n \<noteq> 0"
  moreover from this have "j * b \<le> i" by (metis div_times_less_eq_dividend)
  ultimately show ?thesis by (intro div_nat_eqI) (auto simp: algebra_simps)
qed

lemma construct_run_region:
  assumes T: "traits_ok T" and j: "j \<in> J" "blk j \<in> A"
  shows "region T J blk S ctn own m \<Longrightarrow> (n \<noteq> 0 \<longrightarrow> i div bsz T = j) \<Longrightarrow> n + i \<le> Suc j * bsz T \<Longrightarrow> n + i \<le> e \<Longrightarrow>
    \<exists>k m'. construct_run n T E (Some (blk j)) (of_nat i) (map ctn [i..<e]) m = Ret (k = n + i, of_nat k, map ctn [k..<e], m') \<and>
      first_bad (raises E) ctn i k (n + i) \<and> region T J blk (S \<union> {i..<k}) ctn own m' \<and> refilled A m m'"
proof (induction n arbitrary: i S m)
  case 0
  then show ?case by (intro exI [of _ i] exI [of _ m]) (simp add: first_bad_def)
next
  case (Suc n)
  have i: "i div bsz T = j" and items: "map ctn [i..<e] = ctn i # map ctn [Suc i..<e]" using Suc.prems(2,4) by (simp_all add: upt_conv_Cons)
  show ?case
  proof (cases "raises E (ctn i)")
    case True
    then show ?thesis using Suc.prems(1,4) items first_bad_now [of "raises E" ctn i "Suc n + i"]
      by (intro exI [of _ i] exI [of _ m]) simp
  next
    case False
    obtain m1 where m1: "construct T (of_nat i) (ctn i) (blk j) m = Ret m1" "region T J blk (insert i S) ctn own m1" "refilled A m m1"
      using construct_cell [OF T Suc.prems(1), of i A] i j by blast
    have "n \<noteq> 0 \<longrightarrow> Suc i div bsz T = j" using in_block [OF i Suc.prems(3)] by blast
    from Suc.IH [OF m1(2) this] Suc.prems(3,4) obtain k m2 where
      k: "construct_run n T E (Some (blk j)) (of_nat (Suc i)) (map ctn [Suc i..<e]) m1 = Ret (k = n + Suc i, of_nat k, map ctn [k..<e], m2)"
      "first_bad (raises E) ctn (Suc i) k (n + Suc i)" "region T J blk (insert i S \<union> {Suc i..<k}) ctn own m2" "refilled A m1 m2" by auto
    have "insert i S \<union> {Suc i..<k} = S \<union> {i..<k}" using k(2) by (auto simp: first_bad_def)
    moreover have "first_bad (raises E) ctn i k (Suc n + i)" using first_bad_Suc [OF k(2) False] by simp
    ultimately show ?thesis using k m1(1) refilled_trans [OF m1(3) k(4)] False items
      by (intro exI [of _ k] exI [of _ m2]) (simp add: add.commute)
  qed
qed

lemma destroy_run_region:
  assumes T: "traits_ok T" and j: "j \<in> J" "blk j \<in> A"
  shows "region T J blk S ctn own m \<Longrightarrow> (n \<noteq> 0 \<longrightarrow> i div bsz T = j) \<Longrightarrow> n + i \<le> Suc j * bsz T \<Longrightarrow> {i..<n + i} \<subseteq> S \<Longrightarrow>
    \<exists>m'. destroy_run n T (Some (blk j)) (of_nat i) m = Ret m' \<and> region T J blk (S - {i..<n + i}) ctn own m' \<and> refilled A m m'"
proof (induction n arbitrary: i S m)
  case (Suc n)
  have i: "i div bsz T = j" "i \<in> S" using Suc.prems(2,4) by auto
  obtain m1 where m1: "destruct T (of_nat i) (blk j) m = Ret m1" "region T J blk (S - {i}) ctn own m1" "refilled A m m1"
    using destruct_cell [OF T Suc.prems(1), of i A] i j by blast
  have "n \<noteq> 0 \<longrightarrow> Suc i div bsz T = j" using in_block [OF i(1) Suc.prems(3)] by blast
  from Suc.IH [OF m1(2) this] Suc.prems(3,4) obtain m2 where
    m2: "destroy_run n T (Some (blk j)) (of_nat (Suc i)) m1 = Ret m2" "region T J blk (S - {i} - {Suc i..<n + Suc i}) ctn own m2" "refilled A m1 m2"
    by fastforce
  have "S - {i} - {Suc i..<n + Suc i} = S - {i..<Suc n + i}" by auto
  with m2 m1(1) refilled_trans [OF m1(3) m2(3)] show ?case by (simp add: add.commute)
qed simp

lemma take_run_region:
  assumes T: "traits_ok T" and j: "j \<in> J" "blk j \<in> A"
  shows "region T J blk S ctn own m \<Longrightarrow> (n \<noteq> 0 \<longrightarrow> i div bsz T = j) \<Longrightarrow> n + i \<le> Suc j * bsz T \<Longrightarrow> {i..<n + i} \<subseteq> S \<Longrightarrow>
    \<exists>k m'. take_run n T E (blk j) (of_nat i) m = Ret (map ctn [i..<k], k < n + i, of_nat k, m') \<and>
      first_bad (assign_raises E) ctn i k (n + i) \<and> region T J blk (S - {i..<k}) ctn own m' \<and> refilled A m m'"
proof (induction n arbitrary: i S m)
  case 0
  then show ?case by (intro exI [of _ i] exI [of _ m]) (simp add: first_bad_def)
next
  case (Suc n)
  have i: "i div bsz T = j" "i \<in> S" using Suc.prems(2,4) by auto
  have el: "element_at T (of_nat i) (blk j) m = Ret (ctn i)" using element_cell [OF T Suc.prems(1), of i] i j by simp
  show ?case
  proof (cases "assign_raises E (ctn i)")
    case True
    then show ?thesis using Suc.prems(1) el first_bad_now [of "assign_raises E" ctn i "Suc n + i"]
      by (intro exI [of _ i] exI [of _ m]) simp
  next
    case False
    obtain m1 where m1: "destruct T (of_nat i) (blk j) m = Ret m1" "region T J blk (S - {i}) ctn own m1" "refilled A m m1"
      using destruct_cell [OF T Suc.prems(1), of i A] i j by blast
    have "n \<noteq> 0 \<longrightarrow> Suc i div bsz T = j" using in_block [OF i(1) Suc.prems(3)] by blast
    from Suc.IH [OF m1(2) this] Suc.prems(3,4) obtain k m2 where
      k: "take_run n T E (blk j) (of_nat (Suc i)) m1 = Ret (map ctn [Suc i..<k], k < n + Suc i, of_nat k, m2)"
      "first_bad (assign_raises E) ctn (Suc i) k (n + Suc i)" "region T J blk (S - {i} - {Suc i..<k}) ctn own m2" "refilled A m1 m2"
      by fastforce
    have le: "Suc i \<le> k" using k(2) by (simp add: first_bad_def)
    then have "S - {i} - {Suc i..<k} = S - {i..<k}" "map ctn [i..<k] = ctn i # map ctn [Suc i..<k]" by (auto simp: upt_conv_Cons)
    moreover have "first_bad (assign_raises E) ctn i k (Suc n + i)" using first_bad_Suc [OF k(2) False] by simp
    ultimately show ?thesis using k m1(1) refilled_trans [OF m1(3) k(4)] False el
      by (intro exI [of _ k] exI [of _ m2]) (simp add: add.commute)
  qed
qed

section \<open>The blocks of a chain\<close>

lemma circular_less_than_behind: "m \<le> n \<Longrightarrow> n - m < 2 ^ 63 \<Longrightarrow> \<not> circular_less_than (of_nat n) (of_nat m)"
proof -
  assume "m \<le> n" and lt: "n - m < 2 ^ 63"
  then have "of_nat n - of_nat m = (of_nat (n - m) :: 64 word)" by (simp add: of_nat_diff)
  moreover have "unat (of_nat (n - m) :: 64 word) = n - m" using lt by (intro unat_of_nat_64) simp
  ultimately show ?thesis using lt by (simp add: circular_less_than_def word_less_nat_alt push_bit_eq_mult not_less)
qed

lemma next_multiple: "0 < b \<Longrightarrow> i < Suc (i div b) * b \<and> Suc (i div b) * b \<le> i + (b :: nat)"
  using dividend_less_div_times [of b i] by simp

lemma stop_index_nat:
  assumes T: "traits_ok T" and "i \<le> e" and "e - i < 2 ^ 63"
  shows "stop_index T (of_nat i) (of_nat e) = of_nat (min e (Suc (i div bsz T) * bsz T))"
proof -
  let ?n = "Suc (i div bsz T) * bsz T"
  note b = next_multiple [OF bsz_gt_1(2) [OF T], of i] and small = bsz_small [OF T]
  have base: "base_of T (of_nat i) + BLOCK_SIZE T = of_nat ?n"
    by (simp add: base_of_def and_not_block_mask [OF T] add.commute)
  have "circular_less_than (of_nat e) (of_nat ?n) \<longleftrightarrow> e < ?n"
  proof (cases "e \<le> ?n")
    case True
    have "?n - e < 2 ^ 63" using b small assms(2) by linarith
    moreover from this have "?n - e < 2 ^ 64" by simp
    ultimately show ?thesis using circular_less_than_ahead [OF True] by simp
  next
    case False
    then have "?n \<le> e" "e - ?n < 2 ^ 63" using assms(3) b by linarith+
    then show ?thesis using circular_less_than_behind [of ?n e] False by simp
  qed
  then show ?thesis unfolding stop_index_def Let_def base by (simp add: min_def)
qed

lemma unat_distance: "i \<le> n \<Longrightarrow> n - i < 2 ^ 64 \<Longrightarrow> unat (of_nat n - of_nat i :: 64 word) = n - i"
  using unat_of_nat_64 [of "n - i"] by (simp add: of_nat_diff)

text \<open>\<open>chained blk s N m\<close>: from number \<open>s\<close> on, \<open>next\<close> leads from each block to that with the next number.\<close>

definition chained :: "(nat \<Rightarrow> nat) \<Rightarrow> nat \<Rightarrow> nat \<Rightarrow> 'd mem \<Rightarrow> bool" where
  "chained blk s N m \<longleftrightarrow> (\<forall>j. s \<le> j \<longrightarrow> Suc j < N \<longrightarrow> (\<exists>b. blocks m (blk j) = Some b \<and> blk_next b = Some (blk (Suc j))))"

lemma chained_refilled: "chained blk s N m \<Longrightarrow> refilled A m m' \<Longrightarrow> chained blk s N m'"
  unfolding chained_def by (metis refilledD)

lemma chained_later: "chained blk s N m \<Longrightarrow> s \<le> s' \<Longrightarrow> chained blk s' N m"
  by (simp add: chained_def)

lemma nblk_pos: "0 < bsz T \<Longrightarrow> 0 < e \<Longrightarrow> nblk T e = Suc ((e - 1) div bsz T)"
  using nblk_Suc [of T "e - 1"] by simp

lemma bulk_fill_region:
  assumes T: "traits_ok T" and J: "{s..<nblk T e} \<subseteq> J" "blk ` {s..<nblk T e} \<subseteq> A"
  shows "region T J blk S ctn own m \<Longrightarrow> chained blk s (nblk T e) m \<Longrightarrow> s \<le> i div bsz T \<Longrightarrow> i < e \<Longrightarrow> e - i < 2 ^ 63 \<Longrightarrow>
    nblk T e - i div bsz T \<le> f \<Longrightarrow>
    \<exists>k m'. bulk_fill f T E (Some (blk (nblk T e - 1))) (of_nat i) (of_nat e) (map ctn [i..<e]) (Some (blk (i div bsz T))) m =
        Ret (k = e, of_nat k, Some (blk (if k = e then nblk T e - 1 else k div bsz T)), m') \<and>
      first_bad (raises E) ctn i k e \<and> region T J blk (S \<union> {i..<k}) ctn own m' \<and> refilled A m m'"
proof (induction f arbitrary: i S m)
  case 0
  then have "nblk T e \<le> i div bsz T" by simp
  moreover have "i div bsz T < nblk T e" using 0 bsz_gt_1(2) [OF T] by (simp add: nblk_pos div_le_mono le_imp_less_Suc)
  ultimately show ?case by simp
next
  case (Suc f)
  note bs = bsz_gt_1(2) [OF T]
  let ?N = "nblk T e" and ?j = "i div bsz T"
  define stop where "stop = min e (Suc ?j * bsz T)"
  have N: "?N = Suc ((e - 1) div bsz T)" using Suc.prems(4) bs by (simp add: nblk_pos)
  have jN: "?j < ?N" unfolding N using Suc.prems(4) by (simp add: div_le_mono le_imp_less_Suc)
  have j: "?j \<in> J" "blk ?j \<in> A" using J jN Suc.prems(3) by auto
  have i: "i < stop" "stop \<le> e" "stop \<le> Suc ?j * bsz T" using next_multiple [OF bs, of i] Suc.prems(4) by (simp_all add: stop_def)
  have run: "unat (of_nat stop - of_nat i :: 64 word) = stop - i" using i Suc.prems(5) by (intro unat_distance) auto
  have st: "stop_index T (of_nat i) (of_nat e) = of_nat stop" using stop_index_nat [OF T, of i e] Suc.prems(4,5) by (simp add: stop_def)
  obtain k m1 where k: "construct_run (stop - i) T E (Some (blk ?j)) (of_nat i) (map ctn [i..<e]) m =
      Ret (k = stop, of_nat k, map ctn [k..<e], m1)" "first_bad (raises E) ctn i k stop"
    "region T J blk (S \<union> {i..<k}) ctn own m1" "refilled A m m1"
    using construct_run_region [OF T j Suc.prems(1), of "stop - i" i e E] i by auto
  have ki: "i \<le> k" "k \<le> stop" using k(2) by (auto simp: first_bad_def)
  consider (bad) "k < stop" | (last) "k = stop" "?j = ?N - 1" | (more) "k = stop" "Suc ?j < ?N" using ki jN by linarith
  then show ?case
  proof cases
    case bad
    have "k div bsz T = ?j"
    proof (rule div_nat_eqI)
      show "bsz T * ?j \<le> k" using ki by (metis div_times_less_eq_dividend le_trans mult.commute)
      show "k < bsz T * Suc ?j" using bad i(3) by (simp add: mult.commute)
    qed
    then show ?thesis using bad k i(2) first_bad_extend [OF k(2) bad i(2)] st run by (intro exI [of _ k] exI [of _ m1]) simp
  next
    case last
    have "e \<le> Suc ?j * bsz T" using next_multiple [OF bs, of "e - 1"] Suc.prems(4) last(2) N by (simp, linarith)
    then have "stop = e" by (simp add: stop_def)
    then show ?thesis using last k st run by (intro exI [of _ k] exI [of _ m1]) simp
  next
    case more
    have "Suc ?j \<le> (e - 1) div bsz T" using more(2) N by simp
    then have "Suc ?j * bsz T \<le> e - 1" using bs by (simp only: less_eq_div_iff_mult_less_eq)
    then have stop: "stop = Suc ?j * bsz T" "stop < e" using Suc.prems(4) by (simp_all add: stop_def)
    have sd: "stop div bsz T = Suc ?j" unfolding stop(1) using bs by (rule nonzero_mult_div_cancel_right [OF gr_implies_not0])
    have "?N - 1 \<in> J" using J(1) Suc.prems(3) more(2) by auto
    then have ne: "blk ?j \<noteq> blk (?N - 1)" using inj_on_eq_iff [OF regionD(2) [OF Suc.prems(1)] j(1)] more(2) by auto
    have ch: "chained blk s ?N m1" by (rule chained_refilled [OF Suc.prems(2) k(4)])
    obtain b where b: "blocks m1 (blk ?j) = Some b" "blk_next b = Some (blk (Suc ?j))" using ch Suc.prems(3) more(2) by (auto simp: chained_def)
    have "s \<le> stop div bsz T" "e - stop < 2 ^ 63" "?N - stop div bsz T \<le> f" using Suc.prems(3,5,6) i(1) more(2) by (auto simp: sd)
    from Suc.IH [OF k(3) ch this(1) stop(2) this(2,3)] obtain k2 m2 where
      k2: "bulk_fill f T E (Some (blk (?N - 1))) (of_nat stop) (of_nat e) (map ctn [stop..<e]) (Some (blk (Suc ?j))) m1 =
        Ret (k2 = e, of_nat k2, Some (blk (if k2 = e then ?N - 1 else k2 div bsz T)), m2)" "first_bad (raises E) ctn stop k2 e"
      "region T J blk (S \<union> {i..<k} \<union> {stop..<k2}) ctn own m2" "refilled A m1 m2" unfolding sd by blast
    have "S \<union> {i..<k} \<union> {stop..<k2} = S \<union> {i..<k2}" using more(1) ki k2(2) i(1) by (auto simp: first_bad_def)
    moreover have "first_bad (raises E) ctn i k2 e" using first_bad_trans [OF _ k2(2)] k(2) more(1) by blast
    ultimately show ?thesis using more(1) k(1) k2 st run ne b refilled_trans [OF k(4) k2(4)]
      by (intro exI [of _ k2] exI [of _ m2]) (simp add: with_block_def)
  qed
qed

lemma bulk_destroy_region:
  assumes T: "traits_ok T" and J: "{s..<N} \<subseteq> J" "blk ` {s..<N} \<subseteq> A" and c: "c div bsz T < N"
  shows "region T J blk S ctn own m \<Longrightarrow> chained blk s N m \<Longrightarrow> s \<le> i div bsz T \<Longrightarrow> i \<le> c \<Longrightarrow> c - i < 2 ^ 63 \<Longrightarrow> {i..<c} \<subseteq> S \<Longrightarrow>
    c div bsz T - i div bsz T < f \<Longrightarrow>
    \<exists>m'. bulk_destroy f T (Some (blk (i div bsz T))) (Some (blk (c div bsz T))) (of_nat i) (of_nat c) m = Ret m' \<and>
      region T J blk (S - {i..<c}) ctn own m' \<and> refilled A m m'"
proof (induction f arbitrary: i S m)
  case (Suc f)
  note bs = bsz_gt_1(2) [OF T]
  let ?j = "i div bsz T"
  define stop where "stop = min c (Suc ?j * bsz T)"
  have jc: "?j \<le> c div bsz T" using Suc.prems(4) by (rule div_le_mono)
  have j: "?j \<in> J" "blk ?j \<in> A" using J jc c Suc.prems(3) by auto
  have i: "i \<le> stop" "stop \<le> c" "stop \<le> Suc ?j * bsz T" using next_multiple [OF bs, of i] Suc.prems(4) by (simp_all add: stop_def)
  have run: "unat (of_nat stop - of_nat i :: 64 word) = stop - i" using i Suc.prems(5) by (intro unat_distance) auto
  have st: "stop_index T (of_nat i) (of_nat c) = of_nat stop" using stop_index_nat [OF T, of i c] Suc.prems(4,5) by (simp add: stop_def)
  have "{i..<stop} \<subseteq> {i..<c}" using i(2) by auto
  then have sub: "{i..<stop} \<subseteq> S" using Suc.prems(6) by (rule subset_trans)
  obtain m1 where m1: "destroy_run (stop - i) T (Some (blk ?j)) (of_nat i) m = Ret m1"
    "region T J blk (S - {i..<stop}) ctn own m1" "refilled A m m1"
    using destroy_run_region [OF T j Suc.prems(1), of "stop - i" i] i sub by auto
  show ?case
  proof (cases "?j = c div bsz T")
    case True
    then have "stop = c" using next_multiple [OF bs, of c] by (simp add: stop_def)
    then show ?thesis using m1 True st run by simp
  next
    case False
    then have lt: "Suc ?j \<le> c div bsz T" using jc by simp
    then have "Suc ?j * bsz T \<le> c" using bs by (simp only: less_eq_div_iff_mult_less_eq)
    then have stop: "stop = Suc ?j * bsz T" by (simp add: stop_def)
    have sd: "stop div bsz T = Suc ?j" unfolding stop using bs by (rule nonzero_mult_div_cancel_right [OF gr_implies_not0])
    have "c div bsz T \<in> J" using J(1) Suc.prems(3) jc c by auto
    then have ne: "blk ?j \<noteq> blk (c div bsz T)" using inj_on_eq_iff [OF regionD(2) [OF Suc.prems(1)] j(1)] False by auto
    have ch: "chained blk s N m1" by (rule chained_refilled [OF Suc.prems(2) m1(3)])
    obtain b where b: "blocks m1 (blk ?j) = Some b" "blk_next b = Some (blk (Suc ?j))" using ch Suc.prems(3) lt c by (auto simp: chained_def)
    have "s \<le> stop div bsz T" "c - stop < 2 ^ 63" "c div bsz T - stop div bsz T < f" using Suc.prems(3,5,7) i(1) lt by (auto simp: sd)
    moreover have "{stop..<c} \<subseteq> S - {i..<stop}" using Suc.prems(6) i(1) by auto
    ultimately obtain m2 where m2: "bulk_destroy f T (Some (blk (Suc ?j))) (Some (blk (c div bsz T))) (of_nat stop) (of_nat c) m1 = Ret m2"
      "region T J blk (S - {i..<stop} - {stop..<c}) ctn own m2" "refilled A m1 m2"
      using Suc.IH [OF m1(2) ch, of stop] i(2) unfolding sd by blast
    have "S - {i..<stop} - {stop..<c} = S - {i..<c}" using i by auto
    then show ?thesis using m1(1) m2 st run ne b refilled_trans [OF m1(3) m2(3)] by (simp add: with_block_def)
  qed
qed simp

end
