(* ===== verification/CQ_Implicit_Take.thy ===== *)
theory CQ_Implicit_Take
  imports CQ_Runs
begin

text \<open>
  What a bulk dequeue of an implicit producer does to its content: the loop goes block by block through the
  index, and after a throw it destroys the rest of the range all the same.
\<close>

section \<open>Bulk dequeue\<close>

text \<open>The producer as it was when index \<open>i\<close> was the next to be taken.\<close>

definition rewound :: "nat \<Rightarrow> implicit_producer \<Rightarrow> implicit_producer" where
  "rewound i q = q\<lparr>headIndex := of_nat i, dequeueOptimisticCount := of_nat i + dequeueOvercommit q\<rparr>"

lemma rewound_simps [simp]:
  "headIndex (rewound i q) = of_nat i" "tailIndex (rewound i q) = tailIndex q" "tailBlock (rewound i q) = tailBlock q"
  "blockIndex (rewound i q) = blockIndex q" "entries (rewound i q) = entries q" "nextBlockIndexCapacity (rewound i q) = nextBlockIndexCapacity q"
  "dequeueOptimisticCount (rewound i q) - dequeueOvercommit (rewound i q) = of_nat i" "indexed T (rewound i q) L N blk = indexed T q L N blk"
  by (simp_all add: rewound_def indexed_def)

lemma imp_inv_rewound:
  assumes "headIndex q = of_nat i" and "dequeueOptimisticCount q - dequeueOvercommit q = of_nat i"
  shows "imp_inv T (rewound i q) m i Tl blk ctn = imp_inv T q m i Tl blk ctn"
  using assms by (simp add: imp_inv_def)

text \<open>The elements up to \<open>n\<close> have left, and with them the blocks that held nothing else.\<close>

definition advanced ::
  "traits \<Rightarrow> implicit_producer \<Rightarrow> 'd mem \<Rightarrow> nat \<Rightarrow> nat \<Rightarrow> (nat \<Rightarrow> nat) \<Rightarrow> (nat \<Rightarrow> 'd) \<Rightarrow> nat set \<Rightarrow> nat \<Rightarrow>
   implicit_producer \<Rightarrow> 'd mem \<Rightarrow> bool" where
  "advanced T q m i Tl blk ctn own n p' m' \<longleftrightarrow> imp_inv T (rewound n p') m' n Tl blk ctn \<and>
     mem_inv m' (own - blk ` live T i Tl \<union> blk ` live T n Tl) \<and> (\<forall>b \<in> own - blk ` live T i Tl. blocks m' b = blocks m b) \<and>
     same_base p' q \<and> blockIndex p' = blockIndex q"

lemma live_later: "i \<le> n \<Longrightarrow> live T n Tl \<subseteq> live T i Tl"
  using div_le_mono [of i n "bsz T"] by auto

lemma advanced_trans:
  assumes "advanced T q m i Tl blk ctn own n q1 m1" and "advanced T q1 m1 n Tl blk ctn (own - blk ` live T i Tl \<union> blk ` live T n Tl) e p' m'"
    and "blk ` live T i Tl \<subseteq> own" and "i \<le> n" and "n \<le> e"
  shows "advanced T q m i Tl blk ctn own e p' m'"
proof -
  have sub: "blk ` live T n Tl \<subseteq> blk ` live T i Tl" using live_later [OF assms(4)] by (rule image_mono)
  then have own: "own - blk ` live T i Tl \<union> blk ` live T n Tl - blk ` live T n Tl = own - blk ` live T i Tl" by auto
  show ?thesis using assms(1,2) unfolding advanced_def own by (auto intro: same_base_trans)
qed

lemma imp_region:
  assumes "imp_inv T p m H Tl blk ctn" and "mem_inv m own" and "blk ` live T H Tl \<subseteq> own"
  shows "region T (live T H Tl) blk {H..<Tl} ctn own m"
proof -
  have "\<exists>b. blocks m (blk j) = Some b \<and> cells T {H..<Tl} ctn j b" if "j \<in> live T H Tl" for j
    using imp_invD(8) [OF assms(1) that] by (auto simp: block_holds_def cells_def)
  with assms(2,3) imp_invD(7) [OF assms(1)] show ?thesis by (simp add: region_def)
qed

text \<open>The places of consecutive blocks in the index follow each other.\<close>

lemma ring_pos_next: "Suc j < N \<Longrightarrow> N - j \<le> cap \<Longrightarrow> tail < cap \<Longrightarrow> Suc (ring_pos cap tail N j) mod cap = ring_pos cap tail N (Suc j)"
proof -
  assume "Suc j < N" "N - j \<le> cap" "tail < cap"
  then have "Suc (tail + cap - (N - 1 - j)) = tail + cap - (N - 1 - Suc j)" by linarith
  then show ?thesis unfolding ring_pos_def mod_Suc_eq by (rule arg_cong)
qed

lemma ring_next_word:
  fixes cap :: "64 word"
  assumes "unat cap = 2 ^ c" and "cap = 2 ^ c" and "c < 64" and "Suc j < N" "N - j \<le> unat cap" "t < unat cap"
  shows "(of_nat (ring_pos (unat cap) t N j) + 1) AND (cap - 1) = (of_nat (ring_pos (unat cap) t N (Suc j)) :: 64 word)"
proof -
  have "(of_nat (ring_pos (unat cap) t N j) + 1) AND (cap - 1) = (of_nat (Suc (ring_pos (unat cap) t N j) mod 2 ^ c) :: 64 word)"
    using and_mask_nat [of c "Suc (ring_pos (unat cap) t N j)"] assms(3) unfolding assms(2) by (simp add: add.commute)
  also have "Suc (ring_pos (unat cap) t N j) mod 2 ^ c = ring_pos (unat cap) t N (Suc j)"
    using ring_pos_next [OF assms(4-6)] assms(1) by simp
  finally show ?thesis .
qed

lemma next_place_ok:
  assumes "blockIndex q = h # hs" and ok: "index_ok T h es L N blk" and j: "L \<le> j" "Suc j < N"
  shows "next_place (of_nat (ring_pos (unat (capacity h)) (unat (bi_tail h)) N j)) q =
    Ret (of_nat (ring_pos (unat (capacity h)) (unat (bi_tail h)) N (Suc j)))"
proof -
  obtain c where c: "unat (capacity h) = 2 ^ c" "capacity h = 2 ^ c" "c < 64" using index_ok_cap [OF ok] by blast
  show ?thesis using ring_next_word [OF c j(2), of "unat (bi_tail h)"] index_okD(4,5) [OF ok] j(1) assms(1) by (simp add: next_place_def)
qed

lemma implicit_block_at_ok:
  assumes "blockIndex q = h # hs" and ok: "index_ok T h (entries q) L N blk" and j: "L \<le> j" "j < N"
  shows "implicit_block_at (of_nat (ring_pos (unat (capacity h)) (unat (bi_tail h)) N j)) q =
    Ret (index h ! ring_pos (unat (capacity h)) (unat (bi_tail h)) N j, blk j)"
proof -
  note D = index_okD [OF ok]
  have lt: "ring_pos (unat (capacity h)) (unat (bi_tail h)) N j < unat (capacity h)" by (rule ring_pos_less [OF D(1)])
  then have "unat (of_nat (ring_pos (unat (capacity h)) (unat (bi_tail h)) N j) :: 64 word) = ring_pos (unat (capacity h)) (unat (bi_tail h)) N j"
    using unat_lt_64 [of "capacity h"] by (intro unat_of_nat_64) simp
  then show ?thesis using assms(1) D(2) D(6) [OF lt] D(7) [OF j] lt by (simp add: implicit_block_at_def nth_out_def)
qed

text \<open>Marking what was taken out of one block.\<close>

lemma block_end_div:
  assumes "0 < b" and "j = i div b" and "i \<le> n" and "n \<le> Suc j * b"
  shows "n div b = (if n = Suc j * b then Suc j else (j :: nat))"
proof (cases "n = Suc j * b")
  case True
  then show ?thesis using assms(1) nonzero_mult_div_cancel_right [of b "Suc j"] by simp
next
  case False
  have "b * j \<le> i" using assms(2) by simp
  then show ?thesis using False assms(3,4) by (intro div_nat_eqI) (auto simp: mult.commute)
qed

lemma imp_index:
  assumes "imp_inv T q m i Tl blk ctn" and "blockIndex q = h # hs"
  shows "index_ok T h (entries q) (i div bsz T) (nblk T Tl) blk" "nextBlockIndexCapacity q = push_bit 1 (capacity h)"
  using imp_invD(9) [OF assms(1)] assms(2) by (auto simp: indexed_def split: if_splits)

text \<open>The blocks after the elements up to \<open>n\<close> have been destroyed and counted.\<close>

lemma counted_blocks:
  assumes T: "traits_ok T" and inv: "imp_inv T q m i Tl blk ctn" and i: "i < Tl" "i \<le> n" "n \<le> Suc (i div bsz T) * bsz T"
    and reg: "region T (live T i Tl) blk {n..<Tl} ctn own m1" and ref: "refilled A m m1"
    and m2: "blocks m2 = (blocks m1)(blk (i div bsz T) \<mapsto> b2)" and b2: "b2 = b1\<lparr>elementsCompletelyDequeued := of_nat (n - i div bsz T * bsz T)\<rparr>"
    and b1: "blocks m1 (blk (i div bsz T)) = Some b1"
  shows "\<And>j. j \<in> live T i Tl \<Longrightarrow> \<exists>b. blocks m2 (blk j) = Some b \<and> block_holds T n Tl ctn j b"
proof -
  note bs = bsz_gt_1(2) [OF T]
  let ?j = "i div bsz T"
  have live: "?j \<in> live T i Tl" by (rule live_Suc(1) [OF i(1) bs])
  fix j assume j: "j \<in> live T i Tl"
  obtain c where c: "blocks m1 (blk j) = Some c" "cells T {n..<Tl} ctn j c" using regionD(4) [OF reg j] by blast
  show "\<exists>b. blocks m2 (blk j) = Some b \<and> block_holds T n Tl ctn j b"
  proof (cases "j = ?j")
    case True
    then show ?thesis using c b1 by (simp add: m2 b2 block_holds_def cells_def)
  next
    case False
    then have ne: "blk j \<noteq> blk ?j" using inj_on_eq_iff [OF regionD(2) [OF reg] j live] by simp
    obtain b0 where b0: "blocks m (blk j) = Some b0" "block_holds T i Tl ctn j b0" using imp_invD(8) [OF inv j] by blast
    have "Suc ?j * bsz T \<le> j * bsz T" using False j by (intro mult_le_mono1) simp
    then have "n - j * bsz T = 0" "i - j * bsz T = 0" using i(2,3) by simp_all
    moreover have "elementsCompletelyDequeued c = elementsCompletelyDequeued b0" using refilledD [OF ref b0(1)] c(1) by (metis option.inject)
    ultimately show ?thesis using c b0(2) ne by (simp add: m2 block_holds_def cells_def)
  qed
qed

lemma implicit_mark_spec:
  assumes T: "traits_ok T" and inv: "imp_inv T (rewound i q) m i Tl blk ctn" and mem: "mem_inv m own" and sub: "blk ` live T i Tl \<subseteq> own"
    and i: "i < Tl" "i \<le> n" "n \<le> Tl" "n \<le> Suc (i div bsz T) * bsz T"
    and reg: "region T (live T i Tl) blk {n..<Tl} ctn own m1" and ref: "refilled (blk ` live T i Tl) m m1"
    and h: "blockIndex q = h # hs" and e: "e = index h ! ring_pos (unat (capacity h)) (unat (bi_tail h)) (nblk T Tl) (i div bsz T)"
  shows "\<exists>p' m'. implicit_mark T (of_nat i) (of_nat (n - i)) e (blk (i div bsz T)) q m1 = Ret (p', m') \<and>
    advanced T q m i Tl blk ctn own n p' m'"
proof -
  note I = imp_invD [OF inv] and bs = bsz_gt_1(2) [OF T] and X = imp_index [OF inv, unfolded rewound_simps, OF h]
  let ?j = "i div bsz T"
  have live: "?j \<in> live T i Tl" by (rule live_Suc(1) [OF i(1) bs])
  have own: "blk ?j \<in> own" using sub live by blast
  obtain b1 where b1: "blocks m1 (blk ?j) = Some b1" "cells T {n..<Tl} ctn ?j b1" using regionD(4) [OF reg live] by blast
  obtain b0 where b0: "blocks m (blk ?j) = Some b0" "block_holds T i Tl ctn ?j b0" using I(8) [OF live] by blast
  have jb: "?j * bsz T \<le> i" by (rule div_times_less_eq_dividend)
  have "elementsCompletelyDequeued b1 = elementsCompletelyDequeued b0" using refilledD [OF ref b0(1)] b1(1) by (metis option.inject)
  then have cnt: "elementsCompletelyDequeued b1 + of_nat (n - i) = of_nat (n - ?j * bsz T)"
    using b0(2) jb i(2) unfolding block_holds_def by (simp only: of_nat_add [symmetric]) simp
  have "n - ?j * bsz T \<le> bsz T" using i(4) by (simp add: algebra_simps)
  then have "unat (of_nat (n - ?j * bsz T) :: 64 word) = n - ?j * bsz T" using unat_lt_64 [of "BLOCK_SIZE T"] by (intro unat_of_nat_64) simp
  then have "of_nat (n - ?j * bsz T) = BLOCK_SIZE T \<longleftrightarrow> n - ?j * bsz T = bsz T" by (simp only: word_unat_eq_iff)
  moreover have "n - ?j * bsz T = bsz T \<longleftrightarrow> n = Suc ?j * bsz T" using jb i(2) bs by (simp only: mult_Suc) linarith
  ultimately have full: "of_nat (n - ?j * bsz T) = BLOCK_SIZE T \<longleftrightarrow> n = Suc ?j * bsz T" by (rule trans)
  define b2 where "b2 = b1\<lparr>elementsCompletelyDequeued := of_nat (n - ?j * bsz T)\<rparr>"
  let ?m = "put_block (blk ?j) b2 m1"
  have "freeListRefs b2 = 0" using pool.used [OF regionD(1) [OF reg] own] b1(1) by (auto simp: b2_def)
  then have mem': "mem_inv ?m own" "blocks ?m = (blocks m1)(blk ?j \<mapsto> b2)" using pool.put_used [OF regionD(1) [OF reg] own] by auto
  note held = counted_blocks [OF T inv i(1,2,4) reg ref mem'(2) b2_def b1(1)]
  have run: "implicit_mark T (of_nat i) (of_nat (n - i)) e (blk ?j) q m1 =
      (if n = Suc ?j * bsz T then and_then (add_block_to_free_list (blk ?j) ?m) (\<lambda>m2. Ret (set_entry_value e None q, m2)) else Ret (q, ?m))"
    unfolding implicit_mark_def mark_many_def with_block_def b1(1)
    by (simp add: set_many_empty_def by_flags_def cnt full b2_def Let_def)
  have old: "\<forall>b \<in> own - blk ` live T i Tl. blocks ?m b = blocks m b" using ref mem'(2) live by (auto simp: refilled_def)
  have ndiv: "n div bsz T = (if n = Suc ?j * bsz T then Suc ?j else ?j)" by (rule block_end_div [OF bs refl i(2,4)])
  have base: "imp_inv T (rewound n p') m' n Tl blk ctn"
    if "p' = q \<or> p' = set_entry_value e None q" "indexed T p' (n div bsz T) (nblk T Tl) blk"
      "\<And>j. j \<in> live T n Tl \<Longrightarrow> \<exists>b. blocks m' (blk j) = Some b \<and> block_holds T n Tl ctn j b" for p' m'
    unfolding imp_inv_def
  proof (intro conjI)
    show "inj_on blk (live T n Tl)" using I(7) live_later [OF i(2)] by (rule inj_on_subset)
    show "nblk T Tl * bsz T < n + 2 ^ 63" using I(5) i(2) by linarith
    show "if blockIndex (rewound n p') = [] then Tl = 0 else indexed T (rewound n p') (n div bsz T) (nblk T Tl) blk"
      using that(2) by (auto simp: indexed_def)
  qed (use that I i in \<open>auto simp: set_entry_value_def set_entry_def\<close>)
  show ?thesis
  proof (cases "n = Suc ?j * bsz T")
    case True
    have nd: "n div bsz T = Suc ?j" by (metis ndiv True)
    have "blank b2"
    proof -
      have "\<not> (s < bsz T \<and> n \<le> ?j * bsz T + s)" for s using True by simp
      then show ?thesis using b1(2) by (auto simp: cells_def blank_def b2_def)
    qed
    then obtain m3 where m3: "add_block_to_free_list (blk ?j) ?m = Ret m3" "mem_inv m3 (own - {blk ?j})"
      "\<forall>b \<in> own - {blk ?j}. blocks m3 b = blocks ?m b" using pool.give_back [OF mem'(1) own, of b2] mem'(2) by auto
    have live': "live T n Tl = live T i Tl - {?j}" using True ndiv by auto
    then have own': "own - blk ` live T i Tl \<union> blk ` live T n Tl = own - {blk ?j}"
      using sub live inj_on_eq_iff [OF I(7)] by auto
    have "indexed T (set_entry_value e None q) (n div bsz T) (nblk T Tl) blk"
      using index_drop [OF X(1) _ e] live h X(2) unfolding nd by (simp add: indexed_def set_entry_value_def set_entry_def)
    moreover have "\<exists>b. blocks m3 (blk j) = Some b \<and> block_holds T n Tl ctn j b" if "j \<in> live T n Tl" for j
    proof -
      have j: "j \<in> live T i Tl" "blk j \<in> own - {blk ?j}" using that live' sub live inj_on_eq_iff [OF I(7)] by auto
      then show ?thesis using held [OF j(1)] m3(3) by simp
    qed
    ultimately have "imp_inv T (rewound n (set_entry_value e None q)) m3 n Tl blk ctn" by (intro base) auto
    moreover have "\<forall>b \<in> own - blk ` live T i Tl. blocks m3 b = blocks m b" using m3(3) old imageI [OF live, of blk] by (metis Diff_iff singletonD)
    ultimately show ?thesis using m3(1,2) True unfolding advanced_def own' run
      by (simp add: set_entry_value_def set_entry_def)
  next
    case False
    then have live': "live T n Tl = live T i Tl" by (simp add: ndiv)
    have own': "own - blk ` live T i Tl \<union> blk ` live T n Tl = own" using sub unfolding live' by auto
    have "indexed T q (n div bsz T) (nblk T Tl) blk" using X h False by (simp add: indexed_def ndiv)
    moreover have "\<exists>b. blocks ?m (blk j) = Some b \<and> block_holds T n Tl ctn j b" if "j \<in> live T n Tl" for j
      using held that unfolding live' by blast
    ultimately have "imp_inv T (rewound n q) ?m n Tl blk ctn" by (intro base) auto
    then show ?thesis using mem'(1) old False unfolding advanced_def own' run by simp
  qed
qed

text \<open>The word that a loop compares at the end of a block, and the block it goes to next.\<close>

lemma of_nat_eq_near: "n \<le> e \<Longrightarrow> e - n < 2 ^ 64 \<Longrightarrow> (of_nat n :: 64 word) = of_nat e \<longleftrightarrow> n = e"
  by (metis diff_is_0_eq diff_self le_antisym unat_0 unat_distance)

lemma next_block:
  assumes "0 < bsz T" and "n = min e (Suc j * bsz T)" and "n \<noteq> e" and "e \<le> Tl"
  shows "n div bsz T = Suc j" "Suc j < nblk T Tl" "n < e"
proof -
  have n: "n = Suc j * bsz T" "n < e" using assms(2,3) by (auto simp: min_def split: if_splits)
  then show "n < e" by simp
  show nd: "n div bsz T = Suc j" using assms(1) nonzero_mult_div_cancel_right [of "bsz T" "Suc j"] n(1) by simp
  have "n div bsz T \<le> (Tl - 1) div bsz T" using n(2) assms(4) by (intro div_le_mono) linarith
  then show "Suc j < nblk T Tl" using nblk_pos [OF assms(1), of Tl] n(2) assms(4) nd by simp
qed

lemma same_block:
  assumes "0 < b" and "s \<le> i" and "i < n" and "n \<le> Suc (s div b) * (b :: nat)"
  shows "i div b = s div b"
proof (rule div_nat_eqI)
  show "b * (s div b) \<le> i" using assms(2) times_div_less_eq_dividend [of b s] by linarith
  show "i < b * Suc (s div b)" using assms(3,4) by (simp add: mult.commute)
qed

lemma implicit_abandon_spec:
  assumes T: "traits_ok T" and e: "e \<le> Tl"
  shows "imp_inv T (rewound s q) m0 s Tl blk ctn \<Longrightarrow> mem_inv m0 own \<Longrightarrow> blk ` live T s Tl \<subseteq> own \<Longrightarrow> blockIndex q = h # hs \<Longrightarrow>
    s < Tl \<Longrightarrow> s \<le> i \<Longrightarrow> i \<le> n \<Longrightarrow> n = min e (Suc (s div bsz T) * bsz T) \<Longrightarrow> e - s < 2 ^ 63 \<Longrightarrow>
    region T (live T s Tl) blk {i..<Tl} ctn own m \<Longrightarrow> refilled (blk ` live T s Tl) m0 m \<Longrightarrow> e - s < f \<Longrightarrow>
    \<exists>p' m'. implicit_abandon f T (of_nat (ring_pos (unat (capacity h)) (unat (bi_tail h)) (nblk T Tl) (s div bsz T))) (of_nat s) (of_nat i) (of_nat n)
        (of_nat e) q m = Ret (p', m') \<and> advanced T q m0 s Tl blk ctn own e p' m'"
proof (induction f arbitrary: s i n q m0 m own)
  case (Suc f)
  note bs = bsz_gt_1(2) [OF T] and h = Suc.prems(4)
  note X = imp_index [OF Suc.prems(1), unfolded rewound_simps, OF h]
  let ?j = "s div bsz T" and ?N = "nblk T Tl"
  let ?pos = "ring_pos (unat (capacity h)) (unat (bi_tail h)) ?N"
  have live: "?j \<in> live T s Tl" by (rule live_Suc(1) [OF Suc.prems(5) bs])
  have n: "n \<le> e" "n \<le> Suc ?j * bsz T" using Suc.prems(8) by simp_all
  have at: "implicit_block_at (of_nat (?pos ?j)) q = Ret (index h ! ?pos ?j, blk ?j)"
    using implicit_block_at_ok [OF h X(1)] live by simp
  have i: "n - i \<noteq> 0 \<longrightarrow> i div bsz T = ?j" using same_block [OF bs Suc.prems(6) _ n(2)] by simp
  have sub: "{i..<n - i + i} \<subseteq> {i..<Tl}" using n(1) e Suc.prems(7) by auto
  have blk_j: "blk ?j \<in> blk ` live T s Tl" using live by (rule imageI)
  obtain m1 where m1: "destroy_run (n - i) T (Some (blk ?j)) (of_nat i) m = Ret m1"
    "region T (live T s Tl) blk ({i..<Tl} - {i..<n - i + i}) ctn own m1" "refilled (blk ` live T s Tl) m m1"
    using destroy_run_region [OF T live blk_j Suc.prems(10) i _ sub] n(2) Suc.prems(7) by auto
  have rest: "{i..<Tl} - {i..<n - i + i} = {n..<Tl}" using Suc.prems(7) by auto
  have sn: "s \<le> n" "n \<le> Tl" using Suc.prems(6,7) n(1) e by auto
  obtain p1 m2 where adv: "implicit_mark T (of_nat s) (of_nat (n - s)) (index h ! ?pos ?j) (blk ?j) q m1 = Ret (p1, m2)"
    "advanced T q m0 s Tl blk ctn own n p1 m2"
    using implicit_mark_spec [OF T Suc.prems(1-3,5) sn n(2) m1(2) [unfolded rest] refilled_trans [OF Suc.prems(11) m1(3)] h refl] by blast
  have run: "unat (of_nat n - of_nat i :: 64 word) = n - i" "of_nat n - of_nat s = (of_nat (n - s) :: 64 word)"
    "(of_nat n :: 64 word) = of_nat e \<longleftrightarrow> n = e"
    using Suc.prems(6,7,9) n(1) by (auto intro!: unat_distance of_nat_eq_near simp: of_nat_diff)
  show ?case
  proof (cases "n = e")
    case True
    then show ?thesis using adv at m1(1) run by simp
  next
    case False
    note nx = next_block [OF bs Suc.prems(8) False e]
    have p1: "blockIndex p1 = h # hs" using adv(2) h by (simp add: advanced_def)
    have pl: "next_place (of_nat (?pos ?j)) p1 = Ret (of_nat (?pos (Suc ?j)))" using next_place_ok [OF p1 X(1) _ nx(2)] by simp
    let ?own = "own - blk ` live T s Tl \<union> blk ` live T n Tl"
    have inv: "imp_inv T (rewound n p1) m2 n Tl blk ctn" "mem_inv m2 ?own" using adv(2) by (auto simp: advanced_def)
    have "e - n < 2 ^ 63" "e - n < f" using Suc.prems(9,12) sn(1) nx(3) Suc.prems(6,8) next_multiple [OF bs, of s] by auto
    from Suc.IH [OF inv Un_upper2 p1 _ le_refl _ refl this(1) imp_region [OF inv(1,2) Un_upper2, unfolded rewound_simps] refilled_refl this(2)]
    obtain p2 m3 where "implicit_abandon f T (of_nat (?pos (Suc ?j))) (of_nat n) (of_nat n) (of_nat (min e (Suc (n div bsz T) * bsz T))) (of_nat e) p1 m2 = Ret (p2, m3)"
      "advanced T p1 m2 n Tl blk ctn ?own e p2 m3" using nx e next_multiple [OF bs, of n] by auto
    moreover have "stop_index T (of_nat n) (of_nat e) = of_nat (min e (Suc (n div bsz T) * bsz T))"
      using stop_index_nat [OF T, of n e] n(1) \<open>e - n < 2 ^ 63\<close> by simp
    ultimately show ?thesis using advanced_trans [OF adv(2) _ Suc.prems(3) sn(1) n(1)] at m1(1) run pl adv(1) False by auto
  qed
qed simp

lemma implicit_take_spec:
  assumes T: "traits_ok T" and e: "e \<le> Tl"
  shows "imp_inv T (rewound i q) m i Tl blk ctn \<Longrightarrow> mem_inv m own \<Longrightarrow> blk ` live T i Tl \<subseteq> own \<Longrightarrow> blockIndex q = h # hs \<Longrightarrow>
    i < Tl \<Longrightarrow> i \<le> e \<Longrightarrow> e - i < 2 ^ 63 \<Longrightarrow> Suc (e - i) < f \<Longrightarrow>
    \<exists>k p' m'. implicit_take f T E (of_nat (ring_pos (unat (capacity h)) (unat (bi_tail h)) (nblk T Tl) (i div bsz T))) (of_nat i) (of_nat e) q m =
        Ret (map ctn [i..<k], k < e, p', m') \<and> first_bad (assign_raises E) ctn i k e \<and> advanced T q m i Tl blk ctn own e p' m'"
proof (induction f arbitrary: i q m own)
  case (Suc f)
  note bs = bsz_gt_1(2) [OF T] and h = Suc.prems(4)
  note X = imp_index [OF Suc.prems(1), unfolded rewound_simps, OF h]
  let ?j = "i div bsz T" and ?N = "nblk T Tl"
  let ?pos = "ring_pos (unat (capacity h)) (unat (bi_tail h)) ?N"
  define n where "n = min e (Suc ?j * bsz T)"
  have live: "?j \<in> live T i Tl" by (rule live_Suc(1) [OF Suc.prems(5) bs])
  have n: "n \<le> e" "n \<le> Suc ?j * bsz T" "i \<le> n" "n \<le> Tl"
    using next_multiple [OF bs, of i] Suc.prems(6) e by (simp_all add: n_def)
  have st: "stop_index T (of_nat i) (of_nat e) = of_nat n" using stop_index_nat [OF T Suc.prems(6,7)] by (simp add: n_def)
  have at: "implicit_block_at (of_nat (?pos ?j)) q = Ret (index h ! ?pos ?j, blk ?j)"
    using implicit_block_at_ok [OF h X(1)] live by simp
  have blk_j: "blk ?j \<in> blk ` live T i Tl" using live by (rule imageI)
  have sub: "{i..<n - i + i} \<subseteq> {i..<Tl}" using n by auto
  obtain k m1 where k: "take_run (n - i) T E (blk ?j) (of_nat i) m = Ret (map ctn [i..<k], k < n, of_nat k, m1)"
    "first_bad (assign_raises E) ctn i k n" "region T (live T i Tl) blk ({i..<Tl} - {i..<k}) ctn own m1" "refilled (blk ` live T i Tl) m m1"
    using take_run_region [OF T live blk_j imp_region [OF Suc.prems(1-3)] _ _ sub, of E] n(2,3) by auto
  have kn: "i \<le> k" "k \<le> n" using k(2) by (auto simp: first_bad_def)
  then have rest: "{i..<Tl} - {i..<k} = {k..<Tl}" by auto
  have run: "unat (of_nat n - of_nat i :: 64 word) = n - i" "of_nat n - of_nat i = (of_nat (n - i) :: 64 word)"
    "(of_nat n :: 64 word) = of_nat e \<longleftrightarrow> n = e"
    using Suc.prems(6,7) n by (auto intro!: unat_distance of_nat_eq_near simp: of_nat_diff)
  show ?case
  proof (cases "k < n")
    case True
    have "e - i < f" using Suc.prems(8) by simp
    from implicit_abandon_spec [OF T e Suc.prems(1-5) kn(1) kn(2) n_def Suc.prems(7) k(3) [unfolded rest] k(4) this]
    obtain p' m' where "implicit_abandon f T (of_nat (?pos ?j)) (of_nat i) (of_nat k) (of_nat n) (of_nat e) q m1 = Ret (p', m')"
      "advanced T q m i Tl blk ctn own e p' m'" by blast
    moreover have "k < e" "first_bad (assign_raises E) ctn i k e" using True n(1) first_bad_extend [OF k(2) True n(1)] by auto
    ultimately show ?thesis using True st at k(1) run(1) by (intro exI [of _ k] exI [of _ p'] exI [of _ m']) simp
  next
    case False
    then have kn': "k = n" using kn by simp
    obtain p1 m2 where adv: "implicit_mark T (of_nat i) (of_nat (n - i)) (index h ! ?pos ?j) (blk ?j) q m1 = Ret (p1, m2)"
      "advanced T q m i Tl blk ctn own n p1 m2"
      using implicit_mark_spec [OF T Suc.prems(1-3,5) n(3,4,2) k(3) [unfolded rest, unfolded kn'] k(4) h refl] by blast
    show ?thesis
    proof (cases "n = e")
      case True
      then show ?thesis using adv at k(1,2) run st kn' by (intro exI [of _ e] exI [of _ p1] exI [of _ m2]) simp
    next
      case ne: False
      note nx = next_block [OF bs n_def ne e]
      have p1: "blockIndex p1 = h # hs" using adv(2) h by (simp add: advanced_def)
      have pl: "next_place (of_nat (?pos ?j)) p1 = Ret (of_nat (?pos (Suc ?j)))" using next_place_ok [OF p1 X(1) _ nx(2)] by simp
      let ?own = "own - blk ` live T i Tl \<union> blk ` live T n Tl"
      have inv: "imp_inv T (rewound n p1) m2 n Tl blk ctn" "mem_inv m2 ?own" using adv(2) by (auto simp: advanced_def)
      have "i < n" using nx(3) next_multiple [OF bs, of i] by (simp add: n_def)
      then have "n < Tl" "e - n < 2 ^ 63" "Suc (e - n) < f" using Suc.prems(7,8) nx(3) e by auto
      from Suc.IH [OF inv Un_upper2 p1 this(1) n(1) this(2,3)] obtain k2 p2 m3 where
        k2: "implicit_take f T E (of_nat (?pos (Suc ?j))) (of_nat n) (of_nat e) p1 m2 = Ret (map ctn [n..<k2], k2 < e, p2, m3)"
        "first_bad (assign_raises E) ctn n k2 e" "advanced T p1 m2 n Tl blk ctn ?own e p2 m3" unfolding nx(1) by blast
      have "n \<le> k2" using k2(2) by (simp add: first_bad_def)
      then have "map ctn [i..<n] @ map ctn [n..<k2] = map ctn [i..<k2]" using n(3) by (metis le_Suc_ex map_append upt_add_eq_append)
      moreover have "first_bad (assign_raises E) ctn i k2 e" using first_bad_trans [OF _ k2(2)] k(2) kn' by blast
      ultimately show ?thesis using advanced_trans [OF adv(2) k2(3) Suc.prems(3) n(3,1)] at k(1) run pl adv(1) ne st kn' k2(1)
        by (intro exI [of _ k2] exI [of _ p2] exI [of _ m3]) simp
    qed
  qed
qed simp

text \<open>The elements that a bulk dequeue of \<open>n\<close> delivers: those before the first whose assignment throws.\<close>

definition delivered :: "'d elem_ops \<Rightarrow> nat \<Rightarrow> 'd list \<Rightarrow> 'd list" where
  "delivered E n xs = takeWhile (\<lambda>x. \<not> assign_raises E x) (take n xs)"

lemma first_bad_delivered:
  assumes "first_bad P ctn i k e"
  shows "takeWhile (\<lambda>x. \<not> P x) (map ctn [i..<e]) = map ctn [i..<k]" and "(\<exists>x \<in> set (map ctn [i..<e]). P x) \<longleftrightarrow> k < e"
proof -
  have k: "i \<le> k" "k \<le> e" "\<And>x. x \<in> set (map ctn [i..<k]) \<Longrightarrow> \<not> P x" "k < e \<Longrightarrow> P (ctn k)" using assms by (auto simp: first_bad_def)
  have "map ctn [i..<e] = map ctn [i..<k] @ map ctn [k..<e]" using k(1,2) by (metis le_Suc_ex map_append upt_add_eq_append)
  moreover have "takeWhile (\<lambda>x. \<not> P x) (map ctn [k..<e]) = []"
    using k(4) by (cases "k < e") (simp_all add: upt_conv_Cons)
  ultimately show "takeWhile (\<lambda>x. \<not> P x) (map ctn [i..<e]) = map ctn [i..<k]"
    using takeWhile_append2 [of "map ctn [i..<k]" "\<lambda>x. \<not> P x" "map ctn [k..<e]"] k(3) by simp
  show "(\<exists>x \<in> set (map ctn [i..<e]). P x) \<longleftrightarrow> k < e" using k by (force simp: first_bad_def)
qed

lemma contents_parts:
  "e \<le> Tl \<Longrightarrow> H \<le> e \<Longrightarrow> take (e - H) (contents H Tl ctn) = map ctn [H..<e]" "drop n (contents H Tl ctn) = contents (H + n) Tl ctn"
  by (auto simp: contents_def take_map drop_map)

lemma implicit_dequeue_bulk_run:
  assumes "circular_less_than 0 D" and "tailIndex p - (dequeueOptimisticCount p - dequeueOvercommit p) = D" and c: "c = (if D < mx then D else mx)"
    and q: "q = p\<lparr>dequeueOptimisticCount := dequeueOptimisticCount p + c, headIndex := headIndex p + c\<rparr>"
  shows "implicit_dequeue_bulk T E mx p m =
    and_then (get_block_index_index_for_index T (headIndex p) q) (\<lambda>indexIndex.
    and_then (implicit_take (unat c + 2) T E indexIndex (headIndex p) (headIndex p + c) q m) (\<lambda>(els, threw, p4, m1).
      Ret (if threw then Exc else Val c, els, p4, m1)))"
proof -
  have "(if c < D then c else D) = c" unfolding c by auto
  with assms(1,2) show ?thesis by (simp add: implicit_dequeue_bulk_def q c [symmetric] del: implicit_take.simps) (simp add: Let_def del: implicit_take.simps)
qed

lemma implicit_dequeue_bulk_holds:
  assumes T: "traits_ok T" and "imp_holds T p m B xs" and mem: "mem_inv m own" and sub: "B \<subseteq> own"
    and n_def: "n = min (length xs) (unat mx)"
  shows "\<exists>p' m' B'. implicit_dequeue_bulk T E mx p m =
      Ret (if \<exists>x \<in> set (take n xs). assign_raises E x then Exc else Val (of_nat n), delivered E n xs, p', m') \<and>
    imp_holds T p' m' B' (drop n xs) \<and>
    mem_inv m' (own - B \<union> B') \<and> B' \<inter> (own - B) = {} \<and> (\<forall>b \<in> own - B. blocks m' b = blocks m b) \<and> same_links p' p"
proof -
  note bs = bsz_gt_1(2) [OF T]
  obtain H Tl blk ctn where inv: "imp_inv T p m H Tl blk ctn" and B: "B = blk ` live T H Tl" and xs: "xs = contents H Tl ctn"
    using assms(2) by (auto simp: imp_holds_def)
  note I = imp_invD [OF inv] and gap = imp_inv_gap(1) [OF inv bs]
  have len: "length xs = Tl - H" by (simp add: xs contents_def)
  have des: "tailIndex p - (dequeueOptimisticCount p - dequeueOvercommit p) = of_nat (Tl - H)" using I(2-4) by (simp add: of_nat_diff)
  have pos: "circular_less_than 0 (of_nat (Tl - H)) \<longleftrightarrow> H < Tl" using circular_less_than_ahead [of 0 "Tl - H"] gap by auto
  have un: "unat (of_nat (Tl - H) :: 64 word) = Tl - H" using gap by (intro unat_of_nat_64) simp
  show ?thesis
  proof (cases "H < Tl")
    case False
    then have "implicit_dequeue_bulk T E mx p m = Ret (Val 0, [], p, m)" using pos des by (simp add: implicit_dequeue_bulk_def Let_def)
    moreover have "xs = []" "own - B \<union> B = own" using False len sub by auto
    ultimately show ?thesis using assms(2) mem by (intro exI [of _ p] exI [of _ m] exI [of _ B]) (simp add: n_def delivered_def same_links_def)
  next
    case lt: True
    define e where "e = H + n"
    have e: "e \<le> Tl" "H \<le> e" "e - H = n" using lt by (simp_all add: e_def n_def len)
    have cnt: "(of_nat n :: 64 word) = (if of_nat (Tl - H) < mx then of_nat (Tl - H) else mx)"
      using un by (auto simp: word_less_nat_alt n_def len min_def)
    define q where "q = p\<lparr>dequeueOptimisticCount := dequeueOptimisticCount p + of_nat n, headIndex := headIndex p + of_nat n\<rparr>"
    obtain h hs where h: "blockIndex p = h # hs" using I(9) lt by (cases "blockIndex p") auto
    have rw: "rewound H q = rewound H p" by (simp add: q_def rewound_def)
    have inv': "imp_inv T (rewound H q) m H Tl blk ctn" unfolding rw using inv I(1,3) by (simp add: imp_inv_rewound)
    have h': "blockIndex q = h # hs" using h by (simp add: q_def)
    have "e - H < 2 ^ 63" "Suc (e - H) < n + 2" using gap e by auto
    from implicit_take_spec [OF T e(1) inv' mem sub [unfolded B] h' lt e(2) this] obtain k p' m' where
      k: "implicit_take (n + 2) T E (of_nat (ring_pos (unat (capacity h)) (unat (bi_tail h)) (nblk T Tl) (H div bsz T))) (of_nat H) (of_nat e) q m =
        Ret (map ctn [H..<k], k < e, p', m')" "first_bad (assign_raises E) ctn H k e" "advanced T q m H Tl blk ctn own e p' m'" by blast
    have look: "get_block_index_index_for_index T (of_nat H) q = Ret (of_nat (ring_pos (unat (capacity h)) (unat (bi_tail h)) (nblk T Tl) (H div bsz T)))"
      using lookup_place [OF T h'] imp_index [OF inv', unfolded rewound_simps, OF h'] live_Suc(1) [OF lt bs] by auto
    have "unat (of_nat n :: 64 word) = n" using gap lt e(1,3) by (intro unat_of_nat_64) simp
    then have "implicit_dequeue_bulk T E mx p m = Ret (if k < e then Exc else Val (of_nat n), map ctn [H..<k], p', m')"
      using implicit_dequeue_bulk_run [OF _ des cnt q_def, of T E m] lt pos look k(1) I(1) by (simp del: implicit_take.simps add: e_def)
    moreover have "take n xs = map ctn [H..<e]" "drop n xs = contents e Tl ctn"
      using contents_parts(1) [OF e(1,2), of ctn] contents_parts(2) [of n H Tl ctn] by (simp_all add: xs e(3) e_def)
    moreover have "same_base p' q" using k(3) by (simp add: advanced_def)
    note sb = same_base_simps [OF this]
    have "headIndex p' = of_nat e" "dequeueOptimisticCount p' - dequeueOvercommit p' = of_nat e"
      using I(1,3) unfolding sb by (simp_all add: q_def e_def algebra_simps)
    then have "imp_inv T p' m' e Tl blk ctn" using k(3) by (simp add: advanced_def imp_inv_rewound)
    then have "imp_holds T p' m' (blk ` live T e Tl) (contents e Tl ctn)" unfolding imp_holds_def by blast
    moreover have "blk ` live T e Tl \<subseteq> B" unfolding B using live_later [OF e(2)] by (rule image_mono)
    moreover have "same_links p' p" unfolding same_links_def sb by (simp add: q_def)
    ultimately show ?thesis using k(3) first_bad_delivered [OF k(2)] unfolding delivered_def advanced_def B
      by (intro exI [of _ p'] exI [of _ m'] exI [of _ "blk ` live T e Tl"]) auto
  qed
qed

end
