(* ===== verification/CQ_Implicit_Grow.thy ===== *)
theory CQ_Implicit_Grow
  imports CQ_Implicit_Take
begin

text \<open>
  What a bulk enqueue of an implicit producer does to its content: all blocks are taken and indexed first, then
  they are filled, and when a block cannot be had or a constructor throws everything is taken back.
\<close>

section \<open>Counting the blocks\<close>

lemma base_before:
  assumes T: "traits_ok T"
  shows "base_of T (of_nat t - 1) = of_nat (nblk T t * bsz T) - BLOCK_SIZE T"
proof (cases t)
  case 0
  have "- 1 AND NOT (BLOCK_SIZE T - 1) = - BLOCK_SIZE T" unfolding minus_eq_not_minus_1 [of "BLOCK_SIZE T"] by simp
  then show ?thesis using 0 nblk_0 [OF bsz_gt_1(2) [OF T]] by (simp add: base_of_def)
next
  case (Suc s)
  then show ?thesis using and_not_block_mask [OF T, of s]
    by (simp add: base_of_def nblk_Suc [OF bsz_gt_1(2) [OF T]] algebra_simps)
qed

lemma nblk_mono: "0 < bsz T \<Longrightarrow> t \<le> u \<Longrightarrow> nblk T t \<le> nblk T u"
  by (simp add: nblk_def div_le_mono)

lemma nblk_covers: "0 < bsz T \<Longrightarrow> t \<le> nblk T t * bsz T \<and> nblk T t * bsz T < t + bsz T"
proof -
  assume b: "0 < bsz T"
  show ?thesis
  proof (cases t)
    case (Suc s)
    then show ?thesis using next_multiple [OF b, of s] unfolding Suc nblk_Suc [OF b] by linarith
  qed (simp add: nblk_0 b)
qed

lemma bulk_diff_nat:
  assumes T: "traits_ok T" and "c < 2 ^ 63" and r: "r = nblk T (t + c) - nblk T t"
  shows "bulk_diff T (of_nat t) (of_nat c) = of_nat (r * bsz T)" "unat (bulk_diff T (of_nat t) (of_nat c)) = r * bsz T"
proof -
  note bs = bsz_gt_1(2) [OF T]
  have le: "nblk T t \<le> nblk T (t + c)" by (rule nblk_mono [OF bs]) simp
  have eq: "r * bsz T = nblk T (t + c) * bsz T - nblk T t * bsz T" by (simp add: r diff_mult_distrib)
  have "base_of T (of_nat (t + c) - 1) - base_of T (of_nat t - 1) = of_nat (nblk T (t + c) * bsz T) - of_nat (nblk T t * bsz T)"
    by (simp only: base_before [OF T]) simp
  also have "\<dots> = of_nat (r * bsz T)" unfolding eq using le by (simp only: of_nat_diff mult_le_mono1)
  finally show w: "bulk_diff T (of_nat t) (of_nat c) = of_nat (r * bsz T)" by (simp only: bulk_diff_def of_nat_add [symmetric])
  have "nblk T (t + c) * bsz T < t + c + bsz T" "t \<le> nblk T t * bsz T" using nblk_covers [OF bs] by blast+
  then have "r * bsz T < c + bsz T" unfolding eq using bs by linarith
  then have "r * bsz T < 2 ^ 64" using assms(2) bsz_small [OF T] by simp
  then show "unat (bulk_diff T (of_nat t) (of_nat c)) = r * bsz T" unfolding w by (rule unat_of_nat_64)
qed

section \<open>Giving the blocks back\<close>

text \<open>The place behind the tail, where the lookup goes when the tail has been rewound past it.\<close>

lemma ring_offset_up:
  assumes T: "traits_ok T" and "2 ^ c * bsz T \<le> 2 ^ 64" and "d < 2 ^ c"
  shows "(of_nat tail + (of_nat ((j + d) * bsz T) - of_nat (j * bsz T)) div BLOCK_SIZE T) AND (2 ^ c - 1)
    = (of_nat ((tail + d) mod 2 ^ c) :: 64 word)"
proof -
  note bs = bsz_gt_1(2) [OF T]
  have "of_nat ((j + d) * bsz T) - of_nat (j * bsz T) = (of_nat (d * bsz T) :: 64 word)" by (simp add: algebra_simps)
  moreover have "d * bsz T < 2 ^ 64" using mult_less_mono1 [OF assms(3) bs] assms(2) by linarith
  then have "unat (of_nat (d * bsz T) :: 64 word) = d * bsz T" by (rule unat_of_nat_64)
  then have "unat (of_nat (d * bsz T) div BLOCK_SIZE T :: 64 word) = d" using bs by (simp add: unat_div)
  then have "of_nat (d * bsz T) div BLOCK_SIZE T = (of_nat d :: 64 word)" by (rule word_eq_of_natI)
  ultimately have "of_nat tail + (of_nat ((j + d) * bsz T) - of_nat (j * bsz T)) div BLOCK_SIZE T = (of_nat (tail + d) :: 64 word)" by simp
  moreover have "c \<le> 64"
  proof (rule ccontr)
    assume "\<not> c \<le> 64"
    then have "(2 :: nat) ^ 64 < 2 ^ c" by (intro power_strict_increasing) auto
    also have "\<dots> \<le> 2 ^ c * bsz T" using bs by simp
    finally show False using assms(2) by simp
  qed
  ultimately show ?thesis using and_mask_nat [of c "tail + d"] by simp
qed

text \<open>
  The index after \<open>k\<close> rounds of the loop that takes \<open>n\<close> entries back, the last \<open>n\<close> of \<open>M\<close>: the values of the first
  \<open>k\<close> of them are gone and the tail has gone back \<open>k\<close> places.
\<close>

definition unindexed ::
  "BlockIndexHeader \<Rightarrow> BlockIndexHeader list \<Rightarrow> BlockIndexEntry list \<Rightarrow> implicit_producer \<Rightarrow> nat \<Rightarrow> nat \<Rightarrow> nat \<Rightarrow> implicit_producer \<Rightarrow> bool" where
  "unindexed h hs es p M n k q \<longleftrightarrow> same_base q p \<and> nextBlockIndexCapacity q = nextBlockIndexCapacity p \<and>
     blockIndex q = h\<lparr>bi_tail := of_nat ((unat (bi_tail h) + unat (capacity h) - k) mod unat (capacity h))\<rparr> # hs \<and>
     length (entries q) = length es \<and>
     (\<forall>i < unat (capacity h). entries q ! (index h ! i) =
        (if i \<in> ring_pos (unat (capacity h)) (unat (bi_tail h)) M ` {M - n..<M - n + k}
         then (es ! (index h ! i))\<lparr>entry_value := None\<rparr> else es ! (index h ! i)))"

lemma ring_back: "tail < cap \<Longrightarrow> k < cap \<Longrightarrow> ring_pos cap tail M (M - 1 - k) = (tail + cap - k) mod cap \<or> M \<le> k"
  by (auto simp: ring_pos_def)

lemma ring_forward:
  assumes "j \<le> i" "i < M" "M - j \<le> cap" "tail < cap"
  shows "(ring_pos cap tail M j + (i - j)) mod cap = ring_pos cap tail M i"
proof -
  have "tail + cap - (M - 1 - j) + (i - j) = tail + cap - (M - 1 - i)" using assms by linarith
  then show ?thesis unfolding ring_pos_def mod_add_left_eq by (rule arg_cong)
qed

lemma ring_backward:
  assumes "i \<le> j" "j < M" "M - i \<le> cap" "tail < cap"
  shows "(ring_pos cap tail M j + cap - (j - i)) mod cap = ring_pos cap tail M i"
proof -
  have le: "j - i \<le> cap" using assms by linarith
  have "(ring_pos cap tail M j + (cap - (j - i))) mod cap = (tail + cap - (M - 1 - j) + (cap - (j - i))) mod cap"
    unfolding ring_pos_def by (simp only: mod_add_left_eq)
  also have "tail + cap - (M - 1 - j) + (cap - (j - i)) = tail + cap - (M - 1 - i) + cap" using assms by linarith
  also have "\<dots> mod cap = ring_pos cap tail M i" unfolding ring_pos_def by (rule mod_add_self2)
  finally show ?thesis by (simp only: add_diff_assoc [OF le])
qed

text \<open>Looking an entry up from any tail whose key is right.\<close>

lemma lookup_from:
  assumes T: "traits_ok T" and h: "blockIndex q = h\<lparr>bi_tail := of_nat (ring_pos (unat (capacity h)) (unat (bi_tail h)) M j)\<rparr> # hs"
    and ok: "index_ok T h es L M blk" and len: "length (entries q) = length es"
    and key: "entry_key (entries q ! (index h ! ring_pos (unat (capacity h)) (unat (bi_tail h)) M j)) = of_nat (j * bsz T)"
    and ji: "L \<le> j" "j < M" "L \<le> i" "i < M"
  shows "get_block_index_entry_for_index T (of_nat (i * bsz T)) q = Ret (index h ! ring_pos (unat (capacity h)) (unat (bi_tail h)) M i)"
proof -
  note D = index_okD [OF ok] and bs = bsz_gt_1(2) [OF T]
  let ?cap = "unat (capacity h)"
  let ?pos = "ring_pos ?cap (unat (bi_tail h)) M"
  obtain c where c: "?cap = 2 ^ c" "2 ^ c * bsz T \<le> 2 ^ 64" "c < 64" "capacity h = 2 ^ c" using index_ok_cap [OF ok] by blast
  obtain k where k: "bsz T = 2 ^ k" using bsz_pow2 [OF T] by blast
  have lt: "?pos i < ?cap" for i by (rule ring_pos_less [OF D(1)])
  then have un: "unat (of_nat (?pos i) :: 64 word) = ?pos i" for i using unat_lt_64 [of "capacity h"] by (intro unat_of_nat_64) (metis less_trans)
  have base: "base_of T (of_nat (i * bsz T)) = of_nat (i * bsz T)" using and_not_block_mask [OF T, of "i * bsz T"] bs by (simp only: base_of_def nonzero_mult_div_cancel_right [OF gr_implies_not0])
  have "(of_nat (?pos j) + (of_nat (i * bsz T) - of_nat (j * bsz T)) div BLOCK_SIZE T) AND (capacity h - 1) = (of_nat (?pos i) :: 64 word)"
  proof (cases "j \<le> i")
    case True
    have "i - j < 2 ^ c" using ji D(5) c(1) True by linarith
    with ring_offset_up [OF T c(2), of "i - j" "?pos j" j] ring_forward [of j i M ?cap "unat (bi_tail h)"] True ji D(4,5) c(1,4) show ?thesis by simp
  next
    case False
    have "j - i < 2 ^ c" using ji D(5) c(1) by linarith
    with ring_offset [OF T k, of c "j - i" "?pos j" i] ring_backward [of i j M ?cap "unat (bi_tail h)"] False ji D(4,5) c k show ?thesis by simp
  qed
  then show ?thesis using D(2) D(6) [OF lt] lt un len key base
    by (simp add: get_block_index_entry_for_index_def get_block_index_index_for_index_def h nth_out_def Let_def)
qed

lemma unindexed_start:
  assumes "blockIndex p = h # hs" and "index_ok T h (entries p) L M blk"
  shows "unindexed h hs (entries p) p M n 0 p"
  using assms index_okD(4) [OF assms(2)] by (simp add: unindexed_def)

lemma mask_before: "c < 64 \<Longrightarrow> (of_nat x - 1) AND (2 ^ c - 1) = (of_nat ((x + 2 ^ c - 1) mod 2 ^ c) :: 64 word)"
proof -
  assume c: "c < 64"
  then have c': "c \<le> 64" by simp
  have eq: "(of_nat x :: 64 word) - 1 = of_nat (x + (2 ^ 64 - 1))" by simp
  have masked: "(of_nat x - 1) AND (2 ^ c - 1) = (of_nat ((x + (2 ^ 64 - 1)) mod 2 ^ c) :: 64 word)" unfolding eq by (rule and_mask_nat [OF c'])
  have "(2 :: nat) ^ 64 - 1 = 2 ^ c - 1 + 2 ^ c * (2 ^ (64 - c) - 1)"
    using c power_increasing [of c 64 "2 :: nat"] by (simp add: algebra_simps flip: power_add)
  moreover have "(1 :: nat) \<le> 2 ^ c" by simp
  ultimately have "x + (2 ^ 64 - 1) = x + 2 ^ c - 1 + 2 ^ c * (2 ^ (64 - c) - 1)" by linarith
  then have "(x + (2 ^ 64 - 1)) mod 2 ^ c = (x + 2 ^ c - 1) mod 2 ^ c" by (simp only: mod_mult_self2)
  with masked show ?thesis by (simp only:)
qed

lemma unindexed_step:
  assumes T: "traits_ok T" and ok: "index_ok T h es L M blk" and un: "unindexed h hs es p M n k q" and k: "k < n" "n \<le> M - L"
    and e: "e = index h ! ring_pos (unat (capacity h)) (unat (bi_tail h)) M (M - n + k)"
  shows "get_block_index_entry_for_index T (of_nat ((M - n + k) * bsz T)) q = Ret e"
    and "\<exists>q'. rewind_block_index_tail (set_entry_value e None q) = Ret q' \<and> unindexed h hs es p M n (Suc k) q'"
proof -
  note D = index_okD [OF ok]
  let ?cap = "unat (capacity h)" and ?t = "unat (bi_tail h)"
  let ?pos = "ring_pos ?cap ?t M"
  let ?j = "M - 1 - k" and ?i = "M - n + k"
  have ji: "L \<le> ?j" "?j < M" "L \<le> ?i" "?i < M" using k by auto
  have kc: "k < ?cap" using k D(5) by linarith
  have tail: "(?t + ?cap - k) mod ?cap = ?pos ?j" using ring_back [OF D(4) kc, of M] k by auto
  have bi: "blockIndex q = h\<lparr>bi_tail := of_nat (?pos ?j)\<rparr> # hs" and len: "length (entries q) = length es"
    using un unfolding unindexed_def tail by auto
  have lt: "?pos i < ?cap" for i by (rule ring_pos_less [OF D(1)])
  have keys: "entry_key (entries q ! (index h ! i)) = entry_key (es ! (index h ! i))" if "i < ?cap" for i
    using un that by (simp add: unindexed_def)
  then have "entry_key (entries q ! (index h ! ?pos ?j)) = of_nat (?j * bsz T)" using D(7) [OF ji(1,2)] lt by simp
  from lookup_from [OF T bi ok len this ji] show "get_block_index_entry_for_index T (of_nat (?i * bsz T)) q = Ret e" by (simp only: e)
  let ?t' = "(of_nat (?pos ?j) - 1) AND (capacity h - 1) :: 64 word"
  obtain c where c: "?cap = 2 ^ c" "c < 64" "capacity h = 2 ^ c" using index_ok_cap [OF ok] by blast
  have t': "?t' = of_nat ((?t + ?cap - Suc k) mod ?cap)"
  proof -
    have "?t' = of_nat ((?pos ?j + ?cap - 1) mod ?cap)" using mask_before [OF c(2), of "?pos ?j"] by (simp only: c(1) c(3) [symmetric])
    also have "(?pos ?j + ?cap - 1) mod ?cap = (?t + ?cap - k + (?cap - 1)) mod ?cap"
      unfolding tail [symmetric] by (simp only: add_diff_assoc [OF Suc_leI [OF D(1), folded One_nat_def], symmetric] mod_add_left_eq)
    also have "?t + ?cap - k + (?cap - 1) = ?t + ?cap - Suc k + ?cap" using kc by linarith
    finally show ?thesis by simp
  qed
  have elen: "e < length (entries q)" using D(6) [OF lt] len by (simp add: e)
  have "entries (set_entry_value e None q) ! (index h ! i) =
      (if i \<in> ?pos ` {M - n..<M - n + Suc k} then (es ! (index h ! i))\<lparr>entry_value := None\<rparr> else es ! (index h ! i))" if i: "i < ?cap" for i
  proof -
    have here: "index h ! i = e \<longleftrightarrow> i = ?pos ?i" using index_nth_eq [OF ok i lt] by (simp add: e)
    have img: "?pos ` {M - n..<M - n + Suc k} = insert (?pos ?i) (?pos ` {M - n..<?i})" by (simp add: atLeastLessThanSuc)
    have old: "entries q ! (index h ! i) = (if i \<in> ?pos ` {M - n..<?i} then (es ! (index h ! i))\<lparr>entry_value := None\<rparr> else es ! (index h ! i))"
      using un i by (simp add: unindexed_def)
    show ?thesis
    proof (cases "i = ?pos ?i")
      case True
      then show ?thesis using here elen old unfolding img by (simp add: set_entry_value_def set_entry_def split: if_splits)
    next
      case False
      then show ?thesis using here old unfolding img by (simp add: set_entry_value_def set_entry_def)
    qed
  qed
  then have "unindexed h hs es p M n (Suc k) ((set_entry_value e None q)\<lparr>blockIndex := h\<lparr>bi_tail := ?t'\<rparr> # hs\<rparr>)"
    using un len unfolding unindexed_def t' [symmetric] by (simp add: set_entry_value_def set_entry_def)
  moreover have "rewind_block_index_tail (set_entry_value e None q) = Ret ((set_entry_value e None q)\<lparr>blockIndex := h\<lparr>bi_tail := ?t'\<rparr> # hs\<rparr>)"
    using bi by (simp add: rewind_block_index_tail_def set_index_tail_def set_entry_value_def set_entry_def)
  ultimately show "\<exists>q'. rewind_block_index_tail (set_entry_value e None q) = Ret q' \<and> unindexed h hs es p M n (Suc k) q'" by blast
qed

text \<open>When all of them are gone the index is that of the blocks before.\<close>

lemma unindexed_done:
  assumes ok: "index_ok T h es L M blk" and un: "unindexed h hs es p M n n q" and n: "n \<le> M - L"
    and p: "blockIndex p = h # hs" "nextBlockIndexCapacity p = push_bit 1 (capacity h)" and blk: "\<forall>j < M - n. blk' j = blk j"
  shows "indexed T q L (M - n) blk'"
proof -
  note D = index_okD [OF ok]
  let ?cap = "unat (capacity h)" and ?t = "unat (bi_tail h)"
  let ?t' = "(?t + ?cap - n) mod ?cap" and ?N = "M - n"
  let ?h = "h\<lparr>bi_tail := of_nat ?t'\<rparr>"
  have nc: "n \<le> ?cap" using n D(5) by linarith
  have t': "?t' < ?cap" using D(1) by simp
  have ut: "unat (of_nat ?t' :: 64 word) = ?t'" using unat_lt_64 [of "capacity h"] t' by (intro unat_of_nat_64) (metis less_trans)
  have pos: "ring_pos ?cap ?t' ?N j = ring_pos ?cap ?t M j" if "L \<le> j" "j < ?N" for j
  proof -
    have le: "?N - 1 - j \<le> ?cap" using that D(5) by linarith
    have "(?t' + ?cap - (?N - 1 - j)) mod ?cap = (?t + ?cap - n + (?cap - (?N - 1 - j))) mod ?cap"
      by (simp only: add_diff_assoc [OF le, symmetric] mod_add_left_eq)
    also have "?t + ?cap - n + (?cap - (?N - 1 - j)) = ?t + ?cap - (?N - 1 - j + n) + ?cap"
    proof -
      have "?N - 1 - j + n \<le> M - L" using that n by linarith
      then have "?N - 1 - j + n \<le> ?cap" using D(5) by linarith
      then show ?thesis by simp
    qed
    also have "?N - 1 - j + n = M - 1 - j" using that by linarith
    finally show ?thesis unfolding ring_pos_def by (simp only: mod_add_self2)
  qed
  have img: "ring_pos ?cap ?t' ?N ` {L..<?N} = ring_pos ?cap ?t M ` {L..<?N}" by (rule image_cong) (use pos in auto)
  have split: "{L..<M} = {L..<?N} \<union> {?N..<M}" "?N + n = M" using n by auto
  have apart: "ring_pos ?cap ?t M j \<notin> ring_pos ?cap ?t M ` {?N..<M}" if j: "L \<le> j" "j < ?N" for j
  proof
    assume "ring_pos ?cap ?t M j \<in> ring_pos ?cap ?t M ` {?N..<M}"
    then obtain i where i: "?N \<le> i" "i < M" "ring_pos ?cap ?t M j = ring_pos ?cap ?t M i" by auto
    have "j = i" by (rule ring_pos_inj [OF i(3)]) (use i j D(4,5) in auto)
    with i(1) j(2) show False by simp
  qed
  have es: "entries q ! (index h ! i) = (if i \<in> ring_pos ?cap ?t M ` {?N..<M} then (es ! (index h ! i))\<lparr>entry_value := None\<rparr> else es ! (index h ! i))"
    if "i < ?cap" for i using un that unfolding unindexed_def split(2) by blast
  have "entries q ! (index ?h ! ring_pos ?cap ?t' ?N j) = \<lparr>entry_key = of_nat (j * bsz T), entry_value = Some (blk' j)\<rparr>" if j: "L \<le> j" "j < ?N" for j
    using es [OF ring_pos_less [OF D(1)], of ?t M j] apart [OF j] D(7) [of j] j blk by (simp add: pos [OF j])
  moreover have "entry_key (entries q ! (index ?h ! i)) = INVALID_BLOCK_BASE \<or> entry_value (entries q ! (index ?h ! i)) = None"
    if "i < ?cap" "i \<notin> ring_pos ?cap ?t' ?N ` {L..<?N}" for i
    using es [OF that(1)] D(8) [OF that(1)] that(2) unfolding split(1) image_Un img by auto
  moreover have "length (entries q) = length es" "blockIndex q = ?h # hs" "nextBlockIndexCapacity q = push_bit 1 (capacity h)"
    using un p by (auto simp: unindexed_def)
  ultimately show ?thesis using ok t' ut n D(5) unfolding indexed_def index_ok_def by (intro exI [of _ ?h] exI [of _ hs]) auto
qed

text \<open>The pointer to block number \<open>i\<close> of a chain that ends before \<open>M\<close>, and the chain itself.\<close>

definition link :: "(nat \<Rightarrow> nat) \<Rightarrow> nat \<Rightarrow> nat \<Rightarrow> nat option" where
  "link blk M i = (if i < M then Some (blk i) else None)"

definition ends :: "(nat \<Rightarrow> nat) \<Rightarrow> nat \<Rightarrow> nat \<Rightarrow> 'd mem \<Rightarrow> bool" where
  "ends blk i M m \<longleftrightarrow> (\<forall>j \<in> {i..<M}. \<exists>b. blocks m (blk j) = Some b \<and> blk_next b = link blk M (Suc j))"

lemma endsD: "ends blk i M m \<Longrightarrow> i \<le> j \<Longrightarrow> j < M \<Longrightarrow> \<exists>b. blocks m (blk j) = Some b \<and> blk_next b = link blk M (Suc j)"
  by (simp add: ends_def)

lemma unindex_chain_spec:
  assumes T: "traits_ok T" and ok: "index_ok T h es L M blk'" and n: "n \<le> M - L" and ch: "ends blk (M - n) M m"
  shows "unindexed h hs es p M n k q \<Longrightarrow> k \<le> n \<Longrightarrow> n - k < f \<Longrightarrow>
    \<exists>q'. unindex_chain f T (link blk M (M - n + k)) (of_nat ((M - n + k) * bsz T) - BLOCK_SIZE T) q m = Ret q' \<and>
      unindexed h hs es p M n n q'"
proof (induction f arbitrary: k q)
  case (Suc f)
  show ?case
  proof (cases "k = n")
    case True
    then show ?thesis using Suc.prems(1) n by (simp add: link_def)
  next
    case False
    then have k: "k < n" using Suc.prems(2) by simp
    let ?i = "M - n + k"
    define e where "e = index h ! ring_pos (unat (capacity h)) (unat (bi_tail h)) M ?i"
    note st = unindexed_step [OF T ok Suc.prems(1) k n e_def]
    obtain q1 where q1: "rewind_block_index_tail (set_entry_value e None q) = Ret q1" "unindexed h hs es p M n (Suc k) q1" using st(2) by blast
    have i: "?i < M" using k n by linarith
    obtain b where b: "blocks m (blk ?i) = Some b" "blk_next b = link blk M (Suc ?i)" using endsD [OF ch le_add1 i] by blast
    have "of_nat (?i * bsz T) - BLOCK_SIZE T + BLOCK_SIZE T = of_nat (?i * bsz T)" by simp
    moreover have "of_nat ((M - n + Suc k) * bsz T) - BLOCK_SIZE T = of_nat (?i * bsz T)" by (simp add: algebra_simps)
    moreover obtain q' where "unindex_chain f T (link blk M (M - n + Suc k)) (of_nat ((M - n + Suc k) * bsz T) - BLOCK_SIZE T) q1 m = Ret q'"
      "unindexed h hs es p M n n q'" using Suc.IH [OF q1(2)] k Suc.prems(3) by fastforce
    ultimately show ?thesis using i b q1(1) st(1) by (simp add: link_def [of blk M ?i] Let_def with_block_def)
  qed
qed simp

lemma add_blocks_spec:
  "mem_inv m (own \<union> blk ` {i..<M}) \<Longrightarrow> blk ` {i..<M} \<inter> own = {} \<Longrightarrow> inj_on blk {i..<M} \<Longrightarrow> ends blk i M m \<Longrightarrow>
   \<forall>j \<in> {i..<M}. \<forall>b. blocks m (blk j) = Some b \<longrightarrow> blank b \<Longrightarrow> M - i < f \<Longrightarrow>
   \<exists>m'. add_blocks_to_free_list f (link blk M i) m = Ret m' \<and> mem_inv m' own \<and> (\<forall>b \<in> own. blocks m' b = blocks m b)"
proof (induction f arbitrary: i m)
  case (Suc f)
  show ?case
  proof (cases "i < M")
    case False
    then show ?thesis using Suc.prems(1) by (simp add: link_def)
  next
    case True
    have ran: "{i..<M} = insert i {Suc i..<M}" using True by auto
    obtain b where b: "blocks m (blk i) = Some b" "blk_next b = link blk M (Suc i)" "blank b"
      using endsD [OF Suc.prems(4) le_refl True] Suc.prems(5) True by force
    have new: "blk i \<notin> blk ` {Suc i..<M}" using Suc.prems(3) unfolding ran by (simp add: inj_on_insert)
    have own: "own \<union> blk ` {i..<M} - {blk i} = own \<union> blk ` {Suc i..<M}" using new Suc.prems(2) unfolding ran by auto
    obtain m1 where m1: "add_block_to_free_list (blk i) m = Ret m1" "mem_inv m1 (own \<union> blk ` {Suc i..<M})"
      "\<forall>c \<in> own \<union> blk ` {Suc i..<M}. blocks m1 c = blocks m c"
      using pool.give_back [OF Suc.prems(1) _ b(1,3)] True unfolding own by auto
    have "ends blk (Suc i) M m1" using Suc.prems(4) m1(3) by (auto simp: ends_def ran)
    moreover have "\<forall>j \<in> {Suc i..<M}. \<forall>b. blocks m1 (blk j) = Some b \<longrightarrow> blank b" using Suc.prems(5) m1(3) by (auto simp: ran)
    moreover have "inj_on blk {Suc i..<M}" using Suc.prems(3) by (rule inj_on_subset) auto
    moreover have "blk ` {Suc i..<M} \<inter> own = {}" using Suc.prems(2) unfolding ran by auto
    moreover have "M - Suc i < f" using Suc.prems(6) True by linarith
    ultimately obtain m2 where "add_blocks_to_free_list f (link blk M (Suc i)) m1 = Ret m2" "mem_inv m2 own" "\<forall>b \<in> own. blocks m2 b = blocks m1 b"
      using Suc.IH [OF m1(2)] by blast
    then show ?thesis using m1(1,3) b True by (simp add: link_def [of blk M i] with_block_def)
  qed
qed simp

section \<open>Blocks taken and not yet filled\<close>

text \<open>
  The state after \<open>n\<close> new blocks have been taken, with the numbers from \<open>nblk T Tl\<close> on. \<open>own\<close> are the blocks in use
  before.
\<close>

definition grown ::
  "traits \<Rightarrow> implicit_producer \<Rightarrow> 'd mem \<Rightarrow> nat \<Rightarrow> nat \<Rightarrow> (nat \<Rightarrow> nat) \<Rightarrow> (nat \<Rightarrow> 'd) \<Rightarrow> nat set \<Rightarrow> nat \<Rightarrow>
   (nat \<Rightarrow> nat) \<Rightarrow> implicit_producer \<Rightarrow> 'd mem \<Rightarrow> bool" where
  "grown T p m H Tl blk ctn own n blk1 p1 m1 \<longleftrightarrow>
     same_base (p1\<lparr>tailBlock := tailBlock p\<rparr>) p \<and>
     tailBlock p1 = (if n = 0 then tailBlock p else Some (blk1 (nblk T Tl + n - 1))) \<and>
     indexed T p1 (H div bsz T) (nblk T Tl + n) blk1 \<and> (nblk T Tl + n) * bsz T < H + 2 ^ 63 \<and>
     (\<forall>j < nblk T Tl. blk1 j = blk j) \<and> blk1 ` {nblk T Tl..<nblk T Tl + n} \<inter> own = {} \<and>
     region T {H div bsz T..<nblk T Tl + n} blk1 {H..<Tl} ctn (own \<union> blk1 ` {nblk T Tl..<nblk T Tl + n}) m1 \<and>
     (\<forall>j \<in> {H div bsz T..<nblk T Tl + n}. \<forall>b. blocks m1 (blk1 j) = Some b \<longrightarrow> elementsCompletelyDequeued b = of_nat (H - j * bsz T)) \<and>
     chained blk1 (Tl div bsz T) (nblk T Tl + n) m1 \<and> ends blk1 (nblk T Tl) (nblk T Tl + n) m1 \<and>
     (\<forall>b \<in> own - blk ` live T H Tl. blocks m1 b = blocks m b)"

lemma grownD:
  assumes "grown T p m H Tl blk ctn own n blk1 p1 m1"
  shows "same_base (p1\<lparr>tailBlock := tailBlock p\<rparr>) p" "tailBlock p1 = (if n = 0 then tailBlock p else Some (blk1 (nblk T Tl + n - 1)))"
    "indexed T p1 (H div bsz T) (nblk T Tl + n) blk1" "(nblk T Tl + n) * bsz T < H + 2 ^ 63"
    "\<And>j. j < nblk T Tl \<Longrightarrow> blk1 j = blk j" "blk1 ` {nblk T Tl..<nblk T Tl + n} \<inter> own = {}"
    "region T {H div bsz T..<nblk T Tl + n} blk1 {H..<Tl} ctn (own \<union> blk1 ` {nblk T Tl..<nblk T Tl + n}) m1"
    "\<And>j b. j \<in> {H div bsz T..<nblk T Tl + n} \<Longrightarrow> blocks m1 (blk1 j) = Some b \<Longrightarrow> elementsCompletelyDequeued b = of_nat (H - j * bsz T)"
    "chained blk1 (Tl div bsz T) (nblk T Tl + n) m1" "ends blk1 (nblk T Tl) (nblk T Tl + n) m1"
    "\<And>b. b \<in> own - blk ` live T H Tl \<Longrightarrow> blocks m1 b = blocks m b"
  using assms by (auto simp: grown_def)

lemma grown_base:
  assumes "grown T p m H Tl blk ctn own n blk1 p1 m1"
  shows "tailIndex p1 = tailIndex p" "headIndex p1 = headIndex p" "dequeueOptimisticCount p1 = dequeueOptimisticCount p"
    "dequeueOvercommit p1 = dequeueOvercommit p" "same_links p1 p"
  using same_base_simps [OF grownD(1) [OF assms]] by (simp_all add: same_links_def)

text \<open>Nothing of the content has changed when the blocks are given back.\<close>

definition restored ::
  "traits \<Rightarrow> implicit_producer \<Rightarrow> 'd mem \<Rightarrow> nat \<Rightarrow> nat \<Rightarrow> (nat \<Rightarrow> nat) \<Rightarrow> (nat \<Rightarrow> 'd) \<Rightarrow> nat set \<Rightarrow>
   implicit_producer \<Rightarrow> 'd mem \<Rightarrow> bool" where
  "restored T p m H Tl blk ctn own p' m' \<longleftrightarrow> same_links p' p \<and> imp_inv T p' m' H Tl blk ctn \<and> mem_inv m' own \<and>
     (\<forall>b \<in> own - blk ` live T H Tl. blocks m' b = blocks m b)"

lemma grown_index:
  assumes "grown T p m H Tl blk ctn own n blk1 p1 m1"
  obtains h hs where "blockIndex p1 = h # hs" "index_ok T h (entries p1) (H div bsz T) (nblk T Tl + n) blk1"
    "nextBlockIndexCapacity p1 = push_bit 1 (capacity h)"
  using grownD(3) [OF assms] by (auto simp: indexed_def)

lemma grown_blank:
  assumes "0 < bsz T" and g: "grown T p m H Tl blk ctn own n blk1 p1 m1" and "H \<le> Tl"
    and "j \<in> {nblk T Tl..<nblk T Tl + n}" and "blocks m1 (blk1 j) = Some b"
  shows "blank b"
proof -
  have "H div bsz T \<le> j" using div_le_nblk [OF assms(1,3)] assms(4) by simp
  then obtain c where "blocks m1 (blk1 j) = Some c" "cells T {H..<Tl} ctn j c" using regionD(4) [OF grownD(7) [OF g], of j] assms(4) by auto
  then have "cells T {H..<Tl} ctn j b" using assms(5) by simp
  moreover have "\<not> j * bsz T + s < Tl" for s
  proof -
    have "Tl \<le> nblk T Tl * bsz T" using nblk_covers [OF assms(1)] by blast
    moreover have "nblk T Tl * bsz T \<le> j * bsz T" using assms(4) by (intro mult_le_mono1) simp
    ultimately show ?thesis by linarith
  qed
  ultimately show ?thesis by (simp add: cells_def blank_def)
qed

lemma bulk_undo_spec:
  assumes T: "traits_ok T" and inv: "imp_inv T p m H Tl blk ctn" and sub: "blk ` live T H Tl \<subseteq> own"
    and g: "grown T p m H Tl blk ctn own n blk1 p1 m1" and fuel: "n < fuel"
  shows "\<exists>p2 m2. implicit_bulk_undo fuel T (of_nat Tl) (tailBlock p) (link blk1 (nblk T Tl + n) (nblk T Tl)) p1 m1 = Ret (p2, m2) \<and>
    restored T p m H Tl blk ctn own p2 m2"
proof -
  note I = imp_invD [OF inv] and bs = bsz_gt_1(2) [OF T] and G = grownD [OF g]
  let ?L = "H div bsz T" and ?N = "nblk T Tl" and ?M = "nblk T Tl + n"
  have LN: "?L \<le> ?N" by (rule div_le_nblk [OF bs I(4)])
  obtain h hs where h: "blockIndex p1 = h # hs" "index_ok T h (entries p1) ?L ?M blk1" "nextBlockIndexCapacity p1 = push_bit 1 (capacity h)"
    by (rule grown_index [OF g])
  have n: "n \<le> ?M - ?L" "?M - n = ?N" using LN by auto
  obtain q where q: "unindex_chain fuel T (link blk1 ?M ?N) (base_of T (of_nat Tl - 1)) p1 m1 = Ret q" "unindexed h hs (entries p1) p1 ?M n n q"
    using unindex_chain_spec [OF T h(2) n(1), unfolded n(2), OF G(10) unindexed_start [OF h(1,2)], of fuel] fuel unfolding base_before [OF T] by auto
  have ix: "indexed T q ?L ?N blk" using unindexed_done [OF h(2) q(2) n(1) h(1,3), of blk] G(5) unfolding n(2) by simp
  have "inj_on blk1 {?N..<?M}" by (rule inj_on_subset [OF regionD(2) [OF G(7)]]) (use LN in auto)
  then obtain m2 where m2: "add_blocks_to_free_list fuel (link blk1 ?M ?N) m1 = Ret m2" "mem_inv m2 own" "\<forall>b \<in> own. blocks m2 b = blocks m1 b"
    using add_blocks_spec [OF regionD(1) [OF G(7)] G(6) _ G(10), of fuel] grown_blank [OF bs g I(4)] fuel by auto
  let ?p = "q\<lparr>tailBlock := tailBlock p\<rparr>"
  have "same_base q p1" using q(2) by (simp add: unindexed_def)
  then have base: "same_base ?p p" using G(1) by (simp add: same_base_def producer.truncate_def)
  have holds: "\<exists>b. blocks m2 (blk j) = Some b \<and> block_holds T H Tl ctn j b" if j: "j \<in> live T H Tl" for j
  proof -
    have own: "blk j \<in> own" and j': "j \<in> {?L..<?M}" "blk1 j = blk j" using sub j G(5) by auto
    obtain b where b: "blocks m1 (blk1 j) = Some b" "cells T {H..<Tl} ctn j b" using regionD(4) [OF G(7) j'(1)] by blast
    with G(8) [OF j'(1) b(1)] m2(3) own j'(2) show ?thesis by (auto simp: block_holds_def cells_def)
  qed
  have ix': "indexed T ?p ?L ?N blk" using ix by (simp add: indexed_def)
  then have "blockIndex ?p \<noteq> []" by (auto simp: indexed_def)
  then have "imp_inv T ?p m2 H Tl blk ctn" unfolding imp_inv_def same_base_simps [OF base] using I holds ix' by auto
  moreover have "\<forall>b \<in> own - blk ` live T H Tl. blocks m2 b = blocks m b" using m2(3) G(11) by auto
  ultimately have "restored T p m H Tl blk ctn own ?p m2" using m2(2) same_base_links [OF base] by (simp add: restored_def)
  with q(1) m2(1) show ?thesis by (simp add: implicit_bulk_undo_def)
qed

section \<open>Taking one more block\<close>

lemma grown_reindex:
  assumes g: "grown T p m H Tl blk ctn own n blk1 p1 m1" and le: "H div bsz T \<le> nblk T Tl" "H \<le> Tl"
    and base: "same_base p2 p1" and ix: "indexed T p2 (H div bsz T) (nblk T Tl + n) blk1"
    and mem: "mem_inv m2 (own \<union> blk1 ` {nblk T Tl..<nblk T Tl + n})"
    and same: "\<forall>c \<in> own \<union> blk1 ` {nblk T Tl..<nblk T Tl + n}. blocks m2 c = blocks m1 c"
  shows "grown T p m H Tl blk ctn own n blk1 p2 m2"
proof -
  note G = grownD [OF g] and R = regionD [OF grownD(7) [OF g]]
  let ?L = "H div bsz T" and ?N = "nblk T Tl" and ?M = "nblk T Tl + n"
  have eq: "blocks m2 (blk1 j) = blocks m1 (blk1 j)" if "j \<in> {?L..<?M}" for j using same R(3) that by blast
  have "region T {?L..<?M} blk1 {H..<Tl} ctn (own \<union> blk1 ` {?N..<?M}) m2" using mem R eq by (simp add: region_def)
  moreover have "chained blk1 (Tl div bsz T) ?M m2" using G(9) eq div_le_mono [OF le(2), of "bsz T"] by (simp add: chained_def)
  moreover have "ends blk1 ?N ?M m2" using G(10) eq le(1) by (simp add: ends_def)
  moreover have "same_base (p2\<lparr>tailBlock := tailBlock p\<rparr>) p" using base G(1) by (simp add: same_base_def producer.truncate_def)
  moreover have "tailBlock p2 = tailBlock p1" by (rule same_base_simps(3) [OF base])
  ultimately show ?thesis using G ix eq same unfolding grown_def by auto
qed

lemma bulk_block_spec:
  assumes T: "traits_ok T" and HT: "H \<le> Tl" and hd: "headIndex p = of_nat H" and g: "grown T p m H Tl blk ctn own n blk1 p1 m1"
    and C: "C = own \<union> blk1 ` {nblk T Tl..<nblk T Tl + n}" and M: "M = nblk T Tl + n"
  shows "(\<exists>p2 m2. implicit_bulk_block T mode (of_nat (M * bsz T)) p1 m1 = Ret (None, p2, m2) \<and> grown T p m H Tl blk ctn own n blk1 p2 m2) \<or>
    (\<exists>e b bl p0 p2 m2. implicit_bulk_block T mode (of_nat (M * bsz T)) p1 m1 = Ret (Some (e, b), p2, m2) \<and>
       reserved T p0 (H div bsz T) M blk1 e p2 \<and> same_base p0 p1 \<and> b \<notin> C \<and> mem_inv m2 (insert b C) \<and> (\<forall>c \<in> C. blocks m2 c = blocks m1 c) \<and>
       blocks m2 b = Some bl \<and> blank bl \<and> freeListRefs bl = 0 \<and> M * bsz T + bsz T < H + 2 ^ 63)"
proof -
  note G = grownD [OF g] and bs = bsz_gt_1(2) [OF T]
  let ?L = "H div bsz T"
  have LN: "?L \<le> nblk T Tl" by (rule div_le_nblk [OF bs HT])
  then have LM: "?L \<le> M" by (simp add: M)
  have mem: "mem_inv m1 C" using regionD(1) [OF G(7)] by (simp add: C)
  have h1: "headIndex p1 = of_nat H" using grown_base(2) [OF g] hd by simp
  have "Tl \<le> nblk T Tl * bsz T" using nblk_covers [OF bs] by blast
  also have "\<dots> \<le> M * bsz T" unfolding M by (intro mult_le_mono1) simp
  finally have HM: "H \<le> M * bsz T" using HT by linarith
  have lim: "M * bsz T < H + 2 ^ 63" using G(4) by (simp add: M)
  have ix: "indexed T p1 ?L M blk1" using G(3) by (simp add: M)
  have again: "grown T p m H Tl blk ctn own n blk1 p2 m2"
    if "same_base p2 p1" "indexed T p2 ?L M blk1" "mem_inv m2 C" "\<forall>c \<in> C. blocks m2 c = blocks m1 c" for p2 m2
    using grown_reindex [OF g LN HT] that unfolding C M by blast
  show ?thesis
  proof (cases "subqueue_full T (of_nat H) (of_nat (M * bsz T))")
    case True
    then have "implicit_bulk_block T mode (of_nat (M * bsz T)) p1 m1 = Ret (None, p1, m1)" by (simp add: implicit_bulk_block_def h1)
    with g show ?thesis by blast
  next
    case full: False
    have fits: "M * bsz T + bsz T < H + 2 ^ 63" by (rule not_full_room [OF T lim HM full])
    obtain m' where m': "m' = m1 \<or> m' = m1\<lparr>mallocs := Suc (mallocs m1)\<rparr>" and
      ins: "insert_block_index_entry mode (of_nat (M * bsz T)) p1 m1 = Ret (None, p1, m') \<or>
       (\<exists>e p0 p'. insert_block_index_entry mode (of_nat (M * bsz T)) p1 m1 = Ret (Some e, p', m') \<and>
          same_base p0 p1 \<and> reserved T p0 ?L M blk1 e p')"
      using insert_spec [OF T ix LM index_gap [OF bs lim], of m1 mode] by (elim exE conjE) (rule that)
    have mem': "mem_inv m' C" "blocks m' = blocks m1" using m' mem by auto
    from ins show ?thesis
    proof (elim disjE exE conjE)
      assume "insert_block_index_entry mode (of_nat (M * bsz T)) p1 m1 = Ret (None, p1, m')"
      then have "implicit_bulk_block T mode (of_nat (M * bsz T)) p1 m1 = Ret (None, p1, m')"
        using full by (simp add: implicit_bulk_block_def h1 del: of_nat_mult)
      then show ?thesis using again [OF same_base_refl ix mem'(1)] mem'(2) by auto
    next
      fix e p0 p'
      assume i: "insert_block_index_entry mode (of_nat (M * bsz T)) p1 m1 = Ret (Some e, p', m')" and res: "same_base p0 p1" "reserved T p0 ?L M blk1 e p'"
      obtain p2 where p2: "rewind_block_index_tail p' = Ret p2" "indexed T (set_entry_value e None p2) ?L M blk1" "same_base p2 p'"
        using reserved_abort [OF T res(2)] by blast
      have "same_base p' p1" using res by (auto simp: reserved_def)
      then have base: "same_base (set_entry_value e None p2) p1" using p2(3) by (simp add: same_base_trans [of p2 p'])
      obtain r m2 where r: "requisition_block mode m' = Ret (r, m2)" using pool.get_returns [OF mem'(1)] by blast
      show ?thesis
      proof (cases r)
        case None
        then have "implicit_bulk_block T mode (of_nat (M * bsz T)) p1 m1 = Ret (None, set_entry_value e None p2, m2)"
          using full i r p2(1) by (simp add: implicit_bulk_block_def h1 del: of_nat_mult)
        moreover have "mem_inv m2 C" "blocks m2 = blocks m1" using pool.get_none [OF mem'(1) r [unfolded None]] mem'(2) by auto
        ultimately show ?thesis using again [OF base p2(2)] by auto
      next
        case (Some b)
        then have "implicit_bulk_block T mode (of_nat (M * bsz T)) p1 m1 = Ret (Some (e, b), p', m2)"
          using full i r by (simp add: implicit_bulk_block_def h1 del: of_nat_mult)
        then show ?thesis using pool.get_some [OF mem'(1) r [unfolded Some], unfolded mem'(2)] res fits by blast
      qed
    qed
  qed
qed

lemma grown_more:
  assumes T: "traits_ok T" and HT: "H \<le> Tl" and g: "grown T p m H Tl blk ctn own n blk1 p1 m1"
    and M: "M = nblk T Tl + n" and C: "C = own \<union> blk1 ` {nblk T Tl..<M}" and room: "M * bsz T + bsz T < H + 2 ^ 63"
    and nb: "nb \<notin> C" "mem_inv m4 (insert nb C)" "blocks m4 nb = Some nbl" "blank nbl" "elementsCompletelyDequeued nbl = 0" "blk_next nbl = None"
    and old: "\<forall>c \<in> C. blocks m4 c =
      (if Tl div bsz T < M \<and> c = blk1 (M - 1) then map_option (\<lambda>b. b\<lparr>blk_next := Some nb\<rparr>) (blocks m1 c) else blocks m1 c)"
    and p3: "same_base (p3\<lparr>tailBlock := tailBlock p\<rparr>) p" "tailBlock p3 = Some nb" "indexed T p3 (H div bsz T) (Suc M) (blk1(M := nb))"
  shows "grown T p m H Tl blk ctn own (Suc n) (blk1(M := nb)) p3 m4"
proof -
  note G = grownD [OF g, folded M, folded C] and bs = bsz_gt_1(2) [OF T]
  note R = regionD [OF G(7)]
  let ?L = "H div bsz T" and ?N = "nblk T Tl" and ?blk = "blk1(M := nb)"
  have LN: "?L \<le> ?N" by (rule div_le_nblk [OF bs HT])
  have NM: "?N \<le> M" by (simp add: M)
  have inC: "blk1 j \<in> C" if "j \<in> {?L..<M}" for j using R(3) that by blast
  have img: "?blk ` {?N..<Suc M} = insert nb (blk1 ` {?N..<M})" using NM by (auto simp: atLeastLessThanSuc)
  have C': "own \<union> ?blk ` {?N..<Suc M} = insert nb C" unfolding img C by simp
  have ran: "{?L..<Suc M} = insert M {?L..<M}" using LN NM by auto
  have TN: "Tl \<le> ?N * bsz T" using nblk_covers [OF bs] by blast
  also have "\<dots> \<le> M * bsz T" using NM by (rule mult_le_mono1)
  finally have TM: "Tl \<le> M * bsz T" .
  have at: "\<exists>b b1. blocks m1 (blk1 j) = Some b1 \<and> blocks m4 (?blk j) = Some b \<and> elements b = elements b1 \<and>
      elementsCompletelyDequeued b = elementsCompletelyDequeued b1 \<and>
      blk_next b = (if Tl div bsz T < M \<and> j = M - 1 then Some nb else blk_next b1)" if j: "j \<in> {?L..<M}" for j
  proof -
    obtain b1 where b1: "blocks m1 (blk1 j) = Some b1" using R(4) [OF j] by blast
    have last: "blk1 j = blk1 (M - 1) \<longleftrightarrow> j = M - 1" using inj_on_eq_iff [OF R(2) j, of "M - 1"] j by auto
    have "?blk j = blk1 j" using j by simp
    moreover have "blocks m4 (blk1 j) = (if Tl div bsz T < M \<and> j = M - 1 then Some (b1\<lparr>blk_next := Some nb\<rparr>) else Some b1)"
      using old inC [OF j] b1 unfolding last [symmetric] by auto
    ultimately show ?thesis using b1 by (simp split: if_splits)
  qed
  have inj: "inj_on ?blk {?L..<Suc M}"
  proof -
    have "inj_on ?blk {?L..<M}" using R(2) by (simp add: inj_on_def)
    moreover have "nb \<notin> blk1 ` {?L..<M}" using inC nb(1) by blast
    ultimately show ?thesis unfolding ran by (auto simp: inj_on_insert)
  qed
  have cells': "\<exists>b. blocks m4 (?blk j) = Some b \<and> cells T {H..<Tl} ctn j b \<and> elementsCompletelyDequeued b = of_nat (H - j * bsz T)"
    if "j \<in> {?L..<Suc M}" for j
  proof (cases "j = M")
    case True
    then show ?thesis using nb(3-5) TM HT by (simp add: cells_def blank_def)
  next
    case False
    then have j: "j \<in> {?L..<M}" using that by simp
    obtain b1 where "blocks m1 (blk1 j) = Some b1" "cells T {H..<Tl} ctn j b1" using R(4) [OF j] by blast
    with at [OF j] G(8) [OF j] show ?thesis by (auto simp: cells_def)
  qed
  have "?blk ` {?L..<Suc M} \<subseteq> insert nb C" using inC by (auto simp: ran)
  then have reg: "region T {?L..<Suc M} ?blk {H..<Tl} ctn (own \<union> ?blk ` {?N..<Suc M}) m4"
    using nb(2) inj cells' unfolding region_def C' by blast
  have chained: "chained ?blk (Tl div bsz T) (Suc M) m4"
    unfolding chained_def
  proof (intro allI impI)
    fix j assume j: "Tl div bsz T \<le> j" "Suc j < Suc M"
    then have j': "j \<in> {?L..<M}" using div_le_mono [OF HT, of "bsz T"] by simp
    show "\<exists>b. blocks m4 (?blk j) = Some b \<and> blk_next b = Some (?blk (Suc j))"
    proof (cases "j = M - 1")
      case True
      then show ?thesis using at [OF j'] j by auto
    next
      case False
      then have "Suc j < M" using j by linarith
      then show ?thesis using at [OF j'] G(9) j(1) False by (auto simp: chained_def)
    qed
  qed
  have ends: "ends ?blk ?N (Suc M) m4"
    unfolding ends_def
  proof
    fix j assume j: "j \<in> {?N..<Suc M}"
    show "\<exists>b. blocks m4 (?blk j) = Some b \<and> blk_next b = link ?blk (Suc M) (Suc j)"
    proof (cases "j = M")
      case True
      then show ?thesis using nb(3,6) by (simp add: link_def)
    next
      case False
      have "Tl div bsz T \<le> ?N" using div_le_nblk [OF bs le_refl] .
      then show ?thesis using chained False j unfolding chained_def link_def by auto
    qed
  qed
  have frame: "blocks m4 b = blocks m b" if b: "b \<in> own - blk ` live T H Tl" for b
  proof -
    have "\<not> (Tl div bsz T < M \<and> b = blk1 (M - 1))"
    proof
      assume *: "Tl div bsz T < M \<and> b = blk1 (M - 1)"
      show False
      proof (cases "n = 0")
        case True
        then have "b = blk (M - 1)" "M - 1 \<in> live T H Tl" using * G(5) [of "M - 1"] div_le_mono [OF HT, of "bsz T"] by (auto simp: M)
        then show False using b by blast
      next
        case False
        then have "b \<in> blk1 ` {?N..<M}" using * by (auto simp: M)
        then show False using b G(6) by blast
      qed
    qed
    moreover have "b \<in> C" using b by (simp add: C)
    ultimately show ?thesis using old G(11) [OF b] by auto
  qed
  have fresh: "?blk ` {?N..<Suc M} \<inter> own = {}" using G(6) nb(1) unfolding img by (auto simp: C)
  have Suc: "?N + Suc n = Suc M" by (simp add: M)
  have "tailBlock p3 = Some (?blk (Suc M - 1))" "Suc M * bsz T < H + 2 ^ 63" "\<forall>j < ?N. ?blk j = blk j"
    using p3(2) room G(5) by (simp_all add: M add.commute)
  then show ?thesis unfolding grown_def Suc using p3(1,3) fresh reg cells' chained ends frame by fastforce
qed

lemma grown_tail:
  assumes T: "traits_ok T" and inv: "imp_inv T p m H Tl blk ctn" and g: "grown T p m H Tl blk ctn own n blk1 p1 m1"
    and "Tl div bsz T < nblk T Tl + n"
  shows "tailBlock p1 = Some (blk1 (nblk T Tl + n - 1))"
proof (cases "n = 0")
  case True
  note bs = bsz_gt_1(2) [OF T]
  have "Tl mod bsz T \<noteq> 0" using assms(4) True nblk_aligned [OF bs, of Tl] by auto
  then have "tailBlock p = Some (blk (Tl div bsz T))" "nblk T Tl = Suc (Tl div bsz T)" using imp_invD(6) [OF inv] nblk_unaligned [OF bs] by auto
  then show ?thesis using grownD(2,5) [OF g] True by simp
qed (use grownD(2) [OF g] in simp)

text \<open>Linking the new block behind the tail block, if there is one to be filled before it.\<close>

lemma link_new_block:
  assumes T: "traits_ok T" and inv: "imp_inv T p m H Tl blk ctn" and g: "grown T p m H Tl blk ctn own n blk1 p1 m1"
    and M: "M = nblk T Tl + n" and C: "C = own \<union> blk1 ` {nblk T Tl..<M}" and room: "M * bsz T + bsz T < H + 2 ^ 63"
    and res: "reserved T p0 (H div bsz T) M blk1 e p2" "same_base p0 p1"
    and nb: "nb \<notin> C" "mem_inv m2 (insert nb C)" "\<forall>c \<in> C. blocks m2 c = blocks m1 c" "blocks m2 nb = Some bl" "blank bl" "freeListRefs bl = 0"
  shows "\<exists>m4. (if Tl div bsz T < M then
        (case tailBlock (set_entry_value e (Some nb) p2) of
           None \<Rightarrow> Undefined
         | Some t \<Rightarrow> with_block t (put_block nb ((reset_empty T implicit_context bl)\<lparr>blk_next := None\<rparr>) m2)
             (\<lambda>tb. Ret (put_block t (tb\<lparr>blk_next := Some nb\<rparr>) (put_block nb ((reset_empty T implicit_context bl)\<lparr>blk_next := None\<rparr>) m2))))
      else Ret (put_block nb ((reset_empty T implicit_context bl)\<lparr>blk_next := None\<rparr>) m2)) = Ret m4 \<and>
    grown T p m H Tl blk ctn own (Suc n) (blk1(M := nb)) ((set_entry_value e (Some nb) p2)\<lparr>tailBlock := Some nb\<rparr>) m4"
proof -
  note I = imp_invD [OF inv] and G = grownD [OF g, folded M, folded C] and bs = bsz_gt_1(2) [OF T]
  define nbl where "nbl = (reset_empty T implicit_context bl)\<lparr>blk_next := None\<rparr>"
  let ?m3 = "put_block nb nbl m2" and ?q = "set_entry_value e (Some nb) p2"
  have nbl: "blank nbl" "elementsCompletelyDequeued nbl = 0" "blk_next nbl = None" "freeListRefs nbl = 0"
    using nb(5,6) by (auto simp: nbl_def reset_empty_def by_flags_def blank_def)
  have m3: "mem_inv ?m3 (insert nb C)" "blocks ?m3 = (blocks m2)(nb \<mapsto> nbl)" using pool.put_used [OF nb(2) insertI1 nbl(4)] by auto
  have base: "same_base ?q p1" using res by (auto simp: reserved_def)
  then have p3: "same_base (?q\<lparr>tailBlock := Some nb\<rparr>\<lparr>tailBlock := tailBlock p\<rparr>) p" using G(1) by (simp add: same_base_def producer.truncate_def)
  have ix: "indexed T (?q\<lparr>tailBlock := Some nb\<rparr>) (H div bsz T) (Suc M) (blk1(M := nb))"
    using reserved_commit [OF T res(1), of nb] by (simp add: indexed_def)
  have more: "grown T p m H Tl blk ctn own (Suc n) (blk1(M := nb)) (?q\<lparr>tailBlock := Some nb\<rparr>) m4"
    if "mem_inv m4 (insert nb C)" "blocks m4 nb = Some nbl" "\<forall>c \<in> C. blocks m4 c =
      (if Tl div bsz T < M \<and> c = blk1 (M - 1) then map_option (\<lambda>b. b\<lparr>blk_next := Some nb\<rparr>) (blocks m1 c) else blocks m1 c)" for m4
    using grown_more [OF T I(4) g M C room nb(1) that(1,2) nbl(1-3) that(3) p3 _ ix] by simp
  show ?thesis
  proof (cases "Tl div bsz T < M")
    case False
    have "grown T p m H Tl blk ctn own (Suc n) (blk1(M := nb)) (?q\<lparr>tailBlock := Some nb\<rparr>) ?m3"
      using m3 nb(1,3) False by (intro more) auto
    then show ?thesis using False by (simp add: nbl_def)
  next
    case True
    let ?t = "blk1 (M - 1)"
    have tail: "tailBlock ?q = Some ?t" using same_base_simps(3) [OF base] grown_tail [OF T inv g] True by (simp add: M)
    have "M - 1 \<in> {H div bsz T..<M}" using True div_le_mono [OF I(4), of "bsz T"] by auto
    then have tC: "?t \<in> C" using regionD(3) [OF G(7)] by blast
    then have ne: "?t \<noteq> nb" using nb(1) by blast
    obtain tb where tb: "blocks m1 ?t = Some tb" "freeListRefs tb = 0" using pool.used [OF nb(2), of ?t] nb(3) tC by auto
    let ?m4 = "put_block ?t (tb\<lparr>blk_next := Some nb\<rparr>) ?m3"
    have at: "blocks ?m3 ?t = Some tb" using m3(2) ne nb(3) tC tb(1) by simp
    have m4: "mem_inv ?m4 (insert nb C)" "blocks ?m4 = (blocks ?m3)(?t \<mapsto> tb\<lparr>blk_next := Some nb\<rparr>)"
      using pool.put_used [OF m3(1), of ?t "tb\<lparr>blk_next := Some nb\<rparr>"] tC tb(2) by auto
    have "grown T p m H Tl blk ctn own (Suc n) (blk1(M := nb)) (?q\<lparr>tailBlock := Some nb\<rparr>) ?m4"
      using m4 m3(2) nb(1,3) True ne tb(1) by (intro more) auto
    then show ?thesis using True tail at by (simp add: nbl_def [symmetric] with_block_def)
  qed
qed

lemma grown_few:
  assumes "H div bsz T \<le> nblk T Tl" and "grown T p m H Tl blk ctn own n blk1 p1 m1"
  shows "n \<le> nblocks m1"
proof -
  note R = regionD [OF grownD(7) [OF assms(2)]]
  have inj: "inj_on blk1 {nblk T Tl..<nblk T Tl + n}" by (rule inj_on_subset [OF R(2)]) (use assms(1) in auto)
  have "blk1 ` {nblk T Tl..<nblk T Tl + n} \<subseteq> {..<nblocks m1}" using R(1) by (auto simp: mem_inv_def)
  from card_mono [OF finite_lessThan this] show ?thesis by (simp add: card_image [OF inj])
qed

lemma grown_first: "M = N + n \<Longrightarrow> (if link blk1 M N = None then Some nb else link blk1 M N) = link (blk1(M := nb)) (Suc M) N"
  by (auto simp: link_def)

lemma bulk_alloc_spec:
  assumes T: "traits_ok T" and inv: "imp_inv T p m H Tl blk ctn" and sub: "blk ` live T H Tl \<subseteq> own" and N: "N = nblk T Tl"
  shows "grown T p m H Tl blk ctn own n blk1 p1 m1 \<Longrightarrow> 0 < r \<Longrightarrow> r \<le> f \<Longrightarrow> r * bsz T < 2 ^ 64 \<Longrightarrow>
    (\<exists>p2 m2. implicit_bulk_alloc f T mode (of_nat Tl) (tailBlock p) (link blk1 (N + n) N) (of_nat (r * bsz T))
        (of_nat ((N + n) * bsz T) - BLOCK_SIZE T) p1 m1 = Ret (None, p2, m2) \<and> restored T p m H Tl blk ctn own p2 m2) \<or>
    (\<exists>blk2 p2 m2. implicit_bulk_alloc f T mode (of_nat Tl) (tailBlock p) (link blk1 (N + n) N) (of_nat (r * bsz T))
        (of_nat ((N + n) * bsz T) - BLOCK_SIZE T) p1 m1 = Ret (Some (Some (blk2 N)), p2, m2) \<and>
      grown T p m H Tl blk ctn own (n + r) blk2 p2 m2)"
proof (induction f arbitrary: n blk1 p1 m1 r)
  case (Suc f)
  note I = imp_invD [OF inv] and bs = bsz_gt_1(2) [OF T]
  define M where "M = nblk T Tl + n"
  define C where "C = own \<union> blk1 ` {nblk T Tl..<M}"
  have LN: "H div bsz T \<le> nblk T Tl" by (rule div_le_nblk [OF bs I(4)])
  let ?first = "link blk1 M N"
  have NM: "N + n = M" by (simp add: N M_def)
  have up: "of_nat (M * bsz T) - BLOCK_SIZE T + BLOCK_SIZE T = of_nat (M * bsz T)" by simp
  obtain r' where r': "r = Suc r'" using Suc.prems(2) by (cases r) auto
  have down: "of_nat (r * bsz T) - BLOCK_SIZE T = of_nat (r' * bsz T)" by (simp add: r' algebra_simps)
  have less: "r' * bsz T < 2 ^ 64" using Suc.prems(4) by (simp add: r')
  then have "unat (of_nat (r' * bsz T) :: 64 word) = r' * bsz T" by (rule unat_of_nat_64)
  then have more: "0 < (of_nat (r' * bsz T) :: 64 word) \<longleftrightarrow> 0 < r'" using bs by (simp only: word_less_nat_alt unat_0) simp
  have cond: "of_nat Tl AND (BLOCK_SIZE T - 1) \<noteq> 0 \<or> ?first \<noteq> None \<longleftrightarrow> Tl div bsz T < M"
    using nblk_aligned [OF bs, of Tl] nblk_unaligned [OF bs, of Tl]
    by (cases "Tl mod bsz T = 0") (simp_all add: aligned_iff [OF T] link_def M_def N)
  note G = bulk_block_spec [OF T I(4) I(1) Suc.prems(1) C_def [unfolded M_def] M_def, folded M_def, folded C_def, of mode]
  from G show ?case
  proof (elim disjE exE conjE)
    fix p2 m2 assume b: "implicit_bulk_block T mode (of_nat (M * bsz T)) p1 m1 = Ret (None, p2, m2)" and g: "grown T p m H Tl blk ctn own n blk1 p2 m2"
    obtain p3 m3 where "implicit_bulk_undo (Suc (nblocks m2)) T (of_nat Tl) (tailBlock p) ?first p2 m2 = Ret (p3, m3)"
      "restored T p m H Tl blk ctn own p3 m3"
      using bulk_undo_spec [OF T inv sub g, of "Suc (nblocks m2)"] grown_few [OF LN g] by (auto simp: M_def N)
    then show ?thesis using b up unfolding NM by (simp add: Let_def del: of_nat_mult)
  next
    fix e nb bl p0 p2 m2
    assume b: "implicit_bulk_block T mode (of_nat (M * bsz T)) p1 m1 = Ret (Some (e, nb), p2, m2)"
      and res: "reserved T p0 (H div bsz T) M blk1 e p2" "same_base p0 p1"
      and nb: "nb \<notin> C" "mem_inv m2 (insert nb C)" "\<forall>c \<in> C. blocks m2 c = blocks m1 c" "blocks m2 nb = Some bl" "blank bl" "freeListRefs bl = 0"
      and room: "M * bsz T + bsz T < H + 2 ^ 63"
    let ?blk = "blk1(M := nb)" and ?p3 = "(set_entry_value e (Some nb) p2)\<lparr>tailBlock := Some nb\<rparr>"
    obtain m4 where m4: "(if Tl div bsz T < M then
        (case tailBlock (set_entry_value e (Some nb) p2) of
           None \<Rightarrow> Undefined
         | Some t \<Rightarrow> with_block t (put_block nb ((reset_empty T implicit_context bl)\<lparr>blk_next := None\<rparr>) m2)
             (\<lambda>tb. Ret (put_block t (tb\<lparr>blk_next := Some nb\<rparr>) (put_block nb ((reset_empty T implicit_context bl)\<lparr>blk_next := None\<rparr>) m2))))
      else Ret (put_block nb ((reset_empty T implicit_context bl)\<lparr>blk_next := None\<rparr>) m2)) = Ret m4"
      and g: "grown T p m H Tl blk ctn own (Suc n) ?blk ?p3 m4"
      using link_new_block [OF T inv Suc.prems(1) M_def C_def room res nb] by blast
    have go: "implicit_bulk_alloc (Suc f) T mode (of_nat Tl) (tailBlock p) ?first (of_nat (r * bsz T)) (of_nat (M * bsz T) - BLOCK_SIZE T) p1 m1 =
      (if 0 < r' then implicit_bulk_alloc f T mode (of_nat Tl) (tailBlock p) (link ?blk (Suc M) N) (of_nat (r' * bsz T)) (of_nat (M * bsz T)) ?p3 m4
       else Ret (Some (link ?blk (Suc M) N), ?p3, m4))"
      unfolding implicit_bulk_alloc.simps(2) Let_def up down b cond more
      by (simp add: nb(4) with_block_def [of nb] m4 grown_first [OF NM [symmetric]] del: implicit_bulk_alloc.simps of_nat_mult)
    have first: "link ?blk (Suc M) N = Some (?blk N)" by (simp add: link_def N M_def)
    show ?thesis
    proof (cases "0 < r'")
      case False
      then have "n + r = Suc n" by (simp add: r')
      moreover have "implicit_bulk_alloc (Suc f) T mode (of_nat Tl) (tailBlock p) ?first (of_nat (r * bsz T)) (of_nat (M * bsz T) - BLOCK_SIZE T) p1 m1 =
        Ret (Some (Some (?blk N)), ?p3, m4)" using go first False by (simp only: if_False)
      ultimately show ?thesis using g unfolding NM by (intro disjI2 exI [of _ ?blk] exI [of _ ?p3] exI [of _ m4]) (simp only: simp_thms)
    next
      case True
      have next_base: "of_nat ((N + Suc n) * bsz T) - BLOCK_SIZE T = of_nat (M * bsz T)" by (simp add: N M_def algebra_simps)
      have "r' \<le> f" using Suc.prems(3) by (simp add: r')
      have NS: "N + Suc n = Suc M" "Suc n + r' = n + r" using NM by (simp_all add: r')
      have step: "implicit_bulk_alloc (Suc f) T mode (of_nat Tl) (tailBlock p) ?first (of_nat (r * bsz T)) (of_nat (M * bsz T) - BLOCK_SIZE T) p1 m1 =
        implicit_bulk_alloc f T mode (of_nat Tl) (tailBlock p) (link ?blk (Suc M) N) (of_nat (r' * bsz T)) (of_nat (M * bsz T)) ?p3 m4"
        using go True by (simp only: if_True)
      from Suc.IH [OF g True \<open>r' \<le> f\<close> less, unfolded next_base, unfolded NS] show ?thesis unfolding NM step .
    qed
  qed
qed simp

section \<open>Filling the blocks, or giving up\<close>

lemma grown_region_near:
  assumes T: "traits_ok T" and g: "grown T p m H Tl blk ctn own n blk1 p1 m1" and HT: "H \<le> Tl" and M: "M = nblk T Tl + n"
    and b: "b \<in> own - blk ` live T H Tl"
  shows "b \<notin> blk1 ` {Tl div bsz T..<M}"
proof
  assume "b \<in> blk1 ` {Tl div bsz T..<M}"
  then obtain j where j: "Tl div bsz T \<le> j" "j < M" "b = blk1 j" by auto
  show False
  proof (cases "j < nblk T Tl")
    case True
    then have "b = blk j" "j \<in> live T H Tl" using grownD(5) [OF g] j div_le_mono [OF HT, of "bsz T"] by auto
    then show False using b by blast
  next
    case False
    then have "b \<in> blk1 ` {nblk T Tl..<nblk T Tl + n}" using j by (auto simp: M)
    then show False using grownD(6) [OF g] b by blast
  qed
qed

lemma grown_refilled:
  assumes T: "traits_ok T" and g: "grown T p m H Tl blk ctn own n blk1 p1 m1" and HT: "H \<le> Tl" and M: "M = nblk T Tl + n"
    and reg: "region T {H div bsz T..<M} blk1 {H..<Tl} ctn (own \<union> blk1 ` {nblk T Tl..<M}) m3"
    and ref: "refilled (blk1 ` {Tl div bsz T..<M}) m1 m3"
  shows "grown T p m H Tl blk ctn own n blk1 p1 m3"
proof -
  note G = grownD [OF g, folded M]
  have "elementsCompletelyDequeued b = of_nat (H - j * bsz T)" if j: "j \<in> {H div bsz T..<M}" and b: "blocks m3 (blk1 j) = Some b" for j b
  proof -
    obtain b1 where b1: "blocks m1 (blk1 j) = Some b1" using regionD(4) [OF G(7) j] by blast
    then show ?thesis using refilledD [OF ref b1] b G(8) [OF j b1] by (metis option.inject)
  qed
  moreover have "chained blk1 (Tl div bsz T) M m3" by (rule chained_refilled [OF G(9) ref])
  moreover have "ends blk1 (nblk T Tl) M m3" using G(10) unfolding ends_def by (metis refilledD [OF ref])
  moreover have "blocks m3 b = blocks m b" if b: "b \<in> own - blk ` live T H Tl" for b
    using ref grown_region_near [OF T g HT M b] G(11) [OF b] by (simp add: refilled_def)
  ultimately show ?thesis using G reg unfolding grown_def M [symmetric] by blast
qed

definition appended ::
  "traits \<Rightarrow> implicit_producer \<Rightarrow> 'd mem \<Rightarrow> nat \<Rightarrow> nat \<Rightarrow> (nat \<Rightarrow> nat) \<Rightarrow> (nat \<Rightarrow> 'd) \<Rightarrow> nat set \<Rightarrow> nat \<Rightarrow>
   implicit_producer \<Rightarrow> 'd mem \<Rightarrow> bool" where
  "appended T p m H Tl blk ctn own e p' m' \<longleftrightarrow> same_links p' p \<and> (\<exists>blk'. imp_inv T p' m' H e blk' ctn \<and>
     mem_inv m' (own - blk ` live T H Tl \<union> blk' ` live T H e) \<and> blk' ` live T H e \<inter> (own - blk ` live T H Tl) = {} \<and>
     (\<forall>b \<in> own - blk ` live T H Tl. blocks m' b = blocks m b))"

lemma div_less_nblk: "0 < bsz T \<Longrightarrow> k < e \<Longrightarrow> k div bsz T < nblk T e"
  using nblk_pos [of T e] by (cases e) (auto simp: less_Suc_eq_le div_le_mono)

lemma grown_filled:
  assumes T: "traits_ok T" and inv: "imp_inv T p m H Tl blk ctn" and sub: "blk ` live T H Tl \<subseteq> own"
    and g: "grown T p m H Tl blk ctn own n blk1 p1 m1" and M: "M = nblk T Tl + n" "nblk T e = M" and e: "Tl < e"
    and reg: "region T {H div bsz T..<M} blk1 {H..<e} ctn (own \<union> blk1 ` {nblk T Tl..<M}) m2"
    and ref: "refilled (blk1 ` {Tl div bsz T..<M}) m1 m2"
  shows "appended T p m H Tl blk ctn own e (p1\<lparr>tailBlock := Some (blk1 (M - 1)), tailIndex := of_nat e\<rparr>) m2"
proof -
  note I = imp_invD [OF inv] and G = grownD [OF g, folded M(1)] and bs = bsz_gt_1(2) [OF T] and R = regionD [OF reg]
  let ?L = "H div bsz T" and ?N = "nblk T Tl"
  let ?q = "p1\<lparr>tailBlock := Some (blk1 (M - 1)), tailIndex := of_nat e\<rparr>"
  have LN: "?L \<le> ?N" by (rule div_le_nblk [OF bs I(4)])
  have holds: "\<exists>b. blocks m2 (blk1 j) = Some b \<and> block_holds T H e ctn j b" if j: "j \<in> live T H e" for j
  proof -
    have j': "j \<in> {?L..<M}" using j M(2) by simp
    obtain b where b: "blocks m2 (blk1 j) = Some b" "cells T {H..<e} ctn j b" using R(4) [OF j'] by blast
    obtain b1 where b1: "blocks m1 (blk1 j) = Some b1" using regionD(4) [OF G(7) j'] by blast
    have "elementsCompletelyDequeued b = of_nat (H - j * bsz T)" using refilledD [OF ref b1] b(1) G(8) [OF j' b1] by (metis option.inject)
    with b show ?thesis by (auto simp: block_holds_def cells_def)
  qed
  have tail: "tailBlock ?q = Some (blk1 (e div bsz T))" if "e mod bsz T \<noteq> 0" using nblk_unaligned [OF bs that] M(2) by auto
  have ix: "indexed T ?q ?L M blk1" using G(3) by (simp add: indexed_def)
  then have "blockIndex ?q \<noteq> []" by (auto simp: indexed_def)
  then have "imp_inv T ?q m2 H e blk1 ctn"
    unfolding imp_inv_def M(2) using I grown_base [OF g] G(4) R(2) holds ix e tail by (auto simp: M(2))
  moreover have "own - blk ` live T H Tl \<union> blk1 ` live T H e = own \<union> blk1 ` {?N..<M}"
  proof -
    have "live T H e = live T H Tl \<union> {?N..<M}" using LN M by auto
    moreover have "blk1 ` live T H Tl = blk ` live T H Tl" by (rule image_cong) (use G(5) in auto)
    ultimately show ?thesis using sub by auto
  qed
  moreover have "blk1 ` live T H e \<inter> (own - blk ` live T H Tl) = {}"
  proof -
    have "live T H e = live T H Tl \<union> {?N..<M}" using LN M by auto
    moreover have "blk1 ` live T H Tl = blk ` live T H Tl" by (rule image_cong) (use G(5) in auto)
    ultimately show ?thesis using G(6) by auto
  qed
  moreover have "\<forall>b \<in> own - blk ` live T H Tl. blocks m2 b = blocks m b"
    using ref grown_region_near [OF T g I(4) M(1)] G(11) by (auto simp: refilled_def)
  moreover have "same_links ?q p" using grown_base(5) [OF g] by (simp add: same_links_def)
  ultimately show ?thesis using R(1) unfolding appended_def by (intro conjI exI [of _ blk1]) auto
qed

lemma bulk_finish:
  assumes T: "traits_ok T" and inv: "imp_inv T p m H Tl blk ctn" and sub: "blk ` live T H Tl \<subseteq> own"
    and g: "grown T p m H Tl blk ctn own n blk1 p1 m1" and M: "M = nblk T Tl + n" "nblk T e = M" and e: "Tl < e" "e - Tl < 2 ^ 63"
    and f: "M - Tl div bsz T < f" and items: "items = map ctn [Tl..<e]" and triv: "trivially_destructible E \<longrightarrow> (\<forall>x \<in> set items. \<not> raises E x)"
  shows "\<exists>r p' m'. and_then (bulk_fill f T E (tailBlock p1) (of_nat Tl) (of_nat e) items (Some (blk1 (Tl div bsz T))) m1) (\<lambda>(ok, i, last, m2).
      if \<not> ok then
        and_then (if trivially_destructible E then Ret m2 else bulk_destroy f T (Some (blk1 (Tl div bsz T))) last (of_nat Tl) i m2) (\<lambda>m3.
        and_then (implicit_bulk_undo (Suc (nblocks m3)) T (of_nat Tl) (tailBlock p) (link blk1 M (nblk T Tl)) p1 m3) (\<lambda>(p2, m4). Ret (Exc, p2, m4)))
      else Ret (Val True, p1\<lparr>tailBlock := last, tailIndex := of_nat e\<rparr>, m2)) = Ret (r, p', m') \<and>
    (r = Val True \<and> (\<forall>x \<in> set items. \<not> raises E x) \<and> appended T p m H Tl blk ctn own e p' m' \<or>
     (r = Val False \<or> r = Exc \<and> (\<exists>x \<in> set items. raises E x)) \<and> restored T p m H Tl blk ctn own p' m')"
proof -
  note I = imp_invD [OF inv] and G = grownD [OF g, folded M(1)] and bs = bsz_gt_1(2) [OF T]
  let ?s = "Tl div bsz T" and ?N = "nblk T Tl"
  let ?own = "own \<union> blk1 ` {?N..<M}" and ?A = "blk1 ` {?s..<M}"
  have LN: "H div bsz T \<le> ?N" by (rule div_le_nblk [OF bs I(4)])
  have Ls: "H div bsz T \<le> ?s" by (rule div_le_mono [OF I(4)])
  have sM: "?s < M" using div_less_nblk [OF bs e(1)] M(2) by simp
  have J: "{?s..<nblk T e} \<subseteq> {H div bsz T..<M}" "blk1 ` {?s..<nblk T e} \<subseteq> ?A" using Ls M(2) by auto
  have tail: "tailBlock p1 = Some (blk1 (nblk T e - 1))" using grown_tail [OF T inv g] sM M by simp
  obtain k m2 where k: "bulk_fill f T E (tailBlock p1) (of_nat Tl) (of_nat e) items (Some (blk1 ?s)) m1 =
      Ret (k = e, of_nat k, Some (blk1 (if k = e then nblk T e - 1 else k div bsz T)), m2)" "first_bad (raises E) ctn Tl k e"
    "region T {H div bsz T..<M} blk1 ({H..<Tl} \<union> {Tl..<k}) ctn ?own m2" "refilled ?A m1 m2"
    using bulk_fill_region [OF T J G(7) _ le_refl e, of f E] G(9) M(2) f unfolding tail items by auto
  have ke: "Tl \<le> k" "k \<le> e" using k(2) by (auto simp: first_bad_def)
  note bad = first_bad_delivered(2) [OF k(2), folded items]
  show ?thesis
  proof (cases "k = e")
    case True
    have "{H..<Tl} \<union> {Tl..<k} = {H..<e}" using ke I(4) True by auto
    with k(3) have "region T {H div bsz T..<M} blk1 {H..<e} ctn ?own m2" by simp
    from grown_filled [OF T inv sub g M e(1) this k(4)] show ?thesis using k(1) True bad M(2)
      by (intro exI [of _ "Val True"] exI [of _ "p1\<lparr>tailBlock := Some (blk1 (M - 1)), tailIndex := of_nat e\<rparr>"] exI [of _ m2]) auto
  next
    case False
    then have kl: "k < e" using ke by simp
    then have r: "\<exists>x \<in> set items. raises E x" using bad by blast
    then have nt: "\<not> trivially_destructible E" using triv by blast
    have kM: "k div bsz T < M" using div_less_nblk [OF bs kl] M(2) by simp
    have J': "{?s..<M} \<subseteq> {H div bsz T..<M}" using Ls by auto
    have len: "k - Tl < 2 ^ 63" "k div bsz T - ?s < f" using e(2) kl kM f by auto
    obtain m3 where m3: "bulk_destroy f T (Some (blk1 ?s)) (Some (blk1 (k div bsz T))) (of_nat Tl) (of_nat k) m2 = Ret m3"
      "region T {H div bsz T..<M} blk1 ({H..<Tl} \<union> {Tl..<k} - {Tl..<k}) ctn ?own m3" "refilled ?A m2 m3"
      using bulk_destroy_region [OF T J' subset_refl kM k(3) chained_refilled [OF G(9) k(4)] le_refl ke(1) len(1) Un_upper2 len(2)] by blast
    have "{H..<Tl} \<union> {Tl..<k} - {Tl..<k} = {H..<Tl}" by auto
    with m3(2) have reg: "region T {H div bsz T..<M} blk1 {H..<Tl} ctn ?own m3" by simp
    have g3: "grown T p m H Tl blk ctn own n blk1 p1 m3"
      by (rule grown_refilled [OF T g I(4) M(1) reg refilled_trans [OF k(4) m3(3)]])
    obtain p2 m4 where "implicit_bulk_undo (Suc (nblocks m3)) T (of_nat Tl) (tailBlock p) (link blk1 M ?N) p1 m3 = Ret (p2, m4)"
      "restored T p m H Tl blk ctn own p2 m4"
      using bulk_undo_spec [OF T inv sub g3, of "Suc (nblocks m3)"] grown_few [OF LN g3] by (auto simp: M(1))
    then show ?thesis using k(1) False nt m3(1) r by (intro exI [of _ Exc] exI [of _ p2] exI [of _ m4]) simp
  qed
qed

section \<open>The whole operation\<close>

lemma imp_inv_cong:
  assumes "imp_inv T p m H Tl blk ctn" and "\<And>i. H \<le> i \<Longrightarrow> i < Tl \<Longrightarrow> ctn' i = ctn i"
  shows "imp_inv T p m H Tl blk ctn'"
proof -
  have "block_holds T H Tl ctn' j b = block_holds T H Tl ctn j b" for j b using assms(2) by (auto simp: block_holds_def)
  with assms(1) show ?thesis by (simp add: imp_inv_def)
qed

lemma grown_start:
  assumes T: "traits_ok T" and inv: "imp_inv T p m H Tl blk ctn" and mem: "mem_inv m own" and sub: "blk ` live T H Tl \<subseteq> own"
    and "blockIndex p \<noteq> []"
  shows "grown T p m H Tl blk ctn own 0 blk p m"
proof -
  note I = imp_invD [OF inv]
  have "chained blk (Tl div bsz T) (nblk T Tl) m"
    using nblk_aligned [OF bsz_gt_1(2) [OF T], of Tl] nblk_unaligned [OF bsz_gt_1(2) [OF T], of Tl]
    by (cases "Tl mod bsz T = 0") (auto simp: chained_def)
  moreover have "elementsCompletelyDequeued b = of_nat (H - j * bsz T)" if "j \<in> live T H Tl" "blocks m (blk j) = Some b" for j b
    using I(8) [OF that(1)] that(2) by (auto simp: block_holds_def)
  ultimately show ?thesis using I imp_region [OF inv mem sub] assms(5) by (simp add: grown_def ends_def)
qed

lemma bulk_without_index:
  assumes "blockIndex p = []" and "0 < bulk_diff T (tailIndex p) (of_nat (length items))"
  shows "implicit_enqueue_bulk T E mode items p m = Ret (Val False, p, m)"
  using assms by (simp add: implicit_enqueue_bulk_def implicit_bulk_block_def insert_block_index_entry_def implicit_bulk_undo_def Let_def)

lemma bulk_nothing:
  assumes T: "traits_ok T" and "tailIndex p = of_nat Tl"
  shows "implicit_enqueue_bulk T E mode [] p m = Ret (Val True, p, m)"
  using stop_index_nat [OF T, of Tl Tl] next_multiple [OF bsz_gt_1(2) [OF T], of Tl] assms(2)
  by (simp add: implicit_enqueue_bulk_def bulk_diff_def Let_def)

lemma implicit_enqueue_bulk_spec:
  assumes T: "traits_ok T" and inv: "imp_inv T p m H Tl blk ctn" and mem: "mem_inv m own" and sub: "blk ` live T H Tl \<subseteq> own"
    and ix: "blockIndex p \<noteq> []" and items: "items = map ctn [Tl..<e]" "items \<noteq> []" "length items < 2 ^ 63"
    and triv: "trivially_destructible E \<longrightarrow> (\<forall>x \<in> set items. \<not> raises E x)"
  shows "\<exists>r p' m'. implicit_enqueue_bulk T E mode items p m = Ret (r, p', m') \<and>
    (r = Val True \<and> (\<forall>x \<in> set items. \<not> raises E x) \<and> appended T p m H Tl blk ctn own e p' m' \<or>
     (r = Val False \<or> r = Exc \<and> (\<exists>x \<in> set items. raises E x)) \<and> restored T p m H Tl blk ctn own p' m')"
proof -
  note I = imp_invD [OF inv] and bs = bsz_gt_1(2) [OF T]
  let ?N = "nblk T Tl" and ?cnt = "of_nat (length items) :: 64 word"
  define r where "r = nblk T e - ?N"
  define fuel where "fuel = Suc (r * bsz T)"
  have e: "Tl < e" "length items = e - Tl" using items(1,2) by auto
  then have te: "Tl + length items = e" by simp
  note diff = bulk_diff_nat [OF T items(3), of r Tl, unfolded te, OF r_def]
  have NM: "nblk T e = ?N + r" using nblk_mono [OF bs, of Tl e] e(1) by (simp add: r_def)
  have r0: "0 < bulk_diff T (tailIndex p) ?cnt \<longleftrightarrow> 0 < r" using diff(2) bs unfolding I(2) by (simp only: word_less_nat_alt unat_0) simp
  have new: "tailIndex p + ?cnt = of_nat e" using te by (simp only: I(2) of_nat_add [symmetric])
  let ?alloc = "if 0 < bulk_diff T (tailIndex p) ?cnt then implicit_bulk_alloc fuel T mode (tailIndex p) (tailBlock p) None
      (bulk_diff T (tailIndex p) ?cnt) (base_of T (tailIndex p - 1)) p m else Ret (Some None, p, m)"
  have g0: "grown T p m H Tl blk ctn own 0 blk p m" by (rule grown_start [OF T inv mem sub ix])
  have al: "(\<exists>p2 m2. ?alloc = Ret (None, p2, m2) \<and> restored T p m H Tl blk ctn own p2 m2) \<or>
    (\<exists>blk1 p1 m1. ?alloc = Ret (Some (link blk1 (?N + r) ?N), p1, m1) \<and> grown T p m H Tl blk ctn own r blk1 p1 m1)"
  proof (cases "0 < r")
    case False
    then show ?thesis using g0 r0 by (intro disjI2 exI [of _ blk] exI [of _ p] exI [of _ m]) (simp add: link_def)
  next
    case True
    have "r * bsz T < 2 ^ 64" using diff(2) unat_lt_64 by metis
    moreover have "r \<le> fuel" using bs by (simp add: fuel_def le_SucI)
    ultimately show ?thesis using bulk_alloc_spec [OF T inv sub refl g0 True, of fuel mode] True r0 diff(1) I(2) base_before [OF T, of Tl]
      by (simp add: link_def del: of_nat_mult implicit_bulk_alloc.simps)
  qed
  have run: "implicit_enqueue_bulk T E mode items p m = and_then ?alloc (\<lambda>(q, p1, m1). case q of
      None \<Rightarrow> Ret (Val False, p1, m1)
    | Some first \<Rightarrow> and_then (bulk_fill (Suc fuel) T E (tailBlock p1) (tailIndex p) (of_nat e) items
          (if tailIndex p AND (BLOCK_SIZE T - 1) = 0 \<and> first \<noteq> None then first else tailBlock p) m1) (\<lambda>(ok, i, last, m2).
        if \<not> ok then and_then (if trivially_destructible E then Ret m2
            else bulk_destroy (Suc fuel) T (if tailIndex p AND (BLOCK_SIZE T - 1) = 0 then first else tailBlock p) last (tailIndex p) i m2) (\<lambda>m3.
          and_then (implicit_bulk_undo (Suc (nblocks m3)) T (tailIndex p) (tailBlock p) first p1 m3) (\<lambda>(p2, m4). Ret (Exc, p2, m4)))
        else Ret (Val True, p1\<lparr>tailBlock := last, tailIndex := of_nat e\<rparr>, m2)))"
    unfolding implicit_enqueue_bulk_def Let_def new fuel_def diff(2) [folded I(2), symmetric] by (rule refl)
  from al show ?thesis
  proof (elim disjE exE conjE)
    fix p2 m2 assume "?alloc = Ret (None, p2, m2)" "restored T p m H Tl blk ctn own p2 m2"
    then show ?thesis unfolding run by (intro exI [of _ "Val False"] exI [of _ p2] exI [of _ m2]) simp
  next
    fix blk1 p1 m1 assume a: "?alloc = Ret (Some (link blk1 (?N + r) ?N), p1, m1)" and g: "grown T p m H Tl blk ctn own r blk1 p1 m1"
    have first: "(if tailIndex p AND (BLOCK_SIZE T - 1) = 0 \<and> link blk1 (?N + r) ?N \<noteq> None then link blk1 (?N + r) ?N else tailBlock p) = Some (blk1 (Tl div bsz T))"
      "(if tailIndex p AND (BLOCK_SIZE T - 1) = 0 then link blk1 (?N + r) ?N else tailBlock p) = Some (blk1 (Tl div bsz T))"
    proof -
      have "Tl div bsz T < ?N + r" using div_less_nblk [OF bs e(1)] NM by simp
      then show "(if tailIndex p AND (BLOCK_SIZE T - 1) = 0 \<and> link blk1 (?N + r) ?N \<noteq> None then link blk1 (?N + r) ?N else tailBlock p) = Some (blk1 (Tl div bsz T))"
        "(if tailIndex p AND (BLOCK_SIZE T - 1) = 0 then link blk1 (?N + r) ?N else tailBlock p) = Some (blk1 (Tl div bsz T))"
        using nblk_aligned [OF bs, of Tl] nblk_unaligned [OF bs, of Tl] I(6) grownD(5) [OF g, of "Tl div bsz T"]
        by (cases "Tl mod bsz T = 0"; simp add: I(2) aligned_iff [OF T] link_def)+
    qed
    have "?N + r - Tl div bsz T < Suc fuel"
    proof -
      have "?N \<le> Suc (Tl div bsz T)" using nblk_aligned [OF bs, of Tl] nblk_unaligned [OF bs, of Tl] by (cases "Tl mod bsz T = 0") auto
      moreover have "r \<le> r * bsz T" using bs by simp
      ultimately show ?thesis unfolding fuel_def by linarith
    qed
    moreover have "e - Tl < 2 ^ 63" using items(3) e(2) by simp
    ultimately have fin: "\<exists>r' p' m'. and_then (bulk_fill (Suc fuel) T E (tailBlock p1) (of_nat Tl) (of_nat e) items (Some (blk1 (Tl div bsz T))) m1) (\<lambda>(ok, i, last, m2).
      if \<not> ok then
        and_then (if trivially_destructible E then Ret m2 else bulk_destroy (Suc fuel) T (Some (blk1 (Tl div bsz T))) last (of_nat Tl) i m2) (\<lambda>m3.
        and_then (implicit_bulk_undo (Suc (nblocks m3)) T (of_nat Tl) (tailBlock p) (link blk1 (?N + r) ?N) p1 m3) (\<lambda>(p2, m4). Ret (Exc, p2, m4)))
      else Ret (Val True, p1\<lparr>tailBlock := last, tailIndex := of_nat e\<rparr>, m2)) = Ret (r', p', m') \<and>
      (r' = Val True \<and> (\<forall>x \<in> set items. \<not> raises E x) \<and> appended T p m H Tl blk ctn own e p' m' \<or>
       (r' = Val False \<or> r' = Exc \<and> (\<exists>x \<in> set items. raises E x)) \<and> restored T p m H Tl blk ctn own p' m')"
      by (intro bulk_finish [OF T inv sub g refl NM e(1) _ _ items(1) triv])
    have eq: "implicit_enqueue_bulk T E mode items p m =
      and_then (bulk_fill (Suc fuel) T E (tailBlock p1) (of_nat Tl) (of_nat e) items (Some (blk1 (Tl div bsz T))) m1) (\<lambda>(ok, i, last, m2).
      if \<not> ok then
        and_then (if trivially_destructible E then Ret m2 else bulk_destroy (Suc fuel) T (Some (blk1 (Tl div bsz T))) last (of_nat Tl) i m2) (\<lambda>m3.
        and_then (implicit_bulk_undo (Suc (nblocks m3)) T (of_nat Tl) (tailBlock p) (link blk1 (?N + r) ?N) p1 m3) (\<lambda>(p2, m4). Ret (Exc, p2, m4)))
      else Ret (Val True, p1\<lparr>tailBlock := last, tailIndex := of_nat e\<rparr>, m2))"
      unfolding run a and_then.simps prod.case option.case first unfolding I(2) by (rule refl)
    show ?thesis unfolding eq by (rule fin)
  qed
qed

lemma implicit_enqueue_bulk_holds:
  assumes T: "traits_ok T" and "imp_holds T p m B xs" and mem: "mem_inv m own" and sub: "B \<subseteq> own" and len: "length items < 2 ^ 63"
    and triv: "trivially_destructible E \<longrightarrow> (\<forall>x \<in> set items. \<not> raises E x)"
  shows "\<exists>r p' m' B'. implicit_enqueue_bulk T E mode items p m = Ret (r, p', m') \<and>
    (r = Val True \<and> (\<forall>x \<in> set items. \<not> raises E x) \<and> imp_holds T p' m' B' (xs @ items) \<or>
     (r = Val False \<or> r = Exc \<and> (\<exists>x \<in> set items. raises E x)) \<and> imp_holds T p' m' B' xs) \<and>
    mem_inv m' (own - B \<union> B') \<and> B' \<inter> (own - B) = {} \<and> (\<forall>b \<in> own - B. blocks m' b = blocks m b) \<and> same_links p' p"
proof -
  obtain H Tl blk ctn0 where inv0: "imp_inv T p m H Tl blk ctn0" and B: "B = blk ` live T H Tl" and xs: "xs = contents H Tl ctn0"
    using assms(2) by (auto simp: imp_holds_def)
  note I = imp_invD [OF inv0]
  have BB: "own - B \<union> B = own" "B \<inter> (own - B) = {}" using sub by auto
  define ctn where "ctn i = (if i < Tl then ctn0 i else items ! (i - Tl))" for i
  define e where "e = Tl + length items"
  have inv: "imp_inv T p m H Tl blk ctn" by (rule imp_inv_cong [OF inv0]) (simp add: ctn_def)
  have items: "items = map ctn [Tl..<e]" by (rule nth_equalityI) (auto simp: ctn_def e_def)
  have xs': "xs = contents H Tl ctn" unfolding xs contents_def by (rule map_cong) (auto simp: ctn_def)
  have app: "xs @ items = contents H e ctn"
    unfolding xs' contents_def items using I(4) by (metis e_def le_add1 le_Suc_ex map_append upt_add_eq_append)
  show ?thesis
  proof (cases "items = []")
    case True
    then show ?thesis using bulk_nothing [OF T I(2), of E mode m] assms(2) mem BB
      by (intro exI [of _ "Val True"] exI [of _ p] exI [of _ m] exI [of _ B]) (simp add: same_links_def)
  next
    case ne: False
    show ?thesis
    proof (cases "blockIndex p = []")
      case True
      then have "Tl = 0" using I(9) by simp
      then have "nblk T 0 < nblk T (0 + length items)" using ne nblk_0 nblk_pos bsz_gt_1(2) [OF T] by simp
      then have "0 < unat (bulk_diff T (of_nat Tl) (of_nat (length items)))"
        using bulk_diff_nat(2) [OF T len refl, of Tl] \<open>Tl = 0\<close> bsz_gt_1(2) [OF T] by simp
      then have "0 < bulk_diff T (tailIndex p) (of_nat (length items))" by (simp add: I(2) word_less_nat_alt)
      from bulk_without_index [OF True this] show ?thesis using assms(2) mem BB
        by (intro exI [of _ "Val False"] exI [of _ p] exI [of _ m] exI [of _ B]) (simp add: same_links_def)
    next
      case False
      from implicit_enqueue_bulk_spec [OF T inv mem sub [unfolded B] False items ne len triv, of mode]
      obtain r p' m' where run: "implicit_enqueue_bulk T E mode items p m = Ret (r, p', m')" and
        "r = Val True \<and> (\<forall>x \<in> set items. \<not> raises E x) \<and> appended T p m H Tl blk ctn own e p' m' \<or>
         (r = Val False \<or> r = Exc \<and> (\<exists>x \<in> set items. raises E x)) \<and> restored T p m H Tl blk ctn own p' m'"
        by (elim exE conjE) (rule that)
      from this(2) show ?thesis
      proof (elim disjE [of "r = Val True \<and> _"] conjE)
        assume r: "r = Val True" "\<forall>x \<in> set items. \<not> raises E x" and "appended T p m H Tl blk ctn own e p' m'"
        then obtain blk' where a: "same_links p' p" "imp_inv T p' m' H e blk' ctn" "mem_inv m' (own - B \<union> blk' ` live T H e)"
          "blk' ` live T H e \<inter> (own - B) = {}" "\<forall>b \<in> own - B. blocks m' b = blocks m b" by (auto simp: appended_def B)
        have "imp_holds T p' m' (blk' ` live T H e) (xs @ items)" using a(2) unfolding imp_holds_def app by blast
        then show ?thesis using run r a by (intro exI [of _ r] exI [of _ p'] exI [of _ m'] exI [of _ "blk' ` live T H e"]) simp
      next
        assume r: "r = Val False \<or> r = Exc \<and> (\<exists>x \<in> set items. raises E x)" and "restored T p m H Tl blk ctn own p' m'"
        then have a: "same_links p' p" "imp_inv T p' m' H Tl blk ctn" "mem_inv m' own" "\<forall>b \<in> own - B. blocks m' b = blocks m b"
          by (auto simp: restored_def B)
        have "imp_holds T p' m' B xs" using a(2) unfolding imp_holds_def B xs' by blast
        then show ?thesis using run r a BB by (intro exI [of _ r] exI [of _ p'] exI [of _ m'] exI [of _ B]) simp
      qed
    qed
  qed
qed

end
