(* ===== verification/CQ_Explicit_Take.thy ===== *)
theory CQ_Explicit_Take
  imports CQ_Implicit_Take CQ_Shared
begin

text \<open>
  What a bulk dequeue of an explicit producer does to its content. The blocks stay in the circular list; what
  was taken out of a block is marked as empty in one go.
\<close>

section \<open>The limit of the memory\<close>

lemma destroy_run_limit [keeps_limit]: "destroy_run n T b i m = Ret m' \<Longrightarrow> heap_limit m' = heap_limit m"
  by (induction n arbitrary: i m) (auto simp: outcome_simps split: option.split_asm dest!: keeps_limit)

lemma take_run_limit [keeps_limit]: "take_run n T E b i m = Ret (els, threw, k, m') \<Longrightarrow> heap_limit m' = heap_limit m"
  by (induction n arbitrary: i m els) (force simp: outcome_simps split: if_split_asm dest!: keeps_limit)+

lemma mark_many_limit [keeps_limit]: "mark_many T ctx i c b m = Ret (r, m') \<Longrightarrow> heap_limit m' = heap_limit m"
  by (auto simp: mark_many_def outcome_simps case_prod_beta)

lemma explicit_abandon_limit [keeps_limit]: "explicit_abandon f T p ix s i n e m = Ret m' \<Longrightarrow> heap_limit m' = heap_limit m"
  by (induction f arbitrary: ix s i n m) (force simp: outcome_simps split: if_split_asm list.split_asm dest!: keeps_limit)+

lemma explicit_take_limit [keeps_limit]: "explicit_take f T E p ix i e m = Ret (els, threw, m') \<Longrightarrow> heap_limit m' = heap_limit m"
proof (induction f arbitrary: ix i m els threw)
  case (Suc f)
  from Suc.prems show ?case
    by (cases "ex_blockIndex p") (auto simp: Let_def outcome_simps split: if_split_asm dest!: Suc.IH take_run_limit explicit_abandon_limit mark_many_limit)
qed simp

lemma explicit_dequeue_bulk_limit [keeps_limit]:
  "explicit_dequeue_bulk T E mx p m = Ret (r, els, p', m') \<Longrightarrow> heap_limit m' = heap_limit m"
  by (auto simp: explicit_dequeue_bulk_def Let_def outcome_simps simp del: explicit_take.simps split: if_split_asm dest!: keeps_limit)

section \<open>Marking many slots\<close>

lemma many_first:
  assumes T: "traits_ok T" and "s = i mod bsz T" and "s + c \<le> bsz T"
  shows "unat (BLOCK_SIZE T - 1 - ((of_nat i :: 64 word) AND (BLOCK_SIZE T - 1)) - of_nat c + 1) = bsz T - s - c"
proof -
  have "BLOCK_SIZE T - 1 - (of_nat i AND (BLOCK_SIZE T - 1)) - of_nat c + 1 = (of_nat (bsz T - s - c) :: 64 word)"
    using assms(3) by (simp add: and_block_mask [OF T] assms(2) [symmetric] of_nat_diff)
  moreover have "bsz T - s - c < 2 ^ 64" using unat_lt_64 [of "BLOCK_SIZE T"] by simp
  ultimately show ?thesis by (simp only: unat_of_nat_64)
qed

lemma set_many_marked:
  assumes T: "traits_ok T" and s: "s = i mod bsz T" "s + c \<le> bsz T" and "marked T b s"
  shows "marked T (snd (set_many_empty T explicit_context (of_nat i) (of_nat c) b)) (s + c)"
proof (cases "by_flags T explicit_context")
  case True
  have c: "unat (of_nat c :: 64 word) = c" using s(2) unat_lt_64 [of "BLOCK_SIZE T"] by (intro unat_of_nat_64) simp
  have slots: "bsz T - 1 - r \<in> (\<lambda>j. bsz T - s - c + j) ` {0..<c} \<longleftrightarrow> s \<le> r \<and> r < s + c" if "r < bsz T" for r
  proof
    assume "s \<le> r \<and> r < s + c"
    then show "bsz T - 1 - r \<in> (\<lambda>j. bsz T - s - c + j) ` {0..<c}"
      using s(2) that by (intro image_eqI [of _ _ "s + c - 1 - r"]) auto
  qed (use s(2) that in auto)
  have flags: "emptyFlags (snd (set_many_empty T explicit_context (of_nat i) (of_nat c) b)) =
      (\<lambda>f. f \<in> (\<lambda>j. bsz T - s - c + j) ` {0..<c} \<or> emptyFlags b f)"
    unfolding set_many_empty_def many_first [OF T s] c Let_def foldl_flags [of "\<lambda>j. bsz T - s - c + j"] using True by (auto simp: fun_eq_iff)
  have old: "emptyFlags b (bsz T - 1 - r) \<longleftrightarrow> r < s" if "r < bsz T" for r using assms(4) True that by (simp add: marked_def)
  have "(bsz T - 1 - r \<in> (\<lambda>j. bsz T - s - c + j) ` {0..<c} \<or> emptyFlags b (bsz T - 1 - r)) = (r < s + c)" if "r < bsz T" for r
    by (simp only: slots [OF that] old [OF that]) auto
  then show ?thesis using True unfolding marked_def flags by (simp only: if_True) blast
next
  case False
  with assms(4) show ?thesis by (simp add: marked_def set_many_empty_def Let_def)
qed

lemma set_many_same [simp]:
  "elements (snd (set_many_empty T ctx i c b)) = elements b" "blk_next (snd (set_many_empty T ctx i c b)) = blk_next b"
  "freeListRefs (snd (set_many_empty T ctx i c b)) = freeListRefs b"
  by (simp_all add: set_many_empty_def Let_def)

section \<open>Bulk dequeue\<close>

text \<open>The producer as it was when index \<open>i\<close> was the next to be taken, and the memory at that moment.\<close>

definition exp_rewound :: "nat \<Rightarrow> explicit_producer \<Rightarrow> explicit_producer" where
  "exp_rewound i q = q\<lparr>headIndex := of_nat i, dequeueOptimisticCount := of_nat i + dequeueOvercommit q\<rparr>"

lemma exp_rewound_simps [simp]:
  "headIndex (exp_rewound i q) = of_nat i" "tailIndex (exp_rewound i q) = tailIndex q" "tailBlock (exp_rewound i q) = tailBlock q"
  "dequeueOptimisticCount (exp_rewound i q) - dequeueOvercommit (exp_rewound i q) = of_nat i"
  "ex_blockIndex (exp_rewound i q) = ex_blockIndex q" "exp_index T (exp_rewound i q) S N blk = exp_index T q S N blk"
  by (simp_all add: exp_rewound_def exp_index_def split: list.split)

lemma exp_rewound_id:
  assumes "headIndex p = of_nat i" and "dequeueOptimisticCount p - dequeueOvercommit p = of_nat i"
  shows "exp_rewound i p = p"
proof -
  have "of_nat i + dequeueOvercommit p = dequeueOptimisticCount p" using assms(2) by (metis diff_add_cancel)
  then show ?thesis using assms(1) [symmetric] by (simp add: exp_rewound_def)
qed

definition taken_to ::
  "traits \<Rightarrow> explicit_producer \<Rightarrow> 'd mem \<Rightarrow> nat set \<Rightarrow> nat \<Rightarrow> nat \<Rightarrow> (nat \<Rightarrow> nat) \<Rightarrow> (nat \<Rightarrow> 'd) \<Rightarrow> nat \<Rightarrow> 'd mem \<Rightarrow> bool" where
  "taken_to T q m own S Tl blk ctn i m' \<longleftrightarrow> exp_inv T (exp_rewound i q) m' S i Tl blk ctn \<and> mem_inv m' own \<and>
     blk ` {S..<nblk T Tl} \<subseteq> own \<and> (\<forall>b \<in> own - blk ` {S..<nblk T Tl}. blocks m' b = blocks m b)"

lemma exp_region:
  assumes "taken_to T q m0 own S Tl blk ctn i m"
  shows "region T {S..<nblk T Tl} blk {i..<Tl} ctn own m"
proof -
  have inv: "exp_inv T (exp_rewound i q) m S i Tl blk ctn" using assms by (simp add: taken_to_def)
  have "\<exists>b. blocks m (blk j) = Some b \<and> cells T {i..<Tl} ctn j b" if "j \<in> {S..<nblk T Tl}" for j
    using exp_invD(10) [OF inv, of j] that by (auto simp: ex_holds_def cells_def)
  with assms exp_invD(9) [OF inv] show ?thesis by (simp add: region_def taken_to_def)
qed

text \<open>What other blocks count does not change when the head moves within one block.\<close>

lemma count_elsewhere:
  assumes "k \<noteq> i div b" and "i \<le> n" and "n \<le> Suc (i div b) * b" and "0 < (b :: nat)"
  shows "min b (n - k * b) = min b (i - k * b)"
proof (cases "k < i div b")
  case True
  then have "Suc k * b \<le> i div b * b" by (intro mult_le_mono1) simp
  also have "\<dots> \<le> i" by simp
  finally have "b + k * b \<le> i" by simp
  then have "b \<le> i - k * b" "b \<le> n - k * b" using assms(2) by linarith+
  then show ?thesis by (simp only: min.absorb1)
next
  case False
  then have "Suc (i div b) * b \<le> k * b" using assms(1) by (intro mult_le_mono1) simp
  then have "n - k * b = 0" "i - k * b = 0" using assms(2,3) by linarith+
  then show ?thesis by simp
qed

lemma explicit_mark_spec:
  assumes T: "traits_ok T" and at: "taken_to T q m0 own S Tl blk ctn i m"
    and i: "i < Tl" "i \<le> n" "n \<le> Tl" "n \<le> Suc (i div bsz T) * bsz T"
    and reg: "region T {S..<nblk T Tl} blk {n..<Tl} ctn own m1" and ref: "refilled (blk ` {S..<nblk T Tl}) m m1"
  shows "\<exists>r m'. mark_many T explicit_context (of_nat i) (of_nat (n - i)) (blk (i div bsz T)) m1 = Ret (r, m') \<and>
    taken_to T q m0 own S Tl blk ctn n m'"
proof -
  have inv: "exp_inv T (exp_rewound i q) m S i Tl blk ctn" and frame: "\<forall>b \<in> own - blk ` {S..<nblk T Tl}. blocks m b = blocks m0 b"
    and sub: "blk ` {S..<nblk T Tl} \<subseteq> own" using at by (auto simp: taken_to_def)
  note I = exp_invD [OF inv] and bs = bsz_gt_1(2) [OF T]
  let ?j = "i div bsz T" and ?N = "nblk T Tl"
  have j: "?j \<in> {S..<?N}" using live_Suc(1) [OF i(1) bs] I(6) by auto
  then have own: "blk ?j \<in> own" using sub by blast
  obtain b1 where b1: "blocks m1 (blk ?j) = Some b1" "cells T {n..<Tl} ctn ?j b1" using regionD(4) [OF reg j] by blast
  let ?r = "set_many_empty T explicit_context (of_nat i) (of_nat (n - i)) b1"
  let ?m = "put_block (blk ?j) (snd ?r) m1"
  have "freeListRefs (snd ?r) = 0" using pool.used [OF regionD(1) [OF reg] own] b1(1) by auto
  then have mem': "mem_inv ?m own" "blocks ?m = (blocks m1)(blk ?j \<mapsto> snd ?r)" using pool.put_used [OF regionD(1) [OF reg] own] by auto
  have run: "mark_many T explicit_context (of_nat i) (of_nat (n - i)) (blk ?j) m1 = Ret (fst ?r, ?m)"
    using b1(1) by (simp add: mark_many_def with_block_def case_prod_beta)
  have jb: "?j * bsz T + i mod bsz T = i" "i mod bsz T < bsz T" using bs by simp_all
  have here: "i mod bsz T + (n - i) \<le> bsz T" "n - ?j * bsz T = i mod bsz T + (n - i)" "i - ?j * bsz T = i mod bsz T"
    using jb i(2,4) by (simp, linarith)+
  have holds: "\<exists>b. blocks ?m (blk k) = Some b \<and> blk_next b = Some (blk (ring_next S ?N k)) \<and> ex_holds T n Tl ctn k b"
    if k: "k \<in> {S..<?N}" for k
  proof -
    obtain b0 where b0: "blocks m (blk k) = Some b0" "blk_next b0 = Some (blk (ring_next S ?N k))" "ex_holds T i Tl ctn k b0"
      using I(10) [of k] k by auto
    obtain c where c: "blocks m1 (blk k) = Some c" "cells T {n..<Tl} ctn k c" using regionD(4) [OF reg k] by blast
    have same: "blk_next c = blk_next b0" "elementsCompletelyDequeued c = elementsCompletelyDequeued b0" "emptyFlags c = emptyFlags b0"
      using refilledD [OF ref b0(1)] c(1) by (metis option.inject)+
    have mk: "marked T c (min (bsz T) (i - k * bsz T))" using b0(3) marked_cong [OF same(3,2)] by (simp add: ex_holds_def)
    show ?thesis
    proof (cases "k = ?j")
      case True
      then have "marked T b1 (i mod bsz T)" using mk c(1) b1(1) here(3) jb(2) by simp
      from set_many_marked [OF T refl here(1) this]
      have "marked T (snd ?r) (min (bsz T) (n - ?j * bsz T))" using here(1) by (simp only: here(2) min.absorb2)
      then have "ex_holds T n Tl ctn k (snd ?r)" using b1(2) True by (simp add: ex_holds_def cells_def)
      moreover have "blocks ?m (blk k) = Some (snd ?r)" "b1 = c" using True b1(1) c(1) mem'(2) by simp_all
      ultimately show ?thesis using same(1) b0(2) by (intro exI [of _ "snd ?r"]) simp
    next
      case False
      then have "blk k \<noteq> blk ?j" using inj_on_eq_iff [OF I(9) k j] by simp
      then show ?thesis using c same(1) b0(2) mk count_elsewhere [OF False i(2,4) bs] by (auto simp: mem'(2) ex_holds_def cells_def)
    qed
  qed
  have "exp_inv T (exp_rewound n q) ?m S n Tl blk ctn"
    unfolding exp_inv_def
  proof (intro conjI)
    show "S \<le> n div bsz T" using I(6) div_le_mono [OF i(2), of "bsz T"] by simp
    show "nblk T Tl * bsz T < n + 2 ^ 63" using I(5) i(2) by linarith
  qed (use I i(3) holds in auto)
  moreover have "\<forall>b \<in> own - blk ` {S..<?N}. blocks ?m b = blocks m0 b" using ref mem'(2) frame j by (auto simp: refilled_def)
  ultimately show ?thesis using run mem'(1) sub by (auto simp: taken_to_def)
qed

text \<open>The consumer finds the blocks one after the other.\<close>

lemma taken_index:
  assumes "taken_to T q m0 own S Tl blk ctn i m" and "ex_blockIndex q = h # hs"
  shows "ex_index_ok T h (pr_blockIndexFront q) S (nblk T Tl) blk"
proof -
  have "exp_inv T (exp_rewound i q) m S i Tl blk ctn" using assms(1) by (simp add: taken_to_def)
  from exp_invD(11) [OF this] have "exp_index T q S (nblk T Tl) blk" by simp
  with assms(2) show ?thesis by (simp add: exp_index_def)
qed

lemma ex_next_place:
  assumes ok: "ex_index_ok T h front S N blk" and j: "S \<le> j" "Suc j < N"
  shows "(of_nat (ring_pos (unat (ix_size h)) (unat (ix_front h)) N j) + 1) AND (ix_size h - 1) =
    (of_nat (ring_pos (unat (ix_size h)) (unat (ix_front h)) N (Suc j)) :: 64 word)"
proof -
  obtain c where c: "unat (ix_size h) = 2 ^ c" "c < 64" "ix_size h = 2 ^ c" using ex_index_cap [OF ok] by blast
  show ?thesis using ring_next_word [OF c(1,3,2) j(2), of "unat (ix_front h)"] ex_index_okD(4,6) [OF ok] j by simp
qed

lemma explicit_abandon_spec:
  assumes T: "traits_ok T" and e: "e \<le> Tl" and h: "ex_blockIndex q = h # hs"
  shows "taken_to T q m0 own S Tl blk ctn s m1 \<Longrightarrow> s < Tl \<Longrightarrow> s \<le> i \<Longrightarrow> i \<le> n \<Longrightarrow> n = min e (Suc (s div bsz T) * bsz T) \<Longrightarrow>
    e - s < 2 ^ 63 \<Longrightarrow> region T {S..<nblk T Tl} blk {i..<Tl} ctn own m \<Longrightarrow> refilled (blk ` {S..<nblk T Tl}) m1 m \<Longrightarrow> e - s < f \<Longrightarrow>
    \<exists>m'. explicit_abandon f T q (of_nat (ring_pos (unat (ix_size h)) (unat (ix_front h)) (nblk T Tl) (s div bsz T))) (of_nat s) (of_nat i) (of_nat n)
        (of_nat e) m = Ret m' \<and> taken_to T q m0 own S Tl blk ctn e m'"
proof (induction f arbitrary: s i n m1 m)
  case (Suc f)
  note bs = bsz_gt_1(2) [OF T] and X = taken_index [OF Suc.prems(1) h]
  let ?j = "s div bsz T" and ?N = "nblk T Tl"
  let ?pos = "ring_pos (unat (ix_size h)) (unat (ix_front h)) ?N"
  have inv: "exp_inv T (exp_rewound s q) m1 S s Tl blk ctn" using Suc.prems(1) by (simp add: taken_to_def)
  have j: "?j \<in> {S..<?N}" using live_Suc(1) [OF Suc.prems(2) bs] exp_invD(6) [OF inv] by auto
  have n: "n \<le> e" "n \<le> Suc ?j * bsz T" "n \<le> Tl" "s \<le> n" using Suc.prems(3-5) e by simp_all
  have at: "explicit_block_at (of_nat (?pos ?j)) q = Ret (blk ?j)" using ex_place(1) [OF T h X] j by simp
  have i: "n - i \<noteq> 0 \<longrightarrow> i div bsz T = ?j" using same_block [OF bs Suc.prems(3) _ n(2)] by simp
  have sub: "{i..<n - i + i} \<subseteq> {i..<Tl}" using n(3) Suc.prems(4) by auto
  have blk_j: "blk ?j \<in> blk ` {S..<?N}" using j by (rule imageI)
  obtain m2 where m2: "destroy_run (n - i) T (Some (blk ?j)) (of_nat i) m = Ret m2"
    "region T {S..<?N} blk ({i..<Tl} - {i..<n - i + i}) ctn own m2" "refilled (blk ` {S..<?N}) m m2"
    using destroy_run_region [OF T j blk_j Suc.prems(7) i _ sub] n(2) Suc.prems(4) by auto
  have rest: "{i..<Tl} - {i..<n - i + i} = {n..<Tl}" using Suc.prems(4) by auto
  obtain r m3 where mk: "mark_many T explicit_context (of_nat s) (of_nat (n - s)) (blk ?j) m2 = Ret (r, m3)" "taken_to T q m0 own S Tl blk ctn n m3"
    using explicit_mark_spec [OF T Suc.prems(1,2) n(4,3,2) m2(2) [unfolded rest] refilled_trans [OF Suc.prems(8) m2(3)]] by blast
  have run: "unat (of_nat n - of_nat i :: 64 word) = n - i" "of_nat n - of_nat s = (of_nat (n - s) :: 64 word)"
    "(of_nat n :: 64 word) = of_nat e \<longleftrightarrow> n = e"
    using Suc.prems(3,4,6) n(1) by (auto intro!: unat_distance of_nat_eq_near simp: of_nat_diff)
  show ?case
  proof (cases "n = e")
    case True
    then show ?thesis using mk at m2(1) run by simp
  next
    case False
    note nx = next_block [OF bs Suc.prems(5) False e]
    have pl: "(of_nat (?pos ?j) + 1) AND (ix_size h - 1) = (of_nat (?pos (Suc ?j)) :: 64 word)" using ex_next_place [OF X _ nx(2)] j by simp
    have "s < n" using nx(3) next_multiple [OF bs, of s] Suc.prems(5) by simp
    then have "n < Tl" "e - n < 2 ^ 63" "e - n < f" using Suc.prems(6,9) nx(3) e by auto
    note IH = Suc.IH [OF mk(2) this(1) le_refl _ refl this(2) exp_region [OF mk(2)] refilled_refl this(3)]
    obtain m4 where "explicit_abandon f T q (of_nat (?pos (Suc ?j))) (of_nat n) (of_nat n) (of_nat (min e (Suc (n div bsz T) * bsz T))) (of_nat e) m3 = Ret m4"
      "taken_to T q m0 own S Tl blk ctn e m4" using IH nx next_multiple [OF bs, of n] by auto
    moreover have "stop_index T (of_nat n) (of_nat e) = of_nat (min e (Suc (n div bsz T) * bsz T))"
      using stop_index_nat [OF T, of n e] n(1) \<open>e - n < 2 ^ 63\<close> by simp
    ultimately show ?thesis using at m2(1) run pl mk(1) False h by auto
  qed
qed simp

lemma explicit_take_spec:
  assumes T: "traits_ok T" and e: "e \<le> Tl" and h: "ex_blockIndex q = h # hs"
  shows "taken_to T q m0 own S Tl blk ctn i m \<Longrightarrow> i < Tl \<Longrightarrow> i \<le> e \<Longrightarrow> e - i < 2 ^ 63 \<Longrightarrow> Suc (e - i) < f \<Longrightarrow>
    \<exists>k m'. explicit_take f T E q (of_nat (ring_pos (unat (ix_size h)) (unat (ix_front h)) (nblk T Tl) (i div bsz T))) (of_nat i) (of_nat e) m =
        Ret (map ctn [i..<k], k < e, m') \<and> first_bad (assign_raises E) ctn i k e \<and> taken_to T q m0 own S Tl blk ctn e m'"
proof (induction f arbitrary: i m)
  case (Suc f)
  note bs = bsz_gt_1(2) [OF T] and X = taken_index [OF Suc.prems(1) h]
  let ?j = "i div bsz T" and ?N = "nblk T Tl"
  let ?pos = "ring_pos (unat (ix_size h)) (unat (ix_front h)) ?N"
  define n where "n = min e (Suc ?j * bsz T)"
  have inv: "exp_inv T (exp_rewound i q) m S i Tl blk ctn" using Suc.prems(1) by (simp add: taken_to_def)
  have j: "?j \<in> {S..<?N}" using live_Suc(1) [OF Suc.prems(2) bs] exp_invD(6) [OF inv] by auto
  have n: "n \<le> e" "n \<le> Suc ?j * bsz T" "i \<le> n" "n \<le> Tl" using next_multiple [OF bs, of i] Suc.prems(3) e by (simp_all add: n_def)
  have st: "stop_index T (of_nat i) (of_nat e) = of_nat n" using stop_index_nat [OF T Suc.prems(3,4)] by (simp add: n_def)
  have at: "explicit_block_at (of_nat (?pos ?j)) q = Ret (blk ?j)" using ex_place(1) [OF T h X] j by simp
  have blk_j: "blk ?j \<in> blk ` {S..<?N}" using j by (rule imageI)
  have sub: "{i..<n - i + i} \<subseteq> {i..<Tl}" using n by auto
  obtain k m1 where k: "take_run (n - i) T E (blk ?j) (of_nat i) m = Ret (map ctn [i..<k], k < n, of_nat k, m1)"
    "first_bad (assign_raises E) ctn i k n" "region T {S..<?N} blk ({i..<Tl} - {i..<k}) ctn own m1" "refilled (blk ` {S..<?N}) m m1"
    using take_run_region [OF T j blk_j exp_region [OF Suc.prems(1)] _ _ sub, of E] n(2,3) by auto
  have kn: "i \<le> k" "k \<le> n" using k(2) by (auto simp: first_bad_def)
  then have rest: "{i..<Tl} - {i..<k} = {k..<Tl}" by auto
  have run: "unat (of_nat n - of_nat i :: 64 word) = n - i" "of_nat n - of_nat i = (of_nat (n - i) :: 64 word)"
    "(of_nat n :: 64 word) = of_nat e \<longleftrightarrow> n = e"
    using Suc.prems(3,4) n by (auto intro!: unat_distance of_nat_eq_near simp: of_nat_diff)
  show ?case
  proof (cases "k < n")
    case True
    have "e - i < f" using Suc.prems(5) by simp
    from explicit_abandon_spec [OF T e h Suc.prems(1,2) kn n_def Suc.prems(4) k(3) [unfolded rest] k(4) this]
    obtain m' where "explicit_abandon f T q (of_nat (?pos ?j)) (of_nat i) (of_nat k) (of_nat n) (of_nat e) m1 = Ret m'"
      "taken_to T q m0 own S Tl blk ctn e m'" by blast
    moreover have "k < e" "first_bad (assign_raises E) ctn i k e" using True n(1) first_bad_extend [OF k(2) True n(1)] by auto
    ultimately show ?thesis using True st at k(1) run(1) by (intro exI [of _ k] exI [of _ m']) simp
  next
    case False
    then have kn': "k = n" using kn by simp
    obtain r m2 where mk: "mark_many T explicit_context (of_nat i) (of_nat (n - i)) (blk ?j) m1 = Ret (r, m2)" "taken_to T q m0 own S Tl blk ctn n m2"
      using explicit_mark_spec [OF T Suc.prems(1,2) n(3,4,2) k(3) [unfolded rest, unfolded kn'] k(4)] by blast
    show ?thesis
    proof (cases "n = e")
      case True
      then show ?thesis using mk at k(1,2) run st kn' by (intro exI [of _ e] exI [of _ m2]) simp
    next
      case ne: False
      note nx = next_block [OF bs n_def ne e]
      have pl: "(of_nat (?pos ?j) + 1) AND (ix_size h - 1) = (of_nat (?pos (Suc ?j)) :: 64 word)" using ex_next_place [OF X _ nx(2)] j by simp
      have "i < n" using nx(3) next_multiple [OF bs, of i] by (simp add: n_def)
      then have "n < Tl" "e - n < 2 ^ 63" "Suc (e - n) < f" using Suc.prems(4,5) nx(3) e by auto
      from Suc.IH [OF mk(2) this(1) n(1) this(2,3)] obtain k2 m3 where
        k2: "explicit_take f T E q (of_nat (?pos (Suc ?j))) (of_nat n) (of_nat e) m2 = Ret (map ctn [n..<k2], k2 < e, m3)"
        "first_bad (assign_raises E) ctn n k2 e" "taken_to T q m0 own S Tl blk ctn e m3" unfolding nx(1) by blast
      have "n \<le> k2" using k2(2) by (simp add: first_bad_def)
      then have "map ctn [i..<n] @ map ctn [n..<k2] = map ctn [i..<k2]" using n(3) by (metis le_Suc_ex map_append upt_add_eq_append)
      moreover have "first_bad (assign_raises E) ctn i k2 e" using first_bad_trans [OF _ k2(2)] k(2) kn' by blast
      ultimately show ?thesis using k2 at k(1) run pl mk(1) ne st kn' h by (intro exI [of _ k2] exI [of _ m3]) simp
    qed
  qed
qed simp

lemma explicit_dequeue_bulk_run:
  assumes "circular_less_than 0 D" and "tailIndex p - (dequeueOptimisticCount p - dequeueOvercommit p) = D" and c: "c = (if D < mx then D else mx)"
    and q: "q = p\<lparr>dequeueOptimisticCount := dequeueOptimisticCount p + c, headIndex := headIndex p + c\<rparr>"
  shows "explicit_dequeue_bulk T E mx p m =
    and_then (explicit_index_of T (headIndex p) q) (\<lambda>indexIndex.
    and_then (explicit_take (unat c + 2) T E q indexIndex (headIndex p) (headIndex p + c) m) (\<lambda>(els, threw, m1).
      Ret (if threw then Exc else Val c, els, q, m1)))"
proof -
  have "(if c < D then c else D) = c" unfolding c by auto
  with assms(1,2) show ?thesis by (simp add: explicit_dequeue_bulk_def q c [symmetric] del: explicit_take.simps) (simp add: Let_def del: explicit_take.simps)
qed

lemma explicit_dequeue_bulk_holds:
  assumes "exp_queue T E p m B xs" and mem: "mem_inv m own" and sub: "B \<subseteq> own" and n_def: "n = min (length xs) (unat mx)"
  shows "\<exists>p' m'. explicit_dequeue_bulk T E mx p m =
      Ret (if \<exists>x \<in> set (take n xs). assign_raises E x then Exc else Val (of_nat n), delivered E n xs, p', m') \<and>
    exp_queue T E p' m' B (drop n xs) \<and> moves m own B m' B \<and> same_links p' p"
proof -
  obtain S H Tl blk ctn where T: "traits_ok T" and E: "\<forall>x. \<not> raises E x" and lim: "heap_limit m * bsz T < 2 ^ 63"
    and inv: "exp_inv T p m S H Tl blk ctn" and B: "B = blk ` {S..<nblk T Tl}" and xs: "xs = contents H Tl ctn"
    using assms(1) by (auto simp: exp_queue_def)
  note bs = bsz_gt_1(2) [OF T] and I = exp_invD [OF inv]
  have gap: "Tl - H < 2 ^ 63" using gap_bound [OF I(4,5) bs] .
  have len: "length xs = Tl - H" by (simp add: xs contents_def)
  have des: "tailIndex p - (dequeueOptimisticCount p - dequeueOvercommit p) = of_nat (Tl - H)" using I(2-4) by (simp add: of_nat_diff)
  have pos: "circular_less_than 0 (of_nat (Tl - H)) \<longleftrightarrow> H < Tl" using circular_less_than_ahead [of 0 "Tl - H"] gap by auto
  have un: "unat (of_nat (Tl - H) :: 64 word) = Tl - H" using gap by (intro unat_of_nat_64) simp
  show ?thesis
  proof (cases "H < Tl")
    case False
    then have "explicit_dequeue_bulk T E mx p m = Ret (Val 0, [], p, m)" using pos des by (simp add: explicit_dequeue_bulk_def Let_def)
    moreover have "xs = []" using False len by auto
    ultimately show ?thesis using assms(1) moves_refl [OF mem sub]
      by (intro exI [of _ p] exI [of _ m]) (simp add: n_def delivered_def same_links_def)
  next
    case lt: True
    define e where "e = H + n"
    have e: "e \<le> Tl" "H \<le> e" "e - H = n" using lt by (simp_all add: e_def n_def len)
    have cnt: "(of_nat n :: 64 word) = (if of_nat (Tl - H) < mx then of_nat (Tl - H) else mx)"
      using un by (auto simp: word_less_nat_alt n_def len min_def)
    define q where "q = p\<lparr>dequeueOptimisticCount := dequeueOptimisticCount p + of_nat n, headIndex := headIndex p + of_nat n\<rparr>"
    have jN: "S \<le> H div bsz T" "H div bsz T < nblk T Tl" using live_Suc(1) [OF lt bs] I(6) by auto
    obtain h hs where h: "ex_blockIndex p = h # hs" "ex_index_ok T h (pr_blockIndexFront p) S (nblk T Tl) blk"
      using I(11) jN by (auto simp: exp_index_def split: list.splits)
    have "exp_rewound H q = exp_rewound H p" by (simp add: q_def exp_rewound_def)
    then have start: "taken_to T q m own S Tl blk ctn H m" using inv mem sub exp_rewound_id [OF I(1,3)] unfolding taken_to_def B by simp
    have h': "ex_blockIndex q = h # hs" "pr_blockIndexFront q = pr_blockIndexFront p" using h by (simp_all add: q_def)
    have "e - H < 2 ^ 63" "Suc (e - H) < n + 2" using gap e by auto
    from explicit_take_spec [OF T e(1) h'(1) start lt e(2) this] obtain k m' where
      k: "explicit_take (n + 2) T E q (of_nat (ring_pos (unat (ix_size h)) (unat (ix_front h)) (nblk T Tl) (H div bsz T))) (of_nat H) (of_nat e) m =
        Ret (map ctn [H..<k], k < e, m')" "first_bad (assign_raises E) ctn H k e" "taken_to T q m own S Tl blk ctn e m'" by blast
    have look: "explicit_index_of T (of_nat H) q = Ret (of_nat (ring_pos (unat (ix_size h)) (unat (ix_front h)) (nblk T Tl) (H div bsz T)))"
      using ex_place(2) [OF T h'(1) h(2) jN refl] .
    have "unat (of_nat n :: 64 word) = n" using gap lt e(1,3) by (intro unat_of_nat_64) simp
    then have run: "explicit_dequeue_bulk T E mx p m = Ret (if k < e then Exc else Val (of_nat n), map ctn [H..<k], q, m')"
      using explicit_dequeue_bulk_run [OF _ des cnt q_def, of T E m] lt pos look k(1) I(1) by (simp del: explicit_take.simps add: e_def)
    have cut: "take n xs = map ctn [H..<e]" "drop n xs = contents e Tl ctn"
      using contents_parts(1) [OF e(1,2), of ctn] contents_parts(2) [of n H Tl ctn] by (simp_all add: xs e(3) e_def)
    have "exp_rewound e q = q" using I(1,3) by (intro exp_rewound_id) (simp_all add: q_def e_def algebra_simps)
    then have "exp_inv T q m' S e Tl blk ctn" "moves m own B m' B" using k(3) sub unfolding taken_to_def moves_def B by (auto simp: Un_absorb2)
    moreover have "heap_limit m' = heap_limit m" by (rule explicit_dequeue_bulk_limit [OF run])
    ultimately have "exp_queue T E q m' B (drop n xs)" unfolding B cut(2) using T E lim by (intro exp_queueI) simp_all
    moreover have "same_links q p" by (simp add: same_links_def q_def)
    ultimately show ?thesis using run \<open>moves m own B m' B\<close> first_bad_delivered [OF k(2)] unfolding delivered_def cut(1)
      by (intro exI [of _ q] exI [of _ m']) simp
  qed
qed

end
