(* ===== verification/CQ_Bulk.thy ===== *)
theory CQ_Bulk
  imports CQ_Implicit_Grow CQ_Explicit_Take
begin

text \<open>
  The contract of a sub-queue with bulk operations, and what mixtures of single and bulk calls do to the producers
  of \<^verbatim>\<open>concurrentqueue/concurrentqueue.h\<close>: all calls of an implicit producer, and all but bulk enqueues of an
  explicit one.
\<close>

section \<open>Sequences of single and bulk calls\<close>

datatype 'd bulk_op = Enq1 AllocationMode 'd | Deq1 | Enq_Many AllocationMode "'d list" | Deq_Many "64 word"

datatype 'd bulk_res = Enq1_Res "bool xres" | Deq1_Res "'d option xres" | Enq_Many_Res "bool xres" | Deq_Many_Res "64 word xres" "'d list"

record ('d, 'p) subqueue_ops =
  op_enq :: "AllocationMode \<Rightarrow> 'd \<Rightarrow> 'p \<Rightarrow> 'd mem \<Rightarrow> (bool xres \<times> 'p \<times> 'd mem) outcome"
  op_deq :: "'p \<Rightarrow> 'd mem \<Rightarrow> ('d option xres \<times> 'p \<times> 'd mem) outcome"
  op_enq_bulk :: "AllocationMode \<Rightarrow> 'd list \<Rightarrow> 'p \<Rightarrow> 'd mem \<Rightarrow> (bool xres \<times> 'p \<times> 'd mem) outcome"
  op_deq_bulk :: "64 word \<Rightarrow> 'p \<Rightarrow> 'd mem \<Rightarrow> ((64 word xres \<times> 'd list) \<times> 'p \<times> 'd mem) outcome"

fun run_call :: "('d, 'p) subqueue_ops \<Rightarrow> 'd bulk_op \<Rightarrow> 'p \<Rightarrow> 'd mem \<Rightarrow> ('d bulk_res \<times> 'p \<times> 'd mem) outcome" where
  "run_call Q (Enq1 mode x) p m = and_then (op_enq Q mode x p m) (\<lambda>(r, p', m'). Ret (Enq1_Res r, p', m'))"
| "run_call Q Deq1 p m = and_then (op_deq Q p m) (\<lambda>(r, p', m'). Ret (Deq1_Res r, p', m'))"
| "run_call Q (Enq_Many mode items) p m = and_then (op_enq_bulk Q mode items p m) (\<lambda>(r, p', m'). Ret (Enq_Many_Res r, p', m'))"
| "run_call Q (Deq_Many mx) p m = and_then (op_deq_bulk Q mx p m) (\<lambda>((r, els), p', m'). Ret (Deq_Many_Res r els, p', m'))"

fun run_calls :: "('d, 'p) subqueue_ops \<Rightarrow> 'd bulk_op list \<Rightarrow> 'p \<Rightarrow> 'd mem \<Rightarrow> ('d bulk_res list \<times> 'p \<times> 'd mem) outcome" where
  "run_calls Q [] p m = Ret ([], p, m)"
| "run_calls Q (op # ops) p m =
     and_then (run_call Q op p m) (\<lambda>(r, p', m').
     and_then (run_calls Q ops p' m') (\<lambda>(rs, p'', m''). Ret (r # rs, p'', m'')))"

text \<open>
  The abstract queue, a list. \<open>after E op r xs\<close> is what it holds after it has answered \<open>r\<close> to \<open>op\<close>, and \<open>None\<close> if a
  queue holding \<open>xs\<close> does not give that answer. A bulk enqueue takes all or nothing; a bulk dequeue removes
  \<open>n\<close> elements and delivers them up to the first whose assignment throws.
\<close>

fun after :: "'d elem_ops \<Rightarrow> 'd bulk_op \<Rightarrow> 'd bulk_res \<Rightarrow> 'd list \<Rightarrow> 'd list option" where
  "after E (Enq1 mode x) (Enq1_Res r) xs =
     (case r of
        Val True \<Rightarrow> if raises E x then None else Some (xs @ [x])
      | Val False \<Rightarrow> Some xs
      | Exc \<Rightarrow> if raises E x then Some xs else None)"
| "after E Deq1 (Deq1_Res r) xs =
     (case xs of
        [] \<Rightarrow> if r = Val None then Some [] else None
      | x # ys \<Rightarrow> if r = (if assign_raises E x then Exc else Val (Some x)) then Some ys else None)"
| "after E (Enq_Many mode items) (Enq_Many_Res r) xs =
     (case r of
        Val True \<Rightarrow> if list_ex (raises E) items then None else Some (xs @ items)
      | Val False \<Rightarrow> Some xs
      | Exc \<Rightarrow> if list_ex (raises E) items then Some xs else None)"
| "after E (Deq_Many mx) (Deq_Many_Res r els) xs =
     (let n = min (length xs) (unat mx) in
      if r = (if list_ex (assign_raises E) (take n xs) then Exc else Val (of_nat n)) \<and> els = delivered E n xs
      then Some (drop n xs) else None)"
| "after E _ _ xs = None"

fun answers_of :: "'d elem_ops \<Rightarrow> 'd bulk_op list \<Rightarrow> 'd bulk_res list \<Rightarrow> 'd list \<Rightarrow> 'd list option" where
  "answers_of E [] [] xs = Some xs"
| "answers_of E (op # ops) (r # rs) xs = (case after E op r xs of None \<Rightarrow> None | Some ys \<Rightarrow> answers_of E ops rs ys)"
| "answers_of E _ _ xs = None"

text \<open>
  The lengths of bulk calls fit half the range of indices. What a trivially destructible type leaves behind when
  one of its constructors throws is not destroyed; such types are taken not to throw.
\<close>

fun call_ok :: "'d elem_ops \<Rightarrow> 'd bulk_op \<Rightarrow> bool" where
  "call_ok E (Enq_Many mode items) \<longleftrightarrow> length items < 2 ^ 63 \<and> (trivially_destructible E \<longrightarrow> (\<forall>x \<in> set items. \<not> raises E x))"
| "call_ok E _ \<longleftrightarrow> True"

section \<open>The contract\<close>

context subqueue
begin

text \<open>Calls of which each keeps the contract may follow each other.\<close>

lemma calls_lift:
  assumes step: "\<And>op p m B xs own. ok op \<Longrightarrow> holds p m B xs \<Longrightarrow> mem_inv m own \<Longrightarrow> B \<subseteq> own \<Longrightarrow>
      \<exists>r p' m' B' ys. run_call Q op p m = Ret (r, p', m') \<and> after E op r xs = Some ys \<and> holds p' m' B' ys \<and> moves m own B m' B' \<and> links p' p"
    and "list_all ok ops" and "holds p m B xs" and "mem_inv m own" and "B \<subseteq> own"
  shows "\<exists>rs p' m' B' ys. run_calls Q ops p m = Ret (rs, p', m') \<and> answers_of E ops rs xs = Some ys \<and> holds p' m' B' ys \<and>
    moves m own B m' B' \<and> links p' p"
  using assms(2-)
proof (induction ops arbitrary: p m B xs own)
  case Nil
  then have "moves m own B m B" by (intro moves_refl)
  with Nil show ?case using links_refl by (intro exI [of _ "[]"] exI [of _ p] exI [of _ m] exI [of _ B] exI [of _ xs]) simp
next
  case (Cons op ops)
  then obtain r p1 m1 B1 ys where c: "run_call Q op p m = Ret (r, p1, m1)"
    "after E op r xs = Some ys" "holds p1 m1 B1 ys" "moves m own B m1 B1" "links p1 p"
    using step [of op p m B xs own] by auto
  have "mem_inv m1 (own - B \<union> B1)" using c(4) by (simp add: moves_def)
  from Cons.IH [OF _ c(3) this] Cons.prems(1) obtain rs p2 m2 B2 zs where
    i: "run_calls Q ops p1 m1 = Ret (rs, p2, m2)"
    "answers_of E ops rs ys = Some zs" "holds p2 m2 B2 zs" "moves m1 (own - B \<union> B1) B1 m2 B2" "links p2 p1" by auto
  have "moves m own B m2 B2" by (rule moves_trans [OF c(4) i(4)])
  moreover have "links p2 p" by (rule links_trans [OF i(5) c(5)])
  ultimately show ?case using c(1,2) i(1-3)
    by (intro exI [of _ "r # rs"] exI [of _ p2] exI [of _ m2] exI [of _ B2] exI [of _ zs]) simp
qed

end

text \<open>A sub-queue with a bulk dequeue.\<close>

fun takes_only :: "'d bulk_op \<Rightarrow> bool" where
  "takes_only (Enq_Many mode items) \<longleftrightarrow> False"
| "takes_only _ \<longleftrightarrow> True"

locale taking_subqueue = subqueue holds enq deq links E
  for holds :: "'p \<Rightarrow> 'd mem \<Rightarrow> nat set \<Rightarrow> 'd list \<Rightarrow> bool"
    and enq :: "AllocationMode \<Rightarrow> 'd \<Rightarrow> 'p \<Rightarrow> 'd mem \<Rightarrow> (bool xres \<times> 'p \<times> 'd mem) outcome"
    and deq :: "'p \<Rightarrow> 'd mem \<Rightarrow> ('d option xres \<times> 'p \<times> 'd mem) outcome"
    and links :: "'p \<Rightarrow> 'p \<Rightarrow> bool" and E :: "'d elem_ops" +
  fixes deq_bulk :: "64 word \<Rightarrow> 'p \<Rightarrow> 'd mem \<Rightarrow> ((64 word xres \<times> 'd list) \<times> 'p \<times> 'd mem) outcome"
  assumes deq_bulk_law: "holds p m B xs \<Longrightarrow> mem_inv m own \<Longrightarrow> B \<subseteq> own \<Longrightarrow>
      \<exists>r els p' m' B' ys. deq_bulk mx p m = Ret ((r, els), p', m') \<and> after E (Deq_Many mx) (Deq_Many_Res r els) xs = Some ys \<and>
        holds p' m' B' ys \<and> moves m own B m' B' \<and> links p' p"
begin

lemma taking_law:
  assumes "op_enq Q = enq" and "op_deq Q = deq" and "op_deq_bulk Q = deq_bulk" and "takes_only op"
    and "holds p m B xs" and "mem_inv m own" and "B \<subseteq> own"
  shows "\<exists>r p' m' B' ys. run_call Q op p m = Ret (r, p', m') \<and> after E op r xs = Some ys \<and> holds p' m' B' ys \<and> moves m own B m' B' \<and> links p' p"
proof (cases op)
  case (Enq1 mode x)
  obtain r p1 m1 B1 where e: "enq mode x p m = Ret (r, p1, m1)" and
    r: "r = Val True \<and> \<not> raises E x \<and> holds p1 m1 B1 (xs @ [x]) \<or> (r = Val False \<or> r = Exc \<and> raises E x) \<and> holds p1 m1 B1 xs"
    and fr: "moves m own B m1 B1" "links p1 p" using enq_law [OF assms(5-7), of mode x] by (elim exE conjE) (rule that)
  then show ?thesis using Enq1 assms(1)
    by (intro exI [of _ "Enq1_Res r"] exI [of _ p1] exI [of _ m1] exI [of _ B1] exI [of _ "if r = Val True then xs @ [x] else xs"]) auto
next
  case Deq1
  obtain r p1 m1 B1 where "deq p m = Ret (r, p1, m1)" "r = (case xs of [] \<Rightarrow> Val None | x # _ \<Rightarrow> if assign_raises E x then Exc else Val (Some x))"
    "holds p1 m1 B1 (tl xs)" "moves m own B m1 B1" "links p1 p" using deq_law [OF assms(5-7)] by (elim exE conjE) (rule that)
  then show ?thesis using Deq1 assms(2)
    by (intro exI [of _ "Deq1_Res r"] exI [of _ p1] exI [of _ m1] exI [of _ B1] exI [of _ "tl xs"]) (auto split: list.split)
next
  case (Deq_Many mx)
  then obtain r els p1 m1 B1 ys where "deq_bulk mx p m = Ret ((r, els), p1, m1)" "after E op (Deq_Many_Res r els) xs = Some ys"
    "holds p1 m1 B1 ys" "moves m own B m1 B1" "links p1 p" using deq_bulk_law [OF assms(5-7), of mx] by blast
  then show ?thesis using Deq_Many assms(3) by (intro exI [of _ "Deq_Many_Res r els"] exI [of _ p1] exI [of _ m1] exI [of _ B1] exI [of _ ys]) simp
qed (use assms(4) in simp)

lemma taking_calls:
  assumes "op_enq Q = enq" and "op_deq Q = deq" and "op_deq_bulk Q = deq_bulk" and "list_all takes_only ops"
    and "holds p m B xs" and "mem_inv m own" and "B \<subseteq> own"
  shows "\<exists>rs p' m' B' ys. run_calls Q ops p m = Ret (rs, p', m') \<and> answers_of E ops rs xs = Some ys \<and> holds p' m' B' ys \<and>
    moves m own B m' B' \<and> links p' p"
  using taking_law [OF assms(1-3)] assms(4-) by (rule calls_lift)

end

text \<open>With bulk enqueues as well.\<close>

locale bulk_subqueue = taking_subqueue holds enq deq links E deq_bulk
  for holds :: "'p \<Rightarrow> 'd mem \<Rightarrow> nat set \<Rightarrow> 'd list \<Rightarrow> bool"
    and enq :: "AllocationMode \<Rightarrow> 'd \<Rightarrow> 'p \<Rightarrow> 'd mem \<Rightarrow> (bool xres \<times> 'p \<times> 'd mem) outcome"
    and deq :: "'p \<Rightarrow> 'd mem \<Rightarrow> ('d option xres \<times> 'p \<times> 'd mem) outcome"
    and links :: "'p \<Rightarrow> 'p \<Rightarrow> bool" and E :: "'d elem_ops"
    and deq_bulk :: "64 word \<Rightarrow> 'p \<Rightarrow> 'd mem \<Rightarrow> ((64 word xres \<times> 'd list) \<times> 'p \<times> 'd mem) outcome" +
  fixes enq_bulk :: "AllocationMode \<Rightarrow> 'd list \<Rightarrow> 'p \<Rightarrow> 'd mem \<Rightarrow> (bool xres \<times> 'p \<times> 'd mem) outcome"
  assumes enq_bulk_law: "holds p m B xs \<Longrightarrow> mem_inv m own \<Longrightarrow> B \<subseteq> own \<Longrightarrow> call_ok E (Enq_Many mode items) \<Longrightarrow>
      \<exists>r p' m' B' ys. enq_bulk mode items p m = Ret (r, p', m') \<and> after E (Enq_Many mode items) (Enq_Many_Res r) xs = Some ys \<and>
        holds p' m' B' ys \<and> moves m own B m' B' \<and> links p' p"
begin

lemma call_law:
  assumes "op_enq Q = enq" and "op_deq Q = deq" and "op_deq_bulk Q = deq_bulk" and "op_enq_bulk Q = enq_bulk" and "call_ok E op"
    and "holds p m B xs" and "mem_inv m own" and "B \<subseteq> own"
  shows "\<exists>r p' m' B' ys. run_call Q op p m = Ret (r, p', m') \<and> after E op r xs = Some ys \<and> holds p' m' B' ys \<and> moves m own B m' B' \<and> links p' p"
proof (cases "takes_only op")
  case True
  with taking_law [OF assms(1-3) _ assms(6-8)] show ?thesis by blast
next
  case False
  then obtain mode items where op: "op = Enq_Many mode items" by (cases op) auto
  then obtain r p1 m1 B1 ys where "enq_bulk mode items p m = Ret (r, p1, m1)" "after E op (Enq_Many_Res r) xs = Some ys"
    "holds p1 m1 B1 ys" "moves m own B m1 B1" "links p1 p" using enq_bulk_law [OF assms(6-8), of mode items] assms(5) by blast
  then show ?thesis using op assms(4) by (intro exI [of _ "Enq_Many_Res r"] exI [of _ p1] exI [of _ m1] exI [of _ B1] exI [of _ ys]) simp
qed

lemma bulk_calls:
  assumes "op_enq Q = enq" and "op_deq Q = deq" and "op_deq_bulk Q = deq_bulk" and "op_enq_bulk Q = enq_bulk" and "list_all (call_ok E) ops"
    and "holds p m B xs" and "mem_inv m own" and "B \<subseteq> own"
  shows "\<exists>rs p' m' B' ys. run_calls Q ops p m = Ret (rs, p', m') \<and> answers_of E ops rs xs = Some ys \<and> holds p' m' B' ys \<and>
    moves m own B m' B' \<and> links p' p"
  using call_law [OF assms(1-4)] assms(5-) by (rule calls_lift)

end

section \<open>Both kinds of producer keep the contract\<close>

interpretation imp_taking: taking_subqueue "imp_queue T" "implicit_enqueue T E" "implicit_dequeue T E" same_links E
  "\<lambda>mx p m. bulk_result (implicit_dequeue_bulk T E mx p m)"
proof
  fix p :: implicit_producer and m :: "'a mem" and B xs own mx
  assume "imp_queue T p m B xs" and mem: "mem_inv m own" "B \<subseteq> own"
  then have T: "traits_ok T" and h: "imp_holds T p m B xs" by (auto simp: imp_queue_def)
  obtain p' m' B' where "implicit_dequeue_bulk T E mx p m = Ret (if \<exists>x \<in> set (take (min (length xs) (unat mx)) xs). assign_raises E x then Exc
      else Val (of_nat (min (length xs) (unat mx))), delivered E (min (length xs) (unat mx)) xs, p', m')"
    "imp_holds T p' m' B' (drop (min (length xs) (unat mx)) xs)" and
    "mem_inv m' (own - B \<union> B')" "B' \<inter> (own - B) = {}" "\<forall>b \<in> own - B. blocks m' b = blocks m b" "same_links p' p"
    using implicit_dequeue_bulk_holds [OF T h mem refl, of E mx] by (elim exE conjE) (rule that)
  then show "\<exists>r els p' m' B' ys. bulk_result (implicit_dequeue_bulk T E mx p m) = Ret ((r, els), p', m') \<and>
      after E (Deq_Many mx) (Deq_Many_Res r els) xs = Some ys \<and> imp_queue T p' m' B' ys \<and> moves m own B m' B' \<and> same_links p' p"
    using T by (simp add: bulk_result_def list_ex_iff imp_queue_def moves_def Let_def) blast
qed

interpretation imp_bulk: bulk_subqueue "imp_queue T" "implicit_enqueue T E" "implicit_dequeue T E" same_links E
  "\<lambda>mx p m. bulk_result (implicit_dequeue_bulk T E mx p m)" "implicit_enqueue_bulk T E"
proof
  fix p :: implicit_producer and m :: "'a mem" and B xs own mode items
  assume "imp_queue T p m B xs" and mem: "mem_inv m own" "B \<subseteq> own" and "call_ok E (Enq_Many mode items)"
  then have T: "traits_ok T" and h: "imp_holds T p m B xs" and len: "length items < 2 ^ 63"
    and triv: "trivially_destructible E \<longrightarrow> (\<forall>x \<in> set items. \<not> raises E x)" by (auto simp: imp_queue_def)
  obtain r p' m' B' where run: "implicit_enqueue_bulk T E mode items p m = Ret (r, p', m')" and
    r: "r = Val True \<and> (\<forall>x \<in> set items. \<not> raises E x) \<and> imp_holds T p' m' B' (xs @ items) \<or>
     (r = Val False \<or> r = Exc \<and> (\<exists>x \<in> set items. raises E x)) \<and> imp_holds T p' m' B' xs"
    and fr: "mem_inv m' (own - B \<union> B')" "B' \<inter> (own - B) = {}" "\<forall>b \<in> own - B. blocks m' b = blocks m b" "same_links p' p"
    using implicit_enqueue_bulk_holds [OF T h mem len triv, of mode] by (elim exE conjE) (rule that)
  let ?ys = "if r = Val True then xs @ items else xs"
  have "after E (Enq_Many mode items) (Enq_Many_Res r) xs = Some ?ys" "imp_queue T p' m' B' ?ys" using r T by (auto simp: list_ex_iff imp_queue_def)
  with run fr show "\<exists>r p' m' B' ys. implicit_enqueue_bulk T E mode items p m = Ret (r, p', m') \<and>
      after E (Enq_Many mode items) (Enq_Many_Res r) xs = Some ys \<and> imp_queue T p' m' B' ys \<and> moves m own B m' B' \<and> same_links p' p"
    unfolding moves_def by blast
qed

interpretation exp_taking: taking_subqueue "exp_queue T E" "explicit_enqueue T E" "explicit_dequeue T E" same_links E
  "\<lambda>mx p m. bulk_result (explicit_dequeue_bulk T E mx p m)"
proof
  fix p :: explicit_producer and m :: "'a mem" and B xs own mx
  assume "exp_queue T E p m B xs" and "mem_inv m own" "B \<subseteq> own"
  from explicit_dequeue_bulk_holds [OF this refl, of mx]
  show "\<exists>r els p' m' B' ys. bulk_result (explicit_dequeue_bulk T E mx p m) = Ret ((r, els), p', m') \<and>
      after E (Deq_Many mx) (Deq_Many_Res r els) xs = Some ys \<and> exp_queue T E p' m' B' ys \<and> moves m own B m' B' \<and> same_links p' p"
    by (auto simp: bulk_result_def list_ex_iff Let_def)
qed

definition implicit_ops :: "traits \<Rightarrow> 'd elem_ops \<Rightarrow> ('d, implicit_producer) subqueue_ops" where
  "implicit_ops T E = \<lparr>op_enq = implicit_enqueue T E, op_deq = implicit_dequeue T E, op_enq_bulk = implicit_enqueue_bulk T E,
     op_deq_bulk = \<lambda>mx p m. bulk_result (implicit_dequeue_bulk T E mx p m)\<rparr>"

definition explicit_ops :: "traits \<Rightarrow> 'd elem_ops \<Rightarrow> ('d, explicit_producer) subqueue_ops" where
  "explicit_ops T E = \<lparr>op_enq = explicit_enqueue T E, op_deq = explicit_dequeue T E, op_enq_bulk = explicit_enqueue_bulk T E,
     op_deq_bulk = \<lambda>mx p m. bulk_result (explicit_dequeue_bulk T E mx p m)\<rparr>"

section \<open>Properties\<close>

text \<open>The answers of a run that returns, and runs of a new explicit producer of the small class.\<close>

definition answers :: "('a \<times> 'b) outcome \<Rightarrow> 'a option" where
  "answers r = (case r of Ret (a, _) \<Rightarrow> Some a | _ \<Rightarrow> None)"

definition run_new :: "'d elem_ops \<Rightarrow> 'd bulk_op list \<Rightarrow> 'd mem \<Rightarrow> ('d bulk_res list \<times> explicit_producer \<times> 'd mem) outcome" where
  "run_new E ops m = and_then (explicit_producer_new small_traits m) (\<lambda>(p, m1). run_calls (explicit_ops small_traits E) ops p m1)"

text \<open>
  C9. An implicit producer is a FIFO queue for any mixture of single and bulk calls. From a new producer, over a
  memory whose invariant holds, every sequence of calls returns, and its answers are those of a list: a bulk
  enqueue that returns true appends all its items in order, one that returns false or passes on an exception
  leaves the content as it was and has given back every block it took; a bulk dequeue removes as many elements as
  asked for, or all there are, from the front, and delivers them in order up to the first whose assignment throws.
  The block index, its growth and its wrap-around, the reuse of blocks and the answers of \<open>malloc\<close> do not show, and
  the blocks of other producers stay as they were.
\<close>

theorem implicit_producer_bulk_is_fifo:
  assumes "traits_ok T" and "mem_inv m own" and "implicit_producer_new T m = (p, m1)" and "list_all (call_ok E) ops"
  shows "\<exists>rs p' m' B ys. run_calls (implicit_ops T E) ops p m1 = Ret (rs, p', m') \<and> answers_of E ops rs [] = Some ys \<and>
    imp_queue T p' m' B ys \<and> producer_size_approx p' = of_nat (length ys) \<and>
    mem_inv m' (own \<union> B) \<and> B \<inter> own = {} \<and> (\<forall>b \<in> own. blocks m' b = blocks m b)"
proof -
  have new: "imp_queue T p m1 {} []" "mem_inv m1 own" "blocks m1 = blocks m"
    using implicit_producer_new_holds [OF assms(1,2)] assms(1,3) by (auto simp: imp_queue_def)
  obtain rs p' m' B ys where run: "run_calls (implicit_ops T E) ops p m1 = Ret (rs, p', m')"
    "answers_of E ops rs [] = Some ys" "imp_queue T p' m' B ys" "moves m1 own {} m' B"
    using imp_bulk.bulk_calls [OF _ _ _ _ assms(4) new(1,2) empty_subsetI, of "implicit_ops T E"] by (auto simp: implicit_ops_def)
  moreover have "producer_size_approx p' = of_nat (length ys)"
    using implicit_size [OF assms(1)] run(3) by (auto simp: imp_queue_def)
  ultimately show ?thesis using new(3) by (auto simp: moves_def)
qed

text \<open>Blocks of two elements: an element, five more, four out, all the rest out.\<close>

definition many_through :: "nat bulk_op list" where
  "many_through = [Enq1 CanAlloc 4, Enq_Many CanAlloc [5, 6, 7, 8, 9], Deq_Many 4, Deq_Many 9, Deq1]"

definition many_answers :: "nat bulk_res list" where
  "many_answers = [Enq1_Res (Val True), Enq_Many_Res (Val True), Deq_Many_Res (Val 4) [4, 5, 6, 7], Deq_Many_Res (Val 2) [8, 9], Deq1_Res (Val None)]"

lemma many_through_runs:
  "answers (case implicit_producer_new small_traits (mem_new 100 (\<lambda>_. True) :: nat mem) of (p, m) \<Rightarrow>
     run_calls (implicit_ops small_traits plain_ops) many_through p m) = Some many_answers"
  by code_simp

theorem implicit_producer_bulk_is_fifo_witness:
  "\<exists>p m. implicit_producer_new small_traits (mem_new 100 (\<lambda>_. True) :: nat mem) = (p, m) \<and>
    (\<exists>p' m' ys. run_calls (implicit_ops small_traits plain_ops) many_through p m = Ret (many_answers, p', m') \<and>
      answers_of plain_ops many_through many_answers [] = Some ys)"
proof -
  obtain p m where new: "implicit_producer_new small_traits (mem_new 100 (\<lambda>_. True) :: nat mem) = (p, m)" by fastforce
  have ok: "list_all (call_ok plain_ops) many_through" by (simp add: many_through_def plain_ops_def raises_def)
  from implicit_producer_bulk_is_fifo [OF small_traits_ok mem_new_inv new ok] obtain rs p' m' ys where
    run: "run_calls (implicit_ops small_traits plain_ops) many_through p m = Ret (rs, p', m')" "answers_of plain_ops many_through rs [] = Some ys"
    by blast
  moreover have "rs = many_answers" using many_through_runs run(1) by (simp add: new answers_def)
  ultimately show ?thesis using new by blast
qed

text \<open>
  C10. An explicit producer is a FIFO queue for enqueues, dequeues and bulk dequeues. When constructing elements does
  not throw and memory holds less than half the index range, every sequence of such calls on a new producer returns and
  answers as a list would. Filling and reusing the circular list, growth and wrap-around of the index, both ways of
  marking what was taken, and failing allocations do not show, and the blocks of other producers stay as they were.
\<close>

theorem explicit_producer_is_fifo:
  assumes "traits_ok T" and "\<forall>x. \<not> raises E x" and "mem_inv m own" and "heap_limit m * bsz T < 2 ^ 63" and "list_all takes_only ops"
  shows "\<exists>p m1 rs p' m' B ys. explicit_producer_new T m = Ret (p, m1) \<and>
    run_calls (explicit_ops T E) ops p m1 = Ret (rs, p', m') \<and> answers_of E ops rs [] = Some ys \<and>
    exp_queue T E p' m' B ys \<and> producer_size_approx p' = of_nat (length ys) \<and>
    mem_inv m' (own \<union> B) \<and> B \<inter> own = {} \<and> (\<forall>b \<in> own. blocks m' b = blocks m b)"
proof -
  obtain p m1 where new: "explicit_producer_new T m = Ret (p, m1)" "exp_queue T E p m1 {} []" "mem_inv m1 own" "blocks m1 = blocks m"
    using explicit_producer_new_queue [OF assms(1-4)] by blast
  obtain rs p' m' B ys where run: "run_calls (explicit_ops T E) ops p m1 = Ret (rs, p', m')"
    "answers_of E ops rs [] = Some ys" "exp_queue T E p' m' B ys" "moves m1 own {} m' B"
    using exp_taking.taking_calls [OF _ _ _ assms(5) new(2,3) empty_subsetI, of "explicit_ops T E"] by (auto simp: explicit_ops_def)
  with exp_queue_size [OF run(3)] new show ?thesis by (auto simp: moves_def)
qed

text \<open>Six elements through blocks of two, in and out in parts.\<close>

definition parts_through :: "nat bulk_op list" where
  "parts_through = [Enq1 CanAlloc 4, Enq1 CanAlloc 5, Enq1 CanAlloc 6, Deq_Many 2, Enq1 CanAlloc 7, Enq1 CanAlloc 8, Enq1 CanAlloc 9, Deq_Many 9, Deq1]"

definition parts_answers :: "nat bulk_res list" where
  "parts_answers = [Enq1_Res (Val True), Enq1_Res (Val True), Enq1_Res (Val True), Deq_Many_Res (Val 2) [4, 5], Enq1_Res (Val True),
     Enq1_Res (Val True), Enq1_Res (Val True), Deq_Many_Res (Val 4) [6, 7, 8, 9], Deq1_Res (Val None)]"

lemma parts_through_runs:
  "answers (run_new plain_ops parts_through (mem_new 100 (\<lambda>_. True))) = Some parts_answers"
  by code_simp

theorem explicit_producer_is_fifo_witness:
  "\<exists>p m1 p' m' ys. explicit_producer_new small_traits (mem_new 100 (\<lambda>_. True) :: nat mem) = Ret (p, m1) \<and>
    run_calls (explicit_ops small_traits plain_ops) parts_through p m1 = Ret (parts_answers, p', m') \<and>
    answers_of plain_ops parts_through parts_answers [] = Some ys"
proof -
  have h: "\<forall>x :: nat. \<not> raises plain_ops x" "heap_limit (mem_new 100 (\<lambda>_. True) :: nat mem) * bsz small_traits < 2 ^ 63"
    "list_all takes_only parts_through"
    by (simp_all add: raises_def plain_ops_def mem_new_def small_traits_def ConcurrentQueueDefaultTraits_def parts_through_def)
  from explicit_producer_is_fifo [OF small_traits_ok h(1) mem_new_inv h(2,3)] obtain p m1 rs p' m' ys where
    run: "explicit_producer_new small_traits (mem_new 100 (\<lambda>_. True) :: nat mem) = Ret (p, m1)"
      "run_calls (explicit_ops small_traits plain_ops) parts_through p m1 = Ret (rs, p', m')" "answers_of plain_ops parts_through rs [] = Some ys"
    by blast
  moreover have "rs = parts_answers" using parts_through_runs run(1,2) by (simp add: answers_def run_new_def)
  ultimately show ?thesis by blast
qed


definition throws_on_13 :: "nat elem_ops" where
  "throws_on_13 = plain_ops\<lparr>ctor_noexcept := False, ctor_throws := (\<lambda>x. x = 13)\<rparr>"

definition run_destroy :: "nat bulk_op list \<Rightarrow> (nat bulk_res list \<times> bool) option" where
  "run_destroy ops = (case run_new throws_on_13 ops (mem_new 4 (\<lambda>_. True)) of
     Ret (rs, p, m) \<Rightarrow> Some (rs, case explicit_producer_destroy small_traits p m of Undefined \<Rightarrow> False | _ \<Rightarrow> True)
   | _ \<Rightarrow> None)"


end
