(* ===== verification/CQ_Queue_Bulk.thy ===== *)
theory CQ_Queue_Bulk
  imports CQ_Queue_Proof CQ_Bulk
begin

text \<open>
  The bulk calls of the queue: what \<open>enqueue_bulk\<close>, \<open>try_dequeue_bulk\<close> and its forms with tokens do to the lanes.
  A bulk dequeue drains lanes one after the other until it has as many elements as asked for.
\<close>

section \<open>The limit of the memory\<close>

lemma add_blocks_limit [keeps_limit]: "add_blocks_to_free_list f b m = Ret m' \<Longrightarrow> heap_limit m' = heap_limit m"
  by (induction f arbitrary: b m) (auto simp: outcome_simps split: option.split_asm dest!: add_block_limit)

lemma construct_run_limit [keeps_limit]: "construct_run n T E b i items m = Ret (ok, k, rest, m') \<Longrightarrow> heap_limit m' = heap_limit m"
proof (induction n arbitrary: b i items m)
  case (Suc n)
  from Suc.prems show ?case by (auto simp: outcome_simps split: option.split_asm list.split_asm if_split_asm dest!: construct_limit Suc.IH)
qed simp

lemma bulk_fill_limit [keeps_limit]: "bulk_fill f T E e i n items b m = Ret (ok, k, l, m') \<Longrightarrow> heap_limit m' = heap_limit m"
proof (induction f arbitrary: i items b m)
  case (Suc f)
  from Suc.prems show ?case by (auto simp: Let_def outcome_simps split: option.split_asm if_split_asm dest!: construct_run_limit Suc.IH)
qed simp

lemma bulk_destroy_limit [keeps_limit]: "bulk_destroy f T b l i n m = Ret m' \<Longrightarrow> heap_limit m' = heap_limit m"
proof (induction f arbitrary: i b m)
  case (Suc f)
  from Suc.prems show ?case by (auto simp: Let_def outcome_simps split: option.split_asm if_split_asm dest!: destroy_run_limit Suc.IH)
qed simp

lemma implicit_undo_limit [keeps_limit]: "implicit_bulk_undo f T i b first p m = Ret (p', m') \<Longrightarrow> heap_limit m' = heap_limit m"
  by (auto simp: implicit_bulk_undo_def outcome_simps dest!: add_blocks_limit)

lemma implicit_block_limit [keeps_limit]: "implicit_bulk_block T mode i p m = Ret (r, p', m') \<Longrightarrow> heap_limit m' = heap_limit m"
  by (auto simp: implicit_bulk_block_def outcome_simps split: option.split_asm if_split_asm dest!: insert_entry_limit requisition_heap_limit)

lemma implicit_alloc_limit [keeps_limit]:
  "implicit_bulk_alloc f T mode s b first d i p m = Ret (r, p', m') \<Longrightarrow> heap_limit m' = heap_limit m"
proof (induction f arbitrary: first d i p m)
  case (Suc f)
  then obtain r1 p1 m1 where blk: "implicit_bulk_block T mode (i + BLOCK_SIZE T) p m = Ret (r1, p1, m1)" by (auto simp: Let_def outcome_simps)
  show ?case
  proof (cases r1)
    case None
    with Suc.prems blk show ?thesis by (auto simp: Let_def outcome_simps dest!: implicit_undo_limit implicit_block_limit)
  next
    case (Some en)
    obtain e nb where en: "en = (e, nb)" by (cases en)
    from Suc.prems blk Some en have "heap_limit m' = heap_limit m1"
      by (auto simp: Let_def outcome_simps split: option.split_asm if_split_asm dest!: Suc.IH)
    with implicit_block_limit [OF blk] show ?thesis by simp
  qed
qed simp

lemma implicit_enqueue_bulk_limit [keeps_limit]:
  assumes "implicit_enqueue_bulk T E mode items p m = Ret (r, p', m')"
  shows "heap_limit m' = heap_limit m"
proof -
  let ?d = "bulk_diff T (tailIndex p) (of_nat (length items))"
  obtain r1 p1 m1 where al: "(if 0 < ?d then implicit_bulk_alloc (Suc (unat ?d)) T mode (tailIndex p) (tailBlock p) None ?d (base_of T (tailIndex p - 1)) p m
      else Ret (Some None, p, m)) = Ret (r1, p1, m1)"
    using assms by (auto simp: implicit_enqueue_bulk_def Let_def outcome_simps simp del: implicit_bulk_alloc.simps)
  then have "heap_limit m1 = heap_limit m" by (auto split: if_split_asm simp del: implicit_bulk_alloc.simps dest!: implicit_alloc_limit)
  moreover have "heap_limit m' = heap_limit m1"
  proof (cases r1)
    case None
    then show ?thesis using assms al unfolding implicit_enqueue_bulk_def Let_def by (simp del: implicit_bulk_alloc.simps)
  next
    case (Some first)
    from assms show ?thesis unfolding implicit_enqueue_bulk_def Let_def al Some
      by (auto simp: outcome_simps simp del: bulk_fill.simps bulk_destroy.simps split: if_split_asm
          dest!: bulk_fill_limit bulk_destroy_limit implicit_undo_limit)
  qed
  ultimately show ?thesis by simp
qed

lemma implicit_mark_limit [keeps_limit]: "implicit_mark T i c e b p m = Ret (p', m') \<Longrightarrow> heap_limit m' = heap_limit m"
  by (auto simp: implicit_mark_def outcome_simps split: if_split_asm dest!: mark_many_limit add_block_limit)

lemma implicit_abandon_limit [keeps_limit]: "implicit_abandon f T ix s i n e p m = Ret (p', m') \<Longrightarrow> heap_limit m' = heap_limit m"
proof (induction f arbitrary: ix s i n p m)
  case (Suc f)
  from Suc.prems show ?case by (auto simp: outcome_simps split: if_split_asm dest!: destroy_run_limit implicit_mark_limit Suc.IH)
qed simp

lemma implicit_take_limit [keeps_limit]: "implicit_take f T E ix i e p m = Ret (els, threw, p', m') \<Longrightarrow> heap_limit m' = heap_limit m"
proof (induction f arbitrary: ix i p m els threw)
  case (Suc f)
  from Suc.prems show ?case
    by (auto simp: Let_def outcome_simps split: if_split_asm dest!: take_run_limit implicit_mark_limit implicit_abandon_limit Suc.IH)
qed simp

lemma implicit_dequeue_bulk_limit [keeps_limit]:
  "implicit_dequeue_bulk T E mx p m = Ret (r, els, p', m') \<Longrightarrow> heap_limit m' = heap_limit m"
  by (auto simp: implicit_dequeue_bulk_def Let_def outcome_simps simp del: implicit_take.simps split: if_split_asm dest!: implicit_take_limit)

section \<open>Bulk dequeues on producers of either kind\<close>

locale shared_taking = shared_subqueue holds enq deq links E sized + taking_subqueue holds enq deq links E deq_bulk
  for holds :: "'p \<Rightarrow> 'd mem \<Rightarrow> nat set \<Rightarrow> 'd list \<Rightarrow> bool"
    and enq :: "AllocationMode \<Rightarrow> 'd \<Rightarrow> 'p \<Rightarrow> 'd mem \<Rightarrow> (bool xres \<times> 'p \<times> 'd mem) outcome"
    and deq :: "'p \<Rightarrow> 'd mem \<Rightarrow> ('d option xres \<times> 'p \<times> 'd mem) outcome"
    and links :: "'p \<Rightarrow> 'p \<Rightarrow> bool" and E :: "'d elem_ops" and sized :: "'p \<Rightarrow> 64 word"
    and deq_bulk :: "64 word \<Rightarrow> 'p \<Rightarrow> 'd mem \<Rightarrow> ((64 word xres \<times> 'd list) \<times> 'p \<times> 'd mem) outcome" +
  assumes deq_bulk_limit: "deq_bulk mx p m = Ret (r, p', m') \<Longrightarrow> heap_limit m' = heap_limit m"
begin

lemma family_deq_bulk:
  assumes fam: "family holds ps m Bs xss" and i: "i < length ps"
  shows "\<exists>r els p' m' Bs' ys. deq_bulk mx (ps ! i) m = Ret ((r, els), p', m') \<and> links p' (ps ! i) \<and> heap_limit m' = heap_limit m \<and>
    after E (Deq_Many mx) (Deq_Many_Res r els) (xss ! i) = Some ys \<and> family holds (ps[i := p']) m' Bs' (xss[i := ys])"
proof -
  have h: "holds (ps ! i) m (Bs ! i) (xss ! i)" "mem_inv m (\<Union> (set Bs))" "Bs ! i \<subseteq> \<Union> (set Bs)" "length xss = length ps"
    using fam i by (simp_all add: family_def Union_upper)
  obtain r els p' m' B' ys where run: "deq_bulk mx (ps ! i) m = Ret ((r, els), p', m')"
    "after E (Deq_Many mx) (Deq_Many_Res r els) (xss ! i) = Some ys" "holds p' m' B' ys" "moves m (\<Union> (set Bs)) (Bs ! i) m' B'" "links p' (ps ! i)"
    using deq_bulk_law [OF h(1,2,3), of mx] by (elim exE conjE) (rule that)
  from family_update [OF fam i run(3,4) deq_bulk_limit [OF run(1)]] run deq_bulk_limit [OF run(1)] show ?thesis by blast
qed

end

interpretation any_taking: shared_taking "any_queue T E" "any_enqueue T E" "any_dequeue T E" any_links E
  "\<lambda>a. producer_size_approx (prod_base a)" "any_dequeue_bulk T E"
proof
  fix a b :: any_producer and m m' :: "'a mem" and B xs own mx r
  show "heap_limit m' = heap_limit m" if "any_dequeue_bulk T E mx a m = Ret (r, b, m')"
    using that by (auto simp: any_dequeue_bulk_def as_explicit_def as_implicit_def bulk_result_def outcome_simps
        split: any_producer.split_asm if_split_asm dest: keeps_limit)
  assume q: "any_queue T E a m B xs" and mem: "mem_inv m own" "B \<subseteq> own"
  show "\<exists>r els p' m' B' ys. any_dequeue_bulk T E mx a m = Ret ((r, els), p', m') \<and>
      after E (Deq_Many mx) (Deq_Many_Res r els) xs = Some ys \<and> any_queue T E p' m' B' ys \<and> moves m own B m' B' \<and> any_links p' a"
  proof (cases a)
    case (Explicit p)
    with q have e: "isExplicit p" "exp_queue T E p m B xs" by (auto simp: any_queue_def)
    obtain r els p' m' B' ys where "bulk_result (explicit_dequeue_bulk T E mx p m) = Ret ((r, els), p', m')"
      "after E (Deq_Many mx) (Deq_Many_Res r els) xs = Some ys" "exp_queue T E p' m' B' ys" "moves m own B m' B'" "same_links p' p"
      using exp_taking.deq_bulk_law [OF e(2) mem, of mx] by (elim exE conjE) (rule that)
    with e show ?thesis unfolding Explicit
      by (intro exI [of _ r] exI [of _ els] exI [of _ "Explicit p'"] exI [of _ m'] exI [of _ B'] exI [of _ ys])
        (simp add: any_dequeue_bulk_def as_explicit_def any_queue_def any_links_def same_links_base del: after.simps, simp add: same_links_def)
  next
    case (Implicit p)
    with q have e: "\<not> isExplicit p" "imp_queue T p m B xs" by (auto simp: any_queue_def)
    obtain r els p' m' B' ys where "bulk_result (implicit_dequeue_bulk T E mx p m) = Ret ((r, els), p', m')"
      "after E (Deq_Many mx) (Deq_Many_Res r els) xs = Some ys" "imp_queue T p' m' B' ys" "moves m own B m' B'" "same_links p' p"
      using imp_taking.deq_bulk_law [OF e(2) mem, of E mx] by (elim exE conjE) (rule that)
    with e show ?thesis unfolding Implicit
      by (intro exI [of _ r] exI [of _ els] exI [of _ "Implicit p'"] exI [of _ m'] exI [of _ B'] exI [of _ ys])
        (simp add: any_dequeue_bulk_def as_implicit_def any_queue_def any_links_def same_links_base del: after.simps, simp add: same_links_def)
  qed
qed

text \<open>The number of elements a lane gives when \<open>mx\<close> are asked for, and the call at a producer of the queue.\<close>

abbreviation given :: "'d list \<Rightarrow> nat \<Rightarrow> nat" where
  "given xs n \<equiv> min (length xs) n"

lemma on_prod_dequeue_bulk:
  assumes inv: "queue_inv T E q xss" and i: "i < nprods q" and k: "k = given (xss ! i) (unat mx)"
  shows "\<exists>q'. on_prod (any_dequeue_bulk T E mx) i q =
      Ret ((if list_ex (assign_raises E) (take k (xss ! i)) then Exc else Val (of_nat k), delivered E k (xss ! i)), q') \<and>
    queue_inv T E q' (xss[i := drop k (xss ! i)]) \<and> same_shape q' q"
proof -
  obtain Bs where fam: "family (any_queue T E) (map nd_prod (producers q)) (q_mem q) Bs xss"
    using inv by (auto simp: queue_inv_def lanes_def)
  obtain r els a m Bs' ys where run: "any_dequeue_bulk T E mx (prod_at q i) (q_mem q) = Ret ((r, els), a, m)" "any_links a (prod_at q i)"
    "heap_limit m = heap_limit (q_mem q)" "after E (Deq_Many mx) (Deq_Many_Res r els) (xss ! i) = Some ys"
    "family (any_queue T E) ((map nd_prod (producers q))[i := a]) m Bs' (xss[i := ys])"
    using any_taking.family_deq_bulk [OF fam, of i mx] i by (auto simp del: after.simps)
  have r: "r = (if list_ex (assign_raises E) (take k (xss ! i)) then Exc else Val (of_nat k))" "els = delivered E k (xss ! i)" "ys = drop k (xss ! i)"
    using run(4) by (simp_all add: Let_def k split: if_split_asm)
  let ?q = "(put_prod i a q)\<lparr>q_mem := m\<rparr>"
  have "same_shape ?q q" using put_prod_shape [OF i run(2)] .
  moreover have "lanes T E ?q (xss[i := drop k (xss ! i)])" using run(5) map_put_prod [OF i, of a] unfolding lanes_def r(3) by auto
  ultimately show ?thesis using run(1,3) i queue_inv_shape [OF inv, of ?q] by (auto simp: on_prod_def with_prod_def r(1,2))
qed

lemma on_prod_enqueue_bulk:
  assumes inv: "queue_inv T E q xss" and i: "i < nprods q" and kind: "\<not> is_explicit (prod_at q i)" and len: "length items < 2 ^ 63"
  shows "\<exists>b q'. on_prod (as_implicit (implicit_enqueue_bulk T E mode items)) i q = Ret (Val b, q') \<and>
    queue_inv T E q' (if b then xss[i := xss ! i @ items] else xss) \<and> same_shape q' q"
proof -
  obtain Bs where fam: "family (any_queue T E) (map nd_prod (producers q)) (q_mem q) Bs xss"
    using inv by (auto simp: queue_inv_def lanes_def)
  obtain p where p: "prod_at q i = Implicit p" using kind by (cases "prod_at q i") auto
  have h: "any_queue T E (prod_at q i) (q_mem q) (Bs ! i) (xss ! i)" "mem_inv (q_mem q) (\<Union> (set Bs))" "Bs ! i \<subseteq> \<Union> (set Bs)"
    using fam i by (auto simp: family_def Union_upper)
  then have e: "\<not> isExplicit p" "imp_queue T p (q_mem q) (Bs ! i) (xss ! i)" by (simp_all add: any_queue_def p)
  have nt: "\<not> raises E x" for x by (rule queue_invD(2) [OF inv])
  then have ok: "call_ok E (Enq_Many mode items)" using len by simp
  obtain r p' m B' ys where run: "implicit_enqueue_bulk T E mode items p (q_mem q) = Ret (r, p', m)"
    "after E (Enq_Many mode items) (Enq_Many_Res r) (xss ! i) = Some ys" "imp_queue T p' m B' ys" "moves (q_mem q) (\<Union> (set Bs)) (Bs ! i) m B'" "same_links p' p"
    using imp_bulk.enq_bulk_law [OF e(2) h(2,3) ok] by (elim exE conjE) (rule that)
  obtain b where b: "r = Val b" "ys = (if b then xss ! i @ items else xss ! i)"
    using run(2) nt by (cases r) (auto simp: list_ex_iff split: bool.split_asm if_split_asm)
  note lim = implicit_enqueue_bulk_limit [OF run(1)]
  have "isExplicit p' = isExplicit p" using run(5) by (simp add: same_links_def)
  then have new: "any_queue T E (Implicit p') m B' ys" "any_links (Implicit p') (prod_at q i)"
    using run(3,5) e(1) by (simp_all add: any_queue_def any_links_def p same_links_base)
  have len': "i < length (map nd_prod (producers q))" "(map nd_prod (producers q)) ! i = prod_at q i" using i by simp_all
  from any.family_update [OF fam len'(1) new(1) run(4) lim]
  have fam': "family (any_queue T E) ((map nd_prod (producers q))[i := Implicit p']) m (Bs[i := B']) (xss[i := ys])" .
  let ?q = "(put_prod i (Implicit p') q)\<lparr>q_mem := m\<rparr>"
  have "same_shape ?q q" by (rule put_prod_shape [OF i new(2)])
  moreover have "xss[i := ys] = (if b then xss[i := xss ! i @ items] else xss)" using b(2) by simp
  then have "lanes T E ?q (if b then xss[i := xss ! i @ items] else xss)" using fam' map_put_prod [OF i] unfolding lanes_def by auto
  moreover have "on_prod (as_implicit (implicit_enqueue_bulk T E mode items)) i q = Ret (Val b, ?q)"
    using run(1) b(1) i p by (simp add: on_prod_def with_prod_def as_implicit_def)
  ultimately show ?thesis using lim queue_inv_shape [OF inv, of ?q] by auto
qed

section \<open>Draining lanes\<close>

text \<open>
  Taking up to \<open>n\<close> elements from the lanes in the order given: from each as many as it has and are still wanted. When an
  assignment throws, the rest of what was taken from that lane is gone.
\<close>

fun drain :: "'d elem_ops \<Rightarrow> nat \<Rightarrow> nat list \<Rightarrow> 'd list list \<Rightarrow> bool \<times> 'd list \<times> 'd list list" where
  "drain E n [] xss = (False, [], xss)"
| "drain E n (i # order) xss =
     (let k = given (xss ! i) n; xss1 = xss[i := drop k (xss ! i)]
      in if list_ex (assign_raises E) (take k (xss ! i)) then (True, delivered E k (xss ! i), xss1)
         else if k = n then (False, take k (xss ! i), xss1)
         else case drain E (n - k) order xss1 of (threw, els, xss2) \<Rightarrow> (threw, take k (xss ! i) @ els, xss2))"

text \<open>What a bulk dequeue from the whole queue may do: drain the lanes in some order that leaves out only empty ones.\<close>

definition visits :: "nat list \<Rightarrow> 'd list list \<Rightarrow> bool" where
  "visits order xss \<longleftrightarrow> set order \<subseteq> {..<length xss} \<and> (\<forall>i < length xss. xss ! i \<noteq> [] \<longrightarrow> i \<in> set order)"

definition counted_as :: "64 word \<Rightarrow> bool \<Rightarrow> 'd list \<Rightarrow> 64 word xres" where
  "counted_as cnt threw els = (if threw then Exc else Val (cnt + of_nat (length els)))"

lemma delivered_all: "\<not> list_ex (assign_raises E) (take k xs) \<Longrightarrow> delivered E k xs = take k xs"
  by (auto simp: delivered_def list_ex_iff takeWhile_eq_all_conv)

lemma unat_rest:
  assumes "k \<le> unat (x :: 64 word)"
  shows "unat (x - of_nat k) = unat x - k" "(of_nat k = x) = (k = unat x)" "unat (of_nat k :: 64 word) = k" "((of_nat k :: 64 word) = 0) = (k = 0)"
proof -
  show un: "unat (of_nat k :: 64 word) = k" using assms unat_lt_64 [of x] by (intro unat_of_nat_64) linarith
  then show "unat (x - of_nat k) = unat x - k" using assms by (subst unat_sub) (simp_all add: word_le_nat_alt)
  show "(of_nat k = x) = (k = unat x)" "((of_nat k :: 64 word) = 0) = (k = 0)" using un by (auto simp: word_unat_eq_iff)
qed

lemma drain_cases:
  assumes "k = given (xss ! i) n"
  obtains (thrown) "list_ex (assign_raises E) (take k (xss ! i))" "\<And>order. drain E n (i # order) xss = (True, delivered E k (xss ! i), xss[i := drop k (xss ! i)])"
  | (full) "\<not> list_ex (assign_raises E) (take k (xss ! i))" "k = n" "delivered E k (xss ! i) = take k (xss ! i)"
      "\<And>order. drain E n (i # order) xss = (False, take k (xss ! i), xss[i := drop k (xss ! i)])"
  | (more) "\<not> list_ex (assign_raises E) (take k (xss ! i))" "k \<noteq> n" "k = length (xss ! i)" "delivered E k (xss ! i) = xss ! i"
      "\<And>order. drain E n (i # order) xss = (case drain E (n - k) order (xss[i := []]) of (threw, els, xss2) \<Rightarrow> (threw, xss ! i @ els, xss2))"
proof (cases "list_ex (assign_raises E) (take k (xss ! i))")
  case False
  note d = delivered_all [OF False]
  show thesis
  proof (cases "k = n")
    case True
    show thesis by (rule full [OF False True d]) (use False True assms in \<open>simp add: Let_def\<close>)
  next
    case ne: False
    then have len: "k = length (xss ! i)" using assms by (simp add: min_def split: if_split_asm)
    then have "delivered E k (xss ! i) = xss ! i" using d by simp
    then show thesis by (rule more [OF False ne len]) (use False ne assms len in \<open>simp add: Let_def\<close>)
  qed
qed (use thrown assms in \<open>simp add: Let_def\<close>)

lemma bulk_each_spec:
  assumes "queue_inv T E q xss" and "k \<le> nprods q" and "k < f" and "drain E (unat (mx - cnt)) (rev [0..<k]) xss = (threw, els, xss')"
  shows "\<exists>q'. bulk_each f T E mx cnt (ptr_of k) q = Ret ((counted_as cnt threw els, els), q') \<and> queue_inv T E q' xss' \<and> same_shape q' q"
  using assms
proof (induction f arbitrary: k q xss cnt els)
  case (Suc f)
  show ?case
  proof (cases k)
    case 0
    with Suc.prems same_shape_refl show ?thesis by (auto simp: counted_as_def)
  next
    case (Suc i)
    have i: "i < nprods q" "next_prod (prod_at q i) = ptr_of i" using Suc.prems Suc by (auto simp: queue_inv_def list_ok_def)
    have ord: "rev [0..<k] = i # rev [0..<i]" using Suc by simp
    define n where "n = given (xss ! i) (unat (mx - cnt))"
    obtain q1 where q1: "on_prod (any_dequeue_bulk T E (mx - cnt)) i q =
        Ret ((if list_ex (assign_raises E) (take n (xss ! i)) then Exc else Val (of_nat n), delivered E n (xss ! i)), q1)"
      "queue_inv T E q1 (xss[i := drop n (xss ! i)])" "same_shape q1 q" using on_prod_dequeue_bulk [OF Suc.prems(1) i(1) n_def] by blast
    have "n \<le> unat (mx - cnt)" by (simp add: n_def)
    note u = unat_rest [OF this]
    have stop: "cnt + of_nat n = mx \<longleftrightarrow> n = unat (mx - cnt)" using u(2) by (metis add_diff_cancel_left' diff_add_cancel add.commute)
    show ?thesis using n_def
    proof (cases rule: drain_cases [where E = E and i = i and xss = xss and n = "unat (mx - cnt)" and k = n])
      case thrown
      then show ?thesis using q1 Suc Suc.prems(4) ord by (auto simp: counted_as_def)
    next
      case full
      have out: "els = take n (xss ! i)" "\<not> threw" "xss' = xss[i := drop n (xss ! i)]" using Suc.prems(4) full(4) ord by auto
      have "counted_as cnt threw els = Val (cnt + of_nat n)" using out by (simp add: counted_as_def n_def)
      then have "bulk_each (Suc f) T E mx cnt (ptr_of k) q = Ret ((counted_as cnt threw els, els), q1)"
        using q1(1) full(1,3) stop [THEN iffD2, OF full(2)] Suc out(1) by (simp add: Let_def)
      then show ?thesis using q1(2,3) out(3) by blast
    next
      case more
      obtain els' where d: "drain E (unat (mx - cnt) - n) (rev [0..<i]) (xss[i := []]) = (threw, els', xss')" "els = xss ! i @ els'"
        using Suc.prems(4) more(5) ord by (auto split: prod.split_asm)
      have inv1: "queue_inv T E q1 (xss[i := []])" using q1(2) more(3) by simp
      have "unat (mx - (cnt + of_nat n)) = unat (mx - cnt) - n" using u(1) by (simp add: diff_diff_add)
      then obtain q' where rest: "bulk_each f T E mx (cnt + of_nat n) (ptr_of i) q1 = Ret ((counted_as (cnt + of_nat n) threw els', els'), q')"
        "queue_inv T E q' xss'" "same_shape q' q1"
        using Suc.IH [OF inv1, of i "cnt + of_nat n" els'] d(1) Suc.prems Suc same_shape_fields(3) [OF q1(3)] by auto
      have "bulk_each (Suc f) T E mx cnt (ptr_of k) q = Ret ((counted_as (cnt + of_nat n) threw els', xss ! i @ els'), q')"
        using q1(1) more Suc stop i same_shape_fields(3,6) [OF q1(3)] rest(1) by (simp add: with_prod_def Let_def)
      moreover have "counted_as (cnt + of_nat n) threw els' = counted_as cnt threw els" using d(2) more(3) by (simp add: counted_as_def)
      ultimately show ?thesis using rest(2) same_shape_trans [OF rest(3) q1(3)] d(2) by auto
    qed
  qed
qed simp

lemma try_dequeue_bulk_spec:
  assumes inv: "queue_inv T E q xss"
  shows "\<exists>order threw els q' xss'. try_dequeue_bulk T E mx q = Ret ((counted_as 0 threw els, els), q') \<and> visits order xss \<and>
    drain E (unat mx) order xss = (threw, els, xss') \<and> queue_inv T E q' xss' \<and> same_shape q' q"
proof -
  obtain threw els xss' where d: "drain E (unat (mx - 0)) (rev [0..<nprods q]) xss = (threw, els, xss')" by (metis prod_cases3)
  from bulk_each_spec [OF inv order.refl _ d, of "list_fuel q"] obtain q' where
    "try_dequeue_bulk T E mx q = Ret ((counted_as 0 threw els, els), q')" "queue_inv T E q' xss'" "same_shape q' q"
    by (auto simp: try_dequeue_bulk_def ptr_list [OF inv] list_fuel_def)
  moreover have "visits (rev [0..<nprods q]) xss" using queue_invD(6) [OF inv] by (auto simp: visits_def)
  ultimately show ?thesis using d by fastforce
qed

section \<open>Bulk dequeues with a consumer token\<close>

text \<open>
  The loop runs around the ring until it comes back to the producer that gave something last. The lanes with elements
  are among the next \<open>w\<close> ones; after these the loop makes one more round at most.
\<close>

lemma mod_before: "Suc a mod n = Suc b mod n \<Longrightarrow> 0 < n \<Longrightarrow> a mod n = b mod (n :: nat)"
proof -
  assume eq: "Suc a mod n = Suc b mod n" and n: "0 < n"
  have "(Suc x mod n + (n - 1)) mod n = x mod n" for x
  proof -
    have "Suc x + (n - 1) = x + n" using n by simp
    then show ?thesis by (metis mod_add_left_eq mod_add_self2)
  qed
  then show ?thesis using eq by metis
qed

lemma visits_front: "i < length xss \<Longrightarrow> visits (i # [0..<length xss]) xss"
  by (auto simp: visits_def)

lemma visits_Cons:
  assumes "visits order (xss[i := []])" and "i < length xss"
  shows "visits (i # order) xss"
  using assms by (auto simp: visits_def nth_list_update)

definition moved_to :: "'d queue \<Rightarrow> ConsumerToken \<Rightarrow> ConsumerToken \<Rightarrow> bool" where
  "moved_to q tok tok' \<longleftrightarrow> desiredProducer tok' = desiredProducer tok \<and> (\<exists>c' < nprods q. currentProducer tok' = Some c')"

lemma ring_bulk_spec:
  assumes "queue_inv T E q xss" and "c < nprods q" and "d < nprods q" and "currentProducer tok = Some c" and "w \<le> d"
    and "{j. j < nprods q \<and> xss ! j \<noteq> []} \<subseteq> around (nprods q) b w" and "0 < w \<longrightarrow> (b + w) mod nprods q = (c + d) mod nprods q"
    and "d < f" and "0 < w \<longrightarrow> w + nprods q \<le> f"
  shows "\<exists>order threw els tok' q' xss'. ring_bulk f T E (producerListTail q) mx cnt (Some ((c + d) mod nprods q)) tok q =
      Ret ((counted_as cnt threw els, els), tok', q') \<and> visits order xss \<and> drain E (unat mx) order xss = (threw, els, xss') \<and>
    queue_inv T E q' xss' \<and> same_shape q' q \<and> moved_to q tok tok'"
  using assms
proof (induction f arbitrary: c d w tok q xss mx cnt)
  case (Suc f)
  let ?n = "nprods q"
  have n: "0 < ?n" and len: "length xss = ?n" using Suc.prems(2) queue_invD(6) [OF Suc.prems(1)] by auto
  show ?case
  proof (cases d)
    case 0
    then have "visits [] xss" using Suc.prems(5,6) len by (auto simp: visits_def around_def)
    with 0 Suc.prems(1,2,4) same_shape_refl show ?thesis
      by (intro exI [of _ "[]"] exI [of _ False] exI [of _ "[]"] exI [of _ tok] exI [of _ q] exI [of _ xss]) (simp add: counted_as_def moved_to_def)
  next
    case d: (Suc e)
    define i where "i = (c + d) mod ?n"
    have i: "i < ?n" "i \<noteq> c" using Suc.prems(2,3) d around_not [of d ?n c] mod_less_divisor [OF n] by (auto simp: i_def)
    define k where "k = given (xss ! i) (unat mx)"
    obtain q1 where q1: "on_prod (any_dequeue_bulk T E mx) i q =
        Ret ((if list_ex (assign_raises E) (take k (xss ! i)) then Exc else Val (of_nat k), delivered E k (xss ! i)), q1)"
      "queue_inv T E q1 (xss[i := drop k (xss ! i)])" "same_shape q1 q" using on_prod_dequeue_bulk [OF Suc.prems(1) i(1) k_def] by blast
    have "k \<le> unat mx" by (simp add: k_def)
    note u = unat_rest [OF this] and f1 = same_shape_fields(1,3) [OF q1(3)]
    note visit = visits_front [of i xss, unfolded len, OF i(1)]
    define tok1 where "tok1 = (if k \<noteq> 0 then tok\<lparr>currentProducer := Some i, itemsConsumedFromCurrent := ucast (of_nat k :: 64 word)\<rparr> else tok)"
    have t1: "moved_to q tok tok" "moved_to q tok tok1" using i(1) Suc.prems(2,4) by (auto simp: tok1_def moved_to_def)
    show ?thesis using k_def
    proof (cases rule: drain_cases [where E = E and i = i and xss = xss and n = "unat mx" and k = k])
      case thrown
      then have "ring_bulk (Suc f) T E (producerListTail q) mx cnt (Some i) tok q = Ret ((counted_as cnt True (delivered E k (xss ! i)), delivered E k (xss ! i)), tok, q1)"
        using q1(1) i(2) Suc.prems(4) by (simp add: counted_as_def)
      then show ?thesis using visit thrown(2) q1(2,3) t1(1) unfolding i_def by blast
    next
      case full
      have "length (take k (xss ! i)) = k" by (simp add: k_def)
      then have "ring_bulk (Suc f) T E (producerListTail q) mx cnt (Some i) tok q = Ret ((counted_as cnt False (take k (xss ! i)), take k (xss ! i)), tok1, q1)"
        using q1(1) i(2) Suc.prems(4) full u by (simp add: counted_as_def tok1_def Let_def)
      then show ?thesis using visit full(4) q1(2,3) t1(2) unfolding i_def by blast
    next
      case more
      have inv1: "queue_inv T E q1 (xss[i := []])" using q1(2) more(3) by simp
      have bk: "(i + (?n - 1)) mod ?n = (c + e) mod ?n" unfolding i_def d using around_back [of e ?n c] Suc.prems(2,3) d by simp
      have step: "ring_step q1 (producerListTail q) (Some i) = Ret (Some ((c + e) mod ?n))"
        using ring_step_spec [of q1 i] queue_invD(5) [OF inv1] i(1) f1 bk by simp
      have wi: "(b + w) mod ?n = i" if "0 < w" using Suc.prems(7) that by (simp add: i_def)
      have near: "{j. j < ?n \<and> (xss[i := []]) ! j \<noteq> []} \<subseteq> around ?n b (w - 1)"
      proof
        fix j assume "j \<in> {j. j < ?n \<and> (xss[i := []]) ! j \<noteq> []}"
        then have j: "j \<in> around ?n b w" "j \<noteq> i" using Suc.prems(6) i(1) len by (auto simp: nth_list_update split: if_split_asm)
        then show "j \<in> around ?n b (w - 1)" using wi by (cases w) (auto simp: around_Suc)
      qed
      have next_w: "0 < w - 1 \<longrightarrow> (b + (w - 1)) mod ?n = (c + e) mod ?n"
      proof
        assume w: "0 < w - 1"
        then have "Suc (b + (w - 1)) mod ?n = Suc (c + e) mod ?n" using Suc.prems(7) d by simp
        then show "(b + (w - 1)) mod ?n = (c + e) mod ?n" using n by (rule mod_before)
      qed
      obtain c1 d1 where c1: "c1 < ?n" "d1 < ?n" "currentProducer tok1 = Some c1" "w - 1 \<le> d1" "(c1 + d1) mod ?n = (c + e) mod ?n" "d1 < f"
      proof (cases "k = 0")
        case True
        show thesis by (rule that [of c e]) (use True Suc.prems d in \<open>auto simp: tok1_def\<close>)
      next
        case False
        then have "i \<in> around ?n b w" using Suc.prems(6) i(1) more(3) by auto
        then have w: "0 < w" by (cases w) (auto simp: around_def)
        show thesis by (rule that [of i "?n - 1"]) (use False w i(1) bk n Suc.prems(3,5,9) in \<open>auto simp: tok1_def\<close>)
      qed
      have fu: "0 < w - 1 \<longrightarrow> (w - 1) + ?n \<le> f" using Suc.prems(9) by auto
      have nw: "0 < w - 1 \<longrightarrow> (b + (w - 1)) mod ?n = (c1 + d1) mod ?n" unfolding c1(5) by (rule next_w)
      obtain order threw els tok' q' xss' where rest:
        "ring_bulk f T E (producerListTail q) (mx - of_nat k) (cnt + of_nat k) (Some ((c + e) mod ?n)) tok1 q1 =
           Ret ((counted_as (cnt + of_nat k) threw els, els), tok', q')" "visits order (xss[i := []])"
        "drain E (unat (mx - of_nat k)) order (xss[i := []]) = (threw, els, xss')" "queue_inv T E q' xss'" "same_shape q' q1"
        "moved_to q1 tok1 tok'" 
        using Suc.IH [OF inv1, of c1 d1 tok1 "w - 1" "mx - of_nat k" "cnt + of_nat k", unfolded f1, OF c1(1-4) near nw c1(6) fu]
        unfolding c1(5) by (elim exE conjE) (rule that)
      have "ring_bulk (Suc f) T E (producerListTail q) mx cnt (Some i) tok q = Ret ((counted_as cnt threw (xss ! i @ els), xss ! i @ els), tok', q')"
      proof -
        have "(if (of_nat k :: 64 word) \<noteq> 0 then tok\<lparr>currentProducer := Some i, itemsConsumedFromCurrent := ucast (of_nat k :: 64 word)\<rparr> else tok) = tok1"
          by (simp add: tok1_def u(4))
        moreover have "on_prod (any_dequeue_bulk T E mx) i q = Ret ((Val (of_nat k), xss ! i), q1)" using q1(1) more(1,4) by simp
        moreover have "counted_as (cnt + of_nat k) threw els = counted_as cnt threw (xss ! i @ els)" by (simp add: counted_as_def more(3))
        ultimately show ?thesis using i(2) Suc.prems(4) u(2) more(2) step rest(1) by (simp add: Let_def)
      qed
      moreover have "drain E (unat mx) (i # order) xss = (threw, xss ! i @ els, xss')" using rest(3) more(5) u(1) by simp
      moreover have "visits (i # order) xss" using visits_Cons [OF rest(2)] i(1) len by simp
      moreover have "moved_to q tok tok'" using rest(6) t1(2) f1(2) by (simp add: moved_to_def)
      ultimately show ?thesis using rest(4) same_shape_trans [OF rest(5) q1(3)] unfolding i_def by blast
    qed
  qed
qed simp

lemma try_dequeue_bulk_token_spec:
  assumes inv: "queue_inv T E q xss" and tok: "token_ok q tok" and n: "nprods q < 2 ^ 32"
  shows "\<exists>order threw els tok' q' xss'. try_dequeue_bulk_token T E tok mx q = Ret ((counted_as 0 threw els, els), tok', q') \<and> visits order xss \<and>
    drain E (unat mx) order xss = (threw, els, xss') \<and> queue_inv T E q' xss' \<and> token_ok q' tok' \<and> (\<exists>g. same_shape q' (q\<lparr>globalExplicitConsumerOffset := g\<rparr>))"
proof (cases "nprods q = 0")
  case True
  then have "producerListTail q = None" "desiredProducer tok = None"
    using ptr_list [OF inv] tok by (auto simp: token_ok_def)
  then have "try_dequeue_bulk_token T E tok mx q = Ret ((counted_as 0 False [], []), tok, q)"
    by (simp add: try_dequeue_bulk_token_def token_stale_def update_current_producer_after_rotation_def counted_as_def)
  moreover have "\<exists>g. same_shape q (q\<lparr>globalExplicitConsumerOffset := g\<rparr>)"
    using same_shape_refl by (intro exI [of _ "globalExplicitConsumerOffset q"]) simp
  moreover have "visits [] xss" using True queue_invD(6) [OF inv] by (simp add: visits_def)
  ultimately show ?thesis using inv tok by (intro exI [of _ "[]"] exI [of _ False] exI [of _ "[]"] exI [of _ tok] exI [of _ q] exI [of _ xss]) simp
next
  case False
  let ?n = "nprods q"
  have len: "length xss = ?n" and pos: "0 < ?n" using queue_invD(6) [OF inv] False by auto
  obtain c tok1 where start: "(if token_stale tok q then update_current_producer_after_rotation tok q else Ret (True, tok)) = Ret (True, tok1)"
    and c: "c < ?n" "currentProducer tok1 = Some c" and tok1: "token_ok q tok1" "desiredProducer tok1 \<noteq> None"
    by (rule token_start_place [OF queue_invD(5) [OF inv] tok n pos])
  define k where "k = given (xss ! c) (unat mx)"
  obtain q1 where q1: "on_prod (any_dequeue_bulk T E mx) c q =
      Ret ((if list_ex (assign_raises E) (take k (xss ! c)) then Exc else Val (of_nat k), delivered E k (xss ! c)), q1)"
    "queue_inv T E q1 (xss[c := drop k (xss ! c)])" "same_shape q1 q" using on_prod_dequeue_bulk [OF inv c(1) k_def] by blast
  note f1 = same_shape_fields(1,3) [OF q1(3)] and visit = visits_front [of c xss, unfolded len, OF c(1)]
  have "k \<le> unat mx" by (simp add: k_def)
  note u = unat_rest [OF this]
  have same: "\<exists>g. same_shape q' (q\<lparr>globalExplicitConsumerOffset := g\<rparr>)" if "same_shape q' q" for q'
    using that by (intro exI [of _ "globalExplicitConsumerOffset q"]) simp
  show ?thesis using k_def
  proof (cases rule: drain_cases [where E = E and i = c and xss = xss and n = "unat mx" and k = k])
    case thrown
    have "try_dequeue_bulk_token T E tok mx q = Ret ((counted_as 0 True (delivered E k (xss ! c)), delivered E k (xss ! c)), tok1, q1)"
      unfolding try_dequeue_bulk_token_def start using c(2) q1(1) thrown(1) by (simp add: counted_as_def)
    moreover have "token_ok q1 tok1" using tok1 token_ok_shape [OF q1(3)] by simp
    ultimately show ?thesis using visit thrown(2) q1(2) same [OF q1(3)] by blast
  next
    case full
    let ?m = "itemsConsumedFromCurrent tok1 + ucast mx"
    define g where "g = (if ?m \<ge> EXPLICIT_CONSUMER_CONSUMPTION_QUOTA_BEFORE_ROTATE T then globalExplicitConsumerOffset q1 + 1 else globalExplicitConsumerOffset q1)"
    let ?q = "q1\<lparr>globalExplicitConsumerOffset := g\<rparr>" and ?tok = "tok1\<lparr>itemsConsumedFromCurrent := ?m\<rparr>"
    have "of_nat k = mx" "counted_as 0 False (take k (xss ! c)) = Val mx" using full(2) k_def by (simp_all add: counted_as_def)
    then have "try_dequeue_bulk_token T E tok mx q = Ret ((counted_as 0 False (take k (xss ! c)), take k (xss ! c)), ?tok, ?q)"
      unfolding try_dequeue_bulk_token_def start using c(2) q1(1) full(1,3) by (simp add: g_def Let_def)
    moreover have "queue_inv T E ?q (xss[c := drop k (xss ! c)])" using q1(2) by (simp add: queue_inv_def lanes_def list_ok_def)
    moreover have "same_shape ?q (q\<lparr>globalExplicitConsumerOffset := g\<rparr>)" by (rule same_shape_offset [OF q1(3)])
    moreover have "token_ok ?q ?tok" using tok1 f1 by (simp add: token_ok_def)
    ultimately show ?thesis using visit full(4) by blast
  next
    case more
    have inv1: "queue_inv T E q1 (xss[c := []])" using q1(2) more(3) by simp
    let ?tok = "tok1\<lparr>itemsConsumedFromCurrent := itemsConsumedFromCurrent tok1 + ucast (of_nat k :: 64 word)\<rparr>"
    have step: "ring_step q1 (producerListTail q1) (Some c) = Ret (Some ((c + (?n - 1)) mod ?n))"
      using ring_step_spec [of q1 c] queue_invD(5) [OF inv1] c(1) f1 by simp
    have near: "{j. j < nprods q1 \<and> (xss[c := []]) ! j \<noteq> []} \<subseteq> around (nprods q1) c (?n - 1)"
    proof
      fix j assume "j \<in> {j. j < nprods q1 \<and> (xss[c := []]) ! j \<noteq> []}"
      then have "j \<in> insert c (around ?n c (?n - 1))" "j \<noteq> c" using c(1) f1(2) len unfolding around_all [OF c(1)] by auto
      then show "j \<in> around (nprods q1) c (?n - 1)" by (simp add: f1(2))
    qed
    have "\<exists>order threw els tok' q' xss'. ring_bulk (2 * list_fuel q1) T E (producerListTail q1) (mx - of_nat k) (of_nat k) (Some ((c + (?n - 1)) mod nprods q1)) ?tok q1 =
        Ret ((counted_as (of_nat k) threw els, els), tok', q') \<and> visits order (xss[c := []]) \<and>
        drain E (unat (mx - of_nat k)) order (xss[c := []]) = (threw, els, xss') \<and> queue_inv T E q' xss' \<and> same_shape q' q1 \<and>
        moved_to q1 ?tok tok'"
      by (rule ring_bulk_spec [OF inv1 _ _ _ order.refl near]) (use c f1 False in \<open>auto simp: list_fuel_def\<close>)
    then obtain order threw els tok' q' xss' where rest:
      "ring_bulk (2 * list_fuel q1) T E (producerListTail q1) (mx - of_nat k) (of_nat k) (Some ((c + (?n - 1)) mod nprods q1)) ?tok q1 =
         Ret ((counted_as (of_nat k) threw els, els), tok', q')" "visits order (xss[c := []])"
      "drain E (unat (mx - of_nat k)) order (xss[c := []]) = (threw, els, xss')" "queue_inv T E q' xss'" "same_shape q' q1"
      "moved_to q1 ?tok tok'" by (elim exE conjE) (rule that)
    have "try_dequeue_bulk_token T E tok mx q = Ret ((counted_as 0 threw (xss ! c @ els), xss ! c @ els), tok', q')"
    proof -
      have "on_prod (any_dequeue_bulk T E mx) c q = Ret ((Val (of_nat k), xss ! c), q1)" using q1(1) more(1,4) by simp
      moreover have "counted_as (of_nat k) threw els = counted_as 0 threw (xss ! c @ els)" by (simp add: counted_as_def more(3))
      ultimately show ?thesis unfolding try_dequeue_bulk_token_def start using c(2) u(2) more(2) step rest(1) f1(2)
        by (simp add: Let_def del: ring_bulk.simps)
    qed
    moreover have "drain E (unat mx) (c # order) xss = (threw, xss ! c @ els, xss')" using rest(3) more(5) u(1) by simp
    moreover have "visits (c # order) xss" using visits_Cons [OF rest(2)] c(1) len by simp
    moreover have sh: "same_shape q' q" by (rule same_shape_trans [OF rest(5) q1(3)])
    moreover have "token_ok q' tok'" using tok1 rest(6) f1 same_shape_fields(3) [OF sh] by (auto simp: token_ok_def moved_to_def)
    ultimately show ?thesis using rest(4) same [OF sh] by blast
  qed
qed

section \<open>Draining when nothing throws\<close>

lemma visits_tail: "visits (i # order) xss \<Longrightarrow> visits order (xss[i := []])"
  by (auto simp: visits_def nth_list_update split: if_split_asm)

lemma drain_nothing:
  assumes "set order \<subseteq> {..<length xss}" and "n = 0 \<or> (\<forall>xs \<in> set xss. xs = [])"
  shows "drain E n order xss = (False, [], xss)"
  using assms
proof (induction order)
  case (Cons i order)
  then have i: "i < length xss" by simp
  then have k: "given (xss ! i) n = 0" using Cons.prems(2) by (metis list.size(3) min_0L min_0R nth_mem)
  have "drain E n order xss = (False, [], xss)" using Cons by simp
  then show ?case using k by (simp add: Let_def)
qed simp

lemma lanes_update: "i < length xss \<Longrightarrow> sum_list (map length (xss[i := ys])) + length (xss ! i) = sum_list (map length xss) + length ys"
  using elem_le_sum_list [of i "map length xss"] by (simp add: map_update sum_list_update)

lemma drain_counts:
  assumes "visits order xss" and "\<forall>x. \<not> assign_raises E x" and "drain E n order xss = (threw, els, xss')"
  shows "\<not> threw \<and> length els = min n (sum_list (map length xss)) \<and> sum_list (map length xss') + length els = sum_list (map length xss)"
  using assms
proof (induction order arbitrary: n xss els)
  case Nil
  then have "\<forall>xs \<in> set xss. xs = []" by (auto simp: visits_def in_set_conv_nth)
  then have "sum_list (map length xss) = 0" by simp
  moreover have "\<not> threw" "els = []" "xss' = xss" using Nil.prems(3) by simp_all
  ultimately show ?case by (metis add_0_right list.size(3) min_0R)
next
  case (Cons i order)
  have i: "i < length xss" using Cons.prems(1) by (simp add: visits_def)
  note sum = lanes_update [OF i]
  define k where "k = given (xss ! i) n"
  show ?case using k_def
  proof (cases rule: drain_cases [where E = E and i = i and xss = xss and n = n and k = k])
    case thrown
    then show ?thesis using Cons.prems(2) by (simp add: list_ex_iff)
  next
    case full
    then have "els = take n (xss ! i)" "xss' = xss[i := drop n (xss ! i)]" "\<not> threw" "n \<le> length (xss ! i)" using Cons.prems(3) k_def by auto
    then show ?thesis using sum [of "drop n (xss ! i)"] by simp
  next
    case more
    then obtain els' where d: "drain E (n - k) order (xss[i := []]) = (threw, els', xss')" "els = xss ! i @ els'"
      using Cons.prems(3) by (auto split: prod.split_asm)
    from Cons.IH [OF visits_tail [OF Cons.prems(1)] Cons.prems(2) d(1)] show ?thesis using sum [of "[]"] more(2,3) d(2) k_def by auto
  qed
qed

lemma drain_all:
  assumes "visits order xss" and "\<forall>x. \<not> assign_raises E x" and "sum_list (map length xss) \<le> n"
  shows "drain E n order xss = drain E (sum_list (map length xss)) order xss"
  using assms
proof (induction order arbitrary: n xss)
  case (Cons i order)
  let ?t = "sum_list (map length xss)"
  have i: "i < length xss" and o: "set order \<subseteq> {..<length xss}" using Cons.prems(1) by (simp_all add: visits_def)
  have sum: "sum_list (map length (xss[i := []])) + length (xss ! i) = ?t"
    using lanes_update [OF i, of "[]"] by simp
  have nt: "\<not> list_ex (assign_raises E) ys" for ys using Cons.prems(2) by (simp add: list_ex_iff)
  have rest: "drain E (m - length (xss ! i)) order (xss[i := []]) = drain E (?t - length (xss ! i)) order (xss[i := []])" if "?t \<le> m" for m
    using Cons.IH [OF visits_tail [OF Cons.prems(1)] Cons.prems(2), of "m - length (xss ! i)"] sum that
    by (metis add_diff_cancel_right' diff_le_mono)
  have none: "drain E m order (xss[i := []]) = (False, [], xss[i := []])" if "length (xss ! i) = ?t" for m
    using sum that o by (intro drain_nothing) auto
  have "length (xss ! i) \<le> ?t" "length (xss ! i) \<le> n" using sum Cons.prems(3) by linarith+
  then show ?case using nt rest [OF Cons.prems(3)] none Cons.prems(3) by (auto simp: Let_def min_def)
qed simp

end
