(* ===== verification/CQ_Interface.thy ===== *)
theory CQ_Interface
  imports CQ_Register CQ_Queue_Bulk
begin

text \<open>
  The interface of the queue as clients use it: sequences of calls, made by any threads, and the
  abstract queue of lanes they are refined to.
\<close>

section \<open>Calls\<close>

text \<open>
  Calls without token by the thread \<open>tid\<close>, calls with producer tokens, with the \<open>k\<close>-th consumer token made,
  bulk calls, and the life of tokens. A client asks \<open>valid()\<close> before it uses a producer token.
\<close>

datatype 'd call =
    Enqueue AllocationMode "64 word" 'd
  | Enqueue_Token AllocationMode nat 'd
  | Dequeue
  | Dequeue_In_Order
  | Dequeue_Token nat
  | Dequeue_From nat
  | Enqueue_Bulk AllocationMode "64 word" "'d list"
  | Dequeue_Bulk "64 word"
  | Dequeue_Bulk_Token nat "64 word"
  | Dequeue_Bulk_From nat "64 word"
  | Size
  | New_Token nat
  | Move_Token nat nat
  | Swap_Tokens nat nat
  | Drop_Token nat
  | New_Consumer

datatype 'd answer =
    Accepted bool
  | Failed
  | Delivered "'d option xres"
  | Delivered_Bulk "64 word xres" "'d list"
  | Number "64 word"
  | Refused
  | Done

definition accepted :: "bool xres \<Rightarrow> 'd answer" where
  "accepted r = (case r of Val b \<Rightarrow> Accepted b | Exc \<Rightarrow> Failed)"

text \<open>A client's state: the queue and the consumer tokens.\<close>

fun do_call ::
  "traits \<Rightarrow> 'd elem_ops \<Rightarrow> 'd call \<Rightarrow> 'd queue \<times> ConsumerToken list \<Rightarrow> ('d answer \<times> 'd queue \<times> ConsumerToken list) outcome" where
  "do_call T E (Enqueue mode tid x) (q, ts) =
     and_then (if mode = CanAlloc then enqueue False T E tid x q else try_enqueue False T E tid x q) (\<lambda>(r, q'). Ret (accepted r, q', ts))"
| "do_call T E (Enqueue_Token mode t x) (q, ts) =
     and_then (token_valid t q) (\<lambda>v. if \<not> v then Ret (Refused, q, ts)
       else and_then (if mode = CanAlloc then enqueue_token T E t x q else try_enqueue_token T E t x q) (\<lambda>(r, q'). Ret (accepted r, q', ts)))"
| "do_call T E Dequeue (q, ts) = and_then (try_dequeue T E q) (\<lambda>(r, q'). Ret (Delivered r, q', ts))"
| "do_call T E Dequeue_In_Order (q, ts) = and_then (try_dequeue_non_interleaved T E q) (\<lambda>(r, q'). Ret (Delivered r, q', ts))"
| "do_call T E (Dequeue_Token k) (q, ts) =
     and_then (nth_out ts k) (\<lambda>tok. and_then (try_dequeue_token T E tok q) (\<lambda>(r, tok', q'). Ret (Delivered r, q', ts[k := tok'])))"
| "do_call T E (Dequeue_From t) (q, ts) =
     and_then (token_valid t q) (\<lambda>v. if \<not> v then Ret (Refused, q, ts)
       else and_then (try_dequeue_from_producer T E t q) (\<lambda>(r, q'). Ret (Delivered r, q', ts)))"
| "do_call T E (Enqueue_Bulk mode tid xs) (q, ts) =
     and_then (if mode = CanAlloc then enqueue_bulk False T E tid xs q else try_enqueue_bulk False T E tid xs q) (\<lambda>(r, q'). Ret (accepted r, q', ts))"
| "do_call T E (Dequeue_Bulk mx) (q, ts) = and_then (try_dequeue_bulk T E mx q) (\<lambda>((r, els), q'). Ret (Delivered_Bulk r els, q', ts))"
| "do_call T E (Dequeue_Bulk_Token k mx) (q, ts) =
     and_then (nth_out ts k) (\<lambda>tok. and_then (try_dequeue_bulk_token T E tok mx q) (\<lambda>((r, els), tok', q'). Ret (Delivered_Bulk r els, q', ts[k := tok'])))"
| "do_call T E (Dequeue_Bulk_From t mx) (q, ts) =
     and_then (token_valid t q) (\<lambda>v. if \<not> v then Ret (Refused, q, ts)
       else and_then (try_dequeue_bulk_from_producer T E t mx q) (\<lambda>((r, els), q'). Ret (Delivered_Bulk r els, q', ts)))"
| "do_call T E Size (q, ts) = and_then (size_approx q) (\<lambda>n. Ret (Number n, q, ts))"
| "do_call T E (New_Token t) (q, ts) = and_then (ProducerToken T t q) (\<lambda>q'. Ret (Done, q', ts))"
| "do_call T E (Move_Token t u) (q, ts) = and_then (ProducerToken_move t u q) (\<lambda>q'. Ret (Done, q', ts))"
| "do_call T E (Swap_Tokens t u) (q, ts) = and_then (ProducerToken_swap t u q) (\<lambda>q'. Ret (Done, q', ts))"
| "do_call T E (Drop_Token t) (q, ts) = and_then (ProducerToken_destroy t q) (\<lambda>q'. Ret (Done, q', ts))"
| "do_call T E New_Consumer (q, ts) = (case ConsumerToken_new q of (tok, q') \<Rightarrow> Ret (Done, q', ts @ [tok]))"

fun do_calls ::
  "traits \<Rightarrow> 'd elem_ops \<Rightarrow> 'd call list \<Rightarrow> 'd queue \<times> ConsumerToken list \<Rightarrow> ('d answer list \<times> 'd queue \<times> ConsumerToken list) outcome" where
  "do_calls T E [] s = Ret ([], s)"
| "do_calls T E (c # cs) s =
     and_then (do_call T E c s) (\<lambda>(a, s'). and_then (do_calls T E cs s') (\<lambda>(as, s''). Ret (a # as, s'')))"

section \<open>The abstract queue\<close>

definition push :: "nat \<Rightarrow> 'd list \<Rightarrow> 'd lane_state \<Rightarrow> 'd lane_state" where
  "push i xs A = A\<lparr>lane := (lane A)[i := lane A ! i @ xs]\<rparr>"

text \<open>An enqueue at a lane: all elements are at its end, or nothing has changed.\<close>

definition pushes :: "nat \<Rightarrow> 'd list \<Rightarrow> 'd lane_state \<Rightarrow> 'd answer \<Rightarrow> 'd lane_state \<Rightarrow> bool" where
  "pushes i xs A a A' \<longleftrightarrow> a = Accepted True \<and> A' = push i xs A \<or> a = Accepted False \<and> A' = A"

definition pops :: "'d elem_ops \<Rightarrow> 'd lane_state \<Rightarrow> 'd answer \<Rightarrow> 'd lane_state \<Rightarrow> bool" where
  "pops E A a A' \<longleftrightarrow> (\<exists>r xss. a = Delivered r \<and> takes E {..<length (lane A)} (lane A) r xss \<and> A' = A\<lparr>lane := xss\<rparr>)"

text \<open>A bulk dequeue that drains the lanes in the order given.\<close>

definition drains :: "'d elem_ops \<Rightarrow> 64 word \<Rightarrow> nat list \<Rightarrow> 'd lane_state \<Rightarrow> 'd answer \<Rightarrow> 'd lane_state \<Rightarrow> bool" where
  "drains E mx order A a A' \<longleftrightarrow> (case drain E (unat mx) order (lane A) of
     (threw, els, xss) \<Rightarrow> a = Delivered_Bulk (counted_as 0 threw els) els \<and> A' = A\<lparr>lane := xss\<rparr>)"

definition set_tok :: "nat \<Rightarrow> nat option option \<Rightarrow> 'd lane_state \<Rightarrow> 'd lane_state" where
  "set_tok t v A = A\<lparr>token := (token A)(t := v)\<rparr>"

fun serves :: "'d elem_ops \<Rightarrow> 'd lane_state \<Rightarrow> 'd call \<Rightarrow> 'd answer \<Rightarrow> 'd lane_state \<Rightarrow> bool" where
  "serves E A (Enqueue mode tid x) a A' \<longleftrightarrow>
     (\<exists>r A1. finds tid A r A1 \<and> (case r of None \<Rightarrow> a = Accepted False \<and> A' = A1 | Some i \<Rightarrow> pushes i [x] A1 a A'))"
| "serves E A (Enqueue_Token mode t x) a A' \<longleftrightarrow>
     (case token A t of Some (Some i) \<Rightarrow> pushes i [x] A a A' | _ \<Rightarrow> a = Refused \<and> A' = A)"
| "serves E A Dequeue a A' \<longleftrightarrow> pops E A a A'"
| "serves E A Dequeue_In_Order a A' \<longleftrightarrow> pops E A a A'"
| "serves E A (Dequeue_Token k) a A' \<longleftrightarrow> pops E A a A'"
| "serves E A (Dequeue_From t) a A' \<longleftrightarrow>
     (case token A t of
        Some (Some i) \<Rightarrow> a = Delivered (front_of E (lane A ! i)) \<and> A' = A\<lparr>lane := (lane A)[i := tl (lane A ! i)]\<rparr>
      | _ \<Rightarrow> a = Refused \<and> A' = A)"
| "serves E A (Enqueue_Bulk mode tid xs) a A' \<longleftrightarrow>
     (\<exists>r A1. finds tid A r A1 \<and> (case r of None \<Rightarrow> a = Accepted False \<and> A' = A1 | Some i \<Rightarrow> pushes i xs A1 a A'))"
| "serves E A (Dequeue_Bulk mx) a A' \<longleftrightarrow> (\<exists>order. visits order (lane A) \<and> drains E mx order A a A')"
| "serves E A (Dequeue_Bulk_Token k mx) a A' \<longleftrightarrow> (\<exists>order. visits order (lane A) \<and> drains E mx order A a A')"
| "serves E A (Dequeue_Bulk_From t mx) a A' \<longleftrightarrow>
     (case token A t of Some (Some i) \<Rightarrow> drains E mx [i] A a A' | _ \<Rightarrow> a = Refused \<and> A' = A)"
| "serves E A Size a A' \<longleftrightarrow> a = Number (of_nat (sum_list (map length (lane A)))) \<and> A' = A"
| "serves E A (New_Token t) a A' \<longleftrightarrow> a = Done \<and>
     (A' = set_tok t (Some None) A \<or>
      (\<exists>i. (i < length (lane A) \<and> kind A ! i \<and> idle A ! i \<or> i = length (lane A)) \<and> A' = set_tok t (Some (Some i)) (adopt i True A)))"
| "serves E A (Move_Token t u) a A' \<longleftrightarrow> a = Done \<and> A' = set_tok u (Some None) (set_tok t (token A u) A)"
| "serves E A (Swap_Tokens t u) a A' \<longleftrightarrow> a = Done \<and> A' = set_tok u (token A t) (set_tok t (token A u) A)"
| "serves E A (Drop_Token t) a A' \<longleftrightarrow> a = Done \<and>
     A' = set_tok t None (case token A t of Some (Some i) \<Rightarrow> A\<lparr>idle := (idle A)[i := True]\<rparr> | _ \<Rightarrow> A)"
| "serves E A New_Consumer a A' \<longleftrightarrow> a = Done \<and> A' = A"

fun serves_all :: "'d elem_ops \<Rightarrow> 'd lane_state \<Rightarrow> 'd call list \<Rightarrow> 'd answer list \<Rightarrow> 'd lane_state \<Rightarrow> bool" where
  "serves_all E A [] [] A' \<longleftrightarrow> A' = A"
| "serves_all E A (c # cs) (a # as) A' \<longleftrightarrow> (\<exists>A1. serves E A c a A1 \<and> serves_all E A1 cs as A')"
| "serves_all E A _ _ A' \<longleftrightarrow> False"

text \<open>What clients must respect: thread ids are valid, tokens are made before they are used and not used
  afterwards, and a bulk call enqueues less than half the range of indices.\<close>

fun legal :: "nat list \<Rightarrow> nat \<Rightarrow> 'd call list \<Rightarrow> bool" where
  "legal alive k [] \<longleftrightarrow> True"
| "legal alive k (Enqueue mode tid x # cs) \<longleftrightarrow> valid_tid tid \<and> legal alive k cs"
| "legal alive k (Enqueue_Token mode t x # cs) \<longleftrightarrow> t \<in> set alive \<and> legal alive k cs"
| "legal alive k (Dequeue # cs) \<longleftrightarrow> legal alive k cs"
| "legal alive k (Dequeue_In_Order # cs) \<longleftrightarrow> legal alive k cs"
| "legal alive k (Dequeue_Token j # cs) \<longleftrightarrow> j < k \<and> legal alive k cs"
| "legal alive k (Dequeue_From t # cs) \<longleftrightarrow> t \<in> set alive \<and> legal alive k cs"
| "legal alive k (Enqueue_Bulk mode tid xs # cs) \<longleftrightarrow> valid_tid tid \<and> length xs < 2 ^ 63 \<and> legal alive k cs"
| "legal alive k (Dequeue_Bulk mx # cs) \<longleftrightarrow> legal alive k cs"
| "legal alive k (Dequeue_Bulk_Token j mx # cs) \<longleftrightarrow> j < k \<and> legal alive k cs"
| "legal alive k (Dequeue_Bulk_From t mx # cs) \<longleftrightarrow> t \<in> set alive \<and> legal alive k cs"
| "legal alive k (Size # cs) \<longleftrightarrow> legal alive k cs"
| "legal alive k (New_Token t # cs) \<longleftrightarrow> t \<notin> set alive \<and> legal (t # alive) k cs"
| "legal alive k (Move_Token t u # cs) \<longleftrightarrow> t \<notin> set alive \<and> u \<in> set alive \<and> legal (t # alive) k cs"
| "legal alive k (Swap_Tokens t u # cs) \<longleftrightarrow> t \<in> set alive \<and> u \<in> set alive \<and> t \<noteq> u \<and> legal alive k cs"
| "legal alive k (Drop_Token t # cs) \<longleftrightarrow> t \<in> set alive \<and> legal (removeAll t alive) k cs"
| "legal alive k (New_Consumer # cs) \<longleftrightarrow> legal alive (Suc k) cs"

section \<open>Each call refines its abstract counterpart\<close>

text \<open>The state of a client that holds the tokens \<open>alive\<close> and \<open>k\<close> consumer tokens.\<close>

definition client_ok :: "traits \<Rightarrow> 'd elem_ops \<Rightarrow> nat list \<Rightarrow> nat \<Rightarrow> 'd queue \<times> ConsumerToken list \<Rightarrow> 'd lane_state \<Rightarrow> bool" where
  "client_ok T E alive k s A \<longleftrightarrow> repr T E (fst s) A \<and> INITIAL_IMPLICIT_PRODUCER_HASH_SIZE T \<noteq> 0 \<and>
     (\<forall>t. token A t \<noteq> None \<longleftrightarrow> t \<in> set alive) \<and> length (snd s) = k \<and> (\<forall>tok \<in> set (snd s). token_ok (fst s) tok)"

lemma push_repr:
  assumes R: "repr T E q A" and i: "i < nprods q" and kind: "kind A ! i = ex"
  shows "\<exists>b q'. on_prod (kind_enqueue ex T E mode x) i q = Ret (Val b, q') \<and> repr T E q' (if b then push i [x] A else A) \<and> same_shape q' q"
proof -
  have "is_explicit (prod_at q i) = ex" using reprD(6) [OF R i] kind by simp
  from on_prod_enqueue [OF reprD(1) [OF R] i this] obtain b q' where
    q': "on_prod (kind_enqueue ex T E mode x) i q = Ret (Val b, q')"
      "queue_inv T E q' (if b then (lane A)[i := lane A ! i @ [x]] else lane A)" "same_shape q' q" by blast
  from repr_shape [OF R q'(3,2)] have "repr T E q' (if b then push i [x] A else A)" by (cases b) (simp_all add: push_def)
  with q' show ?thesis by blast
qed

lemma push_bulk_repr:
  assumes R: "repr T E q A" and i: "i < nprods q" and kind: "\<not> kind A ! i" and len: "length xs < 2 ^ 63"
  shows "\<exists>b q'. on_prod (as_implicit (implicit_enqueue_bulk T E mode xs)) i q = Ret (Val b, q') \<and> repr T E q' (if b then push i xs A else A) \<and> same_shape q' q"
proof -
  have "\<not> is_explicit (prod_at q i)" using reprD(6) [OF R i] kind by simp
  from on_prod_enqueue_bulk [OF reprD(1) [OF R] i this len] obtain b q' where
    q': "on_prod (as_implicit (implicit_enqueue_bulk T E mode xs)) i q = Ret (Val b, q')"
      "queue_inv T E q' (if b then (lane A)[i := lane A ! i @ xs] else lane A)" "same_shape q' q" by blast
  from repr_shape [OF R q'(3,2)] have "repr T E q' (if b then push i xs A else A)" by (cases b) (simp_all add: push_def)
  with q' show ?thesis by blast
qed

lemma token_ok_more: "nprods q \<le> nprods q' \<Longrightarrow> token_ok q tok \<Longrightarrow> token_ok q' tok"
  unfolding token_ok_def by (meson less_le_trans)

lemma nprods_repr: "repr T E q A \<Longrightarrow> nprods q = length (lane A)"
  using reprD(2) by metis

text \<open>A call on the producer of the calling thread, which is found or made first.\<close>

lemma at_own_lane:
  assumes R: "repr T E q A" and tid: "valid_tid tid" and n: "nprods q < 2 ^ 32"
    and op: "\<And>i q1 A1. repr T E q1 A1 \<Longrightarrow> i < nprods q1 \<Longrightarrow> \<not> kind A1 ! i \<Longrightarrow>
      \<exists>b q2. on_prod op i q1 = Ret (Val b, q2) \<and> repr T E q2 (if b then push i xs A1 else A1) \<and> same_shape q2 q1"
  shows "\<exists>b q' A'. and_then (get_or_add_implicit_producer (hash_fuel q) False T tid q) (\<lambda>(producer, q1).
      case producer of None \<Rightarrow> Ret (Val False, q1) | Some i \<Rightarrow> on_prod op i q1) = Ret (Val b, q') \<and>
    (\<exists>r A1. finds tid A r A1 \<and> (case r of None \<Rightarrow> Accepted b = Accepted False \<and> A' = A1 | Some i \<Rightarrow> pushes i xs A1 (Accepted b) A')) \<and>
    repr T E q' A' \<and> nprods q \<le> nprods q' \<and> nprods q' \<le> Suc (nprods q)"
proof -
  obtain r q1 A1 where g: "get_or_add_implicit_producer (hash_fuel q) False T tid q = Ret (r, q1)" "repr T E q1 A1" "finds tid A r A1"
    using get_or_add_spec [OF R tid n order.refl] by blast
  have grow: "nprods q \<le> nprods q1" "nprods q1 \<le> Suc (nprods q)"
    using g(3) nprods_repr [OF R] nprods_repr [OF g(2)] by (auto simp: finds_def split: option.splits)
  show ?thesis
  proof (cases r)
    case None
    have "\<exists>r A2. finds tid A r A2 \<and> (case r of None \<Rightarrow> Accepted False = Accepted False \<and> A1 = A2 | Some i \<Rightarrow> pushes i xs A2 (Accepted False) A1)"
      using g(3) None by (intro exI [of _ None] exI [of _ A1]) simp
    with g(1,2) None grow show ?thesis by (intro exI [of _ False] exI [of _ q1] exI [of _ A1]) simp
  next
    case (Some i)
    have i: "i < nprods q1" "\<not> kind A1 ! i"
      using g(3) Some reprD(4) [OF R] nprods_repr [OF g(2)] by (auto simp: finds_def lane_ok_def nth_append split: option.splits)
    obtain b q2 where q2: "on_prod op i q1 = Ret (Val b, q2)" "repr T E q2 (if b then push i xs A1 else A1)" "same_shape q2 q1"
      using op [OF g(2) i] by blast
    let ?A = "if b then push i xs A1 else A1"
    have "\<exists>r A2. finds tid A r A2 \<and> (case r of None \<Rightarrow> Accepted b = Accepted False \<and> ?A = A2 | Some i \<Rightarrow> pushes i xs A2 (Accepted b) ?A)"
      using g(3) Some by (intro exI [of _ "Some i"] exI [of _ A1]) (simp add: pushes_def)
    then show ?thesis using g(1) Some q2(1,2) grow same_shape_fields(3) [OF q2(3)]
      by (intro exI [of _ b] exI [of _ q2] exI [of _ ?A]) simp
  qed
qed

lemma enqueue_call:
  assumes R: "repr T E q A" and tid: "valid_tid tid" and n: "nprods q < 2 ^ 32" and T: "INITIAL_IMPLICIT_PRODUCER_HASH_SIZE T \<noteq> 0"
  shows "\<exists>b q' A'. (if mode = CanAlloc then enqueue False T E tid x q else try_enqueue False T E tid x q) = Ret (Val b, q') \<and>
    serves E A (Enqueue mode tid x) (Accepted b) A' \<and> repr T E q' A' \<and> nprods q \<le> nprods q' \<and> nprods q' \<le> Suc (nprods q)"
proof -
  have same: "(if mode = CanAlloc then enqueue False T E tid x q else try_enqueue False T E tid x q) = inner_enqueue False T E mode tid x q"
    using T by (cases mode) (simp_all add: enqueue_def try_enqueue_def)
  have op: "\<exists>b q2. on_prod (as_implicit (implicit_enqueue T E mode x)) i q1 = Ret (Val b, q2) \<and> repr T E q2 (if b then push i [x] A1 else A1) \<and> same_shape q2 q1"
    if "repr T E q1 A1" "i < nprods q1" "\<not> kind A1 ! i" for i q1 A1
    using push_repr [OF that(1,2), of False mode x] that(3) by (simp add: kind_enqueue_def)
  show ?thesis unfolding same inner_enqueue_def serves.simps using at_own_lane [OF R tid n op] .
qed

lemma enqueue_bulk_call:
  assumes R: "repr T E q A" and tid: "valid_tid tid" and n: "nprods q < 2 ^ 32" and T: "INITIAL_IMPLICIT_PRODUCER_HASH_SIZE T \<noteq> 0"
    and len: "length xs < 2 ^ 63"
  shows "\<exists>b q' A'. (if mode = CanAlloc then enqueue_bulk False T E tid xs q else try_enqueue_bulk False T E tid xs q) = Ret (Val b, q') \<and>
    serves E A (Enqueue_Bulk mode tid xs) (Accepted b) A' \<and> repr T E q' A' \<and> nprods q \<le> nprods q' \<and> nprods q' \<le> Suc (nprods q)"
proof -
  have same: "(if mode = CanAlloc then enqueue_bulk False T E tid xs q else try_enqueue_bulk False T E tid xs q) = inner_enqueue_bulk False T E mode tid xs q"
    using T by (cases mode) (simp_all add: enqueue_bulk_def try_enqueue_bulk_def)
  show ?thesis unfolding same inner_enqueue_bulk_def serves.simps using at_own_lane [OF R tid n push_bulk_repr [OF _ _ _ len]] .
qed

lemma enqueue_token_call:
  assumes R: "repr T E q A" and t: "token A t = Some (Some i)"
  shows "\<exists>b q'. (if mode = CanAlloc then enqueue_token T E t x q else try_enqueue_token T E t x q) = Ret (Val b, q') \<and>
    repr T E q' (if b then push i [x] A else A) \<and> same_shape q' q"
proof -
  have i: "i < nprods q" "kind A ! i = True" using reprD(4) [OF R] t nprods_repr [OF R] by (auto simp: lane_ok_def)
  have "(if mode = CanAlloc then enqueue_token T E t x q else try_enqueue_token T E t x q) = on_prod (kind_enqueue True T E mode x) i q"
    using reprD(5) [OF R] t by (cases mode) (simp_all add: enqueue_token_def try_enqueue_token_def inner_enqueue_token_def on_token_def kind_enqueue_def)
  then show ?thesis using push_repr [OF R i] by auto
qed

lemma dequeue_from_call:
  assumes R: "repr T E q A" and t: "token A t = Some (Some i)"
  shows "\<exists>q'. try_dequeue_from_producer T E t q = Ret (front_of E (lane A ! i), q') \<and>
    repr T E q' (A\<lparr>lane := (lane A)[i := tl (lane A ! i)]\<rparr>) \<and> same_shape q' q"
proof -
  have i: "i < nprods q" "kind A ! i" using reprD(4) [OF R] t nprods_repr [OF R] by (auto simp: lane_ok_def)
  then have ex: "is_explicit (prod_at q i)" using reprD(6) [OF R] by simp
  then have "isExplicit (prod_base (prod_at q i))" using lanes_kind [OF queue_invD(4) [OF reprD(1) [OF R]] i(1)] by simp
  then have "on_prod (as_explicit (explicit_dequeue T E)) i q = on_prod (any_dequeue T E) i q"
    by (simp add: on_prod_def with_prod_def any_dequeue_def)
  then have "try_dequeue_from_producer T E t q = on_prod (any_dequeue T E) i q"
    using reprD(5) [OF R] t by (simp add: try_dequeue_from_producer_def on_token_def)
  moreover obtain q' where "on_prod (any_dequeue T E) i q = Ret (front_of E (lane A ! i), q')"
    "queue_inv T E q' ((lane A)[i := tl (lane A ! i)])" "same_shape q' q" using on_prod_dequeue [OF reprD(1) [OF R] i(1)] by blast
  ultimately show ?thesis using repr_shape [OF R] by auto
qed

text \<open>Bulk dequeues: from all lanes, and from the lane of a token.\<close>

lemma drains_repr:
  assumes R: "repr T E q A" and "drain E (unat mx) order (lane A) = (threw, els, xss)" and "queue_inv T E q' xss" and "same_shape q' q"
  shows "drains E mx order A (Delivered_Bulk (counted_as 0 threw els) els) (A\<lparr>lane := xss\<rparr>)" "repr T E q' (A\<lparr>lane := xss\<rparr>)"
  using assms repr_shape [OF R assms(4,3)] by (auto simp: drains_def)

lemma drain_one:
  "k = given (xss ! i) n \<Longrightarrow> drain E n [i] xss = (list_ex (assign_raises E) (take k (xss ! i)), delivered E k (xss ! i), xss[i := drop k (xss ! i)])"
  by (auto simp: Let_def delivered_all)

lemma dequeue_bulk_from_call:
  assumes R: "repr T E q A" and t: "token A t = Some (Some i)"
  shows "\<exists>threw els xss q'. try_dequeue_bulk_from_producer T E t mx q = Ret ((counted_as 0 threw els, els), q') \<and>
    drain E (unat mx) [i] (lane A) = (threw, els, xss) \<and> queue_inv T E q' xss \<and> same_shape q' q"
proof -
  have i: "i < nprods q" "kind A ! i" using reprD(4) [OF R] t nprods_repr [OF R] by (auto simp: lane_ok_def)
  then have ex: "is_explicit (prod_at q i)" using reprD(6) [OF R] by simp
  then have "isExplicit (prod_base (prod_at q i))" using lanes_kind [OF queue_invD(4) [OF reprD(1) [OF R]] i(1)] by simp
  then have "on_prod (as_explicit (\<lambda>p m. bulk_result (explicit_dequeue_bulk T E mx p m))) i q = on_prod (any_dequeue_bulk T E mx) i q"
    by (simp add: on_prod_def with_prod_def any_dequeue_bulk_def)
  then have run: "try_dequeue_bulk_from_producer T E t mx q = on_prod (any_dequeue_bulk T E mx) i q"
    using reprD(5) [OF R] t by (simp add: try_dequeue_bulk_from_producer_def on_token_def)
  define k where "k = given (lane A ! i) (unat mx)"
  obtain q' where "on_prod (any_dequeue_bulk T E mx) i q =
      Ret ((if list_ex (assign_raises E) (take k (lane A ! i)) then Exc else Val (of_nat k), delivered E k (lane A ! i)), q')"
    "queue_inv T E q' ((lane A)[i := drop k (lane A ! i)])" "same_shape q' q" using on_prod_dequeue_bulk [OF reprD(1) [OF R] i(1) k_def] by blast
  moreover have "counted_as 0 (list_ex (assign_raises E) (take k (lane A ! i))) (delivered E k (lane A ! i)) =
      (if list_ex (assign_raises E) (take k (lane A ! i)) then Exc else Val (of_nat k))" by (simp add: counted_as_def delivered_all k_def)
  ultimately show ?thesis using run drain_one [OF k_def, of E]
    by (intro exI [of _ "list_ex (assign_raises E) (take k (lane A ! i))"] exI [of _ "delivered E k (lane A ! i)"]
        exI [of _ "(lane A)[i := drop k (lane A ! i)]"] exI [of _ q']) (simp del: drain.simps)
qed

lemma size_loop_spec:
  assumes inv: "queue_inv T E q xss" and "k \<le> nprods q" and "k < f"
  shows "size_loop f s (ptr_of k) q = Ret (s + of_nat (sum_list (map length (take k xss))))"
  using assms(2-)
proof (induction f arbitrary: k s)
  case (Suc f)
  show ?case
  proof (cases k)
    case (Suc i)
    have i: "i < nprods q" "next_prod (prod_at q i) = ptr_of i" using Suc.prems Suc inv by (auto simp: queue_inv_def list_ok_def)
    have "take k xss = take i xss @ [xss ! i]" using Suc i(1) queue_invD(6) [OF inv] by (simp add: take_Suc_conv_app_nth)
    then show ?thesis using Suc.IH [of i] Suc.prems Suc i prod_size(1) [OF inv i(1)] by (simp add: with_prod_def algebra_simps)
  qed simp
qed simp

lemma size_call:
  assumes R: "repr T E q A"
  shows "size_approx q = Ret (of_nat (sum_list (map length (lane A))))"
  using size_loop_spec [OF reprD(1) [OF R], of "nprods q" "list_fuel q" 0] reprD(2) [OF R]
  by (simp add: size_approx_def ptr_list [OF reprD(1) [OF R]] list_fuel_def)

text \<open>Tokens.\<close>

lemma map_put_same:
  "i < nprods q \<Longrightarrow> f a = f (prod_at q i) \<Longrightarrow>
   map (\<lambda>n. f (nd_prod n)) (producers (put_prod i a q)) = map (\<lambda>n. f (nd_prod n)) (producers q)"
  by (simp add: map_put list_update_same_conv)

lemma put_token_lanes:
  assumes L: "lanes_are T E q A" and i: "i < nprods q"
  shows "lanes_are T E (put_prod i (set_token t (prod_at q i)) q) A"
proof -
  have inv: "queue_inv T E q (lane A)" using L by (simp add: lanes_are_def)
  have "queue_inv T E (put_prod i (set_token t (prod_at q i)) q) (lane A)" by (rule relink_inv [OF inv i]) simp_all
  then show ?thesis using L i map_put_same [OF i, of is_explicit] map_put_same [OF i, of "\<lambda>a. p_inactive (prod_base a)"]
    by (simp add: lanes_are_def)
qed

lemma put_idle_lanes:
  assumes L: "lanes_are T E q A" and i: "i < nprods q"
  shows "lanes_are T E (put_prod i (set_inactive True (set_token t (prod_at q i))) q) (A\<lparr>idle := (idle A)[i := True]\<rparr>)"
proof -
  have inv: "queue_inv T E q (lane A)" using L by (simp add: lanes_are_def)
  have "queue_inv T E (put_prod i (set_inactive True (set_token t (prod_at q i))) q) (lane A)" by (rule relink_inv [OF inv i]) simp_all
  then show ?thesis using L i map_put_same [OF i, of is_explicit]
    by (simp add: lanes_are_def map_put [of "\<lambda>a. p_inactive (prod_base a)"])
qed

lemma put_prod_fields [simp]:
  "hash_end (put_prod i a q) = hash_end q" "q_this (put_prod i a q) = q_this q" "hash_dyn (put_prod i a q) = hash_dyn q"
  "implicitProducerHashResizeInProgress (put_prod i a q) = implicitProducerHashResizeInProgress q"
  "initialImplicitProducerHash (put_prod i a q) = initialImplicitProducerHash q" "nprods (put_prod i a q) = nprods q"
  "implicitProducerHashCount (put_prod i a q) = implicitProducerHashCount q" "ptokens (put_prod i a q) = ptokens q"
  by (simp_all add: put_prod_def)

lemma lanes_tokens [simp]: "lanes_are T E (q\<lparr>ptokens := f\<rparr>) A = lanes_are T E q A" "lanes_are T E q (set_tok t v A) = lanes_are T E q A"
  "hash_rel (q\<lparr>ptokens := f\<rparr>) own = hash_rel q own" "hash_rel (put_prod i a q) own = hash_rel q own"
  "lanes_are T E q (A\<lparr>token := g\<rparr>) = lanes_are T E q A"
  by (simp_all add: lanes_are_def queue_inv_def lanes_def list_ok_def hash_rel_def hash_tabs_def set_tok_def)

lemma points_back:
  assumes L: "lanes_are T E q A" and i: "\<And>i. p = Some i \<Longrightarrow> i < nprods q"
  shows "\<exists>q'. token_points_back t p q = Ret q' \<and> lanes_are T E q' A \<and> ptokens q' = ptokens q \<and> nprods q' = nprods q \<and>
    (\<forall>own. hash_rel q' own = hash_rel q own)"
  using assms put_token_lanes [OF L] by (cases p) (auto simp: token_points_back_def with_prod_def)

lemma lane_ok_tokens:
  assumes "lane_ok A" and "\<And>t i. f t = Some (Some i) \<Longrightarrow> i < length (lane A) \<and> kind A ! i \<and> \<not> idle A ! i"
    and "\<And>t u i. f t = Some (Some i) \<Longrightarrow> f u = Some (Some i) \<Longrightarrow> t = u"
  shows "lane_ok (A\<lparr>token := f\<rparr>)"
  using assms unfolding lane_ok_def by simp

lemma lane_okD:
  assumes "lane_ok A"
  shows "length (kind A) = length (lane A)" "length (idle A) = length (lane A)"
    "token A t = Some (Some i) \<Longrightarrow> i < length (lane A) \<and> kind A ! i \<and> \<not> idle A ! i"
    "token A t = Some (Some i) \<Longrightarrow> token A u = Some (Some i) \<Longrightarrow> t = u"
    "i < length (lane A) \<Longrightarrow> idle A ! i \<Longrightarrow> kind A ! i"
    "owner A tid = Some i \<Longrightarrow> i < length (lane A) \<and> \<not> kind A ! i"
    "owner A tid = Some i \<Longrightarrow> owner A tid' = Some i \<Longrightarrow> tid = tid'"
  using assms unfolding lane_ok_def by blast+

lemma move_call:
  assumes R: "repr T E q A" and t: "token A t = None" and u: "token A u = Some p"
  shows "\<exists>q'. ProducerToken_move t u q = Ret q' \<and> repr T E q' (set_tok u (Some None) (set_tok t (token A u) A)) \<and> nprods q' = nprods q"
proof -
  let ?A = "set_tok u (Some None) (set_tok t (token A u) A)" and ?q = "q\<lparr>ptokens := (ptokens q)(t := Some p, u := Some None)\<rparr>"
  note ok = lane_okD [OF reprD(4) [OF R]]
  have L: "lanes_are T E ?q A" using R by (simp add: repr_lanes)
  have "i < nprods ?q" if "p = Some i" for i using that ok(3) u nprods_repr [OF R] by simp
  from points_back [OF L this] obtain q' where q': "token_points_back t p ?q = Ret q'" "lanes_are T E q' A" "ptokens q' = ptokens ?q"
    "nprods q' = nprods ?q" "\<forall>own. hash_rel q' own = hash_rel ?q own" by blast
  have "lane_ok ?A" unfolding set_tok_def using ok t u
    by (simp, intro lane_ok_tokens [OF reprD(4) [OF R]]) (auto split: if_split_asm)
  moreover have "token ?A = ptokens q'" using q'(3) reprD(5) [OF R] u by (simp add: set_tok_def)
  moreover have "hash_rel q' (owner ?A)" using q'(5) reprD(3) [OF R] by (simp add: set_tok_def)
  ultimately have "repr T E q' ?A" using q'(2) by (simp add: repr_lanes)
  moreover have "ProducerToken_move t u q = Ret q'" using q'(1) u reprD(5) [OF R] by (simp add: ProducerToken_move_def)
  ultimately show ?thesis using q'(4) by simp
qed

lemma swap_call:
  assumes R: "repr T E q A" and t: "token A t = Some p" and u: "token A u = Some p'"
  shows "\<exists>q'. ProducerToken_swap t u q = Ret q' \<and> repr T E q' (set_tok u (token A t) (set_tok t (token A u) A)) \<and> nprods q' = nprods q"
proof -
  let ?A = "set_tok u (token A t) (set_tok t (token A u) A)" and ?q = "q\<lparr>ptokens := (ptokens q)(t := Some p', u := Some p)\<rparr>"
  note ok = lane_okD [OF reprD(4) [OF R]]
  have L: "lanes_are T E ?q A" using R by (simp add: repr_lanes)
  have n: "i < nprods ?q" if "p = Some i \<or> p' = Some i" for i using that ok(3) t u nprods_repr [OF R] by auto
  from points_back [OF L, of p' t] n obtain q1 where q1: "token_points_back t p' ?q = Ret q1" "lanes_are T E q1 A" "ptokens q1 = ptokens ?q"
    "nprods q1 = nprods ?q" "\<forall>own. hash_rel q1 own = hash_rel ?q own" by blast
  from points_back [OF q1(2), of p u] n q1(4) obtain q' where q': "token_points_back u p q1 = Ret q'" "lanes_are T E q' A" "ptokens q' = ptokens q1"
    "nprods q' = nprods q1" "\<forall>own. hash_rel q' own = hash_rel q1 own" by auto
  have "lane_ok ?A" unfolding set_tok_def using ok t u
    by (simp, intro lane_ok_tokens [OF reprD(4) [OF R]]) (auto split: if_split_asm)
  moreover have "token ?A = ptokens q'" using q'(3) q1(3) reprD(5) [OF R] t u by (simp add: set_tok_def)
  moreover have "hash_rel q' (owner ?A)" using q'(5) q1(5) reprD(3) [OF R] by (simp add: set_tok_def)
  ultimately have "repr T E q' ?A" using q'(2) by (simp add: repr_lanes)
  moreover have "ProducerToken_swap t u q = Ret q'" using q1(1) q'(1) t u reprD(5) [OF R] by (simp add: ProducerToken_swap_def)
  ultimately show ?thesis using q'(4) q1(4) by simp
qed

lemma drop_call:
  assumes R: "repr T E q A" and t: "token A t = Some p"
  shows "\<exists>q'. ProducerToken_destroy t q = Ret q' \<and> nprods q' = nprods q \<and>
    repr T E q' (set_tok t None (case token A t of Some (Some i) \<Rightarrow> A\<lparr>idle := (idle A)[i := True]\<rparr> | _ \<Rightarrow> A))"
proof -
  note ok = lane_okD [OF reprD(4) [OF R]]
  let ?q = "q\<lparr>ptokens := (ptokens q)(t := None)\<rparr>"
  have L: "lanes_are T E ?q A" "hash_rel ?q (owner A)" using R by (simp_all add: repr_lanes)
  show ?thesis
  proof (cases p)
    case None
    have "lane_ok (set_tok t None A)" unfolding set_tok_def using ok by (intro lane_ok_tokens [OF reprD(4) [OF R]]) (auto split: if_split_asm)
    then have "repr T E ?q (set_tok t None A)" unfolding repr_lanes using L reprD(5) [OF R] by (simp add: set_tok_def)
    then show ?thesis using t None reprD(5) [OF R] by (simp add: ProducerToken_destroy_def)
  next
    case (Some i)
    have i: "i < nprods q" "i < length (lane A)" "kind A ! i" using ok(3) t Some nprods_repr [OF R] by auto
    let ?r = "put_prod i (set_inactive True (set_token None (prod_at ?q i))) ?q" and ?A = "A\<lparr>idle := (idle A)[i := True]\<rparr>"
    have "ProducerToken_destroy t q = Ret ?r"
      using t Some reprD(5) [OF R] i by (simp add: ProducerToken_destroy_def with_prod_def)
    moreover have "lanes_are T E ?r ?A" using put_idle_lanes [OF L(1)] i by simp
    moreover have "lane_ok (set_tok t None ?A)"
    proof -
      have "lane_ok (?A\<lparr>token := (token A)(t := None)\<rparr>)"
        unfolding lane_ok_def using ok i t Some by (auto simp: nth_list_update split: if_split_asm)
      then show ?thesis by (simp add: set_tok_def)
    qed
    ultimately show ?thesis using t Some L(2) reprD(5) [OF R] by (auto simp: repr_lanes set_tok_def)
  qed
qed

lemma new_token_call:
  assumes R: "repr T E q A" and t: "token A t = None"
  shows "\<exists>q' A'. ProducerToken T t q = Ret q' \<and> repr T E q' A' \<and> serves E A (New_Token t) Done A' \<and>
    nprods q \<le> nprods q' \<and> nprods q' \<le> Suc (nprods q)"
proof -
  note ok = lane_okD [OF reprD(4) [OF R]]
  have L: "lanes_are T E q A" using R by (simp add: repr_lanes)
  obtain r rec q1 where c: "recycle_or_create_producer T True q = Ret (r, rec, q1)" "same_rest q1 q"
    "case r of None \<Rightarrow> lanes_are T E q1 A \<and> \<not> rec
     | Some i \<Rightarrow> lanes_are T E q1 (adopt i True A) \<and>
         (if rec then i < length (lane A) \<and> kind A ! i = True \<and> idle A ! i else i = length (lane A))"
    using recycle_spec [OF L, of True] by blast
  note F = same_rest_fields [OF c(2)]
  have H: "hash_rel q1 (owner A)" using reprD(3) [OF R] hash_rel_cong F by metis
  let ?q = "q1\<lparr>ptokens := (ptokens q1)(t := Some r)\<rparr>"
  show ?thesis
  proof (cases r)
    case None
    let ?A = "set_tok t (Some None) A"
    have "lane_ok ?A" unfolding set_tok_def using ok by (intro lane_ok_tokens [OF reprD(4) [OF R]]) (auto split: if_split_asm)
    then have R': "repr T E ?q ?A" unfolding repr_lanes using c(3) None H F(7) reprD(5) [OF R] by (simp add: set_tok_def [of t "Some None"])
    have "ProducerToken T t q = Ret ?q" using c(1) None by (simp add: ProducerToken_def)
    with R' show ?thesis using nprods_repr [OF R'] nprods_repr [OF R] by (intro exI [of _ ?q] exI [of _ ?A]) (simp add: set_tok_def)
  next
    case (Some i)
    have i: "lanes_are T E q1 (adopt i True A)" "i < length (lane A) \<and> kind A ! i \<and> idle A ! i \<or> i = length (lane A)"
      using c(3) Some by (auto split: if_splits)
    have free: "token A u \<noteq> Some (Some i)" for u using ok(3) [of u i] i(2) by auto
    let ?A = "set_tok t (Some (Some i)) (adopt i True A)" and ?r = "put_prod i (set_token (Some t) (prod_at ?q i)) ?q"
    have n1: "nprods q1 = length (lane (adopt i True A))" using i(1) queue_invD(6) by (metis lanes_are_def)
    then have lt: "i < nprods ?q" using i(2) by (auto simp: adopt_def)
    have "lane_ok ?A" unfolding set_tok_def lane_ok_def using ok i(2) free by (auto simp: adopt_def nth_append nth_list_update less_Suc_eq split: if_split_asm)
    moreover have "lanes_are T E ?r (adopt i True A)" using put_token_lanes [of T E ?q, OF _ lt] i(1) by simp
    moreover have "hash_rel ?r (owner ?A)" using H by (simp add: set_tok_def adopt_def)
    moreover have "token ?A = ptokens ?r" using F(7) reprD(5) [OF R] Some by (simp add: set_tok_def adopt_def)
    ultimately have "repr T E ?r ?A" by (simp add: repr_lanes)
    moreover have "ProducerToken T t q = Ret ?r" using c(1) Some lt by (simp add: ProducerToken_def with_prod_def)
    moreover have "serves E A (New_Token t) Done ?A" using i(2) by auto
    moreover have "nprods q \<le> nprods ?r \<and> nprods ?r \<le> Suc (nprods q)" using n1 nprods_repr [OF R] by (simp add: adopt_def)
    ultimately show ?thesis by blast
  qed
qed

text \<open>One call: it returns, its answer is one the abstract queue may give, and the client may go on.\<close>

definition refines_call :: "traits \<Rightarrow> 'd elem_ops \<Rightarrow> 'd queue \<times> ConsumerToken list \<Rightarrow> 'd lane_state \<Rightarrow> 'd call \<Rightarrow> 'd call list \<Rightarrow> bool" where
  "refines_call T E s A c cs \<longleftrightarrow> (\<exists>a s' A' alive' k'. do_call T E c s = Ret (a, s') \<and> serves E A c a A' \<and>
     client_ok T E alive' k' s' A' \<and> legal alive' k' cs \<and> nprods (fst s') \<le> Suc (nprods (fst s)))"

lemma refinesI:
  assumes "do_call T E c (q, ts) = Ret (a, q', ts')" and "serves E A c a A'" and "client_ok T E alive' k' (q', ts') A'" and "legal alive' k' cs"
    and "nprods q' \<le> Suc (nprods q)"
  shows "refines_call T E (q, ts) A c cs"
  unfolding refines_call_def using assms by (intro exI [of _ a] exI [of _ "(q', ts')"] exI [of _ A'] exI [of _ alive'] exI [of _ k']) simp

lemma client_okD:
  assumes "client_ok T E alive k (q, ts) A"
  shows "repr T E q A" "INITIAL_IMPLICIT_PRODUCER_HASH_SIZE T \<noteq> 0" "token A t \<noteq> None \<longleftrightarrow> t \<in> set alive" "length ts = k"
    "tok \<in> set ts \<Longrightarrow> token_ok q tok"
  using assms by (auto simp: client_ok_def)

text \<open>The calls that leave the tokens as they are.\<close>

lemma client_ok_same:
  assumes C: "client_ok T E alive k (q, ts) A" and "repr T E q' A'" and "token A' = token A" and "nprods q \<le> nprods q'"
  shows "client_ok T E alive k (q', ts) A'"
  using assms token_ok_more [OF assms(4)] by (auto simp: client_ok_def)

lemma pops_repr:
  assumes R: "repr T E q A" and "takes E {..<nprods q} (lane A) r xss" and "queue_inv T E q' xss" and "same_shape q' q"
  shows "pops E A (Delivered r) (A\<lparr>lane := xss\<rparr>)" "repr T E q' (A\<lparr>lane := xss\<rparr>)"
  using assms repr_shape [OF R assms(4,3)] nprods_repr [OF R] by (auto simp: pops_def)

lemma finds_token: "finds tid A r A' \<Longrightarrow> token A' = token A"
  by (auto simp: finds_def split: option.splits)

lemma step_enqueue:
  assumes C: "client_ok T E alive k (q, ts) A" and n: "nprods q < 2 ^ 32" and l: "legal alive k (Enqueue mode tid x # cs)"
  shows "refines_call T E (q, ts) A (Enqueue mode tid x) cs"
proof -
  have "valid_tid tid" using l by simp
  from enqueue_call [OF client_okD(1) [OF C] this n client_okD(2) [OF C], of mode x] obtain b q' A' where
    e: "(if mode = CanAlloc then enqueue False T E tid x q else try_enqueue False T E tid x q) = Ret (Val b, q')"
      "serves E A (Enqueue mode tid x) (Accepted b) A'" "repr T E q' A'" "nprods q \<le> nprods q'" "nprods q' \<le> Suc (nprods q)"
    by (elim exE conjE) (rule that)
  obtain r A1 where "finds tid A r A1" "case r of None \<Rightarrow> A' = A1 | Some i \<Rightarrow> A' = push i [x] A1 \<or> A' = A1"
    using e(2) by (auto simp: pushes_def split: option.splits)
  then have "token A' = token A" using finds_token [of tid A r A1] by (cases r) (auto simp: push_def)
  then have "client_ok T E alive k (q', ts) A'" by (intro client_ok_same [OF C e(3)] e(4))
  moreover have "do_call T E (Enqueue mode tid x) (q, ts) = Ret (Accepted b, q', ts)"
    unfolding do_call.simps e(1) by (simp add: accepted_def)
  moreover have "legal alive k cs" using l by simp
  ultimately show ?thesis using e(5) by (intro refinesI [OF _ e(2)])
qed

lemma step_enqueue_token:
  assumes C: "client_ok T E alive k (q, ts) A" and l: "legal alive k (Enqueue_Token mode t x # cs)"
  shows "refines_call T E (q, ts) A (Enqueue_Token mode t x) cs"
proof -
  obtain p where p: "token A t = Some p" using client_okD(3) [OF C, of t] l by auto
  note R = client_okD(1) [OF C]
  show ?thesis
  proof (cases p)
    case None
    then show ?thesis using C l p reprD(5) [OF R] by (intro refinesI [of T E _ q ts Refused q ts A A]) (auto simp: token_valid_def)
  next
    case (Some i)
    from enqueue_token_call [OF R] p Some obtain b q' where
      e: "(if mode = CanAlloc then enqueue_token T E t x q else try_enqueue_token T E t x q) = Ret (Val b, q')"
      "repr T E q' (if b then push i [x] A else A)" "same_shape q' q" by blast
    have "client_ok T E alive k (q', ts) (if b then push i [x] A else A)"
      using same_shape_fields(3) [OF e(3)] by (intro client_ok_same [OF C e(2)]) (auto simp: push_def)
    then show ?thesis using e l p Some reprD(5) [OF R] same_shape_fields(3) [OF e(3)]
      by (intro refinesI [of T E _ q ts "Accepted b" q' ts A "if b then push i [x] A else A"]) (auto simp: token_valid_def accepted_def pushes_def)
  qed
qed

lemma step_dequeue:
  assumes C: "client_ok T E alive k (q, ts) A" and l: "legal alive k cs" and c: "c = Dequeue \<or> c = Dequeue_In_Order"
  shows "refines_call T E (q, ts) A c cs"
proof -
  note R = client_okD(1) [OF C]
  obtain r q' xss where d: "do_call T E c (q, ts) = Ret (Delivered r, q', ts)" "takes E {..<nprods q} (lane A) r xss"
    "queue_inv T E q' xss" "same_shape q' q"
    using c try_dequeue_spec [OF reprD(1) [OF R]] non_interleaved_spec [OF reprD(1) [OF R]] by fastforce
  note P = pops_repr [OF R d(2-4)]
  have "client_ok T E alive k (q', ts) (A\<lparr>lane := xss\<rparr>)" using same_shape_fields(3) [OF d(4)] by (intro client_ok_same [OF C P(2)]) auto
  then show ?thesis using d(1) P(1) l c same_shape_fields(3) [OF d(4)] by (intro refinesI) auto
qed

lemma step_dequeue_token:
  assumes C: "client_ok T E alive k (q, ts) A" and n: "nprods q < 2 ^ 32" and l: "legal alive k (Dequeue_Token j # cs)"
  shows "refines_call T E (q, ts) A (Dequeue_Token j) cs"
proof -
  note R = client_okD(1) [OF C]
  have j: "j < length ts" "token_ok q (ts ! j)" using l client_okD(4,5) [OF C] by auto
  from try_dequeue_token_spec [OF reprD(1) [OF R] j(2) n] obtain r tok q' xss g where
    d: "try_dequeue_token T E (ts ! j) q = Ret (r, tok, q')" "takes E {..<nprods q} (lane A) r xss" "queue_inv T E q' xss" "token_ok q' tok"
    and sh: "same_shape q' (q\<lparr>globalExplicitConsumerOffset := g\<rparr>)" by blast
  let ?q = "q\<lparr>globalExplicitConsumerOffset := g\<rparr>"
  have R': "repr T E ?q A" using R by (simp add: repr_def queue_inv_def lanes_def list_ok_def hash_rel_def hash_tabs_def)
  have "takes E {..<nprods ?q} (lane A) r xss" using d(2) by simp
  note P = pops_repr [OF R' this d(3) sh]
  have nq: "nprods q' = nprods q" using same_shape_fields(3) [OF sh] by simp
  have "client_ok T E alive k (q', ts) (A\<lparr>lane := xss\<rparr>)" using P(2) nq by (intro client_ok_same [OF C]) auto
  then have "client_ok T E alive k (q', ts[j := tok]) (A\<lparr>lane := xss\<rparr>)"
    using d(4) set_update_subset_insert [of ts j tok] by (auto simp: client_ok_def)
  then show ?thesis using d(1) P(1) l j nq by (intro refinesI) (auto simp: nth_out_def)
qed

lemma step_dequeue_from:
  assumes C: "client_ok T E alive k (q, ts) A" and l: "legal alive k (Dequeue_From t # cs)"
  shows "refines_call T E (q, ts) A (Dequeue_From t) cs"
proof -
  obtain p where p: "token A t = Some p" using client_okD(3) [OF C, of t] l by auto
  note R = client_okD(1) [OF C]
  show ?thesis
  proof (cases p)
    case None
    then show ?thesis using C l p reprD(5) [OF R] by (intro refinesI [of T E _ q ts Refused q ts A A]) (auto simp: token_valid_def)
  next
    case (Some i)
    from dequeue_from_call [OF R] p Some obtain q' where e: "try_dequeue_from_producer T E t q = Ret (front_of E (lane A ! i), q')"
      "repr T E q' (A\<lparr>lane := (lane A)[i := tl (lane A ! i)]\<rparr>)" "same_shape q' q" by blast
    then show ?thesis using l p Some reprD(5) [OF R] same_shape_fields(3) [OF e(3)]
      by (intro refinesI [OF _ _ client_ok_same [OF C e(2)]]) (auto simp: token_valid_def)
  qed
qed

lemma step_enqueue_bulk:
  assumes C: "client_ok T E alive k (q, ts) A" and n: "nprods q < 2 ^ 32" and l: "legal alive k (Enqueue_Bulk mode tid xs # cs)"
  shows "refines_call T E (q, ts) A (Enqueue_Bulk mode tid xs) cs"
proof -
  have "valid_tid tid" "length xs < 2 ^ 63" using l by simp_all
  from enqueue_bulk_call [OF client_okD(1) [OF C] this(1) n client_okD(2) [OF C] this(2), of mode] obtain b q' A' where
    e: "(if mode = CanAlloc then enqueue_bulk False T E tid xs q else try_enqueue_bulk False T E tid xs q) = Ret (Val b, q')"
      "serves E A (Enqueue_Bulk mode tid xs) (Accepted b) A'" "repr T E q' A'" "nprods q \<le> nprods q'" "nprods q' \<le> Suc (nprods q)"
    by (elim exE conjE) (rule that)
  obtain r A1 where "finds tid A r A1" "case r of None \<Rightarrow> A' = A1 | Some i \<Rightarrow> A' = push i xs A1 \<or> A' = A1"
    using e(2) by (auto simp: pushes_def split: option.splits)
  then have "token A' = token A" using finds_token [of tid A r A1] by (cases r) (auto simp: push_def)
  then have "client_ok T E alive k (q', ts) A'" by (intro client_ok_same [OF C e(3)] e(4))
  moreover have "do_call T E (Enqueue_Bulk mode tid xs) (q, ts) = Ret (Accepted b, q', ts)"
    unfolding do_call.simps e(1) by (simp add: accepted_def)
  moreover have "legal alive k cs" using l by simp
  ultimately show ?thesis using e(5) by (intro refinesI [OF _ e(2)])
qed

lemma step_dequeue_bulk:
  assumes C: "client_ok T E alive k (q, ts) A" and l: "legal alive k (Dequeue_Bulk mx # cs)"
  shows "refines_call T E (q, ts) A (Dequeue_Bulk mx) cs"
proof -
  note R = client_okD(1) [OF C]
  obtain order threw els q' xss where d: "try_dequeue_bulk T E mx q = Ret ((counted_as 0 threw els, els), q')" "visits order (lane A)"
    "drain E (unat mx) order (lane A) = (threw, els, xss)" "queue_inv T E q' xss" "same_shape q' q"
    using try_dequeue_bulk_spec [OF reprD(1) [OF R], of mx] by (elim exE conjE) (rule that)
  note P = drains_repr [OF R d(3-5)]
  have "client_ok T E alive k (q', ts) (A\<lparr>lane := xss\<rparr>)" using same_shape_fields(3) [OF d(5)] by (intro client_ok_same [OF C P(2)]) auto
  then show ?thesis using d(1,2) P(1) l same_shape_fields(3) [OF d(5)] by (intro refinesI) auto
qed

lemma step_dequeue_bulk_token:
  assumes C: "client_ok T E alive k (q, ts) A" and n: "nprods q < 2 ^ 32" and l: "legal alive k (Dequeue_Bulk_Token j mx # cs)"
  shows "refines_call T E (q, ts) A (Dequeue_Bulk_Token j mx) cs"
proof -
  note R = client_okD(1) [OF C]
  have j: "j < length ts" "token_ok q (ts ! j)" using l client_okD(4,5) [OF C] by auto
  obtain order threw els tok q' xss where d: "try_dequeue_bulk_token T E (ts ! j) mx q = Ret ((counted_as 0 threw els, els), tok, q')"
    "visits order (lane A)" "drain E (unat mx) order (lane A) = (threw, els, xss)" "queue_inv T E q' xss" "token_ok q' tok"
    "\<exists>g. same_shape q' (q\<lparr>globalExplicitConsumerOffset := g\<rparr>)"
    using try_dequeue_bulk_token_spec [OF reprD(1) [OF R] j(2) n, of mx] by (elim exE conjE) (rule that, assumption+, blast)
  then obtain g where sh: "same_shape q' (q\<lparr>globalExplicitConsumerOffset := g\<rparr>)" by blast
  let ?q = "q\<lparr>globalExplicitConsumerOffset := g\<rparr>"
  have R': "repr T E ?q A" using R by (simp add: repr_def queue_inv_def lanes_def list_ok_def hash_rel_def hash_tabs_def)
  note P = drains_repr [OF R' d(3,4) sh]
  have nq: "nprods q' = nprods q" using same_shape_fields(3) [OF sh] by simp
  have "client_ok T E alive k (q', ts) (A\<lparr>lane := xss\<rparr>)" using P(2) nq by (intro client_ok_same [OF C]) auto
  then have "client_ok T E alive k (q', ts[j := tok]) (A\<lparr>lane := xss\<rparr>)"
    using d(5) set_update_subset_insert [of ts j tok] by (auto simp: client_ok_def)
  then show ?thesis using d(1,2) P(1) l j nq by (intro refinesI) (auto simp: nth_out_def)
qed

lemma step_dequeue_bulk_from:
  assumes C: "client_ok T E alive k (q, ts) A" and l: "legal alive k (Dequeue_Bulk_From t mx # cs)"
  shows "refines_call T E (q, ts) A (Dequeue_Bulk_From t mx) cs"
proof -
  obtain p where p: "token A t = Some p" using client_okD(3) [OF C, of t] l by auto
  note R = client_okD(1) [OF C]
  show ?thesis
  proof (cases p)
    case None
    then show ?thesis using C l p reprD(5) [OF R] by (intro refinesI [of T E _ q ts Refused q ts A A]) (auto simp: token_valid_def)
  next
    case (Some i)
    from dequeue_bulk_from_call [OF R, of t i mx] p Some obtain threw els xss q' where
      e: "try_dequeue_bulk_from_producer T E t mx q = Ret ((counted_as 0 threw els, els), q')" "drain E (unat mx) [i] (lane A) = (threw, els, xss)"
      "queue_inv T E q' xss" "same_shape q' q" by (auto simp del: drain.simps)
    note P = drains_repr [OF R e(2-4)]
    show ?thesis using l p Some reprD(5) [OF R] same_shape_fields(3) [OF e(4)] e(1) P(1)
      by (intro refinesI [OF _ _ client_ok_same [OF C P(2)]]) (auto simp: token_valid_def)
  qed
qed

lemma new_token_tokens: "serves E A (New_Token t) a A' \<Longrightarrow> \<exists>j. token A' = (token A)(t := Some j)"
  by (auto simp: set_tok_def adopt_def)

lemma step_tokens:
  assumes C: "client_ok T E alive k (q, ts) A" and l: "legal alive k (c # cs)"
    and c: "c = New_Token t \<or> c = Move_Token t u \<or> c = Swap_Tokens t u \<or> c = Drop_Token t"
  shows "refines_call T E (q, ts) A c cs"
proof -
  note R = client_okD(1) [OF C] and alive = client_okD(3) [OF C]
  have rest: "refines_call T E (q, ts) A c cs"
    if "do_call T E c (q, ts) = Ret (Done, q', ts)" "serves E A c Done A'" "repr T E q' A'" "\<forall>t. token A' t \<noteq> None \<longleftrightarrow> t \<in> set alive'"
      "legal alive' k cs" "nprods q \<le> nprods q'" "nprods q' \<le> Suc (nprods q)" for q' A' alive'
  proof -
    have "client_ok T E alive' k (q', ts) A'" using C that(3,4) token_ok_more [OF that(6)] by (auto simp: client_ok_def)
    with that show ?thesis by (intro refinesI)
  qed
  consider (new) "c = New_Token t" | (move) "c = Move_Token t u" | (swap) "c = Swap_Tokens t u" | (drop) "c = Drop_Token t" using c by blast
  then show ?thesis
  proof cases
    case new
    then have "token A t = None" using l alive [of t] by auto
    from new_token_call [OF R this] obtain q' A' where n: "ProducerToken T t q = Ret q'" "repr T E q' A'" "serves E A (New_Token t) Done A'"
      "nprods q \<le> nprods q'" "nprods q' \<le> Suc (nprods q)" by (elim exE conjE) (rule that)
    obtain j where "token A' = (token A)(t := Some j)" using new_token_tokens [OF n(3)] by blast
    then have "\<forall>v. token A' v \<noteq> None \<longleftrightarrow> v \<in> set (t # alive)" using alive by (simp del: not_None_eq)
    then show ?thesis using n l new by (intro rest [of q' A' "t # alive"]) simp_all
  next
    case move
    then obtain p where p: "token A t = None" "token A u = Some p" using l alive [of t] alive [of u] by auto
    let ?A = "set_tok u (Some None) (set_tok t (token A u) A)"
    obtain q' where n: "ProducerToken_move t u q = Ret q'" "repr T E q' ?A" "nprods q' = nprods q" using move_call [OF R p] by blast
    have "\<forall>v. token ?A v \<noteq> None \<longleftrightarrow> v \<in> set (t # alive)" using p alive l move by (auto simp: set_tok_def)
    then show ?thesis using n l move by (intro rest [of q' ?A "t # alive"]) simp_all
  next
    case swap
    then obtain p p' where p: "token A t = Some p" "token A u = Some p'" using l alive [of t] alive [of u] by auto
    let ?A = "set_tok u (token A t) (set_tok t (token A u) A)"
    obtain q' where n: "ProducerToken_swap t u q = Ret q'" "repr T E q' ?A" "nprods q' = nprods q" using swap_call [OF R p] by blast
    have "\<forall>v. token ?A v \<noteq> None \<longleftrightarrow> v \<in> set alive" using p alive by (auto simp: set_tok_def)
    then show ?thesis using n l swap by (intro rest [of q' ?A alive]) simp_all
  next
    case drop
    then obtain p where p: "token A t = Some p" using l alive [of t] by auto
    let ?A = "set_tok t None (case token A t of Some (Some i) \<Rightarrow> A\<lparr>idle := (idle A)[i := True]\<rparr> | _ \<Rightarrow> A)"
    obtain q' where n: "ProducerToken_destroy t q = Ret q'" "nprods q' = nprods q" "repr T E q' ?A" using drop_call [OF R p] by blast
    have "\<forall>v. token ?A v \<noteq> None \<longleftrightarrow> v \<in> set (removeAll t alive)" using alive by (auto simp: set_tok_def split: option.split)
    then show ?thesis using n l drop by (intro rest [of q' ?A "removeAll t alive"]) simp_all
  qed
qed

lemma step_others:
  assumes C: "client_ok T E alive k (q, ts) A" and l: "legal alive k (c # cs)" and c: "c = Size \<or> c = New_Consumer"
  shows "refines_call T E (q, ts) A c cs"
proof (cases "c = Size")
  case True
  with C l size_call [OF client_okD(1) [OF C]] show ?thesis by (intro refinesI [of T E c q ts _ q ts A A alive k]) auto
next
  case False
  with c have c: "c = New_Consumer" by simp
  obtain tok q' where n: "ConsumerToken_new q = (tok, q')" by (cases "ConsumerToken_new q") auto
  then have "token_ok q' tok" "q' = q\<lparr>nextExplicitConsumerId := nextExplicitConsumerId q + 1\<rparr>" by (auto simp: ConsumerToken_new_def token_ok_def)
  then have "client_ok T E alive (Suc k) (q', ts @ [tok]) A" using C
    by (auto simp: client_ok_def repr_def queue_inv_def lanes_def list_ok_def hash_rel_def hash_tabs_def token_ok_def)
  with n l c \<open>q' = _\<close> show ?thesis by (intro refinesI [of T E c q ts Done q' "ts @ [tok]" A A alive "Suc k"]) auto
qed

lemma call_step:
  assumes "client_ok T E alive k s A" and "nprods (fst s) < 2 ^ 32" and "legal alive k (c # cs)"
  shows "refines_call T E s A c cs"
proof -
  obtain q ts where s: "s = (q, ts)" by (cases s)
  have C: "client_ok T E alive k (q, ts) A" and n: "nprods q < 2 ^ 32" using assms s by auto
  note l = assms(3)
  show ?thesis unfolding s
  proof (cases c)
    case (Enqueue mode tid x) then show "refines_call T E (q, ts) A c cs" using step_enqueue [OF C n] l by blast
  next
    case (Enqueue_Token mode t x) then show "refines_call T E (q, ts) A c cs" using step_enqueue_token [OF C] l by blast
  next
    case Dequeue then show "refines_call T E (q, ts) A c cs" using step_dequeue [OF C] l by simp
  next
    case Dequeue_In_Order then show "refines_call T E (q, ts) A c cs" using step_dequeue [OF C] l by simp
  next
    case (Dequeue_Token j) then show "refines_call T E (q, ts) A c cs" using step_dequeue_token [OF C n] l by blast
  next
    case (Dequeue_From t) then show "refines_call T E (q, ts) A c cs" using step_dequeue_from [OF C] l by blast
  next
    case (Enqueue_Bulk mode tid xs) then show "refines_call T E (q, ts) A c cs" using step_enqueue_bulk [OF C n] l by blast
  next
    case (Dequeue_Bulk mx) then show "refines_call T E (q, ts) A c cs" using step_dequeue_bulk [OF C] l by blast
  next
    case (Dequeue_Bulk_Token j mx) then show "refines_call T E (q, ts) A c cs" using step_dequeue_bulk_token [OF C n] l by blast
  next
    case (Dequeue_Bulk_From t mx) then show "refines_call T E (q, ts) A c cs" using step_dequeue_bulk_from [OF C] l by blast
  next
    case Size then show "refines_call T E (q, ts) A c cs" using step_others [OF C l] by blast
  next
    case (New_Token t) then show "refines_call T E (q, ts) A c cs" using step_tokens [OF C l] by blast
  next
    case (Move_Token t u) then show "refines_call T E (q, ts) A c cs" using step_tokens [OF C l] by blast
  next
    case (Swap_Tokens t u) then show "refines_call T E (q, ts) A c cs" using step_tokens [OF C l] by blast
  next
    case (Drop_Token t) then show "refines_call T E (q, ts) A c cs" using step_tokens [OF C l] by blast
  next
    case New_Consumer then show "refines_call T E (q, ts) A c cs" using step_others [OF C l] by blast
  qed
qed

text \<open>Sequences of calls.\<close>

lemma calls_refine:
  "client_ok T E alive k s A \<Longrightarrow> nprods (fst s) + length cs \<le> 2 ^ 32 \<Longrightarrow> legal alive k cs \<Longrightarrow>
   \<exists>as s' A'. do_calls T E cs s = Ret (as, s') \<and> serves_all E A cs as A' \<and> repr T E (fst s') A'"
proof (induction cs arbitrary: alive k s A)
  case Nil
  then show ?case by (intro exI [of _ "[]"] exI [of _ s] exI [of _ A]) (simp add: client_ok_def)
next
  case (Cons c cs)
  from call_step [OF Cons.prems(1) _ Cons.prems(3)] Cons.prems(2) obtain a s1 A1 alive1 k1 where
    s1: "do_call T E c s = Ret (a, s1)" "serves E A c a A1" "client_ok T E alive1 k1 s1 A1" "legal alive1 k1 cs" "nprods (fst s1) \<le> Suc (nprods (fst s))"
    by (auto simp: refines_call_def)
  have "nprods (fst s1) + length cs \<le> 2 ^ 32" using s1(5) Cons.prems(2) by simp
  from Cons.IH [OF s1(3) this s1(4)] obtain as s2 A2 where
    s2: "do_calls T E cs s1 = Ret (as, s2)" "serves_all E A1 cs as A2" "repr T E (fst s2) A2" by blast
  then show ?case using s1(1,2) by (intro exI [of _ "a # as"] exI [of _ s2] exI [of _ A2]) auto
qed

end
