(* ===== verification/CQ_Client.thy ===== *)
theory CQ_Client
  imports CQ_Interface "HOL-Library.Sublist"
begin

text \<open>
  What clients of the queue may rely on: from the constructor on, every legal sequence of calls
  refines the abstract queue of lanes, and what this says about the elements of each thread.
\<close>

section \<open>The constructors\<close>

definition no_lanes :: "'d lane_state" where
  "no_lanes = \<lparr>lane = [], kind = [], idle = [], owner = Map.empty, token = Map.empty\<rparr>"

lemma queue_with_blocks_repr:
  assumes T: "traits_ok T" "INITIAL_IMPLICIT_PRODUCER_HASH_SIZE T \<noteq> 0" and E: "\<forall>x. \<not> raises E x" and l: "limit * bsz T < 2 ^ 63"
  shows "repr T E (queue_with_blocks T this n (mem_new limit ok)) no_lanes"
proof -
  let ?m = "populate_initial_block_list n (mem_new limit ok :: 'a mem)" and ?h = "empty_hash (INITIAL_IMPLICIT_PRODUCER_HASH_SIZE T)"
  have "pow2_test (INITIAL_IMPLICIT_PRODUCER_HASH_SIZE T)" using T by (simp add: traits_ok_def static_asserts_def)
  then obtain k where k: "k < 64" "INITIAL_IMPLICIT_PRODUCER_HASH_SIZE T = 2 ^ k" using T(2) by (auto simp: pow2_test_iff)
  note h = empty_hash_ok [OF empty_hash_shape [OF k(1)]]
  have cap: "0 < cap ?h" using k by (simp add: cap_def empty_hash_def unat_pow2)
  have "(mem_new limit ok :: 'a mem)\<lparr>initialBlockPoolIndex := 0\<rparr> = mem_new limit ok" by (simp add: mem_new_def)
  moreover have "heap_limit ?m = limit" by (simp add: populate_initial_block_list_def mem_new_def malloc_def Let_def)
  ultimately show ?thesis using populate_inv [of n limit ok] T h cap k(2) E l
    by (simp add: repr_def queue_with_blocks_def no_lanes_def queue_inv_def lanes_def family_def list_ok_def hash_rel_def
        hash_tabs_def populate_initial_implicit_producer_hash_def lane_ok_def)
qed

lemma client_start:
  assumes "traits_ok T" and "INITIAL_IMPLICIT_PRODUCER_HASH_SIZE T \<noteq> 0" and "\<forall>x. \<not> raises E x" and "limit * bsz T < 2 ^ 63"
  shows "client_ok T E [] 0 (ConcurrentQueue T this cpty (mem_new limit ok), []) no_lanes"
  using queue_with_blocks_repr [OF assms] assms(2) by (simp add: client_ok_def ConcurrentQueue_def no_lanes_def queue_with_blocks_def)

lemma calls_served:
  assumes "traits_ok T" and "INITIAL_IMPLICIT_PRODUCER_HASH_SIZE T \<noteq> 0" and "\<forall>x. \<not> raises E x" and "limit * bsz T < 2 ^ 63"
    and "legal [] 0 cs" and "length cs \<le> 2 ^ 32"
  shows "\<exists>as q ts A. do_calls T E cs (ConcurrentQueue T this cpty (mem_new limit ok), []) = Ret (as, q, ts) \<and>
    serves_all E no_lanes cs as A \<and> repr T E q A"
proof -
  let ?s = "(ConcurrentQueue T this cpty (mem_new limit ok), [])"
  have "nprods (fst ?s) + length cs \<le> 2 ^ 32" using assms(6) by (simp add: ConcurrentQueue_def queue_with_blocks_def)
  from calls_refine [OF client_start [OF assms(1-4)] this assms(5)] show ?thesis by auto
qed

text \<open>
  C1. A queue made by the constructor, with any capacity and any pattern of failing allocations, serves
  every legal sequence of calls, made by any threads with and without tokens: every call returns, and
  the answers are those of lanes that are FIFO queues. An enqueue appends to the lane of its thread
  or token or reports failure and changes nothing; a dequeue delivers the front of a non-empty lane and
  says that there is nothing only when every lane is empty. A bulk enqueue without token appends all its
  elements or none; a bulk dequeue drains lanes one after the other, in an order that leaves out only empty
  ones, until it has what was asked for or an assignment throws. \<open>size_approx\<close> is the number of elements.
\<close>

theorem concurrent_queue_refines_lanes:
  assumes "traits_ok T" and "INITIAL_IMPLICIT_PRODUCER_HASH_SIZE T \<noteq> 0" and "\<forall>x. \<not> raises E x" and "limit * bsz T < 2 ^ 63"
    and "legal [] 0 cs" and "length cs \<le> 2 ^ 32"
  shows "\<exists>as q ts A. do_calls T E cs (ConcurrentQueue T this cpty (mem_new limit ok), []) = Ret (as, q, ts) \<and>
    serves_all E no_lanes cs as A \<and> repr T E q A"
  using assms by (rule calls_served)

text \<open>A program of two threads and two tokens, one of them moved.\<close>

definition two_threads :: "nat call list" where
  "two_threads = [Enqueue CanAlloc 8 1, Enqueue CanAlloc 16 2, New_Token 0, Enqueue_Token CanAlloc 0 3, Move_Token 1 0,
     Enqueue_Token CannotAlloc 0 4, Enqueue_Token CannotAlloc 1 5, New_Consumer, Dequeue_Token 0, Size, Dequeue_From 1, Dequeue_In_Order,
     Dequeue, Dequeue, Enqueue_Bulk CanAlloc 8 [6, 7, 8, 9], Enqueue_Token CanAlloc 1 10, Dequeue_Bulk_From 1 7, Dequeue_Bulk 2,
     Dequeue_Bulk_Token 0 5, Drop_Token 1]"

theorem concurrent_queue_refines_lanes_witness:
  "\<exists>as q ts A. do_calls small_traits plain_ops two_threads (ConcurrentQueue small_traits 0 6 (mem_new 100 (\<lambda>_. True)), []) = Ret (as, q, ts) \<and>
    serves_all plain_ops no_lanes two_threads as A \<and> repr small_traits plain_ops q A"
proof (rule concurrent_queue_refines_lanes [OF small_traits_ok])
  show "INITIAL_IMPLICIT_PRODUCER_HASH_SIZE small_traits \<noteq> 0" "(100 :: nat) * bsz small_traits < 2 ^ 63" by (simp_all add: small_traits_def ConcurrentQueueDefaultTraits_def)
  show "\<forall>x :: nat. \<not> raises plain_ops x" by (simp add: raises_def plain_ops_def)
  show "legal [] 0 two_threads" by (simp add: two_threads_def valid_tid_def invalid_thread_id_def invalid_thread_id2_def)
  show "length two_threads \<le> 2 ^ 32" by (simp add: two_threads_def)
qed

section \<open>The elements of one thread\<close>

text \<open>What a call with its answer has put into the queue and what it has taken out.\<close>

fun pushed :: "'d call \<Rightarrow> 'd answer \<Rightarrow> 'd list" where
  "pushed (Enqueue mode tid x) (Accepted True) = [x]"
| "pushed (Enqueue_Token mode t x) (Accepted True) = [x]"
| "pushed (Enqueue_Bulk mode tid xs) (Accepted True) = xs"
| "pushed _ _ = []"

fun popped :: "'d answer \<Rightarrow> 'd list" where
  "popped (Delivered (Val (Some x))) = [x]"
| "popped (Delivered_Bulk r els) = els"
| "popped _ = []"

definition accepted_of :: "'d call list \<Rightarrow> 'd answer list \<Rightarrow> 'd list" where
  "accepted_of cs as = concat (map2 pushed cs as)"

definition delivered_of :: "'d answer list \<Rightarrow> 'd list" where
  "delivered_of as = concat (map popped as)"

text \<open>A labelling tells which thread an element comes from, and which elements come through tokens.\<close>

fun labelled :: "('d \<Rightarrow> 64 word option) \<Rightarrow> 'd call \<Rightarrow> bool" where
  "labelled src (Enqueue mode tid x) \<longleftrightarrow> src x = Some tid"
| "labelled src (Enqueue_Token mode t x) \<longleftrightarrow> src x = None"
| "labelled src (Enqueue_Bulk mode tid xs) \<longleftrightarrow> (\<forall>x \<in> set xs. src x = Some tid)"
| "labelled src _ \<longleftrightarrow> True"

definition apart :: "('d \<Rightarrow> 64 word option) \<Rightarrow> 'd lane_state \<Rightarrow> bool" where
  "apart src A \<longleftrightarrow>
     (\<forall>tid i. owner A tid = Some i \<longrightarrow> i < length (lane A)) \<and> (\<forall>t i. token A t = Some (Some i) \<longrightarrow> i < length (lane A)) \<and>
     (\<forall>i < length (lane A). \<forall>x \<in> set (lane A ! i). \<forall>tid. src x = Some tid \<longrightarrow> owner A tid = Some i)"

lemma apartI:
  assumes "\<And>tid i. owner A tid = Some i \<Longrightarrow> i < length (lane A)" and "\<And>t i. token A t = Some (Some i) \<Longrightarrow> i < length (lane A)"
    and "\<And>i x tid. i < length (lane A) \<Longrightarrow> x \<in> set (lane A ! i) \<Longrightarrow> src x = Some tid \<Longrightarrow> owner A tid = Some i"
  shows "apart src A"
  using assms unfolding apart_def by blast

lemma apartD:
  assumes "apart src A"
  shows "owner A tid = Some i \<Longrightarrow> i < length (lane A)" "token A t = Some (Some i) \<Longrightarrow> i < length (lane A)"
    "i < length (lane A) \<Longrightarrow> x \<in> set (lane A ! i) \<Longrightarrow> src x = Some tid \<Longrightarrow> owner A tid = Some i"
  using assms unfolding apart_def by blast+

definition mine :: "('d \<Rightarrow> 64 word option) \<Rightarrow> 64 word \<Rightarrow> 'd lane_state \<Rightarrow> 'd list" where
  "mine src tid A = (case owner A tid of None \<Rightarrow> [] | Some i \<Rightarrow> filter (\<lambda>x. src x = Some tid) (lane A ! i))"

definition accounts :: "('d \<Rightarrow> 64 word option) \<Rightarrow> 'd lane_state \<Rightarrow> 'd list \<Rightarrow> 'd list \<Rightarrow> 'd lane_state \<Rightarrow> bool" where
  "accounts src A ins outs A' \<longleftrightarrow> apart src A' \<and> mset (concat (lane A)) + mset ins = mset outs + mset (concat (lane A')) \<and>
     (\<forall>tid. mine src tid A @ filter (\<lambda>x. src x = Some tid) ins = filter (\<lambda>x. src x = Some tid) outs @ mine src tid A')"

lemma accounts_same:
  assumes "apart src A'" and "lane A' = lane A" and "owner A' = owner A"
  shows "accounts src A [] [] A'"
  using assms by (simp add: accounts_def mine_def split: option.split)

lemma mset_concat_update:
  "i < length xss \<Longrightarrow> mset (concat (xss[i := ys])) + mset (xss ! i) = mset (concat xss) + mset ys"
proof (induction xss arbitrary: i)
  case (Cons xs xss)
  then show ?case by (cases i) (simp_all add: ac_simps)
qed simp

lemma accounts_push:
  assumes A: "apart src A" and i: "i < length (lane A)" and x: "\<And>x tid. x \<in> set xs \<Longrightarrow> src x = Some tid \<Longrightarrow> owner A tid = Some i"
  shows "accounts src A xs [] (push i xs A)"
proof -
  have "apart src (push i xs A)"
  proof (rule apartI)
    fix j y tid assume j: "j < length (lane (push i xs A))" "y \<in> set (lane (push i xs A) ! j)" "src y = Some tid"
    show "owner (push i xs A) tid = Some j"
      using j apartD(3) [OF A, of j y tid] x [of y tid] i by (cases "j = i") (auto simp: push_def)
  qed (use apartD(1,2) [OF A] in \<open>simp_all add: push_def\<close>)
  moreover have "mset (concat (lane A)) + mset xs = mset [] + mset (concat (lane (push i xs A)))"
    using mset_concat_update [OF i, of "lane A ! i @ xs"] by (simp add: push_def)
  moreover have "mine src tid A @ filter (\<lambda>x. src x = Some tid) xs = mine src tid (push i xs A)" for tid
  proof (cases "owner A tid = Some i")
    case False
    then have "filter (\<lambda>x. src x = Some tid) xs = []" using x [of _ tid] by (auto simp: filter_empty_conv)
    then show ?thesis using False by (auto simp: mine_def push_def split: option.split)
  qed (use i in \<open>simp add: mine_def push_def\<close>)
  ultimately show ?thesis by (simp add: accounts_def)
qed

lemma accounts_pop:
  assumes A: "apart src A" and i: "i < length (lane A)" and xs: "lane A ! i = ys @ xs"
  shows "accounts src A [] ys (A\<lparr>lane := (lane A)[i := xs]\<rparr>)"
proof -
  have x: "owner A tid = Some i" if "y \<in> set ys" "src y = Some tid" for y tid using apartD(3) [OF A i _ that(2)] xs that(1) by simp
  have "apart src (A\<lparr>lane := (lane A)[i := xs]\<rparr>)"
  proof (rule apartI)
    fix j y tid assume j: "j < length (lane (A\<lparr>lane := (lane A)[i := xs]\<rparr>))" "y \<in> set (lane (A\<lparr>lane := (lane A)[i := xs]\<rparr>) ! j)" "src y = Some tid"
    show "owner (A\<lparr>lane := (lane A)[i := xs]\<rparr>) tid = Some j"
      using j apartD(3) [OF A, of j y tid] xs i by (cases "j = i") auto
  qed (use apartD(1,2) [OF A] in simp_all)
  moreover have "mset (concat (lane A)) + mset [] = mset ys + mset (concat ((lane A)[i := xs]))"
    using mset_concat_update [OF i, of xs] xs by (simp add: add.commute)
  moreover have "mine src tid A = filter (\<lambda>x. src x = Some tid) ys @ mine src tid (A\<lparr>lane := (lane A)[i := xs]\<rparr>)" for tid
  proof (cases "owner A tid = Some i")
    case False
    then have "filter (\<lambda>x. src x = Some tid) ys = []" using x [of _ tid] by (auto simp: filter_empty_conv)
    then show ?thesis using False by (auto simp: mine_def split: option.split)
  qed (use i xs in \<open>simp add: mine_def\<close>)
  ultimately show ?thesis by (simp add: accounts_def)
qed

lemma accounts_new:
  assumes A: "apart src A" and new: "owner A tid = None"
  shows "accounts src A [] [] (new_lane tid A)"
proof -
  have "apart src (new_lane tid A)"
  proof (rule apartI)
    fix j y t assume j: "j < length (lane (new_lane tid A))" "y \<in> set (lane (new_lane tid A) ! j)" "src y = Some t"
    show "owner (new_lane tid A) t = Some j"
      using j apartD(3) [OF A, of j y t] new by (cases "j = length (lane A)") (auto simp: nth_append)
  qed (use apartD(1,2) [OF A] in \<open>force split: if_split_asm\<close>)+
  moreover have "mine src t (new_lane tid A) = mine src t A" for t
    using apartD(1) [OF A, of t] new by (auto simp: mine_def nth_append split: option.split)
  ultimately show ?thesis by (simp add: accounts_def)
qed

lemma accounts_trans:
  assumes "accounts src A ins outs A1" and "accounts src A1 ins' outs' A2"
  shows "accounts src A (ins @ ins') (outs @ outs') A2"
proof -
  have "mset (concat (lane A)) + mset (ins @ ins') = mset (outs @ outs') + mset (concat (lane A2))"
    using assms by (simp add: accounts_def) (metis add.assoc add.commute)
  moreover have "mine src tid A @ filter (\<lambda>x. src x = Some tid) (ins @ ins') = filter (\<lambda>x. src x = Some tid) (outs @ outs') @ mine src tid A2" for tid
    using assms by (simp add: accounts_def) (metis append.assoc)
  ultimately show ?thesis using assms(2) by (simp add: accounts_def)
qed

lemma accounts_takes:
  assumes A: "apart src A" and p: "pops E A a A'" and E: "\<forall>x. \<not> assign_raises E x"
  shows "accounts src A [] (popped a) A'"
proof -
  obtain r xss where r: "a = Delivered r" "takes E {..<length (lane A)} (lane A) r xss" "A' = A\<lparr>lane := xss\<rparr>" using p by (auto simp: pops_def)
  from r(2) consider "r = Val None" "xss = lane A" | i where "i < length (lane A)" "lane A ! i \<noteq> []" "r = front_of E (lane A ! i)" "xss = (lane A)[i := tl (lane A ! i)]"
    by (auto simp: takes_def)
  then show ?thesis
  proof cases
    case 1
    then show ?thesis using A r by (simp add: accounts_same)
  next
    case 2
    then obtain x xs where x: "lane A ! i = [x] @ xs" by (cases "lane A ! i") auto
    with 2 E r show ?thesis using accounts_pop [OF A 2(1) x] by simp
  qed
qed

text \<open>When assignments do not throw, draining lanes delivers what it takes out.\<close>

lemma accounts_drain:
  assumes "apart src A" and "set order \<subseteq> {..<length (lane A)}" and "drain E n order (lane A) = (threw, els, xss)" and "\<forall>x. \<not> assign_raises E x"
  shows "accounts src A [] els (A\<lparr>lane := xss\<rparr>)"
  using assms(1-3)
proof (induction order arbitrary: n A els)
  case Nil
  then show ?case using accounts_same [OF Nil.prems(1)] by auto
next
  case (Cons i order)
  have i: "i < length (lane A)" using Cons.prems(2) by simp
  define k where "k = given (lane A ! i) n"
  have "lane A ! i = take k (lane A ! i) @ drop k (lane A ! i)" by simp
  note first = accounts_pop [OF Cons.prems(1) i this]
  show ?case using k_def
  proof (cases rule: drain_cases [where E = E and i = i and xss = "lane A" and n = n and k = k])
    case thrown
    then show ?thesis using assms(4) by (simp add: list_ex_iff)
  next
    case full
    then show ?thesis using first Cons.prems(3) by simp
  next
    case more
    let ?A = "A\<lparr>lane := (lane A)[i := []]\<rparr>"
    obtain els' where d: "drain E (n - k) order (lane ?A) = (threw, els', xss)" "els = lane A ! i @ els'"
      using Cons.prems(3) more(5) by (auto split: prod.split_asm)
    have f: "accounts src A [] (lane A ! i) ?A" using first more(3) by simp
    then have "apart src ?A" by (simp add: accounts_def)
    from Cons.IH [OF this _ d(1)] Cons.prems(2) have "accounts src ?A [] els' (?A\<lparr>lane := xss\<rparr>)" by simp
    from accounts_trans [OF f this] d(2) show ?thesis by simp
  qed
qed

lemma accounts_drains:
  assumes "apart src A" and "set order \<subseteq> {..<length (lane A)}" and "drains E mx order A a A'" and "\<forall>x. \<not> assign_raises E x"
  shows "accounts src A [] (popped a) A'"
  using accounts_drain [OF assms(1,2) _ assms(4)] assms(3) by (auto simp: drains_def split: prod.split_asm)

lemma accounts_tokens:
  assumes A: "apart src A" and l: "lane A' = lane A \<or> lane A' = lane A @ [[]]" and o: "owner A' = owner A"
    and t: "\<And>t i. token A' t = Some (Some i) \<Longrightarrow> i < length (lane A')"
  shows "accounts src A [] [] A'"
proof -
  have "apart src A'"
  proof (rule apartI)
    fix tid i assume "owner A' tid = Some i"
    then show "i < length (lane A')" using apartD(1) [OF A, of tid i] l o by auto
  next
    fix i x tid assume i: "i < length (lane A')" "x \<in> set (lane A' ! i)" "src x = Some tid"
    show "owner A' tid = Some i" using i apartD(3) [OF A, of i x tid] l o by (cases "i < length (lane A)") (auto simp: nth_append)
  qed (rule t)
  moreover have "mine src tid A' = mine src tid A" for tid
    using apartD(1) [OF A, of tid] l o by (auto simp: mine_def nth_append split: option.split)
  ultimately show ?thesis using l by (auto simp: accounts_def)
qed

lemma accounts_own:
  assumes A: "apart src A" and f: "finds tid A r A1" "case r of None \<Rightarrow> a = Accepted False \<and> A' = A1 | Some i \<Rightarrow> pushes i xs A1 a A'"
    and xs: "\<forall>x \<in> set xs. src x = Some tid"
  shows "accounts src A (if a = Accepted True then xs else []) [] A'" and "a = Accepted True \<or> a = Accepted False"
proof -
  have A1: "accounts src A [] [] A1" using f(1) A accounts_new [OF A, of tid] by (auto simp: finds_def accounts_same split: option.splits)
  then have ap: "apart src A1" by (simp add: accounts_def)
  have "accounts src A1 (if a = Accepted True then xs else []) [] A'"
  proof (cases r)
    case (Some i)
    have ow: "owner A1 tid = Some i" using f(1) Some by (auto simp: finds_def split: option.splits)
    have "accounts src A1 xs [] (push i xs A1)" using apartD(1) [OF ap ow] ow xs by (intro accounts_push [OF ap]) auto
    then show ?thesis using f(2) Some accounts_same [OF ap] by (auto simp: pushes_def)
  qed (use f(2) accounts_same [OF ap] in auto)
  from accounts_trans [OF A1 this] show "accounts src A (if a = Accepted True then xs else []) [] A'" by simp
  show "a = Accepted True \<or> a = Accepted False" using f(2) by (auto simp: pushes_def split: option.splits)
qed

lemma accounts_call:
  assumes A: "apart src A" and s: "serves E A c a A'" and c: "labelled src c" and E: "\<forall>x. \<not> assign_raises E x"
  shows "accounts src A (pushed c a) (popped a) A'"
proof (cases c)
  case (Enqueue mode tid x)
  then obtain r A1 where "finds tid A r A1" "case r of None \<Rightarrow> a = Accepted False \<and> A' = A1 | Some i \<Rightarrow> pushes i [x] A1 a A'" using s by auto
  from accounts_own [OF A this] Enqueue c show ?thesis by auto
next
  case (Enqueue_Bulk mode tid xs)
  then obtain r A1 where "finds tid A r A1" "case r of None \<Rightarrow> a = Accepted False \<and> A' = A1 | Some i \<Rightarrow> pushes i xs A1 a A'" using s by auto
  from accounts_own [OF A this] Enqueue_Bulk c show ?thesis by auto
next
  case (Enqueue_Token mode t x)
  show ?thesis
  proof (cases "\<exists>i. token A t = Some (Some i)")
    case True
    then obtain i where i: "token A t = Some (Some i)" by blast
    have "accounts src A [x] [] (push i [x] A)" using apartD(2) [OF A i] c Enqueue_Token by (intro accounts_push [OF A]) auto
    then show ?thesis using s Enqueue_Token i accounts_same [OF A] by (auto simp: pushes_def)
  qed (use s Enqueue_Token accounts_same [OF A] in \<open>auto split: option.splits\<close>)
next
  case (Dequeue_From t)
  show ?thesis
  proof (cases "\<exists>i. token A t = Some (Some i)")
    case True
    then obtain i where i: "token A t = Some (Some i)" by blast
    show ?thesis
    proof (cases "lane A ! i")
      case Nil
      then show ?thesis using s Dequeue_From i accounts_same [OF A, of A] list_update_id [of "lane A" i] by simp
    next
      case (Cons x xs)
      then show ?thesis using s Dequeue_From i E accounts_pop [OF A apartD(2) [OF A i], of "[x]" xs] by simp
    qed
  qed (use s Dequeue_From accounts_same [OF A] in \<open>auto split: option.splits\<close>)
next
  case (Dequeue_Bulk mx)
  then show ?thesis using s accounts_drains [OF A _ _ E] by (auto simp: visits_def)
next
  case (Dequeue_Bulk_Token k mx)
  then show ?thesis using s accounts_drains [OF A _ _ E] by (auto simp: visits_def)
next
  case (Dequeue_Bulk_From t mx)
  show ?thesis
  proof (cases "\<exists>i. token A t = Some (Some i)")
    case True
    then obtain i where i: "token A t = Some (Some i)" by blast
    then show ?thesis using s Dequeue_Bulk_From accounts_drains [OF A, of "[i]" E mx a A'] apartD(2) [OF A i] E by simp
  qed (use s Dequeue_Bulk_From accounts_same [OF A] in \<open>auto split: option.splits\<close>)
next
  case (New_Token t)
  then have n: "a = Done" "lane A' = lane A \<or> lane A' = lane A @ [[]]" "owner A' = owner A"
    "\<exists>v. token A' = (token A)(t := Some v) \<and> (\<forall>i. v = Some i \<longrightarrow> i < length (lane A'))"
    using s by (auto simp: set_tok_def adopt_def)
  then have "accounts src A [] [] A'" using apartD(2) [OF A] by (intro accounts_tokens [OF A]) (fastforce split: if_splits)+
  then show ?thesis using n(1) New_Token by simp
next
  case (Move_Token t u)
  then have "accounts src A [] [] A'" using s apartD(2) [OF A] by (intro accounts_tokens [OF A]) (auto simp: set_tok_def split: if_splits)
  then show ?thesis using s Move_Token by simp
next
  case (Swap_Tokens t u)
  then have "accounts src A [] [] A'" using s apartD(2) [OF A] by (intro accounts_tokens [OF A]) (auto simp: set_tok_def split: if_splits)
  then show ?thesis using s Swap_Tokens by simp
next
  case (Drop_Token t)
  then have "accounts src A [] [] A'" using s apartD(2) [OF A]
    by (intro accounts_tokens [OF A]) (auto simp: set_tok_def split: if_splits option.splits)
  then show ?thesis using s Drop_Token by simp
qed (use s accounts_takes [OF A _ E] accounts_same [OF A] in auto)

lemma accounts_calls:
  "apart src A \<Longrightarrow> serves_all E A cs as A' \<Longrightarrow> list_all (labelled src) cs \<Longrightarrow> \<forall>x. \<not> assign_raises E x \<Longrightarrow>
   accounts src A (accepted_of cs as) (delivered_of as) A'"
proof (induction E A cs as A' rule: serves_all.induct)
  case (1 E A A')
  then show ?case by (simp add: accounts_same accepted_of_def delivered_of_def)
next
  case (2 E A c cs a as A')
  then obtain A1 where A1: "serves E A c a A1" "serves_all E A1 cs as A'" by auto
  have first: "accounts src A (pushed c a) (popped a) A1" using accounts_call [OF 2(2) A1(1)] 2 by simp
  then have "apart src A1" by (simp add: accounts_def)
  from accounts_trans [OF first 2(1) [OF this A1(2)]] 2 show ?case by (simp add: accepted_of_def delivered_of_def)
qed simp_all

text \<open>
  C2. Nothing is lost, duplicated or invented, and each thread's elements come out in the order it put
  them in: in every legal run from a new queue, the elements accepted are those delivered and those
  still in the lanes, and of every thread's elements the delivered ones are the first accepted ones.
\<close>

theorem elements_conserved_in_thread_order:
  assumes "traits_ok T" and "INITIAL_IMPLICIT_PRODUCER_HASH_SIZE T \<noteq> 0" and "\<forall>x. \<not> raises E x" and "\<forall>x. \<not> assign_raises E x"
    and "limit * bsz T < 2 ^ 63" and "legal [] 0 cs" and "length cs \<le> 2 ^ 32" and "list_all (labelled src) cs"
  shows "\<exists>as q ts A. do_calls T E cs (ConcurrentQueue T this cpty (mem_new limit ok), []) = Ret (as, q, ts) \<and> repr T E q A \<and>
    mset (accepted_of cs as) = mset (delivered_of as) + mset (concat (lane A)) \<and>
    (\<forall>tid. prefix (filter (\<lambda>x. src x = Some tid) (delivered_of as)) (filter (\<lambda>x. src x = Some tid) (accepted_of cs as)))"
proof -
  from calls_served [OF assms(1-3,5-7)] obtain as q ts A where
    run: "do_calls T E cs (ConcurrentQueue T this cpty (mem_new limit ok), []) = Ret (as, q, ts)" "serves_all E no_lanes cs as A" "repr T E q A"
    by blast
  have "apart src no_lanes" by (simp add: apart_def no_lanes_def)
  from accounts_calls [OF this run(2) assms(8,4)] have
    "mset (accepted_of cs as) = mset (delivered_of as) + mset (concat (lane A))"
    "\<forall>tid. filter (\<lambda>x. src x = Some tid) (accepted_of cs as) = filter (\<lambda>x. src x = Some tid) (delivered_of as) @ mine src tid A"
    by (simp_all add: accounts_def no_lanes_def mine_def)
  then show ?thesis using run by (intro exI [of _ as] exI [of _ q] exI [of _ ts] exI [of _ A]) simp
qed

definition two_sources :: "nat \<Rightarrow> 64 word option" where
  "two_sources x = (if x = 1 \<or> 6 \<le> x \<and> x \<le> 9 then Some 8 else if x = 2 then Some 16 else None)"

theorem elements_conserved_in_thread_order_witness:
  "\<exists>as q ts A. do_calls small_traits plain_ops two_threads (ConcurrentQueue small_traits 0 6 (mem_new 100 (\<lambda>_. True)), []) = Ret (as, q, ts) \<and>
    repr small_traits plain_ops q A \<and> mset (accepted_of two_threads as) = mset (delivered_of as) + mset (concat (lane A)) \<and>
    (\<forall>tid. prefix (filter (\<lambda>x. two_sources x = Some tid) (delivered_of as))
      (filter (\<lambda>x. two_sources x = Some tid) (accepted_of two_threads as)))"
proof (rule elements_conserved_in_thread_order [OF small_traits_ok])
  show "INITIAL_IMPLICIT_PRODUCER_HASH_SIZE small_traits \<noteq> 0" "(100 :: nat) * bsz small_traits < 2 ^ 63"
    by (simp_all add: small_traits_def ConcurrentQueueDefaultTraits_def)
  show "\<forall>x :: nat. \<not> raises plain_ops x" "\<forall>x :: nat. \<not> assign_raises plain_ops x" by (simp_all add: raises_def assign_raises_def plain_ops_def)
  show "legal [] 0 two_threads" by (simp add: two_threads_def valid_tid_def invalid_thread_id_def invalid_thread_id2_def)
  show "length two_threads \<le> 2 ^ 32" "list_all (labelled two_sources) two_threads"
    by (simp_all add: two_threads_def two_sources_def)
qed

section \<open>Consumer tokens\<close>

fun make_consumers :: "nat \<Rightarrow> 'd queue \<Rightarrow> ConsumerToken list \<times> 'd queue" where
  "make_consumers 0 q = ([], q)"
| "make_consumers (Suc k) q = (case ConsumerToken_new q of (tok, q1) \<Rightarrow> case make_consumers k q1 of (toks, q2) \<Rightarrow> (tok # toks, q2))"

lemma make_consumers_spec:
  "make_consumers k q = (map (\<lambda>i. fst (ConsumerToken_new (q\<lparr>nextExplicitConsumerId := nextExplicitConsumerId q + of_nat i\<rparr>))) [0..<k],
     q\<lparr>nextExplicitConsumerId := nextExplicitConsumerId q + of_nat k\<rparr>)"
proof (induction k arbitrary: q)
  case (Suc k)
  have "[0..<Suc k] = 0 # map Suc [0..<k]" by (simp add: upt_conv_Cons map_Suc_upt del: upt_Suc)
  then show ?case by (simp add: Suc ConsumerToken_new_def algebra_simps del: upt_Suc)
qed simp

lemma consumer_place:
  assumes ok: "list_ok q" and n: "0 < nprods q" "nprods q < 2 ^ 32" and fresh: "desiredProducer tok = None" "lastKnownGlobalOffset tok = - 1"
  shows "\<exists>p tok'. update_current_producer_after_rotation tok (q\<lparr>globalExplicitConsumerOffset := g\<rparr>) = Ret (True, tok') \<and> p < nprods q \<and>
    currentProducer tok' = Some p \<and> int p = (int (unat (initialOffset tok)) - int (unat (g + 1))) mod int (nprods q)"
proof -
  let ?q = "q\<lparr>globalExplicitConsumerOffset := g\<rparr>"
  have "list_ok ?q" "token_ok ?q tok" using ok fresh by (simp_all add: list_ok_def token_ok_def)
  from rotation_spec [OF this(1) _ _ this(2)] n obtain p where p: "p < nprods q"
    "update_current_producer_after_rotation tok ?q =
      Ret (True, tok\<lparr>desiredProducer := Some p, lastKnownGlobalOffset := g, currentProducer := Some p, itemsConsumedFromCurrent := 0\<rparr>)"
    "int p = (token_start ?q tok - int (unat (g + 1))) mod int (nprods q)" using fresh by auto
  moreover have "token_start ?q tok = int (unat (initialOffset tok)) mod int (nprods q)" using fresh by (simp add: token_start_def zmod_int)
  ultimately show ?thesis by (simp add: mod_diff_left_eq)
qed

lemma places_differ:
  assumes "(int (a + i) - d) mod int n = (int (a + j) - d) mod int n" and "i < n" and "j < n"
  shows "i = j"
proof -
  have "(int (a + i) - d - (int (a + j) - d)) mod int n = 0" using assms(1) by (metis mod_eq_dvd_iff dvd_imp_mod_0)
  then have "int n dvd int i - int j" by (simp add: dvd_eq_mod_eq_0)
  then have "int i mod int n = int j mod int n" by (simp add: mod_eq_dvd_iff)
  then show ?thesis using assms(2,3) by simp
qed

text \<open>
  C39. Consumers with tokens spread over the producers: as many tokens as there are producers or fewer,
  made one after the other, are placed at pairwise different producers by their first dequeue, however
  often the consumers have rotated before it.
\<close>

theorem consumer_tokens_spread:
  assumes "repr T E q A" and "k \<le> nprods q" and "nprods q < 2 ^ 32" and "unat (nextExplicitConsumerId q) + k \<le> 2 ^ 32"
    and "make_consumers k q = (toks, q')"
  shows "\<exists>ps. length ps = k \<and> distinct ps \<and> set ps \<subseteq> {..<nprods q} \<and>
    (\<forall>i < k. \<exists>tok. update_current_producer_after_rotation (toks ! i) (q'\<lparr>globalExplicitConsumerOffset := g\<rparr>) = Ret (True, tok) \<and>
       currentProducer tok = Some (ps ! i))"
proof -
  let ?n = "nprods q" and ?a = "unat (nextExplicitConsumerId q)"
  have q': "q' = q\<lparr>nextExplicitConsumerId := nextExplicitConsumerId q + of_nat k\<rparr>" using assms(5) by (simp add: make_consumers_spec)
  have toks: "toks ! i = fst (ConsumerToken_new (q\<lparr>nextExplicitConsumerId := nextExplicitConsumerId q + of_nat i\<rparr>))" if "i < k" for i
    using assms(5) that by (auto simp: make_consumers_spec)
  have ok: "list_ok q'" "nprods q' = ?n" using queue_invD(5) [OF reprD(1) [OF assms(1)]] unfolding q' by (simp_all add: list_ok_def)
  have "\<exists>p. i < k \<longrightarrow> p < ?n \<and> int p = (int (?a + i) - int (unat (g + 1))) mod int ?n \<and>
      (\<exists>tok. update_current_producer_after_rotation (toks ! i) (q'\<lparr>globalExplicitConsumerOffset := g\<rparr>) = Ret (True, tok) \<and> currentProducer tok = Some p)" for i
  proof (cases "i < k")
    case True
    have "unat (nextExplicitConsumerId q + of_nat i) = ?a + i" using assms(4) True by (simp add: unat_word_ariths unsigned_of_nat take_bit_nat_eq_self)
    moreover have "0 < ?n" using assms(2) True by linarith
    ultimately show ?thesis
      using consumer_place [OF ok(1), of "toks ! i" g] ok(2) assms(3) True by (auto simp: toks ConsumerToken_new_def)
  qed simp
  then obtain p where p: "i < k \<Longrightarrow> p i < ?n \<and> int (p i) = (int (?a + i) - int (unat (g + 1))) mod int ?n \<and>
      (\<exists>tok. update_current_producer_after_rotation (toks ! i) (q'\<lparr>globalExplicitConsumerOffset := g\<rparr>) = Ret (True, tok) \<and> currentProducer tok = Some (p i))" for i
    by metis
  have "inj_on p {..<k}"
  proof (rule inj_onI)
    fix i j assume i: "i \<in> {..<k}" and j: "j \<in> {..<k}" and "p i = p j"
    then show "i = j" using places_differ [of ?a i "int (unat (g + 1))" ?n j] p [of i] p [of j] assms(2) by simp
  qed
  then have "distinct (map p [0..<k])" by (simp add: distinct_map atLeast0LessThan)
  then show ?thesis using p by (intro exI [of _ "map p [0..<k]"]) auto
qed

definition two_producers :: "nat call list" where
  "two_producers = [Enqueue CanAlloc 8 1, Enqueue CanAlloc 16 2]"

lemma two_producers_run:
  "case do_calls small_traits plain_ops two_producers (ConcurrentQueue small_traits 0 6 (mem_new 100 (\<lambda>_. True)), []) of
     Ret (as, q, ts) \<Rightarrow> nprods q = 2 \<and> nextExplicitConsumerId q = 0 | _ \<Rightarrow> False"
  by code_simp

theorem consumer_tokens_spread_witness:
  "\<exists>q :: nat queue. \<exists>toks q' ps. nprods q = 2 \<and> make_consumers 2 q = (toks, q') \<and> length ps = 2 \<and> distinct ps \<and> set ps \<subseteq> {..<2} \<and>
    (\<forall>i < 2. \<exists>tok. update_current_producer_after_rotation (toks ! i) (q'\<lparr>globalExplicitConsumerOffset := 3\<rparr>) = Ret (True, tok) \<and>
       currentProducer tok = Some (ps ! i))"
proof -
  have h: "INITIAL_IMPLICIT_PRODUCER_HASH_SIZE small_traits \<noteq> 0" "(100 :: nat) * bsz small_traits < 2 ^ 63"
    by (simp_all add: small_traits_def ConcurrentQueueDefaultTraits_def)
  have "\<forall>x :: nat. \<not> raises plain_ops x" by (simp add: raises_def plain_ops_def)
  moreover have "legal [] 0 two_producers" by (simp add: two_producers_def valid_tid_def invalid_thread_id_def invalid_thread_id2_def)
  moreover have "length two_producers \<le> 2 ^ 32" by (simp add: two_producers_def)
  ultimately obtain as q ts A where run: "do_calls small_traits plain_ops two_producers (ConcurrentQueue small_traits 0 6 (mem_new 100 (\<lambda>_. True)), []) = Ret (as, q, ts)"
    "repr small_traits plain_ops q A" using calls_served [OF small_traits_ok h(1) _ h(2)] by blast
  have n: "nprods q = 2" "nextExplicitConsumerId q = 0" using two_producers_run run(1) by simp_all
  obtain toks q' where mk: "make_consumers 2 q = (toks, q')" by (cases "make_consumers 2 q")
  have "2 \<le> nprods q" "nprods q < 2 ^ 32" "unat (nextExplicitConsumerId q) + 2 \<le> 2 ^ 32" using n by simp_all
  from consumer_tokens_spread [OF run(2) this mk, of 3] show ?thesis unfolding n(1) using n(1) mk by blast
qed

end
