(* ===== verification/LWSem.thy ===== *)
theory LWSem
  imports Prelude
begin

text \<open>
  \<open>LightweightSemaphore\<close> and the POSIX \<open>Semaphore\<close> under it
  (\<^verbatim>\<open>concurrentqueue/lightweightsemaphore.h\<close>): first every function as one thread runs it, then the
  same protocol under any number of threads, one step per atomic access.
\<close>

section \<open>The POSIX semaphore\<close>

text \<open>
  \<open>sem_t\<close> is a count kept by the kernel. A call may be interrupted (\<open>EINTR\<close>) any finite number of
  times before it goes through; the first argument is that number.
\<close>

type_synonym sem_t = nat

fun posix_wait :: "nat \<Rightarrow> sem_t \<Rightarrow> (bool \<times> sem_t) outcome" where
  "posix_wait (Suc eintr) s = posix_wait eintr s"
| "posix_wait 0 s = (if 0 < s then Ret (True, s - 1) else Blocked)"

fun posix_try_wait :: "nat \<Rightarrow> sem_t \<Rightarrow> bool \<times> sem_t" where
  "posix_try_wait (Suc eintr) s = posix_try_wait eintr s"
| "posix_try_wait 0 s = (if 0 < s then (True, s - 1) else (False, s))"

text \<open>The deadline of \<open>timed_wait\<close>, from the real time \<open>(tv_sec, tv_nsec)\<close> and the microseconds to wait.\<close>

definition timed_wait_deadline :: "nat \<Rightarrow> nat \<times> nat \<Rightarrow> nat \<times> nat" where
  "timed_wait_deadline usecs now =
     (let tv_sec = fst now + usecs div 1000000;
          tv_nsec = snd now + (usecs mod 1000000) * 1000
      in if 1000000000 \<le> tv_nsec then (tv_sec + 1, tv_nsec - 1000000000) else (tv_sec, tv_nsec))"

text \<open>\<open>sem_timedwait\<close> takes a token if there is one and otherwise times out at the deadline.\<close>

fun posix_timed_wait :: "nat \<Rightarrow> sem_t \<Rightarrow> bool \<times> sem_t" where
  "posix_timed_wait (Suc eintr) s = posix_timed_wait eintr s"
| "posix_timed_wait 0 s = (if 0 < s then (True, s - 1) else (False, s))"

text \<open>\<open>signal(count)\<close>: \<open>while (count-- > 0) sem_post\<close>.\<close>

fun posix_signal :: "nat \<Rightarrow> sem_t \<Rightarrow> sem_t" where
  "posix_signal 0 s = s"
| "posix_signal (Suc n) s = posix_signal n (s + 1)"

lemma posix_signal_add [simp]: "posix_signal n s = s + n"
  by (induction n arbitrary: s) auto

lemma posix_wait_interrupted: "posix_wait k s = posix_wait 0 s"
  by (induction k) auto

lemma posix_try_wait_interrupted: "posix_try_wait k s = posix_try_wait 0 s"
  by (induction k) auto

lemma posix_timed_wait_interrupted: "posix_timed_wait k s = posix_timed_wait 0 s"
  by (induction k) auto

section \<open>The lightweight semaphore as one thread runs it\<close>

record LightweightSemaphore =
  m_count :: int
  m_sema :: sem_t

definition lws_new :: "int \<Rightarrow> LightweightSemaphore" where
  "lws_new initialCount = \<lparr>m_count = initialCount, m_sema = 0\<rparr>"

definition tryWait :: "LightweightSemaphore \<Rightarrow> bool \<times> LightweightSemaphore" where
  "tryWait s = (let oldCount = m_count s in
     if 0 < oldCount then (True, s\<lparr>m_count := oldCount - 1\<rparr>) else (False, s))"

definition tryWaitMany :: "int \<Rightarrow> LightweightSemaphore \<Rightarrow> int \<times> LightweightSemaphore" where
  "tryWaitMany mx s = (let oldCount = m_count s in
     if 0 < oldCount then
       let newCount = (if oldCount > mx then oldCount - mx else 0)
       in (oldCount - newCount, s\<lparr>m_count := newCount\<rparr>)
     else (0, s))"

text \<open>The spinning of \<open>waitWithPartialSpinning\<close>: \<open>Some\<close> when the loop returns.\<close>

fun spin_wait :: "nat \<Rightarrow> LightweightSemaphore \<Rightarrow> (bool \<times> LightweightSemaphore) option" where
  "spin_wait 0 s = None"
| "spin_wait (Suc spin) s =
     (let oldCount = m_count s in
      if 0 < oldCount then Some (True, s\<lparr>m_count := oldCount - 1\<rparr>) else spin_wait spin s)"

fun spin_wait_many :: "nat \<Rightarrow> int \<Rightarrow> LightweightSemaphore \<Rightarrow> (int \<times> LightweightSemaphore) option" where
  "spin_wait_many 0 mx s = None"
| "spin_wait_many (Suc spin) mx s =
     (let oldCount = m_count s in
      if 0 < oldCount then
        let newCount = (if oldCount > mx then oldCount - mx else 0)
        in Some (oldCount - newCount, s\<lparr>m_count := newCount\<rparr>)
      else spin_wait_many spin mx s)"

text \<open>
  The loop that takes a timed-out wait back: either a token has arrived after all, or the count
  is still negative and is put right. It is bounded by fuel.
\<close>

fun readjust :: "nat \<Rightarrow> LightweightSemaphore \<Rightarrow> (bool \<times> LightweightSemaphore) outcome" where
  "readjust 0 s = No_Fuel"
| "readjust (Suc f) s =
     (let oldCount = m_count s;
          (got, k) = (if 0 \<le> oldCount then posix_try_wait 0 (m_sema s) else (False, m_sema s));
          s' = s\<lparr>m_sema := k\<rparr>
      in if got then Ret (True, s')
         else if oldCount < 0 then Ret (False, s'\<lparr>m_count := oldCount + 1\<rparr>)
         else readjust f s')"

definition waitWithPartialSpinning ::
  "nat \<Rightarrow> int \<Rightarrow> LightweightSemaphore \<Rightarrow> (bool \<times> LightweightSemaphore) outcome" where
  "waitWithPartialSpinning f timeout_usecs s =
     (case spin_wait 10000 s of
        Some r \<Rightarrow> Ret r
      | None \<Rightarrow>
          let oldCount = m_count s; s1 = s\<lparr>m_count := oldCount - 1\<rparr> in
          if 0 < oldCount then Ret (True, s1)
          else if timeout_usecs < 0 then
            and_then (posix_wait 0 (m_sema s1)) (\<lambda>(b, k). Ret (b, s1\<lparr>m_sema := k\<rparr>))
          else
            let (got, k) = posix_timed_wait 0 (m_sema s1); s2 = s1\<lparr>m_sema := k\<rparr> in
            if got then Ret (True, s2) else readjust f s2)"

definition waitManyWithPartialSpinning ::
  "nat \<Rightarrow> int \<Rightarrow> int \<Rightarrow> LightweightSemaphore \<Rightarrow> (int \<times> LightweightSemaphore) outcome" where
  "waitManyWithPartialSpinning f mx timeout_usecs s =
     (case spin_wait_many 10000 mx s of
        Some r \<Rightarrow> Ret r
      | None \<Rightarrow>
          let oldCount = m_count s;
              s1 = s\<lparr>m_count := oldCount - 1\<rparr>;
              finish = (\<lambda>s. if 1 < mx then (let (n, s') = tryWaitMany (mx - 1) s in Ret (1 + n, s')) else Ret (1, s))
          in if oldCount \<le> 0 then
               if timeout_usecs < 0 then
                 and_then (posix_wait 0 (m_sema s1)) (\<lambda>(b, k).
                   if b then finish (s1\<lparr>m_sema := k\<rparr>) else Ret (0, s1\<lparr>m_sema := k\<rparr>))
               else
                 let (got, k) = posix_timed_wait 0 (m_sema s1); s2 = s1\<lparr>m_sema := k\<rparr> in
                 if got then finish s2
                 else and_then (readjust f s2) (\<lambda>(b, s3). if b then finish s3 else Ret (0, s3))
             else finish s1)"

definition lws_wait :: "nat \<Rightarrow> LightweightSemaphore \<Rightarrow> (bool \<times> LightweightSemaphore) outcome" where
  "lws_wait f s = (let (b, s1) = tryWait s in if b then Ret (True, s1) else waitWithPartialSpinning f (- 1) s1)"

definition lws_wait_timed :: "nat \<Rightarrow> int \<Rightarrow> LightweightSemaphore \<Rightarrow> (bool \<times> LightweightSemaphore) outcome" where
  "lws_wait_timed f timeout_usecs s =
     (let (b, s1) = tryWait s in if b then Ret (True, s1) else waitWithPartialSpinning f timeout_usecs s1)"

definition waitMany_timed ::
  "nat \<Rightarrow> int \<Rightarrow> int \<Rightarrow> LightweightSemaphore \<Rightarrow> (int \<times> LightweightSemaphore) outcome" where
  "waitMany_timed f mx timeout_usecs s =
     (let (result, s1) = tryWaitMany mx s in
      if result = 0 \<and> 0 < mx then waitManyWithPartialSpinning f mx timeout_usecs s1 else Ret (result, s1))"

definition waitMany :: "nat \<Rightarrow> int \<Rightarrow> LightweightSemaphore \<Rightarrow> (int \<times> LightweightSemaphore) outcome" where
  "waitMany f mx s = waitMany_timed f mx (- 1) s"

definition lws_signal :: "int \<Rightarrow> LightweightSemaphore \<Rightarrow> LightweightSemaphore" where
  "lws_signal cnt s =
     (let oldCount = m_count s;
          s1 = s\<lparr>m_count := oldCount + cnt\<rparr>;
          toRelease = (if - oldCount < cnt then - oldCount else cnt)
      in if 0 < toRelease then s1\<lparr>m_sema := posix_signal (nat toRelease) (m_sema s1)\<rparr> else s1)"

definition availableApprox :: "LightweightSemaphore \<Rightarrow> int" where
  "availableApprox s = (let cnt = m_count s in if 0 < cnt then cnt else 0)"

lemma spin_wait_None: "\<not> 0 < m_count s \<Longrightarrow> spin_wait n s = None"
  by (induction n) auto

lemma spin_wait_eq: "0 < n \<Longrightarrow> spin_wait n s = (if 0 < m_count s then Some (True, s\<lparr>m_count := m_count s - 1\<rparr>) else None)"
  by (cases n) (auto simp: Let_def spin_wait_None)

lemma spin_wait_many_None: "\<not> 0 < m_count s \<Longrightarrow> spin_wait_many n mx s = None"
  by (induction n) auto

lemma spin_wait_many_eq:
  "0 < n \<Longrightarrow> spin_wait_many n mx s = (if 0 < m_count s then Some (tryWaitMany mx s) else None)"
  by (cases n) (auto simp: Let_def tryWaitMany_def spin_wait_many_None)

text \<open>Between calls the count of a semaphore is not negative, and with nobody waiting the kernel count is zero.\<close>

definition lws_idle :: "LightweightSemaphore \<Rightarrow> bool" where
  "lws_idle s \<longleftrightarrow> 0 \<le> m_count s \<and> m_sema s = 0"

lemma lws_idle_new: "0 \<le> n \<Longrightarrow> lws_idle (lws_new n)"
  by (simp add: lws_idle_def lws_new_def)

lemma lws_signal_idle: "lws_idle s \<Longrightarrow> 0 \<le> c \<Longrightarrow> lws_signal c s = s\<lparr>m_count := m_count s + c\<rparr>"
  by (auto simp: lws_idle_def lws_signal_def Let_def)

lemma lws_wait_idle:
  "lws_idle s \<Longrightarrow> lws_wait f s = (if 0 < m_count s then Ret (True, s\<lparr>m_count := m_count s - 1\<rparr>) else Blocked)"
  by (auto simp: lws_idle_def lws_wait_def tryWait_def Let_def waitWithPartialSpinning_def spin_wait_eq)

lemma lws_wait_timed_idle:
  "lws_idle s \<Longrightarrow> 0 \<le> t \<Longrightarrow> 0 < f \<Longrightarrow> lws_wait_timed f t s =
     Ret (if 0 < m_count s then (True, s\<lparr>m_count := m_count s - 1\<rparr>) else (False, s))"
  by (cases f)
     (auto simp: lws_idle_def lws_wait_timed_def tryWait_def Let_def waitWithPartialSpinning_def spin_wait_eq)

lemma tryWaitMany_idle:
  "lws_idle s \<Longrightarrow> 0 \<le> n \<Longrightarrow> tryWaitMany n s = (min n (m_count s), s\<lparr>m_count := m_count s - min n (m_count s)\<rparr>)"
  by (auto simp: lws_idle_def tryWaitMany_def Let_def min_def)

lemma waitMany_timed_idle:
  assumes "lws_idle s" and "0 \<le> n" and "0 < f"
  shows "waitMany_timed f n t s =
     (if n = 0 \<or> 0 < m_count s then Ret (min n (m_count s), s\<lparr>m_count := m_count s - min n (m_count s)\<rparr>)
      else if t < 0 then Blocked else Ret (0, s))"
  using assms by (cases f)
    (auto simp: waitMany_timed_def tryWaitMany_idle waitManyWithPartialSpinning_def spin_wait_many_eq lws_idle_def Let_def split: prod.splits)

lemma waitMany_idle:
  "lws_idle s \<Longrightarrow> 0 < n \<Longrightarrow> waitMany f n s =
     (if 0 < m_count s then Ret (min n (m_count s), s\<lparr>m_count := m_count s - min n (m_count s)\<rparr>) else Blocked)"
  by (auto simp: waitMany_def waitMany_timed_def tryWaitMany_idle waitManyWithPartialSpinning_def
      spin_wait_many_eq lws_idle_def Let_def split: prod.splits)

section \<open>The protocol under any number of threads\<close>

text \<open>
  The steps of \<open>signal\<close>, \<open>tryWaitMany\<close>, \<open>waitMany\<close> (with \<open>tryWait\<close> and \<open>wait\<close> as the case \<open>max = 1\<close>), one
  per atomic access of \<open>m_count\<close> or call of the kernel semaphore. \<open>Load\<close> and \<open>Cas\<close> are the test and
  the exchange of the try and spin loops, \<open>Sub\<close> the \<open>fetch_sub\<close>, \<open>Kernel\<close> the sleep in \<open>m_sema\<close>,
  \<open>Fix\<dots>\<close> the loop after a timeout and \<open>More\<dots>\<close> the final \<open>tryWaitMany(max - 1)\<close>.
\<close>

datatype lws_pc =
  Out
| Signal int | Post nat
| Load int | Cas int int | Sub int
| Kernel int | Fix_Load int | Fix_Try int | Fix_Cas int int
| More_Load int | More_Cas int int

record lws_sys =
  ls_count :: int
  ls_sema :: nat
  ls_thr :: "lws_pc multiset"
  ls_signalled :: int \<comment> \<open>ghost: units added by \<open>signal\<close>\<close>
  ls_acquired :: int \<comment> \<open>ghost: units handed to waiters\<close>

definition lws_move :: "lws_pc \<Rightarrow> lws_pc \<Rightarrow> lws_sys \<Rightarrow> lws_sys" where
  "lws_move p q s = s\<lparr>ls_thr := add_mset q (ls_thr s - {#p#})\<rparr>"

definition lws_take :: "int \<Rightarrow> lws_sys \<Rightarrow> lws_sys" where
  "lws_take n s = s\<lparr>ls_acquired := ls_acquired s + n\<rparr>"

definition lws_after :: "int \<Rightarrow> lws_pc" where
  "lws_after mx = (if 1 < mx then More_Load (mx - 1) else Out)"

definition lws_left :: "int \<Rightarrow> int \<Rightarrow> int" where
  "lws_left mx old = (if old > mx then old - mx else 0)"

inductive lws_step :: "lws_sys \<Rightarrow> lws_sys \<Rightarrow> bool" where
  call_signal: "Out \<in># ls_thr s \<Longrightarrow> 0 \<le> c \<Longrightarrow> lws_step s (lws_move Out (Signal c) s)"
| fetch_add: "Signal c \<in># ls_thr s \<Longrightarrow>
    lws_step s ((lws_move (Signal c) (Post (nat (if - ls_count s < c then - ls_count s else c))) s)
      \<lparr>ls_count := ls_count s + c, ls_signalled := ls_signalled s + c\<rparr>)"
| sem_post: "Post (Suc n) \<in># ls_thr s \<Longrightarrow> lws_step s ((lws_move (Post (Suc n)) (Post n) s)\<lparr>ls_sema := ls_sema s + 1\<rparr>)"
| post_done: "Post 0 \<in># ls_thr s \<Longrightarrow> lws_step s (lws_move (Post 0) Out s)"
| call_wait: "Out \<in># ls_thr s \<Longrightarrow> 0 < mx \<Longrightarrow> lws_step s (lws_move Out (Load mx) s)"
| load_pos: "Load mx \<in># ls_thr s \<Longrightarrow> 0 < ls_count s \<Longrightarrow> lws_step s (lws_move (Load mx) (Cas (ls_count s) mx) s)"
| load_spin: "Load mx \<in># ls_thr s \<Longrightarrow> \<not> 0 < ls_count s \<Longrightarrow> lws_step s s"
| load_fail: "Load mx \<in># ls_thr s \<Longrightarrow> \<not> 0 < ls_count s \<Longrightarrow> lws_step s (lws_move (Load mx) Out s)"
| load_sleep: "Load mx \<in># ls_thr s \<Longrightarrow> \<not> 0 < ls_count s \<Longrightarrow> lws_step s (lws_move (Load mx) (Sub mx) s)"
| cas_ok: "Cas old mx \<in># ls_thr s \<Longrightarrow> ls_count s = old \<Longrightarrow>
    lws_step s (lws_take (old - lws_left mx old) ((lws_move (Cas old mx) Out s)\<lparr>ls_count := lws_left mx old\<rparr>))"
| cas_fail: "Cas old mx \<in># ls_thr s \<Longrightarrow> lws_step s (lws_move (Cas old mx) (Load mx) s)"
| sub_got: "Sub mx \<in># ls_thr s \<Longrightarrow> 0 < ls_count s \<Longrightarrow>
    lws_step s (lws_take 1 ((lws_move (Sub mx) (lws_after mx) s)\<lparr>ls_count := ls_count s - 1\<rparr>))"
| sub_wait: "Sub mx \<in># ls_thr s \<Longrightarrow> \<not> 0 < ls_count s \<Longrightarrow>
    lws_step s ((lws_move (Sub mx) (Kernel mx) s)\<lparr>ls_count := ls_count s - 1\<rparr>)"
| kernel_got: "Kernel mx \<in># ls_thr s \<Longrightarrow> 0 < ls_sema s \<Longrightarrow>
    lws_step s (lws_take 1 ((lws_move (Kernel mx) (lws_after mx) s)\<lparr>ls_sema := ls_sema s - 1\<rparr>))"
| kernel_timeout: "Kernel mx \<in># ls_thr s \<Longrightarrow> lws_step s (lws_move (Kernel mx) (Fix_Load mx) s)"
| fix_load_try: "Fix_Load mx \<in># ls_thr s \<Longrightarrow> 0 \<le> ls_count s \<Longrightarrow> lws_step s (lws_move (Fix_Load mx) (Fix_Try mx) s)"
| fix_load_cas: "Fix_Load mx \<in># ls_thr s \<Longrightarrow> \<not> 0 \<le> ls_count s \<Longrightarrow>
    lws_step s (lws_move (Fix_Load mx) (Fix_Cas (ls_count s) mx) s)"
| fix_try_ok: "Fix_Try mx \<in># ls_thr s \<Longrightarrow> 0 < ls_sema s \<Longrightarrow>
    lws_step s (lws_take 1 ((lws_move (Fix_Try mx) (lws_after mx) s)\<lparr>ls_sema := ls_sema s - 1\<rparr>))"
| fix_try_no: "Fix_Try mx \<in># ls_thr s \<Longrightarrow> ls_sema s = 0 \<Longrightarrow> lws_step s (lws_move (Fix_Try mx) (Fix_Load mx) s)"
| fix_cas_ok: "Fix_Cas old mx \<in># ls_thr s \<Longrightarrow> ls_count s = old \<Longrightarrow>
    lws_step s ((lws_move (Fix_Cas old mx) Out s)\<lparr>ls_count := old + 1\<rparr>)"
| fix_cas_no: "Fix_Cas old mx \<in># ls_thr s \<Longrightarrow> ls_count s \<noteq> old \<Longrightarrow>
    lws_step s (lws_move (Fix_Cas old mx) (Fix_Load mx) s)"
| more_pos: "More_Load mx \<in># ls_thr s \<Longrightarrow> 0 < ls_count s \<Longrightarrow>
    lws_step s (lws_move (More_Load mx) (More_Cas (ls_count s) mx) s)"
| more_none: "More_Load mx \<in># ls_thr s \<Longrightarrow> \<not> 0 < ls_count s \<Longrightarrow> lws_step s (lws_move (More_Load mx) Out s)"
| more_ok: "More_Cas old mx \<in># ls_thr s \<Longrightarrow> ls_count s = old \<Longrightarrow>
    lws_step s (lws_take (old - lws_left mx old) ((lws_move (More_Cas old mx) Out s)\<lparr>ls_count := lws_left mx old\<rparr>))"
| more_fail: "More_Cas old mx \<in># ls_thr s \<Longrightarrow> lws_step s (lws_move (More_Cas old mx) (More_Load mx) s)"

definition lws_init :: "int \<Rightarrow> nat \<Rightarrow> lws_sys" where
  "lws_init n threads = \<lparr>ls_count = n, ls_sema = 0, ls_thr = replicate_mset threads Out,
     ls_signalled = 0, ls_acquired = 0\<rparr>"

inductive lws_reach :: "int \<Rightarrow> nat \<Rightarrow> lws_sys \<Rightarrow> bool" for n threads where
  lws_start: "lws_reach n threads (lws_init n threads)"
| lws_next: "lws_reach n threads s \<Longrightarrow> lws_step s t \<Longrightarrow> lws_reach n threads t"

subsection \<open>Invariant\<close>

text \<open>
  A thread that went below zero is a waiter until it gets its token or takes the decrement back;
  a poster still owes its posts.
\<close>

fun waits :: "lws_pc \<Rightarrow> int" where
  "waits (Kernel _) = 1" | "waits (Fix_Load _) = 1" | "waits (Fix_Try _) = 1" | "waits (Fix_Cas _ _) = 1"
| "waits _ = 0"

fun owes :: "lws_pc \<Rightarrow> int" where
  "owes (Post n) = int n"
| "owes _ = 0"

fun pc_ok :: "lws_pc \<Rightarrow> bool" where
  "pc_ok (Signal c) \<longleftrightarrow> 0 \<le> c"
| "pc_ok (Cas old mx) \<longleftrightarrow> 0 < old \<and> 0 < mx"
| "pc_ok (More_Cas old mx) \<longleftrightarrow> 0 < old \<and> 0 < mx"
| "pc_ok (Fix_Cas old mx) \<longleftrightarrow> old < 0"
| "pc_ok (Load mx) \<longleftrightarrow> 0 < mx"
| "pc_ok (More_Load mx) \<longleftrightarrow> 0 < mx"
| "pc_ok _ \<longleftrightarrow> True"

abbreviation weight :: "(lws_pc \<Rightarrow> int) \<Rightarrow> lws_sys \<Rightarrow> int" where
  "weight f s \<equiv> \<Sum>\<^sub># (image_mset f (ls_thr s))"

definition lws_inv :: "int \<Rightarrow> lws_sys \<Rightarrow> bool" where
  "lws_inv n s \<longleftrightarrow>
     (\<forall>p \<in># ls_thr s. pc_ok p) \<and>
     ls_count s = n + ls_signalled s - ls_acquired s - weight waits s \<and>
     weight waits s = int (ls_sema s) + weight owes s + max 0 (- ls_count s)"

lemma sum_mset_nonneg_int: "(\<And>p. 0 \<le> f p) \<Longrightarrow> 0 \<le> \<Sum>\<^sub># (image_mset (f :: 'a \<Rightarrow> int) M)"
  by (induction M) auto

lemma owes_nonneg: "0 \<le> owes p"
  by (cases p) auto

lemma owes_0: "(\<And>k. p \<noteq> Post (Suc k)) \<Longrightarrow> owes p = 0"
proof (cases p)
  case (Post n)
  then show "(\<And>k. p \<noteq> Post (Suc k)) \<Longrightarrow> owes p = 0" by (cases n) auto
qed auto

lemma weight_move [simp]:
  assumes "p \<in># ls_thr s"
  shows "weight f (lws_move p q s) = weight f s - f p + f q"
proof -
  obtain M where "ls_thr s = add_mset p M" using assms by (metis insert_DiffM)
  then show ?thesis by (simp add: lws_move_def)
qed

lemma lws_move_simps [simp]:
  "ls_count (lws_move p q s) = ls_count s" "ls_sema (lws_move p q s) = ls_sema s"
  "ls_signalled (lws_move p q s) = ls_signalled s" "ls_acquired (lws_move p q s) = ls_acquired s"
  by (simp_all add: lws_move_def)

lemma lws_take_simps [simp]:
  "ls_count (lws_take k s) = ls_count s" "ls_sema (lws_take k s) = ls_sema s" "ls_thr (lws_take k s) = ls_thr s"
  "ls_signalled (lws_take k s) = ls_signalled s" "ls_acquired (lws_take k s) = ls_acquired s + k"
  by (simp_all add: lws_take_def)

lemma lws_after_simps [simp]:
  "waits (lws_after mx) = 0" "owes (lws_after mx) = 0" "pc_ok (lws_after mx)"
  by (simp_all add: lws_after_def)

lemma pcs_ok_move: "(\<forall>x \<in># ls_thr s. pc_ok x) \<Longrightarrow> pc_ok q \<Longrightarrow> (\<forall>x \<in># ls_thr (lws_move p q s). pc_ok x)"
  by (auto simp: lws_move_def dest: in_diffD)

lemma lws_left_bounds: "0 < mx \<Longrightarrow> 0 < old \<Longrightarrow> 0 \<le> lws_left mx old \<and> lws_left mx old < old"
  by (auto simp: lws_left_def)

lemma lws_inv_ok: "lws_inv n s \<Longrightarrow> p \<in># ls_thr s \<Longrightarrow> pc_ok p"
  by (simp add: lws_inv_def)

lemma lws_invD:
  assumes "lws_inv n s"
  shows "ls_count s = n + ls_signalled s - ls_acquired s - weight waits s"
    and "weight waits s = int (ls_sema s) + weight owes s + max 0 (- ls_count s)"
  using assms unfolding lws_inv_def by blast+

text \<open>The effect of a step on the invariant, in terms of what it adds to the counters.\<close>

lemma lws_inv_move:
  assumes inv: "lws_inv n s" and p: "p \<in># ls_thr s" and q: "pc_ok q"
    and t: "ls_thr t = ls_thr (lws_move p q s)"
    and "ls_count t - ls_count s = (ls_signalled t - ls_signalled s) - (ls_acquired t - ls_acquired s) + waits p - waits q"
    and "waits q - waits p = (int (ls_sema t) - int (ls_sema s)) + (owes q - owes p) +
      (max 0 (- ls_count t) - max 0 (- ls_count s))"
  shows "lws_inv n t"
proof -
  have w: "weight f t = weight f s - f p + f q" for f
    using weight_move [OF p, of f q] by (simp add: t)
  have "\<forall>x \<in># ls_thr t. pc_ok x" using inv q pcs_ok_move unfolding t lws_inv_def by blast
  with inv assms(5,6) show ?thesis unfolding lws_inv_def w by linarith
qed

lemma lws_inv_step:
  assumes "lws_step s t" and "lws_inv n s"
  shows "lws_inv n t"
  using assms
proof (induction rule: lws_step.induct)
  case (fetch_add c s)
  then have "0 \<le> c" using lws_inv_ok [OF fetch_add.prems fetch_add.hyps(1)] by simp
  let ?q = "Post (nat (if - ls_count s < c then - ls_count s else c))"
  show ?case
    by (rule lws_inv_move [OF fetch_add.prems fetch_add.hyps(1), of ?q])
       (use \<open>0 \<le> c\<close> in \<open>auto simp: lws_move_def split: if_splits\<close>)
next
  case (cas_ok old mx s)
  then have "0 \<le> lws_left mx old" "0 < old"
    using lws_inv_ok [OF cas_ok.prems cas_ok.hyps(1)] lws_left_bounds [of mx old] by simp_all
  then show ?case
    by (intro lws_inv_move [OF cas_ok.prems cas_ok.hyps(1), of Out])
       (use cas_ok.hyps(2) in \<open>simp_all add: lws_move_def lws_take_def\<close>)
next
  case (more_ok old mx s)
  then have "0 \<le> lws_left mx old" "0 < old"
    using lws_inv_ok [OF more_ok.prems more_ok.hyps(1)] lws_left_bounds [of mx old] by simp_all
  then show ?case
    by (intro lws_inv_move [OF more_ok.prems more_ok.hyps(1), of Out])
       (use more_ok.hyps(2) in \<open>simp_all add: lws_move_def lws_take_def\<close>)
next
  case (fix_cas_ok old mx s)
  then have "old < 0" using lws_inv_ok [OF fix_cas_ok.prems fix_cas_ok.hyps(1)] by simp
  then show ?case
    by (intro lws_inv_move [OF fix_cas_ok.prems fix_cas_ok.hyps(1), of Out])
       (use fix_cas_ok.hyps in \<open>simp_all add: lws_move_def lws_take_def of_nat_diff\<close>)
next
  case (sub_got mx s)
  then show ?case
    by (intro lws_inv_move [OF sub_got.prems sub_got.hyps(1), of "lws_after mx"])
       (use sub_got.hyps in \<open>simp_all add: lws_move_def lws_take_def of_nat_diff\<close>)
next
  case (sub_wait mx s)
  then show ?case
    by (intro lws_inv_move [OF sub_wait.prems sub_wait.hyps(1), of "Kernel mx"])
       (use sub_wait.hyps in \<open>simp_all add: lws_move_def lws_take_def of_nat_diff\<close>)
next
  case (kernel_got mx s)
  then show ?case
    by (intro lws_inv_move [OF kernel_got.prems kernel_got.hyps(1), of "lws_after mx"])
       (use kernel_got.hyps in \<open>simp_all add: lws_move_def lws_take_def of_nat_diff\<close>)
next
  case (fix_try_ok mx s)
  then show ?case
    by (intro lws_inv_move [OF fix_try_ok.prems fix_try_ok.hyps(1), of "lws_after mx"])
       (use fix_try_ok.hyps in \<open>simp_all add: lws_move_def lws_take_def of_nat_diff\<close>)
next
  case (sem_post k s)
  then show ?case
    by (intro lws_inv_move [OF sem_post.prems sem_post.hyps(1), of "Post k"])
       (use sem_post.hyps in \<open>simp_all add: lws_move_def lws_take_def of_nat_diff\<close>)
next
  case (load_pos mx s)
  then have "0 < mx" using lws_inv_ok [OF load_pos.prems load_pos.hyps(1)] by simp
  then show ?case
    by (intro lws_inv_move [OF load_pos.prems load_pos.hyps(1), of "Cas (ls_count s) mx"])
       (use load_pos.hyps in \<open>simp_all add: lws_move_def lws_take_def of_nat_diff\<close>)
next
  case (more_pos mx s)
  then have "0 < mx" using lws_inv_ok [OF more_pos.prems more_pos.hyps(1)] by simp
  then show ?case
    by (intro lws_inv_move [OF more_pos.prems more_pos.hyps(1), of "More_Cas (ls_count s) mx"])
       (use more_pos.hyps in \<open>simp_all add: lws_move_def lws_take_def of_nat_diff\<close>)
next
  case (cas_fail old mx s)
  then have "0 < mx" using lws_inv_ok [OF cas_fail.prems cas_fail.hyps(1)] by simp
  then show ?case
    by (intro lws_inv_move [OF cas_fail.prems cas_fail.hyps(1), of "Load mx"])
       (use cas_fail.hyps in \<open>simp_all add: lws_move_def lws_take_def of_nat_diff\<close>)
next
  case (more_fail old mx s)
  then have "0 < mx" using lws_inv_ok [OF more_fail.prems more_fail.hyps(1)] by simp
  then show ?case
    by (intro lws_inv_move [OF more_fail.prems more_fail.hyps(1), of "More_Load mx"])
       (use more_fail.hyps in \<open>simp_all add: lws_move_def lws_take_def of_nat_diff\<close>)
qed (auto intro!: lws_inv_move [OF _ _ _ refl])

lemma lws_reach_inv: "lws_reach n threads s \<Longrightarrow> 0 \<le> n \<Longrightarrow> lws_inv n s"
proof (induction rule: lws_reach.induct)
  case lws_start
  then show ?case by (simp add: lws_inv_def lws_init_def)
qed (auto intro: lws_inv_step)

section \<open>Properties\<close>




definition one_waiter :: lws_sys where
  "one_waiter = \<lparr>ls_count = - 1, ls_sema = 0, ls_thr = {#Kernel 1#}, ls_signalled = 0, ls_acquired = 0\<rparr>"

lemma one_waiter_reachable: "lws_reach 0 1 one_waiter"
proof -
  let ?a = "lws_init 0 1" and ?b = "lws_move Out (Load 1) (lws_init 0 1)"
  let ?c = "lws_move (Load 1) (Sub 1) ?b"
  have "lws_reach 0 1 ?b" by (intro lws_next [OF lws_start] call_wait) (simp_all add: lws_init_def)
  then have "lws_reach 0 1 ?c"
    by (rule lws_next) (rule load_sleep, simp_all add: lws_init_def lws_move_def)
  then have "lws_reach 0 1 ((lws_move (Sub 1) (Kernel 1) ?c)\<lparr>ls_count := ls_count ?c - 1\<rparr>)"
    by (rule lws_next) (rule sub_wait, simp_all add: lws_init_def lws_move_def)
  then show ?thesis by (simp add: lws_init_def lws_move_def one_waiter_def)
qed


text \<open>
  Called by one thread on a semaphore nobody waits on: \<open>waitMany(n)\<close> takes as many units as there
  are up to \<open>n\<close> and blocks only when there are none; a timed \<open>wait\<close> that runs out leaves the semaphore
  exactly as it was; and \<open>signal(c)\<close> makes \<open>c\<close> more units available.
\<close>

lemma lws_single_thread:
  assumes "lws_idle s" and "0 < n" and "0 \<le> c" and "0 \<le> t" and "0 < f"
  shows "waitMany f n s = (if 0 < m_count s
      then Ret (min n (m_count s), s\<lparr>m_count := m_count s - min n (m_count s)\<rparr>) else Blocked) \<and>
    lws_wait_timed f t s = Ret (if 0 < m_count s then (True, s\<lparr>m_count := m_count s - 1\<rparr>) else (False, s)) \<and>
    availableApprox (lws_signal c s) = availableApprox s + c \<and> lws_idle (lws_signal c s)"
  using waitMany_idle [OF assms(1,2)] lws_wait_timed_idle [OF assms(1,4,5)] lws_signal_idle [OF assms(1,3)] assms(1,3)
  by (auto simp: availableApprox_def Let_def lws_idle_def)

text \<open>
  The deadline of the POSIX \<open>timed_wait\<close> is the current time plus the microseconds asked for,
  with the nanoseconds normalised below one second, as \<open>sem_timedwait\<close> requires.
\<close>

lemma timed_wait_deadline_exact:
  assumes "nsec < 1000000000" and "timed_wait_deadline usecs (sec, nsec) = (sec', nsec')"
  shows "nsec' < 1000000000 \<and> sec' * 1000000000 + nsec' = sec * 1000000000 + nsec + usecs * 1000"
proof -
  define q r where "q = usecs div 1000000" and "r = usecs mod 1000000"
  then have qr: "usecs = q * 1000000 + r" "r < 1000000" by simp_all
  have "sec' = (if 1000000000 \<le> nsec + r * 1000 then sec + q + 1 else sec + q) \<and>
      nsec' = (if 1000000000 \<le> nsec + r * 1000 then nsec + r * 1000 - 1000000000 else nsec + r * 1000)"
    using assms(2) by (auto simp: timed_wait_deadline_def Let_def q_def r_def split: if_splits)
  with qr assms(1) show ?thesis by (auto split: if_splits)
qed

end
