(* ===== verification/CQ_Blocking.thy ===== *)
theory CQ_Blocking
  imports CQ_Queue LWSem
begin

text \<open>
  \<open>BlockingConcurrentQueue\<close> (\<^verbatim>\<open>concurrentqueue/blockingconcurrentqueue.h\<close>): a queue and a lightweight
  semaphore that counts its elements. Every call runs to its end before the next begins, whichever
  thread makes it.
\<close>

section \<open>The object\<close>

text \<open>\<open>sema\<close> is a \<open>unique_ptr\<close>: \<open>None\<close> after it was moved from, and going through it is undefined then.\<close>

record 'd blocking_queue =
  inner :: "'d queue"
  sema :: "LightweightSemaphore option"

definition with_sema :: "'d blocking_queue \<Rightarrow> (LightweightSemaphore \<Rightarrow> 'r outcome) \<Rightarrow> 'r outcome" where
  "with_sema b k = (case sema b of None \<Rightarrow> Undefined | Some s \<Rightarrow> k s)"

text \<open>\<open>create<LightweightSemaphore>()\<close> with its default argument, over the inner queue's allocator.\<close>

definition make_blocking :: "'d queue \<Rightarrow> 'd blocking_queue outcome" where
  "make_blocking q =
     (let (p, m1) = malloc (q_mem q) in
      if p then Ret \<lparr>inner = q\<lparr>q_mem := m1\<rparr>, sema = Some (lws_new 0)\<rparr> else Throws Bad_Alloc)"

definition BlockingConcurrentQueue :: "traits \<Rightarrow> nat \<Rightarrow> 64 word \<Rightarrow> 'd mem \<Rightarrow> 'd blocking_queue outcome" where
  "BlockingConcurrentQueue T this cpty m = make_blocking (ConcurrentQueue T this cpty m)"

definition BlockingConcurrentQueue3 :: "traits \<Rightarrow> nat \<Rightarrow> 64 word \<Rightarrow> 64 word \<Rightarrow> 64 word \<Rightarrow> 'd mem \<Rightarrow> 'd blocking_queue outcome" where
  "BlockingConcurrentQueue3 T this minCapacity maxExplicitProducers maxImplicitProducers m =
     make_blocking (ConcurrentQueue3 T this minCapacity maxExplicitProducers maxImplicitProducers m)"

definition blocking_move ::
  "traits \<Rightarrow> nat \<Rightarrow> 'd blocking_queue \<Rightarrow> 'd mem \<Rightarrow> ('d blocking_queue \<times> 'd blocking_queue) outcome" where
  "blocking_move T this other m =
     and_then (ConcurrentQueue_move T this (inner other) m) (\<lambda>(q, r).
       Ret (\<lparr>inner = q, sema = sema other\<rparr>, \<lparr>inner = r, sema = None\<rparr>))"

definition blocking_swap :: "traits \<Rightarrow> 'd blocking_queue \<Rightarrow> 'd blocking_queue \<Rightarrow> ('d blocking_queue \<times> 'd blocking_queue) outcome" where
  "blocking_swap T b c =
     (if q_this (inner b) = q_this (inner c) then Ret (b, c)
      else and_then (swap_internal T (inner b) (inner c)) (\<lambda>(q, r).
        Ret (\<lparr>inner = q, sema = sema c\<rparr>, \<lparr>inner = r, sema = sema b\<rparr>)))"

section \<open>Enqueueing\<close>

text \<open>\<open>if (inner.\<dots>) { sema->signal(count); return true; } return false\<close>; an exception goes through.\<close>

definition signalling ::
  "int \<Rightarrow> ('d queue \<Rightarrow> (bool xres \<times> 'd queue) outcome) \<Rightarrow> 'd blocking_queue \<Rightarrow> (bool xres \<times> 'd blocking_queue) outcome" where
  "signalling cnt op b =
     and_then (op (inner b)) (\<lambda>(r, q').
       if r = Val True
       then with_sema b (\<lambda>s. Ret (Val True, b\<lparr>inner := q', sema := Some (lws_signal cnt s)\<rparr>))
       else Ret (r, b\<lparr>inner := q'\<rparr>))"

definition blocking_enqueue where
  "blocking_enqueue tls T E tid x b = signalling 1 (enqueue tls T E tid x) b"

definition blocking_enqueue_token where
  "blocking_enqueue_token T E t x b = signalling 1 (enqueue_token T E t x) b"

definition blocking_enqueue_bulk where
  "blocking_enqueue_bulk tls T E tid xs b = signalling (sint (of_nat (length xs) :: 64 word)) (enqueue_bulk tls T E tid xs) b"

definition blocking_enqueue_bulk_token where
  "blocking_enqueue_bulk_token T E t xs b = signalling (sint (of_nat (length xs) :: 64 word)) (enqueue_bulk_token T E t xs) b"

definition blocking_try_enqueue where
  "blocking_try_enqueue tls T E tid x b = signalling 1 (try_enqueue tls T E tid x) b"

definition blocking_try_enqueue_token where
  "blocking_try_enqueue_token T E t x b = signalling 1 (try_enqueue_token T E t x) b"

definition blocking_try_enqueue_bulk where
  "blocking_try_enqueue_bulk tls T E tid xs b = signalling (sint (of_nat (length xs) :: 64 word)) (try_enqueue_bulk tls T E tid xs) b"

definition blocking_try_enqueue_bulk_token where
  "blocking_try_enqueue_bulk_token T E t xs b = signalling (sint (of_nat (length xs) :: 64 word)) (try_enqueue_bulk_token T E t xs) b"

section \<open>Dequeueing\<close>

text \<open>
  \<open>while (!inner.try_dequeue(item)) continue\<close>, bounded by fuel. The state is the queue, or a consumer
  token with it.
\<close>

fun take_loop :: "nat \<Rightarrow> ('q \<Rightarrow> ('d option xres \<times> 'q) outcome) \<Rightarrow> 'q \<Rightarrow> ('d xres \<times> 'q) outcome" where
  "take_loop 0 op q = No_Fuel"
| "take_loop (Suc f) op q =
     and_then (op q) (\<lambda>(r, q'). case r of Exc \<Rightarrow> Ret (Exc, q') | Val (Some x) \<Rightarrow> Ret (Val x, q') | Val None \<Rightarrow> take_loop f op q')"

text \<open>\<open>while (count != max) count += inner.try_dequeue_bulk(itemFirst, max - count)\<close>.\<close>

fun bulk_loop ::
  "nat \<Rightarrow> (64 word \<Rightarrow> 'q \<Rightarrow> ((64 word xres \<times> 'd list) \<times> 'q) outcome) \<Rightarrow> 64 word \<Rightarrow> 64 word \<Rightarrow> 'q \<Rightarrow>
   ((64 word xres \<times> 'd list) \<times> 'q) outcome" where
  "bulk_loop 0 op mx cnt q = No_Fuel"
| "bulk_loop (Suc f) op mx cnt q =
     (if cnt = mx then Ret ((Val cnt, []), q)
      else and_then (op (mx - cnt) q) (\<lambda>((r, els), q').
        case r of
          Exc \<Rightarrow> Ret ((Exc, els), q')
        | Val n \<Rightarrow> and_then (bulk_loop f op mx (cnt + n) q') (\<lambda>((r', rest), q''). Ret ((r', els @ rest), q''))))"

text \<open>\<open>while (!sema->wait()) continue\<close>.\<close>

fun wait_loop :: "nat \<Rightarrow> LightweightSemaphore \<Rightarrow> LightweightSemaphore outcome" where
  "wait_loop 0 s = No_Fuel"
| "wait_loop (Suc f) s = and_then (lws_wait (Suc f) s) (\<lambda>(ok, s'). if ok then Ret s' else wait_loop f s')"

text \<open>
  The calls on the inner queue, without and with a consumer token: \<open>lift_inner\<close> and \<open>lift_token\<close> say where
  the queue, and the token, are.
\<close>

definition plain_op :: "('d queue \<Rightarrow> ('r \<times> 'd queue) outcome) \<Rightarrow> unit \<times> 'd queue \<Rightarrow> ('r \<times> unit \<times> 'd queue) outcome" where
  "plain_op op q = and_then (op (snd q)) (\<lambda>(r, q'). Ret (r, (), q'))"

definition token_op ::
  "(ConsumerToken \<Rightarrow> 'd queue \<Rightarrow> ('r \<times> ConsumerToken \<times> 'd queue) outcome) \<Rightarrow> ConsumerToken \<times> 'd queue \<Rightarrow>
   ('r \<times> ConsumerToken \<times> 'd queue) outcome" where
  "token_op op q = op (fst q) (snd q)"

text \<open>After the semaphore gave leave: take one element, or as many as it said.\<close>

definition take_one ::
  "nat \<Rightarrow> ('t \<times> 'd queue \<Rightarrow> ('d option xres \<times> 't \<times> 'd queue) outcome) \<Rightarrow> 't \<Rightarrow> 'd blocking_queue \<Rightarrow>
   ('d xres \<times> 't \<times> 'd blocking_queue) outcome" where
  "take_one f op t b = and_then (take_loop f op (t, inner b)) (\<lambda>(r, t', q'). Ret (r, t', b\<lparr>inner := q'\<rparr>))"

definition take_bulk ::
  "nat \<Rightarrow> (64 word \<Rightarrow> 't \<times> 'd queue \<Rightarrow> ((64 word xres \<times> 'd list) \<times> 't \<times> 'd queue) outcome) \<Rightarrow> int \<Rightarrow> 't \<Rightarrow>
   'd blocking_queue \<Rightarrow> ((64 word xres \<times> 'd list) \<times> 't \<times> 'd blocking_queue) outcome" where
  "take_bulk f op mx t b = and_then (bulk_loop f op (of_int mx) 0 (t, inner b)) (\<lambda>(r, t', q'). Ret (r, t', b\<lparr>inner := q'\<rparr>))"

definition some_of :: "'d xres \<Rightarrow> 'd option xres" where
  "some_of r = (case r of Val x \<Rightarrow> Val (Some x) | Exc \<Rightarrow> Exc)"

definition try_then_take ::
  "nat \<Rightarrow> ('t \<times> 'd queue \<Rightarrow> ('d option xres \<times> 't \<times> 'd queue) outcome) \<Rightarrow> 't \<Rightarrow> 'd blocking_queue \<Rightarrow>
   ('d option xres \<times> 't \<times> 'd blocking_queue) outcome" where
  "try_then_take f op t b =
     with_sema b (\<lambda>s. case tryWait s of (ok, s') \<Rightarrow>
       if ok then and_then (take_one f op t (b\<lparr>sema := Some s'\<rparr>)) (\<lambda>(r, t', b'). Ret (some_of r, t', b'))
       else Ret (Val None, t, b\<lparr>sema := Some s'\<rparr>))"

definition wait_then_take ::
  "nat \<Rightarrow> ('t \<times> 'd queue \<Rightarrow> ('d option xres \<times> 't \<times> 'd queue) outcome) \<Rightarrow> 't \<Rightarrow> 'd blocking_queue \<Rightarrow>
   ('d xres \<times> 't \<times> 'd blocking_queue) outcome" where
  "wait_then_take f op t b = with_sema b (\<lambda>s. and_then (wait_loop f s) (\<lambda>s'. take_one f op t (b\<lparr>sema := Some s'\<rparr>)))"

definition wait_timed_then_take ::
  "nat \<Rightarrow> ('t \<times> 'd queue \<Rightarrow> ('d option xres \<times> 't \<times> 'd queue) outcome) \<Rightarrow> int \<Rightarrow> 't \<Rightarrow> 'd blocking_queue \<Rightarrow>
   ('d option xres \<times> 't \<times> 'd blocking_queue) outcome" where
  "wait_timed_then_take f op timeout_usecs t b =
     with_sema b (\<lambda>s. and_then (lws_wait_timed f timeout_usecs s) (\<lambda>(ok, s').
       if ok then and_then (take_one f op t (b\<lparr>sema := Some s'\<rparr>)) (\<lambda>(r, t', b'). Ret (some_of r, t', b'))
       else Ret (Val None, t, b\<lparr>sema := Some s'\<rparr>)))"

definition blocking_try_dequeue where
  "blocking_try_dequeue f T E b = try_then_take f (plain_op (try_dequeue T E)) () b"

definition blocking_try_dequeue_token where
  "blocking_try_dequeue_token f T E token b = try_then_take f (token_op (try_dequeue_token T E)) token b"

definition wait_dequeue where
  "wait_dequeue f T E b = wait_then_take f (plain_op (try_dequeue T E)) () b"

definition wait_dequeue_token where
  "wait_dequeue_token f T E token b = wait_then_take f (token_op (try_dequeue_token T E)) token b"

definition wait_dequeue_timed where
  "wait_dequeue_timed f T E timeout_usecs b = wait_timed_then_take f (plain_op (try_dequeue T E)) timeout_usecs () b"

definition wait_dequeue_timed_token where
  "wait_dequeue_timed_token f T E timeout_usecs token b = wait_timed_then_take f (token_op (try_dequeue_token T E)) timeout_usecs token b"

text \<open>
  \<open>std::chrono::duration_cast<microseconds>\<close> of a count of units of \<open>num / den\<close> seconds; it rounds towards
  zero. The overloads that take a duration call the others with it.
\<close>

definition duration_usecs :: "nat \<Rightarrow> nat \<Rightarrow> int \<Rightarrow> int" where
  "duration_usecs num den cnt = (let n = cnt * int num * 1000000 in if 0 \<le> n then n div int den else - ((- n) div int den))"

definition wait_dequeue_timed_for where
  "wait_dequeue_timed_for f T E num den timeout b = wait_dequeue_timed f T E (duration_usecs num den timeout) b"

definition wait_dequeue_timed_token_for where
  "wait_dequeue_timed_token_for f T E num den timeout token b = wait_dequeue_timed_token f T E (duration_usecs num den timeout) token b"

text \<open>The bulk calls: \<open>max\<close> is cast to the signed type of the semaphore and the units it gave back to \<open>size_t\<close>.\<close>

definition blocking_try_dequeue_bulk where
  "blocking_try_dequeue_bulk f T E mx b =
     with_sema b (\<lambda>s. case tryWaitMany (sint (mx :: 64 word)) s of (n, s') \<Rightarrow>
       take_bulk f (\<lambda>mx. plain_op (try_dequeue_bulk T E mx)) n () (b\<lparr>sema := Some s'\<rparr>))"

definition blocking_try_dequeue_bulk_token where
  "blocking_try_dequeue_bulk_token f T E token mx b =
     with_sema b (\<lambda>s. case tryWaitMany (sint (mx :: 64 word)) s of (n, s') \<Rightarrow>
       take_bulk f (\<lambda>mx. token_op (\<lambda>token. try_dequeue_bulk_token T E token mx)) n token (b\<lparr>sema := Some s'\<rparr>))"

definition wait_dequeue_bulk where
  "wait_dequeue_bulk f T E mx b =
     with_sema b (\<lambda>s. and_then (waitMany f (sint (mx :: 64 word)) s) (\<lambda>(n, s').
       take_bulk f (\<lambda>mx. plain_op (try_dequeue_bulk T E mx)) n () (b\<lparr>sema := Some s'\<rparr>)))"

definition wait_dequeue_bulk_token where
  "wait_dequeue_bulk_token f T E token mx b =
     with_sema b (\<lambda>s. and_then (waitMany f (sint (mx :: 64 word)) s) (\<lambda>(n, s').
       take_bulk f (\<lambda>mx. token_op (\<lambda>token. try_dequeue_bulk_token T E token mx)) n token (b\<lparr>sema := Some s'\<rparr>)))"

definition wait_dequeue_bulk_timed where
  "wait_dequeue_bulk_timed f T E mx timeout_usecs b =
     with_sema b (\<lambda>s. and_then (waitMany_timed f (sint (mx :: 64 word)) timeout_usecs s) (\<lambda>(n, s').
       take_bulk f (\<lambda>mx. plain_op (try_dequeue_bulk T E mx)) n () (b\<lparr>sema := Some s'\<rparr>)))"

definition wait_dequeue_bulk_timed_token where
  "wait_dequeue_bulk_timed_token f T E token mx timeout_usecs b =
     with_sema b (\<lambda>s. and_then (waitMany_timed f (sint (mx :: 64 word)) timeout_usecs s) (\<lambda>(n, s').
       take_bulk f (\<lambda>mx. token_op (\<lambda>token. try_dequeue_bulk_token T E token mx)) n token (b\<lparr>sema := Some s'\<rparr>)))"

definition wait_dequeue_bulk_timed_for where
  "wait_dequeue_bulk_timed_for f T E mx num den timeout b = wait_dequeue_bulk_timed f T E mx (duration_usecs num den timeout) b"

definition wait_dequeue_bulk_timed_token_for where
  "wait_dequeue_bulk_timed_token_for f T E token mx num den timeout b =
     wait_dequeue_bulk_timed_token f T E token mx (duration_usecs num den timeout) b"

definition blocking_size_approx :: "'d blocking_queue \<Rightarrow> 64 word outcome" where
  "blocking_size_approx b = with_sema b (\<lambda>s. Ret (of_int (availableApprox s)))"

end
