(* ===== verification/CQ_Blocking_Proof.thy ===== *)
theory CQ_Blocking_Proof
  imports CQ_Client CQ_Blocking
begin

text \<open>
  The blocking queue between calls: the semaphore counts the elements in the lanes. So a wait returns
  with an element whenever there is one, and the loops around the inner queue end in their first round.
\<close>

section \<open>Calls\<close>

text \<open>
  The calls the blocking queue has in common with the plain one, and those that wait, with a timeout in
  microseconds where they have one.
\<close>

datatype 'd bcall =
    Client "'d call"
  | Wait
  | Wait_Token nat
  | Wait_Timed int
  | Wait_Timed_Token int nat
  | Wait_Bulk "64 word"
  | Wait_Bulk_Token nat "64 word"
  | Wait_Bulk_Timed int "64 word"
  | Wait_Bulk_Timed_Token int nat "64 word"

fun call_of :: "'d bcall \<Rightarrow> 'd call" where
  "call_of (Client c) = c"
| "call_of Wait = Dequeue"
| "call_of (Wait_Token k) = Dequeue_Token k"
| "call_of (Wait_Timed t) = Dequeue"
| "call_of (Wait_Timed_Token t k) = Dequeue_Token k"
| "call_of (Wait_Bulk mx) = Dequeue_Bulk mx"
| "call_of (Wait_Bulk_Token k mx) = Dequeue_Bulk_Token k mx"
| "call_of (Wait_Bulk_Timed t mx) = Dequeue_Bulk mx"
| "call_of (Wait_Bulk_Timed_Token t k mx) = Dequeue_Bulk_Token k mx"

text \<open>A negative timeout is none. Nobody waits for zero elements.\<close>

fun waits :: "'d bcall \<Rightarrow> bool" where
  "waits (Client c) \<longleftrightarrow> False"
| "waits Wait \<longleftrightarrow> True"
| "waits (Wait_Token k) \<longleftrightarrow> True"
| "waits (Wait_Timed t) \<longleftrightarrow> t < 0"
| "waits (Wait_Timed_Token t k) \<longleftrightarrow> t < 0"
| "waits (Wait_Bulk mx) \<longleftrightarrow> mx \<noteq> 0"
| "waits (Wait_Bulk_Token k mx) \<longleftrightarrow> mx \<noteq> 0"
| "waits (Wait_Bulk_Timed t mx) \<longleftrightarrow> t < 0 \<and> mx \<noteq> 0"
| "waits (Wait_Bulk_Timed_Token t k mx) \<longleftrightarrow> t < 0 \<and> mx \<noteq> 0"

text \<open>The calls that take several elements and the number they ask for.\<close>

definition asks :: "'d bcall \<Rightarrow> 64 word option" where
  "asks c = (case call_of c of Dequeue_Bulk mx \<Rightarrow> Some mx | Dequeue_Bulk_Token k mx \<Rightarrow> Some mx | _ \<Rightarrow> None)"

text \<open>
  The blocking queue has no calls on a single producer and none that go through the producers in order. The
  semaphore counts in a signed type and asserts that it is asked for a count that is not negative.
\<close>

definition offered :: "'d bcall \<Rightarrow> bool" where
  "offered c \<longleftrightarrow> (case call_of c of Dequeue_In_Order \<Rightarrow> False | Dequeue_From t \<Rightarrow> False | Dequeue_Bulk_From t mx \<Rightarrow> False | _ \<Rightarrow> True) \<and>
     (case asks c of None \<Rightarrow> True | Some mx \<Rightarrow> unat mx < 2 ^ 63)"

text \<open>An answer that brings no element.\<close>

definition empty_handed :: "'d answer \<Rightarrow> bool" where
  "empty_handed a \<longleftrightarrow> (case a of Delivered r \<Rightarrow> (case r of Val None \<Rightarrow> True | _ \<Rightarrow> False) | Delivered_Bulk r els \<Rightarrow> r = Val 0 | _ \<Rightarrow> False)"

lemma empty_handed_simps [simp]: "empty_handed (Delivered r) \<longleftrightarrow> r = Val None" "empty_handed (Delivered_Bulk n els) \<longleftrightarrow> n = Val 0"
  by (auto simp: empty_handed_def split: xres.split option.split)

fun do_bcall ::
  "nat \<Rightarrow> traits \<Rightarrow> 'd elem_ops \<Rightarrow> 'd bcall \<Rightarrow> 'd blocking_queue \<times> ConsumerToken list \<Rightarrow>
   ('d answer \<times> 'd blocking_queue \<times> ConsumerToken list) outcome" where
  "do_bcall f T E (Client (Enqueue mode tid x)) (b, ts) =
     and_then (if mode = CanAlloc then blocking_enqueue False T E tid x b else blocking_try_enqueue False T E tid x b)
       (\<lambda>(r, b'). Ret (accepted r, b', ts))"
| "do_bcall f T E (Client (Enqueue_Token mode t x)) (b, ts) =
     and_then (token_valid t (inner b)) (\<lambda>v. if \<not> v then Ret (Refused, b, ts)
       else and_then (if mode = CanAlloc then blocking_enqueue_token T E t x b else blocking_try_enqueue_token T E t x b)
         (\<lambda>(r, b'). Ret (accepted r, b', ts)))"
| "do_bcall f T E (Client Dequeue) (b, ts) = and_then (blocking_try_dequeue f T E b) (\<lambda>(r, _, b'). Ret (Delivered r, b', ts))"
| "do_bcall f T E (Client (Dequeue_Token k)) (b, ts) =
     and_then (nth_out ts k) (\<lambda>tok. and_then (blocking_try_dequeue_token f T E tok b) (\<lambda>(r, tok', b'). Ret (Delivered r, b', ts[k := tok'])))"
| "do_bcall f T E (Client (Enqueue_Bulk mode tid xs)) (b, ts) =
     and_then (if mode = CanAlloc then blocking_enqueue_bulk False T E tid xs b else blocking_try_enqueue_bulk False T E tid xs b)
       (\<lambda>(r, b'). Ret (accepted r, b', ts))"
| "do_bcall f T E (Client (Dequeue_Bulk mx)) (b, ts) =
     and_then (blocking_try_dequeue_bulk f T E mx b) (\<lambda>((r, els), _, b'). Ret (Delivered_Bulk r els, b', ts))"
| "do_bcall f T E (Client (Dequeue_Bulk_Token k mx)) (b, ts) =
     and_then (nth_out ts k) (\<lambda>tok. and_then (blocking_try_dequeue_bulk_token f T E tok mx b)
       (\<lambda>((r, els), tok', b'). Ret (Delivered_Bulk r els, b', ts[k := tok'])))"
| "do_bcall f T E (Client Size) (b, ts) = and_then (blocking_size_approx b) (\<lambda>n. Ret (Number n, b, ts))"
| "do_bcall f T E (Client c) (b, ts) = and_then (do_call T E c (inner b, ts)) (\<lambda>(a, q', ts'). Ret (a, b\<lparr>inner := q'\<rparr>, ts'))"
| "do_bcall f T E Wait (b, ts) = and_then (wait_dequeue f T E b) (\<lambda>(r, _, b'). Ret (Delivered (some_of r), b', ts))"
| "do_bcall f T E (Wait_Token k) (b, ts) =
     and_then (nth_out ts k) (\<lambda>tok. and_then (wait_dequeue_token f T E tok b) (\<lambda>(r, tok', b'). Ret (Delivered (some_of r), b', ts[k := tok'])))"
| "do_bcall f T E (Wait_Timed t) (b, ts) = and_then (wait_dequeue_timed f T E t b) (\<lambda>(r, _, b'). Ret (Delivered r, b', ts))"
| "do_bcall f T E (Wait_Timed_Token t k) (b, ts) =
     and_then (nth_out ts k) (\<lambda>tok. and_then (wait_dequeue_timed_token f T E t tok b) (\<lambda>(r, tok', b'). Ret (Delivered r, b', ts[k := tok'])))"
| "do_bcall f T E (Wait_Bulk mx) (b, ts) =
     and_then (wait_dequeue_bulk f T E mx b) (\<lambda>((r, els), _, b'). Ret (Delivered_Bulk r els, b', ts))"
| "do_bcall f T E (Wait_Bulk_Token k mx) (b, ts) =
     and_then (nth_out ts k) (\<lambda>tok. and_then (wait_dequeue_bulk_token f T E tok mx b)
       (\<lambda>((r, els), tok', b'). Ret (Delivered_Bulk r els, b', ts[k := tok'])))"
| "do_bcall f T E (Wait_Bulk_Timed t mx) (b, ts) =
     and_then (wait_dequeue_bulk_timed f T E mx t b) (\<lambda>((r, els), _, b'). Ret (Delivered_Bulk r els, b', ts))"
| "do_bcall f T E (Wait_Bulk_Timed_Token t k mx) (b, ts) =
     and_then (nth_out ts k) (\<lambda>tok. and_then (wait_dequeue_bulk_timed_token f T E tok mx t b)
       (\<lambda>((r, els), tok', b'). Ret (Delivered_Bulk r els, b', ts[k := tok'])))"

fun do_bcalls ::
  "nat \<Rightarrow> traits \<Rightarrow> 'd elem_ops \<Rightarrow> 'd bcall list \<Rightarrow> 'd blocking_queue \<times> ConsumerToken list \<Rightarrow>
   ('d answer list \<times> 'd blocking_queue \<times> ConsumerToken list) outcome" where
  "do_bcalls f T E [] s = Ret ([], s)"
| "do_bcalls f T E (c # cs) s =
     and_then (do_bcall f T E c s) (\<lambda>(a, s'). and_then (do_bcalls f T E cs s') (\<lambda>(as, s''). Ret (a # as, s'')))"

section \<open>The semaphore counts the elements\<close>

definition elements :: "'d lane_state \<Rightarrow> nat" where
  "elements A = sum_list (map length (lane A))"

definition counted :: "'d blocking_queue \<Rightarrow> 'd lane_state \<Rightarrow> bool" where
  "counted b A \<longleftrightarrow> (\<exists>s. sema b = Some s \<and> lws_idle s \<and> m_count s = int (elements A))"

definition bclient_ok ::
  "traits \<Rightarrow> 'd elem_ops \<Rightarrow> nat list \<Rightarrow> nat \<Rightarrow> 'd blocking_queue \<times> ConsumerToken list \<Rightarrow> 'd lane_state \<Rightarrow> bool" where
  "bclient_ok T E alive k s A \<longleftrightarrow> client_ok T E alive k (inner (fst s), snd s) A \<and> counted (fst s) A"

lemma elements_0: "elements A = 0 \<longleftrightarrow> (\<forall>xs \<in> set (lane A). xs = [])"
  by (auto simp: elements_def)

lemma elements_update: "i < length (lane A) \<Longrightarrow> elements (A\<lparr>lane := (lane A)[i := ys]\<rparr>) + length (lane A ! i) = elements A + length ys"
  by (simp add: elements_def lanes_update)

lemma elements_push: "i < length (lane A) \<Longrightarrow> elements (push i xs A) = elements A + length xs"
  using elements_update [of i A "lane A ! i @ xs"] by (simp add: push_def)

lemma elements_pop:
  assumes "pops E A (Delivered r) A'"
  shows "r = Val None \<and> A' = A \<and> elements A = 0 \<or> r \<noteq> Val None \<and> elements A = Suc (elements A')"
proof -
  obtain xss where t: "takes E {..<length (lane A)} (lane A) r xss" "A' = A\<lparr>lane := xss\<rparr>" using assms by (auto simp: pops_def)
  from t(1) consider "r = Val None" "xss = lane A" "\<forall>i < length (lane A). lane A ! i = []"
    | i where "i < length (lane A)" "lane A ! i \<noteq> []" "r = front_of E (lane A ! i)" "xss = (lane A)[i := tl (lane A ! i)]"
    by (auto simp: takes_def)
  then show ?thesis
  proof cases
    case 1
    then show ?thesis using t(2) by (auto simp: elements_0 in_set_conv_nth)
  next
    case 2
    then show ?thesis using elements_update [of i A "tl (lane A ! i)"] t(2) by (cases "lane A ! i") auto
  qed
qed

lemma bclient_okD:
  assumes "bclient_ok T E alive k (b, ts) A"
  shows "client_ok T E alive k (inner b, ts) A" "\<exists>s. sema b = Some s \<and> lws_idle s \<and> m_count s = int (elements A)"
  using assms by (auto simp: bclient_ok_def counted_def)

text \<open>One call refines its abstract counterpart, or it waits and there is nothing to wait for.\<close>

definition brefines ::
  "nat \<Rightarrow> traits \<Rightarrow> 'd elem_ops \<Rightarrow> 'd blocking_queue \<times> ConsumerToken list \<Rightarrow> 'd lane_state \<Rightarrow> 'd bcall \<Rightarrow> 'd call list \<Rightarrow> bool" where
  "brefines f T E s A c cs \<longleftrightarrow>
     (\<exists>a s' A' alive' k'. do_bcall f T E c s = Ret (a, s') \<and> serves E A (call_of c) a A' \<and> (waits c \<longrightarrow> \<not> empty_handed a) \<and>
        bclient_ok T E alive' k' s' A' \<and> legal alive' k' cs \<and> nprods (inner (fst s')) \<le> Suc (nprods (inner (fst s)))) \<or>
     waits c \<and> elements A = 0 \<and> do_bcall f T E c s = Blocked"

lemma brefinesI:
  assumes "do_bcall f T E c (b, ts) = Ret (a, b', ts')" and "serves E A (call_of c) a A'" and "waits c \<Longrightarrow> \<not> empty_handed a"
    and "bclient_ok T E alive' k' (b', ts') A'" and "legal alive' k' cs" and "nprods (inner b') \<le> Suc (nprods (inner b))"
  shows "brefines f T E (b, ts) A c cs"
  unfolding brefines_def using assms
  by (intro disjI1 exI [of _ a] exI [of _ "(b', ts')"] exI [of _ A'] exI [of _ alive'] exI [of _ k']) simp

text \<open>What the inner queue does for a call that it shares.\<close>

lemma inner_call:
  assumes "refines_call T E (q, ts) A c cs"
  obtains a q' ts' A' alive' k' where "do_call T E c (q, ts) = Ret (a, q', ts')" "serves E A c a A'" "client_ok T E alive' k' (q', ts') A'"
    "legal alive' k' cs" "nprods q' \<le> Suc (nprods q)"
  using assms by (auto simp: refines_call_def)

lemma counted_same: "counted b A \<Longrightarrow> elements A' = elements A \<Longrightarrow> counted (b\<lparr>inner := q\<rparr>) A'"
  by (simp add: counted_def)

lemma signalling_counts:
  assumes b: "counted b A" and op: "op (inner b) = Ret (Val ok, q')" and A': "elements A' = (if ok then elements A + n else elements A)"
  shows "\<exists>b'. signalling (int n) op b = Ret (Val ok, b') \<and> inner b' = q' \<and> counted b' A'"
proof -
  obtain s where s: "sema b = Some s" "lws_idle s" "m_count s = int (elements A)" using b by (auto simp: counted_def)
  have "lws_signal (int n) s = s\<lparr>m_count := m_count s + int n\<rparr>" using lws_signal_idle [OF s(2), of "int n"] by simp
  with s op A' show ?thesis by (cases ok) (auto simp: signalling_def with_sema_def counted_def lws_idle_def)
qed

lemma take_one_first:
  assumes "op (t, inner b) = Ret (r, t', q')" and "r \<noteq> Val None" and "0 < f"
  shows "\<exists>r1. take_one f op t b = Ret (r1, t', b\<lparr>inner := q'\<rparr>) \<and> some_of r1 = r"
  using assms by (cases f) (auto simp: take_one_def some_of_def split: xres.split option.split)

lemma lws_wait_timed_idle_forever:
  "lws_idle s \<Longrightarrow> t < 0 \<Longrightarrow> lws_wait_timed f t s = (if 0 < m_count s then Ret (True, s\<lparr>m_count := m_count s - 1\<rparr>) else Blocked)"
  by (auto simp: lws_idle_def lws_wait_timed_def tryWait_def Let_def waitWithPartialSpinning_def spin_wait_eq)

text \<open>The calls that take one element: from an empty queue, and from one with an element in front.\<close>

lemma take_from_empty:
  assumes b: "counted b A" and "elements A = 0" and f: "0 < f"
  shows "try_then_take f op t b = Ret (Val None, t, b)" "wait_then_take f op t b = Blocked"
    "wait_timed_then_take f op usecs t b = (if usecs < 0 then Blocked else Ret (Val None, t, b))"
proof -
  obtain s where s: "sema b = Some s" "lws_idle s" "m_count s = 0" using assms(1,2) by (auto simp: counted_def)
  have same: "b\<lparr>sema := Some s\<rparr> = b" using s(1) by simp
  show "try_then_take f op t b = Ret (Val None, t, b)" using s same by (simp add: try_then_take_def with_sema_def tryWait_def)
  show "wait_then_take f op t b = Blocked" using s f lws_wait_idle [OF s(2)] by (cases f) (simp_all add: wait_then_take_def with_sema_def)
  show "wait_timed_then_take f op usecs t b = (if usecs < 0 then Blocked else Ret (Val None, t, b))"
    using s same f lws_wait_timed_idle [OF s(2), of usecs f] lws_wait_timed_idle_forever [OF s(2), of usecs f]
    by (simp add: wait_timed_then_take_def with_sema_def)
qed

lemma take_from_nonempty:
  assumes b: "counted b A" and n: "elements A = Suc (elements A')" and op: "op (t, inner b) = Ret (r, t', q')" "r \<noteq> Val None" and f: "0 < f"
  shows "\<exists>b' r1. try_then_take f op t b = Ret (r, t', b') \<and> wait_then_take f op t b = Ret (r1, t', b') \<and> some_of r1 = r \<and>
    wait_timed_then_take f op usecs t b = Ret (r, t', b') \<and> inner b' = q' \<and> counted b' A'"
proof -
  obtain s where s: "sema b = Some s" "lws_idle s" "m_count s = int (elements A)" using b by (auto simp: counted_def)
  let ?s = "s\<lparr>m_count := m_count s - 1\<rparr>"
  let ?b = "b\<lparr>sema := Some ?s\<rparr>"
  have pos: "0 < m_count s" using s(3) n by simp
  have "op (t, inner ?b) = Ret (r, t', q')" using op(1) by simp
  from take_one_first [of op t ?b r t' q' f, OF this op(2) f] obtain r1 where r1: "take_one f op t ?b = Ret (r1, t', ?b\<lparr>inner := q'\<rparr>)" "some_of r1 = r" by blast
  have "try_then_take f op t b = Ret (r, t', ?b\<lparr>inner := q'\<rparr>)" using s pos r1 by (simp add: try_then_take_def with_sema_def tryWait_def)
  moreover have "wait_then_take f op t b = Ret (r1, t', ?b\<lparr>inner := q'\<rparr>)"
    using s(1) r1 f lws_wait_idle [OF s(2)] pos by (cases f) (simp_all add: wait_then_take_def with_sema_def)
  moreover have "wait_timed_then_take f op usecs t b = Ret (r, t', ?b\<lparr>inner := q'\<rparr>)"
    using s(1) r1 f lws_wait_timed_idle [OF s(2), of usecs f] lws_wait_timed_idle_forever [OF s(2), of usecs f] pos
    by (cases "usecs < 0") (simp_all add: wait_timed_then_take_def with_sema_def)
  moreover have "counted (?b\<lparr>inner := q'\<rparr>) A'" using s n by (simp add: counted_def lws_idle_def)
  ultimately show ?thesis using r1(2) by (intro exI [of _ "?b\<lparr>inner := q'\<rparr>"] exI [of _ r1]) simp
qed

section \<open>Each call\<close>

lemma accepted_run:
  "and_then o1 (\<lambda>(r, q'). Ret (accepted r, q', ts)) = Ret (Accepted ok, q', ts') \<longleftrightarrow> o1 = Ret (Val ok, q') \<and> ts' = ts"
  by (cases o1) (auto simp: accepted_def split: xres.splits)

lemma enqueue_elements:
  assumes s: "serves E A c a A'" and A: "lane_ok A"
    and c: "c = Enqueue mode tid x \<and> xs = [x] \<or> c = Enqueue_Token mode t x \<and> xs = [x] \<or> c = Enqueue_Bulk mode tid xs"
  shows "elements A' = (if a = Accepted True then elements A + length xs else elements A)"
proof -
  have new: "elements (new_lane tid A) = elements A" by (simp add: elements_def)
  have pu: "elements A' = (if a = Accepted True then elements B + length xs else elements B)" if "pushes i xs B a A'" "i < length (lane B)" for i B
    using that elements_push [of i B xs] by (auto simp: pushes_def)
  have ow: "owner A t = Some i \<Longrightarrow> i < length (lane A)" "token A u = Some (Some i) \<Longrightarrow> i < length (lane A)" for t u i using A by (auto simp: lane_ok_def)
  show ?thesis
  proof (cases "c = Enqueue_Token mode t x")
    case True
    then show ?thesis using c s pu [of _ A] ow(2) by (auto split: option.splits)
  next
    case False
    then obtain r A1 where f: "finds tid A r A1" "case r of None \<Rightarrow> a = Accepted False \<and> A' = A1 | Some i \<Rightarrow> pushes i xs A1 a A'" using s c by auto
    have "elements A1 = elements A" "\<And>i. r = Some i \<Longrightarrow> i < length (lane A1)" using f(1) new ow(1) by (auto simp: finds_def split: option.splits)
    then show ?thesis using f(2) pu [of _ A1] by (cases r) auto
  qed
qed

lemma bstep_signals:
  assumes B: "bclient_ok T E alive k (b, ts) A" and inner: "refines_call T E (inner b, ts) A d cs"
    and d: "d = Enqueue mode tid x \<and> xs = [x] \<or> d = Enqueue_Token mode t x \<and> xs = [x] \<and> token A t = Some (Some j) \<or> d = Enqueue_Bulk mode tid xs"
    and run: "do_call T E d (inner b, ts) = and_then (op (inner b)) (\<lambda>(r, q'). Ret (accepted r, q', ts))"
    and brun: "do_bcall f T E (Client d) (b, ts) = and_then (signalling (int (length xs)) op b) (\<lambda>(r, b'). Ret (accepted r, b', ts))"
  shows "brefines f T E (b, ts) A (Client d) cs"
proof -
  note R = client_okD(1) [OF bclient_okD(1) [OF B]]
  obtain a q' ts' A' alive' k' where i: "do_call T E d (inner b, ts) = Ret (a, q', ts')" "serves E A d a A'"
    "client_ok T E alive' k' (q', ts') A'" "legal alive' k' cs" "nprods q' \<le> Suc (nprods (inner b))" by (rule inner_call [OF inner])
  have "a = Accepted True \<or> a = Accepted False" using i(2) d by (auto simp: pushes_def split: option.splits)
  then obtain ok where a: "a = Accepted ok" by blast
  have op: "op (inner b) = Ret (Val ok, q')" "ts' = ts" using i(1) unfolding run a by (simp_all add: accepted_run)
  have "elements A' = (if ok then elements A + length xs else elements A)"
    using enqueue_elements [OF i(2) reprD(4) [OF R], of mode tid x xs t] d a by auto
  from signalling_counts [of b A op ok q' A', OF _ op(1) this] B
  obtain b' where b': "signalling (int (length xs)) op b = Ret (Val ok, b')" "inner b' = q'" "counted b' A'" by (auto simp: bclient_ok_def)
  have "do_bcall f T E (Client d) (b, ts) = Ret (a, b', ts)" unfolding brun b'(1) a by (simp add: accepted_def)
  then show ?thesis using i op(2) b' by (intro brefinesI) (auto simp: bclient_ok_def)
qed

lemma bstep_enqueue:
  assumes B: "bclient_ok T E alive k (b, ts) A" and n: "nprods (inner b) < 2 ^ 32" and l: "legal alive k (Enqueue mode tid x # cs)"
  shows "brefines f T E (b, ts) A (Client (Enqueue mode tid x)) cs"
  by (rule bstep_signals [OF B step_enqueue [OF bclient_okD(1) [OF B] n l], where xs = "[x]" and mode = mode and tid = tid and x = x and
        op = "if mode = CanAlloc then enqueue False T E tid x else try_enqueue False T E tid x"])
     (simp_all add: blocking_enqueue_def blocking_try_enqueue_def)

lemma bstep_enqueue_token:
  assumes B: "bclient_ok T E alive k (b, ts) A" and l: "legal alive k (Enqueue_Token mode t x # cs)"
  shows "brefines f T E (b, ts) A (Client (Enqueue_Token mode t x)) cs"
proof -
  note C = bclient_okD(1) [OF B]
  note R = client_okD(1) [OF C]
  obtain p where p: "token A t = Some p" using client_okD(3) [OF C, of t] l by auto
  show ?thesis
  proof (cases p)
    case None
    then show ?thesis using B l p reprD(5) [OF R] by (intro brefinesI [of f T E _ b ts Refused b ts A A]) (auto simp: token_valid_def)
  next
    case (Some j)
    have v: "token_valid t (inner b) = Ret True" using p Some reprD(5) [OF R] by (simp add: token_valid_def)
    show ?thesis
      by (rule bstep_signals [OF B step_enqueue_token [OF C l], where xs = "[x]" and mode = mode and t = t and x = x and j = j and
            op = "if mode = CanAlloc then enqueue_token T E t x else try_enqueue_token T E t x"])
         (use p Some v in \<open>simp_all add: blocking_enqueue_token_def blocking_try_enqueue_token_def\<close>)
  qed
qed

lemma sint_small:
  assumes "unat (w :: 64 word) < 2 ^ 63"
  shows "sint w = int (unat w)"
proof -
  have "int (unat w) < int (2 ^ 63)" using assms by (simp only: of_nat_less_iff)
  then have "uint w < 2 ^ 63" by simp
  moreover have "- (2 ^ 63) \<le> uint w" by (rule order.trans [OF _ uint_ge_0]) simp
  ultimately show ?thesis by (simp add: sint_uint signed_take_bit_int_eq_self)
qed

lemma bstep_enqueue_bulk:
  assumes B: "bclient_ok T E alive k (b, ts) A" and n: "nprods (inner b) < 2 ^ 32" and l: "legal alive k (Enqueue_Bulk mode tid xs # cs)"
  shows "brefines f T E (b, ts) A (Client (Enqueue_Bulk mode tid xs)) cs"
proof -
  have "length xs < 2 ^ 63" using l by simp
  then have "unat (of_nat (length xs) :: 64 word) = length xs" by (intro unat_of_nat_64) simp
  then have "sint (of_nat (length xs) :: 64 word) = int (length xs)" using sint_small [of "of_nat (length xs)"] l by simp
  then show ?thesis
    by (intro bstep_signals [OF B step_enqueue_bulk [OF bclient_okD(1) [OF B] n l], where xs = xs and mode = mode and tid = tid and
        op = "if mode = CanAlloc then enqueue_bulk False T E tid xs else try_enqueue_bulk False T E tid xs"])
       (simp_all add: blocking_enqueue_bulk_def blocking_try_enqueue_bulk_def)
qed

text \<open>The calls that take an element, with and without consumer token: \<open>put\<close> stores the token back.\<close>

definition takes_by ::
  "nat \<Rightarrow> traits \<Rightarrow> 'd elem_ops \<Rightarrow> ('t \<times> 'd queue \<Rightarrow> ('d option xres \<times> 't \<times> 'd queue) outcome) \<Rightarrow> 't \<Rightarrow> ('t \<Rightarrow> ConsumerToken list) \<Rightarrow>
   int \<Rightarrow> 'd bcall \<Rightarrow> 'd blocking_queue \<times> ConsumerToken list \<Rightarrow> bool" where
  "takes_by f T E op t put usecs c s \<longleftrightarrow>
     do_bcall f T E c s = and_then (try_then_take f op t (fst s)) (\<lambda>(r, t', b'). Ret (Delivered r, b', put t')) \<and> \<not> waits c \<or>
     do_bcall f T E c s = and_then (wait_then_take f op t (fst s)) (\<lambda>(r, t', b'). Ret (Delivered (some_of r), b', put t')) \<and> waits c \<or>
     do_bcall f T E c s = and_then (wait_timed_then_take f op usecs t (fst s)) (\<lambda>(r, t', b'). Ret (Delivered r, b', put t')) \<and> (waits c \<longleftrightarrow> usecs < 0)"

lemma bstep_takes_by:
  assumes B: "bclient_ok T E alive k (b, ts) A" and f: "0 < f" and via: "takes_by f T E op t put usecs c (b, ts)" and ts: "put t = ts"
    and op: "op (t, inner b) = Ret (r, t', q')" and P: "pops E A (Delivered r) A'"
    and call: "\<And>a A'. pops E A a A' \<Longrightarrow> serves E A (call_of c) a A'"
    and C': "client_ok T E alive' k' (q', put t') A'" and l: "legal alive k cs" "legal alive' k' cs" and n: "nprods q' \<le> Suc (nprods (inner b))"
  shows "brefines f T E (b, ts) A c cs"
proof -
  have cnt: "counted b A" using B by (simp add: bclient_ok_def)
  from elements_pop [OF P] show ?thesis
  proof
    assume e: "r = Val None \<and> A' = A \<and> elements A = 0"
    note E = take_from_empty [where op = op and t = t, OF cnt _ f]
    show ?thesis
    proof (cases "waits c")
      case True
      then have "do_bcall f T E c (b, ts) = Blocked" using e E via by (auto simp: takes_by_def)
      then show ?thesis using e True by (simp add: brefines_def)
    next
      case False
      then have "do_bcall f T E c (b, ts) = Ret (Delivered (Val None), b, ts)" using e E via ts by (auto simp: takes_by_def)
      moreover have "serves E A (call_of c) (Delivered (Val None)) A" using P e by (intro call) simp
      ultimately show ?thesis using False B l by (intro brefinesI [of f T E c b ts _ b ts A A alive k]) auto
    qed
  next
    assume e: "r \<noteq> Val None \<and> elements A = Suc (elements A')"
    then obtain b' r1 where b': "try_then_take f op t b = Ret (r, t', b')" "wait_then_take f op t b = Ret (r1, t', b')" "some_of r1 = r"
      "wait_timed_then_take f op usecs t b = Ret (r, t', b')" "inner b' = q'" "counted b' A'"
      using take_from_nonempty [of b A A' op t r t' q' f usecs, OF cnt _ op _ f] by blast
    then have "do_bcall f T E c (b, ts) = Ret (Delivered r, b', put t')" using via by (auto simp: takes_by_def)
    then show ?thesis using call [OF P] C' l n b' e
      by (intro brefinesI [of f T E c b ts "Delivered r" b' "put t'" A A' alive' k']) (auto simp: bclient_ok_def)
  qed
qed

lemma bstep_take:
  assumes B: "bclient_ok T E alive k (b, ts) A" and f: "0 < f" and l: "legal alive k (Dequeue # cs)"
    and c: "c = Client Dequeue \<or> c = Wait \<or> c = Wait_Timed usecs"
  shows "brefines f T E (b, ts) A c cs"
proof -
  note C = bclient_okD(1) [OF B]
  note R = client_okD(1) [OF C]
  obtain r q' xss where d: "try_dequeue T E (inner b) = Ret (r, q')" "takes E {..<nprods (inner b)} (lane A) r xss" "queue_inv T E q' xss"
    "same_shape q' (inner b)" using try_dequeue_spec [OF reprD(1) [OF R]] by blast
  note P = pops_repr [OF R d(2-4)] and n = same_shape_fields(3) [OF d(4)]
  have "client_ok T E alive k (q', ts) (A\<lparr>lane := xss\<rparr>)" using n by (intro client_ok_same [OF C P(2)]) auto
  moreover have "plain_op (try_dequeue T E) ((), inner b) = Ret (r, (), q')" using d(1) by (simp add: plain_op_def)
  moreover have "takes_by f T E (plain_op (try_dequeue T E)) () (\<lambda>_. ts) usecs c (b, ts)"
    using c by (auto simp: takes_by_def blocking_try_dequeue_def wait_dequeue_def wait_dequeue_timed_def)
  ultimately show ?thesis using P(1) c l n
    by (intro bstep_takes_by [OF B f, where op = "plain_op (try_dequeue T E)" and t = "()" and put = "\<lambda>_. ts" and q' = q' and r = r]) auto
qed

lemma bstep_take_token:
  assumes B: "bclient_ok T E alive k (b, ts) A" and f: "0 < f" and n: "nprods (inner b) < 2 ^ 32" and l: "legal alive k (Dequeue_Token j # cs)"
    and c: "c = Client (Dequeue_Token j) \<or> c = Wait_Token j \<or> c = Wait_Timed_Token usecs j"
  shows "brefines f T E (b, ts) A c cs"
proof -
  note C = bclient_okD(1) [OF B]
  have j: "j < length ts" using l client_okD(4) [OF C] by simp
  obtain a q' ts' A' alive' k' where i: "do_call T E (Dequeue_Token j) (inner b, ts) = Ret (a, q', ts')"
    "serves E A (Dequeue_Token j) a A'" "client_ok T E alive' k' (q', ts') A'" "legal alive' k' cs" "nprods q' \<le> Suc (nprods (inner b))"
    by (rule inner_call [OF step_dequeue_token [OF C n l]])
  from i(1) j obtain r tok where r: "token_op (try_dequeue_token T E) (ts ! j, inner b) = Ret (r, tok, q')" "a = Delivered r" "ts' = ts[j := tok]"
    by (auto simp: and_then_eq_Ret token_op_def nth_out_def)
  have "takes_by f T E (token_op (try_dequeue_token T E)) (ts ! j) (\<lambda>tok. ts[j := tok]) usecs c (b, ts)"
    using c j by (auto simp: takes_by_def blocking_try_dequeue_token_def wait_dequeue_token_def wait_dequeue_timed_token_def nth_out_def)
  then show ?thesis using i r c l j
    by (intro bstep_takes_by [OF B f, where op = "token_op (try_dequeue_token T E)" and t = "ts ! j" and put = "\<lambda>tok. ts[j := tok]" and q' = q' and r = r])
       auto
qed

text \<open>
  The calls that take several elements: \<open>acquire\<close> is what they ask the semaphore, and the inner queue is asked
  for as many elements as it gave units.
\<close>

fun acquire :: "nat \<Rightarrow> 'd bcall \<Rightarrow> int \<Rightarrow> LightweightSemaphore \<Rightarrow> (int \<times> LightweightSemaphore) outcome" where
  "acquire f (Wait_Bulk mx) n s = waitMany f n s"
| "acquire f (Wait_Bulk_Token k mx) n s = waitMany f n s"
| "acquire f (Wait_Bulk_Timed t mx) n s = waitMany_timed f n t s"
| "acquire f (Wait_Bulk_Timed_Token t k mx) n s = waitMany_timed f n t s"
| "acquire f c n s = Ret (tryWaitMany n s)"

lemma acquire_idle:
  assumes c: "asks c = Some mx" and mx: "unat mx < 2 ^ 63" and f: "0 < f" and s: "lws_idle s" "m_count s = int k"
  shows "acquire f c (sint mx) s =
    (if waits c \<and> k = 0 then Blocked else Ret (int (min (unat mx) k), s\<lparr>m_count := int k - int (min (unat mx) k)\<rparr>))"
proof -
  define n where "n = unat mx"
  have n: "sint mx = int n" "mx \<noteq> 0 \<longleftrightarrow> n \<noteq> 0" using sint_small [OF mx] by (simp_all add: n_def unat_eq_0)
  have same: "s\<lparr>m_count := int k\<rparr> = s" using s(2) by simp
  have at_once: "tryWaitMany (int n) s = (int (min n k), s\<lparr>m_count := int k - int (min n k)\<rparr>)" using tryWaitMany_idle [OF s(1), of "int n"] s(2) by simp
  have timed: "waitMany_timed f (int n) t s =
      (if (t < 0 \<and> n \<noteq> 0) \<and> k = 0 then Blocked else Ret (int (min n k), s\<lparr>m_count := int k - int (min n k)\<rparr>))" for t
    using waitMany_timed_idle [OF s(1) of_nat_0_le_iff f, of n t] s(2) same by auto
  show ?thesis unfolding n(1) n_def [symmetric] using c at_once timed n(2) by (cases c) (auto simp: asks_def waitMany_def)
qed

lemma asks_serves: "asks c = Some mx \<Longrightarrow> serves E A (call_of c) a A' \<longleftrightarrow> (\<exists>order. visits order (lane A) \<and> drains E mx order A a A')"
  by (auto simp: asks_def split: call.split_asm)

lemma asks_waits: "asks c = Some mx \<Longrightarrow> waits c \<Longrightarrow> mx \<noteq> 0"
  by (cases c) (auto simp: asks_def)

definition takes_many_by ::
  "nat \<Rightarrow> traits \<Rightarrow> 'd elem_ops \<Rightarrow> (64 word \<Rightarrow> 't \<times> 'd queue \<Rightarrow> ((64 word xres \<times> 'd list) \<times> 't \<times> 'd queue) outcome) \<Rightarrow> 't \<Rightarrow>
   ('t \<Rightarrow> ConsumerToken list) \<Rightarrow> 64 word \<Rightarrow> 'd bcall \<Rightarrow> 'd blocking_queue \<times> ConsumerToken list \<Rightarrow> bool" where
  "takes_many_by f T E op t put mx c s \<longleftrightarrow> asks c = Some mx \<and>
     do_bcall f T E c s = with_sema (fst s) (\<lambda>w. and_then (acquire f c (sint mx) w) (\<lambda>(n, w').
       and_then (take_bulk f op n t ((fst s)\<lparr>sema := Some w'\<rparr>)) (\<lambda>((r, els), t', b'). Ret (Delivered_Bulk r els, b', put t'))))"

lemma take_bulk_none: "0 < f \<Longrightarrow> take_bulk f op 0 t b = Ret ((Val 0, []), t, b)"
  by (cases f) (auto simp: take_bulk_def)

lemma take_bulk_first:
  assumes "op w (t, inner b) = Ret ((Val w, els), t', q')" and "w \<noteq> 0" and "1 < f" and "w = of_int n"
  shows "take_bulk f op n t b = Ret ((Val w, els), t', b\<lparr>inner := q'\<rparr>)"
proof -
  obtain g where "f = Suc (Suc g)" using less_imp_Suc_add [OF assms(3)] by auto
  then have "bulk_loop f op w 0 (t, inner b) = Ret ((Val w, els), t', q')" using assms(1,2) by simp
  then show ?thesis using assms(4) by (simp add: take_bulk_def)
qed

lemma and_then_inside: "and_then (with_sema b k) g = with_sema b (\<lambda>s. and_then (k s) g)"
    "and_then (case p of (x, y) \<Rightarrow> h x y) g' = (case p of (x, y) \<Rightarrow> and_then (h x y) g')"
  by (simp_all add: with_sema_def split: option.split prod.split)

lemma drains_units:
  assumes v: "visits order (lane A)" and E: "\<forall>x. \<not> assign_raises E x" and n: "n = min (unat mx) (elements A)"
    and d: "drains E (of_nat n) order A (Delivered_Bulk r els) A'"
  shows "r = Val (of_nat n)" "elements A = elements A' + n" "drains E mx order A (Delivered_Bulk r els) A'"
proof -
  have "n \<le> unat mx" using n by simp
  then have u: "unat (of_nat n :: 64 word) = n" by (rule unat_rest(3))
  obtain threw els' xss where dr: "drain E n order (lane A) = (threw, els', xss)" by (metis prod_cases3)
  note c = drain_counts [OF v E dr]
  have "n \<le> elements A" using n by simp
  then have r: "r = Val (of_nat n)" "els = els'" "A' = A\<lparr>lane := xss\<rparr>" using d dr c by (auto simp: drains_def u counted_as_def elements_def)
  then show "r = Val (of_nat n)" "elements A = elements A' + n" using c \<open>n \<le> elements A\<close> by (auto simp: elements_def)
  have "drain E (unat mx) order (lane A) = drain E n order (lane A)"
    using drain_all [OF v E, of "unat mx"] n by (cases "elements A \<le> unat mx") (simp_all add: elements_def)
  then show "drains E mx order A (Delivered_Bulk r els) A'" using d by (simp add: drains_def u)
qed

lemma bstep_takes_many:
  assumes B: "bclient_ok T E alive k (b, ts) A" and f: "1 < f" and E: "\<forall>x. \<not> assign_raises E x" and mx: "unat mx < 2 ^ 63"
    and via: "takes_many_by f T E op t put mx c (b, ts)" and ts: "put t = ts"
    and n: "n = min (unat mx) (elements A)" and op: "op (of_nat n) (t, inner b) = Ret ((r, els), t', q')"
    and D: "visits order (lane A)" "drains E (of_nat n) order A (Delivered_Bulk r els) A'"
    and C': "client_ok T E alive' k' (q', put t') A'" and l: "legal alive k cs" "legal alive' k' cs" and np: "nprods q' \<le> Suc (nprods (inner b))"
  shows "brefines f T E (b, ts) A c cs"
proof -
  have c: "asks c = Some mx" using via by (simp add: takes_many_by_def)
  obtain s where s: "sema b = Some s" "lws_idle s" "m_count s = int (elements A)" using bclient_okD(2) [OF B] by blast
  let ?s = "s\<lparr>m_count := int (elements A) - int n\<rparr>"
  let ?b = "b\<lparr>sema := Some ?s\<rparr>"
  have acq: "acquire f c (sint mx) s = (if waits c \<and> elements A = 0 then Blocked else Ret (int n, ?s))"
    unfolding n using f by (intro acquire_idle [OF c mx _ s(2,3)]) simp
  have run: "do_bcall f T E c (b, ts) = and_then (take_bulk f op (int n) t ?b) (\<lambda>((r, els), t', b'). Ret (Delivered_Bulk r els, b', put t'))"
    if "\<not> (waits c \<and> elements A = 0)" using via acq s(1) that by (auto simp: takes_many_by_def with_sema_def)
  have "n = 0 \<longleftrightarrow> mx = 0 \<or> elements A = 0" using n by (auto simp: min_def unat_eq_0)
  then consider (block) "waits c" "elements A = 0" | (none) "\<not> waits c" "n = 0" | (some) "n \<noteq> 0"
    using asks_waits [OF c] by (cases "n = 0"; cases "waits c") auto
  then show ?thesis
  proof cases
    case block
    then have "do_bcall f T E c (b, ts) = Blocked" using via acq s(1) by (simp add: takes_many_by_def with_sema_def)
    then show ?thesis using block by (simp add: brefines_def)
  next
    case none
    have same: "?b = b" using s none(2) by simp
    have "do_bcall f T E c (b, ts) = Ret (Delivered_Bulk (Val 0) [], b, ts)"
      using run none take_bulk_none [of f op t b] f ts unfolding same by simp
    moreover have "drain E (unat mx) [0..<length (lane A)] (lane A) = (False, [], lane A)"
      using none(2) n elements_0 [of A] by (intro drain_nothing) (auto simp: min_def split: if_split_asm)
    then have "drains E mx [0..<length (lane A)] A (Delivered_Bulk (Val 0) []) A" by (simp add: drains_def counted_as_def)
    then have "serves E A (call_of c) (Delivered_Bulk (Val 0) []) A"
      unfolding asks_serves [OF c] by (intro exI [of _ "[0..<length (lane A)]"]) (auto simp: visits_def)
    ultimately show ?thesis using none(1) B l by (intro brefinesI [of f T E c b ts _ b ts A A alive k]) auto
  next
    case some
    note U = drains_units [OF D(1) E n D(2)]
    have nz: "(of_nat n :: 64 word) \<noteq> 0" using some n unat_rest(4) [of n mx] by simp
    have "take_bulk f op (int n) t ?b = Ret ((r, els), t', ?b\<lparr>inner := q'\<rparr>)"
      using op unfolding U(1) by (intro take_bulk_first [OF _ nz f]) simp_all
    then have "do_bcall f T E c (b, ts) = Ret (Delivered_Bulk r els, ?b\<lparr>inner := q'\<rparr>, put t')" using run some n by simp
    moreover have "counted (?b\<lparr>inner := q'\<rparr>) A'" using s U(2) by (simp add: counted_def lws_idle_def)
    moreover have "\<not> empty_handed (Delivered_Bulk r els)" using U(1) nz by simp
    moreover have "serves E A (call_of c) (Delivered_Bulk r els) A'" using D(1) U(3) by (auto simp: asks_serves [OF c])
    ultimately show ?thesis using C' l(2) np by (intro brefinesI) (auto simp: bclient_ok_def)
  qed
qed

lemma bstep_take_bulk:
  assumes B: "bclient_ok T E alive k (b, ts) A" and f: "1 < f" and l: "legal alive k (Dequeue_Bulk mx # cs)"
    and E: "\<forall>x. \<not> assign_raises E x" and mx: "unat mx < 2 ^ 63"
    and c: "c = Client (Dequeue_Bulk mx) \<or> c = Wait_Bulk mx \<or> c = Wait_Bulk_Timed usecs mx"
  shows "brefines f T E (b, ts) A c cs"
proof -
  note C = bclient_okD(1) [OF B]
  define n where "n = min (unat mx) (elements A)"
  have "legal alive k (Dequeue_Bulk (of_nat n) # cs)" using l by simp
  from inner_call [OF step_dequeue_bulk [OF C this]] obtain a q' ts' A' alive' k' where
    i: "do_call T E (Dequeue_Bulk (of_nat n)) (inner b, ts) = Ret (a, q', ts')" "serves E A (Dequeue_Bulk (of_nat n)) a A'"
      "client_ok T E alive' k' (q', ts') A'" "legal alive' k' cs" "nprods q' \<le> Suc (nprods (inner b))" by blast
  let ?op = "\<lambda>mx. plain_op (try_dequeue_bulk T E mx)"
  from i(1) obtain r els where r: "?op (of_nat n) ((), inner b) = Ret ((r, els), (), q')" "a = Delivered_Bulk r els" "ts' = ts"
    by (auto simp: and_then_eq_Ret plain_op_def)
  obtain order where o: "visits order (lane A)" "drains E (of_nat n) order A (Delivered_Bulk r els) A'" using i(2) r(2) by auto
  have "takes_many_by f T E ?op () (\<lambda>_. ts) mx c (b, ts)" using c
    by (auto simp: takes_many_by_def asks_def and_then_inside and_then_assoc blocking_try_dequeue_bulk_def wait_dequeue_bulk_def wait_dequeue_bulk_timed_def)
  from bstep_takes_many [OF B f E mx this refl n_def r(1) o _ _ i(4,5)] i(3) r(3) l show ?thesis by simp
qed

lemma bstep_take_bulk_token:
  assumes B: "bclient_ok T E alive k (b, ts) A" and f: "1 < f" and np: "nprods (inner b) < 2 ^ 32" and l: "legal alive k (Dequeue_Bulk_Token j mx # cs)"
    and E: "\<forall>x. \<not> assign_raises E x" and mx: "unat mx < 2 ^ 63"
    and c: "c = Client (Dequeue_Bulk_Token j mx) \<or> c = Wait_Bulk_Token j mx \<or> c = Wait_Bulk_Timed_Token usecs j mx"
  shows "brefines f T E (b, ts) A c cs"
proof -
  note C = bclient_okD(1) [OF B]
  have j: "j < length ts" using l client_okD(4) [OF C] by simp
  define n where "n = min (unat mx) (elements A)"
  have "legal alive k (Dequeue_Bulk_Token j (of_nat n) # cs)" using l by simp
  from inner_call [OF step_dequeue_bulk_token [OF C np this]] obtain a q' ts' A' alive' k' where
    i: "do_call T E (Dequeue_Bulk_Token j (of_nat n)) (inner b, ts) = Ret (a, q', ts')" "serves E A (Dequeue_Bulk_Token j (of_nat n)) a A'"
      "client_ok T E alive' k' (q', ts') A'" "legal alive' k' cs" "nprods q' \<le> Suc (nprods (inner b))" by blast
  let ?op = "\<lambda>mx. token_op (\<lambda>token. try_dequeue_bulk_token T E token mx)"
  from i(1) j obtain r els tok where r: "?op (of_nat n) (ts ! j, inner b) = Ret ((r, els), tok, q')" "a = Delivered_Bulk r els" "ts' = ts[j := tok]"
    by (auto simp: and_then_eq_Ret token_op_def nth_out_def)
  obtain order where o: "visits order (lane A)" "drains E (of_nat n) order A (Delivered_Bulk r els) A'" using i(2) r(2) by auto
  have "takes_many_by f T E ?op (ts ! j) (\<lambda>tok. ts[j := tok]) mx c (b, ts)" using c j
    by (auto simp: takes_many_by_def asks_def nth_out_def and_then_inside and_then_assoc blocking_try_dequeue_bulk_token_def wait_dequeue_bulk_token_def
        wait_dequeue_bulk_timed_token_def)
  from bstep_takes_many [OF B f E mx this _ n_def r(1) o _ _ i(4,5)] i(3) r(3) l show ?thesis by simp
qed

lemma bstep_others:
  assumes B: "bclient_ok T E alive k (b, ts) A" and l: "legal alive k (c # cs)" and n: "nprods (inner b) < 2 ^ 32"
    and c: "c = New_Token t \<or> c = Move_Token t u \<or> c = Swap_Tokens t u \<or> c = Drop_Token t \<or> c = New_Consumer"
  shows "brefines f T E (b, ts) A (Client c) cs"
proof -
  note C = bclient_okD(1) [OF B]
  have "nprods (fst (inner b, ts)) < 2 ^ 32" using n by simp
  from call_step [OF C this l] obtain a q' ts' A' alive' k' where i: "do_call T E c (inner b, ts) = Ret (a, q', ts')" "serves E A c a A'"
    "client_ok T E alive' k' (q', ts') A'" "legal alive' k' cs" "nprods q' \<le> Suc (nprods (inner b))" by (rule inner_call)
  have "elements A' = elements A" using i(2) c by (auto simp: elements_def set_tok_def adopt_def split: option.splits)
  then have "counted (b\<lparr>inner := q'\<rparr>) A'" using B by (intro counted_same) (auto simp: bclient_ok_def)
  moreover have "do_bcall f T E (Client c) (b, ts) = Ret (a, b\<lparr>inner := q'\<rparr>, ts')" using i(1) c by auto
  ultimately show ?thesis using i by (intro brefinesI) (auto simp: bclient_ok_def)
qed

lemma bstep_size:
  assumes B: "bclient_ok T E alive k (b, ts) A" and l: "legal alive k (Size # cs)"
  shows "brefines f T E (b, ts) A (Client Size) cs"
proof -
  obtain s where s: "sema b = Some s" "m_count s = int (elements A)" using bclient_okD(2) [OF B] by blast
  then have "blocking_size_approx b = Ret (of_nat (elements A))"
    by (auto simp: blocking_size_approx_def with_sema_def availableApprox_def)
  then show ?thesis using B l by (intro brefinesI [of f T E _ b ts _ b ts A A alive k]) (auto simp: elements_def)
qed

lemma bcall_step:
  assumes B: "bclient_ok T E alive k s A" and f: "1 < f" and n: "nprods (inner (fst s)) < 2 ^ 32" and l: "legal alive k (call_of c # cs)" and o: "offered c"
    and E: "asks c = None \<or> (\<forall>x. \<not> assign_raises E x)"
  shows "brefines f T E s A c cs"
proof -
  obtain b ts where s: "s = (b, ts)" by (cases s)
  have B: "bclient_ok T E alive k (b, ts) A" and n: "nprods (inner b) < 2 ^ 32" using B n s by auto
  have f0: "0 < f" using f by simp
  have many: "asks c = Some mx \<Longrightarrow> unat mx < 2 ^ 63 \<and> (\<forall>x. \<not> assign_raises E x)" for mx using o E by (simp add: offered_def)
  note one = bstep_take [OF B f0] bstep_take_token [OF B f0 n] and bulk = bstep_take_bulk [OF B f] bstep_take_bulk_token [OF B f n]
    and others = bstep_others [OF B _ n]
  show ?thesis unfolding s
  proof (cases c)
    case (Client d)
    have l: "legal alive k (d # cs)" using l Client by simp
    show "brefines f T E (b, ts) A c cs" unfolding Client
    proof (cases d)
      case (Enqueue mode tid x) then show "brefines f T E (b, ts) A (Client d) cs" using bstep_enqueue [OF B n] l by blast
    next
      case (Enqueue_Token mode t x) then show "brefines f T E (b, ts) A (Client d) cs" using bstep_enqueue_token [OF B] l by blast
    next
      case (Enqueue_Bulk mode tid xs) then show "brefines f T E (b, ts) A (Client d) cs" using bstep_enqueue_bulk [OF B n] l by blast
    next
      case Size then show "brefines f T E (b, ts) A (Client d) cs" using bstep_size [OF B] l by blast
    next
      case Dequeue then show "brefines f T E (b, ts) A (Client d) cs" using one(1) l by blast
    next
      case (Dequeue_Token j) then show "brefines f T E (b, ts) A (Client d) cs" using one(2) l by blast
    next
      case (Dequeue_Bulk mx) then show "brefines f T E (b, ts) A (Client d) cs" using bulk(1) [of mx cs "Client d"] l many Client by (simp add: asks_def)
    next
      case (Dequeue_Bulk_Token j mx) then show "brefines f T E (b, ts) A (Client d) cs" using bulk(2) [of j mx cs "Client d"] l many Client by (simp add: asks_def)
    qed (use Client o in \<open>simp_all add: offered_def\<close>, (rule others, use l in simp, blast)+)
  next
    case Wait then show "brefines f T E (b, ts) A c cs" using one(1) l by simp
  next
    case (Wait_Token j) then show "brefines f T E (b, ts) A c cs" using one(2) [of j] l by (metis call_of.simps)
  next
    case (Wait_Timed usecs) then show "brefines f T E (b, ts) A c cs" using one(1) l by (metis call_of.simps)
  next
    case (Wait_Timed_Token usecs j) then show "brefines f T E (b, ts) A c cs" using one(2) [of j] l by (metis call_of.simps)
  next
    case (Wait_Bulk mx) then show "brefines f T E (b, ts) A c cs" using bulk(1) [of mx cs c] l many by (simp add: asks_def)
  next
    case (Wait_Bulk_Token j mx) then show "brefines f T E (b, ts) A c cs" using bulk(2) [of j mx cs c] l many by (simp add: asks_def)
  next
    case (Wait_Bulk_Timed usecs mx) then show "brefines f T E (b, ts) A c cs" using bulk(1) [of mx cs c usecs] l many by (simp add: asks_def)
  next
    case (Wait_Bulk_Timed_Token usecs j mx)
    then show "brefines f T E (b, ts) A c cs" using bulk(2) [of j mx cs c usecs] l many by (simp add: asks_def)
  qed
qed

section \<open>Sequences of calls\<close>

lemma bcalls_refine:
  "bclient_ok T E alive k s A \<Longrightarrow> 1 < f \<Longrightarrow> nprods (inner (fst s)) + length cs \<le> 2 ^ 32 \<Longrightarrow> legal alive k (map call_of cs) \<Longrightarrow> list_all offered cs \<Longrightarrow>
   list_all (\<lambda>c. asks c = None) cs \<or> (\<forall>x. \<not> assign_raises E x) \<Longrightarrow>
   \<exists>cs1 as s' A'. do_bcalls f T E cs1 s = Ret (as, s') \<and> serves_all E A (map call_of cs1) as A' \<and>
     list_all2 (\<lambda>c a. waits c \<longrightarrow> \<not> empty_handed a) cs1 as \<and> repr T E (inner (fst s')) A' \<and> counted (fst s') A' \<and>
     (cs = cs1 \<or> (\<exists>c cs2. cs = cs1 @ c # cs2 \<and> waits c \<and> elements A' = 0 \<and> do_bcalls f T E cs s = Blocked))"
proof (induction cs arbitrary: alive k s A)
  case Nil
  then show ?case by (intro exI [of _ "[]"] exI [of _ s] exI [of _ A]) (simp add: bclient_ok_def client_ok_def)
next
  case (Cons c cs)
  have n: "nprods (inner (fst s)) < 2 ^ 32" and l: "legal alive k (call_of c # map call_of cs)" and o: "offered c" "list_all offered cs"
    and e: "asks c = None \<or> (\<forall>x. \<not> assign_raises E x)" "list_all (\<lambda>c. asks c = None) cs \<or> (\<forall>x. \<not> assign_raises E x)"
    using Cons.prems by auto
  from bcall_step [OF Cons.prems(1,2) n l o(1) e(1)] show ?case unfolding brefines_def
  proof (elim disjE exE conjE)
    fix a s1 A1 alive1 k1
    assume s1: "do_bcall f T E c s = Ret (a, s1)" "serves E A (call_of c) a A1" "waits c \<longrightarrow> \<not> empty_handed a"
      "bclient_ok T E alive1 k1 s1 A1" "legal alive1 k1 (map call_of cs)" "nprods (inner (fst s1)) \<le> Suc (nprods (inner (fst s)))"
    have "nprods (inner (fst s1)) + length cs \<le> 2 ^ 32" using s1(6) Cons.prems(3) by simp
    from Cons.IH [OF s1(4) Cons.prems(2) this s1(5) o(2) e(2)] obtain cs1 as s' A' where
      r: "do_bcalls f T E cs1 s1 = Ret (as, s')" "serves_all E A1 (map call_of cs1) as A'"
        "list_all2 (\<lambda>c a. waits c \<longrightarrow> \<not> empty_handed a) cs1 as" "repr T E (inner (fst s')) A'" "counted (fst s') A'"
        "cs = cs1 \<or> (\<exists>c cs2. cs = cs1 @ c # cs2 \<and> waits c \<and> elements A' = 0 \<and> do_bcalls f T E cs s1 = Blocked)"
      by (elim exE conjE) (rule that)
    show ?thesis using s1(1-3) r by (intro exI [of _ "c # cs1"] exI [of _ "a # as"] exI [of _ s'] exI [of _ A']) auto
  next
    assume "waits c" "elements A = 0" "do_bcall f T E c s = Blocked"
    then show ?thesis using Cons.prems(1)
      by (intro exI [of _ "[]"] exI [of _ s] exI [of _ A]) (simp add: bclient_ok_def client_ok_def)
  qed
qed

lemma blocking_start:
  assumes T: "traits_ok T" "INITIAL_IMPLICIT_PRODUCER_HASH_SIZE T \<noteq> 0" and E: "\<forall>x. \<not> raises E x" and l: "limit * bsz T < 2 ^ 63"
    and b: "BlockingConcurrentQueue T this cpty (mem_new limit ok) = Ret b"
  shows "bclient_ok T E [] 0 (b, []) no_lanes" "nprods (inner b) = 0"
proof -
  let ?q = "ConcurrentQueue T this cpty (mem_new limit ok)"
  obtain m where m: "malloc (q_mem ?q) = (True, m)" "b = \<lparr>inner = ?q\<lparr>q_mem := m\<rparr>, sema = Some (lws_new 0)\<rparr>"
    using b by (auto simp: BlockingConcurrentQueue_def make_blocking_def split: prod.splits if_splits)
  have R: "repr T E ?q no_lanes" using client_start [OF T E l, of this cpty ok] by (simp add: client_ok_def)
  have "repr T E (?q\<lparr>q_mem := m\<rparr>) no_lanes"
    using malloc_lanes [OF _ m(1), of T E no_lanes] R by (simp add: repr_lanes hash_rel_def hash_tabs_def)
  moreover have "nprods ?q = 0" by (simp add: ConcurrentQueue_def queue_with_blocks_def)
  ultimately show "bclient_ok T E [] 0 (b, []) no_lanes" "nprods (inner b) = 0" using T(2) m(2)
    by (simp_all add: bclient_ok_def client_ok_def counted_def elements_def lws_idle_new no_lanes_def) (simp add: lws_new_def)
qed

text \<open>
  C3. The blocking queue: every legal sequence of calls on a new one, bulk and waiting calls among them, is
  served as by the lanes, with the semaphore always counting the elements. A call that waits returns with an
  element whenever some lane has one, and its loops end; it blocks only when every lane is empty. The other
  calls never block, and a timed wait that finds nothing changes nothing. With bulk dequeues among the calls,
  the assignment of an element must not throw.
\<close>

theorem blocking_queue_refines_lanes:
  assumes "traits_ok T" and "INITIAL_IMPLICIT_PRODUCER_HASH_SIZE T \<noteq> 0" and "\<forall>x. \<not> raises E x" and "limit * bsz T < 2 ^ 63"
    and "BlockingConcurrentQueue T this cpty (mem_new limit ok) = Ret b"
    and "legal [] 0 (map call_of cs)" and "list_all offered cs" and "length cs \<le> 2 ^ 32" and "1 < f"
    and "list_all (\<lambda>c. asks c = None) cs \<or> (\<forall>x. \<not> assign_raises E x)"
  shows "\<exists>cs1 as b' ts A. do_bcalls f T E cs1 (b, []) = Ret (as, b', ts) \<and> serves_all E no_lanes (map call_of cs1) as A \<and>
    list_all2 (\<lambda>c a. waits c \<longrightarrow> \<not> empty_handed a) cs1 as \<and> repr T E (inner b') A \<and> counted b' A \<and>
    (cs = cs1 \<or> (\<exists>c cs2. cs = cs1 @ c # cs2 \<and> waits c \<and> (\<forall>xs \<in> set (lane A). xs = []) \<and> do_bcalls f T E cs (b, []) = Blocked))"
proof -
  note start = blocking_start [OF assms(1-5)]
  have "nprods (inner (fst (b, []))) + length cs \<le> 2 ^ 32" using start(2) assms(8) by simp
  from bcalls_refine [OF start(1) assms(9) this assms(6,7,10)] show ?thesis unfolding elements_0 by auto
qed

definition producer_and_waiter :: "nat bcall list" where
  "producer_and_waiter =
     [Client (Enqueue CanAlloc 8 1), Client (Enqueue CanAlloc 16 2), Wait, Wait_Timed 500, Client Dequeue, Wait_Timed 500,
      Client (Enqueue_Bulk CanAlloc 8 [3, 4, 5]), Client (Enqueue CanAlloc 16 6), Wait_Bulk 3, Client (Dequeue_Bulk 0), Client Size,
      Wait_Bulk_Timed 500 7, Wait_Bulk_Timed 500 7, Wait]"

theorem blocking_queue_refines_lanes_witness:
  "\<exists>b cs1 as b' ts A. BlockingConcurrentQueue small_traits 0 6 (mem_new 100 (\<lambda>_. True)) = Ret b \<and>
    do_bcalls 2 small_traits plain_ops cs1 (b, []) = Ret (as, b', ts) \<and> serves_all plain_ops no_lanes (map call_of cs1) as A \<and>
    list_all2 (\<lambda>c a. waits c \<longrightarrow> \<not> empty_handed a) cs1 as \<and> repr small_traits plain_ops (inner b') A \<and> counted b' A \<and>
    (producer_and_waiter = cs1 \<or> (\<exists>c cs2. producer_and_waiter = cs1 @ c # cs2 \<and> waits c \<and> (\<forall>xs \<in> set (lane A). xs = []) \<and>
      do_bcalls 2 small_traits plain_ops producer_and_waiter (b, []) = Blocked))"
proof -
  have "\<exists>b. BlockingConcurrentQueue small_traits 0 6 (mem_new 100 (\<lambda>_. True)) = Ret (b :: nat blocking_queue)"
    by (simp add: BlockingConcurrentQueue_def make_blocking_def malloc_def ConcurrentQueue_def queue_with_blocks_def
        populate_initial_block_list_def mem_new_def Let_def)
  then obtain b :: "nat blocking_queue" where b: "BlockingConcurrentQueue small_traits 0 6 (mem_new 100 (\<lambda>_. True)) = Ret b" by blast
  have h: "INITIAL_IMPLICIT_PRODUCER_HASH_SIZE small_traits \<noteq> 0" "(100 :: nat) * bsz small_traits < 2 ^ 63"
    by (simp_all add: small_traits_def ConcurrentQueueDefaultTraits_def)
  have e: "\<forall>x :: nat. \<not> raises plain_ops x" by (simp add: raises_def plain_ops_def)
  have c: "legal [] 0 (map call_of producer_and_waiter)" "list_all offered producer_and_waiter" "length producer_and_waiter \<le> 2 ^ 32"
    by (simp_all add: producer_and_waiter_def offered_def asks_def valid_tid_def invalid_thread_id_def invalid_thread_id2_def)
  have f: "1 < (2 :: nat)" by simp
  have a: "list_all (\<lambda>c. asks c = None) producer_and_waiter \<or> (\<forall>x :: nat. \<not> assign_raises plain_ops x)" by (simp add: plain_ops_def assign_raises_def)
  from blocking_queue_refines_lanes [OF small_traits_ok h(1) e h(2) b c f a] b show ?thesis by blast
qed

section \<open>A bulk dequeue that throws\<close>

text \<open>Two threads enqueue 1 and 2, and the assignment of 2 throws.\<close>

definition throws_on_2 :: "nat elem_ops" where
  "throws_on_2 = plain_ops\<lparr>assign_noexcept := False, assign_throws := (\<lambda>x. x = 2)\<rparr>"

definition after_bulk_throw :: "(nat answer list \<times> nat option xres) option" where
  "after_bulk_throw = (case BlockingConcurrentQueue small_traits 0 6 (mem_new 100 (\<lambda>_. True)) of
     Ret b \<Rightarrow> (case do_bcalls 2 small_traits throws_on_2
         [Client (Enqueue CanAlloc 8 1), Client (Enqueue CanAlloc 16 2), Wait_Bulk 2, Client Dequeue] (b, []) of
       Ret (as, b', ts) \<Rightarrow> (case try_dequeue small_traits throws_on_2 (inner b') of Ret (r, q) \<Rightarrow> Some (as, r) | _ \<Rightarrow> None)
     | _ \<Rightarrow> None)
   | _ \<Rightarrow> None)"



end
