(* ===== verification/Async_Fast.thy ===== *)
theory Async_Fast
  imports Async_Delay CQ_Blocking_Proof
begin

text \<open>
  The immediate channel \<open>async_fast\<close> (\<^verbatim>\<open>include/async_fast.h\<close>): a blocking concurrent queue of payloads
  and a second semaphore, \<open>_sem\<close>, that counts the publications. Publishing is \<open>fast_push\<close> of the theory
  \<open>World\<close>. The queue is used through its \<open>enqueue\<close> and \<open>wait_dequeue\<close> only; the locale \<open>channel_queue\<close>
  states what the channel needs of them, and the blocking queue of \<open>CQ_Blocking\<close> provides it.
\<close>

section \<open>Operations\<close>

text \<open>The constructors: the queue is made by its own constructor, which may throw.\<close>

definition fast_new_with :: "'q outcome \<Rightarrow> ('d, 'q) world \<Rightarrow> (nat \<times> ('d, 'q) world) outcome" where
  "fast_new_with mk w =
     (let (out, w1) = sync_new w;
          q = fresh w1
      in and_then mk (\<lambda>qu. Ret (q, w1\<lparr>fasts := (fasts w1)(q \<mapsto> \<lparr>af_output = out, af_queue = qu, af_sem = semaphore_new 0\<rparr>),
               fresh := Suc q\<rparr>)))"

definition fast_new :: "traits \<Rightarrow> nat \<Rightarrow> 'd mem \<Rightarrow> ('d, 'd blocking_queue) world \<Rightarrow> (nat \<times> ('d, 'd blocking_queue) world) outcome" where
  "fast_new T this m w = fast_new_with (BlockingConcurrentQueue T this (6 * BLOCK_SIZE T) m) w"

definition fast_new_alloc ::
  "traits \<Rightarrow> nat \<Rightarrow> 64 word \<Rightarrow> 'd mem \<Rightarrow> ('d, 'd blocking_queue) world \<Rightarrow> (nat \<times> ('d, 'd blocking_queue) world) outcome" where
  "fast_new_alloc T this initial_allocation m w = fast_new_with (BlockingConcurrentQueue T this initial_allocation m) w"

definition fast_size :: "'q async_fast \<Rightarrow> 64 word" where
  "fast_size a = sem_size (af_sem a)"

definition fast_empty :: "'q async_fast \<Rightarrow> bool" where
  "fast_empty a = (sem_size (af_sem a) \<le> 0)"

text \<open>The part both forms of \<open>_get\<close> share: take an element from the queue, dispatch it, return it.\<close>

definition fast_take :: "nat \<Rightarrow> ('d, 'q) env \<Rightarrow> nat \<Rightarrow> ('d, 'q) world \<Rightarrow> ('d \<times> ('d, 'q) world) outcome" where
  "fast_take f e q w =
     (case fasts w q of
        None \<Rightarrow> Undefined
      | Some a \<Rightarrow>
          and_then (deq e (af_queue a)) (\<lambda>(t, qu).
            and_then (sync_call f e (af_output a) t (w\<lparr>fasts := (fasts w)(q \<mapsto> a\<lparr>af_queue := qu\<rparr>)\<rparr>)) (\<lambda>w2.
              Ret (t, w2))))"

definition fast_acquire :: "nat \<Rightarrow> ('d, 'q) world \<Rightarrow> ('d, 'q) world outcome" where
  "fast_acquire q w =
     (case fasts w q of
        None \<Rightarrow> Undefined
      | Some a \<Rightarrow> and_then (sem_wait (af_sem a)) (\<lambda>sm. Ret (w\<lparr>fasts := (fasts w)(q \<mapsto> a\<lparr>af_sem := sm\<rparr>)\<rparr>)))"

definition fast_get :: "nat \<Rightarrow> ('d, 'q) env \<Rightarrow> nat \<Rightarrow> ('d, 'q) world \<Rightarrow> ('d \<times> ('d, 'q) world) outcome" where
  "fast_get f e q w = and_then (fast_acquire q w) (fast_take f e q)"

text \<open>\<open>while (_sem.size() == 0) yield(\<dots>)\<close>, after the semaphore has been decremented.\<close>

fun fast_yield_loop :: "nat \<Rightarrow> ('d, 'q) env \<Rightarrow> nat \<Rightarrow> ('d, 'q) world \<Rightarrow> ('d, 'q) world outcome" where
  "fast_yield_loop 0 e q w = No_Fuel"
| "fast_yield_loop (Suc f) e q w =
     (case fasts w q of
        None \<Rightarrow> Undefined
      | Some a \<Rightarrow> if sem_size (af_sem a) = 0 then and_then (yld e w) (fast_yield_loop f e q) else Ret w)"

definition fast_get_yield :: "nat \<Rightarrow> ('d, 'q) env \<Rightarrow> nat \<Rightarrow> ('d, 'q) world \<Rightarrow> ('d \<times> ('d, 'q) world) outcome" where
  "fast_get_yield f e q w =
     and_then (fast_acquire q w) (\<lambda>w1. and_then (fast_yield_loop f e q w1) (fast_take f e q))"

definition fast_update :: "nat \<Rightarrow> ('d, 'q) env \<Rightarrow> nat \<Rightarrow> ('d, 'q) world \<Rightarrow> ('d, 'q) world outcome" where
  "fast_update f e q w =
     (case fasts w q of
        None \<Rightarrow> Undefined
      | Some a \<Rightarrow>
          if \<not> fast_empty a then and_then (fast_get f e q w) (\<lambda>(_, w'). Ret w') else Ret w)"

text \<open>The busy loop of the timed \<open>wait\<close>; other threads may run between two rounds.\<close>

fun fast_wait_loop ::
  "nat \<Rightarrow> (('d, 'q) world \<Rightarrow> ('d \<times> ('d, 'q) world) outcome) \<Rightarrow> ('d, 'q) env \<Rightarrow> nat \<Rightarrow> marktime \<Rightarrow>
   ('d, 'q) world \<Rightarrow> ('d, 'q) world outcome" where
  "fast_wait_loop 0 get e q mark w = No_Fuel"
| "fast_wait_loop (Suc f) get e q mark w =
     (let (now, w1) = read_clock w
      in if now \<le> mark then
           (case fasts w1 q of
              None \<Rightarrow> Undefined
            | Some a \<Rightarrow>
                if \<not> fast_empty a then and_then (get w1) (\<lambda>(_, w2). Ret w2)
                else and_then (slp e w1) (fast_wait_loop f get e q mark))
         else Ret w1)"

definition fast_wait :: "nat \<Rightarrow> ('d, 'q) env \<Rightarrow> nat \<Rightarrow> deltatime \<Rightarrow> ('d, 'q) world \<Rightarrow> ('d, 'q) world outcome" where
  "fast_wait f e q timeout w =
     (if 0 < timeout
      then let (now, w1) = read_clock w
           in fast_wait_loop f (fast_get f e q) e q (mark_plus now timeout) w1
      else and_then (fast_get f e q w) (\<lambda>(_, w'). Ret w'))"

definition fast_wait_yield ::
  "nat \<Rightarrow> ('d, 'q) env \<Rightarrow> nat \<Rightarrow> deltatime \<Rightarrow> ('d, 'q) world \<Rightarrow> ('d, 'q) world outcome" where
  "fast_wait_yield f e q timeout w =
     (if 0 < timeout
      then let (now, w1) = read_clock w
           in fast_wait_loop f (fast_get_yield f e q) e q (mark_plus now timeout) w1
      else and_then (fast_get_yield f e q w) (\<lambda>(_, w'). Ret w'))"

text \<open>The \<open>connect\<close> functions pass on to the inner \<open>sync\<close>.\<close>

definition fast_connect :: "nat \<Rightarrow> callback \<Rightarrow> ('d, 'q) world \<Rightarrow> (nat \<times> ('d, 'q) world) outcome" where
  "fast_connect q method w =
     (case fasts w q of None \<Rightarrow> Undefined | Some a \<Rightarrow> sync_connect (af_output a) method w)"

definition fast_connect_member :: "nat \<Rightarrow> nat \<Rightarrow> ('d, 'q) world \<Rightarrow> (nat \<times> ('d, 'q) world) outcome" where
  "fast_connect_member q u w =
     (case fasts w q of None \<Rightarrow> Undefined | Some a \<Rightarrow> sync_connect_member (af_output a) u w)"

definition fast_connect_sync :: "nat \<Rightarrow> nat \<Rightarrow> ('d, 'q) world \<Rightarrow> (nat \<times> ('d, 'q) world) outcome" where
  "fast_connect_sync q callback w =
     (case fasts w q of None \<Rightarrow> Undefined | Some a \<Rightarrow> sync_connect (af_output a) (Call_Sync callback) w)"

definition fast_connect_fast :: "nat \<Rightarrow> nat \<Rightarrow> ('d, 'q) world \<Rightarrow> (nat \<times> ('d, 'q) world) outcome" where
  "fast_connect_fast q queue w =
     (case fasts w q of None \<Rightarrow> Undefined | Some a \<Rightarrow> sync_connect (af_output a) (Push_Fast queue) w)"

definition fast_connect_delay ::
  "nat \<Rightarrow> int \<Rightarrow> deltatime \<Rightarrow> nat \<Rightarrow> ('d, 'q) world \<Rightarrow> (nat \<times> ('d, 'q) world) outcome" where
  "fast_connect_delay q priority delay queue w =
     (case fasts w q of None \<Rightarrow> Undefined
      | Some a \<Rightarrow> sync_connect (af_output a) (Push_Delay priority delay queue) w)"

text \<open>
  The environment whose queues are blocking concurrent queues; thread \<open>t\<close> has the id \<open>tid_of t\<close>. An
  exception of an element leaves the call.
\<close>

definition value_of :: "'r xres \<Rightarrow> 'r outcome" where
  "value_of r = (case r of Val v \<Rightarrow> Ret v | Exc \<Rightarrow> Throws Element_Exception)"

definition queue_env ::
  "nat \<Rightarrow> traits \<Rightarrow> 'd elem_ops \<Rightarrow> (nat \<Rightarrow> 64 word) \<Rightarrow> ('d, 'd blocking_queue) env \<Rightarrow> ('d, 'd blocking_queue) env" where
  "queue_env f T E tid_of e = e\<lparr>
     enq := (\<lambda>t d b. and_then (blocking_enqueue False T E (tid_of t) d b) (\<lambda>(r, b'). and_then (value_of r) (\<lambda>v. Ret (v, b')))),
     deq := (\<lambda>b. and_then (wait_dequeue f T E b) (\<lambda>(r, _, b'). and_then (value_of r) (\<lambda>v. Ret (v, b'))))\<rparr>"

section \<open>Publishing and getting in any order\<close>

datatype 'd fast_op = Publish nat 'd | Get

datatype 'd fast_reply = Published bool | Got 'd

text \<open>What \<open>enqueue\<close> will say to a publication; \<open>operator()\<close> throws it away.\<close>

definition enqueue_says :: "('d, 'q) env \<Rightarrow> nat \<Rightarrow> nat \<Rightarrow> 'd \<Rightarrow> ('d, 'q) world \<Rightarrow> bool" where
  "enqueue_says e q t d w = (case fasts w q of None \<Rightarrow> False | Some a \<Rightarrow> (case enq e t d (af_queue a) of Ret (ok, _) \<Rightarrow> ok | _ \<Rightarrow> False))"

fun fast_do :: "nat \<Rightarrow> ('d, 'q) env \<Rightarrow> nat \<Rightarrow> 'd fast_op \<Rightarrow> ('d, 'q) world \<Rightarrow> ('d fast_reply \<times> ('d, 'q) world) outcome" where
  "fast_do f e q (Publish t d) w = and_then (fast_push e q d (w\<lparr>tid := t\<rparr>)) (\<lambda>w'. Ret (Published (enqueue_says e q t d w), w'))"
| "fast_do f e q Get w = and_then (fast_get f e q w) (\<lambda>(d, w'). Ret (Got d, w'))"

fun fast_dos ::
  "nat \<Rightarrow> ('d, 'q) env \<Rightarrow> nat \<Rightarrow> 'd fast_op list \<Rightarrow> ('d, 'q) world \<Rightarrow> ('d fast_reply list \<times> ('d, 'q) world) outcome" where
  "fast_dos f e q [] w = Ret ([], w)"
| "fast_dos f e q (c # cs) w =
     and_then (fast_do f e q c w) (\<lambda>(r, w1). and_then (fast_dos f e q cs w1) (\<lambda>(rs, w2). Ret (r # rs, w2)))"

text \<open>The messages that entered the queue, with the thread that published them, and the payloads that came out.\<close>

fun entered :: "'d fast_op list \<Rightarrow> 'd fast_reply list \<Rightarrow> (nat \<times> 'd) list" where
  "entered (Publish t d # cs) (Published ok # rs) = (if ok then [(t, d)] else []) @ entered cs rs"
| "entered (c # cs) (r # rs) = entered cs rs"
| "entered _ _ = []"

fun got :: "'d fast_reply list \<Rightarrow> 'd list" where
  "got [] = []"
| "got (Got d # rs) = d # got rs"
| "got (Published ok # rs) = got rs"

definition publications :: "'d fast_op list \<Rightarrow> nat" where
  "publications cs = length (filter (\<lambda>c. c \<noteq> Get) cs)"

definition by_thread :: "nat \<Rightarrow> (nat \<times> 'd) list \<Rightarrow> 'd list" where
  "by_thread t ms = map snd (filter (\<lambda>m. fst m = t) ms)"

lemma by_thread_simps [simp]:
  "by_thread t [] = []" "by_thread t (m # ms) = (if fst m = t then [snd m] else []) @ by_thread t ms"
  "by_thread t (ms @ ns) = by_thread t ms @ by_thread t ns"
  by (simp_all add: by_thread_def)

section \<open>What the channel needs of its queue\<close>

text \<open>
  \<open>holds qu P\<close>: the queue holds, for every thread, the sequence \<open>P t\<close> of its elements. An enqueue
  appends to the sequence of its thread or refuses and changes nothing; a dequeue takes the front of one
  of the sequences that have one, and sleeps when none has.
\<close>

locale channel_queue =
  fixes threads :: "nat set" and e :: "('d, 'q) env" and holds :: "'q \<Rightarrow> (nat \<Rightarrow> 'd list) \<Rightarrow> bool"
  assumes finite_threads: "finite threads"
    and holds_threads: "holds qu P \<Longrightarrow> t \<notin> threads \<Longrightarrow> P t = []"
    and enq_appends: "holds qu P \<Longrightarrow> t \<in> threads \<Longrightarrow> \<exists>ok qu'. enq e t d qu = Ret (ok, qu') \<and> holds qu' (if ok then P(t := P t @ [d]) else P)"
    and deq_front: "holds qu P \<Longrightarrow> P u \<noteq> [] \<Longrightarrow> \<exists>t qu'. P t \<noteq> [] \<and> deq e qu = Ret (hd (P t), qu') \<and> holds qu' (P(t := tl (P t)))"
    and deq_sleeps: "holds qu P \<Longrightarrow> (\<And>t. P t = []) \<Longrightarrow> deq e qu = Blocked"
begin

definition pending :: "(nat \<Rightarrow> 'd list) \<Rightarrow> nat" where
  "pending P = (\<Sum>t \<in> threads. length (P t))"

lemma pending_update:
  assumes "t \<in> threads"
  shows "pending (P(t := xs)) + length (P t) = pending P + length xs"
proof -
  have "pending (P(t := xs)) = length xs + (\<Sum>u \<in> threads - {t}. length (P u))"
    unfolding pending_def using sum.remove [OF finite_threads assms, of "\<lambda>u. length ((P(t := xs)) u)"] by simp
  moreover have "pending P = length (P t) + (\<Sum>u \<in> threads - {t}. length (P u))"
    unfolding pending_def using sum.remove [OF finite_threads assms, of "\<lambda>u. length (P u)"] by simp
  ultimately show ?thesis by simp
qed

lemma pending_0: "holds qu P \<Longrightarrow> pending P = 0 \<longleftrightarrow> (\<forall>t. P t = [])"
  using holds_threads finite_threads unfolding pending_def by fastforce

text \<open>The invariant: the semaphore counts what is in the queue and the publications that were refused.\<close>

definition channel :: "('d, 'q) world \<Rightarrow> nat \<Rightarrow> nat \<Rightarrow> (nat \<Rightarrow> 'd list) \<Rightarrow> nat \<Rightarrow> bool" where
  "channel w q out P lost \<longleftrightarrow> (\<exists>a. fasts w q = Some a \<and> af_output a = out \<and> holds (af_queue a) P \<and>
     sem_len (af_sem a) = of_nat (pending P + lost))"

lemma publish_step:
  assumes c: "channel w q out P lost" and t: "t \<in> threads"
  shows "\<exists>ok w'. fast_do f e q (Publish t d) w = Ret (Published ok, w') \<and>
    channel w' q out (if ok then P(t := P t @ [d]) else P) (if ok then lost else Suc lost) \<and> called w' = called w \<and> watched w' = watched w"
proof -
  obtain a where a: "fasts w q = Some a" "af_output a = out" "holds (af_queue a) P" "sem_len (af_sem a) = of_nat (pending P + lost)"
    using c by (auto simp: channel_def)
  obtain ok qu where en: "enq e t d (af_queue a) = Ret (ok, qu)" "holds qu (if ok then P(t := P t @ [d]) else P)"
    using enq_appends [OF a(3) t] by blast
  let ?a = "a\<lparr>af_queue := qu, af_sem := sem_notify (af_sem a)\<rparr>"
  let ?w = "w\<lparr>tid := t, fasts := (fasts w)(q \<mapsto> ?a)\<rparr>"
  have "fast_do f e q (Publish t d) w = Ret (Published ok, ?w)"
    using a(1) en(1) by (simp add: fast_push_def enqueue_says_def Let_def)
  moreover have "channel ?w q out (if ok then P(t := P t @ [d]) else P) (if ok then lost else Suc lost)"
    using a en(2) pending_update [OF t, of P "P t @ [d]"] by (auto simp: channel_def sem_notify_def)
  moreover have "watched ?w = watched w" by (simp add: watched_def fun_eq_iff)
  ultimately show ?thesis by (intro exI [of _ ok] exI [of _ ?w]) simp
qed

lemma get_step:
  assumes c: "channel w q out P lost" and n: "pending P + lost < 2 ^ 64" and u: "P u \<noteq> []"
    and env: "watched w out us" "\<And>u d w. usr e u d w = Ret w" "length us + 3 \<le> f"
  shows "\<exists>t w'. P t \<noteq> [] \<and> fast_do f e q Get w = Ret (Got (hd (P t)), w') \<and> channel w' q out (P(t := tl (P t))) lost \<and>
    called w' = called w @ map (\<lambda>u. (u, hd (P t))) us \<and> watched w' = watched w"
proof -
  obtain a where a: "fasts w q = Some a" "af_output a = out" "holds (af_queue a) P" "sem_len (af_sem a) = of_nat (pending P + lost)"
    using c by (auto simp: channel_def)
  obtain t qu where de: "P t \<noteq> []" "deq e (af_queue a) = Ret (hd (P t), qu)" "holds qu (P(t := tl (P t)))"
    using deq_front [OF a(3) u] by blast
  have t: "t \<in> threads" using holds_threads [OF a(3)] de(1) by blast
  have p: "pending P = Suc (pending (P(t := tl (P t))))" using pending_update [OF t, of P "tl (P t)"] de(1) by (cases "P t") auto
  let ?s = "\<lparr>sem_len = sem_len (af_sem a) - 1\<rparr>"
  let ?w = "w\<lparr>fasts := (fasts w)(q \<mapsto> a\<lparr>af_sem := ?s, af_queue := qu\<rparr>)\<rparr>"
  let ?v = "?w\<lparr>called := called w @ map (\<lambda>u. (u, hd (P t))) us, copies := copies w + (length us - 1)\<rparr>"
  have "unat (of_nat (pending P + lost) :: 64 word) \<noteq> 0" using n p by (simp only: unat_of_nat) simp
  then have "of_nat (pending P + lost) \<noteq> (0 :: 64 word)" by (metis unat_0)
  then have "sem_wait (af_sem a) = Ret ?s" using a(4) by (simp add: sem_defs word_neq_0_conv)
  moreover have "sync_call f e out (hd (P t)) ?w = Ret ?v" using watched_call [of ?w out us e f "hd (P t)"] env by simp
  ultimately have "fast_do f e q Get w = Ret (Got (hd (P t)), ?v)"
    using a(1,2) de(2) by (simp add: fast_get_def fast_acquire_def fast_take_def)
  moreover have "channel ?v q out (P(t := tl (P t))) lost" using a de(3) p by (simp add: channel_def)
  ultimately show ?thesis using de(1) by (intro exI [of _ t] exI [of _ ?v]) simp
qed

lemma get_sleeps:
  assumes "channel w q out P lost" and "\<And>t. P t = []"
  shows "fast_do f e q Get w = Blocked"
  using assms deq_sleeps [of _ P] by (auto simp: channel_def fast_get_def fast_acquire_def fast_take_def sem_wait_def)

text \<open>Every sequence of publications and gets runs, up to a get that finds nothing to wait for.\<close>

lemma ops_run:
  assumes "channel w q out P lost" and "pending P + lost + length cs < 2 ^ 64" and "\<forall>t d. Publish t d \<in> set cs \<longrightarrow> t \<in> threads"
    and "watched w out us" "\<And>u d w. usr e u d w = Ret w" "length us + 3 \<le> f"
  shows "\<exists>cs1 rs w' P' lost' ms. fast_dos f e q cs1 w = Ret (rs, w') \<and> channel w' q out P' lost' \<and> map snd ms = got rs \<and>
    (\<forall>t. P t @ by_thread t (entered cs1 rs) = by_thread t ms @ P' t) \<and>
    called w' = called w @ concat (map (\<lambda>m. map (\<lambda>u. (u, snd m)) us) ms) \<and>
    pending P' + lost' + length (got rs) = pending P + lost + publications cs1 \<and>
    (cs = cs1 \<or> (\<exists>cs2. cs = cs1 @ Get # cs2 \<and> (\<forall>t. P' t = []) \<and> fast_dos f e q cs w = Blocked))"
  using assms(1-4)
proof (induction cs arbitrary: w P lost)
  case Nil
  then show ?case by (intro exI [of _ "[]"] exI [of _ w] exI [of _ P] exI [of _ lost]) (simp add: publications_def)
next
  case (Cons c cs)
  show ?case
  proof (cases c)
    case (Publish t d)
    with Cons.prems(3) have t: "t \<in> threads" by auto
    obtain ok w1 where w1: "fast_do f e q (Publish t d) w = Ret (Published ok, w1)"
      "channel w1 q out (if ok then P(t := P t @ [d]) else P) (if ok then lost else Suc lost)" "called w1 = called w" "watched w1 = watched w"
      using publish_step [OF Cons.prems(1) t] by blast
    let ?P = "if ok then P(t := P t @ [d]) else P" and ?l = "if ok then lost else Suc lost"
    have p: "pending ?P + ?l = Suc (pending P + lost)" using pending_update [OF t, of P "P t @ [d]"] by auto
    have th: "\<forall>t d. Publish t d \<in> set cs \<longrightarrow> t \<in> threads" using Cons.prems(3) by simp
    have len: "pending ?P + ?l + length cs < 2 ^ 64" using Cons.prems(2) p by simp
    have wt: "watched w1 out us" using Cons.prems(4) w1(4) by simp
    obtain cs1 rs w' P' lost' ms where IH: "fast_dos f e q cs1 w1 = Ret (rs, w')"
      "channel w' q out P' lost'" "map snd ms = got rs" "\<forall>t. ?P t @ by_thread t (entered cs1 rs) = by_thread t ms @ P' t"
      "called w' = called w1 @ concat (map (\<lambda>m. map (\<lambda>u. (u, snd m)) us) ms)"
      "pending P' + lost' + length (got rs) = pending ?P + ?l + publications cs1"
      "cs = cs1 \<or> (\<exists>cs2. cs = cs1 @ Get # cs2 \<and> (\<forall>t. P' t = []) \<and> fast_dos f e q cs w1 = Blocked)"
      using Cons.IH [OF w1(2) len th wt] by (elim exE conjE) (rule that)
    have "P v @ by_thread v (entered (c # cs1) (Published ok # rs)) = by_thread v ms @ P' v" for v
      using IH(4) [rule_format, of v] Publish by (auto split: if_splits)
    moreover have "pending P' + lost' + length (got (Published ok # rs)) = pending P + lost + publications (c # cs1)"
      using IH(6) p Publish by (simp add: publications_def)
    ultimately show ?thesis using IH w1(1,3) Publish
      by (intro exI [of _ "c # cs1"] exI [of _ "Published ok # rs"] exI [of _ w'] exI [of _ P'] exI [of _ lost'] exI [of _ ms]) auto
  next
    case Get
    show ?thesis
    proof (cases "\<exists>u. P u \<noteq> []")
      case True
      then obtain u where "P u \<noteq> []" by blast
      moreover have "pending P + lost < 2 ^ 64" using Cons.prems(2) by simp
      ultimately obtain t w1 where w1: "P t \<noteq> []" "fast_do f e q Get w = Ret (Got (hd (P t)), w1)" "channel w1 q out (P(t := tl (P t))) lost"
        "called w1 = called w @ map (\<lambda>u. (u, hd (P t))) us" "watched w1 = watched w"
        using get_step [OF Cons.prems(1) _ _ Cons.prems(4) assms(5,6)] by blast
      have t: "t \<in> threads" using holds_threads w1(1) Cons.prems(1) by (auto simp: channel_def)
      let ?P = "P(t := tl (P t))"
      have p: "pending P = Suc (pending ?P)" using pending_update [OF t, of P "tl (P t)"] w1(1) by (cases "P t") auto
      have th: "\<forall>t d. Publish t d \<in> set cs \<longrightarrow> t \<in> threads" using Cons.prems(3) by simp
      have len: "pending ?P + lost + length cs < 2 ^ 64" using Cons.prems(2) p by simp
      have wt: "watched w1 out us" using Cons.prems(4) w1(5) by simp
    obtain cs1 rs w' P' lost' ms where IH: "fast_dos f e q cs1 w1 = Ret (rs, w')"
        "channel w' q out P' lost'" "map snd ms = got rs" "\<forall>t. ?P t @ by_thread t (entered cs1 rs) = by_thread t ms @ P' t"
        "called w' = called w1 @ concat (map (\<lambda>m. map (\<lambda>u. (u, snd m)) us) ms)"
        "pending P' + lost' + length (got rs) = pending ?P + lost + publications cs1"
        "cs = cs1 \<or> (\<exists>cs2. cs = cs1 @ Get # cs2 \<and> (\<forall>t. P' t = []) \<and> fast_dos f e q cs w1 = Blocked)"
        using Cons.IH [OF w1(3) len th wt] by (elim exE conjE) (rule that)
      have "P v @ by_thread v (entered (c # cs1) (Got (hd (P t)) # rs)) = by_thread v ((t, hd (P t)) # ms) @ P' v" for v
        using IH(4) [rule_format, of v] Get w1(1) by (cases "P t") (auto split: if_splits)
      then show ?thesis using IH w1(2,4) p Get
        by (intro exI [of _ "c # cs1"] exI [of _ "Got (hd (P t)) # rs"] exI [of _ w'] exI [of _ P'] exI [of _ lost'] exI [of _ "(t, hd (P t)) # ms"])
           (auto simp: publications_def)
    next
      case False
      then have "fast_do f e q Get w = Blocked" using get_sleeps [OF Cons.prems(1)] by blast
      then show ?thesis using Cons.prems(1) False Get
        by (intro exI [of _ "[]"] exI [of _ w] exI [of _ P] exI [of _ lost]) (simp add: publications_def)
    qed
  qed
qed

end

section \<open>The blocking queue provides it\<close>

text \<open>
  The sequence of a thread is its lane. A channel never uses producer tokens, so every lane belongs to a
  thread, and there are no more lanes than threads.
\<close>

definition lane_of :: "'d lane_state \<Rightarrow> 64 word \<Rightarrow> 'd list" where
  "lane_of A i1 = (case owner A i1 of None \<Rightarrow> [] | Some i \<Rightarrow> lane A ! i)"

definition channel_holds ::
  "traits \<Rightarrow> 'd elem_ops \<Rightarrow> (nat \<Rightarrow> 64 word) \<Rightarrow> nat set \<Rightarrow> 'd blocking_queue \<Rightarrow> (nat \<Rightarrow> 'd list) \<Rightarrow> bool" where
  "channel_holds T E tid_of threads b P \<longleftrightarrow> (\<exists>A. repr T E (inner b) A \<and> counted b A \<and>
     (\<forall>t. P t = (if t \<in> threads then lane_of A (tid_of t) else [])) \<and>
     (\<forall>i < length (lane A). \<exists>t \<in> threads. owner A (tid_of t) = Some i))"

lemma lanes_le_threads:
  assumes "finite threads" and "\<forall>i < n. \<exists>t \<in> threads. own t = Some i"
  shows "n \<le> card threads"
proof -
  obtain g where g: "\<And>i. i < n \<Longrightarrow> g i \<in> threads \<and> own (g i) = Some i" using assms(2) by metis
  then have "inj_on g {..<n}" by (intro inj_onI) (metis lessThan_iff option.inject)
  moreover have "g ` {..<n} \<subseteq> threads" using g by force
  ultimately have "card {..<n} \<le> card threads" using card_inj_on_le assms(1) by blast
  then show ?thesis by simp
qed

lemma lane_of_found:
  assumes A: "lane_ok A" and f: "finds i1 A r A'"
  shows "lane_of A' = lane_of A" "r = Some i \<Longrightarrow> owner A' i1 = Some i"
    "i < length (lane A') \<Longrightarrow> owner A' i1 = Some i \<or> i < length (lane A)" "owner A u = Some i \<Longrightarrow> owner A' u = Some i"
proof -
  have lt: "owner A u = Some j \<Longrightarrow> j < length (lane A)" for u j using A by (simp add: lane_ok_def)
  have "lane_of (new_lane i1 A) u = lane_of A u" if "owner A i1 = None" for u
    using that lt [of u] by (auto simp: lane_of_def nth_append split: option.split)
  then show "lane_of A' = lane_of A" using f by (auto simp: finds_def split: option.splits)
  show "r = Some i \<Longrightarrow> owner A' i1 = Some i" using f by (auto simp: finds_def split: option.splits)
  show "i < length (lane A') \<Longrightarrow> owner A' i1 = Some i \<or> i < length (lane A)" "owner A u = Some i \<Longrightarrow> owner A' u = Some i"
    using f by (auto simp: finds_def less_Suc_eq split: option.splits)
qed

lemma lane_of_push:
  assumes A: "lane_ok A" and i: "owner A i1 = Some i"
  shows "lane_of (push i xs A) u = (if u = i1 then lane_of A i1 @ xs else lane_of A u)"
proof -
  have n: "i < length (lane A)" "owner A u = Some i \<Longrightarrow> u = i1" using A i unfolding lane_ok_def by blast+
  show ?thesis
  proof (cases "u = i1")
    case True
    then show ?thesis using i n(1) by (simp add: lane_of_def push_def)
  next
    case False
    then have "owner A u \<noteq> Some i" using n(2) by blast
    then show ?thesis using False by (cases "owner A u") (auto simp: lane_of_def push_def)
  qed
qed

lemma blocking_enq_appends:
  assumes h: "channel_holds T E tid_of threads b P" and t: "t \<in> threads"
    and th: "finite threads" "card threads < 2 ^ 32" "inj_on tid_of threads" "\<forall>t \<in> threads. valid_tid (tid_of t)"
    and T: "INITIAL_IMPLICIT_PRODUCER_HASH_SIZE T \<noteq> 0"
  shows "\<exists>ok b'. blocking_enqueue False T E (tid_of t) d b = Ret (Val ok, b') \<and>
    channel_holds T E tid_of threads b' (if ok then P(t := P t @ [d]) else P)"
proof -
  obtain A where A: "repr T E (inner b) A" "counted b A" "\<forall>t. P t = (if t \<in> threads then lane_of A (tid_of t) else [])"
    "\<forall>i < length (lane A). \<exists>t \<in> threads. owner A (tid_of t) = Some i" using h by (auto simp: channel_holds_def)
  note ok = reprD(4) [OF A(1)]
  have n: "nprods (inner b) < 2 ^ 32"
    using lanes_le_threads [OF th(1), of "length (lane A)" "\<lambda>t. owner A (tid_of t)"] A(4) th(2) nprods_repr [OF A(1)] by simp
  have "valid_tid (tid_of t)" using th(4) t by blast
  from enqueue_call [OF A(1) this n T, of CanAlloc d] obtain r q' A' where q': "enqueue False T E (tid_of t) d (inner b) = Ret (Val r, q')"
    "serves E A (Enqueue CanAlloc (tid_of t) d) (Accepted r) A'" "repr T E q' A'" unfolding if_P [OF refl] by blast
  have "elements A' = (if r then elements A + 1 else elements A)" using enqueue_elements [OF q'(2) ok, of CanAlloc "tid_of t" d "[d]"] by simp
  from signalling_counts [of b A "enqueue False T E (tid_of t) d" r q' A', OF A(2) q'(1) this]
  obtain b' where b': "blocking_enqueue False T E (tid_of t) d b = Ret (Val r, b')" "inner b' = q'" "counted b' A'"
    by (auto simp: blocking_enqueue_def)
  obtain k A1 where A1: "finds (tid_of t) A k A1" "case k of None \<Rightarrow> \<not> r \<and> A' = A1 | Some i \<Rightarrow> pushes i [d] A1 (Accepted r) A'"
    using q'(2) by (auto split: option.splits)
  note A1s = lane_of_found [OF ok A1(1)]
  have own: "\<exists>u \<in> threads. owner A1 (tid_of u) = Some i" if "i < length (lane A1)" for i
    using A1s(3) [OF that] A(4) A1s(4) t by blast
  have inj: "tid_of u = tid_of t \<longleftrightarrow> u = t" if "u \<in> threads" for u using th(3) t that by (auto simp: inj_on_def)
  show ?thesis
  proof (cases r)
    case True
    then obtain i where i: "k = Some i" "A' = push i [d] A1" using A1(2) by (auto simp: pushes_def split: option.splits)
    have "lane_ok A1" using reprD(4) [OF q'(3)] i(2) by (simp add: lane_ok_def push_def)
    from lane_of_push [OF this A1s(2) [OF i(1)], of "[d]"] have "lane_of A' (tid_of u) = (if u = t then lane_of A (tid_of t) @ [d] else lane_of A (tid_of u))"
      if "u \<in> threads" for u using inj [OF that] i(2) A1s(1) by simp
    moreover have "owner A' = owner A1" "length (lane A') = length (lane A1)" using i(2) by (simp_all add: push_def)
    ultimately have "channel_holds T E tid_of threads b' (P(t := P t @ [d]))"
      unfolding channel_holds_def using q'(3) b' A(3) own t by (intro exI [of _ A']) auto
    then show ?thesis using b'(1) True by auto
  next
    case False
    then have "A' = A1" using A1(2) by (auto simp: pushes_def split: option.splits)
    then have "channel_holds T E tid_of threads b' P"
      unfolding channel_holds_def using q'(3) b' A(3) own A1s(1) by (intro exI [of _ A']) auto
    then show ?thesis using b'(1) False by auto
  qed
qed

lemma blocking_deq:
  assumes h: "channel_holds T E tid_of threads b P" and E: "\<forall>x. \<not> assign_raises E x" and f: "0 < f" and inj: "inj_on tid_of threads"
  shows "(\<And>t. P t = []) \<Longrightarrow> wait_dequeue f T E b = Blocked"
    "P u \<noteq> [] \<Longrightarrow> \<exists>t b'. P t \<noteq> [] \<and> wait_dequeue f T E b = Ret (Val (hd (P t)), (), b') \<and> channel_holds T E tid_of threads b' (P(t := tl (P t)))"
proof -
  obtain A where A: "repr T E (inner b) A" "counted b A" "\<forall>t. P t = (if t \<in> threads then lane_of A (tid_of t) else [])"
    "\<forall>i < length (lane A). \<exists>t \<in> threads. owner A (tid_of t) = Some i" using h by (auto simp: channel_holds_def)
  have mine: "\<exists>t \<in> threads. owner A (tid_of t) = Some i \<and> P t = lane A ! i" if "i < length (lane A)" for i
    using A(3,4) that by (fastforce simp: lane_of_def)
  { assume "\<And>t. P t = []"
    then have "elements A = 0" using mine by (fastforce simp: elements_0 in_set_conv_nth)
    then show "wait_dequeue f T E b = Blocked" using take_from_empty(2) [OF A(2) _ f] by (simp add: wait_dequeue_def) }
  assume u: "P u \<noteq> []"
  obtain r q' xss where d: "try_dequeue T E (inner b) = Ret (r, q')" "takes E {..<nprods (inner b)} (lane A) r xss" "queue_inv T E q' xss"
    "same_shape q' (inner b)" using try_dequeue_spec [OF reprD(1) [OF A(1)]] by blast
  note P = pops_repr [OF A(1) d(2-4)]
  have "u \<in> threads" "\<exists>i. owner A (tid_of u) = Some i \<and> lane A ! i \<noteq> []" using u A(3) by (auto simp: lane_of_def split: if_splits option.splits)
  then obtain iu where "iu < length (lane A)" "lane A ! iu \<noteq> []" using reprD(4) [OF A(1)] by (auto simp: lane_ok_def)
  then have "r \<noteq> Val None" using d(2) nprods_repr [OF A(1)] by (auto simp: takes_None)
  then obtain i where i: "i < length (lane A)" "lane A ! i \<noteq> []" "r = front_of E (lane A ! i)" "xss = (lane A)[i := tl (lane A ! i)]"
    using d(2) nprods_repr [OF A(1)] by (auto simp: takes_def)
  obtain t where t: "t \<in> threads" "owner A (tid_of t) = Some i" "P t = lane A ! i" using mine [OF i(1)] by blast
  let ?A = "A\<lparr>lane := xss\<rparr>"
  have r: "r = Val (Some (hd (P t)))" using i(2,3) t(3) E by (cases "lane A ! i") auto
  have "elements A = Suc (elements ?A)" using elements_pop [OF P(1)] \<open>r \<noteq> Val None\<close> by simp
  moreover have "plain_op (try_dequeue T E) ((), inner b) = Ret (r, (), q')" using d(1) by (simp add: plain_op_def)
  ultimately obtain b' r1 where b': "wait_dequeue f T E b = Ret (r1, (), b')" "some_of r1 = r" "inner b' = q'" "counted b' ?A"
    using take_from_nonempty [OF A(2), of ?A "plain_op (try_dequeue T E)" "()" r "()" q' f 0] \<open>r \<noteq> Val None\<close> f by (auto simp: wait_dequeue_def)
  have "r1 = Val (hd (P t))" using b'(2) r by (cases r1) (auto simp: some_of_def)
  moreover have "lane_of ?A (tid_of v) = (if v = t then tl (P t) else P v)" if "v \<in> threads" for v
  proof (cases "v = t")
    case True
    then show ?thesis using t i by (simp add: lane_of_def)
  next
    case False
    then have "tid_of v \<noteq> tid_of t" using inj t(1) that by (auto simp: inj_on_def)
    then have "owner A (tid_of v) \<noteq> Some i" using reprD(4) [OF A(1)] t(2) unfolding lane_ok_def by blast
    then show ?thesis using False A(3) that i(4) by (cases "owner A (tid_of v)") (auto simp: lane_of_def)
  qed
  then have "channel_holds T E tid_of threads b' (P(t := tl (P t)))"
    unfolding channel_holds_def using P(2) b'(3,4) A(3,4) i(4) t(1) by (intro exI [of _ ?A]) auto
  ultimately show "\<exists>t b'. P t \<noteq> [] \<and> wait_dequeue f T E b = Ret (Val (hd (P t)), (), b') \<and> channel_holds T E tid_of threads b' (P(t := tl (P t)))"
    using b'(1) i(2) t(3) by (intro exI [of _ t] exI [of _ b']) simp
qed

lemma blocking_channel_queue:
  assumes th: "finite threads" "card threads < 2 ^ 32" "inj_on tid_of threads" "\<forall>t \<in> threads. valid_tid (tid_of t)"
    and T: "INITIAL_IMPLICIT_PRODUCER_HASH_SIZE T \<noteq> 0" and E: "\<forall>x. \<not> assign_raises E x" and f: "0 < f"
  shows "channel_queue threads (queue_env f T E tid_of e) (channel_holds T E tid_of threads)"
proof
  fix b P t d u
  show "finite threads" by (rule th(1))
  assume h: "channel_holds T E tid_of threads b P"
  then show "t \<notin> threads \<Longrightarrow> P t = []" by (auto simp: channel_holds_def)
  show "\<exists>ok b'. enq (queue_env f T E tid_of e) t d b = Ret (ok, b') \<and>
      channel_holds T E tid_of threads b' (if ok then P(t := P t @ [d]) else P)" if t: "t \<in> threads"
    using blocking_enq_appends [OF h t th T, of d]
    by (elim exE conjE) (intro exI conjI, simp_all add: queue_env_def value_of_def)
  show "\<exists>t b'. P t \<noteq> [] \<and> deq (queue_env f T E tid_of e) b = Ret (hd (P t), b') \<and>
      channel_holds T E tid_of threads b' (P(t := tl (P t)))" if u: "P u \<noteq> []"
    using blocking_deq(2) [OF h E f th(3) u]
    by (elim exE conjE) (intro exI conjI, assumption, simp_all add: queue_env_def value_of_def)
  show "(\<And>t. P t = []) \<Longrightarrow> deq (queue_env f T E tid_of e) b = Blocked"
    using blocking_deq(1) [OF h E f th(3)] by (simp add: queue_env_def)
qed

section \<open>From the constructor on\<close>

text \<open>Connecting the member functions \<open>us\<close>, one after the other.\<close>

fun fast_connects :: "nat \<Rightarrow> nat list \<Rightarrow> ('d, 'q) world \<Rightarrow> ('d, 'q) world outcome" where
  "fast_connects q [] w = Ret w"
| "fast_connects q (u # us) w = and_then (fast_connect_member q u w) (\<lambda>(_, w'). fast_connects q us w')"

lemma fast_connects_watched:
  assumes "fasts w q = Some a" and "syncs w (af_output a) = Some so" and "distinct (map fst (registered so))"
    and "\<forall>n \<in> fst ` set (registered so). n < fresh w" and "map snd (registered so) = map User vs"
  shows "\<exists>w'. fast_connects q us w = Ret w' \<and> watched w' (af_output a) (vs @ us) \<and> fasts w' = fasts w \<and> called w' = called w"
  using assms
proof (induction us arbitrary: w so vs)
  case Nil
  then show ?case by (auto simp: watched_def)
next
  case (Cons u us)
  let ?so = "so\<lparr>registered := registered so @ [(fresh w, User u)], conns := conns so @ [Suc (fresh w)]\<rparr>"
  obtain c w1 where w1: "fast_connect_member q u w = Ret (c, w1)" "fasts w1 = fasts w" "called w1 = called w"
    "syncs w1 (af_output a) = Some ?so" "fresh w1 = fresh w + 2"
    using Cons.prems(1,2) by (simp add: fast_connect_member_def sync_connect_member_eq sync_connect_def Let_def)
  have "\<exists>w'. fast_connects q us w1 = Ret w' \<and> watched w' (af_output a) ((vs @ [u]) @ us) \<and> fasts w' = fasts w1 \<and> called w' = called w1"
    using Cons.prems w1 by (intro Cons.IH [of w1 ?so "vs @ [u]"]) auto
  then show ?case using w1 by auto
qed

lemma new_channel:
  assumes new: "fast_new_alloc T this cpty (mem_new limit ok) w0 = Ret (q, w1)" and con: "fast_connects q us w1 = Ret w"
  shows "\<exists>a b. fasts w q = Some a \<and> BlockingConcurrentQueue T this cpty (mem_new limit ok) = Ret b \<and> af_queue a = b \<and>
    sem_len (af_sem a) = 0 \<and> watched w (af_output a) us \<and> called w = called w0"
proof -
  obtain b where b: "BlockingConcurrentQueue T this cpty (mem_new limit ok) = Ret b"
    "fasts w1 q = Some \<lparr>af_output = fresh w0, af_queue = b, af_sem = semaphore_new 0\<rparr>" "called w1 = called w0"
    "syncs w1 (fresh w0) = Some \<lparr>registered = [], conns = []\<rparr>"
    using new by (auto simp: fast_new_alloc_def fast_new_with_def sync_new_def and_then_eq_Ret)
  from fast_connects_watched [of w1 q _ _ "[]" us, OF b(2)] b(3,4) con show ?thesis using b(1,2) by (auto simp: semaphore_new_def)
qed

lemma new_channel_holds:
  assumes "traits_ok T" "INITIAL_IMPLICIT_PRODUCER_HASH_SIZE T \<noteq> 0" and "\<forall>x. \<not> raises E x" and "limit * bsz T < 2 ^ 63"
    and "BlockingConcurrentQueue T this cpty (mem_new limit ok) = Ret b"
  shows "channel_holds T E tid_of threads b (\<lambda>_. [])"
  using blocking_start(1) [OF assms] unfolding channel_holds_def
  by (intro exI [of _ no_lanes]) (auto simp: bclient_ok_def client_ok_def no_lanes_def lane_of_def)

text \<open>An environment for the examples: handlers that only watch, and nothing happens in a pause.\<close>

definition quiet_env :: "('d, 'q) env" where
  "quiet_env = \<lparr>usr = (\<lambda>u d w. Ret w), srt = message_insort, moved = (\<lambda>d. d), yld = Ret, slp = Ret,
     enq = (\<lambda>t d q. Undefined), deq = (\<lambda>q. Undefined)\<rparr>"

definition small_tid :: "nat \<Rightarrow> 64 word" where
  "small_tid t = (if t = 0 then 8 else if t = 1 then 16 else 24)"

abbreviation small_env :: "(nat, nat blocking_queue) env" where
  "small_env \<equiv> queue_env 1 small_traits plain_ops small_tid quiet_env"

lemma small_threads: "inj_on small_tid {0, 1, 2}" "\<forall>t \<in> {0, 1, 2}. valid_tid (small_tid t)"
  by (simp_all add: small_tid_def valid_tid_def invalid_thread_id_def invalid_thread_id2_def)

lemma small_ops: "\<forall>x :: nat. \<not> assign_raises plain_ops x" "\<forall>x :: nat. \<not> raises plain_ops x" "INITIAL_IMPLICIT_PRODUCER_HASH_SIZE small_traits \<noteq> 0"
  by (simp_all add: raises_def assign_raises_def plain_ops_def small_traits_def ConcurrentQueueDefaultTraits_def)

interpretation small: channel_queue "{0, 1, 2}" small_env "channel_holds small_traits plain_ops small_tid {0, 1, 2}"
  by (rule blocking_channel_queue [OF _ _ small_threads small_ops(3,1)]) simp_all

lemma new_channel_inv:
  fixes E :: "'d elem_ops"
  assumes "traits_ok T" "INITIAL_IMPLICIT_PRODUCER_HASH_SIZE T \<noteq> 0" and "\<forall>x. \<not> raises E x" and "limit * bsz T < 2 ^ 63"
    and Q: "channel_queue threads (e :: ('d, 'd blocking_queue) env) (channel_holds T E tid_of threads)"
    and new: "fast_new_alloc T this cpty (mem_new limit ok) w0 = Ret (q, w1)" and con: "fast_connects q us w1 = Ret w"
  shows "\<exists>out. channel_queue.channel threads (channel_holds T E tid_of threads) w q out (\<lambda>_. []) 0 \<and>
    channel_queue.pending threads (\<lambda>_. [] :: 'd list) = 0 \<and> watched w out us \<and> called w = called w0"
proof -
  obtain a b where a: "fasts w q = Some a" "BlockingConcurrentQueue T this cpty (mem_new limit ok) = Ret b" "af_queue a = b"
    "sem_len (af_sem a) = 0" "watched w (af_output a) us" "called w = called w0" using new_channel [OF new con] by blast
  have h: "channel_holds T E tid_of threads (af_queue a) (\<lambda>_. [])" using new_channel_holds [OF assms(1-4) a(2)] a(3) by simp
  have p: "channel_queue.pending threads (\<lambda>_. [] :: 'd list) = 0" using channel_queue.pending_0 [OF Q h] by simp
  have "channel_queue.channel threads (channel_holds T E tid_of threads) w q (af_output a) (\<lambda>_. []) 0"
    using a(1,4) h p by (simp add: channel_queue.channel_def [OF Q])
  then show ?thesis using p a(5,6) by blast
qed

section \<open>Properties\<close>

text \<open>
  C4. The channel from end to end: make it, connect observers, then publish and get in any order from any
  threads. Every get delivers one message that was accepted and not delivered before, to every
  observer, in connection order; the messages of one thread are delivered in the order it published them; and the
  run only stops at a get when every accepted message has been delivered. The count shown by
  \<open>size()\<close> is publications less gets.
\<close>

theorem fast_channel_delivers:
  fixes E :: "'d elem_ops"
  assumes "traits_ok T" "INITIAL_IMPLICIT_PRODUCER_HASH_SIZE T \<noteq> 0" and "\<forall>x. \<not> raises E x" and "\<forall>x. \<not> assign_raises E x" and "limit * bsz T < 2 ^ 63"
    and "finite threads" "card threads < 2 ^ 32" "inj_on tid_of threads" "\<forall>t \<in> threads. valid_tid (tid_of t)"
    and "fast_new_alloc T this cpty (mem_new limit ok) w0 = Ret (q, w1)" and "fast_connects q us w1 = Ret w" and "\<And>u d w. usr e u d w = Ret w"
    and "\<forall>t d. Publish t d \<in> set cs \<longrightarrow> t \<in> threads" and "length cs < 2 ^ 64" and "0 < g" and "length us + 3 \<le> f"
  shows "\<exists>cs1 rs w' a ms left. fast_dos f (queue_env g T E tid_of e) q cs1 w = Ret (rs, w') \<and> fasts w' q = Some a \<and> map snd ms = got rs \<and>
    (\<forall>t. by_thread t (entered cs1 rs) = by_thread t ms @ left t) \<and>
    called w' = called w0 @ concat (map (\<lambda>m. map (\<lambda>u. (u, snd m)) us) ms) \<and>
    fast_size a + of_nat (length (got rs)) = of_nat (publications cs1) \<and>
    (cs = cs1 \<or> (\<exists>cs2. cs = cs1 @ Get # cs2 \<and> (\<forall>t. left t = []) \<and> fast_dos f (queue_env g T E tid_of e) q cs w = Blocked))"
proof -
  let ?e = "queue_env g T E tid_of e" and ?holds = "channel_holds T E tid_of threads" and ?P0 = "\<lambda>_ :: nat. [] :: 'd list"
  note Q = blocking_channel_queue [OF assms(6-9,2,4,15), of e]
  obtain out where c: "channel_queue.channel threads ?holds w q out ?P0 0" and p: "channel_queue.pending threads ?P0 = 0"
    and wt: "watched w out us" "called w = called w0" using new_channel_inv [OF assms(1-3,5) Q assms(10,11)] by blast
  have u: "\<And>u d w. usr ?e u d w = Ret w" using assms(12) by (simp add: queue_env_def)
  have len: "channel_queue.pending threads ?P0 + 0 + length cs < 2 ^ 64" using p assms(14) by simp
  obtain cs1 rs w' P' lost' ms where r: "fast_dos f ?e q cs1 w = Ret (rs, w')" "channel_queue.channel threads ?holds w' q out P' lost'"
    "map snd ms = got rs" "\<forall>t. [] @ by_thread t (entered cs1 rs) = by_thread t ms @ P' t"
    "called w' = called w @ concat (map (\<lambda>m. map (\<lambda>u. (u, snd m)) us) ms)"
    "channel_queue.pending threads P' + lost' + length (got rs) = channel_queue.pending threads ?P0 + 0 + publications cs1"
    "cs = cs1 \<or> (\<exists>cs2. cs = cs1 @ Get # cs2 \<and> (\<forall>t. P' t = []) \<and> fast_dos f ?e q cs w = Blocked)"
    using channel_queue.ops_run [OF Q c len assms(13) wt(1) u assms(16)] by (elim exE conjE) (rule that)
  obtain a' where a': "fasts w' q = Some a'" "sem_len (af_sem a') = of_nat (channel_queue.pending threads P' + lost')"
    using r(2) by (auto simp: channel_queue.channel_def [OF Q])
  have "fast_size a' + of_nat (length (got rs)) = of_nat (channel_queue.pending threads P' + lost' + length (got rs))"
    using a'(2) by (simp add: fast_size_def sem_size_def)
  then have "fast_size a' + of_nat (length (got rs)) = of_nat (publications cs1)" using r(6) p by simp
  with r a' wt(2) show ?thesis
    by (intro exI [of _ cs1] exI [of _ rs] exI [of _ w'] exI [of _ a'] exI [of _ ms] exI [of _ P']) simp
qed

definition small_ops_run :: "nat fast_op list" where
  "small_ops_run = [Publish 0 1, Publish 1 2, Get, Publish 0 3, Get, Get, Get]"

lemma small_channel:
  assumes "ok 0" "ok (Suc 0)"
  obtains q w1 w where "fast_new_alloc small_traits 0 6 (mem_new 100 ok) (empty_world :: (nat, nat blocking_queue) world) = Ret (q, w1)"
    "fast_connects q us w1 = Ret w"
proof -
  have "\<exists>b. BlockingConcurrentQueue small_traits 0 6 (mem_new 100 ok) = Ret (b :: nat blocking_queue)"
    using assms by (simp add: BlockingConcurrentQueue_def make_blocking_def malloc_def ConcurrentQueue_def queue_with_blocks_def
        populate_initial_block_list_def mem_new_def Let_def)
  then obtain b :: "nat blocking_queue" where "BlockingConcurrentQueue small_traits 0 6 (mem_new 100 ok) = Ret b" by blast
  then obtain q and w1 :: "(nat, nat blocking_queue) world" where w1: "fast_new_alloc small_traits 0 6 (mem_new 100 ok) empty_world = Ret (q, w1)"
    "fasts w1 q = Some \<lparr>af_output = 0, af_queue = b, af_sem = semaphore_new 0\<rparr>" "syncs w1 0 = Some \<lparr>registered = [], conns = []\<rparr>"
    by (simp add: fast_new_alloc_def fast_new_with_def sync_new_def empty_world_def)
  from fast_connects_watched [OF w1(2), of _ "[]" us] w1(3) obtain w where "fast_connects q us w1 = Ret w" by auto
  with w1(1) that show ?thesis by blast
qed

theorem fast_channel_delivers_witness:
  "\<exists>q w cs1 rs w' a ms left. fast_dos 5 small_env q cs1 w = Ret (rs, w') \<and> fasts w' q = Some a \<and> map snd ms = got rs \<and>
    (\<forall>t. by_thread t (entered cs1 rs) = by_thread t ms @ left t) \<and>
    called w' = concat (map (\<lambda>m. map (\<lambda>u. (u, snd m)) [7, 9]) ms) \<and>
    fast_size a + of_nat (length (got rs)) = of_nat (publications cs1) \<and>
    (small_ops_run = cs1 \<or> (\<exists>cs2. small_ops_run = cs1 @ Get # cs2 \<and> (\<forall>t. left t = []) \<and> fast_dos 5 small_env q small_ops_run w = Blocked))"
proof -
  obtain q w1 w where w: "fast_new_alloc small_traits 0 6 (mem_new 100 (\<lambda>_. True)) (empty_world :: (nat, nat blocking_queue) world) = Ret (q, w1)"
    "fast_connects q [7, 9] w1 = Ret w" using small_channel [of "\<lambda>_. True" "[7, 9]"] by blast
  have l: "(100 :: nat) * bsz small_traits < 2 ^ 63" by (simp add: small_traits_def ConcurrentQueueDefaultTraits_def)
  have u: "usr quiet_env u (d :: nat) v = Ret v" for u d v by (simp add: quiet_env_def)
  have c: "\<forall>t d. Publish t d \<in> set small_ops_run \<longrightarrow> t \<in> {0, 1, 2}" "length small_ops_run < 2 ^ 64" by (auto simp: small_ops_run_def)
  have f: "finite {0, 1, 2 :: nat}" "card {0, 1, 2 :: nat} < 2 ^ 32" "length [7, 9 :: nat] + 3 \<le> 5" by simp_all
  from fast_channel_delivers [OF small_traits_ok small_ops(3,2,1) l f(1,2) small_threads w u c zero_less_one f(3)]
  show ?thesis by (simp only: empty_world_def world.simps append_Nil) blast
qed

text \<open>
  C26. \<open>operator()\<close> does not look at what \<open>enqueue\<close> says and notifies in any case. When the queue refuses
  the message, for want of memory, the message is lost and the channel claims to have one: \<open>empty()\<close> is
  false, and \<open>update()\<close>, which is meant not to block, blocks in the dequeue.
\<close>

theorem fast_refused_publish_blocks_update:
  fixes E :: "'d elem_ops"
  assumes "traits_ok T" "INITIAL_IMPLICIT_PRODUCER_HASH_SIZE T \<noteq> 0" and "\<forall>x. \<not> raises E x" and "\<forall>x. \<not> assign_raises E x" and "limit * bsz T < 2 ^ 63"
    and "finite threads" "card threads < 2 ^ 32" "inj_on tid_of threads" "\<forall>t \<in> threads. valid_tid (tid_of t)" and "t \<in> threads" and "0 < g"
    and "fast_new_alloc T this cpty (mem_new limit ok) w0 = Ret (q, w1)" and "fast_connects q us w1 = Ret w"
    and "\<not> enqueue_says (queue_env g T E tid_of e) q t d w"
  shows "\<exists>w' a. fast_push (queue_env g T E tid_of e) q d (w\<lparr>tid := t\<rparr>) = Ret w' \<and> fasts w' q = Some a \<and> \<not> fast_empty a \<and> fast_size a = 1 \<and>
    fast_update f (queue_env g T E tid_of e) q w' = Blocked"
proof -
  let ?e = "queue_env g T E tid_of e" and ?holds = "channel_holds T E tid_of threads" and ?P0 = "\<lambda>_ :: nat. [] :: 'd list"
  note Q = blocking_channel_queue [OF assms(6-9,2,4,11), of e]
  obtain out where c: "channel_queue.channel threads ?holds w q out ?P0 0" and p: "channel_queue.pending threads ?P0 = 0"
    using new_channel_inv [OF assms(1-3,5) Q assms(12,13)] by blast
  obtain r w' where w': "fast_do f ?e q (Publish t d) w = Ret (Published r, w')"
    "channel_queue.channel threads ?holds w' q out (if r then ?P0(t := ?P0 t @ [d]) else ?P0) (if r then 0 else Suc 0)"
    using channel_queue.publish_step [OF Q c assms(10), of f d] by blast
  have "\<not> r" and push: "fast_push ?e q d (w\<lparr>tid := t\<rparr>) = Ret w'" using w'(1) assms(14) by (auto simp: and_then_eq_Ret)
  then have c': "channel_queue.channel threads ?holds w' q out ?P0 1" using w'(2) by simp
  then obtain a where a: "fasts w' q = Some a" "sem_len (af_sem a) = 1" using p by (auto simp: channel_queue.channel_def [OF Q])
  have "fast_get f ?e q w' = Blocked"
    using channel_queue.get_sleeps [OF Q c' refl, of f] by (cases "fast_get f ?e q w'") (auto split: prod.splits)
  with a push show ?thesis by (auto simp: fast_update_def fast_empty_def fast_size_def sem_size_def)
qed

lemma small_refusal:
  "(case fast_new_alloc small_traits 0 6 (mem_new 100 (\<lambda>n. n \<le> 1)) (empty_world :: (nat, nat blocking_queue) world) of
      Ret (q, w1) \<Rightarrow> (case fast_connects q [] w1 of Ret w \<Rightarrow> \<not> enqueue_says small_env q 0 42 w | _ \<Rightarrow> False) | _ \<Rightarrow> False)"
  by code_simp

theorem fast_refused_publish_blocks_update_witness:
  "\<exists>q w w' a. fast_push small_env q 42 (w\<lparr>tid := 0\<rparr>) = Ret w' \<and> fasts w' q = Some a \<and> \<not> fast_empty a \<and> fast_update 5 small_env q w' = Blocked"
proof -
  obtain q w1 w where w: "fast_new_alloc small_traits 0 6 (mem_new 100 (\<lambda>n. n \<le> 1)) (empty_world :: (nat, nat blocking_queue) world) = Ret (q, w1)"
    "fast_connects q [] w1 = Ret w" using small_channel [of "\<lambda>n. n \<le> 1" "[]"] by auto
  have l: "(100 :: nat) * bsz small_traits < 2 ^ 63" by (simp add: small_traits_def ConcurrentQueueDefaultTraits_def)
  have f: "finite {0, 1, 2 :: nat}" "card {0, 1, 2 :: nat} < 2 ^ 32" "(0 :: nat) \<in> {0, 1, 2}" by simp_all
  have "\<not> enqueue_says small_env q 0 42 w" using small_refusal w by simp
  from fast_refused_publish_blocks_update [OF small_traits_ok small_ops(3,2,1) l f(1,2) small_threads f(3) zero_less_one w this]
  show ?thesis by blast
qed

text \<open>
  C27. \<open>get(yield)\<close> first takes its unit from the semaphore and then yields while the semaphore is empty. With
  exactly one message in the channel it therefore never gets to the message: as long as nobody publishes
  another one it yields for ever. With more than one it is \<open>get()\<close>.
\<close>

theorem fast_get_yield_needs_two:
  assumes "fasts w q = Some a"
    and "\<And>v b. fasts v q = Some b \<Longrightarrow> sem_size (af_sem b) = 0 \<Longrightarrow> \<exists>v' b'. yld e v = Ret v' \<and> fasts v' q = Some b' \<and> sem_size (af_sem b') = 0"
  shows "(fast_size a = 1 \<longrightarrow> fast_get_yield f e q w = No_Fuel) \<and> (1 < fast_size a \<and> 0 < f \<longrightarrow> fast_get_yield f e q w = fast_get f e q w)"
proof (intro conjI impI)
  have spin: "fast_yield_loop f e q v = No_Fuel" if "fasts v q = Some b" "sem_size (af_sem b) = 0" for v b
    using that
  proof (induction f arbitrary: v b)
    case (Suc f)
    from assms(2) [OF Suc.prems] obtain v' b' where "yld e v = Ret v'" "fasts v' q = Some b'" "sem_size (af_sem b') = 0" by blast
    with Suc show ?case by simp
  qed simp
  show "fast_get_yield f e q w = No_Fuel" if "fast_size a = 1"
    using that assms(1) spin by (simp add: fast_get_yield_def fast_acquire_def fast_size_def sem_defs)
  show "fast_get_yield f e q w = fast_get f e q w" if "1 < fast_size a \<and> 0 < f"
  proof -
    have "sem_len (af_sem a) - 1 \<noteq> 0" "0 < sem_len (af_sem a)"
      using that by (auto simp: fast_size_def sem_size_def word_neq_0_conv [symmetric])
    then show ?thesis using assms(1) that
      by (cases f) (simp_all add: fast_get_yield_def fast_get_def fast_acquire_def sem_defs)
  qed
qed

theorem fast_get_yield_needs_two_witness:
  "(\<forall>f. fast_get_yield f watch_env 1 (empty_world\<lparr>fasts := [1 \<mapsto> \<lparr>af_output = 0, af_queue = [42 :: nat], af_sem = semaphore_new 1\<rparr>]\<rparr>) = No_Fuel) \<and>
   fast_get_yield 5 watch_env 1 (empty_world\<lparr>fasts := [1 \<mapsto> \<lparr>af_output = 0, af_queue = [42 :: nat, 43], af_sem = semaphore_new 2\<rparr>]\<rparr>) =
   fast_get 5 watch_env 1 (empty_world\<lparr>fasts := [1 \<mapsto> \<lparr>af_output = 0, af_queue = [42 :: nat, 43], af_sem = semaphore_new 2\<rparr>]\<rparr>)"
proof (intro conjI allI)
  have y: "\<exists>v' b'. yld watch_env v = Ret v' \<and> fasts v' 1 = Some b' \<and> sem_size (af_sem b') = 0"
    if "fasts v 1 = Some b" "sem_size (af_sem b) = 0" for v :: "(nat, nat list) world" and b
    using that by (simp add: watch_env_def)
  show "fast_get_yield f watch_env 1 (empty_world\<lparr>fasts := [1 \<mapsto> \<lparr>af_output = 0, af_queue = [42 :: nat], af_sem = semaphore_new 1\<rparr>]\<rparr>) = No_Fuel" for f
    using fast_get_yield_needs_two [of "empty_world\<lparr>fasts := [1 \<mapsto> \<lparr>af_output = 0, af_queue = [42 :: nat], af_sem = semaphore_new 1\<rparr>]\<rparr>" 1
        "\<lparr>af_output = 0, af_queue = [42 :: nat], af_sem = semaphore_new 1\<rparr>" watch_env f, OF _ y] by (simp add: fast_size_def sem_defs)
  show "fast_get_yield 5 watch_env 1 (empty_world\<lparr>fasts := [1 \<mapsto> \<lparr>af_output = 0, af_queue = [42 :: nat, 43], af_sem = semaphore_new 2\<rparr>]\<rparr>) =
   fast_get 5 watch_env 1 (empty_world\<lparr>fasts := [1 \<mapsto> \<lparr>af_output = 0, af_queue = [42 :: nat, 43], af_sem = semaphore_new 2\<rparr>]\<rparr>)"
    using fast_get_yield_needs_two [of "empty_world\<lparr>fasts := [1 \<mapsto> \<lparr>af_output = 0, af_queue = [42 :: nat, 43], af_sem = semaphore_new 2\<rparr>]\<rparr>" 1
        "\<lparr>af_output = 0, af_queue = [42 :: nat, 43], af_sem = semaphore_new 2\<rparr>" watch_env 5, OF _ y] by (simp add: fast_size_def sem_defs)
qed

end
