(* ===== verification/Bind.thy ===== *)
theory Bind
  imports Sync
begin

text \<open>
  \<open>bind\<close> (\<^verbatim>\<open>include/bind.h\<close>): one handler, set once.
\<close>

section \<open>Operations\<close>

definition bind_new :: "('d, 'q) world \<Rightarrow> nat \<times> ('d, 'q) world" where
  "bind_new w =
     (fresh w, w\<lparr>binds := (binds w)(fresh w \<mapsto> \<lparr>bd_reg = method_default, bd_connected = False\<rparr>),
                fresh := Suc (fresh w)\<rparr>)"

text \<open>\<open>_connect\<close> stores the bound member function and leaves the flag alone.\<close>

definition bind_connect_bound :: "nat \<Rightarrow> nat \<Rightarrow> ('d, 'q) world \<Rightarrow> ('d, 'q) world outcome" where
  "bind_connect_bound b u w =
     (case binds w b of
        None \<Rightarrow> Undefined
      | Some bo \<Rightarrow> Ret (w\<lparr>binds := (binds w)(b \<mapsto> bo\<lparr>bd_reg := User u\<rparr>)\<rparr>))"

definition bind_connect_member :: "nat \<Rightarrow> nat \<Rightarrow> ('d, 'q) world \<Rightarrow> ('d, 'q) world outcome" where
  "bind_connect_member b u w =
     (case binds w b of
        None \<Rightarrow> Undefined
      | Some bo \<Rightarrow>
          if bd_connected bo then Throws (Runtime_Error ''bind already connected!'')
          else bind_connect_bound b u w)"

definition bind_connect :: "nat \<Rightarrow> callback \<Rightarrow> ('d, 'q) world \<Rightarrow> ('d, 'q) world outcome" where
  "bind_connect b fn w =
     (case binds w b of
        None \<Rightarrow> Undefined
      | Some bo \<Rightarrow>
          if bd_connected bo then Throws (Runtime_Error ''bind already connected!'')
          else Ret (w\<lparr>binds := (binds w)(b \<mapsto> bo\<lparr>bd_reg := fn, bd_connected := True\<rparr>)\<rparr>))"

definition bind_connect_sync :: "nat \<Rightarrow> nat \<Rightarrow> ('d, 'q) world \<Rightarrow> ('d, 'q) world outcome" where
  "bind_connect_sync b callback w = bind_connect b (Call_Sync callback) w"

definition bind_connect_fast :: "nat \<Rightarrow> nat \<Rightarrow> ('d, 'q) world \<Rightarrow> ('d, 'q) world outcome" where
  "bind_connect_fast b queue w = bind_connect b (Push_Fast queue) w"

definition bind_connect_delay ::
  "nat \<Rightarrow> int \<Rightarrow> marktime \<Rightarrow> nat \<Rightarrow> ('d, 'q) world \<Rightarrow> ('d, 'q) world outcome" where
  "bind_connect_delay b priority delay queue w = bind_connect b (Push_Delay_At priority delay queue) w"

definition bind_call :: "nat \<Rightarrow> ('d, 'q) env \<Rightarrow> nat \<Rightarrow> 'd \<Rightarrow> ('d, 'q) world \<Rightarrow> ('d, 'q) world outcome" where
  "bind_call f e b d w =
     (case binds w b of None \<Rightarrow> Undefined | Some bo \<Rightarrow> run_callback f e (bd_reg bo) d w)"

lemmas bind_defs [fes_defs] =
  bind_connect_bound_def bind_connect_member_def bind_connect_def bind_connect_sync_def
  bind_connect_fast_def bind_connect_delay_def bind_call_def

section \<open>Properties\<close>

text \<open>
  C28. A \<open>bind\<close> connected to a function, a \<open>sync\<close> or a channel keeps its handler: every later
  \<open>connect\<close>, of whichever kind, throws \<open>bind already connected!\<close>, and calls go on reaching the
  first handler.
\<close>

theorem bind_connects_once:
  assumes "bind_connect b fn w = Ret w'"
  shows "bind_connect b fn' w' = Throws (Runtime_Error ''bind already connected!'') \<and>
    bind_connect_member b u w' = Throws (Runtime_Error ''bind already connected!'') \<and>
    bind_connect_sync b s w' = Throws (Runtime_Error ''bind already connected!'') \<and>
    bind_connect_fast b q w' = Throws (Runtime_Error ''bind already connected!'') \<and>
    bind_connect_delay b p t q w' = Throws (Runtime_Error ''bind already connected!'') \<and>
    bind_call f e b d w' = run_callback f e fn d w'"
  using assms by (auto simp: bind_defs split: option.splits if_splits)

theorem bind_connects_once_witness:
  "\<exists>w'. bind_connect 0 (User 3) (snd (bind_new (empty_world :: (nat, nat list) world))) = Ret w' \<and>
     bind_connect_fast 0 9 w' = Throws (Runtime_Error ''bind already connected!'')"
proof -
  obtain w' where w': "bind_connect 0 (User 3) (snd (bind_new (empty_world :: (nat, nat list) world))) = Ret w'"
    by (simp add: bind_defs bind_new_def empty_world_def)
  from bind_connects_once [OF w'] w' show ?thesis by blast
qed





end
