(* ===== verification/CQ_Claims.thy ===== *)
theory CQ_Claims
  imports CQ_Details
begin

text \<open>
  Consumers at one sub-queue, step by step (\<open>dequeue\<close> and \<open>dequeue_bulk\<close> of \<open>ExplicitProducer\<close> and
  \<open>ImplicitProducer\<close> in \<^verbatim>\<open>concurrentqueue/concurrentqueue.h\<close>, which share the protocol). Any number of threads
  run it at the same time as the one producer of the sub-queue enqueues; every access to one of the four
  shared counters is a step of its own, in any order of the threads. The blocks behind an index are those
  of the theories on the producers; here a slot is found by its index.
\<close>

section \<open>The protocol\<close>

text \<open>\<open>dequeue\<close> wants one element, \<open>dequeue_bulk\<close> up to \<open>max\<close>.\<close>

datatype job = Single | Bulk "64 word"

text \<open>
  Where a thread is, with its local variables: after loading \<open>tailIndex\<close>; after loading
  \<open>dequeueOvercommit\<close>; before and after its \<open>fetch_add\<close> to \<open>dequeueOptimisticCount\<close>; before adding to
  \<open>dequeueOvercommit\<close> what it will not take; before its \<open>fetch_add\<close> to \<open>headIndex\<close>; and with \<open>n\<close> elements
  from index \<open>i\<close> on to take out.
\<close>

datatype consumer_pc =
  Resting
| Loaded_Tail job "64 word"
| Loaded_Both job "64 word" "64 word"
| Entered job "64 word" "64 word"
| Counted job "64 word" "64 word" "64 word"
| Retreat "64 word" "64 word option"
| Advance "64 word"
| Holding "64 word" "64 word"

text \<open>The first test, on the values loaded; the number of elements that the thread will ask for.\<close>

fun first_test :: "job \<Rightarrow> 64 word \<Rightarrow> 64 word \<Rightarrow> 64 word \<Rightarrow> 64 word option" where
  "first_test Single optimistic overcommit tail = (if circular_less_than (optimistic - overcommit) tail then Some 1 else None)"
| "first_test (Bulk mx) optimistic overcommit tail =
     (let desiredCount = tail - (optimistic - overcommit)
      in if circular_less_than 0 desiredCount then Some (if desiredCount < mx then desiredCount else mx) else None)"

text \<open>The second test, on the thread's own count and the tail loaded again; the number of elements it takes.\<close>

fun second_test :: "job \<Rightarrow> 64 word \<Rightarrow> 64 word \<Rightarrow> 64 word \<Rightarrow> 64 word \<Rightarrow> 64 word option" where
  "second_test Single desiredCount myDequeueCount overcommit tail =
     (if circular_less_than (myDequeueCount - overcommit) tail then Some 1 else None)"
| "second_test (Bulk mx) desiredCount myDequeueCount overcommit tail =
     (let actualCount = tail - (myDequeueCount - overcommit)
      in if circular_less_than 0 actualCount then Some (if desiredCount < actualCount then desiredCount else actualCount) else None)"

definition decision :: "64 word \<Rightarrow> 64 word option \<Rightarrow> consumer_pc" where
  "decision n r = (case r of None \<Rightarrow> Retreat n None | Some a \<Rightarrow> if a < n then Retreat (n - a) (Some a) else Advance a)"

text \<open>
  Ghost state: every unit that a \<open>fetch_add\<close> adds to \<open>dequeueOptimisticCount\<close> is a ticket, numbered in the
  order they were drawn. A ticket is undecided until the second test of its thread, and then either taken or
  failed, with the counter still to be changed at first.
\<close>

datatype ticket = Undecided nat | Taking nat | Taken | Failing nat | Failed

record 'd claims =
  cl_tail :: "64 word"
  cl_head :: "64 word"
  cl_optimistic :: "64 word"
  cl_overcommit :: "64 word"
  cl_slot :: "64 word \<Rightarrow> 'd option"
  cl_storing :: bool \<comment> \<open>the producer has stored an element and not yet moved the tail\<close>
  cl_pc :: "nat \<Rightarrow> consumer_pc"
  cl_in :: "'d list" \<comment> \<open>ghost: the elements stored so far\<close>
  cl_out :: "(nat \<times> 'd) list" \<comment> \<open>ghost: the elements taken out, with their index\<close>
  cl_count :: nat \<comment> \<open>ghost: the number of tickets\<close>
  cl_ticket :: "nat \<Rightarrow> ticket"
  cl_holder :: "nat \<Rightarrow> nat option" \<comment> \<open>ghost: who holds an index and has not taken its element yet\<close>

definition at_pc :: "nat \<Rightarrow> consumer_pc \<Rightarrow> 'd claims \<Rightarrow> 'd claims" where
  "at_pc t p s = s\<lparr>cl_pc := (cl_pc s)(t := p)\<rparr>"

text \<open>The tickets of a thread are decided: \<open>r\<close> of them, the first ones, are to be taken.\<close>

definition decide :: "nat \<Rightarrow> nat \<Rightarrow> nat \<Rightarrow> (nat \<Rightarrow> ticket) \<Rightarrow> nat \<Rightarrow> ticket" where
  "decide t c a tk = (\<lambda>k. if tk k = Undecided t then if k < c + a then Taking t else Failing t else tk k)"

definition settle :: "ticket \<Rightarrow> ticket \<Rightarrow> (nat \<Rightarrow> ticket) \<Rightarrow> nat \<Rightarrow> ticket" where
  "settle x y tk = (\<lambda>k. if tk k = x then y else tk k)"

inductive claim_step :: "'d claims \<Rightarrow> 'd claims \<Rightarrow> bool" where
  store: "\<not> cl_storing s \<Longrightarrow>
    claim_step s (s\<lparr>cl_slot := (cl_slot s)(cl_tail s \<mapsto> x), cl_storing := True, cl_in := cl_in s @ [x]\<rparr>)"
| publish: "cl_storing s \<Longrightarrow> claim_step s (s\<lparr>cl_tail := cl_tail s + 1, cl_storing := False\<rparr>)"
| load_tail: "cl_pc s t = Resting \<Longrightarrow> claim_step s (at_pc t (Loaded_Tail j (cl_tail s)) s)"
| load_overcommit: "cl_pc s t = Loaded_Tail j ld \<Longrightarrow> claim_step s (at_pc t (Loaded_Both j ld (cl_overcommit s)) s)"
| enter: "cl_pc s t = Loaded_Both j ld ov \<Longrightarrow> first_test j (cl_optimistic s) ov ld = Some n \<Longrightarrow>
    claim_step s (at_pc t (Entered j n ov) s)"
| leave: "cl_pc s t = Loaded_Both j ld ov \<Longrightarrow> first_test j (cl_optimistic s) ov ld = None \<Longrightarrow> claim_step s (at_pc t Resting s)"
| count: "cl_pc s t = Entered j n ov \<Longrightarrow>
    claim_step s (at_pc t (Counted j n ov (cl_optimistic s)) (s\<lparr>cl_optimistic := cl_optimistic s + n,
      cl_count := cl_count s + unat n,
      cl_ticket := (\<lambda>k. if cl_count s \<le> k \<and> k < cl_count s + unat n then Undecided t else cl_ticket s k)\<rparr>))"
| test: "cl_pc s t = Counted j n ov c \<Longrightarrow> r = second_test j n c ov (cl_tail s) \<Longrightarrow>
    claim_step s (at_pc t (decision n r)
      (s\<lparr>cl_ticket := decide t (unat c) (case r of None \<Rightarrow> 0 | Some a \<Rightarrow> unat a) (cl_ticket s)\<rparr>))"
| retreat: "cl_pc s t = Retreat k r \<Longrightarrow>
    claim_step s (at_pc t (case r of None \<Rightarrow> Resting | Some a \<Rightarrow> Advance a)
      (s\<lparr>cl_overcommit := cl_overcommit s + k, cl_ticket := settle (Failing t) Failed (cl_ticket s)\<rparr>))"
| advance: "cl_pc s t = Advance n \<Longrightarrow>
    claim_step s (at_pc t (Holding (cl_head s) n) (s\<lparr>cl_head := cl_head s + n,
      cl_ticket := settle (Taking t) Taken (cl_ticket s),
      cl_holder := (\<lambda>i. if unat (cl_head s) \<le> i \<and> i < unat (cl_head s) + unat n then Some t else cl_holder s i)\<rparr>))"
| take: "cl_pc s t = Holding i n \<Longrightarrow> n \<noteq> 0 \<Longrightarrow> cl_slot s i = Some x \<Longrightarrow>
    claim_step s (at_pc t (Holding (i + 1) (n - 1)) (s\<lparr>cl_slot := (cl_slot s)(i := None), cl_out := cl_out s @ [(unat i, x)],
      cl_holder := (cl_holder s)(unat i := None)\<rparr>))"
| finish: "cl_pc s t = Holding i 0 \<Longrightarrow> claim_step s (at_pc t Resting s)"

definition claims_new :: "'d claims" where
  "claims_new = \<lparr>cl_tail = 0, cl_head = 0, cl_optimistic = 0, cl_overcommit = 0, cl_slot = (\<lambda>_. None), cl_storing = False,
     cl_pc = (\<lambda>_. Resting), cl_in = [], cl_out = [], cl_count = 0, cl_ticket = (\<lambda>_. Failed), cl_holder = (\<lambda>_. None)\<rparr>"

section \<open>The invariant\<close>

definition held :: "'d claims \<Rightarrow> ticket \<Rightarrow> nat set" where
  "held s x = {k. k < cl_count s \<and> cl_ticket s k = x}"

definition failed :: "'d claims \<Rightarrow> nat \<Rightarrow> bool" where
  "failed s k \<longleftrightarrow> cl_ticket s k = Failed \<or> (\<exists>t. cl_ticket s k = Failing t)"

definition claimed :: "'d claims \<Rightarrow> nat set" where
  "claimed s = {k. k < cl_count s \<and> (cl_ticket s k = Taken \<or> (\<exists>t. cl_ticket s k = Taking t))}"

definition ntail :: "'d claims \<Rightarrow> nat" where
  "ntail s = length (cl_in s) - (if cl_storing s then 1 else 0)"

abbreviation nhead :: "'d claims \<Rightarrow> nat" where
  "nhead s \<equiv> card (held s Taken)"

definition quiet :: "'d claims \<Rightarrow> nat \<Rightarrow> bool" where
  "quiet s t \<longleftrightarrow> held s (Undecided t) = {} \<and> held s (Taking t) = {} \<and> held s (Failing t) = {}"

text \<open>
  What a thread knows: the overcommit it loaded counts tickets that had failed before it drew its own.
\<close>

fun pc_ok :: "'d claims \<Rightarrow> nat \<Rightarrow> consumer_pc \<Rightarrow> bool" where
  "pc_ok s t Resting \<longleftrightarrow> quiet s t"
| "pc_ok s t (Loaded_Tail j ld) \<longleftrightarrow> quiet s t"
| "pc_ok s t (Loaded_Both j ld ov) \<longleftrightarrow> quiet s t \<and> (\<exists>m \<le> card (held s Failed). ov = of_nat m)"
| "pc_ok s t (Entered j n ov) \<longleftrightarrow> quiet s t \<and> (j = Single \<longrightarrow> n = 1) \<and> (\<exists>m \<le> card (held s Failed). ov = of_nat m)"
| "pc_ok s t (Counted j n ov c) \<longleftrightarrow> held s (Taking t) = {} \<and> held s (Failing t) = {} \<and> (j = Single \<longrightarrow> n = 1) \<and>
     unat c + unat n \<le> cl_count s \<and> held s (Undecided t) = {unat c..<unat c + unat n} \<and>
     (\<exists>m \<le> card {k. k < unat c \<and> failed s k}. ov = of_nat m)"
| "pc_ok s t (Retreat k r) \<longleftrightarrow> held s (Undecided t) = {} \<and> card (held s (Failing t)) = unat k \<and>
     card (held s (Taking t)) = (case r of None \<Rightarrow> 0 | Some a \<Rightarrow> unat a)"
| "pc_ok s t (Advance n) \<longleftrightarrow> held s (Undecided t) = {} \<and> held s (Failing t) = {} \<and> card (held s (Taking t)) = unat n"
| "pc_ok s t (Holding i n) \<longleftrightarrow> quiet s t \<and> unat i + unat n \<le> nhead s \<and>
     (\<forall>j. unat i \<le> j \<and> j < unat i + unat n \<longrightarrow> cl_holder s j = Some t)"

definition counters_ok :: "'d claims \<Rightarrow> bool" where
  "counters_ok s \<longleftrightarrow> cl_optimistic s = of_nat (cl_count s) \<and> cl_overcommit s = of_nat (card (held s Failed)) \<and>
     cl_head s = of_nat (nhead s) \<and> cl_tail s = of_nat (ntail s) \<and> (cl_storing s \<longrightarrow> cl_in s \<noteq> [])"

text \<open>Up to a ticket that was taken, no more tickets have not failed than there are elements.\<close>

definition backed :: "'d claims \<Rightarrow> bool" where
  "backed s \<longleftrightarrow> (\<forall>k \<in> claimed s. card {j. j \<le> k \<and> \<not> failed s j} \<le> ntail s)"

definition contents_ok :: "'d claims \<Rightarrow> bool" where
  "contents_ok s \<longleftrightarrow> (\<forall>j < length (cl_in s). nhead s \<le> j \<or> cl_holder s j \<noteq> None \<longrightarrow> cl_slot s (of_nat j) = Some (cl_in s ! j)) \<and>
     distinct (map fst (cl_out s)) \<and> (\<forall>(j, x) \<in> set (cl_out s). j < nhead s \<and> cl_holder s j = None \<and> x = cl_in s ! j)"

definition claims_inv :: "'d claims \<Rightarrow> bool" where
  "claims_inv s \<longleftrightarrow> counters_ok s \<and> (\<forall>t. pc_ok s t (cl_pc s t)) \<and> backed s \<and> contents_ok s"

definition small_run :: "'d claims \<Rightarrow> bool" where
  "small_run s \<longleftrightarrow> cl_count s < 2 ^ 62 \<and> length (cl_in s) < 2 ^ 62"

lemma finite_held [simp]: "finite (held s x)" "finite (claimed s)"
  by (simp_all add: held_def claimed_def)

lemma held_same: "cl_count s' = cl_count s \<Longrightarrow> cl_ticket s' = cl_ticket s \<Longrightarrow> held s' = held s \<and> failed s' = failed s \<and> claimed s' = claimed s"
  by (simp add: held_def failed_def claimed_def fun_eq_iff)

lemma small_run_step: "claim_step s s' \<Longrightarrow> small_run s' \<Longrightarrow> small_run s"
  by (induction rule: claim_step.induct) (auto simp: small_run_def at_pc_def)

text \<open>What other threads do does not matter to a thread.\<close>

lemma pc_ok_frame:
  assumes ok: "pc_ok s t p" and h: "held s' (Undecided t) = held s (Undecided t)" "held s' (Taking t) = held s (Taking t)" "held s' (Failing t) = held s (Failing t)"
    and mono: "held s Failed \<subseteq> held s' Failed" "held s Taken \<subseteq> held s' Taken" "cl_count s \<le> cl_count s'"
    and fail: "\<And>k. k < cl_count s \<Longrightarrow> failed s k \<Longrightarrow> failed s' k"
    and hold: "\<And>j. j < nhead s \<Longrightarrow> cl_holder s j = Some t \<Longrightarrow> cl_holder s' j = Some t"
  shows "pc_ok s' t p"
proof -
  have q: "quiet s' t = quiet s t" using h by (simp add: quiet_def)
  have c: "card (held s Failed) \<le> card (held s' Failed)" "nhead s \<le> nhead s'" using mono by (simp_all add: card_mono)
  have f: "card {k. k < c \<and> failed s k} \<le> card {k. k < c \<and> failed s' k}" if "c \<le> cl_count s" for c
    using fail that by (intro card_mono) auto
  show ?thesis
  proof (cases p)
    case (Counted j n ov c)
    then have "unat c \<le> cl_count s" using ok by simp
    from f [OF this] ok Counted h mono(3) show ?thesis by (auto intro: order.trans)
  next
    case (Holding i n)
    then show ?thesis using ok q c(2) hold by auto
  qed (use ok q h c in \<open>auto intro: order.trans\<close>)
qed

text \<open>Every ticket that is taken is backed by an element of its own.\<close>

lemma claimed_le_tail:
  assumes "backed s"
  shows "card (claimed s) \<le> ntail s"
proof (cases "claimed s = {}")
  case False
  let ?k = "Max (claimed s)"
  have k: "?k \<in> claimed s" using False by (intro Max_in) simp_all
  have "claimed s \<subseteq> {j. j \<le> ?k \<and> \<not> failed s j}" by (auto simp: claimed_def failed_def intro!: Max_ge)
  then have "card (claimed s) \<le> card {j. j \<le> ?k \<and> \<not> failed s j}" by (intro card_mono) auto
  also have "\<dots> \<le> ntail s" using assms k by (simp add: backed_def)
  finally show ?thesis .
qed simp

lemma head_le_tail:
  assumes "backed s"
  shows "nhead s + card (held s (Taking t)) \<le> ntail s"
proof -
  have "held s Taken \<inter> held s (Taking t) = {}" "held s Taken \<union> held s (Taking t) \<subseteq> claimed s" by (auto simp: held_def claimed_def)
  then have "nhead s + card (held s (Taking t)) \<le> card (claimed s)" by (metis card_Un_disjoint card_mono finite_held)
  with claimed_le_tail [OF assms] show ?thesis by simp
qed

section \<open>Each step keeps it\<close>

lemma at_pc_simps [simp]:
  "held (at_pc t p s) = held s" "failed (at_pc t p s) = failed s" "claimed (at_pc t p s) = claimed s" "ntail (at_pc t p s) = ntail s"
  "cl_pc (at_pc t p s) = (cl_pc s)(t := p)" "cl_in (at_pc t p s) = cl_in s" "cl_count (at_pc t p s) = cl_count s"
  "counters_ok (at_pc t p s) = counters_ok s" "backed (at_pc t p s) = backed s" "contents_ok (at_pc t p s) = contents_ok s"
  "cl_out (at_pc t p s) = cl_out s" "cl_holder (at_pc t p s) = cl_holder s" "cl_slot (at_pc t p s) = cl_slot s"
  by (simp_all add: at_pc_def held_def failed_def claimed_def ntail_def counters_ok_def backed_def contents_ok_def fun_eq_iff)

lemma pc_ok_at_pc [simp]: "pc_ok (at_pc t p s) u q = pc_ok s u q"
  by (cases q) (simp_all add: quiet_def)

lemma at_pc_inv:
  assumes "counters_ok s" and "\<And>u. u \<noteq> t \<Longrightarrow> pc_ok s u (cl_pc s u)" and "pc_ok s t p" and "backed s" and "contents_ok s"
  shows "claims_inv (at_pc t p s)"
  using assms by (simp add: claims_inv_def)

lemma claims_invD:
  assumes "claims_inv s"
  shows "counters_ok s" "pc_ok s t (cl_pc s t)" "backed s" "contents_ok s"
  using assms by (simp_all add: claims_inv_def)

lemma of_nat_eq_small: "m < 2 ^ 64 \<Longrightarrow> n < 2 ^ 64 \<Longrightarrow> (of_nat m :: 64 word) = of_nat n \<longleftrightarrow> m = n"
  by (metis unat_of_nat_64)

lemma contents_okI:
  assumes "\<And>j. j < length (cl_in s) \<Longrightarrow> nhead s \<le> j \<or> cl_holder s j \<noteq> None \<Longrightarrow> cl_slot s (of_nat j) = Some (cl_in s ! j)"
    and "distinct (map fst (cl_out s))" and "\<And>j x. (j, x) \<in> set (cl_out s) \<Longrightarrow> j < nhead s \<and> cl_holder s j = None \<and> x = cl_in s ! j"
  shows "contents_ok s"
  using assms unfolding contents_ok_def by blast

lemma contents_okD:
  assumes "contents_ok s"
  shows "j < length (cl_in s) \<Longrightarrow> nhead s \<le> j \<or> cl_holder s j \<noteq> None \<Longrightarrow> cl_slot s (of_nat j) = Some (cl_in s ! j)"
    and "distinct (map fst (cl_out s))" and "(j, x) \<in> set (cl_out s) \<Longrightarrow> j < nhead s \<and> cl_holder s j = None \<and> x = cl_in s ! j"
  using assms unfolding contents_ok_def by blast+

lemma store_inv:
  assumes inv: "claims_inv s" and st: "\<not> cl_storing s" and sm: "length (cl_in s) < 2 ^ 62"
  shows "claims_inv (s\<lparr>cl_slot := (cl_slot s)(cl_tail s \<mapsto> x), cl_storing := True, cl_in := cl_in s @ [x]\<rparr>)" (is "claims_inv ?s")
proof -
  define s' where "s' = ?s"
  note I = claims_invD [OF inv]
  have h: "held s' = held s" "failed s' = failed s" "claimed s' = claimed s" using held_same [of s' s] by (simp_all add: s'_def)
  have n: "ntail s' = ntail s" "ntail s = length (cl_in s)" using st by (simp_all add: ntail_def s'_def)
  have F: "cl_slot s' = (cl_slot s)(cl_tail s \<mapsto> x)" "cl_in s' = cl_in s @ [x]" "cl_out s' = cl_out s" "cl_holder s' = cl_holder s"
    "cl_pc s' = cl_pc s" "cl_count s' = cl_count s" by (simp_all add: s'_def)
  have "pc_ok s' t (cl_pc s' t)" for t
    using pc_ok_frame [OF I(2) [of t], of s'] h F by simp
  moreover have "contents_ok s'"
  proof (rule contents_okI)
    have tl: "cl_tail s = of_nat (length (cl_in s))" using I(1) n(2) by (simp add: counters_ok_def)
    have old: "cl_tail s \<noteq> of_nat j" if "j < length (cl_in s)" for j
      using tl sm that of_nat_eq_small [of "length (cl_in s)" j] by simp
    show "cl_slot s' (of_nat j) = Some (cl_in s' ! j)" if "j < length (cl_in s')" "nhead s' \<le> j \<or> cl_holder s' j \<noteq> None" for j
    proof (cases "j = length (cl_in s)")
      case True
      then show ?thesis using tl by (simp add: F)
    next
      case False
      then have j: "j < length (cl_in s)" using that(1) F(2) by simp
      have "cl_slot s (of_nat j) = Some (cl_in s ! j)" using contents_okD(1) [OF I(4) j] that(2) h F(4) by simp
      then show ?thesis using old [OF j] j by (simp add: F nth_append)
    qed
    show "distinct (map fst (cl_out s'))" using contents_okD(2) [OF I(4)] F by simp
    show "j < nhead s' \<and> cl_holder s' j = None \<and> y = cl_in s' ! j" if "(j, y) \<in> set (cl_out s')" for j y
      using contents_okD(3) [OF I(4), of j y] that head_le_tail [OF I(3), of 0] n(2) by (simp add: h F nth_append)
  qed
  moreover have "counters_ok s'" "backed s'" using I(1,3) n F h by (simp_all add: counters_ok_def backed_def) (simp_all add: s'_def)
  ultimately show ?thesis unfolding s'_def [symmetric] by (simp add: claims_inv_def)
qed

lemma publish_inv:
  assumes inv: "claims_inv s" and st: "cl_storing s"
  shows "claims_inv (s\<lparr>cl_tail := cl_tail s + 1, cl_storing := False\<rparr>)" (is "claims_inv ?s")
proof -
  note I = claims_invD [OF inv]
  have h: "held ?s = held s" "failed ?s = failed s" "claimed ?s = claimed s" using held_same [of ?s s] by simp_all
  have n: "ntail ?s = Suc (ntail s)" using st I(1) by (cases "cl_in s") (simp_all add: ntail_def counters_ok_def)
  have "pc_ok ?s t (cl_pc ?s t)" for t
    using pc_ok_frame [OF I(2) [of t], of ?s] h by simp
  then show ?thesis using I h n by (auto simp: claims_inv_def counters_ok_def backed_def contents_ok_def intro: le_SucI)
qed

text \<open>Drawing tickets.\<close>

lemma count_inv:
  assumes inv: "claims_inv s" and p: "cl_pc s t = Entered j n ov" and sm: "cl_count s + unat n < 2 ^ 62"
  shows "claims_inv (at_pc t (Counted j n ov (cl_optimistic s)) (s\<lparr>cl_optimistic := cl_optimistic s + n,
      cl_count := cl_count s + unat n,
      cl_ticket := (\<lambda>k. if cl_count s \<le> k \<and> k < cl_count s + unat n then Undecided t else cl_ticket s k)\<rparr>))"
    (is "claims_inv (at_pc t ?p ?s)")
proof (rule at_pc_inv)
  note I = claims_invD [OF inv]
  have ok: "quiet s t" "j = Single \<longrightarrow> n = 1" "\<exists>m \<le> card (held s Failed). ov = of_nat m" using I(2) [of t] p by simp_all
  have h: "held ?s x = held s x" if "x \<noteq> Undecided t" for x using that by (auto simp: held_def)
  have "cl_ticket s k \<noteq> Undecided t" if "k < cl_count s" for k using ok(1) that by (auto simp: held_def quiet_def)
  then have u: "held ?s (Undecided t) = {cl_count s..<cl_count s + unat n}" by (auto simp: held_def not_less [symmetric])
  have f: "failed ?s k = failed s k" if "k < cl_count s" for k using that by (simp add: failed_def)
  have c: "unat (cl_optimistic s) = cl_count s" using I(1) sm by (simp add: counters_ok_def unat_of_nat_64)
  have "claimed ?s = claimed s" by (auto simp: claimed_def)
  moreover have "card {i. i \<le> k \<and> \<not> failed ?s i} = card {i. i \<le> k \<and> \<not> failed s i}" if "k \<in> claimed s" for k
    using that f by (intro arg_cong [of _ _ card]) (auto simp: claimed_def)
  ultimately show "backed ?s" using I(3) by (simp add: backed_def ntail_def)
  show "counters_ok ?s" using I(1) h by (simp add: counters_ok_def ntail_def)
  show "contents_ok ?s" using I(4) h by (simp add: contents_ok_def)
  show "pc_ok ?s v (cl_pc ?s v)" if "v \<noteq> t" for v
    using pc_ok_frame [OF I(2) [of v], of ?s] h f that by simp
  have "card (held s Failed) \<le> card {k. k < cl_count s \<and> failed ?s k}" using f by (intro card_mono) (auto simp: held_def failed_def)
  then show "pc_ok ?s t ?p" using ok u h c by (auto simp: quiet_def intro: order.trans)
qed

text \<open>The second test: what a thread takes is backed by elements beyond those of the tickets before its own.\<close>

lemma second_test_backed:
  assumes r: "second_test j n c ov (of_nat T) = Some a" and ov: "ov = of_nat m" "m \<le> unat c" and one: "j = Single \<longrightarrow> n = 1"
    and small: "unat c < 2 ^ 62" "T < 2 ^ 62"
  shows "a \<le> n \<and> unat c + unat a \<le> m + T"
proof -
  let ?d = "unat c - m"
  have c: "c - ov = of_nat ?d" using ov by (simp add: of_nat_diff)
  have less: "circular_less_than (of_nat ?d) (of_nat T) \<longleftrightarrow> ?d < T" using small by (intro circular_less_than_nat) simp_all
  show ?thesis
  proof (cases j)
    case Single
    then show ?thesis using r one less ov(2) by (auto simp: c split: if_splits)
  next
    case (Bulk mx)
    have eq: "circular_less_than 0 (of_nat T - of_nat ?d) = circular_less_than (of_nat ?d) (of_nat T)" by (simp add: circular_less_than_def)
    note r [unfolded Bulk second_test.simps Let_def c eq less]
    then have lt: "?d < T" and a: "a = (if n < of_nat T - of_nat ?d then n else of_nat T - of_nat ?d)" by (auto split: if_splits)
    have "(of_nat T - of_nat ?d :: 64 word) = of_nat (T - ?d)" using lt by (simp add: of_nat_diff)
    then have "unat (of_nat T - of_nat ?d :: 64 word) = T - ?d" using small by (simp add: unat_of_nat_64)
    then have "a \<le> n" "unat a \<le> T - ?d" unfolding a by (auto simp: word_le_nat_alt word_less_nat_alt)
    then show ?thesis using lt ov(2) by linarith
  qed
qed

lemma test_inv:
  assumes inv: "claims_inv s" and p: "cl_pc s t = Counted j n ov c" and sm: "small_run s" and r: "r = second_test j n c ov (cl_tail s)"
  shows "claims_inv (at_pc t (decision n r) (s\<lparr>cl_ticket := decide t (unat c) (case r of None \<Rightarrow> 0 | Some a \<Rightarrow> unat a) (cl_ticket s)\<rparr>))"
proof -
  define a where "a = (case r of None \<Rightarrow> 0 | Some a \<Rightarrow> unat a)"
  define s' where "s' = s\<lparr>cl_ticket := decide t (unat c) a (cl_ticket s)\<rparr>"
  note I = claims_invD [OF inv]
  have ok: "held s (Taking t) = {}" "held s (Failing t) = {}" "j = Single \<longrightarrow> n = 1" "unat c + unat n \<le> cl_count s"
    "held s (Undecided t) = {unat c..<unat c + unat n}" using I(2) [of t] p by simp_all
  obtain m where m: "ov = of_nat m" "m \<le> card {k. k < unat c \<and> failed s k}" using I(2) [of t] p by auto
  have "card {k. k < unat c \<and> failed s k} \<le> card {..<unat c}" by (intro card_mono) auto
  then have mc: "m \<le> unat c" using m(2) by simp
  have ntl: "ntail s \<le> length (cl_in s)" by (simp add: ntail_def)
  have small: "unat c < 2 ^ 62" "ntail s < 2 ^ 62" using ok(4) sm ntl by (simp_all add: small_run_def)
  have tl: "cl_tail s = of_nat (ntail s)" using I(1) by (simp add: counters_ok_def)
  have bk: "aw \<le> n \<and> unat c + unat aw \<le> m + ntail s" if "r = Some aw" for aw
    using second_test_backed [OF _ m(1) mc ok(3) small] r that tl by metis
  have an: "a \<le> unat n" "0 < a \<Longrightarrow> unat c + a \<le> m + ntail s" using bk by (auto simp: a_def word_le_nat_alt split: option.splits)
  have F: "cl_pc s' = cl_pc s" "cl_count s' = cl_count s" "cl_in s' = cl_in s" "cl_out s' = cl_out s" "cl_holder s' = cl_holder s"
    "cl_slot s' = cl_slot s" "ntail s' = ntail s" "cl_ticket s' = decide t (unat c) a (cl_ticket s)" by (simp_all add: s'_def ntail_def)
  have h: "held s' x = held s x" if "x \<notin> {Undecided t, Taking t, Failing t}" for x using that by (auto simp: held_def F decide_def)
  have ht: "held s' (Undecided t) = {}" by (auto simp: held_def F decide_def)
  have raw: "held s' (Taking t) = held s (Taking t) \<union> {k \<in> held s (Undecided t). k < unat c + a}"
    "held s' (Failing t) = held s (Failing t) \<union> {k \<in> held s (Undecided t). \<not> k < unat c + a}" by (auto simp: held_def F decide_def)
  have hT: "held s' (Taking t) = {unat c..<unat c + a}" and hF: "held s' (Failing t) = {unat c + a..<unat c + unat n}"
    unfolding raw ok(1,2,5) using an(1) by auto
  have f: "failed s k \<Longrightarrow> failed s' k" for k by (auto simp: failed_def F decide_def)
  have "claimed s' = claimed s \<union> held s' (Taking t)" by (auto simp: claimed_def held_def F decide_def)
  then have cl: "claimed s' = claimed s \<union> {unat c..<unat c + a}" by (simp only: hT)
  have "backed s'"
  proof (unfold backed_def, intro ballI)
    fix k assume "k \<in> claimed s'"
    then consider "k \<in> claimed s" | "unat c \<le> k" "k < unat c + a" using cl by auto
    then show "card {i. i \<le> k \<and> \<not> failed s' i} \<le> ntail s'"
    proof cases
      case 1
      have "card {i. i \<le> k \<and> \<not> failed s' i} \<le> card {i. i \<le> k \<and> \<not> failed s i}" using f by (intro card_mono) auto
      with 1 I(3) F(7) show ?thesis by (auto simp: backed_def)
    next
      case 2
      have "{i. i \<le> k \<and> \<not> failed s' i} \<subseteq> {..k} - {i. i < unat c \<and> failed s i}" using f by auto
      then have "card {i. i \<le> k \<and> \<not> failed s' i} \<le> card ({..k} - {i. i < unat c \<and> failed s i})" by (intro card_mono) auto
      also have "\<dots> = Suc k - card {i. i < unat c \<and> failed s i}" using 2 by (subst card_Diff_subset) auto
      finally show ?thesis using m(2) an(2) 2 F(7) by linarith
    qed
  qed
  moreover have "counters_ok s'" using I(1) h F by (simp add: counters_ok_def) (simp add: s'_def)
  moreover have "contents_ok s'" using I(4) h F by (simp add: contents_ok_def)
  moreover have "pc_ok s' v (cl_pc s' v)" if "v \<noteq> t" for v
    unfolding F(1) by (rule pc_ok_frame [OF I(2) [of v]]) (use that h f F in auto)
  moreover have "pc_ok s' t (decision n r)"
  proof (cases r)
    case None
    then show ?thesis using ht hT hF by (simp add: decision_def a_def)
  next
    case (Some aw)
    with bk have "aw \<le> n" by blast
    then show ?thesis using ht hT hF Some by (auto simp: decision_def a_def unat_sub word_le_nat_alt word_less_nat_alt not_less)
  qed
  ultimately show ?thesis unfolding a_def [symmetric] s'_def [symmetric] by (intro at_pc_inv)
qed

text \<open>Settling tickets: the counter catches up with what the thread decided.\<close>

lemma settled:
  assumes "cl_count s' = cl_count s" and "cl_ticket s' = settle x y (cl_ticket s)" and "x \<noteq> y"
  shows "held s' x = {}" "held s' y = held s y \<union> held s x" "z \<noteq> x \<Longrightarrow> z \<noteq> y \<Longrightarrow> held s' z = held s z"
    "card (held s' y) = card (held s y) + card (held s x)"
proof -
  show "held s' x = {}" and u: "held s' y = held s y \<union> held s x" and "z \<noteq> x \<Longrightarrow> z \<noteq> y \<Longrightarrow> held s' z = held s z"
    using assms by (auto simp: held_def settle_def)
  have "held s y \<inter> held s x = {}" using assms(3) by (auto simp: held_def)
  then show "card (held s' y) = card (held s y) + card (held s x)" unfolding u by (simp add: card_Un_disjoint)
qed

lemma backed_same: "backed s \<Longrightarrow> claimed s' = claimed s \<Longrightarrow> failed s' = failed s \<Longrightarrow> ntail s' = ntail s \<Longrightarrow> backed s'"
  by (simp add: backed_def)

lemma retreat_inv:
  assumes inv: "claims_inv s" and p: "cl_pc s t = Retreat k r"
  shows "claims_inv (at_pc t (case r of None \<Rightarrow> Resting | Some a \<Rightarrow> Advance a)
      (s\<lparr>cl_overcommit := cl_overcommit s + k, cl_ticket := settle (Failing t) Failed (cl_ticket s)\<rparr>))"
proof -
  define s' where "s' = s\<lparr>cl_overcommit := cl_overcommit s + k, cl_ticket := settle (Failing t) Failed (cl_ticket s)\<rparr>"
  note I = claims_invD [OF inv]
  have ok: "held s (Undecided t) = {}" "card (held s (Failing t)) = unat k" "card (held s (Taking t)) = (case r of None \<Rightarrow> 0 | Some a \<Rightarrow> unat a)"
    using I(2) [of t] p by simp_all
  have F: "cl_pc s' = cl_pc s" "cl_count s' = cl_count s" "cl_in s' = cl_in s" "cl_out s' = cl_out s" "cl_holder s' = cl_holder s"
    "cl_slot s' = cl_slot s" "ntail s' = ntail s" "cl_ticket s' = settle (Failing t) Failed (cl_ticket s)" by (simp_all add: s'_def ntail_def)
  note h = settled [OF F(2,8), simplified]
  have hT: "held s' Taken = held s Taken" by (rule h(3)) simp_all
  have f: "failed s' = failed s" by (auto simp: fun_eq_iff failed_def F settle_def)
  have "claimed s' = claimed s" by (auto simp: claimed_def F settle_def)
  then have "backed s'" using f F(7) by (rule backed_same [OF I(3)])
  moreover have "counters_ok s'" using I(1) h(4) hT ok(2) F(2,3,7) by (simp add: counters_ok_def) (simp add: s'_def)
  moreover have "contents_ok s'" using I(4) hT F by (simp add: contents_ok_def)
  moreover have "pc_ok s' v (cl_pc s' v)" if "v \<noteq> t" for v
    unfolding F(1) by (rule pc_ok_frame [OF I(2) [of v]]) (use that h f F in auto)
  moreover have "pc_ok s' t (case r of None \<Rightarrow> Resting | Some a \<Rightarrow> Advance a)"
    using ok h by (cases r) (auto simp: quiet_def)
  ultimately show ?thesis unfolding s'_def [symmetric] by (intro at_pc_inv)
qed

lemma advance_inv:
  assumes inv: "claims_inv s" and p: "cl_pc s t = Advance n" and sm: "small_run s"
  shows "claims_inv (at_pc t (Holding (cl_head s) n) (s\<lparr>cl_head := cl_head s + n, cl_ticket := settle (Taking t) Taken (cl_ticket s),
      cl_holder := (\<lambda>i. if unat (cl_head s) \<le> i \<and> i < unat (cl_head s) + unat n then Some t else cl_holder s i)\<rparr>))"
proof -
  define s' where "s' = s\<lparr>cl_head := cl_head s + n, cl_ticket := settle (Taking t) Taken (cl_ticket s),
      cl_holder := (\<lambda>i. if unat (cl_head s) \<le> i \<and> i < unat (cl_head s) + unat n then Some t else cl_holder s i)\<rparr>"
  note I = claims_invD [OF inv]
  have ok: "held s (Undecided t) = {}" "held s (Failing t) = {}" "card (held s (Taking t)) = unat n" using I(2) [of t] p by simp_all
  have le: "nhead s + unat n \<le> ntail s" "ntail s \<le> length (cl_in s)" using head_le_tail [OF I(3), of t] ok(3) by (simp_all add: ntail_def)
  have hd: "unat (cl_head s) = nhead s" using I(1) le sm by (simp add: counters_ok_def small_run_def unat_of_nat_64)
  have F: "cl_pc s' = cl_pc s" "cl_count s' = cl_count s" "cl_in s' = cl_in s" "cl_out s' = cl_out s"
    "cl_slot s' = cl_slot s" "ntail s' = ntail s" "cl_ticket s' = settle (Taking t) Taken (cl_ticket s)"
    "cl_holder s' i = (if nhead s \<le> i \<and> i < nhead s + unat n then Some t else cl_holder s i)" for i by (simp_all add: s'_def ntail_def hd)
  note h = settled [OF F(2,7), simplified]
  have hF: "held s' Failed = held s Failed" by (rule h(3)) simp_all
  have f: "failed s' = failed s" by (auto simp: fun_eq_iff failed_def F settle_def)
  have "claimed s' = claimed s" by (auto simp: claimed_def F settle_def)
  then have "backed s'" using f F(6) by (rule backed_same [OF I(3)])
  moreover have "counters_ok s'" using I(1) h(4) hF ok(3) F(2,3,6) by (simp add: counters_ok_def) (simp add: s'_def)
  moreover have "contents_ok s'"
  proof (rule contents_okI)
    show "cl_slot s' (of_nat j) = Some (cl_in s' ! j)" if "j < length (cl_in s')" "nhead s' \<le> j \<or> cl_holder s' j \<noteq> None" for j
      using contents_okD(1) [OF I(4), of j] that h(4) ok(3) by (auto simp: F(3,5,8) split: if_splits)
    show "distinct (map fst (cl_out s'))" using contents_okD(2) [OF I(4)] F by simp
    show "j < nhead s' \<and> cl_holder s' j = None \<and> y = cl_in s' ! j" if "(j, y) \<in> set (cl_out s')" for j y
      using contents_okD(3) [OF I(4), of j y] that h(4) by (simp add: F(3,4,8))
  qed
  moreover have "pc_ok s' v (cl_pc s' v)" if "v \<noteq> t" for v
    unfolding F(1) by (rule pc_ok_frame [OF I(2) [of v]]) (use that h f F(2,8) in auto)
  moreover have "pc_ok s' t (Holding (cl_head s) n)" using ok h hd F(8) by (simp add: quiet_def)
  ultimately show ?thesis unfolding s'_def [symmetric] by (intro at_pc_inv)
qed

lemma take_inv:
  assumes inv: "claims_inv s" and p: "cl_pc s t = Holding i n" and n: "n \<noteq> 0" and x: "cl_slot s i = Some x" and sm: "small_run s"
  shows "claims_inv (at_pc t (Holding (i + 1) (n - 1)) (s\<lparr>cl_slot := (cl_slot s)(i := None), cl_out := cl_out s @ [(unat i, x)],
      cl_holder := (cl_holder s)(unat i := None)\<rparr>))"
proof -
  define s' where "s' = s\<lparr>cl_slot := (cl_slot s)(i := None), cl_out := cl_out s @ [(unat i, x)], cl_holder := (cl_holder s)(unat i := None)\<rparr>"
  note I = claims_invD [OF inv]
  have ok: "quiet s t" "unat i + unat n \<le> nhead s" "\<forall>j. unat i \<le> j \<and> j < unat i + unat n \<longrightarrow> cl_holder s j = Some t"
    using I(2) [of t] p by simp_all
  have n0: "0 < unat n" "unat (n - 1) = unat n - 1" using n by (simp_all add: unat_gt_0 unat_minus_one)
  have le: "nhead s \<le> length (cl_in s)" using head_le_tail [OF I(3), of t] by (simp add: ntail_def)
  have i: "unat i < nhead s" "unat i < length (cl_in s)" "cl_holder s (unat i) = Some t" "unat (i + 1) = Suc (unat i)"
  proof -
    show "unat i < nhead s" "unat i < length (cl_in s)" "cl_holder s (unat i) = Some t" using ok(2,3) n0(1) le by auto
    then have "Suc (unat i) < 2 ^ 64" using sm by (simp add: small_run_def)
    then show "unat (i + 1) = Suc (unat i)" using unat_of_nat_64 [of "Suc (unat i)"] by (simp add: add.commute)
  qed
  have F: "cl_pc s' = cl_pc s" "cl_count s' = cl_count s" "cl_in s' = cl_in s" "cl_out s' = cl_out s @ [(unat i, x)]"
    "cl_slot s' = (cl_slot s)(i := None)" "ntail s' = ntail s" "cl_holder s' = (cl_holder s)(unat i := None)" by (simp_all add: s'_def ntail_def)
  have h: "held s' = held s" "failed s' = failed s" "claimed s' = claimed s" using held_same [of s' s] by (simp_all add: s'_def)
  have "backed s'" using h(3,2) F(6) by (rule backed_same [OF I(3)])
  moreover have "counters_ok s'" using I(1) h F(2,3,6) by (simp add: counters_ok_def) (simp add: s'_def)
  moreover have "contents_ok s'"
  proof (rule contents_okI)
    show "cl_slot s' (of_nat j) = Some (cl_in s' ! j)" if j: "j < length (cl_in s')" "nhead s' \<le> j \<or> cl_holder s' j \<noteq> None" for j
    proof -
      have ne: "j \<noteq> unat i" using j(2) i(1) by (auto simp: F h)
      then have "of_nat j \<noteq> i" using j(1) sm by (auto simp: F small_run_def unat_of_nat_64)
      then show ?thesis using contents_okD(1) [OF I(4), of j] j ne by (simp add: F h)
    qed
    have "unat i \<notin> fst ` set (cl_out s)" using contents_okD(3) [OF I(4)] i(3) by fastforce
    then show "distinct (map fst (cl_out s'))" using contents_okD(2) [OF I(4)] F(4) by simp
    have "x = cl_in s ! unat i" using contents_okD(1) [OF I(4) i(2)] i(3) x by simp
    then show "j < nhead s' \<and> cl_holder s' j = None \<and> y = cl_in s' ! j" if "(j, y) \<in> set (cl_out s')" for j y
      using contents_okD(3) [OF I(4), of j y] that i(1) by (auto simp: F h)
  qed
  moreover have "pc_ok s' v (cl_pc s' v)" if "v \<noteq> t" for v
    unfolding F(1) by (rule pc_ok_frame [OF I(2) [of v]]) (use that h i(3) F(2,7) in auto)
  moreover have "pc_ok s' t (Holding (i + 1) (n - 1))" using ok n0 i(4) F(7) h by (auto simp: quiet_def)
  ultimately show ?thesis unfolding s'_def [symmetric] by (intro at_pc_inv)
qed

lemma claims_step_inv:
  assumes "claim_step s s'" and "claims_inv s" and "small_run s'"
  shows "claims_inv s'"
  using assms
proof (cases rule: claim_step.cases)
  case (store x)
  then show ?thesis using assms(2,3) by (auto simp: small_run_def intro: store_inv)
next
  case publish
  then show ?thesis using assms(2) by (auto intro: publish_inv)
next
  case (load_tail t j)
  then show ?thesis using claims_invD [OF assms(2)] claims_invD(2) [OF assms(2), of t] by (auto intro!: at_pc_inv)
next
  case (load_overcommit t j ld)
  then show ?thesis using claims_invD [OF assms(2)] claims_invD(2) [OF assms(2), of t] by (auto intro!: at_pc_inv simp: counters_ok_def)
next
  case (enter t j ld ov n)
  have "j = Single \<longrightarrow> n = 1" using enter(3) by (auto split: if_splits)
  then show ?thesis using enter claims_invD [OF assms(2)] claims_invD(2) [OF assms(2), of t] by (auto intro!: at_pc_inv)
next
  case (leave t j ld ov)
  then show ?thesis using claims_invD [OF assms(2)] claims_invD(2) [OF assms(2), of t] by (auto intro!: at_pc_inv)
next
  case (count t j n ov)
  have "cl_count s + unat n < 2 ^ 62" using assms(3) count(1) by (simp add: small_run_def)
  then show ?thesis unfolding count(1) by (rule count_inv [OF assms(2) count(2)])
next
  case (test t j n ov c r)
  then show ?thesis using test_inv [OF assms(2) test(2) small_run_step [OF assms(1,3)]] by simp
next
  case (retreat t k r)
  then show ?thesis using retreat_inv [OF assms(2)] by blast
next
  case (advance t n)
  then show ?thesis using advance_inv [OF assms(2) _ small_run_step [OF assms(1,3)]] by blast
next
  case (take t i n x)
  then show ?thesis using take_inv [OF assms(2) _ _ _ small_run_step [OF assms(1,3)]] by blast
next
  case (finish t i)
  then show ?thesis using claims_invD [OF assms(2)] claims_invD(2) [OF assms(2), of t] by (auto intro!: at_pc_inv)
qed

lemma claims_new_inv: "claims_inv claims_new"
  by (simp add: claims_inv_def claims_new_def counters_ok_def backed_def contents_ok_def held_def claimed_def ntail_def quiet_def)

lemma claims_reach_inv: "claim_step\<^sup>*\<^sup>* claims_new s \<Longrightarrow> small_run s \<Longrightarrow> claims_inv s"
  by (induction rule: rtranclp_induct) (auto intro: claims_new_inv claims_step_inv dest: small_run_step)

section \<open>Nothing is left behind\<close>

text \<open>Every index below the head is held by a thread that will take its element, or has been taken out.\<close>

fun holds :: "consumer_pc \<Rightarrow> nat \<Rightarrow> bool" where
  "holds (Holding i n) j \<longleftrightarrow> unat i \<le> j \<and> j < unat i + unat n"
| "holds p j \<longleftrightarrow> False"

definition drained :: "'d claims \<Rightarrow> bool" where
  "drained s \<longleftrightarrow> (\<forall>j < nhead s. cl_holder s j = None \<longrightarrow> j \<in> fst ` set (cl_out s)) \<and>
     (\<forall>j t. cl_holder s j = Some t \<longrightarrow> holds (cl_pc s t) j)"

lemma drained_same:
  assumes "drained s" and "held s' Taken = held s Taken" and "cl_holder s' = cl_holder s" and "cl_out s' = cl_out s"
    and "\<And>j. cl_holder s j = Some t \<Longrightarrow> holds (cl_pc s t) j \<Longrightarrow> holds p j"
    and "cl_pc s' = cl_pc s"
  shows "drained (at_pc t p s')"
  using assms by (auto simp: drained_def)

lemma drained_step:
  assumes "claim_step s s'" and "claims_inv s" and "small_run s'" and d: "drained s"
  shows "drained s'"
  using assms(1)
proof (cases rule: claim_step.cases)
  case (advance t n)
  define s1 where "s1 = s\<lparr>cl_head := cl_head s + n, cl_ticket := settle (Taking t) Taken (cl_ticket s),
      cl_holder := (\<lambda>i. if unat (cl_head s) \<le> i \<and> i < unat (cl_head s) + unat n then Some t else cl_holder s i)\<rparr>"
  note I = claims_invD [OF assms(2)]
  have le: "nhead s \<le> length (cl_in s)" using head_le_tail [OF I(3), of t] by (simp add: ntail_def)
  have hd: "unat (cl_head s) = nhead s"
    using I(1) le small_run_step [OF assms(1,3)] by (simp add: counters_ok_def small_run_def unat_of_nat_64)
  have h: "nhead s1 = nhead s + unat n" using settled(4) [of s1 s "Taking t" Taken] I(2) [of t] advance(2) by (simp add: s1_def)
  have F: "cl_holder s1 i = (if nhead s \<le> i \<and> i < nhead s + unat n then Some t else cl_holder s i)" "cl_out s1 = cl_out s" "cl_pc s1 = cl_pc s" for i
    by (simp_all add: s1_def hd)
  have "cl_holder s j \<noteq> Some t" for j using d advance(2) holds.simps(8) unfolding drained_def by metis
  then have "drained (at_pc t (Holding (cl_head s) n) s1)"
    using d unfolding drained_def at_pc_simps h F by (auto simp: hd split: if_splits)
  then show ?thesis unfolding advance(1) s1_def .
next
  case (take t i n x)
  note I = claims_invD [OF assms(2)]
  have n0: "0 < unat n" "unat (n - 1) = unat n - 1" using take(3) by (simp_all add: unat_gt_0 unat_minus_one)
  have "nhead s \<le> length (cl_in s)" using head_le_tail [OF I(3), of t] by (simp add: ntail_def)
  then have "unat i + unat n \<le> length (cl_in s)" using I(2) [of t] take(2) by simp
  then have "Suc (unat i) < 2 ^ 64" using n0(1) small_run_step [OF assms(1,3)] by (simp add: small_run_def)
  then have i: "unat (i + 1) = Suc (unat i)" using unat_of_nat_64 [of "Suc (unat i)"] by (simp add: add.commute)
  define s1 where "s1 = s\<lparr>cl_slot := (cl_slot s)(i := None), cl_out := cl_out s @ [(unat i, x)], cl_holder := (cl_holder s)(unat i := None)\<rparr>"
  have F: "held s1 = held s" "cl_holder s1 = (cl_holder s)(unat i := None)" "cl_out s1 = cl_out s @ [(unat i, x)]" "cl_pc s1 = cl_pc s"
    using held_same [of s1 s] by (simp_all add: s1_def)
  have t: "holds (cl_pc s t) j \<Longrightarrow> j \<noteq> unat i \<Longrightarrow> holds (Holding (i + 1) (n - 1)) j" for j using take(2) n0 i by auto
  have "drained (at_pc t (Holding (i + 1) (n - 1)) s1)"
    using d t unfolding drained_def at_pc_simps F by (auto simp del: holds.simps split: if_splits)
  then show ?thesis unfolding take(1) s1_def .
next
  case (count t j n ov)
  then show ?thesis unfolding count(1) by (intro drained_same [OF d]) (auto simp: held_def)
next
  case (test t j n ov c r)
  then show ?thesis unfolding test(1) by (intro drained_same [OF d]) (auto simp: held_def decide_def)
next
  case (retreat t k r)
  then show ?thesis unfolding retreat(1) by (intro drained_same [OF d]) (auto simp: held_def settle_def)
next
  case (load_tail t j)
  then show ?thesis unfolding load_tail(1) by (intro drained_same [OF d]) auto
next
  case (load_overcommit t j ld)
  then show ?thesis unfolding load_overcommit(1) by (intro drained_same [OF d]) auto
next
  case (enter t j ld ov n)
  then show ?thesis unfolding enter(1) by (intro drained_same [OF d]) auto
next
  case (leave t j ld ov)
  then show ?thesis unfolding leave(1) by (intro drained_same [OF d]) auto
next
  case (finish t i)
  then show ?thesis unfolding finish(1) by (intro drained_same [OF d]) auto
qed (use d in \<open>auto simp: drained_def held_def\<close>)

lemma drained_reach: "claim_step\<^sup>*\<^sup>* claims_new s \<Longrightarrow> small_run s \<Longrightarrow> drained s"
proof (induction rule: rtranclp_induct)
  case base
  show ?case by (simp add: drained_def claims_new_def held_def)
next
  case (step s s')
  then show ?case using small_run_step drained_step claims_reach_inv by blast
qed

lemma solo_dequeue:
  assumes pc: "cl_pc s t = Resting" and one: "circular_less_than (cl_optimistic s - cl_overcommit s) (cl_tail s)"
    and x: "cl_slot s (cl_head s) = Some x"
  shows "\<exists>s'. claim_step\<^sup>*\<^sup>* s s' \<and> cl_out s' = cl_out s @ [(unat (cl_head s), x)] \<and> cl_pc s' t = Resting \<and>
    cl_count s' = Suc (cl_count s) \<and> cl_in s' = cl_in s"
proof -
  define s1 where "s1 = at_pc t (Loaded_Tail Single (cl_tail s)) s"
  define s2 where "s2 = at_pc t (Loaded_Both Single (cl_tail s) (cl_overcommit s)) s1"
  define s3 where "s3 = at_pc t (Entered Single 1 (cl_overcommit s)) s2"
  define s4 where "s4 = at_pc t (Counted Single 1 (cl_overcommit s) (cl_optimistic s3)) (s3\<lparr>cl_optimistic := cl_optimistic s3 + 1,
      cl_count := cl_count s3 + unat (1 :: 64 word),
      cl_ticket := (\<lambda>k. if cl_count s3 \<le> k \<and> k < cl_count s3 + unat (1 :: 64 word) then Undecided t else cl_ticket s3 k)\<rparr>)"
  define s5 where "s5 = at_pc t (decision 1 (Some 1)) (s4\<lparr>cl_ticket := decide t (unat (cl_optimistic s3)) (unat (1 :: 64 word)) (cl_ticket s4)\<rparr>)"
  define s6 where "s6 = at_pc t (Holding (cl_head s5) 1) (s5\<lparr>cl_head := cl_head s5 + 1, cl_ticket := settle (Taking t) Taken (cl_ticket s5),
      cl_holder := (\<lambda>i. if unat (cl_head s5) \<le> i \<and> i < unat (cl_head s5) + unat (1 :: 64 word) then Some t else cl_holder s5 i)\<rparr>)"
  define s7 where "s7 = at_pc t (Holding (cl_head s + 1) (1 - 1)) (s6\<lparr>cl_slot := (cl_slot s6)(cl_head s := None),
      cl_out := cl_out s6 @ [(unat (cl_head s), x)], cl_holder := (cl_holder s6)(unat (cl_head s) := None)\<rparr>)"
  have same: "cl_optimistic (at_pc u p w) = cl_optimistic w" "cl_overcommit (at_pc u p w) = cl_overcommit w" "cl_tail (at_pc u p w) = cl_tail w"
    "cl_head (at_pc u p w) = cl_head w" "cl_ticket (at_pc u p w) = cl_ticket w" for u p and w :: "'a claims" by (simp_all add: at_pc_def)
  note all = s1_def s2_def s3_def s4_def s5_def s6_def s7_def same
  have "claim_step s s1" unfolding s1_def by (rule claim_step.load_tail [OF pc])
  moreover have "claim_step s1 s2" unfolding s2_def using claim_step.load_overcommit [of s1 t Single "cl_tail s"] by (simp add: s1_def same)
  moreover have "claim_step s2 s3" unfolding s3_def using one by (intro claim_step.enter [of _ _ Single "cl_tail s"]) (simp_all add: s2_def s1_def same)
  moreover have "claim_step s3 s4" unfolding s4_def by (rule claim_step.count) (simp add: s3_def)
  moreover have "claim_step s4 s5" unfolding s5_def using claim_step.test [of s4 t Single 1 "cl_overcommit s" "cl_optimistic s3" "Some 1"] one
    by (simp add: s4_def s3_def s2_def s1_def same)
  moreover have "claim_step s5 s6" unfolding s6_def by (rule claim_step.advance) (simp add: s5_def decision_def)
  moreover have "claim_step s6 s7" unfolding s7_def using x by (intro claim_step.take) (simp_all add: all)
  moreover have "claim_step s7 (at_pc t Resting s7)" by (rule claim_step.finish [of _ _ "cl_head s + 1"]) (simp add: s7_def)
  ultimately have "claim_step\<^sup>*\<^sup>* s (at_pc t Resting s7)" by (meson rtranclp.rtrancl_into_rtrancl rtranclp.rtrancl_refl)
  moreover have "cl_out (at_pc t Resting s7) = cl_out s @ [(unat (cl_head s), x)]" "cl_count (at_pc t Resting s7) = Suc (cl_count s)"
    "cl_in (at_pc t Resting s7) = cl_in s" by (simp_all add: all)
  ultimately show ?thesis by (intro exI [of _ "at_pc t Resting s7"]) simp
qed

section \<open>Properties\<close>

text \<open>
  C5. Under every interleaving of one producer and any number of consumers that dequeue one element or many,
  with fewer than \<open>2 ^ 62\<close> elements and tickets: no index is claimed twice, no consumer gets past the tail, a consumer that
  holds an index finds a constructed element there, and the element taken out at index \<open>j\<close> is the one enqueued as number \<open>j\<close>.
\<close>

theorem claims_are_exclusive:
  assumes "claim_step\<^sup>*\<^sup>* claims_new s" and "small_run s"
  shows "distinct (map fst (cl_out s)) \<and> (\<forall>(j, x) \<in> set (cl_out s). j < length (cl_in s) \<and> x = cl_in s ! j) \<and>
    unat (cl_head s) \<le> unat (cl_tail s) \<and>
    (\<forall>t i n. cl_pc s t = Holding i n \<and> n \<noteq> 0 \<longrightarrow> cl_slot s i = Some (cl_in s ! unat i)) \<and>
    (\<forall>t u j. t \<noteq> u \<longrightarrow> \<not> (holds (cl_pc s t) j \<and> holds (cl_pc s u) j))"
proof -
  note I = claims_invD [OF claims_reach_inv [OF assms]]
  have le: "nhead s \<le> ntail s" "ntail s \<le> length (cl_in s)" using head_le_tail [OF I(3), of 0] by (simp_all add: ntail_def)
  have hold: "cl_holder s j = Some t \<and> j < nhead s" if "holds (cl_pc s t) j" for t j
    using I(2) [of t] that by (cases "cl_pc s t") auto
  have "unat (cl_head s) = nhead s" "unat (cl_tail s) = ntail s"
    using I(1) le assms(2) by (simp_all add: counters_ok_def small_run_def unat_of_nat_64)
  moreover have "\<forall>(j, x) \<in> set (cl_out s). j < length (cl_in s) \<and> x = cl_in s ! j"
    using contents_okD(3) [OF I(4)] le by fastforce
  moreover have "cl_slot s i = Some (cl_in s ! unat i)" if "cl_pc s t = Holding i n" "n \<noteq> 0" for t i n
    using hold [of t "unat i"] that contents_okD(1) [OF I(4), of "unat i"] le by (simp add: unat_gt_0)
  moreover have "\<not> (holds (cl_pc s t) j \<and> holds (cl_pc s u) j)" if "t \<noteq> u" for t u j
    using hold [of t j] hold [of u j] that by auto
  ultimately show ?thesis using contents_okD(2) [OF I(4)] le(1) by simp blast
qed

definition one_element :: "nat claims" where
  "one_element = claims_new\<lparr>cl_slot := (\<lambda>_. None)(0 \<mapsto> 7), cl_in := [7], cl_tail := 1\<rparr>"

lemma one_element_reach: "claim_step\<^sup>*\<^sup>* claims_new one_element"
proof -
  define s where "s = (claims_new :: nat claims)\<lparr>cl_slot := (cl_slot claims_new)(cl_tail (claims_new :: nat claims) \<mapsto> 7), cl_storing := True, cl_in := cl_in claims_new @ [7]\<rparr>"
  have "claim_step claims_new s" unfolding s_def by (rule claim_step.store) (simp add: claims_new_def)
  moreover have "claim_step s (s\<lparr>cl_tail := cl_tail s + 1, cl_storing := False\<rparr>)" by (rule claim_step.publish) (simp add: s_def)
  moreover have "s\<lparr>cl_tail := cl_tail s + 1, cl_storing := False\<rparr> = one_element" by (simp add: s_def one_element_def claims_new_def)
  ultimately show ?thesis by (metis rtranclp.rtrancl_into_rtrancl rtranclp.rtrancl_refl)
qed

lemma one_element_facts: "cl_pc one_element t = Resting" "cl_head one_element = 0" "cl_tail one_element = 1" "cl_in one_element = [7]"
  "cl_out one_element = []" "cl_count one_element = 0" "cl_optimistic one_element = 0" "cl_overcommit one_element = 0" "cl_slot one_element 0 = Some 7"
  by (simp_all add: one_element_def claims_new_def)

theorem claims_are_exclusive_witness:
  "\<exists>s :: nat claims. claim_step\<^sup>*\<^sup>* claims_new s \<and> cl_out s = [(0, 7)] \<and> cl_in s = [7] \<and> distinct (map fst (cl_out s)) \<and>
     unat (cl_head s) \<le> unat (cl_tail s) \<and> (\<forall>t u j. t \<noteq> u \<longrightarrow> \<not> (holds (cl_pc s t) j \<and> holds (cl_pc s u) j))"
proof -
  have "circular_less_than (cl_optimistic one_element - cl_overcommit one_element) (cl_tail one_element)"
    by (simp add: one_element_facts circular_less_than_def)
  from solo_dequeue [OF one_element_facts(1) this, of 7 3] obtain s where s: "claim_step\<^sup>*\<^sup>* one_element s" "cl_out s = [(0, 7)]"
    "cl_count s = 1" "cl_in s = [7]" by (auto simp: one_element_facts)
  from one_element_reach s(1) have r: "claim_step\<^sup>*\<^sup>* claims_new s" by simp
  have "small_run s" using s by (simp add: small_run_def)
  from claims_are_exclusive [OF r this] r s(2,4) show ?thesis by blast
qed

text \<open>
  C6. When no consumer is inside a dequeue, the failed attempts are accounted for: the optimistic count less the overcommit is
  the head, and exactly the first elements, as many as the head says, have been taken out. If there is another
  element, a consumer that runs alone takes the next one.
\<close>

theorem quiescent_claims_lose_nothing:
  assumes "claim_step\<^sup>*\<^sup>* claims_new s" and "small_run s" and "\<And>t. cl_pc s t = Resting"
  shows "cl_optimistic s - cl_overcommit s = cl_head s \<and>
    mset (map snd (cl_out s)) = mset (take (unat (cl_head s)) (cl_in s)) \<and>
    (cl_head s \<noteq> cl_tail s \<longrightarrow> (\<exists>s'. claim_step\<^sup>*\<^sup>* s s' \<and> cl_pc s' t = Resting \<and>
      cl_out s' = cl_out s @ [(unat (cl_head s), cl_in s ! unat (cl_head s))]))"
proof -
  note I = claims_invD [OF claims_reach_inv [OF assms(1,2)]]
  note d = drained_reach [OF assms(1,2)]
  have le: "nhead s \<le> ntail s" "ntail s \<le> length (cl_in s)" using head_le_tail [OF I(3), of 0] by (simp_all add: ntail_def)
  have hd: "unat (cl_head s) = nhead s" "cl_head s = of_nat (nhead s)" "cl_tail s = of_nat (ntail s)"
    using I(1) le assms(2) by (simp_all add: counters_ok_def small_run_def unat_of_nat_64)
  have "quiet s u" for u using I(2) [of u] assms(3) [of u] by simp
  then have "cl_ticket s k = Taken \<or> cl_ticket s k = Failed" if "k < cl_count s" for k
    using that by (cases "cl_ticket s k") (auto simp: quiet_def held_def)
  then have "{..<cl_count s} = held s Taken \<union> held s Failed" "held s Taken \<inter> held s Failed = {}" by (auto simp: held_def)
  then have "cl_count s = nhead s + card (held s Failed)" by (metis card_Un_disjoint card_lessThan finite_held(1))
  then have opt: "cl_optimistic s - cl_overcommit s = cl_head s" using I(1) by (simp add: counters_ok_def)
  have "cl_holder s j = None" for j
  proof (cases "cl_holder s j")
    case (Some u)
    then have "holds (cl_pc s u) j" using d by (simp add: drained_def)
    then show ?thesis using assms(3) [of u] by simp
  qed
  then have "fst ` set (cl_out s) = {..<nhead s}" using d contents_okD(3) [OF I(4)] by (fastforce simp: drained_def)
  then have "mset (map fst (cl_out s)) = mset [0..<nhead s]"
    using contents_okD(2) [OF I(4)] by (intro set_eq_iff_mset_eq_distinct [THEN iffD1]) (auto simp: atLeast0LessThan)
  then have "mset (map ((!) (cl_in s)) (map fst (cl_out s))) = mset (map ((!) (cl_in s)) [0..<nhead s])" by (metis mset_map)
  moreover have "map ((!) (cl_in s)) (map fst (cl_out s)) = map snd (cl_out s)" using contents_okD(3) [OF I(4)] by fastforce
  moreover have "map ((!) (cl_in s)) [0..<nhead s] = take (nhead s) (cl_in s)" using le by (intro nth_equalityI) simp_all
  ultimately have out: "mset (map snd (cl_out s)) = mset (take (unat (cl_head s)) (cl_in s))" by (simp only: hd(1))
  have "\<exists>s'. claim_step\<^sup>*\<^sup>* s s' \<and> cl_pc s' t = Resting \<and> cl_out s' = cl_out s @ [(unat (cl_head s), cl_in s ! unat (cl_head s))]"
    if ne: "cl_head s \<noteq> cl_tail s"
  proof -
    have lt: "nhead s < ntail s" using ne hd le by (cases "nhead s = ntail s") auto
    then have "circular_less_than (cl_head s) (cl_tail s)" unfolding hd(2,3) using le assms(2)
      by (subst circular_less_than_nat) (auto simp: small_run_def)
    moreover have "cl_slot s (cl_head s) = Some (cl_in s ! nhead s)" using contents_okD(1) [OF I(4), of "nhead s"] lt le hd(2) by simp
    ultimately show ?thesis using solo_dequeue [OF assms(3) [of t], of "cl_in s ! nhead s"] opt hd(1) by auto
  qed
  with opt out show ?thesis by blast
qed

theorem quiescent_claims_lose_nothing_witness:
  "\<exists>s'. claim_step\<^sup>*\<^sup>* one_element s' \<and> cl_pc s' 3 = Resting \<and> cl_out s' = [(0, 7)]"
proof -
  have "small_run one_element" by (simp add: small_run_def one_element_facts)
  from quiescent_claims_lose_nothing [OF one_element_reach this one_element_facts(1), of 3] show ?thesis
    by (simp add: one_element_facts)
qed

end
