(* ===== verification/CQ_FreeList.thy ===== *)
theory CQ_FreeList
  imports CQ_Mem
begin

text \<open>
  The lock-free free list (\<open>FreeList\<close> of \<^verbatim>\<open>concurrentqueue/concurrentqueue.h\<close>) under any number of threads: each atomic
  access of \<open>add\<close>, \<open>try_get\<close> and \<open>add_knowing_refcount_is_zero\<close> is a step of its own. Nodes are numbered; the
  reference counts keep their 32 bits, with the bit \<open>SHOULD_BE_ON_FREELIST\<close> at the top.
\<close>

section \<open>The code, step by step\<close>

text \<open>
  Where a thread is, with its local variables. In \<open>add_knowing_refcount_is_zero\<close> (\<open>Z_\<dots>\<close>) the last argument says
  where it returns to: \<open>None\<close> for \<open>add\<close>, \<open>Some head\<close> for the loop of \<open>try_get\<close> with that head.
\<close>

datatype fl_pc =
  Outside_List
| A_Flag nat \<comment> \<open>\<open>add\<close>: before the \<open>fetch_add\<close>\<close>
| Z_Load nat "nat option option" \<comment> \<open>before loading the head\<close>
| Z_Next nat "nat option" "nat option option" \<comment> \<open>before storing the next pointer\<close>
| Z_Refs nat "nat option" "nat option option" \<comment> \<open>before storing the reference count\<close>
| Z_Cas nat "nat option" "nat option option" \<comment> \<open>before the exchange of the head\<close>
| Z_Sub nat "nat option" "nat option option" \<comment> \<open>the exchange failed; before the \<open>fetch_add\<close>\<close>
| G_Load \<comment> \<open>\<open>try_get\<close>: before loading the head\<close>
| G_Loop "nat option" \<comment> \<open>at the loop condition\<close>
| G_Ref nat "32 word" \<comment> \<open>before incrementing the reference count from the value loaded\<close>
| G_Next nat \<comment> \<open>holding a reference; before loading the next pointer\<close>
| G_Cas nat "nat option" \<comment> \<open>before the exchange of the head\<close>
| G_Sub2 nat \<comment> \<open>the node is ours; before giving both references back\<close>
| G_Sub1 nat "nat option" \<comment> \<open>the exchange failed; before giving the reference back\<close>

definition return_to :: "nat option option \<Rightarrow> fl_pc" where
  "return_to k = (case k of None \<Rightarrow> Outside_List | Some h \<Rightarrow> G_Loop h)"

text \<open>
  Ghost state: where each node is. Clients own the nodes that are \<open>Out\<close>; a node is \<open>Pending\<close> when it should be on the
  list and threads that still hold references keep it off.
\<close>

datatype fl_place = Out | Flagging nat | Zeroed nat | Linking nat | Failing_Link nat | Pending | Listed | Taken_By nat

record flist =
  fl_head :: "nat option"
  fl_next :: "nat \<Rightarrow> nat option"
  fl_refs :: "nat \<Rightarrow> 32 word"
  fl_pcs :: "nat \<Rightarrow> fl_pc"
  fl_place :: "nat \<Rightarrow> fl_place"
  fl_nodes :: "nat list" \<comment> \<open>ghost: the nodes on the list\<close>

definition go :: "nat \<Rightarrow> fl_pc \<Rightarrow> flist \<Rightarrow> flist" where
  "go t p s = s\<lparr>fl_pcs := (fl_pcs s)(t := p)\<rparr>"

definition put :: "nat \<Rightarrow> fl_place \<Rightarrow> flist \<Rightarrow> flist" where
  "put n x s = s\<lparr>fl_place := (fl_place s)(n := x)\<rparr>"

definition set_refs :: "nat \<Rightarrow> 32 word \<Rightarrow> flist \<Rightarrow> flist" where
  "set_refs n r s = s\<lparr>fl_refs := (fl_refs s)(n := r)\<rparr>"

inductive fl_step :: "nat \<Rightarrow> flist \<Rightarrow> flist \<Rightarrow> bool" for N where
  call_add: "t < N \<Longrightarrow> fl_pcs s t = Outside_List \<Longrightarrow> fl_place s n = Out \<Longrightarrow>
    fl_step N s (go t (A_Flag n) (put n (Flagging t) s))"
| a_last: "fl_pcs s t = A_Flag n \<Longrightarrow> fl_refs s n = 0 \<Longrightarrow>
    fl_step N s (go t (Z_Load n None) (put n (Zeroed t) (set_refs n (fl_refs s n + SHOULD_BE_ON_FREELIST) s)))"
| a_leave: "fl_pcs s t = A_Flag n \<Longrightarrow> fl_refs s n \<noteq> 0 \<Longrightarrow>
    fl_step N s (go t Outside_List (put n Pending (set_refs n (fl_refs s n + SHOULD_BE_ON_FREELIST) s)))"
| z_load: "fl_pcs s t = Z_Load n k \<Longrightarrow> fl_step N s (go t (Z_Next n (fl_head s) k) s)"
| z_next: "fl_pcs s t = Z_Next n h k \<Longrightarrow> fl_step N s (go t (Z_Refs n h k) (s\<lparr>fl_next := (fl_next s)(n := h)\<rparr>))"
| z_refs: "fl_pcs s t = Z_Refs n h k \<Longrightarrow> fl_step N s (go t (Z_Cas n h k) (put n (Linking t) (set_refs n 1 s)))"
| z_cas: "fl_pcs s t = Z_Cas n h k \<Longrightarrow> fl_head s = h \<Longrightarrow>
    fl_step N s (go t (return_to k) (put n Listed (s\<lparr>fl_head := Some n, fl_nodes := n # fl_nodes s\<rparr>)))"
| z_fail: "fl_pcs s t = Z_Cas n h k \<Longrightarrow> fl_head s \<noteq> h \<Longrightarrow>
    fl_step N s (go t (Z_Sub n (fl_head s) k) (put n (Failing_Link t) s))"
| z_again: "fl_pcs s t = Z_Sub n h k \<Longrightarrow> fl_refs s n = 1 \<Longrightarrow>
    fl_step N s (go t (Z_Next n h k) (put n (Zeroed t) (set_refs n (fl_refs s n + (SHOULD_BE_ON_FREELIST - 1)) s)))"
| z_leave: "fl_pcs s t = Z_Sub n h k \<Longrightarrow> fl_refs s n \<noteq> 1 \<Longrightarrow>
    fl_step N s (go t (return_to k) (put n Pending (set_refs n (fl_refs s n + (SHOULD_BE_ON_FREELIST - 1)) s)))"
| call_get: "t < N \<Longrightarrow> fl_pcs s t = Outside_List \<Longrightarrow> fl_step N s (go t G_Load s)"
| g_load: "fl_pcs s t = G_Load \<Longrightarrow> fl_step N s (go t (G_Loop (fl_head s)) s)"
| g_empty: "fl_pcs s t = G_Loop None \<Longrightarrow> fl_step N s (go t Outside_List s)"
| g_zero: "fl_pcs s t = G_Loop (Some n) \<Longrightarrow> fl_refs s n AND REFS_MASK = 0 \<Longrightarrow> fl_step N s (go t G_Load s)"
| g_refs: "fl_pcs s t = G_Loop (Some n) \<Longrightarrow> fl_refs s n AND REFS_MASK \<noteq> 0 \<Longrightarrow> fl_step N s (go t (G_Ref n (fl_refs s n)) s)"
| g_ref: "fl_pcs s t = G_Ref n r \<Longrightarrow> fl_refs s n = r \<Longrightarrow> fl_step N s (go t (G_Next n) (set_refs n (r + 1) s))"
| g_raced: "fl_pcs s t = G_Ref n r \<Longrightarrow> fl_refs s n \<noteq> r \<Longrightarrow> fl_step N s (go t G_Load s)"
| g_next: "fl_pcs s t = G_Next n \<Longrightarrow> fl_step N s (go t (G_Cas n (fl_next s n)) s)"
| g_cas: "fl_pcs s t = G_Cas n x \<Longrightarrow> fl_head s = Some n \<Longrightarrow>
    fl_step N s (go t (G_Sub2 n) (put n (Taken_By t) (s\<lparr>fl_head := x, fl_nodes := tl (fl_nodes s)\<rparr>)))"
| g_fail: "fl_pcs s t = G_Cas n x \<Longrightarrow> fl_head s \<noteq> Some n \<Longrightarrow> fl_step N s (go t (G_Sub1 n (fl_head s)) s)"
| g_sub2: "fl_pcs s t = G_Sub2 n \<Longrightarrow> fl_step N s (go t Outside_List (put n Out (set_refs n (fl_refs s n - 2) s)))"
| g_sub1: "fl_pcs s t = G_Sub1 n h \<Longrightarrow> fl_refs s n \<noteq> SHOULD_BE_ON_FREELIST + 1 \<Longrightarrow>
    fl_step N s (go t (G_Loop h) (set_refs n (fl_refs s n - 1) s))"
| g_readd: "fl_pcs s t = G_Sub1 n h \<Longrightarrow> fl_refs s n = SHOULD_BE_ON_FREELIST + 1 \<Longrightarrow>
    fl_step N s (go t (Z_Load n (Some h)) (put n (Zeroed t) (set_refs n (fl_refs s n - 1) s)))"

text \<open>At first clients own every node.\<close>

definition fl_new :: flist where
  "fl_new = \<lparr>fl_head = None, fl_next = (\<lambda>_. None), fl_refs = (\<lambda>_. 0), fl_pcs = (\<lambda>_. Outside_List), fl_place = (\<lambda>_. Out), fl_nodes = []\<rparr>"

section \<open>The invariant\<close>

text \<open>On which node a thread holds a reference.\<close>

fun refs_on :: "fl_pc \<Rightarrow> nat \<Rightarrow> bool" where
  "refs_on (G_Next m) n \<longleftrightarrow> m = n"
| "refs_on (G_Cas m x) n \<longleftrightarrow> m = n"
| "refs_on (G_Sub2 m) n \<longleftrightarrow> m = n"
| "refs_on (G_Sub1 m h) n \<longleftrightarrow> m = n"
| "refs_on p n \<longleftrightarrow> False"

definition holders :: "nat \<Rightarrow> flist \<Rightarrow> nat \<Rightarrow> nat set" where
  "holders N s n = {t. t < N \<and> refs_on (fl_pcs s t) n}"

text \<open>What the count is without those references: the list has one of its own, and so has a node on its way there or back.\<close>

fun base :: "fl_place \<Rightarrow> nat" where
  "base (Zeroed t) = 2 ^ 31"
| "base Pending = 2 ^ 31"
| "base Out = 0"
| "base (Flagging t) = 0"
| "base x = 1"

text \<open>The node that a thread is in charge of, and where it is; the thread in charge of a place.\<close>

fun station :: "nat \<Rightarrow> fl_pc \<Rightarrow> (nat \<times> fl_place) option" where
  "station t (A_Flag n) = Some (n, Flagging t)"
| "station t (Z_Load n k) = Some (n, Zeroed t)"
| "station t (Z_Next n h k) = Some (n, Zeroed t)"
| "station t (Z_Refs n h k) = Some (n, Zeroed t)"
| "station t (Z_Cas n h k) = Some (n, Linking t)"
| "station t (Z_Sub n h k) = Some (n, Failing_Link t)"
| "station t (G_Sub2 n) = Some (n, Taken_By t)"
| "station t p = None"

fun busy :: "fl_place \<Rightarrow> nat option" where
  "busy (Flagging t) = Some t"
| "busy (Zeroed t) = Some t"
| "busy (Linking t) = Some t"
| "busy (Failing_Link t) = Some t"
| "busy (Taken_By t) = Some t"
| "busy x = None"

text \<open>A thread that holds a reference may rely on the next pointer that it loaded, and so may the one that stored it.\<close>

fun local_ok :: "(nat \<Rightarrow> nat option) \<Rightarrow> fl_pc \<Rightarrow> bool" where
  "local_ok nx (G_Ref n r) \<longleftrightarrow> r AND REFS_MASK \<noteq> 0"
| "local_ok nx (G_Cas n x) \<longleftrightarrow> x = nx n"
| "local_ok nx (Z_Refs n h k) \<longleftrightarrow> h = nx n"
| "local_ok nx (Z_Cas n h k) \<longleftrightarrow> h = nx n"
| "local_ok nx p \<longleftrightarrow> True"

fun linked :: "nat option \<Rightarrow> (nat \<Rightarrow> nat option) \<Rightarrow> nat list \<Rightarrow> bool" where
  "linked h nx [] \<longleftrightarrow> h = None"
| "linked h nx (n # ns) \<longleftrightarrow> h = Some n \<and> linked (nx n) nx ns"

definition place_ok :: "nat \<Rightarrow> flist \<Rightarrow> nat \<Rightarrow> bool" where
  "place_ok N s n \<longleftrightarrow> fl_refs s n = of_nat (base (fl_place s n) + card (holders N s n)) \<and>
     (\<forall>t. fl_place s n = Zeroed t \<longrightarrow> holders N s n = {}) \<and> (fl_place s n = Pending \<longrightarrow> holders N s n \<noteq> {}) \<and>
     (\<forall>t. busy (fl_place s n) = Some t \<longrightarrow> station t (fl_pcs s t) = Some (n, fl_place s n))"

definition thread_ok :: "nat \<Rightarrow> flist \<Rightarrow> nat \<Rightarrow> bool" where
  "thread_ok N s t \<longleftrightarrow> (\<forall>n x. station t (fl_pcs s t) = Some (n, x) \<longrightarrow> fl_place s n = x) \<and> local_ok (fl_next s) (fl_pcs s t) \<and>
     (N \<le> t \<longrightarrow> fl_pcs s t = Outside_List)"

definition list_ok :: "flist \<Rightarrow> bool" where
  "list_ok s \<longleftrightarrow> linked (fl_head s) (fl_next s) (fl_nodes s) \<and> distinct (fl_nodes s) \<and> (\<forall>n. n \<in> set (fl_nodes s) \<longleftrightarrow> fl_place s n = Listed)"

definition fl_inv :: "nat \<Rightarrow> flist \<Rightarrow> bool" where
  "fl_inv N s \<longleftrightarrow> (\<forall>n. place_ok N s n) \<and> (\<forall>t. thread_ok N s t) \<and> list_ok s"

lemma fl_invD:
  assumes "fl_inv N s"
  shows "place_ok N s n" "thread_ok N s t" "list_ok s"
  using assms by (simp_all add: fl_inv_def)

lemma linked_upd: "m \<notin> set ns \<Longrightarrow> linked h (nx(m := v)) ns = linked h nx ns"
  by (induction ns arbitrary: h) auto

lemma station_busy: "station t p = Some (n, x) \<Longrightarrow> busy x = Some t"
  by (cases p) auto

lemma finite_holders [simp]: "finite (holders N s n)"
  by (simp add: holders_def)

lemma card_holders: "card (holders N s n) \<le> N"
proof -
  have "card (holders N s n) \<le> card {..<N}" by (intro card_mono) (auto simp: holders_def)
  then show ?thesis by simp
qed

lemma go_simps [simp]:
  "fl_pcs (go t p s) = (fl_pcs s)(t := p)" "fl_place (go t p s) = fl_place s" "fl_refs (go t p s) = fl_refs s"
  "fl_next (go t p s) = fl_next s" "fl_head (go t p s) = fl_head s" "fl_nodes (go t p s) = fl_nodes s"
  "fl_pcs (put n x s) = fl_pcs s" "fl_place (put n x s) = (fl_place s)(n := x)" "fl_refs (put n x s) = fl_refs s"
  "fl_next (put n x s) = fl_next s" "fl_head (put n x s) = fl_head s" "fl_nodes (put n x s) = fl_nodes s"
  "fl_pcs (set_refs n r s) = fl_pcs s" "fl_place (set_refs n r s) = fl_place s" "fl_refs (set_refs n r s) = (fl_refs s)(n := r)"
  "fl_next (set_refs n r s) = fl_next s" "fl_head (set_refs n r s) = fl_head s" "fl_nodes (set_refs n r s) = fl_nodes s"
  by (simp_all add: go_def put_def set_refs_def)

lemma holders_simps [simp]:
  "holders N (go t p (put n x s)) = holders N (go t p s)" "holders N (go t p (set_refs n r s)) = holders N (go t p s)"
  "holders N (go t p (s\<lparr>fl_head := h, fl_nodes := ns\<rparr>)) = holders N (go t p s)" "holders N (go t p (s\<lparr>fl_next := nx\<rparr>)) = holders N (go t p s)"
  by (simp_all add: holders_def fun_eq_iff)

section \<open>What a step does to it\<close>

text \<open>
  Steps of a thread that touch at most one node, \<open>n\<close>: its place and count change together with what the thread
  holds. Nobody else is in charge of the node when its place changes.
\<close>

lemma node_step_inv:
  assumes inv: "fl_inv N s" and t: "t < N" and pc: "fl_pcs s' = (fl_pcs s)(t := p)"
    and place: "fl_place s' = (fl_place s)(n := x)" and refs: "fl_refs s' = (fl_refs s)(n := r)" and nx: "fl_next s' = fl_next s"
    and free: "x = fl_place s n \<and> station t p = station t (fl_pcs s t) \<or>
      (busy (fl_place s n) = None \<or> busy (fl_place s n) = Some t) \<and> (\<forall>m y. station t (fl_pcs s t) = Some (m, y) \<longrightarrow> m = n) \<and>
      station t p = (if busy x = None then None else Some (n, x)) \<and> (busy x = None \<or> busy x = Some t)"
    and hold: "\<And>m. m \<noteq> n \<Longrightarrow> refs_on p m = refs_on (fl_pcs s t) m"
    and cnt: "r = of_nat (base x + card (holders N s' n))" "\<And>u. x = Zeroed u \<Longrightarrow> holders N s' n = {}" "x = Pending \<Longrightarrow> holders N s' n \<noteq> {}"
    and loc: "local_ok (fl_next s) p" and lst: "list_ok s'"
  shows "fl_inv N s'"
proof -
  note I = fl_invD [OF inv]
  have ho: "holders N s' m = holders N s m" if "m \<noteq> n" for m using hold [OF that] by (auto simp: holders_def pc)
  have bz: "busy (fl_place s m) \<noteq> Some t" if "m \<noteq> n" "\<forall>k y. station t (fl_pcs s t) = Some (k, y) \<longrightarrow> k = n" for m
    using I(1) [of m] that by (auto simp: place_ok_def)
  have "place_ok N s' m" for m
  proof (cases "m = n")
    case True
    have "station u (fl_pcs s' u) = Some (n, x)" if "busy x = Some u" for u
      using free that I(1) [of n] by (auto simp: pc place_ok_def)
    then show ?thesis using True cnt by (simp add: place_ok_def place refs)
  next
    case False
    have "station u (fl_pcs s' u) = Some (m, fl_place s m)" if "busy (fl_place s m) = Some u" for u
      using free that I(1) [of m] bz [OF False] by (cases "u = t") (auto simp: pc place_ok_def)
    then show ?thesis using False I(1) [of m] ho by (simp add: place_ok_def place refs)
  qed
  moreover have "thread_ok N s' u" for u
  proof (cases "u = t")
    case True
    have "fl_place s' m = y" if "station t p = Some (m, y)" for m y
      using free that I(2) [of t] by (auto simp: thread_ok_def place split: if_splits)
    then show ?thesis using True loc t by (simp add: thread_ok_def pc nx)
  next
    case False
    have "m \<noteq> n \<or> x = fl_place s n" if "station u (fl_pcs s u) = Some (m, y)" for m y
      using free False that station_busy [OF that] I(2) [of u] by (auto simp: thread_ok_def)
    then show ?thesis using False I(2) [of u] by (auto simp: thread_ok_def pc nx place)
  qed
  ultimately show ?thesis using lst by (simp add: fl_inv_def)
qed

text \<open>Steps that change nothing but what a thread knows.\<close>

lemma pc_step_inv:
  assumes inv: "fl_inv N s" and t: "t < N" and "station t p = station t (fl_pcs s t)" and "\<And>m. refs_on p m = refs_on (fl_pcs s t) m"
    and "local_ok (fl_next s) p"
  shows "fl_inv N (go t p s)"
proof -
  note I = fl_invD [OF inv]
  have ho: "holders N (go t p s) = holders N s" using assms(4) by (auto simp: holders_def fun_eq_iff)
  show ?thesis
    by (rule node_step_inv [OF inv t, where n = 0 and x = "fl_place s 0" and r = "fl_refs s 0" and p = p])
       (use I(1) [of 0] I(3) assms ho in \<open>auto simp: place_ok_def list_ok_def\<close>)
qed

text \<open>Counting references.\<close>

lemma holders_keep: "fl_pcs s' = (fl_pcs s)(t := p) \<Longrightarrow> refs_on p n = refs_on (fl_pcs s t) n \<Longrightarrow> holders N s' n = holders N s n"
  by (auto simp: holders_def)

lemma holders_gain:
  assumes "fl_pcs s' = (fl_pcs s)(t := p)" and "t < N" and "\<not> refs_on (fl_pcs s t) n" and "refs_on p n"
  shows "holders N s' n = insert t (holders N s n)" "card (holders N s' n) = Suc (card (holders N s n))"
proof -
  show h: "holders N s' n = insert t (holders N s n)" using assms by (auto simp: holders_def)
  have "t \<notin> holders N s n" using assms(3) by (simp add: holders_def)
  then show "card (holders N s' n) = Suc (card (holders N s n))" by (simp add: h)
qed

lemma holders_lose:
  assumes "fl_pcs s' = (fl_pcs s)(t := p)" and "t < N" and "refs_on (fl_pcs s t) n" and "\<not> refs_on p n"
  shows "holders N s' n = holders N s n - {t}" "card (holders N s n) = Suc (card (holders N s' n))"
proof -
  show h: "holders N s' n = holders N s n - {t}" using assms by (auto simp: holders_def)
  have "t \<in> holders N s n" using assms by (simp add: holders_def)
  then show "card (holders N s n) = Suc (card (holders N s' n))" unfolding h by (intro card.remove) simp_all
qed

lemma should_nat: "SHOULD_BE_ON_FREELIST = of_nat (2 ^ 31)"
  by (simp add: SHOULD_BE_ON_FREELIST_def)

lemma should_mask: "SHOULD_BE_ON_FREELIST AND REFS_MASK = 0"
  by (simp add: SHOULD_BE_ON_FREELIST_def REFS_MASK_def)

lemma of_nat_32:
  assumes "m < 2 ^ 32" and "n < 2 ^ 32"
  shows "(of_nat m :: 32 word) = of_nat n \<longleftrightarrow> m = n"
proof -
  have "unat (of_nat k :: 32 word) = k" if "k < 2 ^ 32" for k using that by (simp add: unsigned_of_nat take_bit_nat_eq_self_iff)
  with assms show ?thesis by metis
qed

lemma base_le: "base x \<le> 2 ^ 31" "base x = 2 ^ 31 \<longleftrightarrow> x = Pending \<or> (\<exists>t. x = Zeroed t)"
  by (cases x; simp)+

text \<open>The value of the count, and the comparisons that the code makes.\<close>

lemma refs_value:
  assumes "fl_inv N s" and "N < 2 ^ 31 - 1" and "v < 2 ^ 32"
  shows "fl_refs s n = of_nat v \<longleftrightarrow> base (fl_place s n) + card (holders N s n) = v"
proof -
  have "base (fl_place s n) + card (holders N s n) < 2 ^ 32"
    using base_le(1) [of "fl_place s n"] card_holders [of N s n] assms(2) by simp
  then show ?thesis using fl_invD(1) [OF assms(1), of n] of_nat_32 [OF _ assms(3)] by (simp add: place_ok_def del: of_nat_add)
qed

lemma thread_lt: "fl_inv N s \<Longrightarrow> fl_pcs s t \<noteq> Outside_List \<Longrightarrow> t < N"
  using fl_invD(2) [of N s t] by (auto simp: thread_ok_def not_le [symmetric])

lemma stationed: "fl_inv N s \<Longrightarrow> station t (fl_pcs s t) = Some (n, x) \<Longrightarrow> fl_place s n = x"
  using fl_invD(2) [of N s t] by (auto simp: thread_ok_def)

lemma list_ok_place: "list_ok s \<Longrightarrow> fl_place s n \<noteq> Listed \<Longrightarrow> x \<noteq> Listed \<Longrightarrow> fl_head s' = fl_head s \<Longrightarrow> fl_next s' = fl_next s \<Longrightarrow>
   fl_nodes s' = fl_nodes s \<Longrightarrow> fl_place s' = (fl_place s)(n := x) \<Longrightarrow> list_ok s'"
  by (auto simp: list_ok_def)

text \<open>Adding a node whose count is, or is not, zero.\<close>

lemma add_steps_inv:
  assumes inv: "fl_inv N s" and N: "N < 2 ^ 31 - 1"
  shows "t < N \<Longrightarrow> fl_pcs s t = Outside_List \<Longrightarrow> fl_place s n = Out \<Longrightarrow> fl_inv N (go t (A_Flag n) (put n (Flagging t) s))"
    and "fl_pcs s t = A_Flag n \<Longrightarrow> fl_refs s n = 0 \<Longrightarrow>
      fl_inv N (go t (Z_Load n None) (put n (Zeroed t) (set_refs n (fl_refs s n + SHOULD_BE_ON_FREELIST) s)))"
    and "fl_pcs s t = A_Flag n \<Longrightarrow> fl_refs s n \<noteq> 0 \<Longrightarrow>
      fl_inv N (go t Outside_List (put n Pending (set_refs n (fl_refs s n + SHOULD_BE_ON_FREELIST) s)))"
proof -
  note I = fl_invD [OF inv]
  note R = refs_value [OF inv N]
  show "fl_inv N (go t (A_Flag n) (put n (Flagging t) s))" (is "fl_inv N ?s") if t: "t < N" "fl_pcs s t = Outside_List" "fl_place s n = Out"
  proof -
    have h: "holders N ?s n = holders N s n" by (rule holders_keep [of _ s t "A_Flag n"]) (use t in simp_all)
    show ?thesis
      by (rule node_step_inv [OF inv t(1), where n = n and x = "Flagging t" and r = "fl_refs s n" and p = "A_Flag n"])
         (use I(1) [of n] t h list_ok_place [OF I(3), of n "Flagging t" ?s] in \<open>auto simp: place_ok_def\<close>)
  qed
  assume t: "fl_pcs s t = A_Flag n"
  have tN: "t < N" using thread_lt [OF inv] t by simp
  have pl: "fl_place s n = Flagging t" using stationed [OF inv, of t] t by simp
  show "fl_inv N (go t (Z_Load n None) (put n (Zeroed t) (set_refs n (fl_refs s n + SHOULD_BE_ON_FREELIST) s)))" (is "fl_inv N ?s") if z: "fl_refs s n = 0"
  proof -
    have h: "holders N ?s n = holders N s n" by (rule holders_keep [of _ s t "Z_Load n None"]) (use t in simp_all)
    have e: "holders N s n = {}" using R [of 0 n] z pl by simp
    show ?thesis
      by (rule node_step_inv [OF inv tN, where n = n and x = "Zeroed t" and r = "fl_refs s n + SHOULD_BE_ON_FREELIST" and p = "Z_Load n None"])
         (use t pl z h e list_ok_place [OF I(3), of n "Zeroed t" ?s] in \<open>auto simp: should_nat\<close>)
  qed
  show "fl_inv N (go t Outside_List (put n Pending (set_refs n (fl_refs s n + SHOULD_BE_ON_FREELIST) s)))" (is "fl_inv N ?s") if z: "fl_refs s n \<noteq> 0"
  proof -
    have h: "holders N ?s n = holders N s n" by (rule holders_keep [of _ s t "Outside_List"]) (use t in simp_all)
    have e: "holders N s n \<noteq> {}" using R [of 0 n] z pl by auto
    show ?thesis
      by (rule node_step_inv [OF inv tN, where n = n and x = Pending and r = "fl_refs s n + SHOULD_BE_ON_FREELIST" and p = Outside_List])
         (use I(1) [of n] t pl h e list_ok_place [OF I(3), of n Pending ?s] in \<open>auto simp: should_nat place_ok_def\<close>)
  qed
qed

text \<open>\<open>add_knowing_refcount_is_zero\<close>, from its store of the next pointer on.\<close>

lemma z_next_inv:
  assumes inv: "fl_inv N s" and t: "fl_pcs s t = Z_Next n h k"
  shows "fl_inv N (go t (Z_Refs n h k) (s\<lparr>fl_next := (fl_next s)(n := h)\<rparr>))" (is "fl_inv N ?s")
proof -
  note I = fl_invD [OF inv]
  have pl: "fl_place s n = Zeroed t" using stationed [OF inv, of t] t by simp
  have no: "holders N s n = {}" using I(1) [of n] pl by (simp add: place_ok_def)
  have h: "holders N ?s m = holders N s m" for m by (rule holders_keep [of _ s t "Z_Refs n h k"]) (use t in simp_all)
  have "place_ok N ?s m" for m using I(1) [of m] t h by (auto simp: place_ok_def)
  moreover have "thread_ok N ?s u" for u
  proof (cases "u = t")
    case True
    then show ?thesis using I(2) [of t] t by (auto simp: thread_ok_def)
  next
    case False
    have "\<not> refs_on (fl_pcs s u) n" using no thread_lt [OF inv, of u] by (cases "fl_pcs s u") (auto simp: holders_def)
    moreover have "station u (fl_pcs s u) \<noteq> Some (n, y)" for y
      using stationed [OF inv, of u n y] station_busy [of u "fl_pcs s u" n y] pl False by auto
    ultimately show ?thesis using I(2) [of u] False by (cases "fl_pcs s u") (auto simp: thread_ok_def)
  qed
  moreover have "list_ok ?s" using I(3) pl linked_upd [of n "fl_nodes s"] by (auto simp: list_ok_def)
  ultimately show ?thesis by (simp add: fl_inv_def)
qed

lemma z_steps_inv:
  assumes inv: "fl_inv N s" and N: "N < 2 ^ 31 - 1"
  shows "fl_pcs s t = Z_Refs n h k \<Longrightarrow> fl_inv N (go t (Z_Cas n h k) (put n (Linking t) (set_refs n 1 s)))"
    and "fl_pcs s t = Z_Cas n h k \<Longrightarrow> fl_head s = h \<Longrightarrow>
      fl_inv N (go t (return_to k) (put n Listed (s\<lparr>fl_head := Some n, fl_nodes := n # fl_nodes s\<rparr>)))"
    and "fl_pcs s t = Z_Cas n h k \<Longrightarrow> fl_inv N (go t (Z_Sub n (fl_head s) k) (put n (Failing_Link t) s))"
proof -
  note I = fl_invD [OF inv]
  show "fl_inv N (go t (Z_Cas n h k) (put n (Linking t) (set_refs n 1 s)))" (is "fl_inv N ?s") if t: "fl_pcs s t = Z_Refs n h k"
  proof -
    have tN: "t < N" using thread_lt [OF inv] t by simp
    have pl: "fl_place s n = Zeroed t" using stationed [OF inv, of t] t by simp
    have "holders N ?s n = holders N s n" by (rule holders_keep [of _ s t "Z_Cas n h k"]) (use t in simp_all)
    then have "holders N ?s n = {}" using I(1) [of n] pl by (simp add: place_ok_def)
    then show ?thesis
      by (intro node_step_inv [OF inv tN, where n = n and x = "Linking t" and r = 1 and p = "Z_Cas n h k"])
         (use I(2) [of t] t pl list_ok_place [OF I(3), of n "Linking t" ?s] in \<open>auto simp: thread_ok_def\<close>)
  qed
  assume t: "fl_pcs s t = Z_Cas n h k"
  have tN: "t < N" using thread_lt [OF inv] t by simp
  have pl: "fl_place s n = Linking t" using stationed [OF inv, of t] t by simp
  have ret: "station t (return_to k) = None" "\<not> refs_on (return_to k) m" "local_ok nx (return_to k)" for m nx
    by (cases k; simp add: return_to_def)+
  show "fl_inv N (go t (return_to k) (put n Listed (s\<lparr>fl_head := Some n, fl_nodes := n # fl_nodes s\<rparr>)))" (is "fl_inv N ?s") if hd: "fl_head s = h"
  proof -
    have "holders N ?s n = holders N s n" by (rule holders_keep [of _ s t "return_to k"]) (use t ret in simp_all)
    moreover have "fl_next s n = h" using I(2) [of t] t by (simp add: thread_ok_def)
    then have "list_ok ?s" using I(3) hd pl by (auto simp: list_ok_def)
    ultimately show ?thesis
      by (intro node_step_inv [OF inv tN, where n = n and x = Listed and r = "fl_refs s n" and p = "return_to k"])
         (use I(1) [of n] t pl ret in \<open>auto simp: place_ok_def\<close>)
  qed
  show "fl_inv N (go t (Z_Sub n (fl_head s) k) (put n (Failing_Link t) s))" (is "fl_inv N ?s")
  proof -
    have "holders N ?s n = holders N s n" by (rule holders_keep [of _ s t "Z_Sub n (fl_head s) k"]) (use t in simp_all)
    then show ?thesis
      by (intro node_step_inv [OF inv tN, where n = n and x = "Failing_Link t" and r = "fl_refs s n" and p = "Z_Sub n (fl_head s) k"])
         (use I(1) [of n] t pl list_ok_place [OF I(3), of n "Failing_Link t" ?s] in \<open>auto simp: place_ok_def\<close>)
  qed
qed

lemma z_sub_inv:
  assumes inv: "fl_inv N s" and N: "N < 2 ^ 31 - 1" and t: "fl_pcs s t = Z_Sub n h k"
  shows "fl_refs s n = 1 \<Longrightarrow> fl_inv N (go t (Z_Next n h k) (put n (Zeroed t) (set_refs n (fl_refs s n + (SHOULD_BE_ON_FREELIST - 1)) s)))"
    and "fl_refs s n \<noteq> 1 \<Longrightarrow> fl_inv N (go t (return_to k) (put n Pending (set_refs n (fl_refs s n + (SHOULD_BE_ON_FREELIST - 1)) s)))"
proof -
  note I = fl_invD [OF inv]
  have tN: "t < N" using thread_lt [OF inv] t by simp
  have pl: "fl_place s n = Failing_Link t" using stationed [OF inv, of t] t by simp
  have one: "fl_refs s n = 1 \<longleftrightarrow> holders N s n = {}" using refs_value [OF inv N, of 1 n] pl by simp
  have val: "fl_refs s n + (SHOULD_BE_ON_FREELIST - 1) = of_nat (2 ^ 31 + card (holders N s n))"
    using I(1) [of n] pl by (simp add: place_ok_def should_nat)
  have ret: "station t (return_to k) = None" "\<not> refs_on (return_to k) m" "local_ok nx (return_to k)" for m nx
    by (cases k; simp add: return_to_def)+
  define r where "r = fl_refs s n + (SHOULD_BE_ON_FREELIST - 1)"
  note val = val [folded r_def]
  show "fl_inv N (go t (Z_Next n h k) (put n (Zeroed t) (set_refs n (fl_refs s n + (SHOULD_BE_ON_FREELIST - 1)) s)))" if "fl_refs s n = 1"
    unfolding r_def [symmetric]
  proof -
    let ?s = "go t (Z_Next n h k) (put n (Zeroed t) (set_refs n r s))"
    have "holders N ?s n = holders N s n" by (rule holders_keep [of _ s t "Z_Next n h k"]) (use t in simp_all)
    then show "fl_inv N ?s"
      by (intro node_step_inv [OF inv tN, where n = n and x = "Zeroed t" and r = r and p = "Z_Next n h k"])
         (use that one val t pl list_ok_place [OF I(3), of n "Zeroed t" ?s] in auto)
  qed
  show "fl_inv N (go t (return_to k) (put n Pending (set_refs n (fl_refs s n + (SHOULD_BE_ON_FREELIST - 1)) s)))" if "fl_refs s n \<noteq> 1"
    unfolding r_def [symmetric]
  proof -
    let ?s = "go t (return_to k) (put n Pending (set_refs n r s))"
    have h: "holders N ?s n = holders N s n" by (rule holders_keep [of _ s t "return_to k"]) (use t ret in simp_all)
    show "fl_inv N ?s"
      by (rule node_step_inv [OF inv tN, where n = n and x = Pending and r = r and p = "return_to k"])
         (use h that one val t pl ret list_ok_place [OF I(3), of n Pending ?s] in \<open>simp_all del: of_nat_add\<close>)
  qed
qed

text \<open>Taking a node off the list.\<close>

lemma g_ref_inv:
  assumes inv: "fl_inv N s" and t: "fl_pcs s t = G_Ref n r" and r: "fl_refs s n = r"
  shows "fl_inv N (go t (G_Next n) (set_refs n (r + 1) s))" (is "fl_inv N ?s")
proof -
  note I = fl_invD [OF inv]
  have tN: "t < N" using thread_lt [OF inv] t by simp
  have "r AND REFS_MASK \<noteq> 0" using I(2) [of t] t by (simp add: thread_ok_def)
  then have z: "fl_place s n \<noteq> Zeroed u" for u using I(1) [of n] r should_mask by (auto simp: place_ok_def should_nat)
  have h: "holders N ?s n = insert t (holders N s n)" "card (holders N ?s n) = Suc (card (holders N s n))"
    by (rule holders_gain [of _ s t "G_Next n"]; use t tN in simp)+
  have "r = of_nat (base (fl_place s n) + card (holders N s n))" using I(1) [of n] r by (simp add: place_ok_def)
  then have c: "r + 1 = of_nat (base (fl_place s n) + card (holders N ?s n))" using h(2) by simp
  show ?thesis
    by (rule node_step_inv [OF inv tN, where n = n and x = "fl_place s n" and r = "r + 1" and p = "G_Next n"])
       (use t z h c I(3) in \<open>auto simp: list_ok_def\<close>)
qed

lemma g_cas_inv:
  assumes inv: "fl_inv N s" and t: "fl_pcs s t = G_Cas n x" and hd: "fl_head s = Some n"
  shows "fl_inv N (go t (G_Sub2 n) (put n (Taken_By t) (s\<lparr>fl_head := x, fl_nodes := tl (fl_nodes s)\<rparr>)))" (is "fl_inv N ?s")
proof -
  note I = fl_invD [OF inv]
  have tN: "t < N" using thread_lt [OF inv] t by simp
  obtain ns where ns: "fl_nodes s = n # ns" using I(3) hd by (cases "fl_nodes s") (auto simp: list_ok_def)
  then have pl: "fl_place s n = Listed" using I(3) by (auto simp: list_ok_def)
  have "x = fl_next s n" using I(2) [of t] t by (simp add: thread_ok_def)
  then have "list_ok ?s" using I(3) ns by (auto simp: list_ok_def)
  moreover have "holders N ?s n = holders N s n" by (rule holders_keep [of _ s t "G_Sub2 n"]) (use t in simp_all)
  ultimately show ?thesis
    by (intro node_step_inv [OF inv tN, where n = n and x = "Taken_By t" and r = "fl_refs s n" and p = "G_Sub2 n"])
       (use I(1) [of n] t pl in \<open>auto simp: place_ok_def\<close>)
qed

lemma g_sub2_inv:
  assumes inv: "fl_inv N s" and t: "fl_pcs s t = G_Sub2 n"
  shows "fl_inv N (go t Outside_List (put n Out (set_refs n (fl_refs s n - 2) s)))" (is "fl_inv N ?s")
proof -
  note I = fl_invD [OF inv]
  have tN: "t < N" using thread_lt [OF inv] t by simp
  have pl: "fl_place s n = Taken_By t" using stationed [OF inv, of t] t by simp
  have h: "card (holders N s n) = Suc (card (holders N ?s n))" by (rule holders_lose(2) [of _ s t Outside_List]) (use t tN in simp_all)
  have "fl_refs s n = of_nat (Suc (card (holders N s n)))" using I(1) [of n] pl by (simp add: place_ok_def)
  then have "fl_refs s n - 2 = of_nat (card (holders N ?s n))" using h by simp
  then show ?thesis
    by (intro node_step_inv [OF inv tN, where n = n and x = Out and r = "fl_refs s n - 2" and p = Outside_List])
       (use t pl list_ok_place [OF I(3), of n Out ?s] in auto)
qed

lemma g_sub1_inv:
  assumes inv: "fl_inv N s" and N: "N < 2 ^ 31 - 1" and t: "fl_pcs s t = G_Sub1 n h"
  shows "fl_refs s n \<noteq> SHOULD_BE_ON_FREELIST + 1 \<Longrightarrow> fl_inv N (go t (G_Loop h) (set_refs n (fl_refs s n - 1) s))"
    and "fl_refs s n = SHOULD_BE_ON_FREELIST + 1 \<Longrightarrow> fl_inv N (go t (Z_Load n (Some h)) (put n (Zeroed t) (set_refs n (fl_refs s n - 1) s)))"
proof -
  note I = fl_invD [OF inv]
  have tN: "t < N" using thread_lt [OF inv] t by simp
  have ht: "t \<in> holders N s n" using tN t by (simp add: holders_def)
  have last: "fl_refs s n = SHOULD_BE_ON_FREELIST + 1 \<longleftrightarrow> base (fl_place s n) + card (holders N s n) = 2 ^ 31 + 1"
    using refs_value [OF inv N, of "2 ^ 31 + 1" n] by (simp add: should_nat)
  have z: "fl_place s n \<noteq> Zeroed u" for u using I(1) [of n] ht by (auto simp: place_ok_def)
  define r where "r = fl_refs s n - 1"
  have val: "r = of_nat (base (fl_place s n) + (card (holders N s n) - 1))"
    using I(1) [of n] ht unfolding r_def place_ok_def by (cases "card (holders N s n)") auto
  show "fl_inv N (go t (G_Loop h) (set_refs n (fl_refs s n - 1) s))" if nl: "fl_refs s n \<noteq> SHOULD_BE_ON_FREELIST + 1"
    unfolding r_def [symmetric]
  proof -
    let ?s = "go t (G_Loop h) (set_refs n r s)"
    have c: "card (holders N s n) = Suc (card (holders N ?s n))" by (rule holders_lose(2) [of _ s t "G_Loop h"]) (use t tN in simp_all)
    have v: "r = of_nat (base (fl_place s n) + card (holders N ?s n))" using val c by simp
    have p: "holders N ?s n \<noteq> {}" if "fl_place s n = Pending" using nl last that c by auto
    show "fl_inv N ?s"
      by (rule node_step_inv [OF inv tN, where n = n and x = "fl_place s n" and r = r and p = "G_Loop h"])
         (use t z v p I(3) in \<open>simp_all add: list_ok_def del: of_nat_add\<close>)
  qed
  show "fl_inv N (go t (Z_Load n (Some h)) (put n (Zeroed t) (set_refs n (fl_refs s n - 1) s)))" if la: "fl_refs s n = SHOULD_BE_ON_FREELIST + 1"
    unfolding r_def [symmetric]
  proof -
    let ?s = "go t (Z_Load n (Some h)) (put n (Zeroed t) (set_refs n r s))"
    have c: "card (holders N s n) = Suc (card (holders N ?s n))" by (rule holders_lose(2) [of _ s t "Z_Load n (Some h)"]) (use t tN in simp_all)
    have "base (fl_place s n) = 2 ^ 31" using la last card_holders [of N s n] N by (cases "fl_place s n") simp_all
    then have pl: "fl_place s n = Pending" using base_le(2) z by blast
    then have one: "card (holders N s n) = 1" using la last by simp
    then have "card (holders N ?s n) = 0" using c by linarith
    then have "holders N ?s n = {}" by simp
    moreover have "r = of_nat (2 ^ 31)" using val [unfolded one pl] by simp
    ultimately show "fl_inv N ?s"
      by (intro node_step_inv [OF inv tN, where n = n and x = "Zeroed t" and r = r and p = "Z_Load n (Some h)"])
         (use t pl list_ok_place [OF I(3), of n "Zeroed t" ?s] in auto)
  qed
qed

lemma fl_step_inv:
  assumes st: "fl_step N s s'" and inv: "fl_inv N s" and N: "N < 2 ^ 31 - 1"
  shows "fl_inv N s'"
  using st
proof (cases rule: fl_step.cases)
  case (z_load t n k)
  then show ?thesis using thread_lt [OF inv] by (auto intro!: pc_step_inv [OF inv])
next
  case (call_get t)
  then show ?thesis by (auto intro!: pc_step_inv [OF inv])
next
  case (g_load t)
  then show ?thesis using thread_lt [OF inv] by (auto intro!: pc_step_inv [OF inv])
next
  case (g_empty t)
  then show ?thesis using thread_lt [OF inv] by (auto intro!: pc_step_inv [OF inv])
next
  case (g_zero t n)
  then show ?thesis using thread_lt [OF inv] by (auto intro!: pc_step_inv [OF inv])
next
  case (g_refs t n)
  then show ?thesis using thread_lt [OF inv] by (auto intro!: pc_step_inv [OF inv])
next
  case (g_raced t n r)
  then show ?thesis using thread_lt [OF inv] by (auto intro!: pc_step_inv [OF inv])
next
  case (g_next t n)
  then show ?thesis using thread_lt [OF inv] by (auto intro!: pc_step_inv [OF inv])
next
  case (g_fail t n x)
  then show ?thesis using thread_lt [OF inv] by (auto intro!: pc_step_inv [OF inv])
qed (blast intro: add_steps_inv [OF inv N] z_next_inv [OF inv] z_steps_inv [OF inv N] z_sub_inv [OF inv N] g_ref_inv [OF inv] g_cas_inv [OF inv]
    g_sub2_inv [OF inv] g_sub1_inv [OF inv N])+

lemma fl_new_inv: "fl_inv N fl_new"
  by (simp add: fl_inv_def fl_new_def place_ok_def thread_ok_def list_ok_def holders_def)

lemma fl_reach_inv: "(fl_step N)\<^sup>*\<^sup>* fl_new s \<Longrightarrow> N < 2 ^ 31 - 1 \<Longrightarrow> fl_inv N s"
  by (induction rule: rtranclp_induct) (auto intro: fl_new_inv fl_step_inv)

lemma small_refs_flag:
  assumes "v < 2 ^ 31"
  shows "(of_nat v :: 32 word) AND SHOULD_BE_ON_FREELIST = 0"
proof -
  have "SHOULD_BE_ON_FREELIST = 2 ^ 31" by (simp add: SHOULD_BE_ON_FREELIST_def)
  moreover have "\<not> bit v 31" using assms by (simp add: bit_iff_odd)
  then have "\<not> bit (of_nat v :: 32 word) 31" by (simp add: bit_of_nat_iff)
  ultimately show ?thesis by (metis and_exp_eq_0_iff_not_bit)
qed

section \<open>Properties\<close>

text \<open>
  C7. Under every interleaving of fewer than \<open>2 ^ 31 - 1\<close> threads that add and get nodes, the free list never hands a node out
  twice: a node that \<open>try_get\<close> is about to return belongs to no client, is not on the list, and is being
  returned by that thread only; the assertion in \<open>try_get\<close>, that its flag is not set, holds. The list that the
  pointers make is free of cycles and contains no node of a client.
\<close>

theorem free_list_exclusive:
  assumes "(fl_step N)\<^sup>*\<^sup>* fl_new s" and "N < 2 ^ 31 - 1"
  shows "(\<forall>t n. fl_pcs s t = G_Sub2 n \<longrightarrow> fl_place s n \<noteq> Out \<and> n \<notin> set (fl_nodes s) \<and> fl_refs s n AND SHOULD_BE_ON_FREELIST = 0 \<and>
      (\<forall>u. fl_pcs s u = G_Sub2 n \<longrightarrow> u = t)) \<and>
    linked (fl_head s) (fl_next s) (fl_nodes s) \<and> distinct (fl_nodes s) \<and> (\<forall>n \<in> set (fl_nodes s). fl_place s n \<noteq> Out)"
proof -
  note inv = fl_reach_inv [OF assms]
  note I = fl_invD [OF inv]
  have pl: "fl_place s n = Taken_By t" if "fl_pcs s t = G_Sub2 n" for t n using stationed [OF inv, of t] that by simp
  moreover have "fl_refs s n AND SHOULD_BE_ON_FREELIST = 0" if "fl_pcs s t = G_Sub2 n" for t n
  proof -
    have "fl_refs s n = of_nat (1 + card (holders N s n))" using I(1) [of n] pl [OF that] by (simp add: place_ok_def)
    moreover have "1 + card (holders N s n) < 2 ^ 31" using card_holders [of N s n] assms(2) by simp
    ultimately show ?thesis using small_refs_flag by metis
  qed
  moreover have "linked (fl_head s) (fl_next s) (fl_nodes s)" "distinct (fl_nodes s)" "n \<in> set (fl_nodes s) \<longleftrightarrow> fl_place s n = Listed" for n
    using I(3) by (simp_all add: list_ok_def)
  ultimately show ?thesis by (metis fl_place.distinct fl_place.inject(5))
qed

text \<open>Thread 0 adds node 5; then thread 1 gets it, up to the point where it returns.\<close>

definition added :: flist where
  "added = fl_new\<lparr>fl_head := Some 5, fl_refs := (\<lambda>_. 0)(5 := 1), fl_place := (\<lambda>_. Out)(5 := Listed), fl_nodes := [5]\<rparr>"

definition taking :: flist where
  "taking = added\<lparr>fl_head := None, fl_refs := (\<lambda>_. 0)(5 := 2), fl_pcs := (\<lambda>_. Outside_List)(1 := G_Sub2 5),
     fl_place := (\<lambda>_. Out)(5 := Taken_By 1), fl_nodes := []\<rparr>"

lemma added_reach: "(fl_step 2)\<^sup>*\<^sup>* fl_new added"
proof -
  define s1 where "s1 = go 0 (A_Flag 5) (put 5 (Flagging 0) fl_new)"
  define s2 where "s2 = go 0 (Z_Load 5 None) (put 5 (Zeroed 0) (set_refs 5 (fl_refs s1 5 + SHOULD_BE_ON_FREELIST) s1))"
  define s3 where "s3 = go 0 (Z_Next 5 (fl_head s2) None) s2"
  define s4 where "s4 = go 0 (Z_Refs 5 None None) (s3\<lparr>fl_next := (fl_next s3)(5 := None)\<rparr>)"
  define s5 where "s5 = go 0 (Z_Cas 5 None None) (put 5 (Linking 0) (set_refs 5 1 s4))"
  define s6 where "s6 = go 0 (return_to None) (put 5 Listed (s5\<lparr>fl_head := Some 5, fl_nodes := 5 # fl_nodes s5\<rparr>))"
  have "fl_step 2 fl_new s1" unfolding s1_def by (rule fl_step.call_add) (simp_all add: fl_new_def)
  moreover have "fl_step 2 s1 s2" unfolding s2_def by (rule fl_step.a_last) (simp_all add: s1_def fl_new_def)
  moreover have "fl_step 2 s2 s3" unfolding s3_def by (rule fl_step.z_load) (simp add: s2_def)
  moreover have "fl_step 2 s3 s4" unfolding s4_def by (rule fl_step.z_next) (simp add: s3_def s2_def s1_def fl_new_def)
  moreover have "fl_step 2 s4 s5" unfolding s5_def by (rule fl_step.z_refs) (simp add: s4_def)
  moreover have "fl_step 2 s5 s6" unfolding s6_def by (rule fl_step.z_cas [where h = None]) (simp_all add: s5_def s4_def s3_def s2_def s1_def fl_new_def)
  ultimately have "(fl_step 2)\<^sup>*\<^sup>* fl_new s6" by (meson rtranclp.rtrancl_into_rtrancl rtranclp.rtrancl_refl)
  moreover have "s6 = added"
    by (simp add: s6_def s5_def s4_def s3_def s2_def s1_def added_def fl_new_def go_def put_def set_refs_def return_to_def fun_eq_iff)
  ultimately show ?thesis by simp
qed

lemma taking_reach: "(fl_step 2)\<^sup>*\<^sup>* fl_new taking"
proof -
  define s1 where "s1 = go 1 G_Load added"
  define s2 where "s2 = go 1 (G_Loop (fl_head s1)) s1"
  define s3 where "s3 = go 1 (G_Ref 5 (fl_refs s2 5)) s2"
  define s4 where "s4 = go 1 (G_Next 5) (set_refs 5 (fl_refs s2 5 + 1) s3)"
  define s5 where "s5 = go 1 (G_Cas 5 (fl_next s4 5)) s4"
  define s6 where "s6 = go 1 (G_Sub2 5) (put 5 (Taken_By 1) (s5\<lparr>fl_head := fl_next s4 5, fl_nodes := tl (fl_nodes s5)\<rparr>))"
  have "fl_step 2 added s1" unfolding s1_def by (rule fl_step.call_get) (simp_all add: added_def fl_new_def)
  moreover have "fl_step 2 s1 s2" unfolding s2_def by (rule fl_step.g_load) (simp add: s1_def)
  moreover have "fl_step 2 s2 s3" unfolding s3_def by (rule fl_step.g_refs) (simp_all add: s2_def s1_def added_def REFS_MASK_def)
  moreover have "fl_step 2 s3 s4" unfolding s4_def by (rule fl_step.g_ref) (simp_all add: s3_def)
  moreover have "fl_step 2 s4 s5" unfolding s5_def by (rule fl_step.g_next) (simp add: s4_def)
  moreover have "fl_step 2 s5 s6" unfolding s6_def by (rule fl_step.g_cas) (simp_all add: s5_def s4_def s3_def s2_def s1_def added_def)
  ultimately have "(fl_step 2)\<^sup>*\<^sup>* added s6" by (meson rtranclp.rtrancl_into_rtrancl rtranclp.rtrancl_refl)
  moreover have "s6 = taking"
    by (simp add: s6_def s5_def s4_def s3_def s2_def s1_def added_def taking_def fl_new_def go_def put_def set_refs_def fun_eq_iff)
  ultimately show ?thesis using rtranclp_trans [OF added_reach] by simp
qed

theorem free_list_exclusive_witness:
  "fl_pcs taking 1 = G_Sub2 5 \<and> fl_place taking 5 \<noteq> Out \<and>
   linked (fl_head taking) (fl_next taking) (fl_nodes taking)"
proof -
  have "(2 :: nat) < 2 ^ 31 - 1" by simp
  moreover have "fl_pcs taking 1 = G_Sub2 5" by (simp add: taking_def)
  ultimately show ?thesis using free_list_exclusive [OF taking_reach] by blast
qed

text \<open>
  C8. The free list loses nothing: whenever no thread is inside it, every node belongs to a client, with a count of zero, or is
  on the list, with the count of the list's own reference. While threads are inside, a node that should be on the
  list and is not has a thread that still holds a reference to it and will add it.
\<close>

theorem free_list_keeps_nodes:
  assumes "(fl_step N)\<^sup>*\<^sup>* fl_new s" and "N < 2 ^ 31 - 1"
  shows "(fl_place s n = Pending \<longrightarrow> (\<exists>t < N. refs_on (fl_pcs s t) n)) \<and>
    ((\<forall>t. fl_pcs s t = Outside_List) \<longrightarrow> fl_place s n = Out \<and> fl_refs s n = 0 \<or> n \<in> set (fl_nodes s) \<and> fl_refs s n = 1)"
proof -
  note I = fl_invD [OF fl_reach_inv [OF assms]]
  have "\<exists>t < N. refs_on (fl_pcs s t) n" if "fl_place s n = Pending" using I(1) [of n] that by (auto simp: place_ok_def holders_def)
  moreover have "fl_place s n = Out \<and> fl_refs s n = 0 \<or> n \<in> set (fl_nodes s) \<and> fl_refs s n = 1" if o: "\<And>t. fl_pcs s t = Outside_List"
  proof -
    have h: "holders N s n = {}" by (simp add: holders_def o)
    have "busy (fl_place s n) = None" using I(1) [of n] o by (cases "busy (fl_place s n)") (auto simp: place_ok_def)
    moreover have "fl_place s n \<noteq> Pending" using I(1) [of n] h by (auto simp: place_ok_def)
    ultimately show ?thesis using I(1) [of n] I(3) h by (cases "fl_place s n") (auto simp: place_ok_def list_ok_def)
  qed
  ultimately show ?thesis by blast
qed

theorem free_list_keeps_nodes_witness: "5 \<in> set (fl_nodes added) \<and> fl_refs added 5 = 1"
proof -
  have "(2 :: nat) < 2 ^ 31 - 1" by simp
  moreover have "fl_pcs added t = Outside_List" for t by (simp add: added_def fl_new_def)
  moreover have "fl_place added 5 \<noteq> Out" by (simp add: added_def)
  ultimately show ?thesis using free_list_keeps_nodes [OF added_reach, of 5] by blast
qed

end
