(* ===== verification/CQ_Threads.thy ===== *)
theory CQ_Threads
  imports CQ_Queue
begin

text \<open>
  Threads that end, where the queue is built to be told (\<^verbatim>\<open>MOODYCAMEL_CPP11_THREAD_LOCAL_SUPPORTED\<close>): their
  producers are recycled, their slots in the table are marked as reusable.
\<close>

section \<open>Threads one after the other\<close>

text \<open>Each thread of the list looks up its producer for the first time and ends.\<close>

fun short_lived :: "traits \<Rightarrow> 64 word list \<Rightarrow> 'd queue \<Rightarrow> 'd queue outcome" where
  "short_lived T [] q = Ret q"
| "short_lived T (tid # tids) q =
     and_then (get_or_add_implicit_producer (hash_fuel q) True T tid q) (\<lambda>(_, q1).
     and_then (thread_exit (hash_fuel q1) tid q1) (short_lived T tids))"

section \<open>A table full of reusable marks\<close>

definition slot_of :: "nat \<Rightarrow> 64 word \<Rightarrow> nat" where
  "slot_of k tid = unat (hash_thread_id tid) mod 2 ^ k"

text \<open>A table of \<open>2 ^ k\<close> slots, of which those in \<open>M\<close> have been left by threads and the others never used.\<close>

definition marked_tab :: "nat \<Rightarrow> nat set \<Rightarrow> ImplicitProducerHash \<Rightarrow> bool" where
  "marked_tab k M h \<longleftrightarrow> k < 64 \<and> h_capacity h = 2 ^ k \<and> length (h_entries h) = 2 ^ k \<and>
     (\<forall>j < 2 ^ k. key_at h j = (if j \<in> M then invalid_thread_id2 else invalid_thread_id))"

lemma marked_tabD:
  assumes "marked_tab k M h"
  shows "hash_shape h" "cap h = 2 ^ k" "j < 2 ^ k \<Longrightarrow> key_at h j = (if j \<in> M then invalid_thread_id2 else invalid_thread_id)"
  using assms by (auto simp: marked_tab_def hash_shape_def cap_def unat_pow2)

lemma marked_forever:
  assumes m: "marked_tab k {..<2 ^ k} h" and tid: "valid_tid tid"
  shows "hash_probe f tid h i = No_Fuel"
proof (rule probe_forever)
  note D = marked_tabD [OF m]
  show "hash_shape h" by (rule D(1))
  show "\<not> has_room h" using D(2,3) by (auto simp: has_room_def invalid_thread_id_def invalid_thread_id2_def)
  show "tid \<notin> keys h" using D(2,3) by (auto simp: keys_def)
qed (rule tid)

text \<open>A thread that comes to a slot never used, takes it and leaves it.\<close>

lemma pass_through:
  assumes m: "marked_tab k M h" and tid: "valid_tid tid" and new: "slot_of k tid \<notin> M"
  shows "hash_probe (Suc f) tid h (hash_thread_id tid) = Ret None"
    "\<exists>h1 h2. hash_claim (Suc f) tls tid v h (hash_thread_id tid) = Ret h1 \<and> length (h_entries h1) = 2 ^ k \<and>
      hash_leave (Suc f') tid h1 (hash_thread_id tid) = Ret h2 \<and> marked_tab k (insert (slot_of k tid) M) h2"
proof -
  note D = marked_tabD [OF m]
  let ?i = "hash_thread_id tid" and ?s = "slot_of k tid"
  let ?h1 = "h\<lparr>h_entries := (h_entries h)[?s := \<lparr>kvp_key = tid, kvp_value = v\<rparr>]\<rparr>"
  let ?h2 = "h\<lparr>h_entries := (h_entries h)[?s := \<lparr>kvp_key = invalid_thread_id2, kvp_value = v\<rparr>]\<rparr>"
  have s: "?s < 2 ^ k" "unat ?i mod cap h = ?s" by (simp_all add: slot_of_def D(2))
  have empty: "key_at h ?s = invalid_thread_id" using D(3) [OF s(1)] new by simp
  show "hash_probe (Suc f) tid h ?i = Ret None" using probe_step [OF D(1), of f tid "unat ?i"] s empty tid
    by (auto simp: valid_tid_def simp del: hash_probe.simps)
  have claim: "hash_claim (Suc f) tls tid v h ?i = Ret ?h1" using claim_step [OF D(1), of f tls tid v "unat ?i"] s empty by simp
  have len: "length (h_entries h) = 2 ^ k" using m by (simp add: marked_tab_def)
  have shape1: "hash_shape ?h1" "cap ?h1 = cap h" using D(1) by (simp_all add: hash_shape_def cap_def)
  have leave: "hash_leave (Suc f') tid ?h1 ?i = Ret ?h2"
    using leave_step [OF shape1(1), of f' tid "unat ?i"] s shape1(2) len by simp
  have "marked_tab k (insert ?s M) ?h2" using m len s(1) by (auto simp: marked_tab_def nth_list_update)
  then show "\<exists>h1 h2. hash_claim (Suc f) tls tid v h ?i = Ret h1 \<and> length (h_entries h1) = 2 ^ k \<and>
      hash_leave (Suc f') tid h1 ?i = Ret h2 \<and> marked_tab k (insert ?s M) h2"
    using claim leave len by (intro exI [of _ ?h1] exI [of _ ?h2]) simp
qed

text \<open>
  The queue between two threads: a table whose slots in \<open>M\<close> are marked, \<open>c\<close> slots counted as used, and one
  implicit producer.
\<close>

definition tab_state :: "nat \<Rightarrow> nat set \<Rightarrow> 64 word \<Rightarrow> 'd queue \<Rightarrow> bool" where
  "tab_state k M c q \<longleftrightarrow> hash_end q = q_this q \<and> hash_dyn q = [] \<and> (\<exists>h. initialImplicitProducerHash q = [h] \<and> marked_tab k M h) \<and>
     exit_listeners q = (\<lambda>_. []) \<and> \<not> implicitProducerHashResizeInProgress q \<and> implicitProducerHashCount q = c"

definition one_producer :: "bool \<Rightarrow> 'd queue \<Rightarrow> bool" where
  "one_producer b q \<longleftrightarrow> producerListTail q = Some 0 \<and>
     (\<exists>n p. producers q = [n] \<and> nd_prod n = Implicit p \<and> \<not> isExplicit p \<and> p_inactive p = b)"

lemma no_growth:
  assumes k: "3 \<le> k" "k < 64" and c: "c = 0 \<or> c = (1 :: 64 word)"
  shows "\<not> (1 + c \<ge> drop_bit 1 (2 ^ k))" "1 + c < drop_bit 1 (2 ^ k) + drop_bit 2 (2 ^ k)"
proof -
  have d: "drop_bit n (2 ^ k :: 64 word) = 2 ^ (k - n)" if "n \<le> k" for n
    using that k(2) by (simp add: drop_bit_exp_eq push_bit_eq_mult possible_bit_word)
  have u: "unat (2 ^ (k - 1) :: 64 word) = 2 ^ (k - 1)" "unat (2 ^ (k - 2) :: 64 word) = 2 ^ (k - 2)" using k by (simp_all add: unat_pow2)
  have pow: "(2 :: nat) ^ 2 \<le> 2 ^ (k - 1)" "(2 :: nat) ^ (k - 1) \<le> 2 ^ 62" "(2 :: nat) ^ (k - 2) \<le> 2 ^ 62"
    using k by (intro power_increasing; simp)+
  have "unat (2 ^ (k - 1) + 2 ^ (k - 2) :: 64 word) = 2 ^ (k - 1) + 2 ^ (k - 2)" using u pow by (subst unat_add_lem [THEN iffD1]) auto
  moreover have "unat (1 + c) \<le> 2" using c by auto
  ultimately show "\<not> (1 + c \<ge> drop_bit 1 (2 ^ k))" "1 + c < drop_bit 1 (2 ^ k) + drop_bit 2 (2 ^ k)"
    using k d [of 1] d [of 2] u pow by (simp_all add: word_le_nat_alt word_less_nat_alt)
qed

lemma one_thread:
  assumes q: "tab_state k M c q" and k: "3 \<le> k" and c: "c = 0 \<or> c = 1" and tid: "valid_tid tid" "slot_of k tid \<notin> M"
    and rec: "recycle_or_create_producer T False (q\<lparr>implicitProducerHashCount := c + 1\<rparr>) = Ret (Some 0, c = 1, q1)"
    and q1: "tab_state k M (c + 1) q1" "one_producer False q1"
  shows "\<exists>q2. short_lived T (tid # tids) q = short_lived T tids q2 \<and> tab_state k (insert (slot_of k tid) M) 1 q2 \<and> one_producer True q2"
proof -
  obtain h where h: "initialImplicitProducerHash q = [h]" "marked_tab k M h" using q by (auto simp: tab_state_def)
  have k64: "k < 64" and cap: "h_capacity h = 2 ^ k" using h(2) by (auto simp: marked_tab_def)
  obtain f where f: "hash_fuel q = Suc f" by (cases "hash_fuel q") (simp_all add: hash_fuel_def)
  obtain h' where h': "initialImplicitProducerHash q1 = [h']" "marked_tab k M h'" using q1 by (auto simp: tab_state_def)
  obtain n p where n: "producers q1 = [n]" "nd_prod n = Implicit p" "\<not> isExplicit p" using q1(2) by (auto simp: one_producer_def)
  have chain: "hash_chain q = Ret [h]" using q h by (simp add: tab_state_def hash_chain_def)
  have find: "hash_find (Suc f) tid [h] = Ret None" using pass_through(1) [OF h(2) tid, of f] by simp
  let ?q1 = "q\<lparr>implicitProducerHashCount := c + 1\<rparr>"
  have chain1: "hash_chain ?q1 = Ret [h]" using q h by (simp add: tab_state_def hash_chain_def)
  have "hash_resize (1 + c) ?q1 = Ret (Inr (), ?q1)" using chain1 no_growth(1) [OF k k64 c] cap by (simp add: hash_resize_def)
  then have ins: "get_or_add_implicit_producer (Suc f) True T tid q = hash_register (Suc f) True T tid ?q1"
    using chain chain1 find no_growth(2) [OF k k64 c] cap q by (simp add: get_or_add_implicit_producer_def numeral_2_eq_2 tab_state_def Let_def)
  let ?q3 = "subscribe tid 0 (q1\<lparr>implicitProducerHashCount := 1\<rparr>)"
  have sub: "(if c = 1 then q1\<lparr>implicitProducerHashCount := implicitProducerHashCount q1 - 1\<rparr> else q1) = q1\<lparr>implicitProducerHashCount := 1\<rparr>"
    using c q1(1) by (auto simp: tab_state_def)
  obtain h1 where h1: "hash_claim (Suc f) True tid (Some 0) h' (hash_thread_id tid) = Ret h1" "length (h_entries h1) = 2 ^ k"
    "\<And>f'. \<exists>h2. hash_leave (Suc f') tid h1 (hash_thread_id tid) = Ret h2 \<and> marked_tab k (insert (slot_of k tid) M) h2"
    using pass_through(2) [OF h'(2) tid, of f True "Some 0"] by (metis outcome.inject(1))
  have chain3: "hash_chain ?q3 = Ret [h']" using q1(1) h'(1) by (simp add: subscribe_def hash_chain_def tab_state_def)
  have reg: "hash_register (Suc f) True T tid ?q1 = Ret (Some 0, put_chain [h1] ?q3)"
    unfolding hash_register_def rec using sub chain3 h1(1) by (simp add: Let_def del: hash_claim.simps)
  let ?q4 = "put_chain [h1] ?q3"
  obtain f' where f': "hash_fuel ?q4 = Suc f'" by (cases "hash_fuel ?q4") (simp_all add: hash_fuel_def)
  obtain h2 where h2: "hash_leave (Suc f') tid h1 (hash_thread_id tid) = Ret h2" "marked_tab k (insert (slot_of k tid) M) h2" using h1(3) by blast
  let ?q5 = "put_prod 0 (set_inactive True (Implicit p)) (put_chain [h2] (unsubscribe tid 0 ?q4))"
  have listen: "exit_listeners ?q4 tid = [0]" using q1(1) by (simp add: put_chain_def subscribe_def tab_state_def Let_def)
  have "hash_chain (unsubscribe tid 0 ?q4) = Ret [h1]" using q1(1)
    by (simp add: put_chain_def subscribe_def unsubscribe_def hash_chain_def tab_state_def Let_def)
  then have exit: "thread_exit (Suc f') tid ?q4 = Ret ?q5"
    unfolding thread_exit_def listen using h2(1) n
    by (simp add: implicit_producer_thread_exited_def with_prod_def put_chain_def subscribe_def unsubscribe_def Let_def del: hash_leave.simps)
  have "short_lived T (tid # tids) q = short_lived T tids ?q5" using ins reg exit f f' by simp
  moreover have "tab_state k (insert (slot_of k tid) M) 1 ?q5"
    using q1(1) h2(2) by (simp add: tab_state_def put_prod_def put_chain_def unsubscribe_def subscribe_def Let_def fun_eq_iff)
  moreover have "one_producer True ?q5" using n q1(2) by (simp add: one_producer_def put_prod_def put_chain_def unsubscribe_def subscribe_def Let_def)
  ultimately show ?thesis by blast
qed

lemma recycle_one:
  assumes "one_producer True q"
  shows "\<exists>q'. recycle_or_create_producer T False q = Ret (Some 0, True, q') \<and> one_producer False q' \<and> tab_state k M c q' = tab_state k M c q"
proof -
  obtain n p where n: "producerListTail q = Some 0" "producers q = [n]" "nd_prod n = Implicit p" "\<not> isExplicit p" "p_inactive p"
    using assms by (auto simp: one_producer_def)
  let ?q = "put_prod 0 (set_inactive False (Implicit p)) q"
  have "recycle_or_create_producer T False q = Ret (Some 0, True, ?q)"
    using n by (simp add: recycle_or_create_producer_def list_fuel_def with_prod_def prod_base_def producer.truncate_def)
  moreover have "one_producer False ?q" "tab_state k M c ?q = tab_state k M c q" using n by (auto simp: one_producer_def tab_state_def put_prod_def)
  ultimately show ?thesis by blast
qed

lemma many_threads:
  "tab_state k M 1 q \<Longrightarrow> one_producer True q \<Longrightarrow> 3 \<le> k \<Longrightarrow> list_all valid_tid tids \<Longrightarrow> distinct (map (slot_of k) tids) \<Longrightarrow>
   M \<inter> slot_of k ` set tids = {} \<Longrightarrow>
   \<exists>q'. short_lived T tids q = Ret q' \<and> tab_state k (M \<union> slot_of k ` set tids) 1 q' \<and> one_producer True q'"
proof (induction tids arbitrary: M q)
  case (Cons tid tids)
  let ?q = "q\<lparr>implicitProducerHashCount := 1 + 1\<rparr>"
  have q: "one_producer True ?q" "tab_state k M (1 + 1) ?q" using Cons.prems(1,2) by (auto simp: one_producer_def tab_state_def)
  from recycle_one [OF q(1), of T k M "1 + 1"] q(2) obtain q1 where q1: "recycle_or_create_producer T False ?q = Ret (Some 0, True, q1)"
    "one_producer False q1" "tab_state k M (1 + 1) q1" by auto
  have "valid_tid tid" "slot_of k tid \<notin> M" using Cons.prems by auto
  from one_thread [OF Cons.prems(1,3) _ this, of T q1 tids] q1 obtain q2 where
    q2: "short_lived T (tid # tids) q = short_lived T tids q2" "tab_state k (insert (slot_of k tid) M) 1 q2" "one_producer True q2" by auto
  have "insert (slot_of k tid) M \<inter> slot_of k ` set tids = {}" using Cons.prems(5,6) by auto
  from Cons.IH [OF q2(2,3) Cons.prems(3) _ _ this] Cons.prems q2(1) show ?case by simp
qed simp

lemma create_first:
  assumes "producers q = []" and "producerListTail q = None" and "malloc_ok (q_mem q) = (\<lambda>_. True)"
  shows "\<exists>q'. recycle_or_create_producer T False q = Ret (Some 0, False, q') \<and> one_producer False q' \<and> tab_state k M c q' = tab_state k M c q"
proof -
  obtain p m where p: "implicit_producer_new T ((q_mem q)\<lparr>mallocs := Suc (mallocs (q_mem q))\<rparr>) = (p, m)" by force
  then have fresh: "\<not> isExplicit p" "\<not> p_inactive p"
    by (auto simp: implicit_producer_new_def Let_def new_block_index_def malloc_def split: prod.splits if_splits)
  let ?q = "q\<lparr>q_mem := m, producerCount := producerCount q + 1,
    producers := [\<lparr>nd_prod = set_next None (Implicit p), nd_parent = q_this q\<rparr>], producerListTail := Some 0\<rparr>"
  have "recycle_or_create_producer T False q = Ret (Some 0, False, ?q)"
    using assms p by (simp add: recycle_or_create_producer_def list_fuel_def create_producer_def add_producer_def malloc_def)
  moreover have "one_producer False ?q" "tab_state k M c ?q = tab_state k M c q" using fresh by (simp_all add: one_producer_def tab_state_def)
  ultimately show ?thesis by blast
qed

text \<open>
  C40. Where threads report their end, short-lived threads that come one after the other make the queue
  hang, whatever the size of its table: each recycles the one producer, and the count of used slots is taken
  back although the thread has taken a slot that was never used. When the threads have come through every
  slot, the table is full of reusable marks, the count is one and the table is not grown, and the search for
  the producer of any thread never ends.
\<close>

theorem reusable_marks_hang_lookup:
  assumes "INITIAL_IMPLICIT_PRODUCER_HASH_SIZE T = 2 ^ k" and "3 \<le> k" and "k < 64"
    and "list_all valid_tid tids" and "distinct (map (slot_of k) tids)" and "slot_of k ` set tids = {..<2 ^ k}" and "valid_tid tid"
  shows "\<exists>q. short_lived T tids (ConcurrentQueue T this cpty (mem_new limit (\<lambda>_. True))) = Ret q \<and>
    implicitProducerHashCount q = 1 \<and> length (producers q) = 1 \<and>
    (\<forall>fuel. get_or_add_implicit_producer fuel True T tid q = No_Fuel)"
proof -
  define q0 :: "'a queue" where "q0 = ConcurrentQueue T this cpty (mem_new limit (\<lambda>_. True))"
  let ?q = "q0\<lparr>implicitProducerHashCount := 0 + 1\<rparr>"
  have "0 \<in> slot_of k ` set tids" unfolding assms(6) by simp
  then obtain t ts where ts: "tids = t # ts" by (cases tids) auto
  have start: "tab_state k {} 0 q0" unfolding q0_def using assms(1,3)
    by (simp add: tab_state_def ConcurrentQueue_def queue_with_blocks_def populate_initial_implicit_producer_hash_def marked_tab_def empty_hash_def unat_pow2)
  have "producers ?q = []" "producerListTail ?q = None" "malloc_ok (q_mem ?q) = (\<lambda>_. True)" unfolding q0_def
    by (simp_all add: ConcurrentQueue_def queue_with_blocks_def populate_initial_block_list_def mem_new_def malloc_def Let_def)
  from create_first [OF this, of T k "{}" "0 + 1"] start obtain q1 where
    "recycle_or_create_producer T False ?q = Ret (Some 0, False, q1)" "one_producer False q1" "tab_state k {} (0 + 1) q1"
    by (auto simp: tab_state_def)
  then obtain q2 where q2: "short_lived T tids q0 = short_lived T ts q2" "tab_state k {slot_of k t} 1 q2" "one_producer True q2"
    using one_thread [OF start assms(2), of t T q1 ts] assms(4) ts by auto
  have "{slot_of k t} \<inter> slot_of k ` set ts = {}" using assms(5) ts by auto
  from many_threads [OF q2(2,3) assms(2) _ _ this, of T] assms(4,5) ts q2(1) obtain q where
    q: "short_lived T tids q0 = Ret q" "tab_state k ({slot_of k t} \<union> slot_of k ` set ts) 1 q" "one_producer True q" by auto
  moreover have "{slot_of k t} \<union> slot_of k ` set ts = {..<2 ^ k}" using assms(6) ts by simp
  ultimately have tab: "tab_state k {..<2 ^ k} 1 q" by simp
  then obtain h where "hash_chain q = Ret [h]" "marked_tab k {..<2 ^ k} h" by (auto simp: tab_state_def hash_chain_def)
  then have "get_or_add_implicit_producer fuel True T tid q = No_Fuel" for fuel
    using marked_forever [OF _ assms(7)] by (simp add: get_or_add_implicit_producer_def)
  then show ?thesis unfolding q0_def [symmetric] using q(1,3) tab by (intro exI [of _ q]) (auto simp: tab_state_def one_producer_def)
qed

text \<open>A table of eight slots and eight threads whose hashes start at different ones.\<close>

definition eight_slots :: traits where
  "eight_slots = ConcurrentQueueDefaultTraits\<lparr>INITIAL_IMPLICIT_PRODUCER_HASH_SIZE := 8\<rparr>"

definition eight_threads :: "64 word list" where
  "eight_threads = [200, 40, 88, 48, 16, 32, 64, 8]"

lemma slot_of_mask: "k \<le> 64 \<Longrightarrow> slot_of k tid = unat (hash_thread_id tid AND (2 ^ k - 1))"
  using unat_and_mask [of k "unat (hash_thread_id tid)"] by (simp add: slot_of_def)

lemma eight_threads_masks: "map (\<lambda>tid. hash_thread_id tid AND 7) eight_threads = [0, 1, 2, 3, 4, 5, 6, 7]"
  by code_simp

lemma eight_threads_slots: "map (slot_of 3) eight_threads = [0, 1, 2, 3, 4, 5, 6, 7]"
proof -
  have "map (slot_of 3) eight_threads = map unat (map (\<lambda>tid. hash_thread_id tid AND 7) eight_threads)" by (simp add: slot_of_mask)
  then show ?thesis unfolding eight_threads_masks by simp
qed

theorem reusable_marks_hang_lookup_witness:
  "\<exists>q :: nat queue. short_lived eight_slots eight_threads (ConcurrentQueue eight_slots 0 192 (mem_new 100 (\<lambda>_. True))) = Ret q \<and>
    implicitProducerHashCount q = 1 \<and> length (producers q) = 1 \<and>
    (\<forall>fuel. get_or_add_implicit_producer fuel True eight_slots 512 q = No_Fuel)"
proof (rule reusable_marks_hang_lookup [where k = 3])
  show "INITIAL_IMPLICIT_PRODUCER_HASH_SIZE eight_slots = 2 ^ 3" "(3 :: nat) \<le> 3" "(3 :: nat) < 64" by (simp_all add: eight_slots_def)
  show "list_all valid_tid eight_threads" "valid_tid 512"
    by (simp_all add: eight_threads_def valid_tid_def invalid_thread_id_def invalid_thread_id2_def)
  show "distinct (map (slot_of 3) eight_threads)" unfolding eight_threads_slots by simp
  have "slot_of 3 ` set eight_threads = set (map (slot_of 3) eight_threads)" by simp
  then show "slot_of 3 ` set eight_threads = {..<2 ^ 3}" unfolding eight_threads_slots by auto
qed

end
